(* ===== verification/Prelude.thy ===== *)
theory Prelude
  imports Main "HOL-Library.Word"
begin

text \<open>
  Shared ground of the development: the outcomes of the interpreter's C functions that do not
  return normally, C integer arithmetic at the widths of the OpenVMS build
  (\<^verbatim>\<open>src/ruby/vms/config.h\<close>: \<open>short\<close> 16, \<open>int\<close> and \<open>long\<close> 32 bits, no \<open>long long\<close>), and
  generic lemmas on lists that several components use.
\<close>

section \<open>Outcomes\<close>

text \<open>
  A C function that may leave by \<open>rb_raise\<close>, hand over to code outside the model, or run into
  undefined behaviour returns a value of \<open>rb_error + 'a\<close>. \<open>Undefined\<close> marks an access the
  C standard gives no meaning (a freed block, an index outside its buffer). \<open>Float_path\<close> and
  \<open>Coerce\<close> mark the branches that continue in floating point code or in a Ruby-level
  \<open>coerce\<close> call. \<open>Rb_bug\<close> is the end of the interpreter in \<open>rb_bug\<close>. \<open>Too_deep\<close> is no outcome of the
  program: it says that a bound put on a recursion by the model is used up.
\<close>

datatype rb_error =
    NoMemError
  | ZeroDivError
  | RangeError
  | ArgError
  | IndexError
  | TypeError
  | FloatDomainError
  | IOError
  | EOFError
  | InvalError
  | FrozenError
  | RuntimeError
  | SecurityError
  | RegexpError
  | Rb_bug
  | Too_deep
  | Float_path
  | Coerce
  | Undefined

type_synonym 'a outcome = "rb_error + 'a"

abbreviation raise :: "rb_error \<Rightarrow> 'a outcome" where
  "raise \<equiv> Inl"

abbreviation return :: "'a \<Rightarrow> 'a outcome" where
  "return \<equiv> Inr"

definition obind :: "'a outcome \<Rightarrow> ('a \<Rightarrow> 'b outcome) \<Rightarrow> 'b outcome" where
  "obind m f = (case m of Inl e \<Rightarrow> Inl e | Inr x \<Rightarrow> f x)"

named_theorems outcome_simps
named_theorems wrap_simps

lemma obind_simps [simp, outcome_simps]:
  "obind (Inl e) f = Inl e"
  "obind (Inr x) f = f x"
  by (simp_all add: obind_def)

lemma obind_cong [fundef_cong]:
  "m = m' \<Longrightarrow> (\<And>x. m' = Inr x \<Longrightarrow> f x = g x) \<Longrightarrow> obind m f = obind m' g"
  by (cases m') simp_all

lemma obind_eq_Inr_iff: "obind m f = Inr y \<longleftrightarrow> (\<exists>x. m = Inr x \<and> f x = Inr y)"
  by (cases m) simp_all

section \<open>C integers\<close>

text \<open>\<open>u32\<close> and \<open>s32\<close> are the conversions to \<open>unsigned long\<close> and \<open>long\<close>.\<close>

definition u32 :: "int \<Rightarrow> int" where
  "u32 x = x mod 4294967296"

definition s32 :: "int \<Rightarrow> int" where
  "s32 x = (x + 2147483648) mod 4294967296 - 2147483648"

text \<open>Division of C truncates towards zero.\<close>

definition c_quot :: "int \<Rightarrow> int \<Rightarrow> int" where
  "c_quot a b = sgn a * sgn b * (\<bar>a\<bar> div \<bar>b\<bar>)"

definition c_rem :: "int \<Rightarrow> int \<Rightarrow> int" where
  "c_rem a b = a - b * c_quot a b"

lemma u32_id [wrap_simps]: "0 \<le> x \<Longrightarrow> x < 4294967296 \<Longrightarrow> u32 x = x"
  by (simp add: u32_def)

lemma s32_id [wrap_simps]: "- 2147483648 \<le> x \<Longrightarrow> x < 2147483648 \<Longrightarrow> s32 x = x"
  by (simp add: s32_def)

lemma wrap_0 [simp]: "u32 0 = 0" "s32 0 = 0"
  by (simp_all add: u32_def s32_def)

lemma s32_high:
  assumes "2147483648 \<le> x" "x < 4294967296"
  shows "s32 x = x - 4294967296"
proof -
  have "(x + 2147483648) mod 4294967296 = (x + 2147483648 - 4294967296) mod 4294967296"
    by (simp only: minus_mod_self2)
  also have "\<dots> = x - 2147483648" using assms by simp
  finally show ?thesis by (simp add: s32_def)
qed

lemma u32_bounds: "0 \<le> u32 x" "u32 x < 4294967296"
  by (simp_all add: u32_def)

lemma s32_bounds: "- 2147483648 \<le> s32 x" "s32 x < 2147483648"
proof -
  have "0 \<le> (x + 2147483648) mod 4294967296" "(x + 2147483648) mod 4294967296 < 4294967296"
    by simp_all
  then show "- 2147483648 \<le> s32 x" "s32 x < 2147483648"
    unfolding s32_def by linarith+
qed

lemma c_quot_nonneg: "0 \<le> a \<Longrightarrow> 0 < b \<Longrightarrow> c_quot a b = a div b"
  by (cases "a = 0") (simp_all add: c_quot_def)

lemma c_rem_nonneg: "0 \<le> a \<Longrightarrow> 0 < b \<Longrightarrow> c_rem a b = a mod b"
  by (simp add: c_rem_def c_quot_nonneg minus_mult_div_eq_mod)

lemma zdiv_less:
  assumes "0 < b" "a < c * (b::int)"
  shows "a div b < c"
proof (rule ccontr)
  assume "\<not> a div b < c"
  then have "b * c \<le> b * (a div b)" using assms(1) by simp
  also have "\<dots> \<le> a" using assms(1) by (simp add: minus_mod_eq_mult_div[symmetric])
  finally show False using assms(2) by (simp add: mult.commute)
qed

lemma zdiv_le_dividend_pow: "0 \<le> a \<Longrightarrow> a div 2 ^ n \<le> (a::int)"
  using zdiv_mono2[of a 1 "2 ^ n"] by simp

lemma add_mult_div_mod:
  fixes a b k :: int
  assumes "0 \<le> a" "a < b"
  shows "(a + b * k) div b = k" "(a + b * k) mod b = a"
  using assms by (simp_all add: div_pos_pos_trivial)

section \<open>Lists\<close>

lemma sorted_wrt_concat:
  "sorted_wrt R (concat xss) \<longleftrightarrow>
     (\<forall>xs \<in> set xss. sorted_wrt R xs) \<and>
     sorted_wrt (\<lambda>xs ys. \<forall>x \<in> set xs. \<forall>y \<in> set ys. R x y) xss"
  by (induction xss) (auto simp: sorted_wrt_append)

lemma sorted_wrt_rev_sym:
  assumes "\<And>x y. R x y \<Longrightarrow> R y x"
  shows "sorted_wrt R (rev xs) = sorted_wrt R xs"
proof -
  have "(\<lambda>x y. R y x) = R" using assms by blast
  then show ?thesis by (simp add: sorted_wrt_rev)
qed

lemma find_none_iff: "List.find P xs = None \<longleftrightarrow> (\<forall>x \<in> set xs. \<not> P x)"
  by (induction xs) auto

lemma find_append:
  "List.find P (xs @ ys) = (case List.find P xs of None \<Rightarrow> List.find P ys | Some x \<Rightarrow> Some x)"
  by (induction xs) auto

text \<open>A search over all bins only needs the bin that can hold a match.\<close>

lemma find_concat_bin:
  assumes "b < length bs"
    and "\<And>i e. i < length bs \<Longrightarrow> e \<in> set (bs ! i) \<Longrightarrow> P e \<Longrightarrow> i = b"
  shows "List.find P (concat bs) = List.find P (bs ! b)"
  using assms
proof (induction bs arbitrary: b)
  case Nil
  then show ?case by simp
next
  case (Cons x xs)
  show ?case
  proof (cases b)
    case 0
    have "List.find P (concat xs) = None"
      unfolding find_none_iff
    proof (rule ballI)
      fix e assume "e \<in> set (concat xs)"
      then obtain ys where "ys \<in> set xs" "e \<in> set ys" by auto
      then obtain i where "i < length xs" "e \<in> set (xs ! i)"
        by (auto simp: in_set_conv_nth[of ys])
      then show "\<not> P e" using Cons.prems(2)[of "Suc i" e] 0 by auto
    qed
    then show ?thesis using 0 by (simp add: find_append split: option.split)
  next
    case (Suc c)
    have "List.find P x = None"
      unfolding find_none_iff using Cons.prems(2)[of 0] Suc by auto
    moreover have "List.find P (concat xs) = List.find P (xs ! c)"
    proof (rule Cons.IH)
      show "c < length xs" using Cons.prems(1) Suc by simp
      show "i = c" if "i < length xs" "e \<in> set (xs ! i)" "P e" for i e
        using Cons.prems(2)[of "Suc i" e] that Suc by simp
    qed
    ultimately show ?thesis using Suc by (simp add: find_append)
  qed
qed

text \<open>With at most one match, the order in which a list is searched does not matter.\<close>

lemma find_unique_mem:
  assumes "x \<in> set xs" "P x" "\<And>y. y \<in> set xs \<Longrightarrow> P y \<Longrightarrow> y = x"
  shows "List.find P xs = Some x"
proof -
  have "List.find P xs \<noteq> None" using assms(1,2) by (auto simp: find_none_iff)
  then obtain y where y: "List.find P xs = Some y" by blast
  then have "y \<in> set xs \<and> P y" by (auto simp: find_Some_iff in_set_conv_nth)
  then show ?thesis using y assms(3) by simp
qed

lemma sum_list_update_int:
  "i < length xs \<Longrightarrow> sum_list (xs[i := x]) = sum_list xs - xs ! i + (x :: int)"
proof (induction xs arbitrary: i)
  case Nil
  then show ?case by simp
next
  case (Cons y ys)
  then show ?case by (cases i) auto
qed

lemma set_list_update_nth:
  "i < length xs \<Longrightarrow> y \<in> set (xs[i := x]) \<Longrightarrow> y = x \<or> (\<exists>j < length xs. j \<noteq> i \<and> y = xs ! j)"
  by (auto simp: in_set_conv_nth nth_list_update split: if_splits)

end
