(* ===== verification/St.thy ===== *)
theory St
  imports Prelude
begin

unbundle bit_operations_syntax

text \<open>
  The hash table package \<^verbatim>\<open>src/ruby/st.c\<close>, on which the interpreter's symbol, method, variable
  and \<open>Hash\<close> tables rest. A bin is the list of the entries on its chain, first entry first; a
  pointer into a chain is a position in that list. Keys and records are \<open>st_data_t\<close> words, and
  the table's type carries the comparison and the hash function, as in \<open>struct st_hash_type\<close>.
\<close>

section \<open>Data\<close>

type_synonym st_data = "32 word"

record st_hash_type =
  compare_fn :: "st_data \<Rightarrow> st_data \<Rightarrow> int"
  hash_fn :: "st_data \<Rightarrow> 32 word"

record st_table_entry =
  e_hash :: "32 word"
  e_key :: st_data
  e_record :: st_data

record st_table =
  st_type :: st_hash_type
  num_bins :: int
  num_entries :: int
  bins :: "st_table_entry list list"

datatype st_retval = ST_CONTINUE | ST_STOP | ST_DELETE | ST_CHECK

definition EQUAL :: "st_hash_type \<Rightarrow> st_data \<Rightarrow> st_data \<Rightarrow> bool" where
  "EQUAL ty x y \<longleftrightarrow> x = y \<or> compare_fn ty x y = 0"

definition do_hash :: "st_table \<Rightarrow> st_data \<Rightarrow> 32 word" where
  "do_hash t k = hash_fn (st_type t) k"

text \<open>\<open>hash_val % num_bins\<close>, on unsigned operands.\<close>

definition bin_of :: "32 word \<Rightarrow> int \<Rightarrow> nat" where
  "bin_of h n = unat h mod nat n"

definition do_hash_bin :: "st_table \<Rightarrow> st_data \<Rightarrow> nat" where
  "do_hash_bin t k = bin_of (do_hash t k) (num_bins t)"

section \<open>Sizes\<close>

definition primes :: "int list" where
  "primes =
    [8 + 3, 16 + 3, 32 + 5, 64 + 3, 128 + 3, 256 + 27, 512 + 9, 1024 + 9, 2048 + 5, 4096 + 3,
     8192 + 27, 16384 + 43, 32768 + 3, 65536 + 45, 131072 + 29, 262144 + 3, 524288 + 21,
     1048576 + 7, 2097152 + 17, 4194304 + 15, 8388608 + 9, 16777216 + 43, 33554432 + 35,
     67108864 + 15, 134217728 + 29, 268435456 + 3, 536870912 + 11, 1073741824 + 85, 0]"

text \<open>The loop of \<open>new_size\<close>: \<open>newsize\<close> is a 32-bit \<open>int\<close> that is shifted left.\<close>

fun new_size_loop :: "int list \<Rightarrow> 32 word \<Rightarrow> int \<Rightarrow> int" where
  "new_size_loop [] newsize sz = -1"
| "new_size_loop (p # ps) newsize sz =
     (if sz < sint newsize then p else new_size_loop ps (push_bit 1 newsize) sz)"

definition new_size :: "int \<Rightarrow> int" where
  "new_size sz = new_size_loop primes 8 sz"

text \<open>
  \<open>Calloc(size, sizeof(st_table_entry*))\<close>: \<open>ruby_xcalloc\<close> multiplies in \<open>long\<close>, a negative
  product raises \<open>NoMemError\<close>, and a product that wrapped to a smaller size would give a block
  too small for the bins.
\<close>

definition calloc_bins :: "int \<Rightarrow> st_table_entry list list outcome" where
  "calloc_bins n =
     (let bytes = s32 (4 * n) in
      if bytes < 0 then raise NoMemError
      else if bytes < 4 * n then raise Undefined
      else return (replicate (nat n) []))"

definition st_init_table_with_size :: "st_hash_type \<Rightarrow> int \<Rightarrow> st_table outcome" where
  "st_init_table_with_size ty sz =
     (let sz' = new_size sz in
      obind (calloc_bins sz') (\<lambda>bs.
        return \<lparr>st_type = ty, num_bins = sz', num_entries = 0, bins = bs\<rparr>))"

definition st_init_table :: "st_hash_type \<Rightarrow> st_table outcome" where
  "st_init_table ty = st_init_table_with_size ty 0"

section \<open>Lookup\<close>

text \<open>\<open>PTR_NOT_EQUAL\<close> for a non-null pointer, and the walk of \<open>FIND_ENTRY\<close> along one chain.\<close>

definition PTR_NOT_EQUAL :: "st_hash_type \<Rightarrow> st_table_entry \<Rightarrow> 32 word \<Rightarrow> st_data \<Rightarrow> bool" where
  "PTR_NOT_EQUAL ty e h k \<longleftrightarrow> e_hash e \<noteq> h \<or> \<not> EQUAL ty k (e_key e)"

fun find_chain :: "st_hash_type \<Rightarrow> 32 word \<Rightarrow> st_data \<Rightarrow> st_table_entry list \<Rightarrow> nat option" where
  "find_chain ty h k [] = None"
| "find_chain ty h k (e # es) =
     (if PTR_NOT_EQUAL ty e h k then map_option Suc (find_chain ty h k es) else Some 0)"

definition FIND_ENTRY :: "st_table \<Rightarrow> 32 word \<Rightarrow> st_data \<Rightarrow> nat \<times> nat option" where
  "FIND_ENTRY t h k =
     (let bin_pos = bin_of h (num_bins t)
      in (bin_pos, find_chain (st_type t) h k (bins t ! bin_pos)))"

text \<open>The result 0 is \<open>None\<close>, the result 1 with \<open>*value\<close> set is \<open>Some\<close>.\<close>

definition st_lookup :: "st_table \<Rightarrow> st_data \<Rightarrow> st_data option" where
  "st_lookup t k =
     (case FIND_ENTRY t (do_hash t k) k of
        (b, None) \<Rightarrow> None
      | (b, Some p) \<Rightarrow> Some (e_record (bins t ! b ! p)))"

section \<open>Insertion\<close>

definition push_entry :: "int \<Rightarrow> st_table_entry \<Rightarrow> st_table_entry list list \<Rightarrow> st_table_entry list list" where
  "push_entry n e nb = (let h = bin_of (e_hash e) n in nb[h := e # nb ! h])"

definition rehash :: "st_table \<Rightarrow> st_table outcome" where
  "rehash t =
     (let new_num_bins = new_size (num_bins t + 1) in
      obind (calloc_bins new_num_bins) (\<lambda>new_bins.
        return (t\<lparr>num_bins := new_num_bins,
                  bins := fold (fold (push_entry new_num_bins)) (bins t) new_bins\<rparr>)))"

definition ST_DEFAULT_MAX_DENSITY :: int where
  "ST_DEFAULT_MAX_DENSITY = 5"

definition ADD_DIRECT :: "st_table \<Rightarrow> st_data \<Rightarrow> st_data \<Rightarrow> 32 word \<Rightarrow> st_table outcome" where
  "ADD_DIRECT t k v h =
     obind (if ST_DEFAULT_MAX_DENSITY < c_quot (num_entries t) (num_bins t)
            then rehash t else return t) (\<lambda>t'.
       let b = bin_of h (num_bins t');
           entry = \<lparr>e_hash = h, e_key = k, e_record = v\<rparr>
       in return (t'\<lparr>bins := (bins t')[b := entry # bins t' ! b],
                     num_entries := num_entries t' + 1\<rparr>))"

definition st_insert :: "st_table \<Rightarrow> st_data \<Rightarrow> st_data \<Rightarrow> (int \<times> st_table) outcome" where
  "st_insert t k v =
     (let h = do_hash t k in
      case FIND_ENTRY t h k of
        (b, None) \<Rightarrow> obind (ADD_DIRECT t k v h) (\<lambda>t'. return (0, t'))
      | (b, Some p) \<Rightarrow>
          return (1, t\<lparr>bins := (bins t)[b := (bins t ! b)[p := (bins t ! b ! p)\<lparr>e_record := v\<rparr>]]\<rparr>))"

definition st_add_direct :: "st_table \<Rightarrow> st_data \<Rightarrow> st_data \<Rightarrow> st_table outcome" where
  "st_add_direct t k v = ADD_DIRECT t k v (do_hash t k)"

definition st_copy :: "st_table \<Rightarrow> st_table" where
  "st_copy t = t\<lparr>bins := map (\<lambda>chain. fold (\<lambda>e new. e # new) chain []) (bins t)\<rparr>"

section \<open>Deletion\<close>

text \<open>
  The position of the entry a deletion takes out. \<open>st_delete\<close> compares keys only and not hashes;
  the operands of \<open>EQUAL\<close> stand in one order for the first entry and in the other for the rest.
\<close>

fun delete_next :: "st_hash_type \<Rightarrow> st_data \<Rightarrow> st_table_entry list \<Rightarrow> nat option" where
  "delete_next ty k [] = None"
| "delete_next ty k (e # es) =
     (if EQUAL ty (e_key e) k then Some 0 else map_option Suc (delete_next ty k es))"

definition delete_pos :: "st_hash_type \<Rightarrow> st_data \<Rightarrow> st_table_entry list \<Rightarrow> nat option" where
  "delete_pos ty k es =
     (case es of
        [] \<Rightarrow> None
      | e # es' \<Rightarrow> if EQUAL ty k (e_key e) then Some 0 else map_option Suc (delete_next ty k es'))"

text \<open>
  Result of \<open>st_delete\<close>: the return code, the new \<open>*key\<close>, what was stored into \<open>*value\<close>
  (\<open>None\<close>: nothing was stored), and the table.
\<close>

definition st_delete :: "st_table \<Rightarrow> st_data \<Rightarrow> int \<times> st_data \<times> st_data option \<times> st_table" where
  "st_delete t k =
     (let b = do_hash_bin t k; chain = bins t ! b in
      if chain = [] then (0, k, Some 0, t)
      else case delete_pos (st_type t) k chain of
        None \<Rightarrow> (0, k, None, t)
      | Some p \<Rightarrow>
          (1, e_key (chain ! p), Some (e_record (chain ! p)),
           t\<lparr>bins := (bins t)[b := take p chain @ drop (Suc p) chain],
             num_entries := num_entries t - 1\<rparr>))"

fun delete_safe_pos :: "st_hash_type \<Rightarrow> st_data \<Rightarrow> st_data \<Rightarrow> st_table_entry list \<Rightarrow> nat option" where
  "delete_safe_pos ty never k [] = None"
| "delete_safe_pos ty never k (e # es) =
     (if e_key e \<noteq> never \<and> EQUAL ty (e_key e) k then Some 0
      else map_option Suc (delete_safe_pos ty never k es))"

definition st_delete_safe ::
    "st_table \<Rightarrow> st_data \<Rightarrow> st_data \<Rightarrow> int \<times> st_data \<times> st_data option \<times> st_table" where
  "st_delete_safe t k never =
     (let b = do_hash_bin t k; chain = bins t ! b in
      if chain = [] then (0, k, Some 0, t)
      else case delete_safe_pos (st_type t) never k chain of
        None \<Rightarrow> (0, k, None, t)
      | Some p \<Rightarrow>
          (1, e_key (chain ! p), Some (e_record (chain ! p)),
           t\<lparr>bins := (bins t)[b := chain[p := (chain ! p)\<lparr>e_key := never, e_record := never\<rparr>]],
             num_entries := num_entries t - 1\<rparr>))"

section \<open>Iteration\<close>

text \<open>
  \<open>st_foreach\<close> over a callback that reads and writes its own state \<open>'s\<close> but not the table it
  is walking. For such a callback the search of the \<open>ST_CHECK\<close> case always finds the current
  entry, and the case falls through to \<open>ST_CONTINUE\<close>. The result says whether the walk was
  stopped, what is left of the chain, how many entries were unlinked, and the callback's state.
\<close>

fun foreach_chain ::
    "(st_data \<Rightarrow> st_data \<Rightarrow> 's \<Rightarrow> st_retval \<times> 's) \<Rightarrow> st_table_entry list \<Rightarrow> 's \<Rightarrow>
     bool \<times> st_table_entry list \<times> int \<times> 's" where
  "foreach_chain f [] s = (False, [], 0, s)"
| "foreach_chain f (e # es) s =
     (case f (e_key e) (e_record e) s of
        (ST_STOP, s') \<Rightarrow> (True, e # es, 0, s')
      | (ST_DELETE, s') \<Rightarrow>
          (let (stopped, es', d, s'') = foreach_chain f es s' in (stopped, es', d + 1, s''))
      | (_, s') \<Rightarrow>
          (let (stopped, es', d, s'') = foreach_chain f es s' in (stopped, e # es', d, s'')))"

fun foreach_bins ::
    "(st_data \<Rightarrow> st_data \<Rightarrow> 's \<Rightarrow> st_retval \<times> 's) \<Rightarrow> st_table_entry list list \<Rightarrow> 's \<Rightarrow>
     st_table_entry list list \<times> int \<times> 's" where
  "foreach_bins f [] s = ([], 0, s)"
| "foreach_bins f (b # bs) s =
     (case foreach_chain f b s of
        (True, b', d, s') \<Rightarrow> (b' # bs, d, s')
      | (False, b', d, s') \<Rightarrow>
          (let (bs', d', s'') = foreach_bins f bs s' in (b' # bs', d + d', s'')))"

definition st_foreach ::
    "st_table \<Rightarrow> (st_data \<Rightarrow> st_data \<Rightarrow> 's \<Rightarrow> st_retval \<times> 's) \<Rightarrow> 's \<Rightarrow> st_table \<times> 's" where
  "st_foreach t f s =
     (let (bs, d, s') = foreach_bins f (bins t) s
      in (t\<lparr>bins := bs, num_entries := num_entries t - d\<rparr>, s'))"

definition delete_never :: "st_data \<Rightarrow> st_data \<Rightarrow> st_data \<Rightarrow> st_retval" where
  "delete_never key val never = (if val = never then ST_DELETE else ST_CONTINUE)"

definition st_cleanup_safe :: "st_table \<Rightarrow> st_data \<Rightarrow> st_table" where
  "st_cleanup_safe t never =
     (let n = num_entries t;
          (t', u) = st_foreach t (\<lambda>k v s. (delete_never k v never, s)) ()
      in t'\<lparr>num_entries := n\<rparr>)"

section \<open>Hash types\<close>

definition numcmp :: "st_data \<Rightarrow> st_data \<Rightarrow> int" where
  "numcmp x y = (if x \<noteq> y then 1 else 0)"

definition numhash :: "st_data \<Rightarrow> 32 word" where
  "numhash n = n"

definition type_numhash :: st_hash_type where
  "type_numhash = \<lparr>compare_fn = numcmp, hash_fn = numhash\<rparr>"

definition st_init_numtable :: "st_table outcome" where
  "st_init_numtable = st_init_table type_numhash"

definition st_init_numtable_with_size :: "int \<Rightarrow> st_table outcome" where
  "st_init_numtable_with_size sz = st_init_table_with_size type_numhash sz"

text \<open>
  A string key is the address of a C string; \<open>mem\<close> gives the bytes before the terminating NUL.
  \<open>char\<close> is signed, \<open>val>>5\<close> is an arithmetic shift.
\<close>

definition strhash :: "8 word list \<Rightarrow> 32 word" where
  "strhash s =
     (let val = fold (\<lambda>c val. val * 997 + scast c) s 0 in val + signed_drop_bit 5 val)"

fun strcmp :: "8 word list \<Rightarrow> 8 word list \<Rightarrow> int" where
  "strcmp [] [] = 0"
| "strcmp [] (d # ds) = -1"
| "strcmp (c # cs) [] = 1"
| "strcmp (c # cs) (d # ds) = (if c = d then strcmp cs ds else if c < d then -1 else 1)"

definition type_strhash :: "(st_data \<Rightarrow> 8 word list) \<Rightarrow> st_hash_type" where
  "type_strhash mem =
     \<lparr>compare_fn = (\<lambda>x y. strcmp (mem x) (mem y)), hash_fn = (\<lambda>x. strhash (mem x))\<rparr>"

definition st_init_strtable :: "(st_data \<Rightarrow> 8 word list) \<Rightarrow> st_table outcome" where
  "st_init_strtable mem = st_init_table (type_strhash mem)"

definition st_init_strtable_with_size :: "(st_data \<Rightarrow> 8 word list) \<Rightarrow> int \<Rightarrow> st_table outcome" where
  "st_init_strtable_with_size mem sz = st_init_table_with_size (type_strhash mem) sz"

section \<open>The abstract dictionary and the invariant\<close>

text \<open>
  \<open>nv\<close> is the marker of \<open>st_delete_safe\<close>: \<open>Some never\<close> for a table that may hold entries marked
  deleted, \<open>None\<close> for a table that holds none. An entry is live when its key is not the marker.
\<close>

definition live :: "st_data option \<Rightarrow> st_table_entry \<Rightarrow> bool" where
  "live nv e \<longleftrightarrow> nv \<noteq> Some (e_key e)"

definition matches :: "st_hash_type \<Rightarrow> st_data option \<Rightarrow> st_data \<Rightarrow> st_table_entry \<Rightarrow> bool" where
  "matches ty nv k e \<longleftrightarrow> live nv e \<and> EQUAL ty k (e_key e)"

definition entry_ok :: "st_hash_type \<Rightarrow> st_data option \<Rightarrow> st_table_entry \<Rightarrow> bool" where
  "entry_ok ty nv e \<longleftrightarrow>
     (live nv e \<longrightarrow> e_hash e = hash_fn ty (e_key e) \<and> nv \<noteq> Some (e_record e)) \<and>
     (\<not> live nv e \<longrightarrow> e_record e = e_key e)"

definition no_clash :: "st_hash_type \<Rightarrow> st_data option \<Rightarrow> st_table_entry \<Rightarrow> st_table_entry \<Rightarrow> bool" where
  "no_clash ty nv a b \<longleftrightarrow> (live nv a \<longrightarrow> live nv b \<longrightarrow> \<not> EQUAL ty (e_key a) (e_key b))"

definition chain_inv :: "st_hash_type \<Rightarrow> st_data option \<Rightarrow> int \<Rightarrow> nat \<Rightarrow> st_table_entry list \<Rightarrow> bool" where
  "chain_inv ty nv n i es \<longleftrightarrow>
     (\<forall>e \<in> set es. bin_of (e_hash e) n = i \<and> entry_ok ty nv e) \<and> sorted_wrt (no_clash ty nv) es"

definition live_count :: "st_data option \<Rightarrow> st_table_entry list \<Rightarrow> int" where
  "live_count nv es = int (length (filter (live nv) es))"

definition st_inv :: "st_data option \<Rightarrow> st_table \<Rightarrow> bool" where
  "st_inv nv t \<longleftrightarrow>
     0 < num_bins t \<and> length (bins t) = nat (num_bins t) \<and>
     (\<forall>i < length (bins t). chain_inv (st_type t) nv (num_bins t) i (bins t ! i)) \<and>
     num_entries t = (\<Sum>es\<leftarrow>bins t. live_count nv es)"

text \<open>The dictionary a table stands for: a search over all entries that ignores hashes and bins.\<close>

definition st_abs :: "st_data option \<Rightarrow> st_table \<Rightarrow> st_data \<Rightarrow> st_data option" where
  "st_abs nv t k = map_option e_record (List.find (matches (st_type t) nv k) (concat (bins t)))"

section \<open>Sizes of the bin array\<close>

fun primes_ok :: "int list \<Rightarrow> int \<Rightarrow> bool" where
  "primes_ok [] n \<longleftrightarrow> True"
| "primes_ok (p # ps) n \<longleftrightarrow> n < p \<and> p \<le> n + 85 \<and> primes_ok ps (2 * n)"

lemma sint_pow2: "0 \<le> n \<Longrightarrow> n < 2147483648 \<Longrightarrow> sint (word_of_int n :: 32 word) = n"
  by (simp add: sint_uint uint_word_of_int signed_take_bit_int_eq_self)

lemma push_bit_word_of_int: "push_bit 1 (word_of_int n :: 32 word) = word_of_int (2 * n)"
  by (simp add: push_bit_eq_mult)

lemma new_size_loop_props:
  assumes "primes_ok ps n" "ps \<noteq> []" "0 < n" "n * 2 ^ (length ps - 1) < 2147483648"
    and "sz < n * 2 ^ (length ps - 1)"
  shows "sz < new_size_loop (ps @ qs) (word_of_int n) sz \<and>
         n \<le> new_size_loop (ps @ qs) (word_of_int n) sz \<and>
         new_size_loop (ps @ qs) (word_of_int n) sz \<le> n * 2 ^ (length ps - 1) + 85"
  using assms
proof (induction ps arbitrary: n)
  case Nil
  then show ?case by simp
next
  case (Cons p ps)
  have pow: "n \<le> n * 2 ^ length ps" using Cons.prems(3) by simp
  then have n: "n < 2147483648" using Cons.prems(4) by simp
  then have sn: "sint (word_of_int n :: 32 word) = n" using Cons.prems(3) by (simp add: sint_pow2)
  show ?case
  proof (cases "sz < n")
    case True
    have "p \<le> n * 2 ^ length ps + 85"
      using pow Cons.prems(1) unfolding primes_ok.simps by linarith
    then show ?thesis using True Cons.prems by (simp add: sn)
  next
    case False
    with Cons.prems(5) have ne: "ps \<noteq> []" by auto
    then have e: "2 * n * 2 ^ (length ps - 1) = n * 2 ^ length ps"
      by (cases ps) simp_all
    have step: "new_size_loop ((p # ps) @ qs) (word_of_int n) sz =
        new_size_loop (ps @ qs) (word_of_int (2 * n)) sz"
      by (simp only: append_Cons new_size_loop.simps sn False if_False push_bit_word_of_int)
    show ?thesis
      unfolding step using Cons.IH[of "2 * n", unfolded e] Cons.prems ne by (simp del: of_int_mult)
  qed
qed

lemma new_size_props:
  assumes "sz < 268435456"
  shows "sz < new_size sz \<and> 8 \<le> new_size sz \<and> new_size sz \<le> 268435541"
proof -
  define ps qs where "ps = take 26 primes" and "qs = drop 26 primes"
  have "primes = ps @ qs" by (simp add: ps_def qs_def)
  moreover have "primes_ok ps 8" "length ps = 26" "ps \<noteq> []"
    by (simp_all add: ps_def primes_def)
  ultimately show ?thesis
    using new_size_loop_props[of ps 8 sz qs] assms by (auto simp: new_size_def)
qed

lemma new_size_loop_append:
  "new_size_loop (ps @ qs) ns sz \<in> set ps \<or>
   new_size_loop (ps @ qs) ns sz = new_size_loop qs (push_bit (length ps) ns) sz"
proof (induction ps arbitrary: ns)
  case Nil
  then show ?case by simp
next
  case (Cons p ps)
  then show ?case using Cons.IH[of "push_bit 1 ns"] by (auto simp: push_bit_push_bit)
qed

lemma new_size_cases:
  assumes "- 2147483648 \<le> sz"
  shows "new_size sz = -1 \<or> 8 \<le> new_size sz"
proof -
  define ps where "ps = take 28 primes"
  have p: "primes = ps @ [0]" "length ps = 28" "\<forall>p \<in> set ps. 8 \<le> p"
    by (simp_all add: ps_def primes_def)
  have "sint (push_bit 28 8 :: 32 word) = - 2147483648" by simp
  then have "new_size_loop [0] (push_bit 28 8) sz = -1"
    using assms by (simp del: push_bit_numeral)
  then show ?thesis
    using new_size_loop_append[of ps "[0]" 8 sz] p by (auto simp: new_size_def)
qed

lemma calloc_bins_Inr: "calloc_bins n = Inr bs \<Longrightarrow> bs = replicate (nat n) []"
  by (auto simp: calloc_bins_def Let_def split: if_splits)

lemma calloc_bins_minus1: "calloc_bins (-1) = Inl NoMemError"
  by (simp add: calloc_bins_def s32_def)

lemma calloc_bins_ok: "0 \<le> n \<Longrightarrow> n < 536870912 \<Longrightarrow> calloc_bins n = Inr (replicate (nat n) [])"
  by (simp add: calloc_bins_def s32_id)

section \<open>The contract between a table and its hash type\<close>

text \<open>
  What every user of a table relies on: \<open>EQUAL\<close> is an equivalence that the hash function
  respects, and the deletion marker equals no other key.
\<close>

locale hash_contract =
  fixes ty :: st_hash_type
    and nv :: "st_data option"
  assumes EQUAL_sym: "EQUAL ty x y \<Longrightarrow> EQUAL ty y x"
    and EQUAL_trans: "EQUAL ty x y \<Longrightarrow> EQUAL ty y z \<Longrightarrow> EQUAL ty x z"
    and hash_respects: "EQUAL ty x y \<Longrightarrow> hash_fn ty x = hash_fn ty y"
    and never_alone: "nv = Some n \<Longrightarrow> EQUAL ty x n \<Longrightarrow> x = n"
begin

lemma EQUAL_refl [simp]: "EQUAL ty x x"
  by (simp add: EQUAL_def)

lemma no_clash_sym: "no_clash ty nv a b \<Longrightarrow> no_clash ty nv b a"
  by (auto simp: no_clash_def dest: EQUAL_sym)

lemma EQUAL_cong: "EQUAL ty x y \<Longrightarrow> EQUAL ty x z = EQUAL ty y z"
  by (blast intro: EQUAL_sym EQUAL_trans)

lemma EQUAL_key: "EQUAL ty k x \<Longrightarrow> EQUAL ty k' x \<longleftrightarrow> EQUAL ty k k'"
  by (blast intro: EQUAL_sym EQUAL_trans)

lemma matches_cong: "EQUAL ty k k' \<Longrightarrow> matches ty nv k = matches ty nv k'"
  using EQUAL_cong[of k k'] by (auto simp: matches_def fun_eq_iff)

lemma matches_hash: "entry_ok ty nv e \<Longrightarrow> matches ty nv k e \<Longrightarrow> e_hash e = hash_fn ty k"
  using hash_respects by (auto simp: matches_def entry_ok_def)

lemma ptr_equal_matches:
  assumes "entry_ok ty nv e" "nv \<noteq> Some k"
  shows "PTR_NOT_EQUAL ty e (hash_fn ty k) k \<longleftrightarrow> \<not> matches ty nv k e"
proof
  assume "PTR_NOT_EQUAL ty e (hash_fn ty k) k"
  then show "\<not> matches ty nv k e"
    using matches_hash[OF assms(1)] by (auto simp: PTR_NOT_EQUAL_def matches_def)
next
  assume "\<not> matches ty nv k e"
  moreover have "live nv e" if "EQUAL ty k (e_key e)"
    using that never_alone assms(2) by (auto simp: live_def)
  ultimately show "PTR_NOT_EQUAL ty e (hash_fn ty k) k"
    by (auto simp: PTR_NOT_EQUAL_def matches_def)
qed

lemma find_chain_spec:
  assumes "\<And>e. e \<in> set es \<Longrightarrow> entry_ok ty nv e" "nv \<noteq> Some k"
  shows "case find_chain ty (hash_fn ty k) k es of
           None \<Rightarrow> List.find (matches ty nv k) es = None
         | Some p \<Rightarrow> p < length es \<and> List.find (matches ty nv k) es = Some (es ! p)"
  using assms
proof (induction es)
  case Nil
  then show ?case by simp
next
  case (Cons e es)
  then have "PTR_NOT_EQUAL ty e (hash_fn ty k) k \<longleftrightarrow> \<not> matches ty nv k e"
    by (simp add: ptr_equal_matches)
  then show ?case
    using Cons by (auto split: option.splits)
qed

text \<open>In a chain without clashes at most one entry matches a key.\<close>

lemma chain_unique:
  assumes "sorted_wrt (no_clash ty nv) es" "a \<in> set es" "b \<in> set es"
    and "matches ty nv k a" "matches ty nv k b"
  shows "a = b"
proof (rule ccontr)
  assume "a \<noteq> b"
  then have "no_clash ty nv a b"
    using assms(1,2,3) no_clash_sym by (induction es) auto
  moreover have "EQUAL ty (e_key a) (e_key b)"
    using assms(4,5) by (auto simp: matches_def intro: EQUAL_sym EQUAL_trans)
  ultimately show False
    using assms(4,5) by (auto simp: matches_def no_clash_def)
qed

lemma find_iff:
  assumes "sorted_wrt (no_clash ty nv) es"
  shows "List.find (matches ty nv k) es = Some e \<longleftrightarrow> e \<in> set es \<and> matches ty nv k e"
proof
  assume "List.find (matches ty nv k) es = Some e"
  then show "e \<in> set es \<and> matches ty nv k e"
    by (auto simp: find_Some_iff)
next
  assume "e \<in> set es \<and> matches ty nv k e"
  then show "List.find (matches ty nv k) es = Some e"
    using assms chain_unique by (intro find_unique_mem) auto
qed

lemma find_same_set:
  assumes "sorted_wrt (no_clash ty nv) es" "sorted_wrt (no_clash ty nv) es'" "set es = set es'"
  shows "List.find (matches ty nv k) es = List.find (matches ty nv k) es'"
proof (cases "List.find (matches ty nv k) es")
  case None
  then have "List.find (matches ty nv k) es' = None"
    using assms(3) unfolding find_none_iff by simp
  with None show ?thesis by simp
next
  case (Some e)
  then have "List.find (matches ty nv k) es' = Some e"
    using find_iff[OF assms(1)] find_iff[OF assms(2)] assms(3) by simp
  with Some show ?thesis by simp
qed

lemma chain_replace:
  assumes "chain_inv ty nv n i (l @ e # r)"
    and "e_hash e' = e_hash e" "e_key e' = e_key e" "entry_ok ty nv e'"
  shows "chain_inv ty nv n i (l @ e' # r)"
proof -
  have "no_clash ty nv a e' = no_clash ty nv a e" "no_clash ty nv e' a = no_clash ty nv e a" for a
    using assms(3) by (simp_all add: no_clash_def live_def)
  then show ?thesis using assms by (simp add: chain_inv_def sorted_wrt_append)
qed

lemma chain_kill:
  assumes "chain_inv ty nv n i (l @ e # r)"
    and "e_hash e' = e_hash e" "\<not> live nv e'" "e_record e' = e_key e'"
  shows "chain_inv ty nv n i (l @ e' # r)"
proof -
  have "no_clash ty nv a e'" "no_clash ty nv e' a" "entry_ok ty nv e'" for a
    using assms(3,4) by (simp_all add: no_clash_def entry_ok_def)
  then show ?thesis using assms by (simp add: chain_inv_def sorted_wrt_append)
qed

lemma chain_remove:
  "chain_inv ty nv n i (l @ e # r) \<Longrightarrow> chain_inv ty nv n i (l @ r)"
  by (simp add: chain_inv_def sorted_wrt_append)

lemma chain_push:
  assumes "chain_inv ty nv n (bin_of (hash_fn ty k) n) es"
    and "nv \<noteq> Some k" "nv \<noteq> Some v" "List.find (matches ty nv k) es = None"
  shows "chain_inv ty nv n (bin_of (hash_fn ty k) n)
           (\<lparr>e_hash = hash_fn ty k, e_key = k, e_record = v\<rparr> # es)"
  using assms by (auto simp: chain_inv_def entry_ok_def no_clash_def live_def matches_def find_none_iff)

end

section \<open>Pushing entries into a fresh bin array\<close>

lemma fold_fold_concat: "fold (fold f) xss a = fold f (concat xss) a"
  by (induction xss arbitrary: a) simp_all

lemma push_entries:
  assumes "length nb = nat n" "0 < n"
  shows "length (fold (push_entry n) es nb) = nat n \<and>
         (\<forall>j < nat n. fold (push_entry n) es nb ! j =
            rev (filter (\<lambda>e. bin_of (e_hash e) n = j) es) @ nb ! j)"
  using assms
proof (induction es arbitrary: nb)
  case Nil
  then show ?case by simp
next
  case (Cons e es)
  then have "length (push_entry n e nb) = nat n" by (simp add: push_entry_def Let_def)
  moreover have "bin_of (e_hash e) n < nat n" using Cons.prems(2) by (simp add: bin_of_def)
  ultimately show ?case
    using Cons.IH[of "push_entry n e nb"] Cons.prems
    by (auto simp: push_entry_def Let_def nth_list_update)
qed

lemma filter_bins_count:
  assumes "\<And>e. e \<in> set es \<Longrightarrow> f e < n"
  shows "(\<Sum>j\<leftarrow>[0..<n]. length (filter (\<lambda>e. f e = j) es)) = length es"
  using assms
proof (induction es)
  case Nil
  then show ?case by (induction n) simp_all
next
  case (Cons e es)
  have "(\<Sum>j\<leftarrow>[0..<n]. (if f e = j then 1 else 0)) = (1::nat)" if "f e < n"
    using that by (induction n) (auto simp: less_Suc_eq)
  moreover have "(\<lambda>j. length (filter (\<lambda>e. f e = j) (e # es))) =
      (\<lambda>j. length (filter (\<lambda>e. f e = j) es) + (if f e = j then 1 else 0))"
    by auto
  ultimately show ?case using Cons by (simp only: sum_list_addf) simp
qed

context hash_contract
begin

lemma bin_of_less: "st_inv nv t \<Longrightarrow> bin_of h (num_bins t) < length (bins t)"
  by (auto simp: st_inv_def bin_of_def)

lemma chain_of_inv:
  "st_inv nv t \<Longrightarrow> st_type t = ty \<Longrightarrow> i < length (bins t) \<Longrightarrow>
   chain_inv ty nv (num_bins t) i (bins t ! i)"
  by (auto simp: st_inv_def)

lemma abs_bin:
  assumes "st_inv nv t" "st_type t = ty"
  shows "st_abs nv t k =
    map_option e_record (List.find (matches ty nv k) (bins t ! bin_of (hash_fn ty k) (num_bins t)))"
proof -
  have "List.find (matches ty nv k) (concat (bins t)) =
    List.find (matches ty nv k) (bins t ! bin_of (hash_fn ty k) (num_bins t))"
  proof (rule find_concat_bin)
    show "bin_of (hash_fn ty k) (num_bins t) < length (bins t)"
      using assms by (simp add: bin_of_less)
    show "i = bin_of (hash_fn ty k) (num_bins t)"
      if "i < length (bins t)" "e \<in> set (bins t ! i)" "matches ty nv k e" for i e
      using chain_of_inv[OF assms that(1)] that(2,3) matches_hash[of e k]
      by (auto simp: chain_inv_def)
  qed
  then show ?thesis by (simp add: st_abs_def assms(2))
qed

lemma abs_cong: "st_type t = ty \<Longrightarrow> EQUAL ty k k' \<Longrightarrow> st_abs nv t k = st_abs nv t k'"
  by (simp add: st_abs_def matches_cong)

lemma find_in_bin:
  assumes "st_inv nv t" "st_type t = ty" "nv \<noteq> Some k"
  defines "b \<equiv> bin_of (hash_fn ty k) (num_bins t)"
  shows "case FIND_ENTRY t (do_hash t k) k of
           (b', None) \<Rightarrow> b' = b \<and> List.find (matches ty nv k) (bins t ! b) = None
         | (b', Some p) \<Rightarrow> b' = b \<and> p < length (bins t ! b) \<and>
             List.find (matches ty nv k) (bins t ! b) = Some (bins t ! b ! p)"
proof -
  have "chain_inv ty nv (num_bins t) b (bins t ! b)"
    using assms by (simp add: chain_of_inv bin_of_less)
  then show ?thesis
    using find_chain_spec[of "bins t ! b" k] assms
    by (auto simp: FIND_ENTRY_def do_hash_def Let_def chain_inv_def split: option.splits)
qed

lemma lookup_abs:
  assumes "st_inv nv t" "st_type t = ty" "nv \<noteq> Some k"
  shows "st_lookup t k = st_abs nv t k"
  using find_in_bin[OF assms] abs_bin[OF assms(1,2), of k]
  by (auto simp: st_lookup_def split: prod.splits option.splits)

lemma update_bin:
  assumes "st_inv nv t" "st_type t = ty" "b < length (bins t)"
    and "chain_inv ty nv (num_bins t) b es"
    and "m = num_entries t - live_count nv (bins t ! b) + live_count nv es"
  defines "t' \<equiv> t\<lparr>bins := (bins t)[b := es], num_entries := m\<rparr>"
  shows "st_inv nv t'"
    and "st_abs nv t' k =
      (if bin_of (hash_fn ty k) (num_bins t) = b
       then map_option e_record (List.find (matches ty nv k) es) else st_abs nv t k)"
proof -
  show inv: "st_inv nv t'"
    using assms by (auto simp: st_inv_def map_update sum_list_update_int nth_list_update)
  show "st_abs nv t' k =
      (if bin_of (hash_fn ty k) (num_bins t) = b
       then map_option e_record (List.find (matches ty nv k) es) else st_abs nv t k)"
    using abs_bin[OF inv, of k] abs_bin[OF assms(1,2), of k] assms(2,3)
    by (auto simp: t'_def)
qed

end

context hash_contract
begin

lemma all_sorted:
  assumes "st_inv nv t" "st_type t = ty"
  shows "sorted_wrt (no_clash ty nv) (concat (bins t))"
proof -
  have "no_clash ty nv a b"
    if ij: "i < j" "j < length (bins t)" and ab: "a \<in> set (bins t ! i)" "b \<in> set (bins t ! j)"
    for i j a b
  proof -
    have bins: "bin_of (e_hash a) (num_bins t) = i" "bin_of (e_hash b) (num_bins t) = j"
      and ok: "entry_ok ty nv a" "entry_ok ty nv b"
      using chain_of_inv[OF assms, of i] chain_of_inv[OF assms, of j] ij ab
      by (auto simp: chain_inv_def)
    show ?thesis
      unfolding no_clash_def
    proof (intro impI notI)
      assume "live nv a" "live nv b" "EQUAL ty (e_key a) (e_key b)"
      then have "e_hash a = e_hash b" using ok hash_respects by (simp add: entry_ok_def)
      then show False using bins ij(1) by simp
    qed
  qed
  then have "sorted_wrt (\<lambda>xs ys. \<forall>x \<in> set xs. \<forall>y \<in> set ys. no_clash ty nv x y) (bins t)"
    by (simp add: sorted_wrt_iff_nth_less)
  moreover have "\<forall>es \<in> set (bins t). sorted_wrt (no_clash ty nv) es"
    using chain_of_inv[OF assms] by (auto simp: chain_inv_def in_set_conv_nth)
  ultimately show ?thesis by (simp add: sorted_wrt_concat)
qed

lemma rehash_bins:
  assumes "st_inv nv t" "st_type t = ty" "0 < n"
  defines "bs \<equiv> fold (push_entry n) (concat (bins t)) (replicate (nat n) [])"
  defines "sel \<equiv> \<lambda>j. rev (filter (\<lambda>e. bin_of (e_hash e) n = j) (concat (bins t)))"
  shows "bs = map sel [0..<nat n]"
    and "\<And>j. j < nat n \<Longrightarrow> chain_inv ty nv n j (sel j)"
    and "(\<Sum>es\<leftarrow>bs. live_count nv es) = live_count nv (concat (bins t))"
    and "set (concat bs) = set (concat (bins t))"
proof -
  have less: "bin_of h n < nat n" for h using assms(3) by (simp add: bin_of_def)
  show bs: "bs = map sel [0..<nat n]"
    using push_entries[of "replicate (nat n) []" n "concat (bins t)"] assms(3)
    by (intro nth_equalityI) (auto simp: bs_def sel_def)
  show "chain_inv ty nv n j (sel j)" for j
  proof -
    have "entry_ok ty nv e" if "e \<in> set (concat (bins t))" for e
    proof -
      from that obtain i where "i < length (bins t)" "e \<in> set (bins t ! i)"
        by (metis in_set_conv_nth concat_map_singleton in_set_conv_decomp set_concat UN_E)
      then show ?thesis using chain_of_inv[OF assms(1,2)] by (auto simp: chain_inv_def)
    qed
    moreover have "sorted_wrt (no_clash ty nv) (sel j)"
      unfolding sel_def
      by (subst sorted_wrt_rev_sym) (auto intro: no_clash_sym sorted_wrt_filter all_sorted[OF assms(1,2)])
    ultimately show ?thesis by (auto simp: chain_inv_def sel_def)
  qed
  have "(\<Sum>es\<leftarrow>bs. live_count nv es) =
    (\<Sum>j\<leftarrow>[0..<nat n]. int (length (filter (\<lambda>e. bin_of (e_hash e) n = j)
       (filter (live nv) (concat (bins t))))))"
    unfolding bs live_count_def sel_def
    by (simp add: rev_filter[symmetric] o_def filter_filter conj_commute del: rev_filter)
  also have "\<dots> = int (\<Sum>j\<leftarrow>[0..<nat n]. length (filter (\<lambda>e. bin_of (e_hash e) n = j)
       (filter (live nv) (concat (bins t)))))"
    by (simp add: sum_list_of_nat[symmetric] o_def)
  also have "\<dots> = live_count nv (concat (bins t))"
    unfolding live_count_def using less by (subst filter_bins_count) auto
  finally show "(\<Sum>es\<leftarrow>bs. live_count nv es) = live_count nv (concat (bins t))" .
  show "set (concat bs) = set (concat (bins t))"
    unfolding bs sel_def using less by auto
qed

end

context hash_contract
begin

lemma count_all: "st_inv nv t \<Longrightarrow> num_entries t = live_count nv (concat (bins t))"
proof -
  have "(\<Sum>es\<leftarrow>bs. live_count nv es) = live_count nv (concat bs)" for bs
    by (induction bs) (simp_all add: live_count_def)
  then show "st_inv nv t \<Longrightarrow> ?thesis" by (simp add: st_inv_def)
qed

lemma rehash_correct:
  assumes "st_inv nv t" "st_type t = ty" "rehash t = Inr t'"
  shows "st_inv nv t'" "st_type t' = ty" "st_abs nv t' k = st_abs nv t k"
    "num_entries t' = num_entries t"
proof -
  define n where "n = new_size (num_bins t + 1)"
  from assms(3) obtain bs where bs: "calloc_bins n = Inr bs"
    and t': "t' = t\<lparr>num_bins := n, bins := fold (fold (push_entry n)) (bins t) bs\<rparr>"
    by (auto simp: rehash_def n_def Let_def obind_eq_Inr_iff)
  have "num_bins t > 0" using assms(1) by (simp add: st_inv_def)
  then have n: "0 < n"
    using new_size_cases[of "num_bins t + 1"] bs calloc_bins_minus1 unfolding n_def[symmetric] by auto
  have bins: "bins t' = fold (push_entry n) (concat (bins t)) (replicate (nat n) [])"
    using calloc_bins_Inr[OF bs] by (simp add: t' fold_fold_concat)
  note rb = rehash_bins[OF assms(1,2) n, folded bins]
  show ne: "num_entries t' = num_entries t" and ty: "st_type t' = ty"
    using assms(2) by (simp_all add: t')
  show inv: "st_inv nv t'"
    using n rb count_all[OF assms(1)] ty unfolding st_inv_def by (auto simp: t')
  show "st_abs nv t' k = st_abs nv t k"
    using find_same_set[OF all_sorted[OF inv ty] all_sorted[OF assms(1,2)] rb(4), of k]
    by (simp add: st_abs_def ty assms(2))
qed

lemma rehash_succeeds:
  assumes "st_inv nv t" "num_bins t < 268435455"
  shows "\<exists>t'. rehash t = Inr t'"
proof -
  define n where "n = new_size (num_bins t + 1)"
  have "0 \<le> n" "n < 536870912"
    using new_size_props[of "num_bins t + 1"] assms(2) by (auto simp: n_def)
  then show ?thesis
    by (auto simp: rehash_def n_def[symmetric] Let_def calloc_bins_ok)
qed

lemma add_direct_correct:
  assumes "st_inv nv t" "st_type t = ty" "nv \<noteq> Some k" "nv \<noteq> Some v"
    and "st_abs nv t k = None" "ADD_DIRECT t k v (do_hash t k) = Inr t'"
  shows "st_inv nv t'" "st_type t' = ty"
    "st_abs nv t' k' = (if EQUAL ty k k' then Some v else st_abs nv t k')"
    "num_entries t' = num_entries t + 1"
proof -
  define h where "h = hash_fn ty k"
  define e where "e = \<lparr>e_hash = h, e_key = k, e_record = v\<rparr>"
  obtain u where u: "st_inv nv u" "st_type u = ty" "\<And>k. st_abs nv u k = st_abs nv t k"
      "num_entries u = num_entries t"
    and t': "t' = u\<lparr>bins := (bins u)[bin_of h (num_bins u) := e # bins u ! bin_of h (num_bins u)],
        num_entries := num_entries u + 1\<rparr>"
  proof (cases "ST_DEFAULT_MAX_DENSITY < c_quot (num_entries t) (num_bins t)")
    case True
    then obtain u where "rehash t = Inr u"
      and "t' = u\<lparr>bins := (bins u)[bin_of h (num_bins u) := e # bins u ! bin_of h (num_bins u)],
        num_entries := num_entries u + 1\<rparr>"
      using assms(2,6) by (auto simp: ADD_DIRECT_def do_hash_def h_def e_def Let_def obind_eq_Inr_iff)
    then show ?thesis using that rehash_correct[OF assms(1,2)] by blast
  next
    case False
    then show ?thesis using that[of t] assms(1,2,6)
      by (auto simp: ADD_DIRECT_def do_hash_def h_def e_def Let_def)
  qed
  define b where "b = bin_of h (num_bins u)"
  have none: "List.find (matches ty nv k) (bins u ! b) = None"
    using abs_bin[OF u(1,2), of k] u(3) assms(5) by (simp add: b_def h_def)
  have b: "b < length (bins u)" using bin_of_less[OF u(1)] by (simp add: b_def)
  have chain: "chain_inv ty nv (num_bins u) b (e # bins u ! b)"
    using chain_push[of "num_bins u" k "bins u ! b" v] none assms(3,4) chain_of_inv[OF u(1,2) b]
    by (simp add: b_def h_def e_def)
  have live: "live nv e" using assms(3) by (simp add: live_def e_def)
  note ub = update_bin[OF u(1,2) b chain refl]
  have m: "num_entries u - live_count nv (bins u ! b) + live_count nv (e # bins u ! b) =
      num_entries u + 1"
    using live by (simp add: live_count_def)
  show "st_inv nv t'" using ub(1) unfolding t' b_def[symmetric] m .
  show "st_type t' = ty" "num_entries t' = num_entries t + 1" by (simp_all add: t' u)
  have "matches ty nv k' e \<longleftrightarrow> EQUAL ty k k'"
    using live EQUAL_sym by (auto simp: matches_def e_def)
  moreover have "bin_of (hash_fn ty k') (num_bins u) = b" if "EQUAL ty k k'"
    using hash_respects[OF that] by (simp add: b_def h_def)
  ultimately show "st_abs nv t' k' = (if EQUAL ty k k' then Some v else st_abs nv t k')"
    using ub(2)[of k'] abs_bin[OF u(1,2), of k'] u(3)[of k'] unfolding t' m b_def[symmetric]
    by (auto simp: e_def)
qed

end

context hash_contract
begin

text \<open>What a chain answers after the entry of one key has been replaced by \<open>xs\<close>.\<close>

lemma find_hole:
  assumes "chain_inv ty nv n i (l @ e # q)" "matches ty nv k e"
  shows "EQUAL ty k k' \<Longrightarrow> List.find (matches ty nv k') (l @ xs @ q) = List.find (matches ty nv k') xs"
    and "\<not> EQUAL ty k k' \<Longrightarrow> (\<And>x. x \<in> set xs \<Longrightarrow> \<not> matches ty nv k' x) \<Longrightarrow>
      List.find (matches ty nv k') (l @ xs @ q) = List.find (matches ty nv k') (l @ e # q)"
proof -
  assume eq: "EQUAL ty k k'"
  have "\<not> matches ty nv k' x" if "x \<in> set l \<union> set q" for x
  proof
    assume "matches ty nv k' x"
    then have "matches ty nv k x" using matches_cong[OF eq] by simp
    moreover have "no_clash ty nv e x"
      using assms(1) that by (auto simp: chain_inv_def sorted_wrt_append intro: no_clash_sym)
    ultimately show False
      using assms(2) by (auto simp: no_clash_def matches_def intro: EQUAL_sym EQUAL_trans)
  qed
  then have "List.find (matches ty nv k') l = None" "List.find (matches ty nv k') q = None"
    by (auto simp: find_none_iff)
  then show "List.find (matches ty nv k') (l @ xs @ q) = List.find (matches ty nv k') xs"
    by (simp add: find_append split: option.split)
next
  assume "\<not> EQUAL ty k k'" "\<And>x. x \<in> set xs \<Longrightarrow> \<not> matches ty nv k' x"
  moreover from this have "\<not> matches ty nv k' e"
    using assms(2) by (auto simp: matches_def intro: EQUAL_sym EQUAL_trans)
  moreover have "List.find (matches ty nv k') xs = None"
    unfolding find_none_iff using calculation(2) by blast
  ultimately show "List.find (matches ty nv k') (l @ xs @ q) = List.find (matches ty nv k') (l @ e # q)"
    by (simp add: find_append split: option.split)
qed

lemma replace_entry:
  assumes "st_inv nv t" "st_type t = ty"
    and "bins t ! bin_of (hash_fn ty k) (num_bins t) = l @ e # q" "matches ty nv k e"
    and "chain_inv ty nv (num_bins t) (bin_of (hash_fn ty k) (num_bins t)) (l @ xs @ q)"
    and "m = num_entries t - 1 + live_count nv xs"
    and "\<And>x k'. x \<in> set xs \<Longrightarrow> matches ty nv k' x \<Longrightarrow> EQUAL ty k k'"
  defines "t' \<equiv> t\<lparr>bins := (bins t)[bin_of (hash_fn ty k) (num_bins t) := l @ xs @ q],
                   num_entries := m\<rparr>"
  shows "st_inv nv t'" "st_type t' = ty"
    "st_abs nv t' k' =
       (if EQUAL ty k k' then map_option e_record (List.find (matches ty nv k') xs)
        else st_abs nv t k')"
proof -
  define b where "b = bin_of (hash_fn ty k) (num_bins t)"
  have b: "b < length (bins t)" using bin_of_less[OF assms(1)] by (simp add: b_def)
  have ci: "chain_inv ty nv (num_bins t) b (l @ e # q)"
    using chain_of_inv[OF assms(1,2) b] assms(3) by (simp add: b_def)
  have "live nv e" using assms(4) by (simp add: matches_def)
  then have m: "m = num_entries t - live_count nv (bins t ! b) + live_count nv (l @ xs @ q)"
    using assms(3,6) by (simp add: b_def live_count_def)
  note ub = update_bin[OF assms(1,2) b assms(5)[folded b_def] m, folded b_def t'_def[unfolded b_def[symmetric]]]
  show "st_inv nv t'" by (rule ub(1)) 
  show "st_type t' = ty" by (simp add: t'_def assms(2))
  have bk: "bin_of (hash_fn ty k') (num_bins t) = b" if "EQUAL ty k k'"
    using hash_respects[OF that] by (simp add: b_def)
  show "st_abs nv t' k' =
       (if EQUAL ty k k' then map_option e_record (List.find (matches ty nv k') xs)
        else st_abs nv t k')"
  proof (cases "EQUAL ty k k'")
    case True
    then show ?thesis using ub(2)[of k'] bk find_hole(1)[OF ci assms(4) True] by simp
  next
    case False
    then have "List.find (matches ty nv k') (l @ xs @ q) = List.find (matches ty nv k') (l @ e # q)"
      using find_hole(2)[OF ci assms(4) False] assms(7) by blast
    then show ?thesis
      using ub(2)[of k'] abs_bin[OF assms(1,2), of k'] False assms(3) by (simp add: b_def)
  qed
qed

lemma found_entry:
  assumes "st_inv nv t" "st_type t = ty" "p < length chain" "matches ty nv k (chain ! p)"
    and "chain = bins t ! bin_of (hash_fn ty k) (num_bins t)"
  shows "bins t ! bin_of (hash_fn ty k) (num_bins t) = take p chain @ chain ! p # drop (Suc p) chain"
    and "chain_inv ty nv (num_bins t) (bin_of (hash_fn ty k) (num_bins t))
           (take p chain @ chain ! p # drop (Suc p) chain)"
    and "st_abs nv t k = Some (e_record (chain ! p))"
proof -
  define b where "b = bin_of (hash_fn ty k) (num_bins t)"
  show split: "bins t ! bin_of (hash_fn ty k) (num_bins t) = take p chain @ chain ! p # drop (Suc p) chain"
    unfolding assms(5)[symmetric] by (rule id_take_nth_drop[OF assms(3)])
  have "b < length (bins t)" using bin_of_less[OF assms(1)] by (simp add: b_def)
  then have ci: "chain_inv ty nv (num_bins t) b chain"
    using chain_of_inv[OF assms(1,2)] assms(5) by (simp add: b_def)
  then show "chain_inv ty nv (num_bins t) (bin_of (hash_fn ty k) (num_bins t))
      (take p chain @ chain ! p # drop (Suc p) chain)"
    unfolding b_def id_take_nth_drop[OF assms(3), symmetric] .
  have "List.find (matches ty nv k) chain = Some (chain ! p)"
    using ci find_iff assms(3,4) by (auto simp: chain_inv_def)
  then show "st_abs nv t k = Some (e_record (chain ! p))"
    using abs_bin[OF assms(1,2), of k] assms(5) by simp
qed

lemma insert_correct:
  assumes "st_inv nv t" "st_type t = ty" "nv \<noteq> Some k" "nv \<noteq> Some v"
    and "st_insert t k v = Inr (r, t')"
  shows "st_inv nv t'" "st_type t' = ty"
    "st_abs nv t' k' = (if EQUAL ty k k' then Some v else st_abs nv t k')"
    "r = (if st_abs nv t k = None then 0 else 1)"
    "num_entries t' = num_entries t + (if st_abs nv t k = None then 1 else 0)"
proof -
  define b where "b = bin_of (hash_fn ty k) (num_bins t)"
  have all: "st_inv nv t' \<and> st_type t' = ty \<and>
    st_abs nv t' k' = (if EQUAL ty k k' then Some v else st_abs nv t k') \<and>
    r = (if st_abs nv t k = None then 0 else 1) \<and>
    num_entries t' = num_entries t + (if st_abs nv t k = None then 1 else 0)"
  proof (cases "snd (FIND_ENTRY t (do_hash t k) k)")
    case None
    then have none: "st_abs nv t k = None"
      using find_in_bin[OF assms(1-3)] abs_bin[OF assms(1,2), of k]
      by (auto split: prod.splits option.splits)
    have add: "ADD_DIRECT t k v (do_hash t k) = Inr t'" "r = 0"
      using assms(5) None by (auto simp: st_insert_def Let_def obind_eq_Inr_iff split: prod.splits)
    note ad = add_direct_correct[OF assms(1-4) none add(1)]
    show ?thesis using ad(3)[of k'] by (simp add: ad(1,2,4) none add(2))
  next
    case (Some p)
    define chain e where "chain = bins t ! b" and "e = (chain ! p)\<lparr>e_record := v\<rparr>"
    have fe: "FIND_ENTRY t (do_hash t k) k = (b, Some p)" and p: "p < length chain"
      and m: "matches ty nv k (chain ! p)"
      using Some find_in_bin[OF assms(1-3)]
      by (auto simp: b_def chain_def find_Some_iff split: prod.splits)
    note fd = found_entry[OF assms(1,2) p m chain_def[unfolded b_def]]
    have live: "live nv e" and me: "matches ty nv k' e \<longleftrightarrow> EQUAL ty k k'" for k'
      using m EQUAL_key by (auto simp: e_def matches_def live_def)
    have ok: "entry_ok ty nv e"
      using fd(2) m assms(4) live by (auto simp: e_def chain_inv_def entry_ok_def matches_def)
    have t': "r = 1" "t' = t\<lparr>bins := (bins t)[b := take p chain @ [e] @ drop (Suc p) chain],
        num_entries := num_entries t\<rparr>"
      using assms(5) fe p by (auto simp: st_insert_def Let_def e_def chain_def upd_conv_take_nth_drop)
    have "chain_inv ty nv (num_bins t) b (take p chain @ [e] @ drop (Suc p) chain)"
      using chain_replace[OF fd(2), of e] ok by (simp add: b_def e_def)
    note re = replace_entry[OF assms(1,2) fd(1) m this[unfolded b_def], of "num_entries t",
        folded b_def, folded t'(2)]
    have "num_entries t = num_entries t - 1 + live_count nv [e]"
      using live by (simp add: live_count_def)
    with re me have "st_inv nv t'" "st_type t' = ty"
      "st_abs nv t' k' = (if EQUAL ty k k' then Some v else st_abs nv t k')"
      by (simp_all add: e_def)
    then show ?thesis using fd(3) by (simp add: t')
  qed
  then show "st_inv nv t'" "st_type t' = ty"
    "st_abs nv t' k' = (if EQUAL ty k k' then Some v else st_abs nv t k')"
    "r = (if st_abs nv t k = None then 0 else 1)"
    "num_entries t' = num_entries t + (if st_abs nv t k = None then 1 else 0)" by blast+
qed

lemma insert_succeeds:
  assumes "st_inv nv t" "num_bins t < 268435455"
  shows "\<exists>r t'. st_insert t k v = Inr (r, t')"
  using rehash_succeeds[OF assms]
  by (auto simp: st_insert_def ADD_DIRECT_def Let_def split: prod.splits option.splits)

lemma delete_next_spec:
  "case delete_next ty k es of
     None \<Rightarrow> \<forall>e \<in> set es. \<not> EQUAL ty k (e_key e)
   | Some p \<Rightarrow> p < length es \<and> EQUAL ty k (e_key (es ! p))"
  by (induction es) (auto split: option.splits intro: EQUAL_sym)

lemma delete_pos_spec:
  "case delete_pos ty k es of
     None \<Rightarrow> \<forall>e \<in> set es. \<not> EQUAL ty k (e_key e)
   | Some p \<Rightarrow> p < length es \<and> EQUAL ty k (e_key (es ! p))"
proof (cases es)
  case (Cons e es')
  then show ?thesis
    using delete_next_spec[where k = k and es = es'] by (auto simp: delete_pos_def split: option.splits)
qed (simp add: delete_pos_def)

lemma delete_safe_pos_spec:
  "nv = Some never \<Longrightarrow>
   case delete_safe_pos ty never k es of
     None \<Rightarrow> \<forall>e \<in> set es. \<not> matches ty nv k e
   | Some p \<Rightarrow> p < length es \<and> matches ty nv k (es ! p)"
  by (induction es) (auto simp: matches_def live_def split: option.splits intro: EQUAL_sym)

lemma live_match: "nv \<noteq> Some k \<Longrightarrow> EQUAL ty k (e_key e) \<longleftrightarrow> matches ty nv k e"
  using never_alone by (auto simp: matches_def live_def)

lemma absent_abs:
  assumes "st_inv nv t" "st_type t = ty"
    and "\<forall>e \<in> set (bins t ! bin_of (hash_fn ty k) (num_bins t)). \<not> matches ty nv k e"
  shows "st_abs nv t k = None"
  using abs_bin[OF assms(1,2), of k] assms(3) by (simp add: find_none_iff[symmetric])

lemma delete_correct:
  assumes "st_inv nv t" "st_type t = ty" "nv \<noteq> Some k" "st_delete t k = (r, k2, w, t')"
  shows "st_inv nv t' \<and> st_type t' = ty \<and>
    st_abs nv t' k' = (if EQUAL ty k k' then None else st_abs nv t k') \<and>
    (case st_abs nv t k of
       None \<Rightarrow> r = 0 \<and> k2 = k \<and> t' = t
     | Some v \<Rightarrow> r = 1 \<and> EQUAL ty k k2 \<and> w = Some v \<and> num_entries t' = num_entries t - 1)"
proof -
  define b chain where "b = bin_of (hash_fn ty k) (num_bins t)" and "chain = bins t ! b"
  have hb: "do_hash_bin t k = b" by (simp add: do_hash_bin_def do_hash_def b_def assms(2))
  show ?thesis
  proof (cases "delete_pos ty k chain")
    case None
    then have res: "r = 0" "k2 = k" "t' = t"
      using assms(2,4) by (auto simp: st_delete_def Let_def hb chain_def[symmetric] split: if_splits)
    moreover have "st_abs nv t k = None"
      using None delete_pos_spec[where k = k and es = chain]
      by (intro absent_abs[OF assms(1,2)]) (simp add: b_def[symmetric] chain_def live_match[OF assms(3)])
    ultimately show ?thesis using assms(1,2) abs_cong by (auto split: if_splits)
  next
    case (Some p)
    then have p: "p < length chain" and m: "matches ty nv k (chain ! p)"
      using delete_pos_spec[where k = k and es = chain] live_match[OF assms(3)] by auto
    note fd = found_entry[OF assms(1,2) p m chain_def[unfolded b_def]]
    have t': "r = 1" "k2 = e_key (chain ! p)" "w = Some (e_record (chain ! p))"
      "t' = t\<lparr>bins := (bins t)[b := take p chain @ [] @ drop (Suc p) chain],
         num_entries := num_entries t - 1\<rparr>"
      using assms(2,4) Some p
      by (auto simp: st_delete_def Let_def hb chain_def[symmetric] split: if_splits)
    have "chain_inv ty nv (num_bins t) b (take p chain @ [] @ drop (Suc p) chain)"
      using chain_remove[OF fd(2)] by (simp add: b_def)
    note re = replace_entry[OF assms(1,2) fd(1) m this[unfolded b_def], of "num_entries t - 1",
        folded b_def, folded t'(4)]
    have "num_entries t' = num_entries t - 1" by (simp add: t')
    then show ?thesis using re(1,2) re(3)[of k'] fd(3) m t'(1-3) by (simp add: live_count_def matches_def)
  qed
qed

lemma delete_safe_correct:
  assumes "st_inv nv t" "st_type t = ty" "nv = Some never" "st_delete_safe t k never = (r, k2, w, t')"
  shows "st_inv nv t' \<and> st_type t' = ty \<and>
    st_abs nv t' k' = (if EQUAL ty k k' then None else st_abs nv t k') \<and>
    (case st_abs nv t k of
       None \<Rightarrow> r = 0 \<and> k2 = k \<and> t' = t
     | Some v \<Rightarrow> r = 1 \<and> EQUAL ty k k2 \<and> w = Some v \<and> num_entries t' = num_entries t - 1)"
proof -
  define b chain where "b = bin_of (hash_fn ty k) (num_bins t)" and "chain = bins t ! b"
  have hb: "do_hash_bin t k = b" by (simp add: do_hash_bin_def do_hash_def b_def assms(2))
  show ?thesis
  proof (cases "delete_safe_pos ty never k chain")
    case None
    then have res: "r = 0" "k2 = k" "t' = t"
      using assms(2,4) by (auto simp: st_delete_safe_def Let_def hb chain_def[symmetric] split: if_splits)
    moreover have "st_abs nv t k = None"
      using None delete_safe_pos_spec[OF assms(3), where k = k and es = chain]
      by (intro absent_abs[OF assms(1,2)]) (simp add: b_def[symmetric] chain_def)
    ultimately show ?thesis using assms(1,2) abs_cong by (auto split: if_splits)
  next
    case (Some p)
    then have p: "p < length chain" and m: "matches ty nv k (chain ! p)"
      using delete_safe_pos_spec[OF assms(3), where k = k and es = chain] by auto
    note fd = found_entry[OF assms(1,2) p m chain_def[unfolded b_def]]
    define e where "e = (chain ! p)\<lparr>e_key := never, e_record := never\<rparr>"
    have dead: "\<not> live nv e" using assms(3) by (simp add: e_def live_def)
    have t': "r = 1" "k2 = e_key (chain ! p)" "w = Some (e_record (chain ! p))"
      "t' = t\<lparr>bins := (bins t)[b := take p chain @ [e] @ drop (Suc p) chain],
         num_entries := num_entries t - 1\<rparr>"
      using assms(2,4) Some p
      by (auto simp: st_delete_safe_def Let_def hb chain_def[symmetric] e_def upd_conv_take_nth_drop
          split: if_splits)
    have "chain_inv ty nv (num_bins t) b (take p chain @ [e] @ drop (Suc p) chain)"
      using chain_kill[OF fd(2), of e] dead by (simp add: b_def e_def)
    note re = replace_entry[OF assms(1,2) fd(1) m this[unfolded b_def], of "num_entries t - 1",
        folded b_def, folded t'(4)]
    have "num_entries t' = num_entries t - 1" by (simp add: t')
    then show ?thesis
      using re(1,2) re(3)[of k'] fd(3) m t'(1-3) dead by (simp add: live_count_def matches_def)
  qed
qed

lemma copy_correct:
  assumes "st_inv nv t" "st_type t = ty"
  shows "st_inv nv (st_copy t)" "st_type (st_copy t) = ty" "st_abs nv (st_copy t) k = st_abs nv t k"
    "num_entries (st_copy t) = num_entries t"
proof -
  have copy: "st_copy t = t\<lparr>bins := map rev (bins t)\<rparr>"
    by (simp add: st_copy_def fold_Cons_rev)
  have "chain_inv ty nv n i (rev es) = chain_inv ty nv n i es" for n i es
    using sorted_wrt_rev_sym[of "no_clash ty nv" es] no_clash_sym by (simp add: chain_inv_def)
  moreover have "live_count nv (rev es) = live_count nv es" for es
    by (simp add: live_count_def rev_filter[symmetric])
  ultimately show inv: "st_inv nv (st_copy t)"
    using assms by (auto simp: st_inv_def copy o_def)
  show ty: "st_type (st_copy t) = ty" and "num_entries (st_copy t) = num_entries t"
    using assms(2) by (simp_all add: copy)
  show "st_abs nv (st_copy t) k = st_abs nv t k"
    using find_same_set[OF all_sorted[OF inv ty] all_sorted[OF assms]] assms(2)
    by (simp add: st_abs_def copy)
qed

lemma strict: "hash_contract ty None"
  by unfold_locales (use EQUAL_sym EQUAL_trans hash_respects in blast)+

end

section \<open>Iteration and deferred deletion\<close>

text \<open>The walk over the bins is one walk over the entries in bin order.\<close>

lemma foreach_chain_append:
  "foreach_chain f (xs @ ys) s =
     (case foreach_chain f xs s of
        (True, xs', d, s') \<Rightarrow> (True, xs' @ ys, d, s')
      | (False, xs', d, s') \<Rightarrow>
          (let (stopped, ys', d', s'') = foreach_chain f ys s' in (stopped, xs' @ ys', d + d', s'')))"
  by (induction xs arbitrary: s) (auto simp: Let_def split: prod.splits st_retval.splits bool.splits)

lemma foreach_bins_flat:
  "foreach_bins f bs s = (bs', d, s') \<Longrightarrow> \<exists>stopped. foreach_chain f (concat bs) s = (stopped, concat bs', d, s')"
proof (induction bs arbitrary: s bs' d s')
  case Nil
  then show ?case by (auto intro: exI[of _ False])
next
  case (Cons b bs)
  obtain stopped b' d1 s1 where fc: "foreach_chain f b s = (stopped, b', d1, s1)"
    by (metis prod_cases4)
  show ?case
  proof (cases stopped)
    case True
    then show ?thesis using Cons.prems fc by (auto simp: foreach_chain_append)
  next
    case False
    obtain bs2 d2 s2 where fb: "foreach_bins f bs s1 = (bs2, d2, s2)" by (metis prod_cases3)
    from Cons.IH[OF fb] show ?thesis
      using Cons.prems fc fb False by (auto simp: foreach_chain_append)
  qed
qed

lemma foreach_chain_filter:
  "foreach_chain (\<lambda>k v s. (if P k v then ST_DELETE else ST_CONTINUE, g k v s)) es s =
     (False, filter (\<lambda>e. \<not> P (e_key e) (e_record e)) es,
      int (length (filter (\<lambda>e. P (e_key e) (e_record e)) es)),
      fold (\<lambda>e. g (e_key e) (e_record e)) es s)"
  by (induction es arbitrary: s) auto

lemma foreach_bins_filter:
  "foreach_bins (\<lambda>k v s. (if P k v then ST_DELETE else ST_CONTINUE, g k v s)) bs s =
     (map (filter (\<lambda>e. \<not> P (e_key e) (e_record e))) bs,
      int (length (filter (\<lambda>e. P (e_key e) (e_record e)) (concat bs))),
      fold (\<lambda>e. g (e_key e) (e_record e)) (concat bs) s)"
  by (induction bs arbitrary: s) (auto simp: foreach_chain_filter)

lemma chain_inv_Cons:
  "chain_inv ty nv n i (e # es) \<longleftrightarrow> (bin_of (e_hash e) n = i \<and> entry_ok ty nv e) \<and>
     (\<forall>x \<in> set es. no_clash ty nv e x) \<and> chain_inv ty nv n i es"
  by (auto simp: chain_inv_def)

lemma foreach_chain_inv:
  "foreach_chain f es s = (stopped, es', d, s') \<Longrightarrow>
   set es' \<subseteq> set es \<and> d = int (length es) - int (length es') \<and>
   (chain_inv ty nv n i es \<longrightarrow> chain_inv ty nv n i es')"
proof (induction es arbitrary: s stopped es' d s')
  case (Cons e es)
  obtain a s1 where a: "f (e_key e) (e_record e) s = (a, s1)" by fastforce
  obtain st es1 d1 s2 where r: "foreach_chain f es s1 = (st, es1, d1, s2)" by (metis prod_cases4)
  consider (stop) "es' = e # es" "d = 0" | (del) "st = stopped" "s2 = s'" "es' = es1" "d = d1 + 1"
    | (keep) "st = stopped" "s2 = s'" "es' = e # es1" "d = d1"
    using Cons.prems by (cases a) (simp_all add: a r)
  then show ?case
    using Cons.IH[OF r] by cases (simp_all add: chain_inv_Cons subset_iff)
qed simp

lemma foreach_bins_inv:
  "foreach_bins f bs s = (bs', d, s') \<Longrightarrow>
   list_all2 (\<lambda>b b'. \<forall>i. chain_inv ty nv n i b \<longrightarrow> chain_inv ty nv n i b') bs bs' \<and>
   d = int (length (concat bs)) - int (length (concat bs'))"
proof (induction bs arbitrary: s bs' d s')
  case (Cons b bs)
  obtain stopped b1 d1 s1 where c: "foreach_chain f b s = (stopped, b1, d1, s1)" by (metis prod_cases4)
  obtain bs2 d2 s2 where r: "foreach_bins f bs s1 = (bs2, d2, s2)" by (metis prod_cases3)
  have "list_all2 (\<lambda>b b'. \<forall>i. chain_inv ty nv n i b \<longrightarrow> chain_inv ty nv n i b') bs bs"
    by (simp add: list.rel_refl)
  moreover have "bs' = b1 # bs \<and> d = d1 \<or> s2 = s' \<and> bs' = b1 # bs2 \<and> d = d1 + d2"
    using Cons.prems by (cases stopped) (auto simp: c r)
  ultimately show ?case
    using Cons.IH[OF r] foreach_chain_inv[OF c, where ty = ty and nv = nv and n = n]
    by auto
qed simp

text \<open>What the callback answers when it is called for the entries \<open>es\<close> one after the other.\<close>

fun answers ::
    "(st_data \<Rightarrow> st_data \<Rightarrow> 's \<Rightarrow> st_retval \<times> 's) \<Rightarrow> st_table_entry list \<Rightarrow> 's \<Rightarrow> st_retval list" where
  "answers f [] s = []"
| "answers f (e # es) s = (case f (e_key e) (e_record e) s of (a, s') \<Rightarrow> a # answers f es s')"

lemma foreach_chain_calls:
  "foreach_chain f es s = (stopped, es', d, s') \<Longrightarrow>
   \<exists>vis rest. es = vis @ rest \<and> ST_STOP \<notin> set (butlast (answers f vis s)) \<and>
     (rest = [] \<or> vis \<noteq> [] \<and> last (answers f vis s) = ST_STOP) \<and>
     es' = map fst (filter (\<lambda>(e, a). a \<noteq> ST_DELETE) (zip vis (answers f vis s))) @ rest \<and>
     s' = fold (\<lambda>e s. snd (f (e_key e) (e_record e) s)) vis s"
proof (induction es arbitrary: s stopped es' d s')
  case (Cons e es)
  obtain a s1 where a: "f (e_key e) (e_record e) s = (a, s1)" by fastforce
  show ?case
  proof (cases "a = ST_STOP")
    case True
    then show ?thesis using Cons.prems by (intro exI[of _ "[e]"] exI[of _ es]) (simp add: a)
  next
    case False
    obtain st es1 d1 s2 where r: "foreach_chain f es s1 = (st, es1, d1, s2)" by (metis prod_cases4)
    have eq: "st = stopped" "s2 = s'" "es' = (if a = ST_DELETE then es1 else e # es1)"
      using Cons.prems False by (cases a; simp add: a r)+
    obtain vis rest where v: "es = vis @ rest" "ST_STOP \<notin> set (butlast (answers f vis s1))"
      "rest = [] \<or> vis \<noteq> [] \<and> last (answers f vis s1) = ST_STOP"
      "es1 = map fst (filter (\<lambda>(e, a). a \<noteq> ST_DELETE) (zip vis (answers f vis s1))) @ rest"
      "s' = fold (\<lambda>e s. snd (f (e_key e) (e_record e) s)) vis s1"
      using Cons.IH[OF r] unfolding eq(1,2) by blast
    have "vis \<noteq> [] \<longleftrightarrow> answers f vis s1 \<noteq> []" by (cases vis) (auto split: prod.splits)
    then show ?thesis using v eq(3) False
      by (intro exI[of _ "e # vis"] exI[of _ rest]) (auto simp: a)
  qed
qed (auto intro: exI[of _ "[]"])

context hash_contract
begin

lemma foreach_inv:
  assumes "st_inv None t" "st_type t = ty"
  shows "st_inv None (fst (st_foreach t f s))"
proof -
  obtain bs d s' where fb: "foreach_bins f (bins t) s = (bs, d, s')" by (metis prod_cases3)
  note r = foreach_bins_inv[OF fb, where ty = ty and nv = None and n = "num_bins t"]
  have "(\<Sum>es\<leftarrow>cs. live_count None es) = int (length (concat cs))" for cs
    by (induction cs) (simp_all add: live_count_def live_def)
  then show ?thesis
    using assms r by (auto simp: st_inv_def st_foreach_def fb list_all2_conv_all_nth)
qed

lemma delete_entry:
  assumes "st_inv nv t" "st_type t = ty" "st_delete t k = (r, k2, w, t')" "r \<noteq> 0"
  shows "\<exists>xs e ys. concat (bins t) = xs @ e # ys \<and> concat (bins t') = xs @ ys \<and>
    EQUAL ty k (e_key e) \<and> k2 = e_key e \<and> w = Some (e_record e)"
proof -
  define b chain where "b = bin_of (hash_fn ty k) (num_bins t)" and "chain = bins t ! b"
  have hb: "do_hash_bin t k = b" by (simp add: do_hash_bin_def do_hash_def b_def assms(2))
  have b: "b < length (bins t)" using bin_of_less[OF assms(1)] by (simp add: b_def)
  obtain p where p: "delete_pos ty k chain = Some p" and k2: "k2 = e_key (chain ! p)"
    and w: "w = Some (e_record (chain ! p))"
    and t': "bins t' = (bins t)[b := take p chain @ drop (Suc p) chain]"
    using assms(2-4) by (auto simp: st_delete_def Let_def hb chain_def[symmetric] split: if_splits option.splits)
  have pl: "p < length chain" and eq: "EQUAL ty k (e_key (chain ! p))"
    using delete_pos_spec[where k = k and es = chain] p by auto
  have "bins t = take b (bins t) @ (take p chain @ chain ! p # drop (Suc p) chain) # drop (Suc b) (bins t)"
    using id_take_nth_drop[OF b] id_take_nth_drop[OF pl] by (simp add: chain_def)
  then have "concat (bins t) = concat (take b (bins t) @ (take p chain @ chain ! p # drop (Suc p) chain) # drop (Suc b) (bins t))"
    by (rule arg_cong)
  then have "concat (bins t) = (concat (take b (bins t)) @ take p chain) @ chain ! p #
      (drop (Suc p) chain @ concat (drop (Suc b) (bins t)))" by simp
  moreover have "concat (bins t') = (concat (take b (bins t)) @ take p chain) @
      (drop (Suc p) chain @ concat (drop (Suc b) (bins t)))"
    by (simp add: t' upd_conv_take_nth_drop[OF b])
  ultimately show ?thesis using eq k2 w by blast
qed

lemma delete_absent:
  assumes "st_delete t k = (0, k2, w, t')"
  shows "w = (if bins t ! do_hash_bin t k = [] then Some 0 else None)"
  using assms by (auto simp: st_delete_def Let_def split: if_splits option.splits)

lemma cleanup_correct:
  assumes "st_inv nv t" "st_type t = ty" "nv = Some never"
  shows "st_inv None (st_cleanup_safe t never)" "st_type (st_cleanup_safe t never) = ty"
    "st_abs None (st_cleanup_safe t never) k = st_abs nv t k"
    "num_entries (st_cleanup_safe t never) = num_entries t"
proof -
  have "(\<lambda>k v (s::unit). (delete_never k v never, s)) =
      (\<lambda>k v s. (if v = never then ST_DELETE else ST_CONTINUE, s))"
    by (simp add: delete_never_def fun_eq_iff)
  then have bins: "bins (st_cleanup_safe t never) = map (filter (\<lambda>e. e_record e \<noteq> never)) (bins t)"
    and rest: "num_bins (st_cleanup_safe t never) = num_bins t"
      "st_type (st_cleanup_safe t never) = ty" "num_entries (st_cleanup_safe t never) = num_entries t"
    using foreach_bins_filter[of "\<lambda>k v. v = never" "\<lambda>k v s. s" "bins t" "()"] assms(2)
    by (simp_all add: st_cleanup_safe_def st_foreach_def)
  have ok: "entry_ok ty nv e" if "es \<in> set (bins t)" "e \<in> set es" for e es
    using that chain_of_inv[OF assms(1,2)] by (auto simp: chain_inv_def in_set_conv_nth[of es])
  then have lv: "filter (\<lambda>e. e_record e \<noteq> never) es = filter (live nv) es" if "es \<in> set (bins t)" for es
    using that assms(3) by (intro filter_cong) (auto simp: entry_ok_def live_def)
  then have bl: "bins (st_cleanup_safe t never) = map (filter (live nv)) (bins t)"
    unfolding bins by simp
  have ci: "chain_inv ty None n i (filter (live nv) es)" if "chain_inv ty nv n i es" for n i es
    using that sorted_wrt_filter[of "no_clash ty nv" es "live nv"]
    by (auto simp: chain_inv_def entry_ok_def no_clash_def live_def[of None] elim: sorted_wrt_mono_rel[rotated])
  have "live_count None (filter (live nv) es) = live_count nv es" for es
    by (simp add: live_count_def live_def[of None])
  then show inv: "st_inv None (st_cleanup_safe t never)"
    using assms(1,2) ci by (auto simp: st_inv_def bl rest o_def)
  show "st_type (st_cleanup_safe t never) = ty" "num_entries (st_cleanup_safe t never) = num_entries t"
    by (rule rest)+
  have "List.find (matches ty None k) (filter (live nv) es) = List.find (matches ty nv k) es" for es
    by (induction es) (auto simp: matches_def live_def[of None])
  then show "st_abs None (st_cleanup_safe t never) k = st_abs nv t k"
    by (simp add: st_abs_def rest assms(2) bl filter_concat[symmetric])
qed

end

section \<open>The hash types of the package meet the contract\<close>

lemma strcmp_eq_0: "strcmp xs ys = 0 \<longleftrightarrow> xs = ys"
  by (induction xs ys rule: strcmp.induct) auto

interpretation num_table: hash_contract type_numhash nv for nv
  by unfold_locales (auto simp: EQUAL_def type_numhash_def numcmp_def split: if_splits)

interpretation str_table: hash_contract "type_strhash mem" None for mem
  by unfold_locales (auto simp: EQUAL_def type_strhash_def strcmp_eq_0)

section \<open>Tables as dictionaries\<close>

datatype ('k, 'v) dict_op = Insert 'k 'v | Delete 'k

text \<open>A run of a client: a sequence of insertions and deletions, stopped by the first error.\<close>

fun run_ops ::
    "('m \<Rightarrow> 'k \<Rightarrow> 'v \<Rightarrow> 'm outcome) \<Rightarrow> ('m \<Rightarrow> 'k \<Rightarrow> 'm) \<Rightarrow> ('k, 'v) dict_op list \<Rightarrow> 'm \<Rightarrow> 'm outcome" where
  "run_ops ins del [] m = return m"
| "run_ops ins del (Insert k v # ops) m = obind (ins m k v) (run_ops ins del ops)"
| "run_ops ins del (Delete k # ops) m = run_ops ins del ops (del m k)"

text \<open>What the run means for a dictionary whose keys are compared with \<open>eq\<close>.\<close>

fun spec_ops :: "('k \<Rightarrow> 'k \<Rightarrow> bool) \<Rightarrow> ('k, 'v) dict_op list \<Rightarrow> ('k \<Rightarrow> 'v option) \<Rightarrow> 'k \<Rightarrow> 'v option" where
  "spec_ops eq [] f = f"
| "spec_ops eq (Insert k v # ops) f = spec_ops eq ops (\<lambda>k'. if eq k k' then Some v else f k')"
| "spec_ops eq (Delete k # ops) f = spec_ops eq ops (\<lambda>k'. if eq k k' then None else f k')"

locale dictionary =
  fixes invar :: "'m \<Rightarrow> bool"
    and find :: "'m \<Rightarrow> 'k \<Rightarrow> 'v option"
    and ins :: "'m \<Rightarrow> 'k \<Rightarrow> 'v \<Rightarrow> 'm outcome"
    and del :: "'m \<Rightarrow> 'k \<Rightarrow> 'm"
    and eq :: "'k \<Rightarrow> 'k \<Rightarrow> bool"
  assumes ins_invar: "invar m \<Longrightarrow> ins m k v = Inr m' \<Longrightarrow> invar m'"
    and ins_find: "invar m \<Longrightarrow> ins m k v = Inr m' \<Longrightarrow>
      find m' k' = (if eq k k' then Some v else find m k')"
    and del_invar: "invar m \<Longrightarrow> invar (del m k)"
    and del_find: "invar m \<Longrightarrow> find (del m k) k' = (if eq k k' then None else find m k')"
begin

lemma run_refines:
  "invar m \<Longrightarrow> run_ops ins del ops m = Inr m' \<Longrightarrow>
   invar m' \<and> find m' = spec_ops eq ops (find m)"
proof (induction ops arbitrary: m)
  case Nil
  then show ?case by simp
next
  case (Cons x ops)
  show ?case
  proof (cases x)
    case (Insert k v)
    with Cons.prems(2) obtain m1 where m1: "ins m k v = Inr m1" "run_ops ins del ops m1 = Inr m'"
      by (auto simp: obind_eq_Inr_iff)
    have "find m1 = (\<lambda>k'. if eq k k' then Some v else find m k')"
      using ins_find[OF Cons.prems(1) m1(1)] by blast
    then show ?thesis
      using Cons.IH[OF ins_invar[OF Cons.prems(1) m1(1)] m1(2)] Insert by simp
  next
    case (Delete k)
    have "find (del m k) = (\<lambda>k'. if eq k k' then None else find m k')"
      using del_find[OF Cons.prems(1)] by blast
    then show ?thesis
      using Cons.IH[OF del_invar[OF Cons.prems(1)], of k] Cons.prems(2) Delete by simp
  qed
qed

end

definition table_insert :: "st_table \<Rightarrow> st_data \<Rightarrow> st_data \<Rightarrow> st_table outcome" where
  "table_insert t k v = obind (st_insert t k v) (\<lambda>(r, t'). return t')"

definition table_delete :: "st_table \<Rightarrow> st_data \<Rightarrow> st_table" where
  "table_delete t k = snd (snd (snd (st_delete t k)))"

context hash_contract
begin

lemma dictionary_laws:
  "dictionary (\<lambda>t. st_inv None t \<and> st_type t = ty) st_lookup table_insert table_delete (EQUAL ty)"
proof -
  note s = strict
  note ins = hash_contract.insert_correct[OF s] and del = hash_contract.delete_correct[OF s]
    and look = hash_contract.lookup_abs[OF s]
  show ?thesis
  proof
    fix t t' k v k'
    assume t: "st_inv None t \<and> st_type t = ty" and "table_insert t k v = Inr t'"
    then obtain r where r: "st_insert t k v = Inr (r, t')"
      by (auto simp: table_insert_def obind_eq_Inr_iff)
    from ins[OF _ _ _ _ r] t show inv: "st_inv None t' \<and> st_type t' = ty" by simp
    show "st_lookup t' k' = (if EQUAL ty k k' then Some v else st_lookup t k')"
      using ins(3)[OF _ _ _ _ r, of k'] t inv by (simp add: look)
  next
    fix t k k'
    assume t: "st_inv None t \<and> st_type t = ty"
    obtain r k2 w t' where d: "st_delete t k = (r, k2, w, t')" by (metis prod_cases4)
    from del[OF _ _ _ d, of k'] t show "st_inv None (table_delete t k) \<and> st_type (table_delete t k) = ty"
      by (simp add: table_delete_def d)
    with del[OF _ _ _ d, of k'] t
    show "st_lookup (table_delete t k) k' = (if EQUAL ty k k' then None else st_lookup t k')"
      by (simp add: table_delete_def d look)
  qed
qed

end

lemma init_correct:
  assumes "st_init_table_with_size ty sz = Inr t" "- 2147483648 \<le> sz"
  shows "st_inv None t" "st_type t = ty" "st_abs None t k = None"
proof -
  define n where "n = new_size sz"
  from assms(1) obtain bs where bs: "calloc_bins n = Inr bs"
    and t: "t = \<lparr>st_type = ty, num_bins = n, num_entries = 0, bins = bs\<rparr>"
    by (auto simp: st_init_table_with_size_def n_def Let_def obind_eq_Inr_iff)
  have "0 < n"
    using new_size_cases[OF assms(2)] bs calloc_bins_minus1 unfolding n_def[symmetric] by auto
  moreover have "bs = replicate (nat n) []" by (rule calloc_bins_Inr[OF bs])
  ultimately show "st_inv None t" "st_type t = ty" "st_abs None t k = None"
    by (simp_all add: t st_inv_def chain_inv_def st_abs_def live_count_def sum_list_replicate)
qed

text \<open>A table without marked entries may start to be used with deferred deletion.\<close>

lemma inv_with_marker:
  assumes "st_inv None t"
    and "\<And>e. e \<in> set (concat (bins t)) \<Longrightarrow> e_key e \<noteq> never \<and> e_record e \<noteq> never"
  shows "st_inv (Some never) t" "st_abs (Some never) t k = st_abs None t k"
proof -
  have lv: "live (Some never) e" "live None e" if "e \<in> set (concat (bins t))" for e
    using assms(2)[OF that] by (auto simp: live_def)
  have mem: "e \<in> set (concat (bins t))" if "i < length (bins t)" "e \<in> set (bins t ! i)" for e i
    using that nth_mem by fastforce
  have ci: "chain_inv (st_type t) (Some never) (num_bins t) i (bins t ! i)" if "i < length (bins t)" for i
  proof -
    have "chain_inv (st_type t) None (num_bins t) i (bins t ! i)"
      using assms(1) that by (simp add: st_inv_def)
    moreover have "entry_ok (st_type t) (Some never) e"
      if "e \<in> set (bins t ! i)" "entry_ok (st_type t) None e" for e
      using that assms(2)[OF mem[OF \<open>i < length (bins t)\<close> that(1)]]
      by (auto simp: entry_ok_def live_def)
    moreover have "no_clash (st_type t) None a b \<Longrightarrow> no_clash (st_type t) (Some never) a b" for a b
      by (simp add: no_clash_def live_def)
    ultimately show ?thesis
      by (auto simp: chain_inv_def elim!: sorted_wrt_mono_rel[rotated])
  qed
  have "filter (live (Some never)) es = filter (live None) es" if "es \<in> set (bins t)" for es
    using that lv by (intro filter_cong) auto
  then have "map (live_count (Some never)) (bins t) = map (live_count None) (bins t)"
    by (simp add: live_count_def)
  then show "st_inv (Some never) t" using assms(1) ci by (simp add: st_inv_def del: map_eq_conv)
  have "List.find (matches (st_type t) (Some never) k) (concat (bins t)) =
      List.find (matches (st_type t) None k) (concat (bins t))"
    using lv by (intro find_cong) (auto simp: matches_def)
  then show "st_abs (Some never) t k = st_abs None t k" by (simp add: st_abs_def)
qed

text \<open>Marking the entries of several keys while the table is being walked.\<close>

definition delete_safe_all :: "st_data \<Rightarrow> st_data list \<Rightarrow> st_table \<Rightarrow> st_table" where
  "delete_safe_all never ks t = fold (\<lambda>k t. snd (snd (snd (st_delete_safe t k never)))) ks t"

context hash_contract
begin

lemma delete_safe_all_correct:
  assumes "st_inv nv t" "st_type t = ty" "nv = Some never"
  shows "st_inv nv (delete_safe_all never ks t) \<and> st_type (delete_safe_all never ks t) = ty \<and>
    st_abs nv (delete_safe_all never ks t) k =
      (if \<exists>k' \<in> set ks. EQUAL ty k' k then None else st_abs nv t k)"
  using assms(1,2)
proof (induction ks arbitrary: t)
  case Nil
  then show ?case by (simp add: delete_safe_all_def)
next
  case (Cons x ks)
  obtain r k2 w t1 where d: "st_delete_safe t x never = (r, k2, w, t1)" by (metis prod_cases4)
  note one = delete_safe_correct[OF Cons.prems assms(3) d, of k]
  have "delete_safe_all never (x # ks) t = delete_safe_all never ks t1"
    by (simp add: delete_safe_all_def d)
  then show ?case using Cons.IH[of t1] one by auto
qed

end

interpretation num_dict: dictionary
  "\<lambda>t. st_inv None t \<and> st_type t = type_numhash" st_lookup table_insert table_delete "EQUAL type_numhash"
  by (rule num_table.dictionary_laws)

interpretation str_dict: dictionary
  "\<lambda>t. st_inv None t \<and> st_type t = type_strhash mem" st_lookup table_insert table_delete
  "EQUAL (type_strhash mem)" for mem
  by (rule str_table.dictionary_laws)

section \<open>Properties\<close>

text \<open>
  C1. A freshly made table, taken through any sequence of insertions and deletions that raises
  no error, answers every lookup as the abstract dictionary does that compares keys with the
  table's \<open>EQUAL\<close>. Rehashing, the choice of bins and the order of the chains are invisible.
\<close>

theorem st_refines_dictionary:
  assumes "hash_contract ty None"
    and "st_init_table_with_size ty sz = Inr t" "- 2147483648 \<le> sz"
    and "run_ops table_insert table_delete ops t = Inr t'"
  shows "st_inv None t' \<and> st_lookup t' k = spec_ops (EQUAL ty) ops (\<lambda>_. None) k"
proof -
  note init = init_correct[OF assms(2,3)]
  have t: "st_inv None t \<and> st_type t = ty" using init by simp
  have "st_lookup t = (\<lambda>_. None)"
    using hash_contract.lookup_abs[OF assms(1)] init by auto
  then show ?thesis
    using dictionary.run_refines[OF hash_contract.dictionary_laws[OF assms(1)] t assms(4)] by simp
qed

theorem st_refines_dictionary_witness:
  "\<exists>t t'. st_init_table_with_size type_numhash 0 = Inr t \<and>
     run_ops table_insert table_delete [Insert 1 10, Insert 12 20, Insert 1 30, Delete 12] t = Inr t' \<and>
     st_lookup t' 1 = Some 30 \<and> st_lookup t' 12 = None"
proof -
  let ?ops = "[Insert 1 10, Insert 12 20, Insert 1 30, Delete 12] :: (st_data, st_data) dict_op list"
  have "\<not> isl (obind (st_init_table_with_size type_numhash 0) (run_ops table_insert table_delete ?ops))"
    by code_simp
  then obtain t t' where t: "st_init_table_with_size type_numhash 0 = Inr t"
    and r: "run_ops table_insert table_delete ?ops t = Inr t'"
    by (auto simp: obind_def isl_def split: sum.splits)
  note s = st_refines_dictionary[OF num_table.strict t _ r, simplified]
  have "st_lookup t' 1 = Some 30" using s[of 1] by (simp add: EQUAL_def type_numhash_def numcmp_def)
  moreover have "st_lookup t' 12 = None" using s[of 12] by (simp add: EQUAL_def type_numhash_def numcmp_def)
  ultimately show ?thesis using t r by blast
qed

text \<open>A small table with two colliding keys, used as the concrete instance below.\<close>

definition example_table :: st_table where
  "example_table =
     \<lparr>st_type = type_numhash, num_bins = 11, num_entries = 2,
      bins = (replicate 11 [])[1 := [\<lparr>e_hash = 12, e_key = 12, e_record = 20\<rparr>,
                                     \<lparr>e_hash = 1, e_key = 1, e_record = 10\<rparr>]]\<rparr>"

lemma example_table_inv: "st_inv None example_table"
  by code_simp

lemma example_table_simps:
  "st_type example_table = type_numhash" "num_bins example_table = 11" "num_entries example_table = 2"
  "concat (bins example_table) =
     [\<lparr>e_hash = 12, e_key = 12, e_record = 20\<rparr>, \<lparr>e_hash = 1, e_key = 1, e_record = 10\<rparr>]"
  by (simp_all add: example_table_def numeral_eq_Suc)

lemma example_table_lookup: "st_lookup example_table 12 = Some 20" "st_lookup example_table 1 = Some 10"
  by code_simp+

text \<open>
  On a well-formed table whose bin array can still grow, \<open>st_insert\<close> succeeds, keeps the
  table well-formed, stores the record under the key, leaves every other key alone, and returns
  and counts a new entry exactly when the key was absent.
\<close>

theorem st_insert_correct:
  assumes "hash_contract (st_type t) None" "st_inv None t" "num_bins t < 268435455"
  shows "\<exists>r t'. st_insert t k v = Inr (r, t') \<and> st_inv None t' \<and> st_type t' = st_type t \<and>
    (\<forall>k'. st_lookup t' k' = (if EQUAL (st_type t) k k' then Some v else st_lookup t k')) \<and>
    r = (if st_lookup t k = None then 0 else 1) \<and>
    num_entries t' = num_entries t + (if st_lookup t k = None then 1 else 0)"
proof -
  obtain r t' where i: "st_insert t k v = Inr (r, t')"
    using hash_contract.insert_succeeds[OF assms] by blast
  note ins = hash_contract.insert_correct[OF assms(1,2) refl _ _ i]
  have "st_lookup u x = st_abs None u x" if "u = t \<or> u = t'" for u x
    using that hash_contract.lookup_abs[OF assms(1)] assms(2) ins(1,2) by auto
  then show ?thesis using i ins by (auto intro!: exI[of _ r] exI[of _ t'])
qed

theorem st_insert_correct_witness:
  "\<exists>r t'. st_insert example_table 12 99 = Inr (r, t') \<and> st_inv None t' \<and> r = 1 \<and>
     st_lookup t' 12 = Some 99 \<and> st_lookup t' 1 = Some 10 \<and> num_entries t' = 2"
proof -
  have "hash_contract (st_type example_table) None"
    using num_table.strict by (simp add: example_table_simps)
  from st_insert_correct[OF this example_table_inv, of 12 99]
  show ?thesis
    by (auto simp: example_table_simps example_table_lookup EQUAL_def type_numhash_def numcmp_def)
qed

text \<open>
  C2. \<open>st_delete\<close> removes exactly the entry of the given key. When there is one, it takes a
  single entry out of the table and leaves all others in their order, hands back the key and the
  record stored in that entry (the key may be another value than the one asked for, when
  \<open>EQUAL\<close> identifies them) and returns 1. Otherwise it returns 0, leaves key and table as they
  were, and stores 0 into \<open>*value\<close> only if the bin is empty.
\<close>

theorem st_delete_correct:
  assumes "hash_contract (st_type t) None" "st_inv None t" "st_delete t k = (r, k2, w, t')"
  shows "st_inv None t' \<and>
    (\<forall>k'. st_lookup t' k' = (if EQUAL (st_type t) k k' then None else st_lookup t k')) \<and>
    (case st_lookup t k of
       None \<Rightarrow> r = 0 \<and> k2 = k \<and> t' = t \<and> w = (if bins t ! do_hash_bin t k = [] then Some 0 else None)
     | Some v \<Rightarrow> r = 1 \<and> num_entries t' = num_entries t - 1 \<and>
         (\<exists>xs e ys. concat (bins t) = xs @ e # ys \<and> concat (bins t') = xs @ ys \<and>
            EQUAL (st_type t) k (e_key e) \<and> e_record e = v \<and> k2 = e_key e \<and> w = Some v))"
proof -
  note del = hash_contract.delete_correct[OF assms(1,2) refl _ assms(3)]
  note ent = hash_contract.delete_entry[OF assms(1,2) refl assms(3)]
  have look: "st_lookup u x = st_abs None u x" if "u = t \<or> u = t'" for u x
    using that hash_contract.lookup_abs[OF assms(1)] assms(2) del by auto
  have all: "st_inv None t'"
    "\<forall>k'. st_lookup t' k' = (if EQUAL (st_type t) k k' then None else st_lookup t k')"
    using del look by auto
  show ?thesis
  proof (cases "st_lookup t k")
    case None
    then have "r = 0" "k2 = k" "t' = t" using del[of k] look by auto
    then show ?thesis
      using all None hash_contract.delete_absent[OF assms(1), of t k k2 w t'] assms(3) by auto
  next
    case (Some v)
    have d: "r = 1" "w = Some v" "num_entries t' = num_entries t - 1"
      using del[of k] Some look by auto
    obtain xs e ys where "concat (bins t) = xs @ e # ys" "concat (bins t') = xs @ ys"
      "EQUAL (st_type t) k (e_key e)" "k2 = e_key e" "w = Some (e_record e)"
      using ent d(1) by auto
    then have "\<exists>xs e ys. concat (bins t) = xs @ e # ys \<and> concat (bins t') = xs @ ys \<and>
        EQUAL (st_type t) k (e_key e) \<and> e_record e = v \<and> k2 = e_key e \<and> w = Some v"
      using d(2) by (intro exI[of _ xs] exI[of _ e] exI[of _ ys]) simp
    then show ?thesis using all Some d(1,3) by simp
  qed
qed

text \<open>A table of strings in a memory where only the address 300 holds a string that is not empty.\<close>

definition example_mem :: "st_data \<Rightarrow> 8 word list" where
  "example_mem a = (if a = 300 then [65] else [])"

definition example_strings :: st_table where
  "example_strings =
     \<lparr>st_type = type_strhash example_mem, num_bins = 11, num_entries = 2,
      bins = (replicate 11 [])[0 := [\<lparr>e_hash = 0, e_key = 100, e_record = 7\<rparr>],
                               1 := [\<lparr>e_hash = 67, e_key = 300, e_record = 9\<rparr>]]\<rparr>"

lemma example_strings_facts:
  "st_inv None example_strings" "st_lookup example_strings 200 = Some 7"
  "concat (bins example_strings) =
     [\<lparr>e_hash = 0, e_key = 100, e_record = 7\<rparr>, \<lparr>e_hash = 67, e_key = 300, e_record = 9\<rparr>]"
  by (code_simp, code_simp, simp add: example_strings_def numeral_eq_Suc)

theorem st_delete_correct_witness:
  "\<exists>t'. st_delete example_strings 200 = (1, 100, Some 7, t') \<and> num_entries t' = 1 \<and>
     st_lookup t' 100 = None \<and> st_lookup t' 300 = Some 9"
proof -
  have c: "hash_contract (st_type example_strings) None"
    using str_table.hash_contract_axioms by (simp add: example_strings_def)
  obtain r k2 w t' where d: "st_delete example_strings 200 = (r, k2, w, t')" by (metis prod_cases4)
  have ne: "num_entries example_strings = 2" "st_type example_strings = type_strhash example_mem"
    by (simp_all add: example_strings_def)
  have eq: "EQUAL (type_strhash example_mem) 200 100" "\<not> EQUAL (type_strhash example_mem) 200 300"
    "st_lookup example_strings 300 = Some 9"
    by code_simp+
  note s = st_delete_correct[OF c example_strings_facts(1) d, unfolded example_strings_facts(2,3) ne, simplified]
  obtain xs e ys where e: "[\<lparr>e_hash = 0, e_key = 100, e_record = 7\<rparr>, \<lparr>e_hash = 67, e_key = 300, e_record = 9\<rparr>] =
      xs @ e # ys" "EQUAL (type_strhash example_mem) 200 (e_key e)" "k2 = e_key e"
    using s by blast
  have "e \<in> {\<lparr>e_hash = 0, e_key = 100, e_record = 7\<rparr>, \<lparr>e_hash = 67, e_key = 300, e_record = 9\<rparr>}"
    using arg_cong[OF e(1), of set] by auto
  then have "k2 = 100" using e(2,3) eq(2) by auto
  moreover have "st_lookup t' 100 = None" "st_lookup t' 300 = Some 9" "r = 1" "w = Some 7" "num_entries t' = 1"
    using s eq by auto
  ultimately show ?thesis using d by blast
qed

text \<open>
  C3. Deferred deletion: marking the entries of any list of keys with \<open>st_delete_safe\<close> and then
  calling \<open>st_cleanup_safe\<close> leaves a well-formed table without marked entries, from which
  exactly those keys are gone, and whose entry count is right.
\<close>

theorem st_deferred_deletion:
  assumes "hash_contract (st_type t) (Some never)" "st_inv None t"
    and "\<And>e. e \<in> set (concat (bins t)) \<Longrightarrow> e_key e \<noteq> never \<and> e_record e \<noteq> never"
  shows "st_inv None (st_cleanup_safe (delete_safe_all never ks t) never) \<and>
    st_lookup (st_cleanup_safe (delete_safe_all never ks t) never) k =
      (if \<exists>k' \<in> set ks. EQUAL (st_type t) k' k then None else st_lookup t k)"
proof -
  note c = hash_contract.strict[OF assms(1)]
  note mk = inv_with_marker[OF assms(2,3)]
  note del = hash_contract.delete_safe_all_correct[OF assms(1) mk(1) refl refl, of ks k]
  note cl = hash_contract.cleanup_correct[OF assms(1) _ _ refl]
  define u where "u = delete_safe_all never ks t"
  have u: "st_inv (Some never) u" "st_type u = st_type t" using del by (simp_all add: u_def)
  have "st_lookup (st_cleanup_safe u never) k = st_abs (Some never) u k"
    using hash_contract.lookup_abs[OF c cl(1)[OF u] cl(2)[OF u], of k] cl(3)[OF u, of k] by simp
  then show ?thesis
    using cl(1)[OF u] del mk(2) hash_contract.lookup_abs[OF c assms(2) refl, of k] by (simp add: u_def)
qed

theorem st_deferred_deletion_witness:
  "st_lookup (st_cleanup_safe (delete_safe_all 6 [12] example_table) 6) 12 = None \<and>
   st_lookup (st_cleanup_safe (delete_safe_all 6 [12] example_table) 6) 1 = Some 10"
proof -
  have c: "hash_contract (st_type example_table) (Some 6)"
    using num_table.hash_contract_axioms by (simp add: example_table_simps)
  have m: "e_key e \<noteq> 6 \<and> e_record e \<noteq> 6" if "e \<in> set (concat (bins example_table))" for e
    using that unfolding example_table_simps by auto
  from st_deferred_deletion[OF c example_table_inv m, of "[12]" 12]
    st_deferred_deletion[OF c example_table_inv m, of "[12]" 1]
  show ?thesis
    by (simp add: example_table_simps example_table_lookup EQUAL_def type_numhash_def numcmp_def)
qed

text \<open>
  C4. \<open>rehash\<close> of a table that can still grow gives more bins, keeps the number of entries and
  every lookup, and re-establishes the invariant.
\<close>

theorem st_rehash_correct:
  assumes "hash_contract (st_type t) None" "st_inv None t" "num_bins t < 268435455"
  shows "\<exists>t'. rehash t = Inr t' \<and> st_inv None t' \<and> num_bins t < num_bins t' \<and>
    num_entries t' = num_entries t \<and> (\<forall>k. st_lookup t' k = st_lookup t k)"
proof -
  obtain t' where r: "rehash t = Inr t'"
    using hash_contract.rehash_succeeds[OF assms] by blast
  note rc = hash_contract.rehash_correct[OF assms(1,2) refl r]
  have "num_bins t' = new_size (num_bins t + 1)"
    using r by (auto simp: rehash_def Let_def obind_eq_Inr_iff)
  then have "num_bins t < num_bins t'"
    using new_size_props[of "num_bins t + 1"] assms(3) by simp
  then show ?thesis
    using r rc hash_contract.lookup_abs[OF assms(1)] assms(2) by auto
qed

theorem st_rehash_correct_witness:
  "\<exists>t'. rehash example_table = Inr t' \<and> 11 < num_bins t' \<and> st_lookup t' 12 = Some 20"
proof -
  have "hash_contract (st_type example_table) None"
    using num_table.strict by (simp add: example_table_simps)
  from st_rehash_correct[OF this example_table_inv] show ?thesis
    by (auto simp: example_table_simps example_table_lookup)
qed

text \<open>
  C5. \<open>st_foreach\<close>, for every callback that does not change the table itself, whatever it answers
  and however its answers depend on its state. It calls the callback once for each entry of an
  initial part \<open>vis\<close> of the table, in bin and chain order, passing its state on; the part is the
  whole table unless the last of these calls answered \<open>ST_STOP\<close>, and no earlier call did. Exactly
  the visited entries answered by \<open>ST_DELETE\<close> are removed, those after a stop are left alone,
  and the table stays well-formed with a right count.
\<close>

theorem st_foreach_correct:
  assumes "hash_contract (st_type t) None" "st_inv None t" "st_foreach t f s = (t', s')"
  shows "st_inv None t' \<and> num_entries t' = int (length (concat (bins t'))) \<and>
    (\<exists>vis rest. concat (bins t) = vis @ rest \<and>
       s' = fold (\<lambda>e s. snd (f (e_key e) (e_record e) s)) vis s \<and>
       ST_STOP \<notin> set (butlast (answers f vis s)) \<and>
       (rest = [] \<or> vis \<noteq> [] \<and> last (answers f vis s) = ST_STOP) \<and>
       concat (bins t') =
         map fst (filter (\<lambda>(e, a). a \<noteq> ST_DELETE) (zip vis (answers f vis s))) @ rest)"
proof -
  have inv: "st_inv None t'"
    using hash_contract.foreach_inv[OF assms(1,2) refl, of f s] assms(3) by simp
  then have cnt: "num_entries t' = int (length (concat (bins t')))"
    using hash_contract.count_all[OF assms(1)] by (simp add: live_count_def live_def)
  obtain bs d where fb: "foreach_bins f (bins t) s = (bs, d, s')" "bins t' = bs"
    using assms(3) by (auto simp: st_foreach_def split: prod.splits)
  obtain stopped where "foreach_chain f (concat (bins t)) s = (stopped, concat (bins t'), d, s')"
    using foreach_bins_flat[OF fb(1)] fb(2) by blast
  from foreach_chain_calls[OF this] inv cnt show ?thesis by blast
qed

theorem st_foreach_correct_witness:
  "snd (st_foreach example_table (\<lambda>k v s. (if s = 0 then ST_DELETE else ST_STOP, v + s)) 0) = 30 \<and>
   num_entries (fst (st_foreach example_table (\<lambda>k v s. (if s = 0 then ST_DELETE else ST_STOP, v + s)) 0)) = 1"
proof -
  let ?f = "\<lambda>k v s. (if s = 0 then ST_DELETE else ST_STOP, v + s)"
  have c: "hash_contract (st_type example_table) None"
    using num_table.strict by (simp add: example_table_simps)
  obtain t' s' where f: "st_foreach example_table ?f 0 = (t', s')" by fastforce
  obtain vis rest where v: "concat (bins example_table) = vis @ rest"
    "s' = fold (\<lambda>e s. snd (?f (e_key e) (e_record e) s)) vis 0"
    "rest = [] \<or> vis \<noteq> [] \<and> last (answers ?f vis 0) = ST_STOP"
    "concat (bins t') = map fst (filter (\<lambda>(e, a). a \<noteq> ST_DELETE) (zip vis (answers ?f vis 0))) @ rest"
    and n: "num_entries t' = int (length (concat (bins t')))"
    using st_foreach_correct[OF c example_table_inv f] by blast
  obtain a b where ab: "a = \<lparr>e_hash = 12, e_key = 12, e_record = 20\<rparr>"
    "b = \<lparr>e_hash = 1, e_key = 1, e_record = 10\<rparr>" by blast
  have "vis = [] \<and> rest = [a, b] \<or> vis = [a] \<and> rest = [b] \<or> vis = [a, b] \<and> rest = []"
    using v(1) unfolding example_table_simps ab[symmetric]
    by (cases vis; cases "tl vis"; cases "tl (tl vis)") auto
  then have "vis = [a, b] \<and> rest = []" using v(3) by (auto simp: ab)
  then show ?thesis using v(2,4) n f by (simp add: ab)
qed

text \<open>
  \<open>st_copy\<close> gives a well-formed table with the same entry count and the same answer to every
  lookup.
\<close>

theorem st_copy_correct:
  assumes "hash_contract (st_type t) None" "st_inv None t"
  shows "st_inv None (st_copy t) \<and> num_entries (st_copy t) = num_entries t \<and>
    st_lookup (st_copy t) k = st_lookup t k"
  using hash_contract.copy_correct[OF assms refl] hash_contract.lookup_abs[OF assms(1)] assms(2) by simp

theorem st_copy_correct_witness: "st_lookup (st_copy example_table) 12 = Some 20"
proof -
  have "hash_contract (st_type example_table) None"
    using num_table.strict by (simp add: example_table_simps)
  from st_copy_correct[OF this example_table_inv, of 12] show ?thesis
    by (simp add: example_table_lookup)
qed

end
