(* ===== verification/Bignum.thy ===== *)
theory Bignum
  imports Prelude
begin

unbundle bit_operations_syntax

text \<open>
  The data and the representation of \<^verbatim>\<open>src/ruby/bignum.c\<close>: immediate and big integers,
  normalisation, conversion from and to machine words, and comparison. On OpenVMS a \<open>BDIGIT\<close>
  is an \<open>unsigned short\<close> and a \<open>BDIGIT_DBL\<close> an \<open>unsigned long\<close> (\<^verbatim>\<open>src/ruby/defines.h\<close>), so a
  digit is a \<open>16 word\<close> and an intermediate value an integer kept in range by \<open>u32\<close> or \<open>s32\<close>.
\<close>

section \<open>Data\<close>

type_synonym bdigit = "16 word"

text \<open>
  \<open>sign\<close> is 1 for a non-negative number. \<open>digits\<close> are the first \<open>len\<close> digits, least significant
  first; \<open>len\<close> is the length of the list.
\<close>

record rbignum =
  sign :: bool
  digits :: "bdigit list"

text \<open>
  A \<open>VALUE\<close> as the integer methods see it: an immediate, a \<open>Bignum\<close>, a \<open>Float\<close> or any other
  object, the last two by their address only.
\<close>

datatype "value" = Fixnum int | Bignum rbignum | Flo nat | Obj nat

definition FIXNUM_MAX :: int where "FIXNUM_MAX = 1073741823"
definition FIXNUM_MIN :: int where "FIXNUM_MIN = - 1073741824"

definition POSFIXABLE :: "int \<Rightarrow> bool" where "POSFIXABLE f \<longleftrightarrow> f \<le> FIXNUM_MAX"
definition NEGFIXABLE :: "int \<Rightarrow> bool" where "NEGFIXABLE f \<longleftrightarrow> FIXNUM_MIN \<le> f"
definition FIXABLE :: "int \<Rightarrow> bool" where "FIXABLE f \<longleftrightarrow> POSFIXABLE f \<and> NEGFIXABLE f"

text \<open>The shift by one of \<open>INT2FIX\<close> loses the top bit of the \<open>long\<close>.\<close>

definition LONG2FIX :: "int \<Rightarrow> value" where
  "LONG2FIX i = Fixnum ((i + 1073741824) mod 2147483648 - 1073741824)"

definition BIGRAD :: int where "BIGRAD = 65536"
definition BIGUP :: "int \<Rightarrow> int" where "BIGUP x = u32 (x * BIGRAD)"
definition BIGDN :: "int \<Rightarrow> int" where "BIGDN x = x div BIGRAD"
definition BIGLO :: "int \<Rightarrow> bdigit" where "BIGLO x = word_of_int x"

definition BIGZEROP :: "rbignum \<Rightarrow> bool" where
  "BIGZEROP x \<longleftrightarrow> digits x = [] \<or> (length (digits x) = 1 \<and> digits x ! 0 = 0)"

section \<open>Normalisation\<close>

text \<open>\<open>while (len-- && !ds[len]) ;\<close>\<close>

definition strip_zeros :: "bdigit list \<Rightarrow> bdigit list" where
  "strip_zeros ds = rev (dropWhile (\<lambda>d. d = 0) (rev ds))"

text \<open>\<open>while (len--) num = BIGUP(num) + ds[len]\<close>, for a \<open>long\<close> and for an \<open>unsigned long\<close>.\<close>

definition digits_to_long :: "bdigit list \<Rightarrow> int" where
  "digits_to_long ds = fold (\<lambda>d num. s32 (BIGUP num + uint d)) (rev ds) 0"

definition digits_to_ulong :: "bdigit list \<Rightarrow> int" where
  "digits_to_ulong ds = fold (\<lambda>d num. u32 (BIGUP num + uint d)) (rev ds) 0"

definition bignorm :: "value \<Rightarrow> value" where
  "bignorm x =
     (case x of
        Bignum b \<Rightarrow>
          (let ds = strip_zeros (digits b); x' = b\<lparr>digits := ds\<rparr> in
           if length ds * 2 \<le> 4 then
             (let num = digits_to_long ds in
              if 0 \<le> num then
                (if sign b then (if POSFIXABLE num then LONG2FIX num else Bignum x')
                 else if NEGFIXABLE (- num) then LONG2FIX (- num) else Bignum x')
              else Bignum x')
           else Bignum x')
      | _ \<Rightarrow> x)"

section \<open>Conversions\<close>

text \<open>\<open>DIGSPERLONG\<close> is 2; the trailing loop keeps at least one digit.\<close>

definition rb_uint2big :: "int \<Rightarrow> rbignum" where
  "rb_uint2big n =
     (let d0 = BIGLO n; d1 = BIGLO (BIGDN n)
      in \<lparr>sign = True, digits = (if d1 = 0 then [d0] else [d0, d1])\<rparr>)"

definition rb_int2big :: "int \<Rightarrow> rbignum" where
  "rb_int2big n =
     (if n < 0 then (rb_uint2big (u32 (s32 (- n))))\<lparr>sign := False\<rparr> else rb_uint2big (u32 n))"

definition rb_uint2inum :: "int \<Rightarrow> value" where
  "rb_uint2inum n = (if POSFIXABLE n then LONG2FIX n else Bignum (rb_uint2big n))"

definition rb_int2inum :: "int \<Rightarrow> value" where
  "rb_int2inum n = (if FIXABLE n then LONG2FIX n else Bignum (rb_int2big n))"

definition big2ulong :: "rbignum \<Rightarrow> int outcome" where
  "big2ulong x =
     (if 2 < length (digits x) then raise RangeError else return (digits_to_ulong (digits x)))"

definition rb_big2ulong_pack :: "rbignum \<Rightarrow> int outcome" where
  "rb_big2ulong_pack x =
     obind (big2ulong x) (\<lambda>num. return (if \<not> sign x then u32 (- num) else num))"

definition rb_big2ulong :: "rbignum \<Rightarrow> int outcome" where
  "rb_big2ulong x =
     obind (big2ulong x) (\<lambda>num.
       if \<not> sign x then (if s32 num < 0 then raise RangeError else return (u32 (- num)))
       else return num)"

definition rb_big2long :: "rbignum \<Rightarrow> int outcome" where
  "rb_big2long x =
     obind (big2ulong x) (\<lambda>num.
       if s32 num < 0 \<and> (sign x \<or> s32 num \<noteq> - 2147483648) then raise RangeError
       else if \<not> sign x then return (s32 (- s32 num))
       else return (s32 num))"

section \<open>Comparison\<close>

text \<open>\<open>T_FIXNUM\<close> operands are widened; a \<open>Float\<close> or another object leaves the integer code.\<close>

definition big_operand :: "value \<Rightarrow> rbignum outcome" where
  "big_operand y =
     (case y of
        Fixnum n \<Rightarrow> return (rb_int2big n)
      | Bignum b \<Rightarrow> return b
      | Flo _ \<Rightarrow> raise Float_path
      | Obj _ \<Rightarrow> raise Coerce)"

text \<open>The comparison loop, on the digits most significant first.\<close>

fun cmp_digits :: "bdigit list \<Rightarrow> bdigit list \<Rightarrow> int" where
  "cmp_digits (x # xs) (y # ys) =
     (if x = y then cmp_digits xs ys else if y < x then 1 else -1)"
| "cmp_digits _ _ = 0"

definition rb_big_cmp :: "rbignum \<Rightarrow> value \<Rightarrow> int outcome" where
  "rb_big_cmp x yv =
     obind (big_operand yv) (\<lambda>y. return (
       if sign x \<and> \<not> sign y then 1
       else if \<not> sign x \<and> sign y then -1
       else if length (digits x) < length (digits y) then (if sign x then -1 else 1)
       else if length (digits y) < length (digits x) then (if sign x then 1 else -1)
       else (let c = cmp_digits (rev (digits x)) (rev (digits y))
             in if c = 0 then 0 else if 0 < c then (if sign x then 1 else -1)
             else (if sign x then -1 else 1))))"

definition rb_big_eq :: "rbignum \<Rightarrow> value \<Rightarrow> bool outcome" where
  "rb_big_eq x yv =
     obind (big_operand yv) (\<lambda>y. return (sign x = sign y \<and> digits x = digits y))"

definition rb_big_eql :: "rbignum \<Rightarrow> value \<Rightarrow> bool" where
  "rb_big_eql x yv =
     (case yv of Bignum y \<Rightarrow> sign x = sign y \<and> digits x = digits y | _ \<Rightarrow> False)"

definition rb_big_hash :: "rbignum \<Rightarrow> value" where
  "rb_big_hash x = LONG2FIX (fold (\<lambda>d key. key XOR uint d) (digits x) 0)"

definition rb_big_size :: "rbignum \<Rightarrow> value" where
  "rb_big_size x = LONG2FIX (int (length (digits x)) * 2)"

section \<open>What a representation stands for\<close>

fun digs_val :: "bdigit list \<Rightarrow> int" where
  "digs_val [] = 0"
| "digs_val (d # ds) = uint d + 65536 * digs_val ds"

definition big_val :: "rbignum \<Rightarrow> int" where
  "big_val b = (if sign b then digs_val (digits b) else - digs_val (digits b))"

text \<open>\<open>int_val v = Some i\<close>: the value is an integer object that stands for \<open>i\<close>.\<close>

fun int_val :: "value \<Rightarrow> int option" where
  "int_val (Fixnum n) = Some n"
| "int_val (Bignum b) = Some (big_val b)"
| "int_val _ = None"

text \<open>
  A stored \<open>Bignum\<close> has no leading zero digit and is out of the fixnum range; a fixnum is in it.
  An operand may also be the one-digit form \<open>rb_int2big\<close> makes.
\<close>

definition big_op :: "rbignum \<Rightarrow> bool" where
  "big_op b \<longleftrightarrow> digits b \<noteq> [] \<and> (last (digits b) \<noteq> 0 \<or> length (digits b) = 1)"

definition big_ok :: "rbignum \<Rightarrow> bool" where
  "big_ok b \<longleftrightarrow> digits b \<noteq> [] \<and> last (digits b) \<noteq> 0 \<and> \<not> FIXABLE (big_val b)"

fun value_ok :: "value \<Rightarrow> bool" where
  "value_ok (Fixnum n) \<longleftrightarrow> FIXABLE n"
| "value_ok (Bignum b) \<longleftrightarrow> big_ok b"
| "value_ok _ \<longleftrightarrow> True"

text \<open>An operation returned, and what it returned is the canonical object of \<open>n\<close>.\<close>

definition int_result :: "value outcome \<Rightarrow> int \<Rightarrow> bool" where
  "int_result r n \<longleftrightarrow> (\<exists>v. r = Inr v \<and> value_ok v \<and> int_val v = Some n)"

named_theorems big_simps

lemmas fixable_defs = FIXABLE_def POSFIXABLE_def NEGFIXABLE_def FIXNUM_MAX_def FIXNUM_MIN_def

lemma uint16_bounds: "0 \<le> uint (d :: bdigit)" "uint (d :: bdigit) < 65536"
  using uint_lt2p[of d] by simp_all

lemma uint_NOT: "uint (NOT (d::bdigit)) = 65535 - uint d"
proof -
  have "uint (NOT d) = (- uint d - 1) mod 65536"
    by (simp add: unsigned_not_eq take_bit_eq_mod not_int_def)
  also have "\<dots> = (- uint d - 1 + 65536) mod 65536" by (simp only: mod_add_self2)
  also have "\<dots> = 65535 - uint d"
    using uint16_bounds[of d] by (subst mod_pos_pos_trivial) linarith+
  finally show ?thesis .
qed

lemma uint_BIGLO [big_simps]: "uint (BIGLO x) = x mod 65536"
  by (simp add: BIGLO_def uint_word_of_int)

lemma BIGLO_uint [simp]: "BIGLO (uint d) = d"
  by (simp add: BIGLO_def)

lemma digs_val_append: "digs_val (xs @ ys) = digs_val xs + 65536 ^ length xs * digs_val ys"
  by (induction xs) (simp_all add: algebra_simps)

lemma digs_val_nonneg [simp]: "0 \<le> digs_val ds"
  by (induction ds) simp_all

lemma digs_val_less: "digs_val ds < 65536 ^ length ds"
proof (induction ds)
  case (Cons d ds)
  have "uint d + 65536 * digs_val ds < 65536 * (digs_val ds + 1)"
    using uint16_bounds(2)[of d] by (simp add: distrib_left)
  also have "\<dots> \<le> 65536 * 65536 ^ length ds" using Cons by simp
  finally show ?case by simp
qed simp

lemma digs_val_replicate_0 [simp]: "digs_val (replicate n 0) = 0"
  by (induction n) simp_all

lemma digs_val_ge:
  assumes "ds \<noteq> []" "last ds \<noteq> 0"
  shows "65536 ^ (length ds - 1) \<le> digs_val ds"
proof -
  have e: "ds = butlast ds @ [last ds]" using assms(1) by simp
  have "0 < uint (last ds)" using assms(2) by (metis uint16_bounds(1) order_le_less uint_0_iff)
  then have "65536 ^ (length ds - 1) \<le> (65536 ^ (length ds - 1) * uint (last ds) :: int)"
    by simp
  then show ?thesis
    by (subst e) (simp add: digs_val_append add_increasing)
qed

lemma digs_val_pos: "ds \<noteq> [] \<Longrightarrow> last ds \<noteq> 0 \<Longrightarrow> 0 < digs_val ds"
  by (rule order.strict_trans2[OF zero_less_power digs_val_ge]) simp_all

lemma digs_val_inj: "length xs = length ys \<Longrightarrow> digs_val xs = digs_val ys \<Longrightarrow> xs = ys"
proof (induction xs ys rule: list_induct2)
  case (Cons x xs y ys)
  have "uint x = (uint x + 65536 * digs_val xs) mod 65536" by (simp add: mod_pos_pos_trivial uint16_bounds)
  also have "\<dots> = (uint y + 65536 * digs_val ys) mod 65536" using Cons.prems by simp
  also have "\<dots> = uint y" by (simp add: mod_pos_pos_trivial uint16_bounds)
  finally have "x = y" by (simp add: word_uint_eq_iff)
  then show ?case using Cons by simp
qed simp

lemma strip_zeros_split: "\<exists>n. ds = strip_zeros ds @ replicate n 0"
proof -
  have "rev ds = takeWhile (\<lambda>d. d = 0) (rev ds) @ dropWhile (\<lambda>d. d = 0) (rev ds)" by simp
  then have "ds = strip_zeros ds @ rev (takeWhile (\<lambda>d. d = 0) (rev ds))"
    unfolding strip_zeros_def by (metis rev_append rev_rev_ident)
  moreover have "takeWhile (\<lambda>d. d = 0) (rev ds) = replicate (length (takeWhile (\<lambda>d. d = 0) (rev ds))) 0"
    by (rule replicate_eqI) (auto dest: set_takeWhileD)
  ultimately show ?thesis by (metis rev_replicate)
qed

lemma digs_val_strip [simp]: "digs_val (strip_zeros ds) = digs_val ds"
proof -
  obtain n where "ds = strip_zeros ds @ replicate n 0" using strip_zeros_split by blast
  then show ?thesis by (metis digs_val_append digs_val_replicate_0 mult_zero_right add_0_right)
qed

lemma strip_zeros_last: "strip_zeros ds = [] \<or> last (strip_zeros ds) \<noteq> 0"
proof (cases "strip_zeros ds = []")
  case False
  then have "dropWhile (\<lambda>d. d = 0) (rev ds) \<noteq> []" by (simp add: strip_zeros_def)
  then show ?thesis
    using hd_dropWhile[of "\<lambda>d. d = 0" "rev ds"] by (simp add: strip_zeros_def last_rev)
qed simp

lemma strip_zeros_id: "last ds \<noteq> 0 \<Longrightarrow> strip_zeros ds = ds"
  by (cases ds rule: rev_cases) (simp_all add: strip_zeros_def)

section \<open>Normalisation is canonical\<close>

lemma LONG2FIX_id: "FIXABLE n \<Longrightarrow> LONG2FIX n = Fixnum n"
  by (simp add: LONG2FIX_def fixable_defs)

lemma u32_mod: "u32 (u32 x + y) = u32 (x + y)"
  by (simp add: u32_def mod_simps)

lemma s32_u32: "s32 (u32 x + y) = s32 (x + y)" "s32 (y + u32 x) = s32 (y + x)" "s32 (u32 x) = s32 x"
proof -
  show l: "s32 (u32 x + y) = s32 (x + y)" for x y
    by (simp add: s32_def u32_def mod_simps add.assoc)
  show "s32 (y + u32 x) = s32 (y + x)" using l[of x y] by (simp add: add.commute)
  show "s32 (u32 x) = s32 x" using l[of x 0] by simp
qed

lemma digits_to_ulong_le2:
  assumes "length ds \<le> 2"
  shows "digits_to_ulong ds = digs_val ds"
proof -
  have small: "uint d < 4294967296" for d :: bdigit using uint16_bounds(2)[of d] by linarith
  consider "ds = []" | d where "ds = [d]" | d e where "ds = [d, e]"
    using assms by (cases ds rule: list.exhaust; cases "tl ds" rule: list.exhaust; auto)
  then show ?thesis
  proof cases
    case (3 d e)
    have "uint e * 65536 + uint d < 4294967296" "0 \<le> uint e * 65536 + uint d"
      using uint16_bounds[of d] uint16_bounds[of e] by linarith+
    moreover have "u32 (u32 (uint e * 65536) + uint d) = u32 (uint e * 65536 + uint d)"
      by (simp add: u32_def mod_simps)
    ultimately show ?thesis
      using 3 small[of e] by (simp add: digits_to_ulong_def BIGUP_def BIGRAD_def u32_id)
  qed (simp_all add: digits_to_ulong_def BIGUP_def BIGRAD_def u32_id small)
qed

lemma digits_to_long_le2:
  assumes "length ds \<le> 2"
  shows "digits_to_long ds = s32 (digs_val ds)"
proof -
  consider "ds = []" | d where "ds = [d]" | d e where "ds = [d, e]"
    using assms by (cases ds rule: list.exhaust; cases "tl ds" rule: list.exhaust; auto)
  then show ?thesis
  proof cases
    case (3 d e)
    have "s32 (uint e) = uint e" using uint16_bounds[of e] by (intro s32_id) linarith+
    then show ?thesis
      using 3 by (simp add: digits_to_long_def BIGUP_def BIGRAD_def s32_u32 add.commute mult.commute)
  qed (simp_all add: digits_to_long_def BIGUP_def BIGRAD_def s32_u32 s32_def)
qed

lemma digs_val_len2:
  assumes "ds \<noteq> []" "last ds \<noteq> 0" "digs_val ds < 4294967296"
  shows "length ds \<le> 2"
proof (rule ccontr)
  assume "\<not> length ds \<le> 2"
  then have "(65536::int) ^ 2 \<le> 65536 ^ (length ds - 1)" by (intro power_increasing) auto
  also have "\<dots> \<le> digs_val ds" by (rule digs_val_ge[OF assms(1,2)])
  finally show False using assms(3) by simp
qed

text \<open>\<open>bignorm\<close> neither changes the number nor leaves a form that is not canonical.\<close>

lemma bignorm_correct:
  "int_val (bignorm (Bignum b)) = Some (big_val b)" "value_ok (bignorm (Bignum b))"
proof -
  define ds where "ds = strip_zeros (digits b)"
  define v where "v = digs_val ds"
  have bv: "big_val b = (if sign b then v else - v)" by (simp add: big_val_def v_def ds_def)
  have last: "ds = [] \<or> last ds \<noteq> 0" unfolding ds_def by (rule strip_zeros_last)
  have v0: "0 \<le> v" by (simp add: v_def)
  have keep: "int_val (Bignum (b\<lparr>digits := ds\<rparr>)) = Some (big_val b)"
    by (simp add: big_val_def ds_def)
  have big: "value_ok (Bignum (b\<lparr>digits := ds\<rparr>))" if "\<not> FIXABLE (big_val b)"
  proof -
    have "ds \<noteq> []" using that bv by (auto simp: v_def fixable_defs split: if_splits)
    then show ?thesis using last that keep by (simp add: big_ok_def)
  qed
  show "int_val (bignorm (Bignum b)) = Some (big_val b)" "value_ok (bignorm (Bignum b))"
  proof (atomize(full), cases "length ds \<le> 2")
    case True
    then have num: "digits_to_long ds = s32 v" by (simp add: digits_to_long_le2 v_def)
    have vb: "v < 4294967296"
      using digs_val_less[of ds] True power_increasing[of "length ds" 2 "65536::int"]
      by (simp add: v_def)
    have s: "s32 v = (if v < 2147483648 then v else v - 4294967296)"
      using v0 vb by (auto simp: s32_id s32_high)
    show "int_val (bignorm (Bignum b)) = Some (big_val b) \<and> value_ok (bignorm (Bignum b))"
      using True keep big v0 vb
      by (auto simp: bignorm_def ds_def[symmetric] Let_def num s bv LONG2FIX_id fixable_defs)
  next
    case False
    then have "4294967296 \<le> v"
      using digs_val_len2[of ds] last False unfolding v_def not_less[symmetric] by (cases "ds = []") auto
    then have "\<not> FIXABLE (big_val b)" by (auto simp: bv fixable_defs)
    then show "int_val (bignorm (Bignum b)) = Some (big_val b) \<and> value_ok (bignorm (Bignum b))"
      using False keep big by (simp add: bignorm_def ds_def[symmetric] Let_def)
  qed
qed

lemma bignorm_cases:
  obtains n where "bignorm (Bignum b) = Fixnum n" "FIXABLE n" "n = big_val b"
  | c where "bignorm (Bignum b) = Bignum c" "big_ok c" "big_val c = big_val b"
  using bignorm_correct[of b] by (cases "bignorm (Bignum b)") auto

text \<open>Canonical objects that stand for the same integer are the same object.\<close>

lemma big_ok_unique:
  assumes "big_ok a" "big_ok b" "big_val a = big_val b"
  shows "a = b"
proof -
  have pos: "0 < digs_val (digits c)" if "big_ok c" for c
    using that by (simp add: big_ok_def digs_val_pos)
  then have sg: "sign a = sign b" and mag: "digs_val (digits a) = digs_val (digits b)"
    using assms(3) pos[OF assms(1)] pos[OF assms(2)] by (auto simp: big_val_def split: if_splits)
  have le: "length (digits c) \<le> length (digits d)"
    if "big_ok c" "big_ok d" "digs_val (digits c) = digs_val (digits d)" for c d
  proof (rule ccontr)
    assume "\<not> ?thesis"
    then have "(65536::int) ^ length (digits d) \<le> 65536 ^ (length (digits c) - 1)"
      by (intro power_increasing) auto
    also have "\<dots> \<le> digs_val (digits c)" using digs_val_ge that(1) by (simp add: big_ok_def)
    finally show False using digs_val_less[of "digits d"] that(3) by simp
  qed
  have "digits a = digits b"
    using digs_val_inj le[OF assms(1,2) mag] le[OF assms(2,1) mag[symmetric]] mag by simp
  with sg show ?thesis by simp
qed

lemma big_op_len3: "big_op b \<Longrightarrow> 2 < length (digits b) \<Longrightarrow> 4294967296 \<le> digs_val (digits b)"
  using digs_val_len2[of "digits b"] unfolding big_op_def by (cases "digits b = []") force+

lemma digs_val_le2: "length ds \<le> 2 \<Longrightarrow> digs_val ds < 4294967296"
  using digs_val_less[of ds] power_increasing[of "length ds" 2 "65536::int"] by simp

lemma value_ok_unique:
  assumes "value_ok u" "value_ok v" "int_val u = int_val v" "int_val u \<noteq> None"
  shows "u = v"
  using assms by (cases u; cases v) (auto simp: big_ok_def big_ok_unique)

lemma int_result_bignorm: "big_val b = n \<Longrightarrow> int_result (Inr (bignorm (Bignum b))) n"
  using bignorm_correct[of b] by (simp add: int_result_def)

lemma int_result_unique: "int_result r n \<Longrightarrow> int_result r' n \<Longrightarrow> r = r'"
  using value_ok_unique by (auto simp: int_result_def)

lemma bignorm_eqI: "value_ok v \<Longrightarrow> int_val v = Some (big_val b) \<Longrightarrow> bignorm (Bignum b) = v"
  using bignorm_correct[of b] value_ok_unique[of "bignorm (Bignum b)" v] by simp

section \<open>Conversions\<close>

lemma rb_uint2big_correct:
  assumes "0 \<le> n" "n < 4294967296"
  shows "big_val (rb_uint2big n) = n" "big_op (rb_uint2big n)" "sign (rb_uint2big n)"
    "digs_val (digits (rb_uint2big n)) = n"
proof -
  have hi: "n div 65536 mod 65536 = n div 65536"
    using assms by (intro mod_pos_pos_trivial) (auto simp: div_less_iff_less_mult zdiv_mono1)
  have "uint (BIGLO n) + 65536 * uint (BIGLO (BIGDN n)) = n"
    by (simp add: uint_BIGLO BIGDN_def BIGRAD_def hi)
  then show "big_val (rb_uint2big n) = n" "big_op (rb_uint2big n)" "sign (rb_uint2big n)"
    "digs_val (digits (rb_uint2big n)) = n"
    by (auto simp: rb_uint2big_def Let_def big_val_def big_op_def)
qed

lemma rb_int2big_correct:
  assumes "- 2147483648 \<le> n" "n < 2147483648"
  shows "big_val (rb_int2big n) = n" "big_op (rb_int2big n)" "sign (rb_int2big n) \<longleftrightarrow> 0 \<le> n"
proof -
  have "u32 (s32 (- n)) = - n" if "n < 0"
  proof (cases "n = - 2147483648")
    case False
    then show ?thesis using assms that by (simp add: s32_id u32_id)
  qed (simp add: s32_high u32_def)
  moreover have "u32 n = n" if "0 \<le> n" using assms that by (simp add: u32_id)
  ultimately show "big_val (rb_int2big n) = n" "big_op (rb_int2big n)" "sign (rb_int2big n) \<longleftrightarrow> 0 \<le> n"
    using rb_uint2big_correct[of "- n"] rb_uint2big_correct[of n] assms
    by (auto simp: rb_int2big_def big_val_def big_op_def)
qed

lemma FIXABLE_long: "FIXABLE n \<Longrightarrow> - 2147483648 \<le> n \<and> n < 2147483648"
  by (simp add: fixable_defs)

lemma big_ok_op: "big_ok b \<Longrightarrow> big_op b"
  by (simp add: big_ok_def big_op_def)

lemma big_operand_correct:
  assumes "value_ok y" "int_val y = Some n"
  obtains b where "big_operand y = Inr b" "big_val b = n" "big_op b" "sign b \<longleftrightarrow> 0 \<le> n"
proof (cases y)
  case (Fixnum m)
  then show ?thesis
    using that[of "rb_int2big m"] assms rb_int2big_correct[of m] FIXABLE_long[of m]
    by (auto simp: big_operand_def)
next
  case (Bignum b)
  have "0 < digs_val (digits b)"
    using assms Bignum by (simp add: big_ok_def digs_val_pos)
  then have "sign b \<longleftrightarrow> 0 \<le> big_val b" by (auto simp: big_val_def)
  then show ?thesis
    using that[of b] assms Bignum by (auto simp: big_operand_def big_ok_op)
qed (use assms in auto)

lemma big_operand_other: "int_val y = None \<Longrightarrow> big_operand y \<in> {Inl Float_path, Inl Coerce}"
  by (cases y) (auto simp: big_operand_def)

section \<open>Comparison\<close>

lemma big_op_longer:
  assumes "big_op b" "ds \<noteq> []" "length ds < length (digits b)"
  shows "digs_val ds < digs_val (digits b)"
proof -
  have "last (digits b) \<noteq> 0" using assms by (auto simp: big_op_def)
  have "digs_val ds < 65536 ^ length ds" by (rule digs_val_less)
  also have "\<dots> \<le> 65536 ^ (length (digits b) - 1)" using assms(3) by (intro power_increasing) auto
  also have "\<dots> \<le> digs_val (digits b)"
    using assms(1) \<open>last (digits b) \<noteq> 0\<close> by (intro digs_val_ge) (auto simp: big_op_def)
  finally show ?thesis .
qed

lemma cmp_digits_sgn:
  "length xs = length ys \<Longrightarrow> cmp_digits xs ys = sgn (digs_val (rev xs) - digs_val (rev ys))"
proof (induction xs ys rule: list_induct2)
  case (Cons x xs y ys)
  let ?p = "65536 ^ length ys :: int"
  have lo: "0 \<le> digs_val (rev xs)" "digs_val (rev xs) < ?p" "0 \<le> digs_val (rev ys)" "digs_val (rev ys) < ?p"
    using digs_val_less[of "rev xs"] digs_val_less[of "rev ys"] Cons.hyps by simp_all
  have step: "?p * uint a + ?p \<le> ?p * uint b" if "a < b" for a b :: bdigit
    using that mult_left_mono[of "uint a + 1" "uint b" ?p] by (simp add: word_less_def algebra_simps)
  have val: "digs_val (rev (x # xs)) = digs_val (rev xs) + ?p * uint x"
    "digs_val (rev (y # ys)) = digs_val (rev ys) + ?p * uint y"
    using Cons.hyps by (simp_all add: digs_val_append)
  consider "x = y" | "x < y" | "y < x" by (meson linorder_cases)
  then show ?case
  proof cases
    case 1
    then show ?thesis using Cons by (simp add: digs_val_append)
  next
    case 2
    then have "digs_val (rev (x # xs)) < digs_val (rev (y # ys))"
      using lo step[OF 2] unfolding val by linarith
    then show ?thesis using 2 by (auto simp: sgn_if)
  next
    case 3
    then have "digs_val (rev (y # ys)) < digs_val (rev (x # xs))"
      using lo step[OF 3] unfolding val by linarith
    then show ?thesis using 3 by (auto simp: sgn_if)
  qed
qed simp

lemma big_ok_sign: "big_ok b \<Longrightarrow> sign b \<longleftrightarrow> 0 \<le> big_val b"
  using digs_val_pos[of "digits b"] by (auto simp: big_ok_def big_val_def)

lemma cmp_correct:
  assumes "big_op x" "sign x \<longleftrightarrow> 0 \<le> big_val x" "big_op y" "sign y \<longleftrightarrow> 0 \<le> big_val y"
    and "big_operand yv = Inr y"
  shows "rb_big_cmp x yv = Inr (sgn (big_val x - big_val y))"
proof (cases "sign x = sign y")
  case False
  then show ?thesis using assms by (auto simp: rb_big_cmp_def sgn_if)
next
  case True
  consider "length (digits x) < length (digits y)" | "length (digits y) < length (digits x)"
    | "length (digits x) = length (digits y)" by linarith
  then show ?thesis
  proof cases
    case 1
    then have "digs_val (digits x) < digs_val (digits y)"
      using assms(1,3) by (intro big_op_longer) (auto simp: big_op_def)
    then show ?thesis using 1 True assms(5) by (auto simp: rb_big_cmp_def big_val_def sgn_if)
  next
    case 2
    then have "digs_val (digits y) < digs_val (digits x)"
      using assms(1,3) by (intro big_op_longer) (auto simp: big_op_def)
    then show ?thesis using 2 True assms(5) by (auto simp: rb_big_cmp_def big_val_def sgn_if)
  next
    case 3
    then have "cmp_digits (rev (digits x)) (rev (digits y)) = sgn (digs_val (digits x) - digs_val (digits y))"
      using cmp_digits_sgn[of "rev (digits x)" "rev (digits y)"] by simp
    then show ?thesis
      using 3 True assms(5) by (auto simp: rb_big_cmp_def big_val_def sgn_if)
  qed
qed

lemma big_op_ok: "big_op b \<Longrightarrow> \<not> FIXABLE (big_val b) \<Longrightarrow> big_ok b"
proof -
  assume b: "big_op b" "\<not> FIXABLE (big_val b)"
  have "last (digits b) \<noteq> 0"
  proof
    assume "last (digits b) = 0"
    then have "digits b = [0]" using b(1) by (auto simp: big_op_def length_Suc_conv)
    then have "big_val b = 0" by (simp add: big_val_def)
    then show False using b(2) by (simp add: fixable_defs)
  qed
  then show "big_ok b" using b by (simp add: big_ok_def big_op_def)
qed

text \<open>A stored number equals an operand exactly when the representations agree.\<close>

lemma big_eq_iff:
  assumes "big_ok x" "big_op b"
  shows "sign x = sign b \<and> digits x = digits b \<longleftrightarrow> big_val x = big_val b"
proof
  assume v: "big_val x = big_val b"
  then have "big_ok b" using assms big_op_ok by (simp add: big_ok_def)
  then have "x = b" using big_ok_unique assms(1) v by blast
  then show "sign x = sign b \<and> digits x = digits b" by simp
qed (simp add: big_val_def)

lemma big2long_cases:
  assumes "big_op b"
  shows "rb_big2long b = (if - 2147483648 \<le> big_val b \<and> big_val b < 2147483648
                     then Inr (big_val b) else Inl RangeError)"
proof (cases "2 < length (digits b)")
  case True
  then show ?thesis
    using big_op_len3[OF assms] by (auto simp: rb_big2long_def big2ulong_def big_val_def)
next
  case False
  define m where "m = digs_val (digits b)"
  have m: "0 \<le> m" "m < 4294967296" using digs_val_le2 False by (simp_all add: m_def)
  have num: "big2ulong b = Inr m"
    using False by (simp add: big2ulong_def digits_to_ulong_le2 m_def)
  have s: "s32 m = (if m < 2147483648 then m else m - 4294967296)"
    using m by (simp add: s32_id s32_high)
  have "s32 (- m) = - m" if "m < 2147483648" using m that by (simp add: s32_id)
  then show ?thesis
    using m by (auto simp: rb_big2long_def num s big_val_def m_def[symmetric] s32_high)
qed

section \<open>Properties\<close>

text \<open>
  C6. \<open>bignorm\<close> returns the one canonical object for the number: a fixnum when it fits into 31
  bits, otherwise a \<open>Bignum\<close> without leading zero digits.
\<close>

theorem bignorm_canonical:
  "v = bignorm (Bignum b) \<longleftrightarrow> value_ok v \<and> int_val v = Some (big_val b)"
  using bignorm_correct[of b] bignorm_eqI[of v b] by auto

text \<open>
  \<open>rb_int2inum\<close> makes the canonical object of every \<open>long\<close>, and \<open>rb_big2long\<close> gives back the
  number of every big integer that fits into a \<open>long\<close> and raises \<open>RangeError\<close> for every other one.
\<close>

theorem long_conversions:
  assumes "- 2147483648 \<le> n" "n < 2147483648" "big_op b"
  shows "rb_int2inum n = bignorm (Bignum (rb_int2big n)) \<and> int_val (rb_int2inum n) = Some n \<and>
    rb_big2long b = (if - 2147483648 \<le> big_val b \<and> big_val b < 2147483648
                     then Inr (big_val b) else Inl RangeError)"
proof -
  note c = rb_int2big_correct[OF assms(1,2)]
  have inum: "int_val (rb_int2inum n) = Some n"
    using c by (auto simp: rb_int2inum_def LONG2FIX_id)
  have "value_ok (rb_int2inum n)"
    using c big_op_ok[of "rb_int2big n"] by (auto simp: rb_int2inum_def LONG2FIX_id)
  then have "rb_int2inum n = bignorm (Bignum (rb_int2big n))"
    using bignorm_eqI[of "rb_int2inum n" "rb_int2big n"] inum c by simp
  moreover have "rb_big2long b = (if - 2147483648 \<le> big_val b \<and> big_val b < 2147483648
                     then Inr (big_val b) else Inl RangeError)"
    by (rule big2long_cases[OF assms(3)])
  ultimately show ?thesis using inum by simp
qed

theorem long_conversions_witness:
  "int_val (rb_int2inum 2147483647) = Some 2147483647 \<and>
   rb_big2long \<lparr>sign = False, digits = [0, 32768]\<rparr> = Inr (- 2147483648)"
  using long_conversions[of 2147483647 "\<lparr>sign = False, digits = [0, 32768]\<rparr>", THEN conjunct2]
  by (simp add: big_op_def big_val_def)

text \<open>
  Comparison of a \<open>Bignum\<close> with any integer object agrees with the order of the integers,
  and leaves the integer code for every other operand.
\<close>

theorem big_cmp_correct:
  assumes "big_ok x" "value_ok y"
  shows "case int_val y of
      Some n \<Rightarrow> rb_big_cmp x y = Inr (sgn (big_val x - n)) \<and> rb_big_eq x y = Inr (big_val x = n)
    | None \<Rightarrow> rb_big_cmp x y \<in> {Inl Float_path, Inl Coerce}"
proof (cases "int_val y")
  case None
  then show ?thesis using big_operand_other[OF None] by (auto simp: rb_big_cmp_def)
next
  case (Some n)
  obtain b where b: "big_operand y = Inr b" "big_val b = n" "big_op b" "sign b \<longleftrightarrow> 0 \<le> n"
    using big_operand_correct[OF assms(2) Some] by blast
  have "rb_big_cmp x y = Inr (sgn (big_val x - n))"
    using cmp_correct[of x b y] b big_ok_op[OF assms(1)] big_ok_sign[OF assms(1)] by simp
  moreover have "sign x = sign b \<and> digits x = digits b \<longleftrightarrow> big_val x = n"
    using big_eq_iff[OF assms(1) b(3)] b by auto
  ultimately show ?thesis using Some b(1) by (simp add: rb_big_eq_def)
qed

theorem big_cmp_correct_witness:
  "rb_big_cmp \<lparr>sign = False, digits = [0, 0, 1]\<rparr> (Fixnum 5) = Inr (-1) \<and>
   rb_big_eq \<lparr>sign = False, digits = [0, 0, 1]\<rparr> (Fixnum 5) = Inr False"
  using big_cmp_correct[of "\<lparr>sign = False, digits = [0, 0, 1]\<rparr>" "Fixnum 5"]
  by (simp add: big_ok_def big_val_def fixable_defs)

end
