(* ===== verification/Bignum_Arith.thy ===== *)
theory Bignum_Arith
  imports Bignum
begin

text \<open>
  Addition, subtraction, negation, multiplication and powers of \<^verbatim>\<open>src/ruby/bignum.c\<close>. A loop over
  the digits of a number is a recursion over its digit list; the running \<open>num\<close> or \<open>n\<close> is the
  C variable of that name.
\<close>

section \<open>Subtraction of magnitudes\<close>

text \<open>The search for the operand to put first, on the digits most significant first.\<close>

fun bigsub_swap :: "bdigit list \<Rightarrow> bdigit list \<Rightarrow> bool" where
  "bigsub_swap (x # xs) (y # ys) =
     (if y < x then False else if x < y then True else bigsub_swap xs ys)"
| "bigsub_swap _ _ = False"

text \<open>\<open>while (num && i < len)\<close>, then the copy of what is left.\<close>

fun bigsub_rest :: "int \<Rightarrow> bdigit list \<Rightarrow> bdigit list" where
  "bigsub_rest num [] = []"
| "bigsub_rest num (x # xs) =
     (if num \<noteq> 0 then (let num = s32 (num + uint x) in BIGLO num # bigsub_rest (BIGDN num) xs)
      else x # xs)"

fun bigsub_loop :: "int \<Rightarrow> bdigit list \<Rightarrow> bdigit list \<Rightarrow> bdigit list" where
  "bigsub_loop num (x # xs) (y # ys) =
     (let num = s32 (num + (uint x - uint y)) in BIGLO num # bigsub_loop (BIGDN num) xs ys)"
| "bigsub_loop num xs [] = bigsub_rest num xs"
| "bigsub_loop num [] (y # ys) = []"

definition bigsub :: "rbignum \<Rightarrow> rbignum \<Rightarrow> rbignum" where
  "bigsub x y =
     (let swapped = length (digits x) < length (digits y) \<or>
            (length (digits x) = length (digits y) \<and> bigsub_swap (rev (digits x)) (rev (digits y)));
          (x, y) = (if swapped then (y, x) else (x, y))
      in \<lparr>sign = \<not> swapped, digits = bigsub_loop 0 (digits x) (digits y)\<rparr>)"

section \<open>Addition\<close>

fun bigadd_rest :: "int \<Rightarrow> bdigit list \<Rightarrow> bdigit list" where
  "bigadd_rest num [] = [BIGLO num]"
| "bigadd_rest num (y # ys) =
     (if num \<noteq> 0 then (let num = u32 (num + uint y) in BIGLO num # bigadd_rest (BIGDN num) ys)
      else (y # ys) @ [BIGLO num])"

fun bigadd_loop :: "int \<Rightarrow> bdigit list \<Rightarrow> bdigit list \<Rightarrow> bdigit list" where
  "bigadd_loop num (x # xs) (y # ys) =
     (let num = u32 (num + u32 (uint x + uint y)) in BIGLO num # bigadd_loop (BIGDN num) xs ys)"
| "bigadd_loop num [] ys = bigadd_rest num ys"
| "bigadd_loop num (x # xs) [] = []"

definition bigadd :: "rbignum \<Rightarrow> rbignum \<Rightarrow> bool \<Rightarrow> rbignum" where
  "bigadd x y sg =
     (let sg = (sg = sign y) in
      if sign x \<noteq> sg then (if sg then bigsub y x else bigsub x y)
      else
        (let (x, y) = (if length (digits y) < length (digits x) then (y, x) else (x, y))
         in \<lparr>sign = sg, digits = bigadd_loop 0 (digits x) (digits y)\<rparr>))"

definition rb_big_plus :: "rbignum \<Rightarrow> value \<Rightarrow> value outcome" where
  "rb_big_plus x y = obind (big_operand y) (\<lambda>y. return (bignorm (Bignum (bigadd x y True))))"

definition rb_big_minus :: "rbignum \<Rightarrow> value \<Rightarrow> value outcome" where
  "rb_big_minus x y = obind (big_operand y) (\<lambda>y. return (bignorm (Bignum (bigadd x y False))))"

definition rb_big_uminus :: "rbignum \<Rightarrow> value" where
  "rb_big_uminus x = bignorm (Bignum (x\<lparr>sign := \<not> sign x\<rparr>))"

definition rb_big_abs :: "rbignum \<Rightarrow> rbignum" where
  "rb_big_abs x = (if \<not> sign x then x\<lparr>sign := True\<rparr> else x)"

definition rb_big_coerce :: "rbignum \<Rightarrow> value \<Rightarrow> (rbignum \<times> rbignum) outcome" where
  "rb_big_coerce x y = (case y of Fixnum n \<Rightarrow> return (rb_int2big n, x) | _ \<Rightarrow> raise TypeError)"

section \<open>Multiplication\<close>

text \<open>
  One row: \<open>zs\<close> is the part of \<open>zds\<close> from index \<open>i\<close> on. After the last digit of \<open>y\<close> a non-zero
  carry is stored into the next digit.
\<close>

fun mul_row :: "int \<Rightarrow> int \<Rightarrow> bdigit list \<Rightarrow> bdigit list \<Rightarrow> bdigit list" where
  "mul_row n dd (y # ys) (z # zs) =
     (let ee = u32 (n + u32 (dd * uint y)); n = u32 (uint z + ee)
      in (if ee \<noteq> 0 then BIGLO n else z) # mul_row (BIGDN n) dd ys zs)"
| "mul_row n dd [] (z # zs) = (if n \<noteq> 0 then BIGLO n else z) # zs"
| "mul_row n dd _ [] = []"

fun mul_rows :: "bdigit list \<Rightarrow> bdigit list \<Rightarrow> bdigit list \<Rightarrow> bdigit list" where
  "mul_rows [] ys zs = zs"
| "mul_rows (x # xs) ys zs =
     (case (if uint x = 0 then zs else mul_row 0 (uint x) ys zs) of
        [] \<Rightarrow> []
      | z # zs' \<Rightarrow> z # mul_rows xs ys zs')"

definition big_receiver :: "value \<Rightarrow> rbignum outcome" where
  "big_receiver x =
     (case x of Fixnum n \<Rightarrow> return (rb_int2big n) | Bignum b \<Rightarrow> return b | _ \<Rightarrow> raise Undefined)"

definition rb_big_mul :: "value \<Rightarrow> value \<Rightarrow> value outcome" where
  "rb_big_mul xv yv =
     obind (big_receiver xv) (\<lambda>x. obind (big_operand yv) (\<lambda>y.
       return (bignorm (Bignum
         \<lparr>sign = (sign x = sign y),
          digits = mul_rows (digits x) (digits y)
            (replicate (length (digits x) + length (digits y) + 1) 0)\<rparr>))))"

section \<open>Powers\<close>

text \<open>\<open>while (yy % 2 == 0)\<close>: the caller has \<open>yy > 0\<close>.\<close>

fun pow_even :: "value \<Rightarrow> nat \<Rightarrow> (value \<times> nat) outcome" where
  "pow_even x yy =
     (if yy mod 2 = 0 \<and> 0 < yy then obind (rb_big_mul x x) (\<lambda>x. pow_even x (yy div 2))
      else return (x, yy))"

declare pow_even.simps [simp del]

lemma pow_even_le: "pow_even x yy = Inr (x', yy') \<Longrightarrow> yy' \<le> yy"
proof (induction x yy rule: pow_even.induct)
  case (1 x yy)
  show ?case
  proof (cases "yy mod 2 = 0 \<and> 0 < yy")
    case True
    then obtain u where "rb_big_mul x x = Inr u" "pow_even u (yy div 2) = Inr (x', yy')"
      using 1(2) pow_even.simps[of x yy] by (auto simp: obind_eq_Inr_iff)
    then have "yy' \<le> yy div 2" using 1(1)[OF True] by simp
    then show ?thesis by simp
  next
    case False
    then show ?thesis using 1(2) pow_even.simps[of x yy] by auto
  qed
qed

function pow_loop :: "value \<Rightarrow> value \<Rightarrow> nat \<Rightarrow> value outcome" where
  "pow_loop z x yy =
     (if yy \<le> 1 then return z
      else obind (pow_even x (yy - 1)) (\<lambda>p.
        obind (rb_big_mul z (fst p)) (\<lambda>z. pow_loop z (fst p) (snd p))))"
  by pat_completeness auto
termination
proof (relation "measure (\<lambda>(z, x, yy). yy)", goal_cases)
  case (2 z x yy p z')
  then show ?case using pow_even_le[of x "yy - 1" "fst p" "snd p"] by (cases p) simp
qed simp

declare pow_loop.simps [simp del]

text \<open>A power with a \<open>Float\<close>, \<open>Bignum\<close> or negative exponent continues in \<open>pow(3)\<close>.\<close>

definition rb_big_pow :: "value \<Rightarrow> value \<Rightarrow> value outcome" where
  "rb_big_pow x y =
     (case y of
        Fixnum yy \<Rightarrow>
          if yy = 0 then return (Fixnum 1)
          else if 0 < yy then obind (pow_loop x x (nat yy)) (\<lambda>z. return (bignorm z))
          else raise Float_path
      | Bignum _ \<Rightarrow> raise Float_path
      | Flo _ \<Rightarrow> raise Float_path
      | Obj _ \<Rightarrow> raise Coerce)"

section \<open>The magnitude of a difference\<close>

text \<open>
  A borrow of the subtraction loop is 0 or -1; what comes out of the loop is the difference
  modulo the power of the radix, and the difference itself when it is not negative.
\<close>

lemma BIGDN_BIGLO: "uint (BIGLO n) + 65536 * BIGDN n = n"
  by (simp add: uint_BIGLO BIGDN_def BIGRAD_def)

lemma digit_step: "uint (BIGLO n) + 65536 * r = v \<Longrightarrow> r = BIGDN n + k \<Longrightarrow> v = n + 65536 * k"
  using BIGDN_BIGLO[of n] by (simp add: algebra_simps)

lemma bigsub_rest_val:
  assumes "num = 0 \<or> num = -1" "0 \<le> num + digs_val xs"
  shows "digs_val (bigsub_rest num xs) = num + digs_val xs \<and> length (bigsub_rest num xs) = length xs"
  using assms
proof (induction num xs rule: bigsub_rest.induct)
  case (1 num)
  then show ?case by auto
next
  case (2 num x xs)
  show ?case
  proof (cases "num = 0")
    case False
    define n where "n = s32 (num + uint x)"
    have "s32 (num + uint x) = num + uint x"
      using 2(2) False uint16_bounds[of x] by (intro s32_id) arith+
    then have n: "n = uint x - 1" "-1 \<le> n" "n < 65536"
      using 2(2) False uint16_bounds[of x] unfolding n_def by arith+
    have dn: "BIGDN n = 0 \<or> BIGDN n = -1"
      using n by (cases "n = -1") (auto simp: BIGDN_def BIGRAD_def div_pos_pos_trivial)
    have "0 \<le> BIGDN n + digs_val xs"
      using 2(2,3) False BIGDN_BIGLO[of n] n uint16_bounds[of "BIGLO n"] by auto
    then have "digs_val (bigsub_rest (BIGDN n) xs) = BIGDN n + digs_val xs"
      "length (bigsub_rest (BIGDN n) xs) = length xs"
      using 2(1)[OF False n_def dn] by simp_all
    moreover have "bigsub_rest num (x # xs) = BIGLO n # bigsub_rest (BIGDN n) xs"
      using False by (simp add: n_def Let_def)
    ultimately show ?thesis using BIGDN_BIGLO[of n] n(1) False 2(2) by auto
  qed simp
qed

lemma bigsub_loop_val:
  assumes "num = 0 \<or> num = -1" "length ys \<le> length xs" "0 \<le> num + digs_val xs - digs_val ys"
  shows "digs_val (bigsub_loop num xs ys) = num + digs_val xs - digs_val ys \<and>
    length (bigsub_loop num xs ys) = length xs"
  using assms
proof (induction num xs ys rule: bigsub_loop.induct)
  case (1 num x xs y ys)
  define n where "n = s32 (num + (uint x - uint y))"
  have "s32 (num + (uint x - uint y)) = num + (uint x - uint y)"
    using 1(2) uint16_bounds[of x] uint16_bounds[of y] by (intro s32_id) arith+
  then have n: "n = num + uint x - uint y" "-65536 \<le> n" "n < 65536"
    using 1(2) uint16_bounds[of x] uint16_bounds[of y] unfolding n_def by arith+
  have dn: "BIGDN n = 0 \<or> BIGDN n = -1"
  proof (cases "0 \<le> n")
    case True
    then show ?thesis using n by (simp add: BIGDN_def BIGRAD_def div_pos_pos_trivial)
  next
    case False
    then have "n div 65536 = -1" using n by linarith
    then show ?thesis by (simp add: BIGDN_def BIGRAD_def)
  qed
  have "0 \<le> BIGDN n + digs_val xs - digs_val ys"
    using 1(4) BIGDN_BIGLO[of n] n uint16_bounds[of "BIGLO n"] by auto
  then have "digs_val (bigsub_loop (BIGDN n) xs ys) = BIGDN n + digs_val xs - digs_val ys"
    "length (bigsub_loop (BIGDN n) xs ys) = length xs"
    using 1(1)[OF n_def dn] 1(3) by simp_all
  then show ?case
    using BIGDN_BIGLO[of n] n by (simp add: n_def[symmetric] Let_def)
qed (auto simp: bigsub_rest_val)

lemma bigsub_swap_iff:
  "length xs = length ys \<Longrightarrow> bigsub_swap xs ys \<longleftrightarrow> digs_val (rev xs) < digs_val (rev ys)"
proof -
  assume l: "length xs = length ys"
  then have "bigsub_swap xs ys \<longleftrightarrow> cmp_digits xs ys < 0"
    by (induction xs ys rule: list_induct2) auto
  then show ?thesis using cmp_digits_sgn[OF l] by simp
qed

text \<open>
  The subtraction takes the longer operand for the greater one. That is right for canonical
  operands, and for the remainders of a division although these may have a leading zero.
\<close>

definition len_order :: "rbignum \<Rightarrow> rbignum \<Rightarrow> bool" where
  "len_order x y \<longleftrightarrow>
     (length (digits x) < length (digits y) \<longrightarrow> digs_val (digits x) \<le> digs_val (digits y)) \<and>
     (length (digits y) < length (digits x) \<longrightarrow> digs_val (digits y) \<le> digs_val (digits x))"

lemma big_op_len_order: "big_op x \<Longrightarrow> big_op y \<Longrightarrow> len_order x y"
  using big_op_longer[of x "digits y"] big_op_longer[of y "digits x"]
  by (auto simp: len_order_def big_op_def)

lemma bigsub_val:
  assumes "len_order x y"
  shows "big_val (bigsub x y) = digs_val (digits x) - digs_val (digits y)"
proof -
  define sw where "sw \<longleftrightarrow> length (digits x) < length (digits y) \<or>
    (length (digits x) = length (digits y) \<and> bigsub_swap (rev (digits x)) (rev (digits y)))"
  have sub: "bigsub x y = \<lparr>sign = \<not> sw,
      digits = (if sw then bigsub_loop 0 (digits y) (digits x) else bigsub_loop 0 (digits x) (digits y))\<rparr>"
    by (simp add: bigsub_def Let_def sw_def)
  show ?thesis
  proof (cases sw)
    case True
    then have "digs_val (digits x) \<le> digs_val (digits y)" "length (digits x) \<le> length (digits y)"
      using assms[unfolded len_order_def] bigsub_swap_iff[of "rev (digits x)" "rev (digits y)"]
      by (auto simp: sw_def)
    then show ?thesis using bigsub_loop_val[of 0 "digits x" "digits y"] True by (simp add: sub big_val_def)
  next
    case False
    then have "digs_val (digits y) \<le> digs_val (digits x)" "length (digits y) \<le> length (digits x)"
      using assms[unfolded len_order_def] bigsub_swap_iff[of "rev (digits x)" "rev (digits y)"]
      by (fastforce simp: sw_def)+
    then show ?thesis using bigsub_loop_val[of 0 "digits y" "digits x"] False by (simp add: sub big_val_def)
  qed
qed

section \<open>The magnitude of a sum\<close>

lemma bigadd_rest_val:
  "num = 0 \<or> num = 1 \<Longrightarrow> digs_val (bigadd_rest num ys) = num + digs_val ys"
proof (induction num ys rule: bigadd_rest.induct)
  case (1 num)
  then show ?case by (auto simp: uint_BIGLO)
next
  case (2 num y ys)
  show ?case
  proof (cases "num = 0")
    case False
    define n where "n = u32 (num + uint y)"
    have "u32 (num + uint y) = num + uint y"
      using 2(2) uint16_bounds[of y] by (intro u32_id) arith+
    then have n: "n = uint y + 1" "0 \<le> n" "n \<le> 65536"
      using 2(2) False uint16_bounds[of y] unfolding n_def by arith+
    then have "BIGDN n = 0 \<or> BIGDN n = 1"
      by (cases "n = 65536") (auto simp: BIGDN_def BIGRAD_def div_pos_pos_trivial)
    then have "digs_val (bigadd_rest (BIGDN n) ys) = BIGDN n + digs_val ys"
      using 2(1)[OF False n_def] by simp
    moreover have "bigadd_rest num (y # ys) = BIGLO n # bigadd_rest (BIGDN n) ys"
      using False by (simp add: n_def Let_def)
    ultimately show ?thesis using BIGDN_BIGLO[of n] n(1) 2(2) False by auto
  qed (simp add: digs_val_append BIGLO_def)
qed

lemma bigadd_loop_val:
  "num = 0 \<or> num = 1 \<Longrightarrow> length xs \<le> length ys \<Longrightarrow>
   digs_val (bigadd_loop num xs ys) = num + digs_val xs + digs_val ys"
proof (induction num xs ys rule: bigadd_loop.induct)
  case (1 num x xs y ys)
  define n where "n = u32 (num + u32 (uint x + uint y))"
  have "u32 (uint x + uint y) = uint x + uint y"
    using uint16_bounds[of x] uint16_bounds[of y] by (intro u32_id) arith+
  moreover have "u32 (num + (uint x + uint y)) = num + (uint x + uint y)"
    using 1(2) uint16_bounds[of x] uint16_bounds[of y] by (intro u32_id) arith+
  ultimately have n: "n = num + uint x + uint y" "0 \<le> n" "n < 131072"
    using 1(2) uint16_bounds[of x] uint16_bounds[of y] unfolding n_def by arith+
  then have "n div 65536 = 0 \<or> n div 65536 = 1" by linarith
  then have "digs_val (bigadd_loop (BIGDN n) xs ys) = BIGDN n + digs_val xs + digs_val ys"
    using 1(1)[OF n_def] 1(3) by (simp add: BIGDN_def BIGRAD_def)
  moreover have "bigadd_loop num (x # xs) (y # ys) = BIGLO n # bigadd_loop (BIGDN n) xs ys"
    by (simp add: n_def Let_def)
  ultimately show ?case using BIGDN_BIGLO[of n] n(1) by simp
qed (auto simp: bigadd_rest_val)

lemma bigadd_val:
  assumes "sign x \<noteq> (sg = sign y) \<Longrightarrow> len_order x y"
  shows "big_val (bigadd x y sg) = (if sg then big_val x + big_val y else big_val x - big_val y)"
proof (cases "sign x = (sg = sign y)")
  case True
  have "digs_val (digits (bigadd x y sg)) = digs_val (digits x) + digs_val (digits y)"
    using True bigadd_loop_val[of 0 "digits x" "digits y"] bigadd_loop_val[of 0 "digits y" "digits x"]
    by (simp add: bigadd_def Let_def)
  moreover have "sign (bigadd x y sg) = sign x"
    using True by (simp add: bigadd_def Let_def)
  ultimately show ?thesis using True by (auto simp: big_val_def)
next
  case False
  then have "len_order x y" "len_order y x" using assms by (auto simp: len_order_def)
  then show ?thesis
    using bigsub_val[of x y] bigsub_val[of y x] False
    by (auto simp: bigadd_def Let_def big_val_def[of x] big_val_def[of y])
qed

section \<open>Products\<close>

lemma mul_row_val:
  assumes "0 \<le> n" "n < 65536" "0 \<le> dd" "dd < 65536" "length ys < length zs" "zs ! length ys = 0"
  shows "digs_val (mul_row n dd ys zs) = digs_val zs + n + dd * digs_val ys \<and>
    drop (Suc (length ys)) (mul_row n dd ys zs) = drop (Suc (length ys)) zs \<and>
    length (mul_row n dd ys zs) = length zs"
  using assms
proof (induction n dd ys zs rule: mul_row.induct)
  case (1 n dd y ys z zs)
  define ee where "ee = u32 (n + u32 (dd * uint y))"
  define m where "m = u32 (uint z + ee)"
  have prod: "dd * uint y \<le> 65535 * 65535" "0 \<le> dd * uint y"
    using 1(4,5) uint16_bounds[of y] mult_mono[of dd 65535 "uint y" 65535] by auto
  have p1: "u32 (dd * uint y) = dd * uint y" using prod by (intro u32_id) linarith+
  have ee: "ee = n + dd * uint y"
    using prod 1(2,3) unfolding ee_def p1 by (intro u32_id) linarith+
  have m: "m = uint z + n + dd * uint y"
    using prod 1(2,3) uint16_bounds[of z] unfolding m_def ee by (subst u32_id) linarith+
  have mb: "0 \<le> m" "m < 4294967296"
    using prod 1(2,3) uint16_bounds[of z] unfolding m by linarith+
  then have dn: "0 \<le> BIGDN m" "BIGDN m < 65536" by (auto simp: BIGDN_def BIGRAD_def)
  have "m = uint z + ee" using m ee by simp
  then have z: "ee = 0 \<longrightarrow> z = BIGLO m" by simp
  have step: "mul_row n dd (y # ys) (z # zs) = BIGLO m # mul_row (BIGDN m) dd ys zs"
    using z by (simp add: Let_def ee_def[symmetric] m_def[symmetric])
  have ih: "digs_val (mul_row (BIGDN m) dd ys zs) = digs_val zs + BIGDN m + dd * digs_val ys \<and>
      drop (Suc (length ys)) (mul_row (BIGDN m) dd ys zs) = drop (Suc (length ys)) zs \<and>
      length (mul_row (BIGDN m) dd ys zs) = length zs"
    using 1(1)[OF ee_def m_def] dn 1(4-7) by simp
  have "uint (BIGLO m) + 65536 * (digs_val zs + BIGDN m + dd * digs_val ys) =
      m + 65536 * (digs_val zs + dd * digs_val ys)"
    using BIGDN_BIGLO[of m] by (simp add: algebra_simps)
  then show ?case unfolding step using ih by (simp add: m algebra_simps)
next
  case (2 n dd z zs)
  then show ?case by (auto simp: uint_BIGLO)
qed simp_all

lemma mul_rows_val:
  assumes "length xs + length ys < length zs" "\<And>d. d \<in> set (drop (length ys) zs) \<Longrightarrow> d = 0"
  shows "digs_val (mul_rows xs ys zs) = digs_val zs + digs_val xs * digs_val ys"
  using assms
proof (induction xs arbitrary: zs)
  case (Cons x xs)
  define zs' where "zs' = (if uint x = 0 then zs else mul_row 0 (uint x) ys zs)"
  have "zs ! length ys \<in> set (drop (length ys) zs)"
    using Cons.prems(1) by (auto simp: in_set_conv_nth intro!: exI[of _ 0])
  then have "zs ! length ys = 0" using Cons.prems(2) by blast
  then have row: "digs_val zs' = digs_val zs + uint x * digs_val ys"
    "drop (Suc (length ys)) zs' = drop (Suc (length ys)) zs" "length zs' = length zs"
    using mul_row_val[of 0 "uint x" ys zs] Cons.prems(1) uint16_bounds[of x] by (auto simp: zs'_def)
  then obtain z r where zr: "zs' = z # r" using Cons.prems(1) by (cases zs') auto
  have "d = 0" if "d \<in> set (drop (length ys) r)" for d
  proof -
    have "d \<in> set (drop (Suc (length ys)) zs)" using that row(2) zr by simp
    moreover have "set (drop (Suc (length ys)) zs) \<subseteq> set (drop (length ys) zs)"
      by (rule set_drop_subset_set_drop) simp
    ultimately show ?thesis using Cons.prems(2) by blast
  qed
  then have "digs_val (mul_rows xs ys r) = digs_val r + digs_val xs * digs_val ys"
    using Cons.IH[of r] Cons.prems(1) row(3) zr by simp
  moreover have "mul_rows (x # xs) ys zs = z # mul_rows xs ys r"
    using zr by (simp add: zs'_def[symmetric])
  ultimately show ?case using row(1) zr by (simp add: algebra_simps)
qed simp

section \<open>Powers\<close>

text \<open>
  The multiplication and the powers work on any object that stands for an integer, also on a
  \<open>Bignum\<close> a fixnum was widened to.
\<close>

fun int_obj :: "value \<Rightarrow> int \<Rightarrow> bool" where
  "int_obj (Fixnum k) n \<longleftrightarrow> FIXABLE k \<and> k = n"
| "int_obj (Bignum b) n \<longleftrightarrow> big_val b = n"
| "int_obj _ n \<longleftrightarrow> False"

lemma int_obj_ok: "value_ok x \<Longrightarrow> int_val x = Some n \<Longrightarrow> int_obj x n"
  by (cases x) simp_all

lemma int_result_obj: "int_result r n \<Longrightarrow> \<exists>v. r = Inr v \<and> int_obj v n"
  using int_obj_ok by (auto simp: int_result_def)

lemma int_obj_operand: "int_obj x n \<Longrightarrow> \<exists>a. big_operand x = Inr a \<and> big_receiver x = Inr a \<and> big_val a = n"
  using rb_int2big_correct(1) FIXABLE_long by (cases x) (auto simp: big_operand_def big_receiver_def)

lemma bignorm_obj: "int_obj v n \<Longrightarrow> int_result (Inr (bignorm v)) n"
proof (cases v)
  case (Fixnum k)
  then show "int_obj v n \<Longrightarrow> ?thesis" by (auto simp: bignorm_def int_result_def)
qed (simp_all add: int_result_bignorm)

lemma mul_correct:
  assumes "int_obj x m" "int_obj y n"
  shows "int_result (rb_big_mul x y) (m * n)"
proof -
  obtain a where a: "big_receiver x = Inr a" "big_val a = m" using int_obj_operand[OF assms(1)] by blast
  obtain b where b: "big_operand y = Inr b" "big_val b = n" using int_obj_operand[OF assms(2)] by blast
  have "digs_val (mul_rows (digits a) (digits b)
      (replicate (length (digits a) + length (digits b) + 1) 0)) =
    digs_val (digits a) * digs_val (digits b)"
    by (subst mul_rows_val) (auto simp: digs_val_replicate_0 simp del: replicate.simps)
  then have "big_val \<lparr>sign = (sign a = sign b), digits = mul_rows (digits a) (digits b)
      (replicate (length (digits a) + length (digits b) + 1) 0)\<rparr> = m * n"
    using a(2) b(2) by (auto simp: big_val_def simp del: replicate.simps split: if_splits)
  from int_result_bignorm[OF this] show ?thesis
    using a(1) b(1) by (simp add: rb_big_mul_def)
qed

lemma pow_even_correct:
  assumes "int_obj x m" "0 < yy"
  shows "\<exists>u k. pow_even x yy = Inr (u, k) \<and> (\<exists>i. int_obj u i \<and> i ^ k = m ^ yy) \<and> 0 < k"
  using assms
proof (induction x yy arbitrary: m rule: pow_even.induct)
  case (1 x yy)
  show ?case
  proof (cases "yy mod 2 = 0 \<and> 0 < yy")
    case True
    obtain u where u: "rb_big_mul x x = Inr u" "int_obj u (m * m)"
      using int_result_obj[OF mul_correct[OF 1(2) 1(2)]] by blast
    have "2 * (yy div 2) = yy" using True by auto
    then have "(m * m) ^ (yy div 2) = m ^ yy"
      by (metis power2_eq_square power_mult)
    moreover have "0 < yy div 2" using True by auto
    ultimately show ?thesis
      using 1(1)[OF True u(1) u(2)] True u(1) pow_even.simps[of x yy] by (simp add: u)
  next
    case False
    then show ?thesis using 1(2,3) pow_even.simps[of x yy] by auto
  qed
qed

lemma pow_loop_correct:
  assumes "int_obj z a" "int_obj x m" "0 < yy"
  shows "\<exists>v. pow_loop z x yy = Inr v \<and> int_obj v (a * m ^ (yy - 1))"
  using assms
proof (induction z x yy arbitrary: a m rule: pow_loop.induct)
  case (1 z x yy)
  show ?case
  proof (cases "yy \<le> 1")
    case True
    then show ?thesis using 1(2-4) by (simp add: pow_loop.simps[of z x yy])
  next
    case False
    then obtain u k i where u: "pow_even x (yy - 1) = Inr (u, k)" "int_obj u i" "i ^ k = m ^ (yy - 1)" "0 < k"
      using pow_even_correct[OF 1(3), of "yy - 1"] by auto
    obtain w where w: "rb_big_mul z u = Inr w" "int_obj w (a * i)"
      using int_result_obj[OF mul_correct[OF 1(2) u(2)]] by blast
    have "\<exists>v. pow_loop w u k = Inr v \<and> int_obj v (a * i * i ^ (k - 1))"
      using 1(1)[OF False u(1), of w "a * i" i] w u(2,4) by simp
    moreover have "a * i * i ^ (k - 1) = a * m ^ (yy - 1)"
      using u(3,4) power_minus_mult[of k i] by (simp add: mult.assoc mult.commute[of i])
    moreover have "pow_loop z x yy = pow_loop w u k"
      using False u(1) w(1) by (simp add: pow_loop.simps[of z x yy])
    ultimately show ?thesis by (simp only:)
  qed
qed

lemma pow_correct:
  assumes "int_obj x m" "0 \<le> n"
  shows "int_result (rb_big_pow x (Fixnum n)) (m ^ nat n)"
proof (cases "n = 0")
  case True
  then show ?thesis by (simp add: rb_big_pow_def int_result_def fixable_defs)
next
  case False
  then obtain v where v: "pow_loop x x (nat n) = Inr v" "int_obj v (m * m ^ (nat n - 1))"
    using pow_loop_correct[OF assms(1,1), of "nat n"] assms(2) by auto
  have "m * m ^ (nat n - 1) = m ^ nat n" using False assms(2) by (simp add: power_eq_if)
  then show ?thesis using bignorm_obj[OF v(2)] v(1) False assms(2) by (simp add: rb_big_pow_def)
qed

lemma plus_minus_correct:
  assumes "big_op x" "big_operand y = Inr b" "big_op b"
  shows "int_result (rb_big_plus x y) (big_val x + big_val b)" "int_result (rb_big_minus x y) (big_val x - big_val b)"
proof -
  have "big_val (bigadd x b True) = big_val x + big_val b" "big_val (bigadd x b False) = big_val x - big_val b"
    using bigadd_val[OF big_op_len_order[OF assms(1,3)]] by simp_all
  from this[THEN int_result_bignorm]
  show "int_result (rb_big_plus x y) (big_val x + big_val b)" "int_result (rb_big_minus x y) (big_val x - big_val b)"
    using assms(2) by (simp_all add: rb_big_plus_def rb_big_minus_def)
qed

section \<open>Properties\<close>

text \<open>
  Addition and subtraction of a \<open>Bignum\<close> and any integer object return the canonical object
  of the exact sum and difference; another operand leaves the integer code.
\<close>

theorem big_plus_minus_correct:
  assumes "big_ok x" "value_ok y"
  shows "case int_val y of
      Some n \<Rightarrow> int_result (rb_big_plus x y) (big_val x + n) \<and> int_result (rb_big_minus x y) (big_val x - n)
    | None \<Rightarrow> rb_big_plus x y \<in> {Inl Float_path, Inl Coerce}"
proof (cases "int_val y")
  case None
  then show ?thesis using big_operand_other[OF None] by (auto simp: rb_big_plus_def)
next
  case (Some n)
  obtain b where b: "big_operand y = Inr b" "big_val b = n" "big_op b"
    using big_operand_correct[OF assms(2) Some] by blast
  show ?thesis using plus_minus_correct[OF big_ok_op[OF assms(1)] b(1,3)] Some b(2) by simp
qed

theorem big_plus_minus_correct_witness:
  "int_result (rb_big_minus \<lparr>sign = True, digits = [0, 16384]\<rparr> (Fixnum 1)) 1073741823"
  using big_plus_minus_correct[of "\<lparr>sign = True, digits = [0, 16384]\<rparr>" "Fixnum 1"]
  by (simp add: big_ok_def big_val_def fixable_defs)

text \<open>
  C7. Multiplication of any two integer objects returns the canonical object of the exact
  product.
\<close>

theorem big_mul_correct:
  assumes "value_ok x" "int_val x = Some m" "value_ok y" "int_val y = Some n"
  shows "int_result (rb_big_mul x y) (m * n)"
  using mul_correct int_obj_ok assms by blast

theorem big_mul_correct_witness:
  "int_result (rb_big_mul (Fixnum (-1000000000)) (Fixnum 1000000000)) (-1000000000000000000)"
  using big_mul_correct[of "Fixnum (-1000000000)" "-1000000000" "Fixnum 1000000000" 1000000000]
  by (simp add: fixable_defs)

text \<open>
  C8. Raising an integer object to a non-negative fixnum power ends and returns the canonical
  object of the exact power.
\<close>

theorem big_pow_correct:
  assumes "value_ok x" "int_val x = Some m" "0 \<le> n"
  shows "int_result (rb_big_pow x (Fixnum n)) (m ^ nat n)"
  using pow_correct int_obj_ok assms by blast

theorem big_pow_correct_witness:
  "int_result (rb_big_pow (Bignum \<lparr>sign = False, digits = [0, 0, 1]\<rparr>) (Fixnum 3)) (- (2 ^ 96))"
  using big_pow_correct[of "Bignum \<lparr>sign = False, digits = [0, 0, 1]\<rparr>" "- (2 ^ 32)" 3]
  by (simp add: big_ok_def big_val_def fixable_defs)

end
