(* ===== verification/Bignum_Div.thy ===== *)
theory Bignum_Div
  imports Bignum_Arith
begin

unbundle bit_operations_syntax

text \<open>
  Division of \<^verbatim>\<open>src/ruby/bignum.c\<close>: \<open>bigdivrem\<close> is the schoolbook division with a normalised
  divisor and an estimated quotient digit that is corrected by adding the divisor back; \<open>bigdivmod\<close>
  turns its truncated result into a floored one. The two pointer arguments \<open>divp\<close> and \<open>modp\<close>
  become the two components of the result.
\<close>

section \<open>The loops\<close>

text \<open>A divisor of one digit, on the digits of the dividend most significant first.\<close>

fun divrem_short :: "int \<Rightarrow> int \<Rightarrow> bdigit list \<Rightarrow> bdigit list \<times> int" where
  "divrem_short dd t2 [] = ([], t2)"
| "divrem_short dd t2 (z # zs) =
     (let t2 = u32 (BIGUP t2 + uint z); (qs, r) = divrem_short dd (t2 mod dd) zs
      in (BIGLO (t2 div dd) # qs, r))"

text \<open>The count of shifts that brings a one to the top of the divisor; 15 are enough.\<close>

fun norm_shift :: "nat \<Rightarrow> bdigit \<Rightarrow> nat \<Rightarrow> nat option" where
  "norm_shift fuel q dd =
     (if q AND 32768 = 0 then
        (case fuel of 0 \<Rightarrow> None | Suc n \<Rightarrow> norm_shift n (push_bit 1 q) (dd + 1))
      else Some dd)"

fun shl_digits :: "nat \<Rightarrow> int \<Rightarrow> bdigit list \<Rightarrow> bdigit list \<times> int" where
  "shl_digits dd t2 [] = ([], t2)"
| "shl_digits dd t2 (d # ds) =
     (let t2 = u32 (t2 + u32 (push_bit dd (uint d))); (rs, c) = shl_digits dd (BIGDN t2) ds
      in (BIGLO t2 # rs, c))"

fun shr_digits :: "nat \<Rightarrow> int \<Rightarrow> bdigit list \<Rightarrow> bdigit list" where
  "shr_digits dd t2 [] = []"
| "shr_digits dd t2 (d # ds) = BIGLO (drop_bit dd (t2 OR uint d)) # shr_digits dd (BIGUP (uint d)) ds"

text \<open>
  Multiply and subtract, from digit \<open>j - ny\<close> of \<open>zds\<close> on; \<open>ee\<close> is unsigned and \<open>num\<close> signed.
\<close>

fun mulsub :: "int \<Rightarrow> int \<Rightarrow> int \<Rightarrow> bdigit list \<Rightarrow> bdigit list \<Rightarrow> bdigit list \<times> int \<times> int" where
  "mulsub q num t2 (y # ys) (z # zs) =
     (let t2 = u32 (t2 + u32 (uint y * q));
          ee = u32 (num - uint (BIGLO t2));
          num = s32 (u32 (uint z + ee));
          (zs', r) = mulsub q (BIGDN num) (BIGDN t2) ys zs
      in ((if ee \<noteq> 0 then BIGLO num else z) # zs', r))"
| "mulsub q num t2 [] zs = (zs, num, t2)"
| "mulsub q num t2 (y # ys) [] = ([], num, t2)"

fun addback :: "int \<Rightarrow> bdigit list \<Rightarrow> bdigit list \<Rightarrow> bdigit list \<times> int" where
  "addback num (y # ys) (z # zs) =
     (let ee = u32 (num + uint y);
          num = s32 (u32 (uint z + ee));
          (zs', r) = addback (BIGDN num) ys zs
      in ((if ee \<noteq> 0 then BIGLO num else z) # zs', r))"
| "addback num [] zs = (zs, num)"
| "addback num (y # ys) [] = ([], num)"

text \<open>\<open>while (num)\<close>: two rounds are enough.\<close>

fun addback_loop :: "nat \<Rightarrow> bdigit \<Rightarrow> int \<Rightarrow> bdigit list \<Rightarrow> bdigit list \<Rightarrow> (bdigit \<times> bdigit list) option" where
  "addback_loop fuel q num ys zs =
     (if num = 0 then Some (q, zs)
      else (case fuel of
          0 \<Rightarrow> None
        | Suc n \<Rightarrow> (let (zs', num') = addback 0 ys zs in addback_loop n (q - 1) (s32 (num' - 1)) ys zs')))"

declare norm_shift.simps [simp del] addback_loop.simps [simp del]

text \<open>One quotient digit: the body of the outer loop at index \<open>j\<close>.\<close>

definition div_guess :: "bdigit list \<Rightarrow> nat \<Rightarrow> bdigit list \<Rightarrow> bdigit" where
  "div_guess yds j zds =
     (if zds ! j = last yds then BIGLO (BIGRAD - 1)
      else BIGLO (u32 (BIGUP (uint (zds ! j)) + uint (zds ! (j - 1))) div uint (last yds)))"

definition div_step :: "bdigit list \<Rightarrow> nat \<Rightarrow> bdigit list \<Rightarrow> bdigit list option" where
  "div_step yds j zds =
     (let q = div_guess yds j zds; k = j - length yds in
      if q = 0 then Some (zds[j := q])
      else
        (let (ws, num, t2) = mulsub (uint q) 0 0 yds (drop k zds);
             num = s32 (u32 (num + u32 (uint (zds ! j) - t2)))
         in case addback_loop 2 q num yds ws of
              None \<Rightarrow> None
            | Some (q, ws) \<Rightarrow> Some ((take k zds @ ws)[j := q])))"

fun div_loop :: "bdigit list \<Rightarrow> nat \<Rightarrow> bdigit list \<Rightarrow> bdigit list option" where
  "div_loop yds j zds =
     (case div_step yds j zds of
        None \<Rightarrow> None
      | Some zds \<Rightarrow> if length yds < j then div_loop yds (j - 1) zds else Some zds)"

declare div_loop.simps [simp del]

section \<open>Division\<close>

text \<open>
  The quotient and the remainder of the long case: \<open>zds\<close> is what the loop left. Leading zeros of
  the remainder are dropped down to one digit before it is shifted back.
\<close>

definition div_quotient :: "nat \<Rightarrow> nat \<Rightarrow> bdigit list \<Rightarrow> bdigit list" where
  "div_quotient nx ny zds = take ((if nx = ny then nx + 2 else nx + 1) - ny) (drop ny zds)"

definition div_remainder :: "nat \<Rightarrow> nat \<Rightarrow> bdigit list \<Rightarrow> bdigit list" where
  "div_remainder dd ny zds =
     (let n = max 1 (length (strip_zeros (take ny zds))); ds = take n zds
      in if dd = 0 then ds else rev (shr_digits dd 0 (rev ds)))"

definition bigdivrem :: "rbignum \<Rightarrow> rbignum \<Rightarrow> (rbignum \<times> rbignum) outcome" where
  "bigdivrem x y =
     (let xds = digits x; nx = length xds; ny = length (digits y) in
      if BIGZEROP y then raise ZeroDivError
      else if nx < ny \<or> nx = ny \<and> last xds < last (digits y) then return (rb_int2big 0, x)
      else if ny = 1 then
        (let (zds, t2) = divrem_short (uint (hd (digits y))) 0 (rev xds) in
         return (\<lparr>sign = (sign x = sign y), digits = rev zds\<rparr>, (rb_uint2big t2)\<lparr>sign := sign x\<rparr>))
      else
        (let pad = (if nx = ny then [0] else []); yds = strip_zeros (digits y); ny = length yds in
         if yds = [] then raise Undefined
         else
           (case norm_shift 15 (last yds) 0 of
              None \<Rightarrow> raise Undefined
            | Some dd \<Rightarrow>
                (let yds = (if dd \<noteq> 0 then fst (shl_digits dd 0 yds) else yds);
                     zds = (if dd \<noteq> 0 then (let (zs, t2) = shl_digits dd 0 xds in zs @ [BIGLO t2])
                            else xds @ [0]) @ pad
                 in case div_loop yds (if nx = ny then nx + 1 else nx) zds of
                      None \<Rightarrow> raise Undefined
                    | Some zds \<Rightarrow>
                        return (\<lparr>sign = (sign x = sign y), digits = div_quotient nx ny zds\<rparr>,
                                \<lparr>sign = sign x, digits = div_remainder dd ny zds\<rparr>)))))"

definition bigdivmod :: "rbignum \<Rightarrow> rbignum \<Rightarrow> (rbignum \<times> rbignum) outcome" where
  "bigdivmod x y =
     obind (bigdivrem x y) (\<lambda>(d, m).
       if sign x \<noteq> sign y \<and> \<not> BIGZEROP m then
         return (bigadd d (rb_int2big 1) False, bigadd m y True)
       else return (d, m))"

definition rb_big_div :: "rbignum \<Rightarrow> value \<Rightarrow> value outcome" where
  "rb_big_div x y =
     obind (big_operand y) (\<lambda>y. obind (bigdivmod x y) (\<lambda>(d, m). return (bignorm (Bignum d))))"

text \<open>The other divisions send a \<open>Float\<close> to \<open>coerce\<close> too.\<close>

definition big_operand_coerce :: "value \<Rightarrow> rbignum outcome" where
  "big_operand_coerce y =
     (case y of Fixnum n \<Rightarrow> return (rb_int2big n) | Bignum b \<Rightarrow> return b | _ \<Rightarrow> raise Coerce)"

definition rb_big_modulo :: "rbignum \<Rightarrow> value \<Rightarrow> value outcome" where
  "rb_big_modulo x y =
     obind (big_operand_coerce y) (\<lambda>y. obind (bigdivmod x y) (\<lambda>(d, m). return (bignorm (Bignum m))))"

definition rb_big_remainder :: "rbignum \<Rightarrow> value \<Rightarrow> value outcome" where
  "rb_big_remainder x y =
     obind (big_operand_coerce y) (\<lambda>y. obind (bigdivrem x y) (\<lambda>(d, m). return (bignorm (Bignum m))))"

definition rb_big_divmod :: "rbignum \<Rightarrow> value \<Rightarrow> (value \<times> value) outcome" where
  "rb_big_divmod x y =
     obind (big_operand_coerce y) (\<lambda>y. obind (bigdivmod x y)
       (\<lambda>(d, m). return (bignorm (Bignum d), bignorm (Bignum m))))"

section \<open>Short division and shifts\<close>

lemma BIGUP_id: "0 \<le> t \<Longrightarrow> t < 65536 \<Longrightarrow> BIGUP t = 65536 * t"
  by (simp add: BIGUP_def BIGRAD_def u32_id)

lemma BIGLO_id: "0 \<le> t \<Longrightarrow> t < 65536 \<Longrightarrow> uint (BIGLO t) = t"
  by (simp add: uint_BIGLO)

lemma divrem_short_val:
  assumes "0 < dd" "dd < 65536" "0 \<le> t2" "t2 < dd" "divrem_short dd t2 zs = (qs, r)"
  shows "length qs = length zs \<and> 0 \<le> r \<and> r < dd \<and>
    65536 ^ length zs * t2 + digs_val (rev zs) = digs_val (rev qs) * dd + r"
  using assms(3-5)
proof (induction zs arbitrary: t2 qs)
  case (Cons z zs)
  define t where "t = u32 (BIGUP t2 + uint z)"
  obtain qs' where q: "divrem_short dd (t mod dd) zs = (qs', r)" "qs = BIGLO (t div dd) # qs'"
    using Cons.prems(3) by (auto simp: t_def[symmetric] Let_def split: prod.splits)
  have t: "t = 65536 * t2 + uint z"
    using Cons.prems(1,2) assms(2) uint16_bounds[of z] by (simp add: t_def BIGUP_id u32_id)
  have "t < 65536 * dd" using t Cons.prems(2) uint16_bounds[of z] by linarith
  then have "t div dd < 65536" using assms(1) by (simp add: zdiv_less mult.commute)
  moreover have "0 \<le> t div dd"
    using t assms(1) Cons.prems(1) by (simp add: pos_imp_zdiv_nonneg_iff)
  ultimately have lo: "uint (BIGLO (t div dd)) = t div dd" by (simp add: BIGLO_id)
  have ih: "length qs' = length zs" "0 \<le> r" "r < dd"
    "65536 ^ length zs * (t mod dd) + digs_val (rev zs) = digs_val (rev qs') * dd + r"
    using Cons.IH[OF _ _ q(1)] assms(1) by simp_all
  define a b where "a = t div dd" and "b = t mod dd"
  have ab: "65536 * t2 + uint z = a * dd + b" using t by (simp add: a_def b_def)
  have "65536 ^ length zs * (65536 * t2 + uint z) + digs_val (rev zs) =
      (digs_val (rev qs') + 65536 ^ length zs * a) * dd + r"
    using ih(4) unfolding ab b_def[symmetric] by (simp add: algebra_simps)
  then show ?case
    using ih(1-3) lo[folded a_def] q(2)[folded a_def]
    by (simp add: digs_val_append algebra_simps)
qed simp

lemma push_bit_digit:
  assumes "dd \<le> 15"
  shows "push_bit dd (uint (d::bdigit)) = uint d * 2 ^ dd" "0 \<le> uint d * 2 ^ dd" "uint d * 2 ^ dd \<le> 2147450880"
proof -
  have "(2::int) ^ dd \<le> 2 ^ 15" using assms by (intro power_increasing) auto
  then have "uint d * 2 ^ dd \<le> 65535 * 2 ^ 15"
    using uint16_bounds[of d] by (intro mult_mono) auto
  then show "uint d * 2 ^ dd \<le> 2147450880" by simp
qed (simp_all add: push_bit_eq_mult)

lemma shl_digits_val:
  assumes "dd \<le> 15" "0 \<le> t2" "t2 < 65536" "shl_digits dd t2 ds = (rs, c)"
  shows "length rs = length ds \<and> 0 \<le> c \<and> c < 65536 \<and>
    digs_val rs + 65536 ^ length ds * c = t2 + digs_val ds * 2 ^ dd"
  using assms(2-4)
proof (induction ds arbitrary: t2 rs)
  case (Cons d ds)
  define t where "t = u32 (t2 + u32 (push_bit dd (uint d)))"
  note p = push_bit_digit[OF assms(1), of d]
  have t: "t = t2 + uint d * 2 ^ dd" "t < 4294967296" "0 \<le> t"
    using Cons.prems(1,2) p by (simp_all add: t_def u32_id)
  obtain rs' where r: "shl_digits dd (BIGDN t) ds = (rs', c)" "rs = BIGLO t # rs'"
    using Cons.prems(3) by (auto simp: t_def[symmetric] Let_def split: prod.splits)
  have "0 \<le> BIGDN t" "BIGDN t < 65536" using t(2,3) by (auto simp: BIGDN_def BIGRAD_def)
  from Cons.IH[OF this r(1)] show ?case
    using BIGDN_BIGLO[of t] r(2) t(1) by (simp add: algebra_simps)
qed simp

lemma shl_digits_carry:
  assumes "dd \<le> 15" "shl_digits dd 0 ds = (rs, c)"
  shows "c < 2 ^ dd"
proof -
  have v: "digs_val rs + 65536 ^ length ds * c = digs_val ds * 2 ^ dd" "0 \<le> digs_val rs"
    using shl_digits_val[OF assms(1) _ _ assms(2)] by simp_all
  have "digs_val ds * 2 ^ dd < 65536 ^ length ds * 2 ^ dd" using digs_val_less[of ds] by simp
  then have "65536 ^ length ds * c < (65536 ^ length ds * 2 ^ dd :: int)" using v by linarith
  then show ?thesis by simp
qed

lemma BIGUP_or:
  assumes "0 \<le> t" "t < 65536"
  shows "BIGUP t OR uint (d::bdigit) = 65536 * t + uint d"
proof -
  have "push_bit 16 t AND uint d = 0"
    by (rule bit_eqI) (auto simp: bit_and_iff bit_push_bit_iff bit_uint_iff)
  then have "push_bit 16 t OR uint d = push_bit 16 t + uint d"
    by (simp add: disjunctive_add_eq_or)
  then show ?thesis using assms by (simp add: BIGUP_id push_bit_eq_mult mult.commute)
qed

lemma shift_split:
  fixes P t d v :: int
  assumes "dd \<le> 16" "0 < P" "0 \<le> v" "v < P"
  shows "(P * (65536 * t + d) + v) div 2 ^ dd mod (65536 * P) =
    P * ((65536 * t + d) div 2 ^ dd mod 65536) + (P * d + v) div 2 ^ dd mod P"
proof -
  define T where "T = P * (65536 * t + d) + v"
  have e: "(65536::int) = 2 ^ dd * 2 ^ (16 - dd)"
    using assms(1) by (simp add: power_add[symmetric])
  have hi: "T div 2 ^ dd div P = (65536 * t + d) div 2 ^ dd"
  proof -
    have "T div 2 ^ dd div P = T div P div 2 ^ dd"
      using assms(2) by (simp add: zdiv_zmult2_eq[symmetric] mult.commute)
    also have "T div P = 65536 * t + d"
      using add_mult_div_mod[OF assms(3,4), of "65536 * t + d"] by (simp add: T_def add.commute)
    finally show ?thesis .
  qed
  have "T = (P * d + v) + 2 ^ dd * (P * (2 ^ (16 - dd) * t))"
    by (simp add: T_def e algebra_simps)
  then have "T div 2 ^ dd = (P * d + v) div 2 ^ dd + P * (2 ^ (16 - dd) * t)"
    by (simp only: div_mult_self2[of "2 ^ dd"]) simp
  then have lo: "T div 2 ^ dd mod P = (P * d + v) div 2 ^ dd mod P" by simp
  have "T div 2 ^ dd mod (P * 65536) = P * (T div 2 ^ dd div P mod 65536) + T div 2 ^ dd mod P"
    using assms(2) by (intro zmod_zmult2_eq) simp
  then show ?thesis unfolding hi lo by (simp add: T_def mult.commute)
qed

lemma shr_digits_val:
  assumes "dd \<le> 15" "0 \<le> t" "t < 65536"
  shows "digs_val (rev (shr_digits dd (BIGUP t) ds)) =
      (65536 ^ length ds * t + digs_val (rev ds)) div 2 ^ dd mod 65536 ^ length ds \<and>
    length (shr_digits dd (BIGUP t) ds) = length ds"
  using assms(2,3)
proof (induction ds arbitrary: t)
  case (Cons d ds)
  have ih: "digs_val (rev (shr_digits dd (BIGUP (uint d)) ds)) =
      (65536 ^ length ds * uint d + digs_val (rev ds)) div 2 ^ dd mod 65536 ^ length ds"
    "length (shr_digits dd (BIGUP (uint d)) ds) = length ds"
    using Cons.IH[of "uint d"] uint16_bounds[of d] by simp_all
  have "digs_val (rev ds) < 65536 ^ length ds" using digs_val_less[of "rev ds"] by simp
  then show ?case
    using shift_split[of dd "65536 ^ length ds" "digs_val (rev ds)" t "uint d"] ih assms(1) Cons.prems
    by (simp add: digs_val_append uint_BIGLO BIGUP_or drop_bit_eq_div algebra_simps)
qed simp

lemma top_bit: "q AND 32768 = 0 \<longleftrightarrow> uint (q::bdigit) < 32768"
proof -
  have "q AND 2 ^ 15 = 0 \<longleftrightarrow> \<not> bit q 15" by (rule and_exp_eq_0_iff_not_bit)
  also have "bit q 15 \<longleftrightarrow> odd (uint q div 32768)"
    using bit_uint_iff[of q 15] bit_iff_odd[of "uint q" 15] by simp
  also have "\<dots> \<longleftrightarrow> \<not> uint q < 32768"
  proof (cases "uint q < 32768")
    case False
    then have "uint q div 32768 = 1" using uint16_bounds[of q] by linarith
    then show ?thesis using False by simp
  qed (simp add: div_pos_pos_trivial)
  finally show ?thesis by simp
qed

lemma norm_shift_val:
  assumes "0 < uint q" "32768 \<le> uint q * 2 ^ fuel"
  shows "\<exists>n. norm_shift fuel q dd = Some (dd + n) \<and> n \<le> fuel \<and>
    32768 \<le> uint q * 2 ^ n \<and> uint q * 2 ^ n < 65536"
  using assms
proof (induction fuel arbitrary: q dd)
  case 0
  then show ?case using uint16_bounds[of q] by (simp add: norm_shift.simps[of 0] top_bit)
next
  case (Suc fuel)
  show ?case
  proof (cases "uint q < 32768")
    case True
    have two: "uint (push_bit 1 q) = 2 * uint q"
      using True by (simp add: push_bit_eq_mult uint_mult_lem[THEN iffD1])
    then obtain n where "norm_shift fuel (push_bit 1 q) (dd + 1) = Some (dd + 1 + n)" "n \<le> fuel"
      "32768 \<le> uint (push_bit 1 q) * 2 ^ n" "uint (push_bit 1 q) * 2 ^ n < 65536"
      using Suc.IH[of "push_bit 1 q" "dd + 1"] Suc.prems by auto
    then show ?thesis
      using True two by (intro exI[of _ "Suc n"]) (simp add: norm_shift.simps[of "Suc fuel"] top_bit)
  next
    case False
    then show ?thesis
      using uint16_bounds[of q] by (simp add: norm_shift.simps[of "Suc fuel"] top_bit)
  qed
qed

section \<open>One quotient digit\<close>

lemma borrow_step:
  assumes "- 65536 \<le> n" "n < 65536"
  shows "BIGDN n = 0 \<or> BIGDN n = -1" "0 \<le> n \<longleftrightarrow> BIGDN n = 0"
proof -
  have "n div 65536 = (if 0 \<le> n then 0 else -1)" using assms by (cases "0 \<le> n") simp_all
  then show "BIGDN n = 0 \<or> BIGDN n = -1" "0 \<le> n \<longleftrightarrow> BIGDN n = 0"
    by (simp_all add: BIGDN_def BIGRAD_def)
qed

lemma mulsub_val:
  assumes "0 \<le> q" "q < 65536" "length ys = length zs"
  shows "num = 0 \<or> num = -1 \<Longrightarrow> 0 \<le> t2 \<Longrightarrow> t2 < 65536 \<Longrightarrow>
    \<exists>zs' num' t2'. mulsub q num t2 ys (zs @ rest) = (zs' @ rest, num', t2') \<and>
      length zs' = length zs \<and> (num' = 0 \<or> num' = -1) \<and> 0 \<le> t2' \<and> t2' < 65536 \<and>
      digs_val zs' + 65536 ^ length zs * (num' - t2') = digs_val zs + num - t2 - q * digs_val ys"
  using assms(3)
proof (induction ys zs arbitrary: num t2 rule: list_induct2)
  case (Cons y ys z zs)
  define t where "t = u32 (t2 + u32 (uint y * q))"
  define ee where "ee = u32 (num - uint (BIGLO t))"
  define m where "m = s32 (u32 (uint z + ee))"
  have prod: "uint y * q \<le> 65535 * 65535" "0 \<le> uint y * q"
    using assms(1,2) uint16_bounds[of y] mult_mono[of "uint y" 65535 q 65535] by auto
  have "u32 (uint y * q) = uint y * q" using prod by (intro u32_id) linarith+
  then have t: "t = t2 + uint y * q" "0 \<le> t" "t < 4294967296"
    using prod Cons.prems(2,3) unfolding t_def by (simp_all add: u32_id)
  have dn: "0 \<le> BIGDN t" "BIGDN t < 65536" using t(2,3) by (auto simp: BIGDN_def BIGRAD_def)
  have "m = s32 (uint z + (num - uint (BIGLO t)))" by (simp only: m_def ee_def s32_u32)
  also have "\<dots> = uint z + (num - uint (BIGLO t))"
    using Cons.prems(1) uint16_bounds[of z] uint16_bounds[of "BIGLO t"] by (intro s32_id) arith+
  finally have m: "m = uint z + num - uint (BIGLO t)" "- 65536 \<le> m" "m < 65536"
    using Cons.prems(1) uint16_bounds[of z] uint16_bounds[of "BIGLO t"] by arith+
  have z: "ee = 0 \<longrightarrow> z = BIGLO m"
  proof
    assume "ee = 0"
    then have "m = s32 (u32 (uint z))" by (simp add: m_def)
    also have "\<dots> = uint z" using uint16_bounds[of z] by (simp only: s32_u32) (intro s32_id; arith)
    finally show "z = BIGLO m" by simp
  qed
  obtain zs' num' t2' where ih: "mulsub q (BIGDN m) (BIGDN t) ys (zs @ rest) = (zs' @ rest, num', t2')"
    "length zs' = length zs" "num' = 0 \<or> num' = -1" "0 \<le> t2'" "t2' < 65536"
    "digs_val zs' + 65536 ^ length zs * (num' - t2') = digs_val zs + BIGDN m - BIGDN t - q * digs_val ys"
    using Cons.IH[OF borrow_step(1)[OF m(2,3)] dn] by blast
  have "mulsub q num t2 (y # ys) ((z # zs) @ rest) = (BIGLO m # zs' @ rest, num', t2')"
    using ih(1) z by (simp add: t_def[symmetric] ee_def[symmetric] m_def[symmetric] Let_def)
  moreover have "uint (BIGLO m) + 65536 * digs_val zs' + 65536 * 65536 ^ length zs * (num' - t2') =
      uint z + 65536 * digs_val zs + num - t2 - q * (uint y + 65536 * digs_val ys)"
  proof -
    have "65536 * (digs_val zs' + 65536 ^ length zs * (num' - t2')) =
        65536 * (digs_val zs + BIGDN m - BIGDN t - q * digs_val ys)" using ih(6) by simp
    moreover have mm: "uint (BIGLO m) = uint z + num - uint (BIGLO t) - 65536 * BIGDN m"
      using BIGDN_BIGLO[of m] m(1) by linarith
    moreover have "uint (BIGLO t) = t2 + uint y * q - 65536 * BIGDN t"
      using BIGDN_BIGLO[of t] t(1) by linarith
    ultimately show ?thesis by (simp add: algebra_simps)
  qed
  ultimately show ?case using ih(2-5) by (intro exI[of _ "BIGLO m # zs'"] exI[of _ num'] exI[of _ t2']) simp
qed simp

lemma addback_val:
  assumes "length ys = length zs"
  shows "num = 0 \<or> num = 1 \<Longrightarrow>
    \<exists>zs' num'. addback num ys (zs @ rest) = (zs' @ rest, num') \<and> length zs' = length zs \<and>
      (num' = 0 \<or> num' = 1) \<and> digs_val zs' + 65536 ^ length zs * num' = digs_val zs + num + digs_val ys"
  using assms
proof (induction ys zs arbitrary: num rule: list_induct2)
  case (Cons y ys z zs)
  define ee where "ee = u32 (num + uint y)"
  define m where "m = s32 (u32 (uint z + ee))"
  have ee: "ee = num + uint y"
    using Cons.prems uint16_bounds[of y] unfolding ee_def by (intro u32_id) arith+
  have "m = uint z + ee"
    using Cons.prems uint16_bounds[of y] uint16_bounds[of z] unfolding m_def s32_u32 ee
    by (intro s32_id) arith+
  then have m: "m = uint z + num + uint y" "0 \<le> m" "m < 131072" "ee = 0 \<longrightarrow> z = BIGLO m"
    using Cons.prems uint16_bounds[of y] uint16_bounds[of z] unfolding ee by (simp; arith)+
  have "m div 65536 = 0 \<or> m div 65536 = 1" using m(2,3) by linarith
  then obtain zs' num' where ih: "addback (BIGDN m) ys (zs @ rest) = (zs' @ rest, num')"
    "length zs' = length zs" "num' = 0 \<or> num' = 1"
    "digs_val zs' + 65536 ^ length zs * num' = digs_val zs + BIGDN m + digs_val ys"
    using Cons.IH[of "BIGDN m"] by (auto simp: BIGDN_def BIGRAD_def)
  have "addback num (y # ys) ((z # zs) @ rest) = (BIGLO m # zs' @ rest, num')"
    using ih(1) m(4) by (simp add: ee_def[symmetric] m_def[symmetric] Let_def)
  moreover have "uint (BIGLO m) + 65536 * digs_val zs' + 65536 * 65536 ^ length zs * num' =
      uint z + 65536 * digs_val zs + num + (uint y + 65536 * digs_val ys)"
  proof -
    have "65536 * (digs_val zs' + 65536 ^ length zs * num') =
        65536 * (digs_val zs + BIGDN m + digs_val ys)" using ih(4) by simp
    then show ?thesis using BIGDN_BIGLO[of m] m(1) by (simp add: algebra_simps)
  qed
  ultimately show ?case using ih(2,3) by (intro exI[of _ "BIGLO m # zs'"] exI[of _ num']) simp
qed simp

lemma addback_loop_val:
  assumes "length ys = length zs" "num = 0 \<or> num = -1"
    and "V = digs_val zs + 65536 ^ length zs * num" "W = uint q * digs_val ys + V"
    and "0 \<le> W" "V < digs_val ys" "- int fuel * digs_val ys \<le> V"
  shows "\<exists>q' zs'. addback_loop fuel q num ys (zs @ rest) = Some (q', zs' @ rest) \<and> length zs' = length zs \<and>
    W = uint q' * digs_val ys + digs_val zs' \<and> digs_val zs' < digs_val ys"
  using assms
proof (induction fuel arbitrary: q num zs V)
  case (Suc fuel)
  show ?case
  proof (cases "num = 0")
    case True
    then show ?thesis using Suc.prems by (simp add: addback_loop.simps[of "Suc fuel"])
  next
    case False
    then have num: "num = -1" using Suc.prems(2) by simp
    have neg: "V < 0" using Suc.prems(3) num digs_val_less[of zs] by simp
    have "0 < uint q * digs_val ys" using Suc.prems(4,5) neg by linarith
    then have "uint q \<noteq> 0" by auto
    then have "1 \<le> uint q" using uint16_bounds[of q] by linarith
    then have q: "uint (q - 1) = uint q - 1" using uint_sub_lem[of 1 q] by simp
    obtain zs' c where ab: "addback 0 ys (zs @ rest) = (zs' @ rest, c)" "length zs' = length zs"
      "c = 0 \<or> c = 1" "digs_val zs' + 65536 ^ length zs * c = digs_val zs + digs_val ys"
      using addback_val[OF Suc.prems(1), of 0 rest] by auto
    have c: "s32 (c - 1) = c - 1" using ab(3) by (intro s32_id) auto
    have "\<exists>q' zs''. addback_loop fuel (q - 1) (c - 1) ys (zs' @ rest) = Some (q', zs'' @ rest) \<and>
        length zs'' = length zs' \<and> W = uint q' * digs_val ys + digs_val zs'' \<and> digs_val zs'' < digs_val ys"
    proof (rule Suc.IH)
      show "V + digs_val ys = digs_val zs' + 65536 ^ length zs' * (c - 1)"
        using Suc.prems(3) num ab(2,4) by (simp add: algebra_simps)
      show "W = uint (q - 1) * digs_val ys + (V + digs_val ys)"
        using Suc.prems(4) by (simp add: q algebra_simps)
      show "- int fuel * digs_val ys \<le> V + digs_val ys"
        using Suc.prems(7) by (simp add: algebra_simps)
    qed (use Suc.prems(1,5) ab(2,3) neg in auto)
    then show ?thesis
      using False ab(1,2) c by (simp add: addback_loop.simps[of "Suc fuel"])
  qed
next
  case 0
  then show ?case using digs_val_less[of zs] by (auto simp: addback_loop.simps[of 0])
qed

text \<open>
  The estimate: with the top bit of the divisor set it is never too small and at most two too
  large.
\<close>

lemma guess_bounds:
  fixes P wl w1 w0 yr yt q :: int
  assumes "0 < P" "0 \<le> wl" "wl < P" "0 \<le> yr" "yr < P" "0 \<le> w1" "w1 < 65536" "0 \<le> w0"
    and "32768 \<le> yt" "yt < 65536"
    and W: "W = wl + P * (w1 + 65536 * w0)" and Y: "Y = yr + P * yt" and less: "W < 65536 * Y"
    and q: "q = (if w0 = yt then 65535 else (65536 * w0 + w1) div yt)"
  shows "0 \<le> q" "q < 65536" "W - q * Y < Y" "- 2 * Y \<le> W - q * Y" "- (65536 * P) \<le> W - q * Y"
proof -
  define T where "T = 65536 * w0 + w1"
  have "65536 * (P * w0) \<le> W" using assms(1,2,6) W by (simp add: algebra_simps)
  moreover have "65536 * Y < 65536 * (P * (yt + 1))" using Y assms(5) by (simp add: algebra_simps)
  ultimately have "P * w0 < P * (yt + 1)" using less by linarith
  then have le: "w0 \<le> yt" using assms(1) by simp
  have T: "W = wl + P * T" by (simp add: T_def W)
  have q0: "0 \<le> q" using assms(6,8,9) by (auto simp: q pos_imp_zdiv_nonneg_iff)
  have qT: "q * yt \<le> T"
  proof (cases "w0 = yt")
    case False
    then show ?thesis using assms(9) by (simp add: q T_def[symmetric] minus_mod_eq_div_mult[symmetric])
  qed (use assms(6,9) in \<open>simp add: q T_def\<close>)
  have q1: "q < 65536"
  proof (cases "w0 = yt")
    case False
    then have "T < 65536 * yt" using le assms(7) by (simp add: T_def)
    then show ?thesis using False assms(9) by (simp add: q T_def[symmetric] zdiv_less)
  qed (simp add: q)
  show "W - q * Y < Y"
  proof (cases "w0 = yt")
    case True
    then show ?thesis using less by (simp add: q)
  next
    case False
    have "yt * (T div yt) + T mod yt = T" "T mod yt < yt" using assms(9) by simp_all
    moreover have "q = T div yt" using False by (simp add: q T_def)
    ultimately have "yt * q + T mod yt = T" "T mod yt < yt" by simp_all
    then have "T < yt * q + yt" by linarith
    then have "T < (q + 1) * yt" by (simp add: algebra_simps)
    then have "P * (T + 1) \<le> P * ((q + 1) * yt)" using assms(1) by simp
    moreover have "0 \<le> (q + 1) * yr" using q0 assms(4) by simp
    moreover have "(q + 1) * Y = (q + 1) * yr + P * ((q + 1) * yt)" by (simp add: Y algebra_simps)
    ultimately have "W < (q + 1) * Y" using T assms(3) by (simp add: distrib_left)
    then show ?thesis by (simp add: algebra_simps)
  qed
  have "q * yr \<le> 65536 * P" using q0 q1 assms(4,5) by (intro mult_mono) auto
  moreover have "P * (q * yt) \<le> P * T" using qT assms(1) by simp
  moreover have "q * Y = q * yr + P * (q * yt)" by (simp add: Y algebra_simps)
  ultimately show lo: "- (65536 * P) \<le> W - q * Y" using T assms(2) by linarith
  have "P * 65536 \<le> P * (2 * yt)" using assms(1,9) by simp
  then have "65536 * P \<le> 2 * Y" using Y assms(4) by (simp add: algebra_simps)
  then show "- 2 * Y \<le> W - q * Y" using lo by linarith
  show "0 \<le> q" "q < 65536" by (rule q0, rule q1)
qed

lemma list_snoc2:
  assumes "length w = Suc (Suc n)"
  obtains wl w1 w0 where "w = wl @ [w1, w0]" "length wl = n"
proof -
  obtain v w0 where v: "w = v @ [w0]" using assms by (cases w rule: rev_cases) auto
  then obtain wl w1 where "v = wl @ [w1]" using assms by (cases v rule: rev_cases) auto
  then show ?thesis using that v assms by simp
qed

lemma div_guess_val:
  assumes "length yds = Suc n" "32768 \<le> uint (last yds)"
    and "length wl = n" "digs_val (wl @ [w1, w0]) < 65536 * digs_val yds"
    and "j = length pre + length yds" "q = uint (div_guess yds j (pre @ (wl @ [w1, w0]) @ suf))"
    and "V = digs_val (wl @ [w1, w0]) - q * digs_val yds"
  shows "V < digs_val yds" "- 2 * digs_val yds \<le> V" "- (65536 ^ Suc n) \<le> V"
proof -
  define yt where "yt = last yds"
  define yl where "yl = butlast yds"
  have y: "yds = yl @ [yt]" "length yl = n"
    using assms(1) by (auto simp: yl_def yt_def intro!: append_butlast_last_id[symmetric])
  have at: "(pre @ (wl @ [w1, w0]) @ suf) ! j = w0" "(pre @ (wl @ [w1, w0]) @ suf) ! (j - 1) = w1"
    using assms(1,3,5) by (simp_all add: nth_append)
  let ?q = "if uint w0 = uint yt then 65535 else (65536 * uint w0 + uint w1) div uint yt"
  have W: "digs_val (wl @ [w1, w0]) = digs_val wl + 65536 ^ n * (uint w1 + 65536 * uint w0)"
    using assms(3) by (simp add: digs_val_append)
  have Y: "digs_val yds = digs_val yl + 65536 ^ n * uint yt" using y by (simp add: digs_val_append)
  have P: "digs_val wl < 65536 ^ n" "digs_val yl < 65536 ^ n"
    using digs_val_less[of wl] digs_val_less[of yl] assms(3) y(2) by simp_all
  note g = guess_bounds[OF _ digs_val_nonneg P(1) digs_val_nonneg P(2) uint16_bounds[of w1]
      uint16_bounds(1)[of w0] assms(2)[folded yt_def] uint16_bounds(2)[of yt] W Y assms(4) refl]
  have "u32 (BIGUP (uint w0) + uint w1) = 65536 * uint w0 + uint w1"
    using uint16_bounds[of w0] uint16_bounds[of w1] by (simp add: BIGUP_id u32_id)
  then have "q = ?q"
    using g(1,2) unfolding assms(6) div_guess_def at yt_def[symmetric]
    by (auto simp: BIGLO_id BIGRAD_def word_uint_eq_iff)
  then show "V < digs_val yds" "- 2 * digs_val yds \<le> V" "- (65536 ^ Suc n) \<le> V"
    using g(3-5) assms(7) by simp_all
qed

lemma top_digit_range:
  fixes P v num :: int
  assumes "0 \<le> v" "v < P" "V = v + P * num" "- P \<le> V" "V < P"
  shows "num = 0 \<or> num = -1"
proof -
  have "P * num < P * 1" using assms by linarith
  then have "num < 1" using assms(1,2) by (simp only: mult_less_cancel_left_pos)
  moreover have "P * (-2) < P * num" using assms by linarith
  then have "-2 < num" using assms(1,2) by (simp only: mult_less_cancel_left_pos)
  ultimately show ?thesis by linarith
qed

lemma div_step_val:
  assumes "yds \<noteq> []" "32768 \<le> uint (last yds)" "length w = Suc (length yds)"
    and "digs_val w < 65536 * digs_val yds" "j = length pre + length yds"
  shows "\<exists>r q. div_step yds j (pre @ w @ suf) = Some (pre @ r @ q # suf) \<and> length r = length yds \<and>
    digs_val w = uint q * digs_val yds + digs_val r \<and> digs_val r < digs_val yds"
proof -
  obtain n where n: "length yds = Suc n" using assms(1) by (cases yds) auto
  obtain wl w1 w0 where w: "w = wl @ [w1, w0]" "length wl = n" using list_snoc2 assms(3) n by metis
  define wa where "wa = wl @ [w1]"
  have wa: "w = wa @ [w0]" "length wa = length yds" using w n by (simp_all add: wa_def)
  define P where "P = (65536::int) ^ length yds"
  have Wv: "digs_val w = digs_val wa + P * uint w0" using wa by (simp add: digs_val_append P_def)
  define zds where "zds = pre @ w @ suf"
  define q where "q = div_guess yds j zds"
  define V where "V = digs_val w - uint q * digs_val yds"
  have V: "V < digs_val yds" "- 2 * digs_val yds \<le> V" "- P \<le> V"
    using div_guess_val[OF n assms(2) w(2) _ assms(5), of w1 w0 "uint q" suf V] assms(4) n w(1)
    by (simp_all add: q_def zds_def V_def P_def)
  have Yp: "digs_val yds < P" using digs_val_less[of yds] by (simp add: P_def)
  have zj: "zds ! j = w0" "take (j - length yds) zds = pre" "drop (j - length yds) zds = wa @ w0 # suf"
    using wa assms(5) by (simp_all add: zds_def nth_append)
  show ?thesis
  proof (cases "q = 0")
    case True
    have "digs_val wa + P * uint w0 < P * 1" using V(1) Yp True Wv by (simp add: V_def)
    then have "P * uint w0 < P * 1" using digs_val_nonneg[of wa] by linarith
    then have "uint w0 < 1" using Yp digs_val_nonneg[of yds] by (simp only: mult_less_cancel_left_pos)
    then have "uint w0 = 0" using uint16_bounds(1)[of w0] by linarith
    then have "w0 = 0" by (simp add: word_uint_eq_iff)
    have "div_step yds j zds = Some (zds[j := 0])"
      using True by (simp add: div_step_def q_def[symmetric] Let_def)
    moreover have "zds[j := 0] = pre @ wa @ 0 # suf"
      using wa assms(5) by (simp add: zds_def list_update_append)
    ultimately show ?thesis
      using V(1) True wa Wv \<open>w0 = 0\<close> unfolding V_def zds_def[symmetric]
      by (intro exI[of _ wa] exI[of _ 0]) simp
  next
    case False
    obtain zs num t2 where ms: "mulsub (uint q) 0 0 yds (wa @ w0 # suf) = (zs @ w0 # suf, num, t2)"
      "length zs = length wa" "num = 0 \<or> num = -1" "0 \<le> t2" "t2 < 65536"
      "digs_val zs + P * (num - t2) = digs_val wa - uint q * digs_val yds"
      using mulsub_val[OF uint16_bounds[of q] wa(2)[symmetric], of 0 0 "w0 # suf"] wa(2)
      by (auto simp: P_def)
    define m where "m = num + uint w0 - t2"
    have "s32 (u32 (num + u32 (uint w0 - t2))) = s32 (num + (uint w0 - t2))" by (simp only: s32_u32)
    also have "\<dots> = m" using ms(3-5) uint16_bounds[of w0] unfolding m_def by (subst s32_id) arith+
    finally have m: "s32 (u32 (num + u32 (uint w0 - t2))) = m" .
    have Vm: "V = digs_val zs + P * m"
      using ms(6) Wv by (simp add: V_def m_def algebra_simps)
    have m01: "m = 0 \<or> m = -1"
      using top_digit_range[OF digs_val_nonneg _ Vm V(3)] V(1) Yp digs_val_less[of zs] ms(2) wa(2)
      by (simp add: P_def)
    obtain q' r where ab: "addback_loop 2 q m yds (zs @ w0 # suf) = Some (q', r @ w0 # suf)"
      "length r = length zs" "digs_val w = uint q' * digs_val yds + digs_val r" "digs_val r < digs_val yds"
    proof -
      have "length yds = length zs" "V = digs_val zs + 65536 ^ length zs * m"
        "digs_val w = uint q * digs_val yds + V" "- int 2 * digs_val yds \<le> V"
        using ms(2) wa(2) Vm V(2) by (simp_all add: P_def V_def)
      from addback_loop_val[OF this(1) m01 this(2,3) digs_val_nonneg V(1) this(4), of "w0 # suf"]
      show ?thesis using that by blast
    qed
    have "(pre @ r @ w0 # suf)[j := q'] = pre @ r @ q' # suf"
      using ab(2) ms(2) wa(2) assms(5) by (simp add: list_update_append)
    then have "div_step yds j zds = Some (pre @ r @ q' # suf)"
      using False ms(1) m ab(1) by (simp add: div_step_def q_def[symmetric] Let_def zj)
    then show ?thesis using ab ms(2) wa(2) unfolding zds_def by auto
  qed
qed

lemma div_loop_val:
  assumes "yds \<noteq> []" "32768 \<le> uint (last yds)"
  shows "length w = Suc (length yds) \<Longrightarrow> digs_val w < 65536 * digs_val yds \<Longrightarrow>
    \<exists>r qs. div_loop yds (length pre + length yds) (pre @ w @ suf) = Some (r @ qs @ suf) \<and>
      length r = length yds \<and> length qs = Suc (length pre) \<and>
      digs_val (pre @ w) = digs_val qs * digs_val yds + digs_val r \<and> digs_val r < digs_val yds"
proof (induction pre arbitrary: w suf rule: rev_induct)
  case Nil
  obtain r q where "div_step yds (length yds) (w @ suf) = Some (r @ q # suf)" "length r = length yds"
    "digs_val w = uint q * digs_val yds + digs_val r" "digs_val r < digs_val yds"
    using div_step_val[OF assms Nil, of "length yds" "[]" suf] by auto
  then show ?case
    by (intro exI[of _ r] exI[of _ "[q]"]) (simp add: div_loop.simps[of yds "length yds"])
next
  case (snoc p pre)
  obtain r q where st: "div_step yds (length (pre @ [p]) + length yds) ((pre @ [p]) @ w @ suf) =
      Some ((pre @ [p]) @ r @ q # suf)" "length r = length yds"
    "digs_val w = uint q * digs_val yds + digs_val r" "digs_val r < digs_val yds"
    using div_step_val[OF assms snoc.prems refl, of "pre @ [p]" suf] by blast
  have "digs_val (p # r) < 65536 * digs_val yds" using st(4) uint16_bounds[of p] by simp
  then obtain r' qs where ih: "div_loop yds (length pre + length yds) (pre @ (p # r) @ q # suf) = Some (r' @ qs @ q # suf)"
    "length r' = length yds" "length qs = Suc (length pre)"
    "digs_val (pre @ p # r) = digs_val qs * digs_val yds + digs_val r'" "digs_val r' < digs_val yds"
    using snoc.IH[of "p # r" "q # suf"] st(2) by auto
  have "div_loop yds (length (pre @ [p]) + length yds) ((pre @ [p]) @ w @ suf) = Some (r' @ (qs @ [q]) @ suf)"
    using st(1) ih(1) by (simp add: div_loop.simps[of yds "Suc (length pre + length yds)"])
  moreover have "digs_val ((pre @ [p]) @ w) = digs_val (qs @ [q]) * digs_val yds + digs_val r'"
    using ih(3,4) st(3) by (simp add: digs_val_append algebra_simps)
  ultimately show ?case
    using ih(2,3,5) by (intro exI[of _ r'] exI[of _ "qs @ [q]"]) simp
qed

section \<open>Quotient and remainder\<close>

lemma digs_val_last:
  assumes "ds \<noteq> []"
  shows "65536 ^ (length ds - 1) * uint (last ds) \<le> digs_val ds"
    "digs_val ds < 65536 ^ (length ds - 1) * (uint (last ds) + 1)"
proof -
  have "digs_val (butlast ds @ [last ds]) = digs_val (butlast ds) + 65536 ^ (length ds - 1) * uint (last ds)"
    by (simp add: digs_val_append)
  then have "digs_val ds = digs_val (butlast ds) + 65536 ^ (length ds - 1) * uint (last ds)"
    using assms by simp
  then show "65536 ^ (length ds - 1) * uint (last ds) \<le> digs_val ds"
    "digs_val ds < 65536 ^ (length ds - 1) * (uint (last ds) + 1)"
    using digs_val_less[of "butlast ds"] by (simp_all add: distrib_left)
qed

lemma norm_divisor:
  assumes "ds \<noteq> []" "last ds \<noteq> 0"
  obtains dd where "norm_shift 15 (last ds) 0 = Some dd" "dd \<le> 15"
    "digs_val (fst (shl_digits dd 0 ds)) = digs_val ds * 2 ^ dd" "length (fst (shl_digits dd 0 ds)) = length ds"
    "32768 \<le> uint (last (fst (shl_digits dd 0 ds)))" "dd = 0 \<Longrightarrow> 32768 \<le> uint (last ds)"
proof -
  define n where "n = length ds - 1"
  have len: "length ds = Suc n" using assms(1) by (cases ds) (simp_all add: n_def)
  have "0 < uint (last ds)" using assms(2) by (metis uint16_bounds(1) order_le_less uint_0_iff)
  moreover from this have "32768 \<le> uint (last ds) * 2 ^ 15" by simp
  ultimately obtain dd where dd: "norm_shift 15 (last ds) 0 = Some dd" "dd \<le> 15"
    "32768 \<le> uint (last ds) * 2 ^ dd" "uint (last ds) * 2 ^ dd < 65536"
    using norm_shift_val[of "last ds" 15 0] by auto
  obtain rs c where rs: "shl_digits dd 0 ds = (rs, c)" by force
  have v: "length rs = length ds" "0 \<le> c" "digs_val rs + 65536 ^ length ds * c = digs_val ds * 2 ^ dd"
    using shl_digits_val[OF dd(2) _ _ rs] by simp_all
  have e: "(65536::int) = 2 ^ (16 - dd) * 2 ^ dd" using dd(2) by (simp add: power_add[symmetric])
  with dd(4) have "uint (last ds) < 2 ^ (16 - dd)" by simp
  then have "(uint (last ds) + 1) * 2 ^ dd \<le> 2 ^ (16 - dd) * 2 ^ dd" by (intro mult_right_mono) simp_all
  then have top: "(uint (last ds) + 1) * 2 ^ dd \<le> 65536" unfolding e .
  have "digs_val ds * 2 ^ dd < 65536 ^ n * (uint (last ds) + 1) * 2 ^ dd"
    using digs_val_last(2)[OF assms(1)] by (simp add: n_def)
  also have "\<dots> \<le> 65536 ^ n * 65536" using top by (simp only: mult.assoc) simp
  finally have up: "digs_val ds * 2 ^ dd < 65536 ^ length ds" by (simp add: len mult.commute)
  have "c = 0"
  proof (rule ccontr)
    assume "c \<noteq> 0"
    then have "65536 ^ length ds * 1 \<le> 65536 ^ length ds * c" using v(2) by (intro mult_left_mono) simp_all
    then show False using v(3) up digs_val_nonneg[of rs] by linarith
  qed
  then have val: "digs_val rs = digs_val ds * 2 ^ dd" using v(3) by simp
  have "65536 ^ n * 32768 \<le> 65536 ^ n * (uint (last ds) * 2 ^ dd)" using dd(3) by simp
  also have "\<dots> \<le> digs_val rs"
    using digs_val_last(1)[OF assms(1)] mult_right_mono[of _ "digs_val ds" "2 ^ dd"]
    by (simp add: val n_def mult.assoc[symmetric])
  also have "\<dots> < 65536 ^ n * (uint (last rs) + 1)"
    using digs_val_last(2)[of rs] v(1) len by (cases rs) simp_all
  finally have "32768 \<le> uint (last rs)" by simp
  moreover have "dd = 0 \<Longrightarrow> 32768 \<le> uint (last ds)" using dd(3) by simp
  ultimately show ?thesis using that[of dd] dd val v(1) rs by simp
qed

lemma dividend_window:
  assumes "yds \<noteq> []" "32768 \<le> uint (last yds)" "length yds < length zds" "uint (last zds) < 32768"
  obtains pre w where "zds = pre @ w" "length w = Suc (length yds)" "digs_val w < 65536 * digs_val yds"
proof -
  define pre where "pre = take (length zds - Suc (length yds)) zds"
  define w where "w = drop (length zds - Suc (length yds)) zds"
  have w: "length w = Suc (length yds)" "last w = last zds" "w \<noteq> []"
    using assms(3) by (auto simp: w_def)
  have "digs_val w < 65536 ^ length yds * (uint (last zds) + 1)"
    using digs_val_last(2)[OF w(3)] w by simp
  also have "\<dots> \<le> 65536 ^ length yds * 32768" using assms(4) by simp
  also have "\<dots> = 65536 * (65536 ^ (length yds - 1) * 32768)"
    using assms(1) by (cases yds) simp_all
  also have "\<dots> \<le> 65536 * (65536 ^ (length yds - 1) * uint (last yds))" using assms(2) by simp
  also have "\<dots> \<le> 65536 * digs_val yds" using digs_val_last(1)[OF assms(1)] by simp
  finally show ?thesis using that[of pre w] w by (simp add: pre_def w_def)
qed

lemma div_remainder_val:
  assumes "dd \<le> 15" "0 < length r"
  shows "digs_val (div_remainder dd (length r) (r @ qs)) = digs_val r div 2 ^ dd"
    "0 < length (div_remainder dd (length r) (r @ qs))"
    "length (div_remainder dd (length r) (r @ qs)) \<le> length r"
    "digs_val r = 0 \<Longrightarrow> length (div_remainder dd (length r) (r @ qs)) = 1"
proof -
  define n where "n = max 1 (length (strip_zeros r))"
  obtain k where k: "r = strip_zeros r @ replicate k 0" using strip_zeros_split by blast
  have "length r = length (strip_zeros r) + k" by (subst k) simp
  then have "length (strip_zeros r) \<le> length r" by linarith
  then have n: "0 < n" "n \<le> length r" using assms(2) by (simp_all add: n_def Suc_le_eq)
  have "take n r = strip_zeros r @ take (n - length (strip_zeros r)) (replicate k 0)"
    by (subst k) (simp add: n_def)
  then have val: "digs_val (take n r) = digs_val r" by (simp add: digs_val_append)
  have len: "length (shr_digits dd 0 (rev (take n r))) = n"
    and shr: "digs_val (rev (shr_digits dd 0 (rev (take n r)))) = digs_val r div 2 ^ dd"
  proof -
    have "digs_val r < 65536 ^ n" using digs_val_less[of "take n r"] val n(2) by (simp add: min_absorb2)
    moreover have "digs_val r div 2 ^ dd \<le> digs_val r"
      by (rule zdiv_le_dividend_pow) simp
    ultimately have "digs_val r div 2 ^ dd mod 65536 ^ n = digs_val r div 2 ^ dd"
      by (intro mod_pos_pos_trivial) (simp_all add: pos_imp_zdiv_nonneg_iff)
    then show "length (shr_digits dd 0 (rev (take n r))) = n"
      "digs_val (rev (shr_digits dd 0 (rev (take n r)))) = digs_val r div 2 ^ dd"
      using shr_digits_val[OF assms(1), of 0 "rev (take n r)"] n val by (simp_all add: BIGUP_id)
  qed
  have rem: "div_remainder dd (length r) (r @ qs) =
      (if dd = 0 then take n r else rev (shr_digits dd 0 (rev (take n r))))"
    using n(2) unfolding n_def by (simp add: div_remainder_def Let_def)
  show "digs_val (div_remainder dd (length r) (r @ qs)) = digs_val r div 2 ^ dd"
    "0 < length (div_remainder dd (length r) (r @ qs))"
    "length (div_remainder dd (length r) (r @ qs)) \<le> length r"
    using n val shr len by (auto simp: rem)
  show "length (div_remainder dd (length r) (r @ qs)) = 1" if z: "digs_val r = 0"
  proof -
    have "strip_zeros r = []"
      using digs_val_pos[of "strip_zeros r"] strip_zeros_last[of r] z by (cases "strip_zeros r = []") auto
    then show ?thesis using len n(2) by (simp add: rem n_def)
  qed
qed

text \<open>What \<open>bigdivrem\<close> promises of the magnitudes, and of the forms the callers rely on.\<close>

definition divrem_spec :: "rbignum \<Rightarrow> rbignum \<Rightarrow> rbignum \<Rightarrow> rbignum \<Rightarrow> bool" where
  "divrem_spec x y d m \<longleftrightarrow>
     digs_val (digits d) = digs_val (digits x) div digs_val (digits y) \<and>
     digs_val (digits m) = digs_val (digits x) mod digs_val (digits y) \<and>
     sign m = sign x \<and> (sign d = (sign x = sign y) \<or> d = rb_int2big 0) \<and>
     len_order m y \<and> (BIGZEROP m \<longleftrightarrow> digs_val (digits m) = 0)"

lemma BIGZEROP_op:
  assumes "big_op y"
  shows "BIGZEROP y \<longleftrightarrow> digs_val (digits y) = 0"
proof
  assume "digs_val (digits y) = 0"
  note y = assms this
  then have "last (digits y) = 0" using digs_val_pos[of "digits y"] by (auto simp: big_op_def)
  then show "BIGZEROP y" using y(1) by (auto simp: big_op_def BIGZEROP_def length_Suc_conv)
qed (auto simp: BIGZEROP_def length_Suc_conv)

lemma divrem_spec_small:
  assumes "big_op x" "big_op y" "digs_val (digits x) < digs_val (digits y)"
  shows "divrem_spec x y (rb_int2big 0) x"
  using assms big_op_len_order[OF assms(1,2)] BIGZEROP_op[OF assms(1)]
  by (simp add: divrem_spec_def rb_int2big_def rb_uint2big_def Let_def BIGLO_def BIGDN_def)

lemma divrem_spec_long:
  assumes "big_op y" "last (digits y) \<noteq> 0" "2 \<le> length (digits y)"
    and "dd \<le> 15" "length r = length (digits y)" "digs_val r < digs_val (digits y) * 2 ^ dd"
    and "digs_val (digits x) * 2 ^ dd = digs_val qs * (digs_val (digits y) * 2 ^ dd) + digs_val r"
  shows "divrem_spec x y \<lparr>sign = (sign x = sign y), digits = qs\<rparr>
    \<lparr>sign = sign x, digits = div_remainder dd (length r) (r @ qs)\<rparr>"
proof -
  define R where "R = digs_val r div 2 ^ dd"
  let ?m = "div_remainder dd (length r) (r @ qs)"
  have len0: "0 < length r" using assms(3,5) by linarith
  note rv = div_remainder_val[OF assms(4) len0, of qs]
  have "digs_val r = (digs_val (digits x) - digs_val qs * digs_val (digits y)) * 2 ^ dd"
    using assms(7) by (simp add: algebra_simps)
  then have r: "digs_val r = R * 2 ^ dd" "R = digs_val (digits x) - digs_val qs * digs_val (digits y)"
    by (simp_all add: R_def)
  then have R: "0 \<le> R" "R < digs_val (digits y)"
    using assms(6) digs_val_nonneg[of r] by (simp_all add: zero_le_mult_iff)
  then have dm: "digs_val (digits x) div digs_val (digits y) = digs_val qs"
    "digs_val (digits x) mod digs_val (digits y) = R"
    using add_mult_div_mod[OF R, of "digs_val qs"] r(2) by (simp_all add: algebra_simps)
  have "len_order \<lparr>sign = sign x, digits = ?m\<rparr> y"
    using rv(2,3) assms(5) big_op_longer[OF assms(1), of ?m] by (auto simp: len_order_def)
  moreover have "BIGZEROP \<lparr>sign = sign x, digits = ?m\<rparr> \<longleftrightarrow> digs_val ?m = 0"
  proof
    assume "digs_val ?m = 0"
    then have "R = 0" using rv(1)[folded R_def] by simp
    then have "digs_val r = 0" using r(1) by simp
    then have "length ?m = 1" by (rule rv(4))
    then obtain a where a: "?m = [a]" by (auto simp: length_Suc_conv)
    then show "BIGZEROP \<lparr>sign = sign x, digits = ?m\<rparr>"
      using \<open>digs_val ?m = 0\<close> by (simp add: BIGZEROP_def word_uint_eq_iff)
  qed (auto simp: BIGZEROP_def length_Suc_conv)
  ultimately show ?thesis using rv(1)[folded R_def] dm by (simp add: divrem_spec_def)
qed

lemma divrem_spec_short:
  assumes "digits y = [b]" "b \<noteq> 0" "divrem_short (uint b) 0 (rev (digits x)) = (zds, t2)"
  shows "divrem_spec x y \<lparr>sign = (sign x = sign y), digits = rev zds\<rparr> ((rb_uint2big t2)\<lparr>sign := sign x\<rparr>)"
proof -
  have b: "0 < uint b" using assms(2) by (metis uint16_bounds(1) order_le_less uint_0_iff)
  have v: "0 \<le> t2" "t2 < uint b" "digs_val (digits x) = digs_val (rev zds) * uint b + t2"
    using divrem_short_val[OF b uint16_bounds(2) _ b assms(3)] by simp_all
  then have t: "0 \<le> t2" "t2 < 4294967296" using uint16_bounds(2)[of b] by linarith+
  note m = rb_uint2big_correct[OF t]
  have op: "big_op ((rb_uint2big t2)\<lparr>sign := sign x\<rparr>)" "big_op y"
    using m(2) assms(1) by (simp_all add: big_op_def)
  have "digs_val (digits x) div uint b = digs_val (rev zds)" "digs_val (digits x) mod uint b = t2"
    using add_mult_div_mod[OF v(1,2), of "digs_val (rev zds)"] v(3) by (simp_all add: algebra_simps)
  then show ?thesis
    using m(4) assms(1) big_op_len_order[OF op] BIGZEROP_op[OF op(1)] by (simp add: divrem_spec_def)
qed

lemma dividend_val:
  assumes "dd \<le> 15"
    and "zds = (if dd \<noteq> 0 then (let (zs, t2) = shl_digits dd 0 xds in zs @ [BIGLO t2]) else xds @ [0]) @ pad"
    and "pad = [] \<or> pad = [0]"
  shows "digs_val zds = digs_val xds * 2 ^ dd" "length zds = length xds + 1 + length pad"
    "uint (last zds) < 32768"
proof -
  obtain zs c where s: "shl_digits dd 0 xds = (zs, c)" by force
  have v: "length zs = length xds" "0 \<le> c" "c < 65536"
    "digs_val zs + 65536 ^ length xds * c = digs_val xds * 2 ^ dd"
    using shl_digits_val[OF assms(1) _ _ s] by simp_all
  have "(2::int) ^ dd \<le> 2 ^ 15" using assms(1) by (intro power_increasing) simp_all
  then have "c < 32768" using shl_digits_carry[OF assms(1) s] by simp
  then show "digs_val zds = digs_val xds * 2 ^ dd" "length zds = length xds + 1 + length pad"
    "uint (last zds) < 32768"
    using v s assms(2,3) by (auto simp: digs_val_append BIGLO_id split: if_splits)
qed

lemma bigdivrem_correct:
  assumes "big_op x" "big_op y" "\<not> BIGZEROP y"
  shows "\<exists>d m. bigdivrem x y = Inr (d, m) \<and> divrem_spec x y d m"
proof -
  let ?nx = "length (digits x)" and ?ny = "length (digits y)"
  have ne: "digits x \<noteq> []" "digits y \<noteq> []" using assms by (auto simp: big_op_def)
  have top: "last (digits y) \<noteq> 0"
    using assms(2,3) by (auto simp: big_op_def BIGZEROP_def length_Suc_conv)
  have "0 < ?ny" using ne(2) by simp
  then have "?ny = 1 \<or> 2 \<le> ?ny" by linarith
  then consider (small) "?nx < ?ny \<or> ?nx = ?ny \<and> last (digits x) < last (digits y)"
    | (short) "\<not> (?nx < ?ny \<or> ?nx = ?ny \<and> last (digits x) < last (digits y))" "?ny = 1"
    | (long) "\<not> (?nx < ?ny \<or> ?nx = ?ny \<and> last (digits x) < last (digits y))" "2 \<le> ?ny"
    by blast
  then show ?thesis
  proof cases
    case small
    then have "digs_val (digits x) < digs_val (digits y)"
    proof
      assume "?nx = ?ny \<and> last (digits x) < last (digits y)"
      then have "uint (last (digits x)) + 1 \<le> uint (last (digits y))" and len: "?nx = ?ny"
        by (simp_all add: word_less_def)
      then have "(65536::int) ^ (?ny - 1) * (uint (last (digits x)) + 1) \<le>
          65536 ^ (?ny - 1) * uint (last (digits y))"
        by (intro mult_left_mono) simp_all
      then show ?thesis
        using digs_val_last(2)[OF ne(1), unfolded len] digs_val_last(1)[OF ne(2)] by linarith
    qed (use big_op_longer[OF assms(2) ne(1)] in simp)
    moreover have "bigdivrem x y = Inr (rb_int2big 0, x)"
      unfolding bigdivrem_def Let_def if_not_P[OF assms(3)] if_P[OF small] ..
    ultimately show ?thesis using assms divrem_spec_small by blast
  next
    case short
    obtain b where b: "digits y = [b]" using short(2) by (auto simp: length_Suc_conv)
    obtain zds t2 where z: "divrem_short (uint b) 0 (rev (digits x)) = (zds, t2)" by force
    have "bigdivrem x y = Inr (\<lparr>sign = (sign x = sign y), digits = rev zds\<rparr>, (rb_uint2big t2)\<lparr>sign := sign x\<rparr>)"
      unfolding bigdivrem_def Let_def if_not_P[OF assms(3)] if_not_P[OF short(1)] if_P[OF short(2)]
      using b z by simp
    then show ?thesis using divrem_spec_short[OF b _ z] top b by simp
  next
    case long
    obtain dd where dd: "norm_shift 15 (last (digits y)) 0 = Some dd" "dd \<le> 15"
      "digs_val (fst (shl_digits dd 0 (digits y))) = digs_val (digits y) * 2 ^ dd"
      "length (fst (shl_digits dd 0 (digits y))) = ?ny"
      "32768 \<le> uint (last (fst (shl_digits dd 0 (digits y))))" "dd = 0 \<Longrightarrow> 32768 \<le> uint (last (digits y))"
      using norm_divisor[OF ne(2) top] by blast
    define yds where "yds = (if dd \<noteq> 0 then fst (shl_digits dd 0 (digits y)) else digits y)"
    define pad where "pad = (if ?nx = ?ny then [0] else [] :: bdigit list)"
    define zds where "zds = (if dd \<noteq> 0 then (let (zs, t2) = shl_digits dd 0 (digits x) in zs @ [BIGLO t2])
      else digits x @ [0]) @ pad"
    have y: "digs_val yds = digs_val (digits y) * 2 ^ dd" "length yds = ?ny" "32768 \<le> uint (last yds)" "yds \<noteq> []"
      using dd ne(2) by (auto simp: yds_def)
    have z: "digs_val zds = digs_val (digits x) * 2 ^ dd" "length zds = ?nx + 1 + length pad" "uint (last zds) < 32768"
      using dividend_val[OF dd(2) zds_def] by (simp_all add: pad_def)
    obtain pre w where w: "zds = pre @ w" "length w = Suc (length yds)" "digs_val w < 65536 * digs_val yds"
      using dividend_window[OF y(4,3) _ z(3)] z(2) y(2) long(1) by force
    obtain r qs where lp: "div_loop yds (length pre + length yds) zds = Some (r @ qs)" "length r = ?ny"
      "length qs = Suc (length pre)" "digs_val zds = digs_val qs * digs_val yds + digs_val r"
      "digs_val r < digs_val yds"
      using div_loop_val[OF y(4,3) w(2,3), of pre "[]"] y(2) w(1) by auto
    have j: "(if ?nx = ?ny then ?nx + 1 else ?nx) = length pre + length yds"
      using z(2) w(1,2) y(2) by (auto simp: pad_def)
    have ny1: "?ny \<noteq> 1" using long(2) by simp
    have "div_quotient ?nx ?ny (r @ qs) = qs"
      using j lp(2,3) y(2) by (auto simp: div_quotient_def split: if_splits)
    then have "bigdivrem x y = Inr (\<lparr>sign = (sign x = sign y), digits = qs\<rparr>,
        \<lparr>sign = sign x, digits = div_remainder dd (length r) (r @ qs)\<rparr>)"
      unfolding bigdivrem_def Let_def strip_zeros_id[OF top] if_not_P[OF assms(3)] if_not_P[OF long(1)]
        if_not_P[OF ny1] if_not_P[OF ne(2)] dd(1) option.case pad_def[symmetric] yds_def[symmetric]
        zds_def[unfolded Let_def, symmetric] j lp(1) by (simp add: lp(2))
    then show ?thesis
      using divrem_spec_long[OF assms(2) top long(2) dd(2) lp(2), of x qs] lp(4,5) y(1) z(1) by simp
  qed
qed

section \<open>Floored division\<close>

lemma floor_signs:
  fixes a b :: int
  assumes "0 \<le> a" "0 < b"
  shows "- a div b = (if a mod b = 0 then - (a div b) else - (a div b) - 1)"
    "- a mod b = (if a mod b = 0 then 0 else b - a mod b)"
    "a div - b = (if a mod b = 0 then - (a div b) else - (a div b) - 1)"
    "a mod - b = (if a mod b = 0 then 0 else a mod b - b)"
  using assms by (simp_all add: zdiv_zminus1_eq_if zdiv_zminus2_eq_if zmod_zminus1_eq_if zmod_zminus2_eq_if)

lemma rb_int2big_1: "rb_int2big 1 = \<lparr>sign = True, digits = [1]\<rparr>" "rb_int2big 0 = \<lparr>sign = True, digits = [0]\<rparr>"
  by (simp_all add: rb_int2big_def rb_uint2big_def Let_def u32_def BIGLO_def BIGDN_def BIGRAD_def)

lemma bigdivmod_correct:
  assumes "big_op x" "big_op y" "big_val y \<noteq> 0"
  shows "\<exists>d m. bigdivmod x y = Inr (d, m) \<and> big_val d = big_val x div big_val y \<and> big_val m = big_val x mod big_val y"
proof -
  let ?a = "digs_val (digits x)" and ?b = "digs_val (digits y)"
  have "?b \<noteq> 0" using assms(3) by (cases "sign y") (simp_all add: big_val_def)
  then have b: "0 < ?b" using digs_val_nonneg[of "digits y"] by linarith
  then have "\<not> BIGZEROP y" using BIGZEROP_op[OF assms(2)] by simp
  then obtain d m where dr: "bigdivrem x y = Inr (d, m)" and s: "divrem_spec x y d m"
    using bigdivrem_correct[OF assms(1,2)] by blast
  note fl = floor_signs[OF digs_val_nonneg[of "digits x"] b]
  define q r where "q = ?a div ?b" and "r = ?a mod ?b"
  have d: "big_val d = (if sign x = sign y then q else - q)"
    using s by (auto simp: divrem_spec_def big_val_def rb_int2big_1 q_def)
  have m: "big_val m = (if sign x then r else - r)" "BIGZEROP m \<longleftrightarrow> r = 0"
    using s by (simp_all add: divrem_spec_def big_val_def r_def)
  have v: "big_val x div big_val y = (if sign x = sign y then q else if r = 0 then - q else - q - 1)"
    "big_val x mod big_val y = (if sign x = sign y then (if sign x then r else - r) else if r = 0 then 0
      else if sign x then r - ?b else ?b - r)"
    using fl unfolding q_def[symmetric] r_def[symmetric] by (auto simp: big_val_def q_def r_def)
  have y: "big_val y = (if sign y then ?b else - ?b)" by (simp add: big_val_def)
  show ?thesis
  proof (cases "sign x \<noteq> sign y \<and> \<not> BIGZEROP m")
    case True
    have "big_val (bigadd d (rb_int2big 1) False) = big_val d - 1"
    proof (subst bigadd_val)
      assume "sign d \<noteq> (False = sign (rb_int2big 1))"
      then have "d = rb_int2big 0" using s True by (auto simp: divrem_spec_def rb_int2big_1)
      then show "len_order d (rb_int2big 1)" by (simp add: rb_int2big_1 len_order_def)
    qed (simp add: rb_int2big_1 big_val_def)
    moreover have "big_val (bigadd m y True) = big_val m + big_val y"
      using s bigadd_val[of m True y] by (simp add: divrem_spec_def)
    moreover have "bigdivmod x y = Inr (bigadd d (rb_int2big 1) False, bigadd m y True)"
      using True dr by (simp add: bigdivmod_def)
    ultimately show ?thesis unfolding v using True by (auto simp: d m y)
  next
    case False
    then have "bigdivmod x y = Inr (d, m)" using dr by (auto simp: bigdivmod_def)
    then show ?thesis unfolding v using False by (auto simp: d m)
  qed
qed

lemma bigdivrem_zero: "BIGZEROP y \<Longrightarrow> bigdivrem x y = Inl ZeroDivError"
  by (simp add: bigdivrem_def Let_def)

lemma big_operand_coerce_eq: "big_operand y = Inr b \<longleftrightarrow> big_operand_coerce y = Inr b"
  by (cases y) (simp_all add: big_operand_def big_operand_coerce_def)

lemma big_val_0_iff: "big_op y \<Longrightarrow> BIGZEROP y \<longleftrightarrow> big_val y = 0"
  using BIGZEROP_op[of y] by (simp add: big_val_def)

text \<open>C's truncated quotient and remainder, and Isabelle's floored ones, of the magnitudes.\<close>

lemma bigdivrem_trunc:
  assumes "big_op x" "big_op y" "big_val y \<noteq> 0"
  shows "\<exists>d m. bigdivrem x y = Inr (d, m) \<and> big_val m = c_rem (big_val x) (big_val y)"
proof -
  have "\<not> BIGZEROP y" using assms big_val_0_iff by simp
  then obtain d m where r: "bigdivrem x y = Inr (d, m)" and s: "divrem_spec x y d m"
    using bigdivrem_correct[OF assms(1,2)] by blast
  define a b where "a = digs_val (digits x)" and "b = digs_val (digits y)"
  have ab: "0 \<le> a" "0 \<le> b" "b \<noteq> 0" using assms(3) by (cases "sign y"; simp add: a_def b_def big_val_def)+
  have "big_val x = (if sign x then a else - a)" "big_val y = (if sign y then b else - b)"
    by (simp_all add: big_val_def a_def b_def)
  moreover have "big_val m = (if sign x then a mod b else - (a mod b))"
    using s by (simp add: divrem_spec_def big_val_def a_def b_def)
  ultimately show ?thesis
    using r ab by (cases "a = 0") (auto simp: c_rem_def c_quot_def minus_mult_div_eq_mod[symmetric])
qed

section \<open>Properties\<close>

text \<open>
  C9. Division of a \<open>Bignum\<close> by any non-zero integer object ends and returns the canonical objects
  of the floored quotient and modulus, and division by zero raises \<open>ZeroDivisionError\<close>: the
  estimated quotient digits, the two rounds of adding back and the final shift are exact.
\<close>

theorem big_divmod_correct:
  assumes "big_ok x" "value_ok y" "int_val y = Some n"
  shows "if n = 0 then rb_big_divmod x y = Inl ZeroDivError
    else \<exists>d m. rb_big_divmod x y = Inr (d, m) \<and>
      int_result (Inr d) (big_val x div n) \<and> int_result (Inr m) (big_val x mod n)"
proof -
  obtain b where b: "big_operand y = Inr b" "big_val b = n" "big_op b"
    using big_operand_correct[OF assms(2,3)] by blast
  note bc = b(1)[unfolded big_operand_coerce_eq]
  show ?thesis
  proof (cases "n = 0")
    case True
    then show ?thesis
      using bc bigdivrem_zero[of b x] big_val_0_iff[OF b(3)] b(2) by (simp add: rb_big_divmod_def bigdivmod_def)
  next
    case False
    then obtain d m where dm: "bigdivmod x b = Inr (d, m)" "big_val d = big_val x div n" "big_val m = big_val x mod n"
      using bigdivmod_correct[OF big_ok_op[OF assms(1)] b(3)] b(2) by auto
    show ?thesis
      using False dm(1) bc int_result_bignorm[OF dm(2)] int_result_bignorm[OF dm(3)] by (simp add: rb_big_divmod_def)
  qed
qed

theorem big_divmod_correct_witness:
  "\<exists>d m. rb_big_divmod \<lparr>sign = False, digits = [0, 0, 1]\<rparr> (Fixnum 7) = Inr (d, m) \<and>
     int_result (Inr d) (- 613566757) \<and> int_result (Inr m) 3"
  using big_divmod_correct[of "\<lparr>sign = False, digits = [0, 0, 1]\<rparr>" "Fixnum 7" 7]
  by (simp add: big_ok_def big_val_def fixable_defs)

text \<open>
  \<open>/\<close>, \<open>%\<close> and \<open>remainder\<close> are the quotient and modulus of the floored division and the
  remainder of the truncated one.
\<close>

theorem big_div_modulo_remainder_correct:
  assumes "big_ok x" "value_ok y" "int_val y = Some n" "n \<noteq> 0"
  shows "int_result (rb_big_div x y) (big_val x div n) \<and> int_result (rb_big_modulo x y) (big_val x mod n) \<and>
    int_result (rb_big_remainder x y) (c_rem (big_val x) n)"
proof -
  obtain b where b: "big_operand y = Inr b" "big_val b = n" "big_op b"
    using big_operand_correct[OF assms(2,3)] by blast
  note bc = b(1)[unfolded big_operand_coerce_eq]
  obtain d m where dm: "bigdivmod x b = Inr (d, m)" "big_val d = big_val x div n" "big_val m = big_val x mod n"
    using bigdivmod_correct[OF big_ok_op[OF assms(1)] b(3)] b(2) assms(4) by auto
  obtain e r where r: "bigdivrem x b = Inr (e, r)" "big_val r = c_rem (big_val x) n"
    using bigdivrem_trunc[OF big_ok_op[OF assms(1)] b(3)] b(2) assms(4) by auto
  show ?thesis
    using b(1) bc dm(1) r(1) int_result_bignorm[OF dm(2)] int_result_bignorm[OF dm(3)] int_result_bignorm[OF r(2)]
    by (simp add: rb_big_div_def rb_big_modulo_def rb_big_remainder_def)
qed

theorem big_div_modulo_remainder_correct_witness:
  "int_result (rb_big_remainder \<lparr>sign = False, digits = [1, 0, 1]\<rparr> (Bignum \<lparr>sign = True, digits = [0, 16384]\<rparr>)) (- 1)"
  using big_div_modulo_remainder_correct[of "\<lparr>sign = False, digits = [1, 0, 1]\<rparr>"
      "Bignum \<lparr>sign = True, digits = [0, 16384]\<rparr>" 1073741824]
  by (simp add: big_ok_def big_val_def fixable_defs c_rem_def c_quot_def)

end
