(* ===== verification/Bignum_Bits.thy ===== *)
theory Bignum_Bits
  imports Bignum_Div
begin

unbundle bit_operations_syntax

text \<open>
  Bit operations of \<^verbatim>\<open>src/ruby/bignum.c\<close>: a negative operand is brought to two's complement
  digits, the digits are combined, and a negative result is brought back to sign and magnitude.
\<close>

section \<open>Two's complement\<close>

text \<open>The carry loop of \<open>get2comp\<close>, on the complemented digits.\<close>

fun carry_loop :: "int \<Rightarrow> bdigit list \<Rightarrow> bdigit list" where
  "carry_loop num [] = []"
| "carry_loop num (d # ds) = (let num = u32 (num + uint d) in BIGLO num # carry_loop (BIGDN num) ds)"

text \<open>
  The loop is a \<open>do\<close>-\<open>while\<close>: it reads the first digit of a number without digits. With \<open>carry\<close> a
  digit of ones is appended when the top bit of the complement is clear; the flag tells the
  caller that the digits were reallocated.
\<close>

definition get2comp :: "rbignum \<Rightarrow> bool \<Rightarrow> (rbignum \<times> bool) outcome" where
  "get2comp x carry =
     (if digits x = [] then raise Undefined
      else
        (let ds = carry_loop 1 (map (\<lambda>d. NOT d) (digits x)) in
         if carry \<and> last ds AND 32768 = 0 then return (x\<lparr>digits := ds @ [NOT 0]\<rparr>, True)
         else return (x\<lparr>digits := ds\<rparr>, False)))"

definition rb_big_2comp :: "rbignum \<Rightarrow> rbignum outcome" where
  "rb_big_2comp x = obind (get2comp x True) (\<lambda>(x, _). return x)"

text \<open>
  \<open>~x\<close>: the digit pointer is taken before \<open>get2comp\<close>, so after a reallocation the loop writes
  through a stale pointer.
\<close>

definition rb_big_neg :: "rbignum \<Rightarrow> value outcome" where
  "rb_big_neg x =
     obind (if \<not> sign x then get2comp x True else return (x, False)) (\<lambda>(z, moved).
       if moved then raise Undefined
       else
         (let z = z\<lparr>digits := map (\<lambda>d. NOT d) (digits z)\<rparr> in
          obind (if sign x then get2comp z False else return (z, False)) (\<lambda>(z, _).
            return (bignorm (Bignum (z\<lparr>sign := \<not> sign z\<rparr>))))))"

section \<open>And, or, exclusive or\<close>

text \<open>
  The two loops every operation has: \<open>f\<close> on the digits both operands have, then \<open>g\<close> on the
  other digits of the longer one.
\<close>

fun bit_digits :: "(bdigit \<Rightarrow> bdigit \<Rightarrow> bdigit) \<Rightarrow> (bdigit \<Rightarrow> bdigit) \<Rightarrow> bdigit list \<Rightarrow> bdigit list \<Rightarrow> bdigit list" where
  "bit_digits f g (x # xs) (y # ys) = f x y # bit_digits f g xs ys"
| "bit_digits f g [] ys = map g ys"
| "bit_digits f g (x # xs) [] = []"

definition bit_operand :: "rbignum \<Rightarrow> rbignum outcome" where
  "bit_operand x = (if \<not> sign x then rb_big_2comp x else return x)"

definition bit_result :: "rbignum \<Rightarrow> value outcome" where
  "bit_result z =
     obind (if \<not> sign z then get2comp z False else return (z, False))
       (\<lambda>(z, _). return (bignorm (Bignum z)))"

definition bit_order :: "rbignum \<Rightarrow> rbignum \<Rightarrow> bdigit list \<times> bdigit list \<times> bool" where
  "bit_order x y =
     (if length (digits y) < length (digits x) then (digits y, digits x, sign y)
      else (digits x, digits y, sign x))"

definition rb_big_and :: "rbignum \<Rightarrow> value \<Rightarrow> value outcome" where
  "rb_big_and xx yy =
     obind (big_operand yy) (\<lambda>y. obind (bit_operand y) (\<lambda>y. obind (bit_operand xx) (\<lambda>x.
       let (ds1, ds2, sg) = bit_order x y in
       bit_result \<lparr>sign = (sign x \<or> sign y),
         digits = bit_digits (\<lambda>a b. a AND b) (\<lambda>d. if sg then 0 else d) ds1 ds2\<rparr>)))"

definition rb_big_or :: "rbignum \<Rightarrow> value \<Rightarrow> value outcome" where
  "rb_big_or xx yy =
     obind (big_operand yy) (\<lambda>y. obind (bit_operand y) (\<lambda>y. obind (bit_operand xx) (\<lambda>x.
       let (ds1, ds2, sg) = bit_order x y in
       bit_result \<lparr>sign = (sign x \<and> sign y),
         digits = bit_digits (\<lambda>a b. a OR b) (\<lambda>d. if sg then d else BIGLO (BIGRAD - 1)) ds1 ds2\<rparr>)))"

definition rb_big_xor :: "rbignum \<Rightarrow> value \<Rightarrow> value outcome" where
  "rb_big_xor xx yy =
     obind (big_operand yy) (\<lambda>y. obind (bit_operand y) (\<lambda>y. obind (bit_operand xx) (\<lambda>x.
       let (ds1, ds2, sg) = bit_order x y in
       bit_result \<lparr>sign = (sign x = sign y),
         digits = bit_digits (\<lambda>a b. a XOR b) (\<lambda>d. if sg then d else NOT d) ds1 ds2\<rparr>)))"

section \<open>Shifts and bit reference\<close>

definition NUM2INT :: "value \<Rightarrow> int outcome" where
  "NUM2INT v =
     (case v of
        Fixnum n \<Rightarrow> return n
      | Bignum b \<Rightarrow> rb_big2long b
      | Flo _ \<Rightarrow> raise Float_path
      | Obj _ \<Rightarrow> raise Coerce)"

fun lshift_loop :: "nat \<Rightarrow> int \<Rightarrow> bdigit list \<Rightarrow> bdigit list" where
  "lshift_loop s2 num [] = [BIGLO num]"
| "lshift_loop s2 num (d # ds) =
     (let num = num OR u32 (push_bit s2 (uint d)) in BIGLO num # lshift_loop s2 (BIGDN num) ds)"

definition lshift_body :: "rbignum \<Rightarrow> int \<Rightarrow> value" where
  "lshift_body x shift =
     bignorm (Bignum \<lparr>sign = sign x,
       digits = replicate (nat (c_quot shift 16)) 0 @ lshift_loop (nat (c_rem shift 16)) 0 (digits x)\<rparr>)"

definition rshift_body :: "rbignum \<Rightarrow> int \<Rightarrow> value outcome" where
  "rshift_body x shift =
     (let s1 = nat (c_quot shift 16); s2 = nat (c_rem shift 16) in
      if length (digits x) < s1 then return (if sign x then Fixnum 0 else Fixnum (-1))
      else
        obind (bit_operand x) (\<lambda>x.
          (let j = length (digits x) - s1;
               num = (if \<not> sign x then BIGUP 65535 else 0)
           in bit_result \<lparr>sign = sign x, digits = rev (shr_digits s2 num (take j (rev (digits x))))\<rparr>)))"

text \<open>
  The two methods call each other for a negative count, with the count put into a fixnum by
  \<open>INT2FIX\<close>; \<open>fuel\<close> bounds the calls, and one is enough when the negated count is a fixnum.
\<close>

fun rb_big_lshift :: "nat \<Rightarrow> rbignum \<Rightarrow> value \<Rightarrow> value outcome option"
and rb_big_rshift :: "nat \<Rightarrow> rbignum \<Rightarrow> value \<Rightarrow> value outcome option" where
  "rb_big_lshift fuel x y =
     (case NUM2INT y of
        Inl e \<Rightarrow> Some (raise e)
      | Inr shift \<Rightarrow>
          if shift < 0 then (case fuel of 0 \<Rightarrow> None | Suc n \<Rightarrow> rb_big_rshift n x (LONG2FIX (- shift)))
          else Some (return (lshift_body x shift)))"
| "rb_big_rshift fuel x y =
     (case NUM2INT y of
        Inl e \<Rightarrow> Some (raise e)
      | Inr shift \<Rightarrow>
          if shift < 0 then (case fuel of 0 \<Rightarrow> None | Suc n \<Rightarrow> rb_big_lshift n x (LONG2FIX (- shift)))
          else Some (rshift_body x shift))"

declare rb_big_lshift.simps [simp del] rb_big_rshift.simps [simp del]

definition rb_big_aref :: "rbignum \<Rightarrow> value \<Rightarrow> value outcome" where
  "rb_big_aref x y =
     (case y of
        Bignum b \<Rightarrow> return (if \<not> sign b \<or> sign x then Fixnum 0 else Fixnum 1)
      | _ \<Rightarrow>
        obind (NUM2INT y) (\<lambda>shift.
          let s1 = nat (c_quot shift 16); s2 = nat (c_rem shift 16) in
          if shift < 0 then return (Fixnum 0)
          else if length (digits x) \<le> s1 then return (if \<not> sign x then Fixnum 1 else Fixnum 0)
          else obind (bit_operand x) (\<lambda>x.
            return (if digits x ! s1 AND push_bit s2 1 \<noteq> 0 then Fixnum 1 else Fixnum 0))))"

section \<open>Signed values of digits\<close>

fun sval :: "bool \<Rightarrow> bdigit list \<Rightarrow> int" where
  "sval s [] = (if s then 0 else -1)"
| "sval s (d # ds) = uint d + 65536 * sval s ds"

lemma sval_eq: "sval s ds = digs_val ds - (if s then 0 else 65536 ^ length ds)"
  by (induction ds) (auto simp: algebra_simps)

lemma sval_True [simp]: "sval True ds = digs_val ds"
  by (simp add: sval_eq)

lemma sval_append: "sval s (xs @ ys) = digs_val xs + 65536 ^ length xs * sval s ys"
  by (induction xs) (simp_all add: algebra_simps)

lemma carry_loop_val:
  assumes "0 \<le> num" "num \<le> 1"
  shows "digs_val (carry_loop num ds) = (num + digs_val ds) mod 65536 ^ length ds \<and>
    length (carry_loop num ds) = length ds"
  using assms
proof (induction num ds rule: carry_loop.induct)
  case (2 num d ds)
  define n where "n = u32 (num + uint d)"
  have n: "n = num + uint d" "0 \<le> n" "n \<le> 65536"
    using 2(2,3) uint16_bounds[of d] by (simp_all add: n_def u32_id)
  then have dn: "0 \<le> BIGDN n" "BIGDN n \<le> 1" by (auto simp: BIGDN_def BIGRAD_def)
  have ih: "digs_val (carry_loop (BIGDN n) ds) = (BIGDN n + digs_val ds) mod 65536 ^ length ds"
    "length (carry_loop (BIGDN n) ds) = length ds"
    using 2(1)[OF n_def dn] by simp_all
  have val: "num + digs_val (d # ds) = uint (BIGLO n) + 65536 * (BIGDN n + digs_val ds)"
    using BIGDN_BIGLO[of n] n(1) by (simp add: algebra_simps)
  have m: "(uint (BIGLO n) + 65536 * a) mod (65536 * 65536 ^ length ds) =
      uint (BIGLO n) + 65536 * (a mod 65536 ^ length ds)" for a
    using add_mult_div_mod[OF uint16_bounds[of "BIGLO n"], of a]
    by (subst zmod_zmult2_eq) simp_all
  have "carry_loop num (d # ds) = BIGLO n # carry_loop (BIGDN n) ds"
    by (simp add: n_def Let_def)
  then show ?case unfolding val using ih m[of "BIGDN n + digs_val ds"] by simp
qed simp

lemma digs_val_not: "digs_val (map (\<lambda>d. NOT d) ds) = 65536 ^ length ds - 1 - digs_val ds"
proof (induction ds)
  case (Cons d ds)
  then show ?case by (simp add: uint_NOT)
qed simp

lemma digs_val_top:
  assumes "ds \<noteq> []" "last ds AND 32768 \<noteq> 0"
  shows "65536 ^ length ds \<le> 2 * digs_val ds"
proof -
  have "32768 \<le> uint (last ds)" using assms(2) by (simp add: top_bit)
  then have "65536 ^ (length ds - 1) * 32768 \<le> 65536 ^ (length ds - 1) * uint (last ds)" by simp
  then have "65536 ^ (length ds - 1) * 32768 \<le> digs_val ds" using digs_val_last(1)[OF assms(1)] by linarith
  then show ?thesis using assms(1) by (cases ds) simp_all
qed

text \<open>The complement without the extra digit is the negated number modulo the power of the radix.\<close>

lemma get2comp_plain:
  assumes "digits x \<noteq> []" "0 < digs_val (digits x)"
  obtains ds where "get2comp x False = Inr (x\<lparr>digits := ds\<rparr>, False)" "length ds = length (digits x)"
    "digs_val ds = 65536 ^ length (digits x) - digs_val (digits x)"
    "get2comp x True = Inr (if last ds AND 32768 = 0 then (x\<lparr>digits := ds @ [NOT 0]\<rparr>, True) else (x\<lparr>digits := ds\<rparr>, False))"
proof -
  let ?P = "65536 ^ length (digits x) :: int"
  define ds where "ds = carry_loop 1 (map (\<lambda>d. NOT d) (digits x))"
  have v: "digs_val ds = (?P - digs_val (digits x)) mod ?P" "length ds = length (digits x)"
    using carry_loop_val[of 1 "map (\<lambda>d. NOT d) (digits x)"] by (simp_all add: ds_def digs_val_not)
  moreover have "(?P - digs_val (digits x)) mod ?P = ?P - digs_val (digits x)"
    using assms(2) digs_val_less[of "digits x"] by (intro mod_pos_pos_trivial) simp_all
  ultimately show ?thesis
    using that[of ds] assms(1) by (simp add: get2comp_def ds_def[symmetric] Let_def)
qed

lemma get2comp_zero:
  assumes "digits x \<noteq> []" "digs_val (digits x) = 0"
  obtains ds where "get2comp x False = Inr (x\<lparr>digits := ds\<rparr>, False)" "digs_val ds = 0"
proof -
  define ds where "ds = carry_loop 1 (map (\<lambda>d. NOT d) (digits x))"
  have "digs_val ds = 65536 ^ length (digits x) mod 65536 ^ length (digits x)"
    using carry_loop_val[of 1 "map (\<lambda>d. NOT d) (digits x)"] assms(2) by (simp add: ds_def digs_val_not)
  then show ?thesis using that[of ds] assms(1) by (simp add: get2comp_def ds_def[symmetric])
qed

text \<open>
  What an operand looks like to the loops: its signed value is the number, and a negative one has
  its top bit set.
\<close>

definition comp_form :: "rbignum \<Rightarrow> int \<Rightarrow> bool" where
  "comp_form x n \<longleftrightarrow> sval (sign x) (digits x) = n \<and> digits x \<noteq> [] \<and>
     (\<not> sign x \<longrightarrow> 65536 ^ length (digits x) \<le> 2 * digs_val (digits x))"

lemma bit_operand_correct:
  assumes "big_op x" "sign x \<longleftrightarrow> 0 \<le> big_val x"
  obtains z where "bit_operand x = Inr z" "comp_form z (big_val x)" "sign z = sign x"
    "length (digits x) \<le> length (digits z)" "length (digits z) \<le> Suc (length (digits x))"
proof (cases "sign x")
  case True
  then show ?thesis
    using that[of x] assms(1) by (auto simp: bit_operand_def comp_form_def big_val_def big_op_def)
next
  case False
  have ne: "digits x \<noteq> []" using assms(1) by (simp add: big_op_def)
  have "\<not> 0 \<le> big_val x" using False assms(2) by blast
  then have "0 < digs_val (digits x)" using False by (simp add: big_val_def)
  then obtain ds where ds: "length ds = length (digits x)"
    "digs_val ds = 65536 ^ length (digits x) - digs_val (digits x)"
    "get2comp x True = Inr (if last ds AND 32768 = 0 then (x\<lparr>digits := ds @ [NOT 0]\<rparr>, True) else (x\<lparr>digits := ds\<rparr>, False))"
    using get2comp_plain[OF ne] by blast
  define es where "es = (if last ds AND 32768 = 0 then ds @ [NOT 0] else ds)"
  have es: "es \<noteq> []" "last es AND 32768 \<noteq> 0" using ds(1) ne by (auto simp: es_def)
  have "sval False [NOT 0] = -1" by (simp add: unsigned_minus_1_eq_mask mask_eq_exp_minus_1)
  then have "sval False (ds @ [NOT 0]) = sval False ds"
    by (simp only: sval_append) (simp add: sval_eq)
  then have "sval False es = sval False ds" by (simp only: es_def if_cancel split: if_split) simp
  then have "sval False es = big_val x" using ds(1,2) False by (simp add: sval_eq big_val_def)
  then have "comp_form (x\<lparr>digits := es\<rparr>) (big_val x)"
    using digs_val_top[OF es] es(1) False by (simp add: comp_form_def)
  moreover have "bit_operand x = Inr (x\<lparr>digits := es\<rparr>)"
    using False ds(3) by (simp add: bit_operand_def rb_big_2comp_def es_def)
  ultimately show ?thesis using that[of "x\<lparr>digits := es\<rparr>"] ds(1) False by (simp add: es_def)
qed

section \<open>A digit-wise loop implements an operation on integers\<close>

lemma bit_digit: "bit (uint d + 65536 * a) k \<longleftrightarrow> (if k < 16 then bit (d::bdigit) k else bit a (k - 16))"
proof -
  have "push_bit 16 a AND uint d = 0"
    by (rule bit_eqI) (auto simp: bit_and_iff bit_push_bit_iff bit_uint_iff)
  then have "push_bit 16 a OR uint d = push_bit 16 a + uint d"
    by (simp add: disjunctive_add_eq_or)
  then have "uint d + 65536 * a = push_bit 16 a OR uint d"
    by (simp add: push_bit_eq_mult mult.commute add.commute)
  then show ?thesis by (auto simp: bit_or_iff bit_push_bit_iff bit_uint_iff)
qed

text \<open>
  \<open>dop\<close> works on digits, \<open>fill\<close> makes a digit from one of the longer operand and the sign of the
  shorter, \<open>sop\<close> gives the sign; \<open>iop\<close> is the operation on integers they implement.
\<close>

locale bit_loop =
  fixes dop :: "bdigit \<Rightarrow> bdigit \<Rightarrow> bdigit"
    and fill :: "bool \<Rightarrow> bdigit \<Rightarrow> bdigit"
    and sop :: "bool \<Rightarrow> bool \<Rightarrow> bool"
    and iop :: "int \<Rightarrow> int \<Rightarrow> int"
  assumes digit_law: "iop (uint d + 65536 * a) (uint e + 65536 * b) = uint (dop d e) + 65536 * iop a b"
    and fill_law: "iop (if s then 0 else -1) (uint e + 65536 * b) =
      uint (fill s e) + 65536 * iop (if s then 0 else -1) b"
    and sign_law: "iop (if s then 0 else -1) (if t then 0 else -1) = (if sop s t then 0 else -1)"
    and commute_law: "iop a b = iop b a" "sop s t = sop t s"
begin

lemma fill_val: "sval (sop s t) (map (fill s) ys) = iop (if s then 0 else -1) (sval t ys)"
  by (induction ys) (use sign_law in \<open>simp_all add: fill_law\<close>)

lemma loop_val:
  "length xs \<le> length ys \<Longrightarrow> sval (sop s t) (bit_digits dop (fill s) xs ys) = iop (sval s xs) (sval t ys)"
proof (induction xs arbitrary: ys)
  case (Cons x xs)
  then show ?case by (cases ys) (simp_all add: digit_law)
qed (use fill_val in simp)

lemma loop_length: "length xs \<le> length ys \<Longrightarrow> length (bit_digits dop (fill s) xs ys) = length ys"
proof (induction xs arbitrary: ys)
  case (Cons x xs)
  then show ?case by (cases ys) simp_all
qed simp

lemma ordered_val:
  assumes "bit_order x y = (ds1, ds2, sg)"
  shows "sval (sop (sign x) (sign y)) (bit_digits dop (fill sg) ds1 ds2) =
      iop (sval (sign x) (digits x)) (sval (sign y) (digits y)) \<and>
    length (bit_digits dop (fill sg) ds1 ds2) = max (length (digits x)) (length (digits y))"
proof (cases "length (digits y) < length (digits x)")
  case True
  then have o: "ds1 = digits y" "ds2 = digits x" "sg = sign y" using assms by (simp_all add: bit_order_def)
  show ?thesis
    using True loop_val[of "digits y" "digits x" "sign y" "sign x"] loop_length[of "digits y" "digits x" "sign y"]
    unfolding o commute_law(1)[of "sval (sign x) (digits x)"] commute_law(2)[of "sign x"] by simp
next
  case False
  then show ?thesis
    using assms loop_val[of "digits x" "digits y" "sign x" "sign y"] loop_length[of "digits x" "digits y" "sign x"]
    by (auto simp: bit_order_def)
qed

end

interpretation and_loop: bit_loop "\<lambda>a b. a AND b" "\<lambda>sg d. if sg then 0 else d" "\<lambda>s t. s \<or> t" "\<lambda>a b. a AND b"
proof (unfold_locales, goal_cases)
  case 4
  then show ?case by (rule and.commute)
qed (auto intro!: bit_eqI simp: bit_and_iff bit_digit)

interpretation or_loop: bit_loop "\<lambda>a b. a OR b" "\<lambda>sg d. if sg then d else BIGLO (BIGRAD - 1)"
    "\<lambda>s t. s \<and> t" "\<lambda>a b. a OR b"
proof (unfold_locales, goal_cases)
  case (2 s e b)
  then show ?case by (auto simp: BIGLO_def BIGRAD_def)
next
  case 4
  then show ?case by (rule or.commute)
qed (auto intro!: bit_eqI simp: bit_or_iff bit_digit)

interpretation xor_loop: bit_loop "\<lambda>a b. a XOR b" "\<lambda>sg d. if sg then d else NOT d" "\<lambda>s t. s = t" "\<lambda>a b. a XOR b"
proof (unfold_locales, goal_cases)
  case (2 s e b)
  then show ?case by (auto intro!: bit_eqI simp: bit_xor_iff bit_not_iff bit_digit)
next
  case 4
  then show ?case by (rule xor.commute)
qed (auto intro!: bit_eqI simp: bit_xor_iff bit_digit)

section \<open>Results of the bit operations\<close>

lemma power_65536: "(65536::int) ^ n = 2 ^ (16 * n)"
  by (simp add: power_mult)

lemma bit_result_correct:
  assumes "digits z \<noteq> []" "v = sval (sign z) (digits z)" "v \<noteq> - (65536 ^ length (digits z))"
  shows "int_result (bit_result z) v"
proof (cases "sign z")
  case True
  then show ?thesis using assms(2) by (simp add: bit_result_def int_result_bignorm big_val_def)
next
  case False
  have v: "v = digs_val (digits z) - 65536 ^ length (digits z)" using assms(2) False by (simp add: sval_eq)
  then have "digs_val (digits z) \<noteq> 0" using assms(3) by simp
  then have "0 < digs_val (digits z)" using digs_val_nonneg[of "digits z"] by linarith
  then obtain ds where ds: "get2comp z False = Inr (z\<lparr>digits := ds\<rparr>, False)"
    "digs_val ds = 65536 ^ length (digits z) - digs_val (digits z)"
    using get2comp_plain[OF assms(1)] by blast
  have "big_val (z\<lparr>digits := ds\<rparr>) = v" using ds(2) v False by (simp add: big_val_def)
  from int_result_bignorm[OF this] show ?thesis using False ds(1) by (simp add: bit_result_def)
qed

lemma bit_result_drop:
  assumes "digits z \<noteq> []" "\<not> sign z" "sval False (digits z) = - (65536 ^ length (digits z))"
  shows "int_result (bit_result z) 0"
proof -
  have "digs_val (digits z) = 0" using assms(3) by (simp add: sval_eq)
  then obtain ds where ds: "get2comp z False = Inr (z\<lparr>digits := ds\<rparr>, False)" "digs_val ds = 0"
    using get2comp_zero[OF assms(1)] by blast
  have "big_val (z\<lparr>digits := ds\<rparr>) = 0" using ds(2) by (simp add: big_val_def)
  from int_result_bignorm[OF this] show ?thesis using assms(2) ds(1) by (simp add: bit_result_def)
qed

lemma div_below:
  assumes "- (2 ^ k) \<le> (v::int)" "v < 0"
  shows "v div 2 ^ k = -1"
proof -
  have "v div 2 ^ k < 0" using assms(2) by (simp add: pos_imp_zdiv_neg_iff)
  moreover have "(- 1 * 2 ^ k) div 2 ^ k = (- 1 :: int)" by (rule nonzero_mult_div_cancel_right) simp
  then have "- 1 \<le> v div 2 ^ k" using zdiv_mono1[of "- 1 * 2 ^ k" v "2 ^ k"] assms(1) by simp
  ultimately show ?thesis by linarith
qed

lemma bit_below: "- (2 ^ k) \<le> (v::int) \<Longrightarrow> v < 0 \<Longrightarrow> bit v k"
  by (simp add: bit_iff_odd div_below)

lemma half_power: "0 < L \<Longrightarrow> (65536::int) ^ L = 2 * 2 ^ (16 * L - 1)"
  using power_minus_mult[of "16 * L" "2::int"] by (simp add: power_65536 mult.commute)

lemma comp_form_bounds:
  assumes "comp_form x n" "\<not> sign x" "length (digits x) \<le> L"
  shows "- (2 ^ (16 * L - 1)) \<le> n" "n < 0"
proof -
  have pos: "0 < L" using assms(1,3) by (cases L) (auto simp: comp_form_def)
  have "(65536::int) ^ length (digits x) \<le> 65536 ^ L" using assms(3) by (intro power_increasing) simp_all
  moreover have "(65536::int) ^ L = 2 * 2 ^ (16 * L - 1)" using half_power[OF pos] .
  moreover have "n = digs_val (digits x) - 65536 ^ length (digits x)"
    "65536 ^ length (digits x) \<le> 2 * digs_val (digits x)"
    using assms(1,2) by (simp_all add: comp_form_def sval_eq)
  ultimately show "- (2 ^ (16 * L - 1)) \<le> n" "n < 0" using digs_val_less[of "digits x"] by linarith+
qed

lemma comp_form_bit: "comp_form x n \<Longrightarrow> \<not> sign x \<Longrightarrow> length (digits x) \<le> L \<Longrightarrow> bit n (16 * L - 1)"
  using comp_form_bounds bit_below by blast

lemma bit_neq_power:
  assumes "bit (v::int) (16 * L - 1)" "0 < L"
  shows "v \<noteq> - (65536 ^ L)"
proof
  assume "v = - (65536 ^ L)"
  then have "v = - 2 * 2 ^ (16 * L - 1)" using half_power[OF assms(2)] by linarith
  moreover have "(- 2 * 2 ^ (16 * L - 1)) div 2 ^ (16 * L - 1) = (- 2 :: int)"
    by (rule nonzero_mult_div_cancel_right) simp
  ultimately have "v div 2 ^ (16 * L - 1) = -2" by (simp only:)
  then show False using assms(1) by (simp add: bit_iff_odd)
qed

lemma bit_operands:
  assumes "big_ok x" "value_ok y" "int_val y = Some n"
  obtains b xz yz where "big_operand y = Inr b" "bit_operand b = Inr yz" "comp_form yz n"
    "bit_operand x = Inr xz" "comp_form xz (big_val x)"
proof -
  obtain b where b: "big_operand y = Inr b" "big_val b = n" "big_op b" "sign b \<longleftrightarrow> 0 \<le> n"
    using big_operand_correct[OF assms(2,3)] by blast
  obtain yz where "bit_operand b = Inr yz" "comp_form yz n"
    using bit_operand_correct[OF b(3)] b(2,4) by blast
  moreover obtain xz where "bit_operand x = Inr xz" "comp_form xz (big_val x)"
    using bit_operand_correct[OF big_ok_op[OF assms(1)] big_ok_sign[OF assms(1)]] by blast
  ultimately show ?thesis using that b(1) by blast
qed

lemma bit_finish:
  assumes "sval s zs = v" "length zs = L" "0 < L" "\<not> s \<Longrightarrow> bit v (16 * L - 1)"
  shows "int_result (bit_result \<lparr>sign = s, digits = zs\<rparr>) v"
proof (rule bit_result_correct)
  show "v \<noteq> - (65536 ^ length (digits \<lparr>sign = s, digits = zs\<rparr>))"
  proof (cases s)
    case True
    have "- (65536 ^ L) < (0::int)" by simp
    then show ?thesis using assms(1,2) True digs_val_nonneg[of zs] by (simp only: rbignum.simps sval_True)
  next
    case False
    then show ?thesis using assms(2-4) bit_neq_power[of v L] by simp
  qed
qed (use assms in auto)

section \<open>Properties\<close>

text \<open>
  \<open>&\<close> and \<open>|\<close> of a \<open>Bignum\<close> and any integer object are the bitwise operations on two's
  complement integers of unlimited length, for every combination of signs and lengths.
\<close>

theorem big_and_or_correct:
  assumes "big_ok x" "value_ok y" "int_val y = Some n"
  shows "int_result (rb_big_and x y) (big_val x AND n) \<and> int_result (rb_big_or x y) (big_val x OR n)"
proof -
  obtain b xz yz where o: "big_operand y = Inr b" "bit_operand b = Inr yz" "comp_form yz n"
    "bit_operand x = Inr xz" "comp_form xz (big_val x)"
    using bit_operands[OF assms] by blast
  obtain ds1 ds2 sg where ord: "bit_order xz yz = (ds1, ds2, sg)" by (cases "bit_order xz yz") auto
  define L where "L = max (length (digits xz)) (length (digits yz))"
  have L: "0 < L" using o(5) by (cases "digits xz") (simp_all add: L_def comp_form_def)
  have v: "sval (sign xz) (digits xz) = big_val x" "sval (sign yz) (digits yz) = n"
    using o(3,5) by (simp_all add: comp_form_def)
  have bx: "\<not> sign xz \<Longrightarrow> bit (big_val x) (16 * L - 1)" and byt: "\<not> sign yz \<Longrightarrow> bit n (16 * L - 1)"
    using comp_form_bit[OF o(5)] comp_form_bit[OF o(3)] by (simp_all add: L_def)
  note av = and_loop.ordered_val[OF ord, unfolded v L_def[symmetric]]
    and ov = or_loop.ordered_val[OF ord, unfolded v L_def[symmetric]]
  have "int_result (bit_result \<lparr>sign = (sign xz \<or> sign yz),
      digits = bit_digits (\<lambda>a b. a AND b) (\<lambda>d. if sg then 0 else d) ds1 ds2\<rparr>) (big_val x AND n)"
    using av bx byt by (intro bit_finish[OF _ _ L]) (auto simp: bit_and_iff)
  moreover have "int_result (bit_result \<lparr>sign = (sign xz \<and> sign yz),
      digits = bit_digits (\<lambda>a b. a OR b) (\<lambda>d. if sg then d else BIGLO (BIGRAD - 1)) ds1 ds2\<rparr>) (big_val x OR n)"
    using ov bx byt by (intro bit_finish[OF _ _ L]) (auto simp: bit_or_iff)
  ultimately show ?thesis using o ord by (simp add: rb_big_and_def rb_big_or_def)
qed

theorem big_and_or_correct_witness:
  "int_result (rb_big_and \<lparr>sign = False, digits = [0, 0, 1]\<rparr> (Fixnum (-2))) (- 4294967296) \<and>
   int_result (rb_big_or \<lparr>sign = False, digits = [0, 0, 1]\<rparr> (Fixnum (-2))) (- 2)"
  using big_and_or_correct[of "\<lparr>sign = False, digits = [0, 0, 1]\<rparr>" "Fixnum (-2)" "-2"]
  by (simp add: big_ok_def big_val_def fixable_defs)

text \<open>
  \<open>^\<close> returns the exclusive or of the two's complement integers, except when that is minus a
  power of the radix, where the carry out of the top digit can be lost and the result be 0. That
  happens: \<open>0xFFFFFFFF ^ -1\<close> is 0 instead of \<open>-0x100000000\<close>.
\<close>

theorem big_xor_correct:
  assumes "big_ok x" "value_ok y" "int_val y = Some n"
  shows "(int_result (rb_big_xor x y) (big_val x XOR n) \<or>
      (\<exists>L. big_val x XOR n = - (65536 ^ L) \<and> int_result (rb_big_xor x y) 0)) \<and>
    rb_big_xor \<lparr>sign = True, digits = [65535, 65535]\<rparr> (Fixnum (-1)) = Inr (Fixnum 0)"
proof
  show "rb_big_xor \<lparr>sign = True, digits = [65535, 65535]\<rparr> (Fixnum (-1)) = Inr (Fixnum 0)" by code_simp
  obtain b xz yz where o: "big_operand y = Inr b" "bit_operand b = Inr yz" "comp_form yz n"
    "bit_operand x = Inr xz" "comp_form xz (big_val x)"
    using bit_operands[OF assms] by blast
  obtain ds1 ds2 sg where ord: "bit_order xz yz = (ds1, ds2, sg)" by (cases "bit_order xz yz") auto
  define L where "L = max (length (digits xz)) (length (digits yz))"
  define z where "z = \<lparr>sign = (sign xz = sign yz),
    digits = bit_digits (\<lambda>a b. a XOR b) (\<lambda>d. if sg then d else NOT d) ds1 ds2\<rparr>"
  have v: "sval (sign xz) (digits xz) = big_val x" "sval (sign yz) (digits yz) = n"
    using o(3,5) by (simp_all add: comp_form_def)
  have z: "sval (sign z) (digits z) = big_val x XOR n" "length (digits z) = L"
    using xor_loop.ordered_val[OF ord, unfolded v L_def[symmetric]] by (simp_all add: z_def)
  have L: "0 < L" using o(5) by (cases "digits xz") (simp_all add: L_def comp_form_def)
  then have ne: "digits z \<noteq> []" using z(2) by auto
  have r: "rb_big_xor x y = bit_result z" using o ord by (simp add: rb_big_xor_def z_def)
  show "int_result (rb_big_xor x y) (big_val x XOR n) \<or>
    (\<exists>L. big_val x XOR n = - (65536 ^ L) \<and> int_result (rb_big_xor x y) 0)"
  proof (cases "big_val x XOR n = - (65536 ^ L)")
    case True
    have "- (65536 ^ L) < (0::int)" by simp
    then have "\<not> sign z"
      using z(1)[unfolded True] digs_val_nonneg[of "digits z"] by (metis sval_True not_le)
    then have "int_result (bit_result z) 0" using bit_result_drop[OF ne] z True by simp
    then show ?thesis using True r by auto
  next
    case False
    then show ?thesis using bit_result_correct[OF ne] z r by simp
  qed
qed

theorem big_xor_correct_witness:
  "int_result (rb_big_xor \<lparr>sign = True, digits = [65535, 0, 1]\<rparr> (Fixnum (-1))) (- 4295032832)"
proof -
  have "big_val \<lparr>sign = True, digits = [65535, 0, 1]\<rparr> XOR - 1 \<noteq> - (65536 ^ L)" for L
  proof
    assume "big_val \<lparr>sign = True, digits = [65535, 0, 1]\<rparr> XOR - 1 = - (65536 ^ L)"
    then have e: "(65536::int) ^ L = 4295032832" by (simp add: big_val_def)
    show False
    proof (cases "L \<le> 2")
      case True
      then have "L = 0 \<or> L = 1 \<or> L = 2" by auto
      then show False using e by auto
    next
      case False
      then have "(65536::int) ^ 3 \<le> 65536 ^ L" by (intro power_increasing) simp_all
      then show False using e by simp
    qed
  qed
  then show ?thesis
    using big_xor_correct[of "\<lparr>sign = True, digits = [65535, 0, 1]\<rparr>" "Fixnum (-1)" "-1", THEN conjunct1]
    by (simp add: big_ok_def big_val_def fixable_defs)
qed

lemma big_neg_pos:
  assumes "digits x \<noteq> []" "sign x"
  shows "int_result (rb_big_neg x) (if big_val x + 1 = 65536 ^ length (digits x) then 0 else - big_val x - 1)"
proof -
  let ?P = "65536 ^ length (digits x) :: int"
  define y where "y = x\<lparr>digits := map (\<lambda>d. NOT d) (digits x)\<rparr>"
  have y: "digits y \<noteq> []" "digs_val (digits y) = ?P - 1 - digs_val (digits x)" "length (digits y) = length (digits x)"
    using assms(1) by (simp_all add: y_def digs_val_not)
  show ?thesis
  proof (cases "big_val x + 1 = ?P")
    case True
    then have "digs_val (digits y) = 0" using y(2) assms(2) by (simp add: big_val_def)
    then obtain ds where ds: "get2comp y False = Inr (y\<lparr>digits := ds\<rparr>, False)" "digs_val ds = 0"
      using get2comp_zero[OF y(1)] by blast
    have "int_result (Inr (bignorm (Bignum (y\<lparr>digits := ds, sign := False\<rparr>)))) 0"
      using ds(2) by (intro int_result_bignorm) (simp add: big_val_def)
    then show ?thesis using True assms(2) ds(1) by (simp add: rb_big_neg_def y_def)
  next
    case False
    then have "0 < digs_val (digits y)"
      using y(2) assms(2) digs_val_less[of "digits x"] by (simp add: big_val_def)
    then obtain ds where ds: "get2comp y False = Inr (y\<lparr>digits := ds\<rparr>, False)"
      "digs_val ds = ?P - digs_val (digits y)"
      using get2comp_plain[OF y(1)] y(3) by auto
    have "int_result (Inr (bignorm (Bignum (y\<lparr>digits := ds, sign := False\<rparr>)))) (- big_val x - 1)"
      using ds(2) y(2) assms(2) by (intro int_result_bignorm) (simp add: big_val_def)
    then show ?thesis using False assms(2) ds(1) by (simp add: rb_big_neg_def y_def)
  qed
qed

lemma top_clear_iff:
  assumes "ds \<noteq> []"
  shows "last ds AND 32768 = 0 \<longleftrightarrow> 2 * digs_val ds < 65536 ^ length ds"
proof
  assume "last ds AND 32768 = 0"
  then have "uint (last ds) + 1 \<le> 32768" by (simp add: top_bit)
  then have "(65536::int) ^ (length ds - 1) * (uint (last ds) + 1) \<le> 65536 ^ (length ds - 1) * 32768" by simp
  then have "digs_val ds < 65536 ^ (length ds - 1) * 32768" using digs_val_last(2)[OF assms] by linarith
  then show "2 * digs_val ds < 65536 ^ length ds" using assms by (cases ds) simp_all
next
  assume "2 * digs_val ds < 65536 ^ length ds"
  then show "last ds AND 32768 = 0" using digs_val_top[OF assms] by force
qed

lemma big_neg_neg:
  assumes "digits x \<noteq> []" "\<not> sign x" "0 < digs_val (digits x)"
  shows "if 65536 ^ length (digits x) < 2 * - big_val x then rb_big_neg x = Inl Undefined
    else int_result (rb_big_neg x) (- big_val x - 1)"
proof -
  obtain ds where ds: "length ds = length (digits x)" "digs_val ds = 65536 ^ length (digits x) - digs_val (digits x)"
    "get2comp x True = Inr (if last ds AND 32768 = 0 then (x\<lparr>digits := ds @ [NOT 0]\<rparr>, True) else (x\<lparr>digits := ds\<rparr>, False))"
    using get2comp_plain[OF assms(1,3)] by blast
  have "ds \<noteq> []" using ds(1) assms(1) by auto
  then have "last ds AND 32768 = 0 \<longleftrightarrow> 65536 ^ length (digits x) < 2 * - big_val x"
    using top_clear_iff ds(1,2) assms(2) by (simp add: big_val_def)
  moreover have "int_result (Inr (bignorm (Bignum (x\<lparr>digits := map (\<lambda>d. NOT d) ds, sign := True\<rparr>)))) (- big_val x - 1)"
    using ds(1,2) assms(2) by (intro int_result_bignorm) (simp add: big_val_def digs_val_not)
  ultimately show ?thesis using assms(2) ds(3) by (simp add: rb_big_neg_def)
qed

text \<open>
  C10. \<open>~x\<close> is \<open>-x - 1\<close> with two exceptions: for \<open>x\<close> one below a power of the radix of its length the
  carry is lost and the result is 0, and for a negative \<open>x\<close> whose complement needs another digit
  the digits are written through a pointer that reallocation made stale.
\<close>

theorem big_neg_cases:
  assumes "big_ok x"
  shows "if sign x then
      int_result (rb_big_neg x) (if big_val x + 1 = 65536 ^ length (digits x) then 0 else - big_val x - 1)
    else if 65536 ^ length (digits x) < 2 * - big_val x then rb_big_neg x = Inl Undefined
    else int_result (rb_big_neg x) (- big_val x - 1)"
proof -
  have ne: "digits x \<noteq> []" and pos: "0 < digs_val (digits x)"
    using assms digs_val_pos by (simp_all add: big_ok_def)
  show ?thesis
  proof (cases "sign x")
    case True
    show ?thesis unfolding if_P[OF True] by (rule big_neg_pos[OF ne True])
  next
    case False
    show ?thesis unfolding if_not_P[OF False] by (rule big_neg_neg[OF ne False pos])
  qed
qed

theorem big_neg_cases_witness:
  "int_result (rb_big_neg \<lparr>sign = True, digits = [65535, 65535]\<rparr>) 0 \<and>
   rb_big_neg \<lparr>sign = False, digits = [65535, 65535]\<rparr> = Inl Undefined"
  using big_neg_cases[of "\<lparr>sign = True, digits = [65535, 65535]\<rparr>"]
    big_neg_cases[of "\<lparr>sign = False, digits = [65535, 65535]\<rparr>"]
  by (simp add: big_ok_def big_val_def fixable_defs)

section \<open>Shifts\<close>

lemma or_disjoint_shift:
  assumes "0 \<le> num" "num < 2 ^ s"
  shows "num OR push_bit s (d::int) = num + push_bit s d"
proof -
  have "take_bit s num = num" using assms by (simp add: take_bit_int_eq_self)
  then have "num AND push_bit s d = 0"
    by (intro bit_eqI) (metis bit_and_iff bit_push_bit_iff bit_take_bit_iff bit_0_eq bot_apply not_le bot_bool_def)
  then show ?thesis by (simp add: disjunctive_add_eq_or)
qed

lemma lshift_loop_val:
  assumes "s2 \<le> 15" "0 \<le> num" "num < 2 ^ s2"
  shows "lshift_loop s2 num ds = fst (shl_digits s2 num ds) @ [BIGLO (snd (shl_digits s2 num ds))]"
  using assms(2,3)
proof (induction ds arbitrary: num)
  case (Cons d ds)
  note p = push_bit_digit[OF assms(1), of d]
  have le: "(2::int) ^ s2 \<le> 32768" using power_increasing[OF assms(1), of "2::int"] by simp
  define t where "t = num + uint d * 2 ^ s2"
  have u: "u32 (push_bit s2 (uint d)) = push_bit s2 (uint d)" using p by (simp add: u32_id)
  have t: "num OR u32 (push_bit s2 (uint d)) = t" "u32 (num + u32 (push_bit s2 (uint d))) = t"
    using or_disjoint_shift[OF Cons.prems, of "uint d"] p Cons.prems le
    by (simp_all add: u t_def u32_id)
  have "t < 2 ^ s2 * 65536"
  proof -
    have "(uint d + 1) * 2 ^ s2 \<le> 65536 * 2 ^ s2" using uint16_bounds[of d] by (intro mult_right_mono) simp_all
    then have "uint d * 2 ^ s2 + 2 ^ s2 \<le> 65536 * 2 ^ s2" by (simp only: distrib_right mult_1_left)
    then show ?thesis using Cons.prems(2) unfolding t_def by linarith
  qed
  then have "BIGDN t < 2 ^ s2" by (simp add: BIGDN_def BIGRAD_def zdiv_less)
  moreover have "0 \<le> t" using Cons.prems(1) p(2) unfolding t_def by linarith
  then have "0 \<le> BIGDN t" by (simp add: BIGDN_def BIGRAD_def)
  ultimately show ?case using Cons.IH[of "BIGDN t"] by (simp add: t Let_def case_prod_unfold)
qed simp

lemma lshift_body_correct:
  assumes "0 \<le> n"
  shows "int_result (Inr (lshift_body x n)) (big_val x * 2 ^ nat n)"
proof -
  define s1 s2 where "s1 = nat (c_quot n 16)" and "s2 = nat (c_rem n 16)"
  have s: "s1 = nat n div 16" "s2 = nat n mod 16"
    using assms by (simp_all add: s1_def s2_def c_quot_nonneg c_rem_nonneg nat_div_distrib nat_mod_distrib)
  then have s2: "s2 \<le> 15" and n: "nat n = 16 * s1 + s2" by auto
  obtain rs c where rs: "shl_digits s2 0 (digits x) = (rs, c)" by force
  have v: "length rs = length (digits x)" "0 \<le> c" "c < 65536"
    "digs_val rs + 65536 ^ length (digits x) * c = digs_val (digits x) * 2 ^ s2"
    using shl_digits_val[OF s2 _ _ rs] by simp_all
  have "digs_val (replicate s1 0 @ lshift_loop s2 0 (digits x)) = 65536 ^ s1 * (digs_val (digits x) * 2 ^ s2)"
    using v by (simp add: digs_val_append lshift_loop_val[OF s2] rs BIGLO_id del: replicate.simps)
  also have "\<dots> = digs_val (digits x) * 2 ^ nat n" by (simp add: n power_add power_mult)
  finally have "big_val \<lparr>sign = sign x, digits = replicate s1 0 @ lshift_loop s2 0 (digits x)\<rparr> = big_val x * 2 ^ nat n"
    by (simp add: big_val_def)
  from int_result_bignorm[OF this] show ?thesis by (simp add: lshift_body_def s1_def s2_def)
qed

lemma sval_drop:
  assumes "k \<le> length ds"
  shows "sval s (drop k ds) = sval s ds div 65536 ^ k"
proof -
  have "sval s ds = digs_val (take k ds) + 65536 ^ k * sval s (drop k ds)"
    using sval_append[of s "take k ds" "drop k ds"] assms by (simp add: min_absorb2)
  then show ?thesis
    using add_mult_div_mod(1)[of "digs_val (take k ds)" "65536 ^ k"] digs_val_less[of "take k ds"] assms
    by (simp add: min_absorb2)
qed

text \<open>The right shift of the digits, with ones coming in for a negative number.\<close>

lemma shr_sval:
  assumes "s2 \<le> 15" "ds \<noteq> []"
  shows "sval s (rev (shr_digits s2 (if \<not> s then BIGUP 65535 else 0) (rev ds))) = sval s ds div 2 ^ s2 \<and>
    length (shr_digits s2 (if \<not> s then BIGUP 65535 else 0) (rev ds)) = length ds"
proof -
  let ?P = "65536 ^ length ds :: int" and ?t = "if s then 0 else 65535 :: int"
  have z: "(if \<not> s then BIGUP 65535 else 0) = BIGUP ?t" by (simp add: BIGUP_def)
  have v: "digs_val (rev (shr_digits s2 (BIGUP ?t) (rev ds))) = (?P * ?t + digs_val ds) div 2 ^ s2 mod ?P"
    "length (shr_digits s2 (BIGUP ?t) (rev ds)) = length ds"
    using shr_digits_val[OF assms(1), of ?t "rev ds"] by simp_all
  have e: "(65536::int) = 2 ^ (16 - s2) * 2 ^ s2" using assms(1) by (simp add: power_add[symmetric])
  define w where "w = sval s ds"
  have w: "?P * ?t + digs_val ds = w + (if s then 0 else ?P * 2 ^ (16 - s2)) * 2 ^ s2"
    using e by (simp add: w_def sval_eq algebra_simps)
  have "(?P * ?t + digs_val ds) div 2 ^ s2 = w div 2 ^ s2 + (if s then 0 else ?P * 2 ^ (16 - s2))"
    unfolding w by (subst div_mult_self1) simp_all
  then have m: "digs_val (rev (shr_digits s2 (BIGUP ?t) (rev ds))) = w div 2 ^ s2 mod ?P" using v(1) by simp
  have "w div 2 ^ s2 mod ?P = w div 2 ^ s2 + (if s then 0 else ?P)"
  proof (cases s)
    case True
    have "w div 2 ^ s2 \<le> w" "0 \<le> w" "w < ?P"
      using True digs_val_less[of ds] zdiv_le_dividend_pow[of w s2] by (simp_all add: w_def)
    then show ?thesis using True by (simp add: pos_imp_zdiv_nonneg_iff mod_pos_pos_trivial)
  next
    case False
    have w0: "- ?P \<le> w" "w < 0" using False digs_val_less[of ds] by (simp_all add: w_def sval_eq)
    then have "w div 2 ^ s2 < 0" by (simp add: pos_imp_zdiv_neg_iff)
    moreover have "w \<le> w div 2 ^ s2" using zdiv_mono2_neg[of w 1 "2 ^ s2"] w0 by simp
    ultimately have "(w div 2 ^ s2 + ?P) mod ?P = w div 2 ^ s2 + ?P"
      using w0 by (intro mod_pos_pos_trivial) linarith+
    then show ?thesis using False by simp
  qed
  then show ?thesis
    unfolding z w_def[symmetric] sval_eq[of s "rev _"] length_rev v(2) m by simp
qed

lemma small_div:
  assumes "digs_val (digits x) < 2 ^ k" "sign x \<longleftrightarrow> 0 \<le> big_val x"
  shows "big_val x div 2 ^ k = (if sign x then 0 else -1)"
proof (cases "sign x")
  case False
  then have "big_val x < 0" using assms(2) by linarith
  moreover have "- (2 ^ k) \<le> big_val x" using False assms(1) by (simp add: big_val_def)
  ultimately show ?thesis using False div_below by simp
next
  case True
  then show ?thesis using assms(1) by (simp add: big_val_def)
qed

lemma neg_shift_bounds:
  fixes v :: int
  assumes "- (2 ^ (a + b)) \<le> v" "v < 0"
  shows "- (2 ^ a) \<le> v div 2 ^ (b + c)" "v div 2 ^ (b + c) < 0"
proof -
  have "- (2 ^ a) * 2 ^ b \<le> v" using assms(1) by (simp add: power_add)
  then have "(- (2 ^ a) * 2 ^ b) div 2 ^ b \<le> v div 2 ^ b" by (intro zdiv_mono1) simp_all
  moreover have "(- (2 ^ a) * 2 ^ b) div 2 ^ b = - (2 ^ a :: int)" by (rule nonzero_mult_div_cancel_right) simp
  moreover have n: "v div 2 ^ b < 0" using assms(2) by (simp add: pos_imp_zdiv_neg_iff)
  moreover have "v div 2 ^ b \<le> v div 2 ^ b div 2 ^ c" using zdiv_mono2_neg[of "v div 2 ^ b" 1 "2 ^ c"] n by simp
  moreover have "v div 2 ^ (b + c) = v div 2 ^ b div 2 ^ c" by (simp add: power_add zdiv_zmult2_eq)
  ultimately show "- (2 ^ a) \<le> v div 2 ^ (b + c)" "v div 2 ^ (b + c) < 0"
    by (simp_all add: pos_imp_zdiv_neg_iff)
qed

lemma rshift_body_correct:
  assumes "big_op x" "sign x \<longleftrightarrow> 0 \<le> big_val x" "0 \<le> n"
    and "sign x \<or> nat n div 16 \<noteq> length (digits x) \<or> \<not> - (2 ^ (16 * length (digits x) - 1)) \<le> big_val x"
  shows "int_result (rshift_body x n) (big_val x div 2 ^ nat n)"
proof -
  define s1 s2 where "s1 = nat (c_quot n 16)" and "s2 = nat (c_rem n 16)"
  have s: "s1 = nat n div 16" "s2 = nat n mod 16"
    using assms(3) by (simp_all add: s1_def s2_def c_quot_nonneg c_rem_nonneg nat_div_distrib nat_mod_distrib)
  then have s2: "s2 \<le> 15" and n: "nat n = 16 * s1 + s2" by auto
  have pow: "v div 2 ^ nat n = v div 65536 ^ s1 div 2 ^ s2" for v :: int
    by (simp add: n power_add power_mult zdiv_zmult2_eq)
  show ?thesis
  proof (cases "length (digits x) < s1")
    case True
    have "digs_val (digits x) < 2 ^ nat n"
    proof -
      have "(65536::int) ^ length (digits x) \<le> 65536 ^ s1" using True by (intro power_increasing) simp_all
      also have "\<dots> \<le> 2 ^ nat n" by (simp add: n power_65536)
      finally show ?thesis using digs_val_less[of "digits x"] by linarith
    qed
    then have "big_val x div 2 ^ nat n = (if sign x then 0 else -1)"
      using small_div[of x "nat n"] assms(1,2) by blast
    then show ?thesis
      using True by (auto simp: rshift_body_def Let_def s1_def[symmetric] int_result_def fixable_defs)
  next
    case False
    obtain z where z: "bit_operand x = Inr z" "comp_form z (big_val x)" "sign z = sign x"
      "length (digits x) \<le> length (digits z)" "length (digits z) \<le> Suc (length (digits x))"
      using bit_operand_correct[OF assms(1,2)] by blast
    define ds where "ds = drop s1 (digits z)"
    have k: "s1 \<le> length (digits z)" using False z(4) by simp
    have tk: "take (length (digits z) - s1) (rev (digits z)) = rev ds" using k by (simp add: ds_def take_rev)
    have sv: "sval (sign z) ds = big_val x div 65536 ^ s1"
      using sval_drop[OF k, of "sign z"] z(2) by (simp add: ds_def comp_form_def)
    have body: "rshift_body x n = bit_result \<lparr>sign = sign z,
        digits = rev (shr_digits s2 (if \<not> sign z then BIGUP 65535 else 0) (rev ds))\<rparr>"
      using False z(1) tk by (simp add: rshift_body_def Let_def s1_def[symmetric] s2_def[symmetric])
    show ?thesis
    proof (cases "ds = []")
      case True
      then have "length (digits z) = s1" using k by (simp add: ds_def)
      then have l: "length (digits x) = s1" "length (digits z) = length (digits x)"
        using z(4) False by linarith+
      have "- (2 ^ (16 * length (digits x) - 1)) \<le> big_val x" if "\<not> sign x"
        using comp_form_bounds(1)[OF z(2), of "length (digits x)"] that z(3) l by simp
      then have sx: "sign z" using assms(4) s(1) z(3) l by auto
      have "big_val x div 65536 ^ s1 = 0" using sv True sx by simp
      then show ?thesis
        using True sx body by (simp add: pow bit_result_def int_result_bignorm big_val_def)
    next
      case ne: False
      have top: "\<not> sign z \<Longrightarrow> bit (big_val x div 2 ^ nat n) (16 * length ds - 1)"
      proof -
        assume neg: "\<not> sign z"
        have "length (digits z) = s1 + length ds" "0 < length ds" using k ne by (simp_all add: ds_def)
        then have "16 * length (digits z) - 1 = 16 * length ds - 1 + 16 * s1" by linarith
        then show ?thesis
          using comp_form_bounds[OF z(2) neg order_refl] neg_shift_bounds by (simp add: n bit_below)
      qed
      show ?thesis
        unfolding body using shr_sval[OF s2 ne, of "sign z"] sv ne top
        by (intro bit_finish) (simp_all add: pow)
    qed
  qed
qed

text \<open>
  A right shift of a negative number by exactly its digits, \<open>16 * s1\<close> to \<open>16 * s1 + 15\<close> places,
  when the two's complement needs no digit more: the result has no digits, and \<open>get2comp\<close> reads
  its first one.
\<close>

definition shifts_all_out :: "rbignum \<Rightarrow> int \<Rightarrow> bool" where
  "shifts_all_out x n \<longleftrightarrow> \<not> sign x \<and> nat n div 16 = length (digits x) \<and>
     - (2 ^ (16 * length (digits x) - 1)) \<le> big_val x"

text \<open>What a shift by \<open>m\<close> places to the left, or \<open>- m\<close> to the right, has to give.\<close>

definition shifted :: "rbignum \<Rightarrow> int \<Rightarrow> value outcome \<Rightarrow> bool" where
  "shifted x m r \<longleftrightarrow>
     (if 0 \<le> m then int_result r (big_val x * 2 ^ nat m)
      else if shifts_all_out x (- m) then r = Inl Undefined
      else int_result r (big_val x div 2 ^ nat (- m)))"

lemma bit_operand_length:
  assumes "big_ok x" "\<not> sign x"
  shows "\<exists>z. bit_operand x = Inr z \<and> \<not> sign z \<and>
    (length (digits z) = length (digits x) \<longleftrightarrow> - (2 ^ (16 * length (digits x) - 1)) \<le> big_val x)"
proof -
  have ne: "digits x \<noteq> []" using assms(1) by (simp add: big_ok_def)
  have "\<not> 0 \<le> big_val x" using assms big_ok_sign by blast
  then have "0 < digs_val (digits x)" using assms(2) by (simp add: big_val_def)
  then obtain ds where ds: "length ds = length (digits x)"
    "digs_val ds = 65536 ^ length (digits x) - digs_val (digits x)"
    "get2comp x True = Inr (if last ds AND 32768 = 0 then (x\<lparr>digits := ds @ [NOT 0]\<rparr>, True) else (x\<lparr>digits := ds\<rparr>, False))"
    using get2comp_plain[OF ne] by blast
  have dne: "ds \<noteq> []" using ds(1) ne by auto
  have p: "(65536::int) ^ length (digits x) = 2 * 2 ^ (16 * length (digits x) - 1)"
    using half_power[of "length (digits x)"] ne by simp
  have "last ds AND 32768 = 0 \<longleftrightarrow> \<not> - (2 ^ (16 * length (digits x) - 1)) \<le> big_val x"
    using top_clear_iff[OF dne] ds(1,2) p assms(2) by (auto simp: big_val_def)
  then show ?thesis
    using ds assms(2) by (simp add: bit_operand_def rb_big_2comp_def)
qed

lemma rshift_all_out:
  assumes "big_ok x" "0 \<le> n" "shifts_all_out x n"
  shows "rshift_body x n = Inl Undefined"
proof -
  have s1: "nat (c_quot n 16) = length (digits x)" and neg: "\<not> sign x"
    using assms(2,3) by (simp_all add: shifts_all_out_def c_quot_nonneg nat_div_distrib)
  obtain z where z: "bit_operand x = Inr z" "\<not> sign z" "length (digits z) = length (digits x)"
    using bit_operand_length[OF assms(1) neg] assms(3) by (auto simp: shifts_all_out_def)
  show ?thesis
    by (simp add: rshift_body_def Let_def s1 z bit_result_def get2comp_def)
qed

lemma shift_directions:
  assumes "big_ok x" "0 \<le> n"
  shows "shifted x n (Inr (lshift_body x n))" "shifted x (- n) (rshift_body x n)"
proof -
  show "shifted x n (Inr (lshift_body x n))"
    using lshift_body_correct[OF assms(2)] assms(2) by (simp add: shifted_def)
  show "shifted x (- n) (rshift_body x n)"
  proof (cases "0 < n \<and> shifts_all_out x n")
    case True
    then show ?thesis using rshift_all_out[OF assms] by (simp add: shifted_def)
  next
    case False
    have ne: "digits x \<noteq> []" using assms(1) by (simp add: big_ok_def)
    have "int_result (rshift_body x n) (big_val x div 2 ^ nat n)"
      using rshift_body_correct[OF big_ok_op[OF assms(1)] big_ok_sign[OF assms(1)] assms(2)] False ne
      by (cases "n = 0") (auto simp: shifts_all_out_def)
    then show ?thesis using False assms(2) by (cases "n = 0") (simp_all add: shifted_def)
  qed
qed

lemma shift_unfold:
  assumes "NUM2INT y = Inr n"
  shows "0 \<le> n \<Longrightarrow> rb_big_lshift fuel x y = Some (Inr (lshift_body x n))"
    and "0 \<le> n \<Longrightarrow> rb_big_rshift fuel x y = Some (rshift_body x n)"
    and "n < 0 \<Longrightarrow> rb_big_lshift (Suc fuel) x y = rb_big_rshift fuel x (LONG2FIX (- n))"
    and "n < 0 \<Longrightarrow> rb_big_rshift (Suc fuel) x y = rb_big_lshift fuel x (LONG2FIX (- n))"
    and "n < 0 \<Longrightarrow> rb_big_lshift 0 x y = None" "n < 0 \<Longrightarrow> rb_big_rshift 0 x y = None"
  using assms by (simp_all add: rb_big_lshift.simps[of fuel] rb_big_rshift.simps[of fuel]
      rb_big_lshift.simps[of "Suc fuel"] rb_big_rshift.simps[of "Suc fuel"]
      rb_big_lshift.simps[of 0] rb_big_rshift.simps[of 0])

lemma NUM2INT_Fixnum: "NUM2INT (Fixnum n) = Inr n"
  by (simp add: NUM2INT_def)

lemma LONG2FIX_wrap:
  "- 1073741824 < n \<Longrightarrow> n < 1073741824 \<Longrightarrow> LONG2FIX (- n) = Fixnum (- n)"
  "- 2147483648 \<le> n \<Longrightarrow> n \<le> - 1073741824 \<Longrightarrow> LONG2FIX (- n) = Fixnum (- n - 2147483648)"
proof -
  show "LONG2FIX (- n) = Fixnum (- n)" if "- 1073741824 < n" "n < 1073741824"
    using that by (intro LONG2FIX_id) (simp add: fixable_defs)
  assume n: "- 2147483648 \<le> n" "n \<le> - 1073741824"
  have "(- n + 1073741824) mod 2147483648 = (- n - 1073741824 + 2147483648) mod 2147483648"
    by simp
  also have "\<dots> = (- n - 1073741824) mod 2147483648" by (rule mod_add_self2)
  also have "\<dots> = - n - 1073741824" using n by (intro mod_pos_pos_trivial) linarith+
  finally show "LONG2FIX (- n) = Fixnum (- n - 2147483648)" by (simp add: LONG2FIX_def)
qed

lemma shift_never:
  "rb_big_lshift fuel x (Fixnum (- 1073741824)) = None \<and> rb_big_rshift fuel x (Fixnum (- 1073741824)) = None"
proof (induction fuel)
  case 0
  show ?case using shift_unfold(5,6)[OF NUM2INT_Fixnum] by simp
next
  case (Suc fuel)
  then show ?case using shift_unfold(3,4)[OF NUM2INT_Fixnum] LONG2FIX_wrap(2)[of "- 1073741824"] by simp
qed

lemma shift_fuel:
  assumes "big_ok x" "NUM2INT y = Inr n" "- 2147483648 \<le> n" "n < 2147483648" "n \<noteq> - 1073741824"
  defines "m \<equiv> if n < - 1073741824 then n + 2147483648 else n"
  shows "\<exists>r r'. (\<forall>fuel. rb_big_lshift (Suc (Suc fuel)) x y = Some r \<and> rb_big_rshift (Suc (Suc fuel)) x y = Some r') \<and>
    shifted x m r \<and> shifted x (- m) r'"
proof -
  note su = shift_unfold[OF assms(2)]
  consider (pos) "0 \<le> n" | (neg) "- 1073741824 < n" "n < 0" | (far) "n < - 1073741824" "n + 2147483648 \<noteq> 0"
    | (least) "n = - 2147483648" using assms(5) by linarith
  then show ?thesis
  proof cases
    case pos
    then show ?thesis using su(1,2) shift_directions[OF assms(1) pos] by (auto simp: m_def)
  next
    case neg
    have "LONG2FIX (- n) = Fixnum (- n)" using neg by (intro LONG2FIX_wrap) simp_all
    then show ?thesis
      using neg su(3,4) shift_unfold(1,2)[OF NUM2INT_Fixnum, of "- n"] shift_directions[OF assms(1), of "- n"]
      by (auto simp: m_def)
  next
    case far
    define k where "k = n + 2147483648"
    have k: "0 < k" "k < 1073741824" using far assms(3) by (simp_all add: k_def)
    have "LONG2FIX (- n) = Fixnum (- k)" "LONG2FIX (- (- k)) = Fixnum k"
      using far assms(3) k LONG2FIX_wrap(1)[of "- k"] LONG2FIX_wrap(2)[of n] by (simp_all add: k_def)
    then show ?thesis
      using far k su(3,4) shift_unfold(3,4)[OF NUM2INT_Fixnum, of "- k"]
        shift_unfold(1,2)[OF NUM2INT_Fixnum, of k] shift_directions[OF assms(1), of k]
      by (auto simp: m_def k_def[symmetric])
  next
    case least
    have "LONG2FIX (- n) = Fixnum 0" using least LONG2FIX_wrap(2)[of n] by simp
    then show ?thesis
      using least su(3,4) shift_unfold(1,2)[OF NUM2INT_Fixnum, of 0] shift_directions[OF assms(1), of 0]
      by (auto simp: m_def)
  qed
qed

text \<open>
  C11. \<open><<\<close> and \<open>>>\<close> of a \<open>Bignum\<close> by every integer object \<open>n\<close>. A count that is no 32-bit integer
  raises \<open>RangeError\<close>; for \<open>n = -2^30\<close> neither method ever returns. Otherwise both return, after at
  most two changes of direction: the canonical object of the number multiplied by the power
  of two, or the floored quotient by it, where counts below \<open>-2^30\<close> are taken modulo \<open>2^31\<close>, so that
  the shift goes the wrong way, and where a right shift that moves all digits of a negative number out
  fails, unless its two's complement needs another digit.
\<close>

theorem big_shift_correct:
  assumes "big_ok x" "value_ok y" "int_val y = Some n"
  shows "if n < - 2147483648 \<or> 2147483648 \<le> n then
      \<forall>fuel. rb_big_lshift fuel x y = Some (Inl RangeError) \<and> rb_big_rshift fuel x y = Some (Inl RangeError)
    else if n = - 1073741824 then \<forall>fuel. rb_big_lshift fuel x y = None \<and> rb_big_rshift fuel x y = None
    else let m = (if n < - 1073741824 then n + 2147483648 else n) in
      \<exists>r r'. (\<forall>fuel. rb_big_lshift (Suc (Suc fuel)) x y = Some r \<and> rb_big_rshift (Suc (Suc fuel)) x y = Some r') \<and>
        shifted x m r \<and> shifted x (- m) r'"
proof -
  have num: "NUM2INT y = (if - 2147483648 \<le> n \<and> n < 2147483648 then Inr n else Inl RangeError)"
    using assms(2,3) big2long_cases[OF big_ok_op] by (cases y) (auto simp: NUM2INT_def fixable_defs)
  have "rb_big_lshift fuel x y = Some (Inl RangeError) \<and> rb_big_rshift fuel x y = Some (Inl RangeError)"
    if "n < - 2147483648 \<or> 2147483648 \<le> n" for fuel
    using that num by (auto simp: rb_big_lshift.simps[of fuel] rb_big_rshift.simps[of fuel])
  moreover have "y = Fixnum n" if "n = - 1073741824"
    using that assms(2,3) by (cases y) (auto simp: big_ok_def fixable_defs)
  ultimately show ?thesis
    using num shift_never shift_fuel[OF assms(1), of y n] by (auto simp: Let_def)
qed

theorem big_shift_correct_witness:
  "(\<exists>r. rb_big_lshift (Suc (Suc 0)) \<lparr>sign = False, digits = [1, 0, 1]\<rparr> (Fixnum (- 20)) = Some r \<and> int_result r (- 4097)) \<and>
   rb_big_rshift (Suc (Suc 0)) \<lparr>sign = False, digits = [0, 32768]\<rparr> (Fixnum 32) = Some (Inl Undefined)"
proof
  show "\<exists>r. rb_big_lshift (Suc (Suc 0)) \<lparr>sign = False, digits = [1, 0, 1]\<rparr> (Fixnum (- 20)) = Some r \<and> int_result r (- 4097)"
    using big_shift_correct[of "\<lparr>sign = False, digits = [1, 0, 1]\<rparr>" "Fixnum (- 20)" "- 20"]
    by (auto simp: big_ok_def big_val_def fixable_defs shifted_def shifts_all_out_def Let_def)
  show "rb_big_rshift (Suc (Suc 0)) \<lparr>sign = False, digits = [0, 32768]\<rparr> (Fixnum 32) = Some (Inl Undefined)"
    using big_shift_correct[of "\<lparr>sign = False, digits = [0, 32768]\<rparr>" "Fixnum 32" "32"]
    by (auto simp: big_ok_def big_val_def fixable_defs shifted_def shifts_all_out_def Let_def)
qed

text \<open>
  In particular, a shift by the smallest fixnum never returns, since its negation does not fit
  into a fixnum, and a right shift of \<open>-2147483648\<close> by 32 reads the first digit of a number without
  digits.
\<close>

theorem big_shift_faults:
  "(\<forall>fuel. rb_big_lshift fuel x (Fixnum FIXNUM_MIN) = None \<and> rb_big_rshift fuel x (Fixnum FIXNUM_MIN) = None) \<and>
   rb_big_rshift 0 \<lparr>sign = False, digits = [0, 32768]\<rparr> (Fixnum 32) = Some (Inl Undefined)"
proof
  show "\<forall>fuel. rb_big_lshift fuel x (Fixnum FIXNUM_MIN) = None \<and> rb_big_rshift fuel x (Fixnum FIXNUM_MIN) = None"
    using shift_never by (simp add: FIXNUM_MIN_def)
  show "rb_big_rshift 0 \<lparr>sign = False, digits = [0, 32768]\<rparr> (Fixnum 32) = Some (Inl Undefined)"
    by code_simp
qed

lemma sval_bit:
  "i < length ds \<Longrightarrow> k < 16 \<Longrightarrow> bit (sval s ds) (16 * i + k) \<longleftrightarrow> bit (ds ! i) k"
proof (induction ds arbitrary: i)
  case (Cons d ds)
  then show ?case by (cases i) (simp_all add: bit_digit)
qed simp

lemma bit_beyond:
  assumes "digs_val (digits x) < 2 ^ k" "sign x \<longleftrightarrow> 0 \<le> big_val x"
  shows "bit (big_val x) k \<longleftrightarrow> \<not> sign x"
  using small_div[OF assms] by (simp add: bit_iff_odd)

text \<open>\<open>x[n]\<close> is bit \<open>n\<close> of the two's complement representation, and 0 for a negative \<open>n\<close>.\<close>

theorem big_aref_correct:
  assumes "big_ok x"
  shows "rb_big_aref x (Fixnum n) = Inr (Fixnum (of_bool (0 \<le> n \<and> bit (big_val x) (nat n))))"
proof (cases "0 \<le> n")
  case False
  then show ?thesis by (simp add: rb_big_aref_def NUM2INT_def Let_def)
next
  case True
  define s1 s2 where "s1 = nat (c_quot n 16)" and "s2 = nat (c_rem n 16)"
  have s: "s1 = nat n div 16" "s2 = nat n mod 16"
    using True by (simp_all add: s1_def s2_def c_quot_nonneg c_rem_nonneg nat_div_distrib nat_mod_distrib)
  then have s2: "s2 < 16" and n: "nat n = 16 * s1 + s2" by auto
  note sg = big_ok_sign[OF assms]
  show ?thesis
  proof (cases "length (digits x) \<le> s1")
    case long: True
    have "digs_val (digits x) < 2 ^ nat n"
    proof -
      have "(65536::int) ^ length (digits x) \<le> 2 ^ nat n" by (simp add: power_65536 n long trans_le_add1)
      then show ?thesis using digs_val_less[of "digits x"] by linarith
    qed
    from bit_beyond[OF this sg] show ?thesis
      using True long by (simp add: rb_big_aref_def NUM2INT_def Let_def s1_def[symmetric])
  next
    case False
    obtain z where z: "bit_operand x = Inr z" "comp_form z (big_val x)" "length (digits x) \<le> length (digits z)"
      using bit_operand_correct[OF big_ok_op[OF assms] sg] by blast
    have "bit (big_val x) (nat n) \<longleftrightarrow> bit (digits z ! s1) s2"
      using sval_bit[of s1 "digits z" s2 "sign z"] False z(2,3) s2 n by (simp add: comp_form_def)
    then show ?thesis
      using True False z(1)
      by (simp add: rb_big_aref_def NUM2INT_def Let_def s1_def[symmetric] s2_def[symmetric] and_exp_eq_0_iff_not_bit)
  qed
qed

theorem big_aref_correct_witness:
  "rb_big_aref \<lparr>sign = False, digits = [0, 0, 1]\<rparr> (Fixnum 40) = Inr (Fixnum 1)"
  using big_aref_correct[of "\<lparr>sign = False, digits = [0, 0, 1]\<rparr>" 40]
  by (simp add: big_ok_def big_val_def fixable_defs bit_iff_odd)

end
