(* ===== verification/Numeric.thy ===== *)
theory Numeric
  imports Bignum_Bits
begin

unbundle bit_operations_syntax

text \<open>
  The integer methods of \<^verbatim>\<open>src/ruby/numeric.c\<close> and \<^verbatim>\<open>src/ruby/compar.c\<close>: fixnum arithmetic with its
  overflow tests and the hand-over to \<^verbatim>\<open>bignum.c\<close>, coercion between the two representations, the
  \<open>Comparable\<close> relations and the counting loops. A fixnum receiver is the \<open>long\<close> it holds.
\<close>

section \<open>Coercion\<close>

abbreviation LONG2NUM :: "int \<Rightarrow> value" where
  "LONG2NUM \<equiv> rb_int2inum"

text \<open>
  \<open>rb_num_coerce_bin\<close> of a fixnum: a \<open>Bignum\<close> answers \<open>coerce\<close> with \<open>rb_big_coerce\<close>, and the method of
  the caller is then sent to the widened receiver, whose class is \<open>Bignum\<close>. Every other operand is
  answered by Ruby-level or floating point code.
\<close>

definition rb_num_coerce_bin :: "(rbignum \<Rightarrow> value \<Rightarrow> 'a outcome) \<Rightarrow> int \<Rightarrow> value \<Rightarrow> 'a outcome" where
  "rb_num_coerce_bin func x y =
     (case y of
        Bignum b \<Rightarrow> obind (rb_big_coerce b (Fixnum x)) (\<lambda>(x, y). func x (Bignum y))
      | Flo _ \<Rightarrow> raise Float_path
      | _ \<Rightarrow> raise Coerce)"

section \<open>Fixnum arithmetic\<close>

definition fix_plus :: "int \<Rightarrow> value \<Rightarrow> value outcome" where
  "fix_plus a y =
     (case y of
        Fixnum b \<Rightarrow>
          (let c = s32 (a + b); r = LONG2FIX c in
           if r \<noteq> Fixnum c then rb_big_plus (rb_int2big a) (Bignum (rb_int2big b)) else return r)
      | _ \<Rightarrow> rb_num_coerce_bin rb_big_plus a y)"

definition fix_minus :: "int \<Rightarrow> value \<Rightarrow> value outcome" where
  "fix_minus a y =
     (case y of
        Fixnum b \<Rightarrow>
          (let c = s32 (a - b); r = LONG2FIX c in
           if r \<noteq> Fixnum c then rb_big_minus (rb_int2big a) (Bignum (rb_int2big b)) else return r)
      | _ \<Rightarrow> rb_num_coerce_bin rb_big_minus a y)"

definition fix_mul :: "int \<Rightarrow> value \<Rightarrow> value outcome" where
  "fix_mul a y =
     (case y of
        Fixnum b \<Rightarrow>
          if a = 0 then return (Fixnum a)
          else
            (let c = s32 (a * b); r = LONG2FIX c in
             if r \<noteq> Fixnum c \<or> c_quot c a \<noteq> b then
               rb_big_mul (Bignum (rb_int2big a)) (Bignum (rb_int2big b))
             else return r)
      | _ \<Rightarrow> rb_num_coerce_bin (\<lambda>x. rb_big_mul (Bignum x)) a y)"

definition fixdivmod :: "int \<Rightarrow> int \<Rightarrow> (int \<times> int) outcome" where
  "fixdivmod x y =
     (if y = 0 then raise ZeroDivError
      else
        (let d = (if y < 0 then
                      (if x < 0 then c_quot (s32 (- x)) (s32 (- y)) else s32 (- c_quot x (s32 (- y))))
                    else
                      (if x < 0 then s32 (- c_quot (s32 (- x)) y) else c_quot x y));
             m = s32 (x - s32 (d * y))
         in if m < 0 \<and> 0 < y \<or> 0 < m \<and> y < 0 then return (d - 1, m + y) else return (d, m)))"

definition fix_div :: "int \<Rightarrow> value \<Rightarrow> value outcome" where
  "fix_div a y =
     (case y of
        Fixnum b \<Rightarrow> obind (fixdivmod a b) (\<lambda>(d, m). return (LONG2NUM d))
      | _ \<Rightarrow> rb_num_coerce_bin rb_big_div a y)"

definition fix_mod :: "int \<Rightarrow> value \<Rightarrow> value outcome" where
  "fix_mod a y =
     (case y of
        Fixnum b \<Rightarrow> obind (fixdivmod a b) (\<lambda>(d, m). return (LONG2NUM m))
      | _ \<Rightarrow> rb_num_coerce_bin rb_big_modulo a y)"

definition fix_divmod :: "int \<Rightarrow> value \<Rightarrow> (value \<times> value) outcome" where
  "fix_divmod a y =
     (case y of
        Fixnum b \<Rightarrow> obind (fixdivmod a b) (\<lambda>(d, m). return (LONG2NUM d, LONG2NUM m))
      | _ \<Rightarrow> rb_num_coerce_bin rb_big_divmod a y)"

definition fix_pow :: "int \<Rightarrow> value \<Rightarrow> value outcome" where
  "fix_pow a y =
     (case y of
        Fixnum b \<Rightarrow>
          if b = 0 then return (Fixnum 1)
          else if b = 1 then return (Fixnum a)
          else if 0 < b then rb_big_pow (Bignum (rb_int2big a)) y
          else raise Float_path
      | _ \<Rightarrow> rb_num_coerce_bin (\<lambda>x. rb_big_pow (Bignum x)) a y)"

definition fix_uminus :: "int \<Rightarrow> value" where
  "fix_uminus a = LONG2NUM (s32 (- a))"

definition fix_abs :: "int \<Rightarrow> value" where
  "fix_abs i = LONG2NUM (if i < 0 then s32 (- i) else i)"

definition int_succ :: "int \<Rightarrow> value" where
  "int_succ a = LONG2NUM (s32 (a + 1))"

section \<open>Comparison\<close>

definition fix_equal :: "int \<Rightarrow> value \<Rightarrow> bool outcome" where
  "fix_equal a y =
     (case y of
        Fixnum b \<Rightarrow> return (a = b)
      | Bignum b \<Rightarrow> rb_big_eq b (Fixnum a)
      | Flo _ \<Rightarrow> raise Float_path
      | Obj _ \<Rightarrow> raise Coerce)"

definition fix_cmp :: "int \<Rightarrow> value \<Rightarrow> int outcome" where
  "fix_cmp a y =
     (case y of
        Fixnum b \<Rightarrow> return (if a = b then 0 else if b < a then 1 else -1)
      | _ \<Rightarrow> rb_num_coerce_bin rb_big_cmp a y)"

text \<open>
  \<open>Comparable\<close> rests on whatever \<open><=>\<close> the class of the receiver has; \<open>None\<close> stands for \<open>nil\<close>.
\<close>

definition rb_cmpint :: "value option \<Rightarrow> int outcome" where
  "rb_cmpint v =
     (case v of
        None \<Rightarrow> raise ArgError
      | Some (Fixnum n) \<Rightarrow> return n
      | Some (Bignum b) \<Rightarrow> return (if sign b then 1 else -1)
      | Some _ \<Rightarrow> raise Coerce)"

definition cmp_gt :: "('a \<Rightarrow> 'a \<Rightarrow> value option outcome) \<Rightarrow> 'a \<Rightarrow> 'a \<Rightarrow> bool outcome" where
  "cmp_gt cmp x y = obind (cmp x y) (\<lambda>c. obind (rb_cmpint c) (\<lambda>n. return (0 < n)))"

definition cmp_ge :: "('a \<Rightarrow> 'a \<Rightarrow> value option outcome) \<Rightarrow> 'a \<Rightarrow> 'a \<Rightarrow> bool outcome" where
  "cmp_ge cmp x y = obind (cmp x y) (\<lambda>c. obind (rb_cmpint c) (\<lambda>n. return (0 \<le> n)))"

definition cmp_lt :: "('a \<Rightarrow> 'a \<Rightarrow> value option outcome) \<Rightarrow> 'a \<Rightarrow> 'a \<Rightarrow> bool outcome" where
  "cmp_lt cmp x y = obind (cmp x y) (\<lambda>c. obind (rb_cmpint c) (\<lambda>n. return (n < 0)))"

definition cmp_le :: "('a \<Rightarrow> 'a \<Rightarrow> value option outcome) \<Rightarrow> 'a \<Rightarrow> 'a \<Rightarrow> bool outcome" where
  "cmp_le cmp x y = obind (cmp x y) (\<lambda>c. obind (rb_cmpint c) (\<lambda>n. return (n \<le> 0)))"

definition cmp_between :: "('a \<Rightarrow> 'a \<Rightarrow> value option outcome) \<Rightarrow> 'a \<Rightarrow> 'a \<Rightarrow> 'a \<Rightarrow> bool outcome" where
  "cmp_between cmp x lo hi =
     obind (cmp_lt cmp x lo) (\<lambda>b. if b then return False
       else obind (cmp_gt cmp x hi) (\<lambda>b. return (\<not> b)))"

text \<open>The relations a \<open>Bignum\<close> receiver has from \<open>Comparable\<close>.\<close>

definition big_ufo :: "value \<Rightarrow> value \<Rightarrow> value option outcome" where
  "big_ufo x y =
     (case x of Bignum b \<Rightarrow> obind (rb_big_cmp b y) (\<lambda>c. return (Some (Fixnum c))) | _ \<Rightarrow> raise Undefined)"

definition fix_gt :: "int \<Rightarrow> value \<Rightarrow> bool outcome" where
  "fix_gt a y =
     (case y of Fixnum b \<Rightarrow> return (b < a) | _ \<Rightarrow> rb_num_coerce_bin (\<lambda>x. cmp_gt big_ufo (Bignum x)) a y)"

definition fix_ge :: "int \<Rightarrow> value \<Rightarrow> bool outcome" where
  "fix_ge a y =
     (case y of Fixnum b \<Rightarrow> return (b \<le> a) | _ \<Rightarrow> rb_num_coerce_bin (\<lambda>x. cmp_ge big_ufo (Bignum x)) a y)"

definition fix_lt :: "int \<Rightarrow> value \<Rightarrow> bool outcome" where
  "fix_lt a y =
     (case y of Fixnum b \<Rightarrow> return (a < b) | _ \<Rightarrow> rb_num_coerce_bin (\<lambda>x. cmp_lt big_ufo (Bignum x)) a y)"

definition fix_le :: "int \<Rightarrow> value \<Rightarrow> bool outcome" where
  "fix_le a y =
     (case y of Fixnum b \<Rightarrow> return (a \<le> b) | _ \<Rightarrow> rb_num_coerce_bin (\<lambda>x. cmp_le big_ufo (Bignum x)) a y)"

section \<open>Bits\<close>

definition fix_rev :: "int \<Rightarrow> value" where
  "fix_rev a = LONG2NUM (NOT a)"

definition fix_and :: "int \<Rightarrow> value \<Rightarrow> value outcome" where
  "fix_and a y =
     (case y of Bignum b \<Rightarrow> rb_big_and b (Fixnum a)
      | _ \<Rightarrow> obind (NUM2INT y) (\<lambda>n. return (LONG2NUM (a AND n))))"

definition fix_or :: "int \<Rightarrow> value \<Rightarrow> value outcome" where
  "fix_or a y =
     (case y of Bignum b \<Rightarrow> rb_big_or b (Fixnum a)
      | _ \<Rightarrow> obind (NUM2INT y) (\<lambda>n. return (LONG2NUM (a OR n))))"

definition fix_xor :: "int \<Rightarrow> value \<Rightarrow> value outcome" where
  "fix_xor a y =
     (case y of Bignum b \<Rightarrow> rb_big_xor b (Fixnum a)
      | _ \<Rightarrow> obind (NUM2INT y) (\<lambda>n. return (LONG2NUM (a XOR n))))"

text \<open>
  As in \<^verbatim>\<open>bignum.c\<close> the shifts call each other for a negative count, which \<open>fuel\<close> bounds. The second
  test of \<open>fix_lshift\<close> is on the unsigned value, so a negative fixnum always takes the \<open>Bignum\<close> path.
\<close>

fun fix_lshift :: "nat \<Rightarrow> int \<Rightarrow> value \<Rightarrow> value outcome option"
and fix_rshift :: "nat \<Rightarrow> int \<Rightarrow> value \<Rightarrow> value outcome option" where
  "fix_lshift fuel val y =
     (case NUM2INT y of
        Inl e \<Rightarrow> Some (raise e)
      | Inr width \<Rightarrow>
          if width < 0 then (case fuel of 0 \<Rightarrow> None | Suc n \<Rightarrow> fix_rshift n val (LONG2FIX (- width)))
          else if 31 < width \<or> 0 < drop_bit (nat (31 - width)) (u32 val) then
            rb_big_lshift fuel (rb_int2big val) y
          else Some (return (LONG2NUM (s32 (push_bit (nat width) val)))))"
| "fix_rshift fuel val y =
     (case NUM2INT y of
        Inl e \<Rightarrow> Some (raise e)
      | Inr i \<Rightarrow>
          if i < 0 then (case fuel of 0 \<Rightarrow> None | Suc n \<Rightarrow> fix_lshift n val (LONG2FIX (- i)))
          else if i = 0 then Some (return (Fixnum val))
          else if 31 \<le> i then Some (return (if val < 0 then Fixnum (-1) else Fixnum 0))
          else Some (return (LONG2FIX (drop_bit (nat i) val))))"

declare fix_lshift.simps [simp del] fix_rshift.simps [simp del]

definition fix_aref :: "int \<Rightarrow> value \<Rightarrow> value outcome" where
  "fix_aref val idx =
     (case (case idx of Bignum _ \<Rightarrow> bignorm idx | _ \<Rightarrow> idx) of
        Bignum b \<Rightarrow> return (if \<not> sign b \<or> 0 \<le> val then Fixnum 0 else Fixnum 1)
      | idx \<Rightarrow>
          obind (NUM2INT idx) (\<lambda>i.
            if i < 0 then return (Fixnum 0)
            else if 31 < i then return (if val < 0 then Fixnum 1 else Fixnum 0)
            else return (if val AND s32 (push_bit (nat i) 1) \<noteq> 0 then Fixnum 1 else Fixnum 0)))"

section \<open>Dispatch\<close>

text \<open>The method an integer receiver has for each operator, as \<open>Init_Numeric\<close> and \<open>Init_Bignum\<close> define them.\<close>

definition int_plus :: "value \<Rightarrow> value \<Rightarrow> value outcome" where
  "int_plus x y = (case x of Fixnum a \<Rightarrow> fix_plus a y | Bignum b \<Rightarrow> rb_big_plus b y | _ \<Rightarrow> raise Undefined)"

definition int_minus :: "value \<Rightarrow> value \<Rightarrow> value outcome" where
  "int_minus x y = (case x of Fixnum a \<Rightarrow> fix_minus a y | Bignum b \<Rightarrow> rb_big_minus b y | _ \<Rightarrow> raise Undefined)"

definition int_mul :: "value \<Rightarrow> value \<Rightarrow> value outcome" where
  "int_mul x y = (case x of Fixnum a \<Rightarrow> fix_mul a y | Bignum _ \<Rightarrow> rb_big_mul x y | _ \<Rightarrow> raise Undefined)"

definition int_div :: "value \<Rightarrow> value \<Rightarrow> value outcome" where
  "int_div x y = (case x of Fixnum a \<Rightarrow> fix_div a y | Bignum b \<Rightarrow> rb_big_div b y | _ \<Rightarrow> raise Undefined)"

definition int_modulo :: "value \<Rightarrow> value \<Rightarrow> value outcome" where
  "int_modulo x y = (case x of Fixnum a \<Rightarrow> fix_mod a y | Bignum b \<Rightarrow> rb_big_modulo b y | _ \<Rightarrow> raise Undefined)"

definition int_ufo :: "value \<Rightarrow> value \<Rightarrow> value option outcome" where
  "int_ufo x y =
     (case x of
        Fixnum a \<Rightarrow> obind (fix_cmp a y) (\<lambda>c. return (Some (Fixnum c)))
      | _ \<Rightarrow> big_ufo x y)"

definition int_gt :: "value \<Rightarrow> value \<Rightarrow> bool outcome" where
  "int_gt x y = (case x of Fixnum a \<Rightarrow> fix_gt a y | Bignum _ \<Rightarrow> cmp_gt big_ufo x y | _ \<Rightarrow> raise Undefined)"

definition int_lt :: "value \<Rightarrow> value \<Rightarrow> bool outcome" where
  "int_lt x y = (case x of Fixnum a \<Rightarrow> fix_lt a y | Bignum _ \<Rightarrow> cmp_lt big_ufo x y | _ \<Rightarrow> raise Undefined)"

section \<open>Counting loops\<close>

text \<open>The values yielded, in order. The \<open>Bignum\<close> form of a loop runs on \<open>fuel\<close>.\<close>

function upto_fix :: "int \<Rightarrow> int \<Rightarrow> value list" where
  "upto_fix i e = (if i \<le> e then LONG2FIX i # upto_fix (i + 1) e else [])"
  by pat_completeness auto
termination by (relation "measure (\<lambda>(i, e). nat (e - i + 1))") auto

function downto_fix :: "int \<Rightarrow> int \<Rightarrow> value list" where
  "downto_fix i e = (if e \<le> i then LONG2FIX i # downto_fix (i - 1) e else [])"
  by pat_completeness auto
termination by (relation "measure (\<lambda>(i, e). nat (i - e + 1))") auto

fun count_big :: "(value \<Rightarrow> value \<Rightarrow> bool outcome) \<Rightarrow> (value \<Rightarrow> value \<Rightarrow> value outcome) \<Rightarrow>
    nat \<Rightarrow> value \<Rightarrow> value \<Rightarrow> value list outcome option" where
  "count_big past step fuel i to =
     (case fuel of
        0 \<Rightarrow> None
      | Suc n \<Rightarrow>
          (case past i to of
             Inl e \<Rightarrow> Some (raise e)
           | Inr True \<Rightarrow> Some (return [])
           | Inr False \<Rightarrow>
               (case step i (Fixnum 1) of
                  Inl e \<Rightarrow> Some (raise e)
                | Inr i' \<Rightarrow>
                    (case count_big past step n i' to of
                       None \<Rightarrow> None
                     | Some r \<Rightarrow> Some (obind r (\<lambda>vs. return (i # vs)))))))"

declare upto_fix.simps [simp del] downto_fix.simps [simp del] count_big.simps [simp del]

definition int_upto :: "nat \<Rightarrow> value \<Rightarrow> value \<Rightarrow> value list outcome option" where
  "int_upto fuel from to =
     (case (from, to) of
        (Fixnum a, Fixnum b) \<Rightarrow> Some (return (upto_fix a b))
      | _ \<Rightarrow> count_big int_gt int_plus fuel from to)"

definition int_downto :: "nat \<Rightarrow> value \<Rightarrow> value \<Rightarrow> value list outcome option" where
  "int_downto fuel from to =
     (case (from, to) of
        (Fixnum a, Fixnum b) \<Rightarrow> Some (return (downto_fix a b))
      | _ \<Rightarrow> count_big int_lt int_minus fuel from to)"

section \<open>Fixnum arithmetic is exact\<close>

lemma int_cases:
  assumes "value_ok x" "int_val x = Some m"
  obtains "x = Fixnum m" "FIXABLE m" | b where "x = Bignum b" "big_ok b" "big_val b = m" "big_op b"
  using assms by (cases x) (auto simp: big_ok_op)

lemma LONG2FIX_eq_iff: "LONG2FIX c = Fixnum c \<longleftrightarrow> FIXABLE c"
proof
  assume "LONG2FIX c = Fixnum c"
  then have "c = (c + 1073741824) mod 2147483648 - 1073741824" by (simp add: LONG2FIX_def)
  moreover have "0 \<le> (c + 1073741824) mod 2147483648" "(c + 1073741824) mod 2147483648 < 2147483648"
    by simp_all
  ultimately show "FIXABLE c" unfolding fixable_defs by linarith
qed (rule LONG2FIX_id)

lemma int_result_fix: "FIXABLE n \<Longrightarrow> int_result (Inr (Fixnum n)) n"
  by (simp add: int_result_def)

lemma LONG2NUM_result:
  assumes "- 2147483648 \<le> n" "n < 2147483648"
  shows "int_result (Inr (LONG2NUM n)) n"
  using rb_int2big_correct[OF assms] big_op_ok[of "rb_int2big n"]
  by (auto simp: rb_int2inum_def LONG2FIX_id int_result_def)

lemma big_operand_Bignum: "big_operand (Bignum b) = Inr b"
  by (simp add: big_operand_def)

lemma fix_big:
  assumes "FIXABLE a"
  shows "big_op (rb_int2big a)" "big_val (rb_int2big a) = a" "sign (rb_int2big a) \<longleftrightarrow> 0 \<le> a"
  using rb_int2big_correct[of a] FIXABLE_long[OF assms] by simp_all

lemma coerce_big [simp]: "rb_num_coerce_bin func a (Bignum b) = func (rb_int2big a) (Bignum b)"
  by (simp add: rb_num_coerce_bin_def rb_big_coerce_def)

lemma fix_plus_correct:
  assumes "FIXABLE a" "value_ok y" "int_val y = Some n"
  shows "int_result (fix_plus a y) (a + n)"
  using assms(2,3)
proof (cases rule: int_cases)
  case 1
  have "s32 (a + n) = a + n" using assms(1) 1(2) by (intro s32_id) (simp_all add: fixable_defs)
  then show ?thesis
    using plus_minus_correct(1)[OF fix_big(1)[OF assms(1)] big_operand_Bignum fix_big(1)[OF 1(2)]]
      fix_big(2)[OF assms(1)] fix_big(2)[OF 1(2)] 1(1)
    by (auto simp: fix_plus_def Let_def LONG2FIX_eq_iff LONG2FIX_id int_result_fix)
next
  case (2 b)
  then show ?thesis
    using plus_minus_correct(1)[OF fix_big(1)[OF assms(1)] big_operand_Bignum 2(4)] fix_big(2)[OF assms(1)]
    by (simp add: fix_plus_def)
qed

lemma fix_minus_correct:
  assumes "FIXABLE a" "value_ok y" "int_val y = Some n"
  shows "int_result (fix_minus a y) (a - n)"
  using assms(2,3)
proof (cases rule: int_cases)
  case 1
  have "s32 (a - n) = a - n" using assms(1) 1(2) by (intro s32_id) (simp_all add: fixable_defs)
  then show ?thesis
    using plus_minus_correct(2)[OF fix_big(1)[OF assms(1)] big_operand_Bignum fix_big(1)[OF 1(2)]]
      fix_big(2)[OF assms(1)] fix_big(2)[OF 1(2)] 1(1)
    by (auto simp: fix_minus_def Let_def LONG2FIX_eq_iff LONG2FIX_id int_result_fix)
next
  case (2 b)
  then show ?thesis
    using plus_minus_correct(2)[OF fix_big(1)[OF assms(1)] big_operand_Bignum 2(4)] fix_big(2)[OF assms(1)]
    by (simp add: fix_minus_def)
qed

text \<open>
  The overflow test of the multiplication: the wrapped product differs from the exact one by a
  multiple of \<open>2^32\<close>, and the division back bounds the difference by the divisor.
\<close>

lemma c_quot_rem: "a = c_quot a b * b + c_rem a b"
  by (simp add: c_rem_def)

lemma c_rem_less: "b \<noteq> 0 \<Longrightarrow> \<bar>c_rem a b\<bar> < \<bar>b\<bar>"
proof -
  assume b: "b \<noteq> 0"
  have "c_rem a b = sgn a * (\<bar>a\<bar> mod \<bar>b\<bar>)"
  proof -
    have "b * (sgn b * x) = \<bar>b\<bar> * x" for x by (simp add: abs_sgn mult.commute mult.left_commute)
    then have "c_rem a b = sgn a * \<bar>a\<bar> - sgn a * (\<bar>b\<bar> * (\<bar>a\<bar> div \<bar>b\<bar>))"
      by (simp add: c_rem_def c_quot_def sgn_mult_abs mult.left_commute)
    then show ?thesis by (simp add: minus_mult_div_eq_mod[symmetric] right_diff_distrib)
  qed
  moreover have "0 \<le> \<bar>a\<bar> mod \<bar>b\<bar>" "\<bar>a\<bar> mod \<bar>b\<bar> < \<bar>b\<bar>" using b by simp_all
  ultimately show ?thesis by (auto simp: abs_mult sgn_if)
qed

lemma mul_overflow_test:
  assumes "FIXABLE a" "FIXABLE c" "a \<noteq> 0" "c = s32 (a * b)" "c_quot c a = b"
  shows "c = a * b"
proof -
  have "\<bar>c - a * b\<bar> < \<bar>a\<bar>"
    using c_rem_less[OF assms(3), of c] assms(5) c_quot_rem[of c a] by (simp add: c_rem_def mult.commute)
  moreover have "\<bar>a\<bar> \<le> 1073741824" using assms(1) unfolding fixable_defs by auto
  moreover have "4294967296 dvd c - a * b"
  proof -
    have "(a * b + 2147483648) mod 4294967296 = a * b + 2147483648 - 4294967296 * ((a * b + 2147483648) div 4294967296)"
      by (simp add: minus_mult_div_eq_mod)
    then have "c - a * b = 4294967296 * (- ((a * b + 2147483648) div 4294967296))"
      using assms(4) by (simp add: s32_def)
    then show ?thesis by (rule dvdI)
  qed
  ultimately have "c - a * b = 0" using zdvd_not_zless[of "\<bar>c - a * b\<bar>" 4294967296] by fastforce
  then show ?thesis by simp
qed

lemma fix_mul_correct:
  assumes "FIXABLE a" "value_ok y" "int_val y = Some n"
  shows "int_result (fix_mul a y) (a * n)"
  using assms(2,3)
proof (cases rule: int_cases)
  case 1
  have big: "int_result (rb_big_mul (Bignum (rb_int2big a)) (Bignum (rb_int2big n))) (a * n)"
    using fix_big(2)[OF assms(1)] fix_big(2)[OF 1(2)] by (intro mul_correct) simp_all
  show ?thesis
  proof (cases "a = 0 \<or> LONG2FIX (s32 (a * n)) \<noteq> Fixnum (s32 (a * n)) \<or> c_quot (s32 (a * n)) a \<noteq> n")
    case True
    then show ?thesis using 1(1) big int_result_fix[of 0] by (auto simp: fix_mul_def Let_def fixable_defs)
  next
    case False
    then have "FIXABLE (s32 (a * n))" by (simp add: LONG2FIX_eq_iff)
    then show ?thesis
      using False 1(1) mul_overflow_test[OF assms(1), of "s32 (a * n)" n] by (simp add: fix_mul_def Let_def LONG2FIX_id int_result_fix)
  qed
next
  case (2 b)
  then show ?thesis
    using fix_big(2)[OF assms(1)] by (auto simp: fix_mul_def intro!: mul_correct)
qed

lemma fixdivmod_parts:
  fixes a b q r x y :: int
  assumes "0 \<le> r" "r < b" "0 \<le> q" "q \<le> a" "a = b * q + r" "a \<le> 1073741824" "b \<le> 1073741824"
    and "c_quot a b = q" "x = (if sx then - a else a)" "y = (if sy then - b else b)"
    and "sx \<Longrightarrow> 0 < a"
  shows "fixdivmod x y =
    (if r = 0 then Inr (if sx = sy then q else - q, 0)
     else if sx = sy then Inr (q, if sx then - r else r)
     else Inr (- q - 1, if sx then b - r else r - b))"
proof -
  define p where "p = b * q"
  have a0: "0 \<le> a" using assms(3,4) by simp
  have p: "a = p + r" "0 \<le> p" "p \<le> 1073741824" using assms(1-7) by (simp_all add: p_def)
  have w: "s32 a = a" "s32 b = b" "s32 (- a) = - a" "s32 (- q) = - q" "s32 p = p" "s32 (- p) = - p" "s32 r = r" "s32 (- r) = - r"
    using assms(1-7) p by (simp_all add: s32_id)
  have m: "q * b = p" "- q * b = - p" "q * - b = - p" "- q * - b = p" by (simp_all add: p_def)
  have "(if y < 0 then (if x < 0 then c_quot (s32 (- x)) (s32 (- y)) else s32 (- c_quot x (s32 (- y))))
      else (if x < 0 then s32 (- c_quot (s32 (- x)) y) else c_quot x y)) = (if sx = sy then q else - q)"
    using assms(1,2,8-11) a0 w by (cases sx; cases sy; simp)
  moreover have "s32 (x - s32 ((if sx = sy then q else - q) * y)) = (if sx then - r else r)"
    using assms(9,10) w m p(1) by (cases sx; cases sy; simp)
  moreover have "y \<noteq> 0" using assms(1,2,10) by auto
  ultimately have "fixdivmod x y =
      (if (if sx then - r else r) < 0 \<and> 0 < y \<or> 0 < (if sx then - r else r) \<and> y < 0
       then Inr ((if sx = sy then q else - q) - 1, (if sx then - r else r) + y)
       else Inr (if sx = sy then q else - q, if sx then - r else r))"
    by (simp only: fixdivmod_def Let_def if_False)
  then show ?thesis using assms(1,2,10) by (cases sx; cases sy; simp)
qed

lemma fixdivmod_correct:
  assumes "FIXABLE x" "FIXABLE y"
  shows "fixdivmod x y = (if y = 0 then Inl ZeroDivError else Inr (x div y, x mod y))"
proof (cases "y = 0")
  case False
  define a b where "a = \<bar>x\<bar>" and "b = \<bar>y\<bar>"
  define q r where "q = a div b" and "r = a mod b"
  have ab: "0 \<le> a" "0 < b" "a \<le> 1073741824" "b \<le> 1073741824"
    using False assms unfolding a_def b_def fixable_defs by auto
  have r: "0 \<le> r" "r < b" and q: "0 \<le> q" "q \<le> a" and aq: "a = b * q + r" and cq: "c_quot a b = q"
    using ab zdiv_mono2[of a 1 b] by (simp_all add: r_def q_def pos_imp_zdiv_nonneg_iff c_quot_nonneg)
  have xy: "x = (if x < 0 then - a else a)" "y = (if y < 0 then - b else b)" "x < 0 \<Longrightarrow> 0 < a"
    by (simp_all add: a_def b_def)
  have same: "- a div - b = q" "- a mod - b = - r" "a div b = q" "a mod b = r"
    by (simp_all add: q_def r_def)
  note fl = floor_signs[OF ab(1,2), folded q_def r_def]
  have "(if sx then - a else a) div (if sy then - b else b) = (if sx = sy then q else if r = 0 then - q else - q - 1) \<and>
    (if sx then - a else a) mod (if sy then - b else b) = (if sx = sy then (if sx then - r else r)
      else if r = 0 then 0 else if sx then b - r else r - b)" for sx sy
    using fl same by (cases sx; cases sy; simp)
  from this[of "x < 0" "y < 0", folded xy(1,2)] show ?thesis
    using False fixdivmod_parts[OF r q aq ab(3,4) cq xy] by auto
qed (simp add: fixdivmod_def)

section \<open>Operations on integer objects\<close>

text \<open>
  The contract of an operator: on canonical objects of either representation it returns the
  canonical object of the operation on integers. What callers rely on follows from it alone.
\<close>

locale integer_op =
  fixes f :: "value \<Rightarrow> value \<Rightarrow> value outcome"
    and g :: "int \<Rightarrow> int \<Rightarrow> int"
  assumes exact: "value_ok x \<Longrightarrow> int_val x = Some m \<Longrightarrow> value_ok y \<Longrightarrow> int_val y = Some n \<Longrightarrow>
    int_result (f x y) (g m n)"
begin

lemma returns:
  assumes "value_ok x" "int_val x = Some m" "value_ok y" "int_val y = Some n"
  obtains v where "f x y = Inr v" "value_ok v" "int_val v = Some (g m n)"
  using exact[OF assms] by (auto simp: int_result_def)

end

locale commutative_op = integer_op +
  assumes op_commute: "g m n = g n m"
    and op_assoc: "g (g m n) k = g m (g n k)"
begin

lemma commutes:
  assumes "value_ok x" "int_val x = Some m" "value_ok y" "int_val y = Some n"
  shows "f x y = f y x"
  using int_result_unique[OF exact[OF assms]] exact[OF assms(3,4,1,2)] op_commute by simp

lemma associates:
  assumes "value_ok x" "int_val x = Some m" "value_ok y" "int_val y = Some n" "value_ok z" "int_val z = Some k"
  shows "obind (f x y) (\<lambda>v. f v z) = obind (f y z) (\<lambda>v. f x v)"
proof -
  obtain u where u: "f x y = Inr u" "value_ok u" "int_val u = Some (g m n)" using returns[OF assms(1-4)] by blast
  obtain w where w: "f y z = Inr w" "value_ok w" "int_val w = Some (g n k)" using returns[OF assms(3-6)] by blast
  have "int_result (f u z) (g m (g n k))" using exact[OF u(2,3) assms(5,6)] op_assoc by simp
  then show ?thesis
    using u(1) w(1) int_result_unique exact[OF assms(1,2) w(2,3)] by simp
qed

end

lemma int_plus_correct:
  assumes "value_ok x" "int_val x = Some m" "value_ok y" "int_val y = Some n"
  shows "int_result (int_plus x y) (m + n)" "int_result (int_minus x y) (m - n)" "int_result (int_mul x y) (m * n)"
proof -
  obtain c where c: "big_operand y = Inr c" "big_val c = n" "big_op c"
    using big_operand_correct[OF assms(3,4)] by blast
  show "int_result (int_plus x y) (m + n)"
    using assms(1,2)
  proof (cases rule: int_cases)
    case 1
    then show ?thesis using fix_plus_correct[OF 1(2) assms(3,4)] by (simp add: int_plus_def)
  next
    case (2 b)
    then show ?thesis using plus_minus_correct(1)[OF 2(4) c(1,3)] c(2) by (simp add: int_plus_def)
  qed
  show "int_result (int_minus x y) (m - n)"
    using assms(1,2)
  proof (cases rule: int_cases)
    case 1
    then show ?thesis using fix_minus_correct[OF 1(2) assms(3,4)] by (simp add: int_minus_def)
  next
    case (2 b)
    then show ?thesis using plus_minus_correct(2)[OF 2(4) c(1,3)] c(2) by (simp add: int_minus_def)
  qed
  show "int_result (int_mul x y) (m * n)"
    using assms(1,2)
  proof (cases rule: int_cases)
    case 1
    then show ?thesis using fix_mul_correct[OF 1(2) assms(3,4)] by (simp add: int_mul_def)
  next
    case (2 b)
    then show ?thesis using mul_correct[of x m y n] int_obj_ok assms by (simp add: int_mul_def)
  qed
qed

interpretation plus_op: commutative_op int_plus "\<lambda>m n. m + n"
  by unfold_locales (auto intro: int_plus_correct)

interpretation minus_op: integer_op int_minus "\<lambda>m n. m - n"
  by unfold_locales (auto intro: int_plus_correct)

interpretation mul_op: commutative_op int_mul "\<lambda>m n. m * n"
  by unfold_locales (auto intro: int_plus_correct)

lemma abs_div_le:
  assumes "n \<noteq> 0"
  shows "\<bar>m div n\<bar> \<le> \<bar>m :: int\<bar>"
proof (rule ccontr)
  assume "\<not> ?thesis"
  then have "\<bar>n\<bar> * (\<bar>m\<bar> + 1) \<le> \<bar>n\<bar> * \<bar>m div n\<bar>" by (intro mult_left_mono) simp_all
  moreover have "\<bar>n\<bar> * \<bar>m div n\<bar> = \<bar>m - m mod n\<bar>"
    by (simp add: abs_mult[symmetric] minus_mod_eq_mult_div)
  moreover have "\<bar>m mod n\<bar> < \<bar>n\<bar>" using assms by (rule abs_mod_less)
  moreover have "1 * \<bar>m\<bar> \<le> \<bar>n\<bar> * \<bar>m\<bar>" using assms by (intro mult_right_mono) auto
  ultimately show False by (simp add: distrib_left)
qed

lemma int_div_correct:
  assumes "value_ok x" "int_val x = Some m" "value_ok y" "int_val y = Some n" "n \<noteq> 0"
  shows "int_result (int_div x y) (m div n)" "int_result (int_modulo x y) (m mod n)"
proof -
  obtain c where c: "big_operand y = Inr c" "big_val c = n" "big_op c"
    using big_operand_correct[OF assms(3,4)] by blast
  note cc = c(1)[unfolded big_operand_coerce_eq]
  have big: "int_result (rb_big_div b y) (big_val b div n) \<and> int_result (rb_big_modulo b y) (big_val b mod n)"
    if op: "big_op b" for b
  proof -
    obtain d r where dr: "bigdivmod b c = Inr (d, r)" "big_val d = big_val b div n" "big_val r = big_val b mod n"
      using bigdivmod_correct[OF op c(3)] c(2) assms(5) by auto
    show ?thesis
      using c(1) cc dr(1) int_result_bignorm[OF dr(2)] int_result_bignorm[OF dr(3)]
      by (simp add: rb_big_div_def rb_big_modulo_def)
  qed
  have "int_result (int_div x y) (m div n) \<and> int_result (int_modulo x y) (m mod n)"
    using assms(1,2)
  proof (cases rule: int_cases)
    case x: 1
    show ?thesis
      using assms(3,4)
    proof (cases rule: int_cases)
      case 1
      have "\<bar>m div n\<bar> \<le> 1073741824" "\<bar>m mod n\<bar> \<le> 1073741824"
        using abs_div_le[OF assms(5), of m] abs_mod_less[OF assms(5), of m] x(2) 1(2) unfolding fixable_defs by auto
      then have "- 2147483648 \<le> m div n \<and> m div n < 2147483648 \<and> - 2147483648 \<le> m mod n \<and> m mod n < 2147483648"
        by linarith
      then show ?thesis
        using x 1 assms(5) fixdivmod_correct[OF x(2) 1(2)] LONG2NUM_result
        by (simp add: int_div_def int_modulo_def fix_div_def fix_mod_def)
    next
      case (2 b)
      then show ?thesis
        using big[OF fix_big(1)[OF x(2)]] fix_big(2)[OF x(2)] x
        by (simp add: int_div_def int_modulo_def fix_div_def fix_mod_def)
    qed
  next
    case (2 b)
    then show ?thesis using big[OF 2(4)] by (simp add: int_div_def int_modulo_def)
  qed
  then show "int_result (int_div x y) (m div n)" "int_result (int_modulo x y) (m mod n)" by blast+
qed

section \<open>Comparison of integer objects\<close>

text \<open>
  The contract \<open>Comparable\<close> asks of \<open><=>\<close>: on the objects of interest the sign of a difference of
  keys.
\<close>

locale spaceship =
  fixes ufo :: "'a \<Rightarrow> 'a \<Rightarrow> value option outcome"
    and ok :: "'a \<Rightarrow> bool"
    and key :: "'a \<Rightarrow> int"
  assumes sign_law: "ok x \<Longrightarrow> ok y \<Longrightarrow> ufo x y = Inr (Some (Fixnum (sgn (key x - key y))))"
begin

lemma relations:
  assumes "ok x" "ok y"
  shows "cmp_gt ufo x y = Inr (key y < key x)" "cmp_ge ufo x y = Inr (key y \<le> key x)"
    "cmp_lt ufo x y = Inr (key x < key y)" "cmp_le ufo x y = Inr (key x \<le> key y)"
  using sign_law[OF assms]
  by (simp_all add: cmp_gt_def cmp_ge_def cmp_lt_def cmp_le_def rb_cmpint_def sgn_if)

lemma between: "ok x \<Longrightarrow> ok lo \<Longrightarrow> ok hi \<Longrightarrow> cmp_between ufo x lo hi = Inr (key lo \<le> key x \<and> key x \<le> key hi)"
  by (auto simp: cmp_between_def relations)

end

definition int_object :: "value \<Rightarrow> bool" where
  "int_object x \<longleftrightarrow> value_ok x \<and> int_val x \<noteq> None"

definition int_key :: "value \<Rightarrow> int" where
  "int_key x = the (int_val x)"

lemma big_cmp_op:
  assumes "big_op x" "sign x \<longleftrightarrow> 0 \<le> big_val x" "value_ok y" "int_val y = Some n"
  shows "rb_big_cmp x y = Inr (sgn (big_val x - n))"
proof -
  obtain c where c: "big_operand y = Inr c" "big_val c = n" "big_op c" "sign c \<longleftrightarrow> 0 \<le> n"
    using big_operand_correct[OF assms(3,4)] by blast
  show ?thesis using cmp_correct[OF assms(1,2) c(3) _ c(1)] c(2,4) by simp
qed

interpretation int_order: spaceship int_ufo int_object int_key
proof
  fix x y assume "int_object x" "int_object y"
  then obtain m n where x: "value_ok x" "int_val x = Some m" and y: "value_ok y" "int_val y = Some n"
    by (auto simp: int_object_def)
  have "int_ufo x y = Inr (Some (Fixnum (sgn (m - n))))"
    using x
  proof (cases rule: int_cases)
    case xf: 1
    show ?thesis
      using y
    proof (cases rule: int_cases)
      case 1
      then show ?thesis using xf by (auto simp: int_ufo_def fix_cmp_def sgn_if)
    next
      case (2 b)
      then show ?thesis
        using xf y big_cmp_op[OF fix_big(1)[OF xf(2)] _ y] fix_big(2,3)[OF xf(2)]
        by (simp add: int_ufo_def fix_cmp_def)
    qed
  next
    case (2 b)
    then show ?thesis using big_cmp_op[OF 2(4) big_ok_sign[OF 2(2)] y] by (simp add: int_ufo_def big_ufo_def)
  qed
  then show "int_ufo x y = Inr (Some (Fixnum (sgn (int_key x - int_key y))))"
    using x(2) y(2) by (simp add: int_key_def)
qed

lemma relop_correct:
  assumes "value_ok x" "int_val x = Some m" "value_ok y" "int_val y = Some n"
  shows "int_gt x y = Inr (n < m)" "int_lt x y = Inr (m < n)"
proof -
  have big: "cmp_gt big_ufo (Bignum b) y = Inr (n < big_val b) \<and> cmp_lt big_ufo (Bignum b) y = Inr (big_val b < n)"
    if "big_op b" "sign b \<longleftrightarrow> 0 \<le> big_val b" for b
    using big_cmp_op[OF that assms(3,4)] by (simp add: cmp_gt_def cmp_lt_def big_ufo_def rb_cmpint_def sgn_if)
  have "int_gt x y = Inr (n < m) \<and> int_lt x y = Inr (m < n)"
    using assms(1,2)
  proof (cases rule: int_cases)
    case xf: 1
    show ?thesis
      using assms(3,4)
    proof (cases rule: int_cases)
      case 1
      then show ?thesis using xf by (simp add: int_gt_def int_lt_def fix_gt_def fix_lt_def)
    next
      case (2 b)
      then show ?thesis
        using xf big[OF fix_big(1)[OF xf(2)]] fix_big(2,3)[OF xf(2)]
        by (simp add: int_gt_def int_lt_def fix_gt_def fix_lt_def)
    qed
  next
    case (2 b)
    then show ?thesis using big[OF 2(4) big_ok_sign[OF 2(2)]] by (simp add: int_gt_def int_lt_def)
  qed
  then show "int_gt x y = Inr (n < m)" "int_lt x y = Inr (m < n)" by blast+
qed

section \<open>Counting loops\<close>

text \<open>\<open>count_ok vs ms\<close>: the objects yielded are the canonical ones of the numbers.\<close>

definition count_ok :: "value list \<Rightarrow> int list \<Rightarrow> bool" where
  "count_ok vs ms \<longleftrightarrow> list_all value_ok vs \<and> map int_val vs = map Some ms"

lemma upto_fix_correct: "FIXABLE a \<Longrightarrow> FIXABLE b \<Longrightarrow> count_ok (upto_fix a b) [a..b]"
proof (induction a b rule: upto_fix.induct)
  case (1 i e)
  show ?case
  proof (cases "i \<le> e")
    case True
    have "count_ok (upto_fix (i + 1) e) [i + 1..e]"
    proof (cases "i = e")
      case False
      then have "FIXABLE (i + 1)" using True 1(2,3) by (simp add: fixable_defs)
      then show ?thesis using 1(1)[OF True _ 1(3)] by simp
    qed (simp add: upto_fix.simps[of "e + 1" e] count_ok_def)
    then show ?thesis
      using True 1(2) upto_rec1[of i e] by (simp add: upto_fix.simps[of i e] count_ok_def LONG2FIX_id)
  qed (simp add: upto_fix.simps[of i e] count_ok_def)
qed

lemma upto_big_correct:
  assumes "value_ok x" "int_val x = Some m" "value_ok y" "int_val y = Some n" "nat (n - m + 1) < fuel"
  shows "\<exists>vs. count_big int_gt int_plus fuel x y = Some (Inr vs) \<and> count_ok vs [m..n]"
  using assms(1,2,5)
proof (induction fuel arbitrary: x m)
  case (Suc fuel)
  have gt: "int_gt x y = Inr (n < m)" by (rule relop_correct(1)[OF Suc.prems(1,2) assms(3,4)])
  show ?case
  proof (cases "n < m")
    case True
    then show ?thesis using gt by (simp add: count_big.simps[of _ _ "Suc fuel"] count_ok_def)
  next
    case False
    obtain v where v: "int_plus x (Fixnum 1) = Inr v" "value_ok v" "int_val v = Some (m + 1)"
      using plus_op.returns[OF Suc.prems(1,2), of "Fixnum 1" 1] by (auto simp: fixable_defs)
    have "nat (n - (m + 1) + 1) < fuel" using Suc.prems(3) False by linarith
    then obtain vs where "count_big int_gt int_plus fuel v y = Some (Inr vs)" "count_ok vs [m + 1..n]"
      using Suc.IH[OF v(2,3)] by blast
    then show ?thesis
      using gt v(1) False Suc.prems(1,2) upto_rec1[of m n]
      by (simp add: count_big.simps[of _ _ "Suc fuel"] count_ok_def)
  qed
qed simp

lemma downto_fix_correct: "FIXABLE a \<Longrightarrow> FIXABLE b \<Longrightarrow> count_ok (downto_fix a b) (rev [b..a])"
proof (induction a b rule: downto_fix.induct)
  case (1 i e)
  show ?case
  proof (cases "e \<le> i")
    case True
    have "count_ok (downto_fix (i - 1) e) (rev [e..i - 1])"
    proof (cases "i = e")
      case False
      then have "FIXABLE (i - 1)" using True 1(2,3) by (simp add: fixable_defs)
      then show ?thesis using 1(1)[OF True _ 1(3)] by simp
    qed (simp add: downto_fix.simps[of "e - 1" e] count_ok_def)
    then show ?thesis
      using True 1(2) upto_rec2[of e i] by (simp add: downto_fix.simps[of i e] count_ok_def LONG2FIX_id)
  qed (simp add: downto_fix.simps[of i e] count_ok_def)
qed

lemma downto_big_correct:
  assumes "value_ok x" "int_val x = Some m" "value_ok y" "int_val y = Some n" "nat (m - n + 1) < fuel"
  shows "\<exists>vs. count_big int_lt int_minus fuel x y = Some (Inr vs) \<and> count_ok vs (rev [n..m])"
  using assms(1,2,5)
proof (induction fuel arbitrary: x m)
  case (Suc fuel)
  have lt: "int_lt x y = Inr (m < n)" by (rule relop_correct(2)[OF Suc.prems(1,2) assms(3,4)])
  show ?case
  proof (cases "m < n")
    case True
    then show ?thesis using lt by (simp add: count_big.simps[of _ _ "Suc fuel"] count_ok_def)
  next
    case False
    obtain v where v: "int_minus x (Fixnum 1) = Inr v" "value_ok v" "int_val v = Some (m - 1)"
      using minus_op.returns[OF Suc.prems(1,2), of "Fixnum 1" 1] by (auto simp: fixable_defs)
    have "nat (m - 1 - n + 1) < fuel" using Suc.prems(3) False by linarith
    then obtain vs where "count_big int_lt int_minus fuel v y = Some (Inr vs)" "count_ok vs (rev [n..m - 1])"
      using Suc.IH[OF v(2,3)] by blast
    then show ?thesis
      using lt v(1) False Suc.prems(1,2) upto_rec2[of n m]
      by (simp add: count_big.simps[of _ _ "Suc fuel"] count_ok_def)
  qed
qed simp

section \<open>Shifts of fixnums\<close>

lemma fix_lshift_test:
  assumes "FIXABLE a" "0 \<le> width" "width \<le> 31" "\<not> 0 < drop_bit (nat (31 - width)) (u32 a)"
  shows "0 \<le> a" "a * 2 ^ nat width < 2147483648"
proof -
  have k: "nat (31 - width) + nat width = 31" using assms(2,3) by simp
  have u: "0 \<le> u32 a" "u32 a < 2 ^ nat (31 - width)"
  proof -
    have "u32 a div 2 ^ nat (31 - width) \<le> 0" using assms(4) by (simp add: drop_bit_eq_div)
    then show "0 \<le> u32 a" "u32 a < 2 ^ nat (31 - width)"
      using u32_bounds[of a] by (auto simp: not_less[symmetric] pos_imp_zdiv_pos_iff)
  qed
  have "(2::int) ^ nat (31 - width) \<le> 2 ^ 31" using assms(2) by (intro power_increasing) simp_all
  then have "u32 a < 2147483648" using u(2) by simp
  moreover have "u32 a = (if 0 \<le> a then a else a + 4294967296)"
  proof (cases "0 \<le> a")
    case False
    have "u32 a = (a + 4294967296) mod 4294967296" by (simp only: u32_def mod_add_self2)
    also have "\<dots> = a + 4294967296" using False assms(1) unfolding fixable_defs by (intro mod_pos_pos_trivial) linarith+
    finally show ?thesis using False by simp
  qed (use assms(1) in \<open>simp add: u32_id fixable_defs\<close>)
  ultimately show a: "0 \<le> a" using assms(1) by (auto simp: fixable_defs split: if_splits)
  then have "a < 2 ^ nat (31 - width)" using u(2) \<open>u32 a = _\<close> by simp
  then have "a * 2 ^ nat width < 2 ^ nat (31 - width) * 2 ^ nat width" by simp
  also have "\<dots> = 2147483648" using k by (simp add: power_add[symmetric])
  finally show "a * 2 ^ nat width < 2147483648" .
qed

lemma fix_lshift_pos:
  assumes "FIXABLE a" "0 \<le> n" "n \<le> 1073741823"
  shows "\<exists>r. fix_lshift fuel a (Fixnum n) = Some r \<and> int_result r (a * 2 ^ nat n)"
proof (cases "31 < n \<or> 0 < drop_bit (nat (31 - n)) (u32 a)")
  case True
  then show ?thesis
    using lshift_body_correct[OF assms(2), of "rb_int2big a"] fix_big(2)[OF assms(1)] assms(2)
    by (simp add: fix_lshift.simps[of fuel] rb_big_lshift.simps[of fuel] NUM2INT_def)
next
  case False
  then have a: "0 \<le> a" "a * 2 ^ nat n < 2147483648" using fix_lshift_test[OF assms(1,2)] by auto
  then have "0 \<le> a * 2 ^ nat n" by simp
  then have "s32 (push_bit (nat n) a) = a * 2 ^ nat n"
    using a unfolding push_bit_eq_mult by (intro s32_id) linarith+
  moreover have "int_result (Inr (LONG2NUM (a * 2 ^ nat n))) (a * 2 ^ nat n)"
    using a \<open>0 \<le> a * 2 ^ nat n\<close> by (intro LONG2NUM_result) linarith+
  ultimately show ?thesis
    using False assms(2) by (simp add: fix_lshift.simps[of fuel] NUM2INT_def)
qed

lemma fix_rshift_pos:
  assumes "FIXABLE a" "0 \<le> n"
  shows "\<exists>r. fix_rshift fuel a (Fixnum n) = Some r \<and> int_result r (a div 2 ^ nat n)"
proof -
  have small: "FIXABLE (a div 2 ^ k)" for k :: nat
  proof (cases "0 \<le> a")
    case True
    then show ?thesis
      using assms(1) zdiv_le_dividend_pow[OF True, of k] pos_imp_zdiv_nonneg_iff[of "2 ^ k" a] by (simp add: fixable_defs)
  next
    case False
    then have "a \<le> a div 2 ^ k" "a div 2 ^ k < 0"
      using zdiv_mono2_neg[of a 1 "2 ^ k"] by (simp_all add: pos_imp_zdiv_neg_iff)
    then show ?thesis using assms(1) by (simp add: fixable_defs)
  qed
  show ?thesis
  proof (cases "31 \<le> n")
    case True
    have "(2::int) ^ 31 \<le> 2 ^ nat n" using True by (intro power_increasing) simp_all
    then have b: "- (2 ^ nat n) \<le> a" "a < 2 ^ nat n" using assms(1) by (simp_all add: fixable_defs)
    have "a div 2 ^ nat n = (if a < 0 then -1 else 0)"
    proof (cases "a < 0")
      case neg: True
      then show ?thesis using div_below[OF b(1)] by simp
    qed (use b(2) in simp)
    then show ?thesis using True by (simp add: fix_rshift.simps[of fuel] NUM2INT_def int_result_def fixable_defs)
  next
    case False
    then show ?thesis
      using assms small[of "nat n"] small[of 0]
      by (simp add: fix_rshift.simps[of fuel] NUM2INT_def LONG2FIX_id drop_bit_eq_div int_result_fix)
  qed
qed

section \<open>Properties\<close>

text \<open>
  C14. Sums, differences and products of any two integer objects, immediate or big, are the canonical
  objects of the exact results: the overflow tests of the fixnum methods miss nothing, and results
  move between the two representations as they must.
\<close>

theorem integer_arithmetic_exact:
  assumes "value_ok x" "int_val x = Some m" "value_ok y" "int_val y = Some n"
  shows "int_result (int_plus x y) (m + n) \<and> int_result (int_minus x y) (m - n) \<and> int_result (int_mul x y) (m * n)"
  using int_plus_correct[OF assms] by blast

theorem integer_arithmetic_exact_witness:
  "int_result (int_mul (Fixnum 65536) (Fixnum (- 65536))) (- 4294967296)"
  using integer_arithmetic_exact[of "Fixnum 65536" 65536 "Fixnum (- 65536)" "- 65536"] by (simp add: fixable_defs)

text \<open>
  The integer objects are a commutative ring under the methods: addition and multiplication
  commute and associate, subtraction undoes addition and multiplication distributes over addition, as
  equations between the very objects returned.
\<close>

theorem integer_ring_laws:
  assumes "value_ok x" "int_val x = Some m" "value_ok y" "int_val y = Some n" "value_ok z" "int_val z = Some k"
  shows "int_plus x y = int_plus y x \<and> int_mul x y = int_mul y x \<and>
    obind (int_plus x y) (\<lambda>v. int_plus v z) = obind (int_plus y z) (\<lambda>v. int_plus x v) \<and>
    obind (int_mul x y) (\<lambda>v. int_mul v z) = obind (int_mul y z) (\<lambda>v. int_mul x v) \<and>
    obind (int_plus x y) (\<lambda>v. int_minus v y) = Inr x \<and>
    obind (int_plus y z) (\<lambda>v. int_mul x v) =
      obind (int_mul x y) (\<lambda>u. obind (int_mul x z) (\<lambda>w. int_plus u w))"
proof -
  obtain s where s: "int_plus x y = Inr s" "value_ok s" "int_val s = Some (m + n)"
    using plus_op.returns[OF assms(1-4)] by blast
  obtain t where t: "int_plus y z = Inr t" "value_ok t" "int_val t = Some (n + k)"
    using plus_op.returns[OF assms(3-6)] by blast
  obtain u where u: "int_mul x y = Inr u" "value_ok u" "int_val u = Some (m * n)"
    using mul_op.returns[OF assms(1-4)] by blast
  obtain w where w: "int_mul x z = Inr w" "value_ok w" "int_val w = Some (m * k)"
    using mul_op.returns[OF assms(1,2,5,6)] by blast
  have "int_result (int_minus s y) m" using minus_op.exact[OF s(2,3) assms(3,4)] by simp
  then have "int_minus s y = Inr x"
    using int_result_unique[of _ m "Inr x"] assms(1,2) by (simp add: int_result_def)
  moreover have "int_mul x t = int_plus u w"
    using int_result_unique[OF mul_op.exact[OF assms(1,2) t(2,3)]] plus_op.exact[OF u(2,3) w(2,3)]
    by (simp add: distrib_left)
  ultimately have "obind (int_plus x y) (\<lambda>v. int_minus v y) = Inr x"
    "obind (int_plus y z) (\<lambda>v. int_mul x v) = obind (int_mul x y) (\<lambda>u. obind (int_mul x z) (\<lambda>w. int_plus u w))"
    using s(1) t(1) u(1) w(1) by simp_all
  then show ?thesis
    using plus_op.commutes[OF assms(1-4)] mul_op.commutes[OF assms(1-4)] plus_op.associates[OF assms]
      mul_op.associates[OF assms] by blast
qed

theorem integer_ring_laws_witness:
  "obind (int_plus (Fixnum 1073741823) (Fixnum 1)) (\<lambda>v. int_minus v (Fixnum 1)) = Inr (Fixnum 1073741823)"
proof -
  have "value_ok (Fixnum 1073741823)" "value_ok (Fixnum 1)" by (simp_all add: fixable_defs)
  moreover have "int_val (Fixnum 1073741823) = Some 1073741823" "int_val (Fixnum 1) = Some 1" by simp_all
  ultimately show ?thesis
    using integer_ring_laws[of "Fixnum 1073741823" 1073741823 "Fixnum 1" 1 "Fixnum 1" 1] by blast
qed

text \<open>
  C15. Division and modulo of any two integer objects are the floored ones, also where the smallest
  fixnum is divided by -1, and a zero divisor raises \<open>ZeroDivisionError\<close> for a fixnum receiver.
\<close>

theorem integer_division_floored:
  assumes "value_ok x" "int_val x = Some m" "value_ok y" "int_val y = Some n"
  shows "(n \<noteq> 0 \<longrightarrow> int_result (int_div x y) (m div n) \<and> int_result (int_modulo x y) (m mod n)) \<and>
    (n = 0 \<longrightarrow> int_div x y = Inl ZeroDivError \<and> int_modulo x y = Inl ZeroDivError)"
proof (cases "n = 0")
  case True
  then have y: "y = Fixnum 0" using value_ok_unique[of y "Fixnum 0"] assms(3,4) by (simp add: fixable_defs)
  have "bigdivmod b (rb_int2big 0) = Inl ZeroDivError" for b
    using bigdivrem_zero[of "rb_int2big 0" b] by (simp add: bigdivmod_def rb_int2big_1 BIGZEROP_def)
  then have "int_div x y = Inl ZeroDivError \<and> int_modulo x y = Inl ZeroDivError"
    using y assms(2) by (cases x)
      (simp_all add: int_div_def int_modulo_def fix_div_def fix_mod_def fixdivmod_def rb_big_div_def
        rb_big_modulo_def big_operand_def big_operand_coerce_def)
  then show ?thesis using True by simp
qed (use int_div_correct[OF assms] in simp)

theorem integer_division_floored_witness:
  "int_result (int_div (Fixnum (- 1073741824)) (Fixnum (- 1))) 1073741824 \<and>
   int_div (Fixnum 1) (Fixnum 0) = Inl ZeroDivError"
  using integer_division_floored[of "Fixnum (- 1073741824)" "- 1073741824" "Fixnum (- 1)" "- 1"]
    integer_division_floored[of "Fixnum 1" 1 "Fixnum 0" 0]
  by (simp add: fixable_defs)

text \<open>
  The \<open>Comparable\<close> relations over \<open><=>\<close>, and the fixnum methods that replace them, agree on all
  integer objects with the order of the integers.
\<close>

theorem integer_comparable:
  assumes "value_ok x" "int_val x = Some m" "value_ok y" "int_val y = Some n" "value_ok z" "int_val z = Some k"
  shows "int_ufo x y = Inr (Some (Fixnum (sgn (m - n)))) \<and>
    cmp_ge int_ufo x y = Inr (n \<le> m) \<and> cmp_le int_ufo x y = Inr (m \<le> n) \<and>
    int_gt x y = Inr (n < m) \<and> int_lt x y = Inr (m < n) \<and>
    cmp_between int_ufo x y z = Inr (n \<le> m \<and> m \<le> k)"
proof -
  have ok: "int_object x" "int_object y" "int_object z" and key: "int_key x = m" "int_key y = n" "int_key z = k"
    using assms by (simp_all add: int_object_def int_key_def)
  show ?thesis
    using int_order.sign_law[OF ok(1,2)] int_order.relations[OF ok(1,2)] int_order.between[OF ok]
      relop_correct[OF assms(1-4)] by (simp add: key)
qed

theorem integer_comparable_witness:
  "int_gt (Fixnum 7) (Bignum \<lparr>sign = False, digits = [0, 0, 1]\<rparr>) = Inr True"
  using integer_comparable[of "Fixnum 7" 7 "Bignum \<lparr>sign = False, digits = [0, 0, 1]\<rparr>" "- 4294967296" "Fixnum 0" 0]
  by (simp add: big_ok_def big_val_def fixable_defs)

text \<open>
  \<open>upto\<close> and \<open>downto\<close> between any two integer objects end and yield the canonical objects of the
  numbers in between, one by one, across the border between the two representations.
\<close>

theorem integer_counting:
  assumes "value_ok x" "int_val x = Some m" "value_ok y" "int_val y = Some n" "nat (\<bar>n - m\<bar> + 1) < fuel"
  shows "(\<exists>vs. int_upto fuel x y = Some (Inr vs) \<and> count_ok vs [m..n]) \<and>
    (\<exists>vs. int_downto fuel x y = Some (Inr vs) \<and> count_ok vs (rev [n..m]))"
proof -
  have f: "nat (n - m + 1) < fuel" "nat (m - n + 1) < fuel" using assms(5) by linarith+
  note up = upto_big_correct[OF assms(1-4) f(1)] and down = downto_big_correct[OF assms(1-4) f(2)]
  show ?thesis
  proof (cases "\<exists>a b. x = Fixnum a \<and> y = Fixnum b")
    case True
    then show ?thesis
      using upto_fix_correct[of m n] downto_fix_correct[of m n] assms(1-4) by (auto simp: int_upto_def int_downto_def)
  next
    case False
    then have "int_upto fuel x y = count_big int_gt int_plus fuel x y" "int_downto fuel x y = count_big int_lt int_minus fuel x y"
      using assms(2,4) by (cases x; cases y; simp add: int_upto_def int_downto_def)+
    then show ?thesis using up down by simp
  qed
qed

theorem integer_counting_witness:
  "\<exists>vs. int_upto 4 (Fixnum 1073741823) (Bignum \<lparr>sign = True, digits = [0, 16384]\<rparr>) = Some (Inr vs) \<and>
     count_ok vs [1073741823..1073741824]"
  using integer_counting[of "Fixnum 1073741823" 1073741823 "Bignum \<lparr>sign = True, digits = [0, 16384]\<rparr>" 1073741824 4]
  by (simp add: big_ok_def big_val_def fixable_defs)

text \<open>
  Shifting a fixnum by a fixnum count other than the smallest one returns the canonical object of
  the product with, or the floored quotient by, the power of two; a result too large for a \<open>long\<close>
  goes through \<open>Bignum\<close>.
\<close>

theorem fixnum_shift_correct:
  assumes "FIXABLE a" "- 1073741824 < n" "n \<le> 1073741823"
  shows "\<exists>r. fix_lshift 1 a (Fixnum n) = Some r \<and>
    int_result r (if 0 \<le> n then a * 2 ^ nat n else a div 2 ^ nat (- n))"
proof (cases "0 \<le> n")
  case True
  then show ?thesis using fix_lshift_pos[OF assms(1) True assms(3)] by simp
next
  case False
  have "LONG2FIX (- n) = Fixnum (- n)" using assms(2) False by (intro LONG2FIX_id) (simp add: fixable_defs)
  then show ?thesis
    using False fix_rshift_pos[OF assms(1), of "- n" 0] by (simp add: fix_lshift.simps[of "Suc 0"] NUM2INT_def)
qed

theorem fixnum_shift_correct_witness:
  "\<exists>r. fix_lshift 1 (- 3) (Fixnum 40) = Some r \<and> int_result r (- 3298534883328)"
  using fixnum_shift_correct[of "- 3" 40] by (simp add: fixable_defs)

end
