(* ===== verification/Bignum_Str.thy ===== *)
theory Bignum_Str
  imports Bignum_Div
begin

unbundle bit_operations_syntax

text \<open>
  Integers and text: \<open>rb_big2str\<close>, \<open>rb_cstr_to_inum\<close> and the eight byte form of \<open>rb_quad_pack\<close> of
  \<^verbatim>\<open>src/ruby/bignum.c\<close>, and \<open>rb_fix2str\<close> of \<^verbatim>\<open>src/ruby/numeric.c\<close>. A C string is the list of its
  characters up to the terminating NUL.
\<close>

section \<open>Characters\<close>

definition ruby_digitmap :: string where
  "ruby_digitmap = ''0123456789abcdefghijklmnopqrstuvwxyz''"

definition code :: "char \<Rightarrow> int" where
  "code c = of_char c"

definition ISSPACE :: "char \<Rightarrow> bool" where
  "ISSPACE c \<longleftrightarrow> code c = 32 \<or> (9 \<le> code c \<and> code c \<le> 13)"

text \<open>The digit of a character as the \<open>isdigit\<close>, \<open>islower\<close>, \<open>isupper\<close> cascade finds it.\<close>

definition char_digit :: "char \<Rightarrow> int option" where
  "char_digit c =
     (if 48 \<le> code c \<and> code c \<le> 57 then Some (code c - 48)
      else if 97 \<le> code c \<and> code c \<le> 122 then Some (code c - 97 + 10)
      else if 65 \<le> code c \<and> code c \<le> 90 then Some (code c - 65 + 10)
      else None)"

text \<open>\<open>str[i]\<close>: the terminating NUL can be read.\<close>

definition char_at :: "string \<Rightarrow> nat \<Rightarrow> char" where
  "char_at s i = (if i < length s then s ! i else CHR 0x00)"

section \<open>Printing\<close>

text \<open>\<open>do *--b = ...; while (val /= base)\<close>, the characters written so far in \<open>acc\<close>.\<close>

function fix_digits :: "int \<Rightarrow> int \<Rightarrow> string \<Rightarrow> string" where
  "fix_digits base v acc =
     (let acc = ruby_digitmap ! nat (v mod base) # acc
      in if v div base \<le> 0 \<or> base < 2 then acc else fix_digits base (v div base) acc)"
  by pat_completeness auto
termination
proof (relation "measure (\<lambda>(base, v, acc). nat v)", goal_cases)
  case (2 base v acc acc')
  then have v: "0 < v div base" "1 < base" by auto
  then have "0 < v" using div_nonpos_pos_le0[of v base] by linarith
  then show ?case using int_div_less_self[of v base] v by simp
qed simp

declare fix_digits.simps [simp del]

definition rb_fix2str :: "int \<Rightarrow> int \<Rightarrow> string outcome" where
  "rb_fix2str v base =
     (if base < 2 \<or> 36 < base then raise ArgError
      else if v = 0 then return ''0''
      else
        (let s = fix_digits base \<bar>v\<bar> [] in
         if 33 < length s + (if v < 0 then 1 else 0) then raise Undefined
         else return ((if v < 0 then ''-'' else []) @ s)))"

definition big2str_size :: "int \<Rightarrow> int \<Rightarrow> int option" where
  "big2str_size base j =
     (if base = 2 then Some j
      else if base = 3 then Some (c_quot (s32 (j * 647)) 1024)
      else if 4 \<le> base \<and> base \<le> 7 then Some (c_quot j 2)
      else if 8 \<le> base \<and> base \<le> 9 then Some (c_quot j 3)
      else if 10 \<le> base \<and> base \<le> 15 then Some (c_quot (s32 (j * 241)) 800)
      else if 16 \<le> base \<and> base \<le> 31 then Some (c_quot j 4)
      else if 32 \<le> base \<and> base \<le> 36 then Some (c_quot j 5)
      else None)"

text \<open>
  \<open>k\<close> characters of \<open>num\<close> into \<open>s[--j]\<close>; a write below the start of the buffer is undefined. The
  buffer from index \<open>j\<close> on is \<open>acc\<close>.
\<close>

fun big2str_emit :: "nat \<Rightarrow> bool \<Rightarrow> int \<Rightarrow> int \<Rightarrow> nat \<Rightarrow> string \<Rightarrow> (nat \<times> string) outcome" where
  "big2str_emit 0 fin base num j acc = return (j, acc)"
| "big2str_emit (Suc k) fin base num j acc =
     (if j = 0 then raise Undefined
      else
        (let acc = ruby_digitmap ! nat (num mod base) # acc; num = num div base in
         if fin \<and> num = 0 then return (j - 1, acc)
         else big2str_emit k fin base num (j - 1) acc))"

lemma big2str_emit_less:
  "big2str_emit (Suc k) fin base num j acc = Inr (j', acc') \<Longrightarrow> j' < j"
proof (induction k arbitrary: num j acc)
  case (Suc k)
  then show ?case by (fastforce simp: Let_def split: if_splits)
qed (auto simp: Let_def split: if_splits)

text \<open>One round divides the first \<open>i\<close> digits by \<open>hbase\<close> and writes the two characters of the remainder.\<close>

function big2str_loop :: "int \<Rightarrow> bdigit list \<Rightarrow> nat \<Rightarrow> string \<Rightarrow> (nat \<times> string) outcome" where
  "big2str_loop base ds j acc =
     (if ds = [] \<or> j = 0 then return (j, acc)
      else
        (let (qs, num) = divrem_short (base * base) 0 (rev ds);
             ds = rev qs;
             ds = (if last ds = 0 then butlast ds else ds)
         in obind (big2str_emit 2 (ds = []) base num j acc) (\<lambda>(j, acc). big2str_loop base ds j acc)))"
  by pat_completeness auto
termination
proof (relation "measure (\<lambda>(base, ds, j, acc). j)", goal_cases)
  case (2 base ds j acc p qs num ds' ds'' x j' acc')
  then have "big2str_emit (Suc 1) (ds'' = []) base num j acc = Inr (j', acc')" by (simp only: Suc_1)
  from big2str_emit_less[OF this] show ?case by simp
qed simp

declare big2str_loop.simps [simp del]

definition rb_big2str :: "value \<Rightarrow> int \<Rightarrow> string outcome" where
  "rb_big2str xv base =
     (case xv of
        Fixnum n \<Rightarrow> rb_fix2str n base
      | Bignum x \<Rightarrow>
          if BIGZEROP x then return ''0''
          else
            (case big2str_size base (s32 (16 * int (length (digits x)))) of
               None \<Rightarrow> raise ArgError
             | Some j \<Rightarrow>
                 if j + 2 < 0 then raise ArgError
                 else
                   obind (big2str_loop base (digits x) (nat (j + 2)) [])
                     (\<lambda>(j, acc).
                       let k = length (takeWhile (\<lambda>c. c = CHR ''0'') acc) in
                       if sign x then return (drop k acc)
                       else if j + k = 0 then raise Undefined
                       else return (CHR ''-'' # drop k acc)))
      | _ \<Rightarrow> raise Undefined)"

section \<open>Parsing\<close>

text \<open>
  \<open>strtoul\<close> of the C library: leading space, a sign, \<open>0x\<close> before a hexadecimal digit in base 16,
  digits; the value saturates at \<open>ULONG_MAX\<close> and is negated after a minus sign. The second
  component is what \<open>end\<close> points to.
\<close>

definition base_digit :: "int \<Rightarrow> char \<Rightarrow> int option" where
  "base_digit base c = (case char_digit c of None \<Rightarrow> None | Some d \<Rightarrow> if d < base then Some d else None)"

fun strtoul_digits :: "int \<Rightarrow> int \<Rightarrow> string \<Rightarrow> int \<times> string" where
  "strtoul_digits base v [] = (v, [])"
| "strtoul_digits base v (c # cs) =
     (case base_digit base c of None \<Rightarrow> (v, c # cs) | Some d \<Rightarrow> strtoul_digits base (v * base + d) cs)"

definition strtoul :: "string \<Rightarrow> int \<Rightarrow> int \<times> string" where
  "strtoul str base =
     (let s = dropWhile ISSPACE str;
          neg = (char_at s 0 = CHR ''-'');
          s = (if char_at s 0 = CHR ''+'' \<or> neg then tl s else s);
          s = (if base = 16 \<and> char_at s 0 = CHR ''0'' \<and> (char_at s 1 = CHR ''x'' \<or> char_at s 1 = CHR ''X'') \<and>
                 base_digit 16 (char_at s 2) \<noteq> None then drop 2 s else s)
      in if base_digit base (char_at s 0) = None then (0, str)
         else
           (let (v, rest) = strtoul_digits base 0 s;
                v = (if 4294967295 < v then 4294967295 else v)
            in (if neg then u32 (- v) else v, rest)))"

text \<open>\<open>num += zds[i]*base\<close> over the first \<open>blen\<close> digits, then the growth of \<open>blen\<close>.\<close>

fun muladd_loop :: "int \<Rightarrow> int \<Rightarrow> bdigit list \<Rightarrow> bdigit list \<times> int" where
  "muladd_loop base num [] = ([], num)"
| "muladd_loop base num (z # zs) =
     (let num = u32 (num + u32 (uint z * base)); (rs, c) = muladd_loop base (BIGDN num) zs
      in (BIGLO num # rs, c))"

function muladd_grow :: "nat \<Rightarrow> int \<Rightarrow> bdigit list \<Rightarrow> bdigit list outcome" where
  "muladd_grow len num zs =
     (if num \<le> 0 then return zs
      else if len \<le> length zs then raise Undefined
      else muladd_grow len (BIGDN num) (zs @ [BIGLO num]))"
  by pat_completeness auto
termination
  by (relation "measure (\<lambda>(len, num, zs). nat num)") (auto simp: BIGDN_def BIGRAD_def)

declare muladd_grow.simps [simp del]

text \<open>The digit loop: \<open>nondigit\<close> is set by an underscore when \<open>badcheck\<close> is on.\<close>

fun parse_loop :: "bool \<Rightarrow> int \<Rightarrow> nat \<Rightarrow> bool \<Rightarrow> string \<Rightarrow> bdigit list \<Rightarrow> (bdigit list \<times> string) outcome" where
  "parse_loop badcheck base len nondigit [] zs = return (zs, [])"
| "parse_loop badcheck base len nondigit (c # cs) zs =
     (if c = CHR ''_'' then
        (if badcheck \<and> nondigit then raise ArgError else parse_loop badcheck base len badcheck cs zs)
      else
        (case base_digit base c of
           None \<Rightarrow> return (zs, c # cs)
         | Some d \<Rightarrow>
             (let (zs, num) = muladd_loop base d zs in
              obind (muladd_grow len num zs) (\<lambda>zs. parse_loop badcheck base len False cs zs))))"

definition auto_base :: "string \<Rightarrow> int \<Rightarrow> int" where
  "auto_base str base =
     (if base \<le> 0 then
        (if char_at str 0 = CHR ''0'' then
           (if char_at str 1 \<in> {CHR ''x'', CHR ''X''} then 16
            else if char_at str 1 \<in> {CHR ''b'', CHR ''B''} then 2
            else if char_at str 1 \<in> {CHR ''o'', CHR ''O''} then 8
            else if char_at str 1 \<in> {CHR ''d'', CHR ''D''} then 10
            else 8)
         else if base < -1 then - base
         else 10)
      else base)"

text \<open>The bits per character and the string behind its radix prefix.\<close>

definition drop_prefix :: "char set \<Rightarrow> string \<Rightarrow> string" where
  "drop_prefix cs str = (if char_at str 0 = CHR ''0'' \<and> char_at str 1 \<in> cs then drop 2 str else str)"

definition base_width :: "string \<Rightarrow> int \<Rightarrow> (int \<times> string) outcome" where
  "base_width str base =
     (if base = 2 then return (1, drop_prefix {CHR ''b'', CHR ''B''} str)
      else if base = 3 then return (2, str)
      else if base = 8 then return (3, drop_prefix {CHR ''o'', CHR ''O''} str)
      else if 4 \<le> base \<and> base \<le> 7 then return (3, str)
      else if base = 10 then return (4, drop_prefix {CHR ''d'', CHR ''D''} str)
      else if 9 \<le> base \<and> base \<le> 15 then return (4, str)
      else if base = 16 then return (4, drop_prefix {CHR ''x'', CHR ''X''} str)
      else if base < 2 \<or> 36 < base then raise ArgError
      else if base \<le> 32 then return (5, str)
      else return (6, str))"

text \<open>The end of the function from label \<open>bigparse\<close> on; \<open>s\<close> is the whole string.\<close>

definition bigparse :: "string \<Rightarrow> string \<Rightarrow> int \<Rightarrow> int \<Rightarrow> bool \<Rightarrow> bool \<Rightarrow> value outcome" where
  "bigparse s str base len sg badcheck =
     (if badcheck \<and> char_at str 0 = CHR ''_'' then raise ArgError
      else
        obind (parse_loop badcheck base (nat (c_quot len 16 + 1)) False str [0]) (\<lambda>(zs, rest).
          if badcheck \<and>
             (1 < length s - length rest \<and> char_at s (length s - length rest - 1) = CHR ''_'' \<or>
              dropWhile ISSPACE rest \<noteq> [])
          then raise ArgError
          else return (bignorm (Bignum \<lparr>sign = sg, digits = zs\<rparr>))))"

definition rb_cstr_to_inum :: "string option \<Rightarrow> int \<Rightarrow> bool \<Rightarrow> value outcome" where
  "rb_cstr_to_inum str base badcheck =
     (case str of
        None \<Rightarrow> if badcheck then raise ArgError else return (Fixnum 0)
      | Some s \<Rightarrow>
          (let str = dropWhile (\<lambda>c. ISSPACE c \<or> \<not> badcheck \<and> c = CHR ''_'') s;
               sg = (char_at str 0 \<noteq> CHR ''-'');
               str = (if char_at str 0 = CHR ''+'' \<or> char_at str 0 = CHR ''-'' then tl str else str)
           in if char_at str 0 = CHR ''+'' \<or> char_at str 0 = CHR ''-'' then
                (if badcheck then raise ArgError else return (Fixnum 0))
              else
                (let base = auto_base str base in
                 obind (base_width str base) (\<lambda>(width, str).
                   let str = (if char_at str 0 = CHR ''0'' then CHR ''0'' # dropWhile (\<lambda>c. c = CHR ''0'') str else str);
                       len = s32 (width * int (length str))
                   in if u32 len \<le> 32 \<and> char_at (snd (strtoul str base)) 0 \<noteq> CHR ''_'' then
                        (let (val, end) = strtoul str base in
                         if badcheck \<and> (end = str \<or> dropWhile ISSPACE end \<noteq> []) then raise ArgError
                         else if POSFIXABLE val then return (if sg then LONG2FIX val else LONG2FIX (s32 (- s32 val)))
                         else return (bignorm (Bignum ((rb_uint2big val)\<lparr>sign := sg\<rparr>))))
                      else bigparse s str base len sg badcheck))))"

definition rb_cstr2inum :: "string option \<Rightarrow> int \<Rightarrow> value outcome" where
  "rb_cstr2inum str base = rb_cstr_to_inum str base (base = 0)"

section \<open>Eight byte integers\<close>

text \<open>
  The build has no \<open>long long\<close>, so the branch that copies digits is compiled. The machines OpenVMS
  runs on are little endian: \<open>memcpy\<close> of a digit gives its low byte first.
\<close>

type_synonym byte = "8 word"

definition digit_bytes :: "bdigit \<Rightarrow> byte list" where
  "digit_bytes d = [ucast d, ucast (drop_bit 8 d)]"

fun bytes_digits :: "byte list \<Rightarrow> bdigit list" where
  "bytes_digits (a # b # r) = (ucast a OR push_bit 8 (ucast b)) # bytes_digits r"
| "bytes_digits _ = []"

definition rb_quad_pack :: "value \<Rightarrow> byte list outcome" where
  "rb_quad_pack val =
     obind (big_operand val) (\<lambda>b.
       let len = length (digits b) * 2 in
       if 8 < len then raise RangeError
       else
         (let buf = concat (map digit_bytes (digits b)) @ replicate (8 - len) 0
          in return (if \<not> sign b then map (\<lambda>c. NOT c) buf else buf)))"

definition BNEG :: "byte list \<Rightarrow> bool" where
  "BNEG buf \<longleftrightarrow> drop_bit 15 (bytes_digits buf ! 3) \<noteq> 0"

definition rb_quad_unpack :: "byte list \<Rightarrow> bool \<Rightarrow> value" where
  "rb_quad_unpack buf sg =
     (if sg \<and> BNEG buf then bignorm (Bignum \<lparr>sign = False, digits = bytes_digits (map (\<lambda>c. NOT c) buf)\<rparr>)
      else bignorm (Bignum \<lparr>sign = True, digits = bytes_digits buf\<rparr>))"

section \<open>Numerals\<close>

definition str_val :: "int \<Rightarrow> string \<Rightarrow> int" where
  "str_val base s = foldl (\<lambda>v c. v * base + the (char_digit c)) 0 s"

text \<open>The one text that stands for a number: its digits without leading zeros.\<close>

definition numeral_of :: "int \<Rightarrow> int \<Rightarrow> string \<Rightarrow> bool" where
  "numeral_of base v s \<longleftrightarrow> s \<noteq> [] \<and> str_val base s = v \<and>
     (\<forall>c \<in> set s. base_digit base c \<noteq> None \<and> c \<in> set ruby_digitmap) \<and> (hd s = CHR ''0'' \<longrightarrow> s = ''0'')"

abbreviation digit_char :: "int \<Rightarrow> char" where
  "digit_char d \<equiv> ruby_digitmap ! nat d"

definition repr :: "int \<Rightarrow> int \<Rightarrow> string" where
  "repr base v = fix_digits base v []"

lemma fix_digits_append: "fix_digits base v (xs @ acc) = fix_digits base v xs @ acc"
proof (induction base v xs rule: fix_digits.induct)
  case (1 base v xs)
  show ?case
  proof (cases "v div base \<le> 0 \<or> base < 2")
    case False
    then show ?thesis
      using 1[OF refl False] by (simp add: fix_digits.simps[of base v] Let_def)
  qed (simp add: fix_digits.simps[of base v])
qed

lemma fix_digits_acc: "fix_digits base v acc = repr base v @ acc"
  using fix_digits_append[of base v "[]" acc] by (simp add: repr_def)

lemma repr_rec:
  assumes "2 \<le> base" "0 \<le> v"
  shows "repr base v = (if v < base then [] else repr base (v div base)) @ [digit_char (v mod base)]"
proof (cases "v < base")
  case True
  then show ?thesis using assms by (simp add: repr_def fix_digits.simps[of base v])
next
  case False
  then have "0 < v div base" using assms by (simp add: pos_imp_zdiv_pos_iff)
  then show ?thesis
    using False assms fix_digits_acc[of base "v div base" "[digit_char (v mod base)]"]
    by (simp add: repr_def[of base v] fix_digits.simps[of base v])
qed

lemma digitmap_all: "list_all (\<lambda>d. char_digit (ruby_digitmap ! d) = Some (int d)) [0..<36]"
  by code_simp

lemma digit_char: "0 \<le> d \<Longrightarrow> d < 36 \<Longrightarrow> char_digit (digit_char d) = Some d"
  using digitmap_all by (auto simp: list_all_iff)

lemma str_val_snoc: "str_val base (s @ [c]) = str_val base s * base + the (char_digit c)"
  by (simp add: str_val_def)

lemma digit_char_mem: "0 \<le> d \<Longrightarrow> d < 36 \<Longrightarrow> digit_char d \<in> set ruby_digitmap"
  by (intro nth_mem) (simp add: ruby_digitmap_def)

lemma str_val_0: "str_val base ''0'' = 0"
  by (simp add: str_val_def char_digit_def code_def)

lemma repr_numeral:
  assumes "2 \<le> base" "base \<le> 36" "0 \<le> v"
  shows "numeral_of base v (repr base v)"
  using assms(3)
proof (induction "nat v" arbitrary: v rule: less_induct)
  case less
  have d: "0 \<le> v mod base" "v mod base < base" using assms(1) by simp_all
  then have c: "char_digit (digit_char (v mod base)) = Some (v mod base)"
    "digit_char (v mod base) \<in> set ruby_digitmap"
    using assms(2) by (simp_all add: digit_char digit_char_mem)
  show ?case
  proof (cases "v < base")
    case True
    then show ?thesis
      using c d less.prems
      by (auto simp: repr_rec[OF assms(1) less.prems] numeral_of_def str_val_def base_digit_def)
  next
    case False
    then have v: "0 < v div base" "v div base < v"
      using assms(1) int_div_less_self[of v base] by (simp_all add: pos_imp_zdiv_pos_iff)
    then have "numeral_of base (v div base) (repr base (v div base))"
      using less.hyps[of "v div base"] by simp
    then show ?thesis
      using c d False v(1) unfolding repr_rec[OF assms(1) less.prems]
      by (auto simp: numeral_of_def str_val_snoc base_digit_def str_val_0)
  qed
qed

lemma repr_length_le:
  assumes "2 \<le> base" "0 \<le> v" "v < base ^ n" "0 < n"
  shows "length (repr base v) \<le> n"
  using assms(2-4)
proof (induction n arbitrary: v)
  case (Suc n)
  show ?case
  proof (cases "v < base")
    case True
    then show ?thesis by (simp add: repr_rec[OF assms(1) Suc.prems(1)])
  next
    case False
    have "v div base < base ^ n" using Suc.prems(2) assms(1) by (intro zdiv_less) (simp_all add: mult.commute)
    moreover have "0 < n" using False Suc.prems(2) by (cases n) simp_all
    moreover have "0 \<le> v div base" using Suc.prems(1) assms(1) by (simp add: pos_imp_zdiv_nonneg_iff)
    ultimately have "length (repr base (v div base)) \<le> n" using Suc.IH by blast
    then show ?thesis using False by (simp add: repr_rec[OF assms(1) Suc.prems(1)])
  qed
qed simp

section \<open>Printing a big integer\<close>

lemma emit_last:
  assumes "2 \<le> base" "0 < num" "num < base * base" "length (repr base num) \<le> j"
  shows "big2str_emit 2 True base num j acc = Inr (j - length (repr base num), repr base num @ acc)"
proof (cases "num < base")
  case True
  then show ?thesis
    using assms by (simp add: numeral_2_eq_2 repr_rec[of base num] Let_def)
next
  case False
  define q where "q = num div base"
  have q: "0 < q" "q < base" using False assms by (simp_all add: q_def pos_imp_zdiv_pos_iff zdiv_less)
  then have "repr base num = [digit_char q, digit_char (num mod base)]"
    using False assms(1,2) by (simp add: repr_rec[of base num] repr_rec[of base q] q_def[symmetric])
  then show ?thesis
    using assms q by (simp add: numeral_2_eq_2 Let_def q_def[symmetric])
qed

lemma emit_inner:
  assumes "2 \<le> base" "0 \<le> num" "num < base * base" "0 < q" "2 + length (repr base q) \<le> j"
  shows "big2str_emit 2 False base num j acc =
      Inr (j - 2, [digit_char (num div base), digit_char (num mod base)] @ acc) \<and>
    repr base (q * (base * base) + num) = repr base q @ [digit_char (num div base), digit_char (num mod base)]"
proof
  have d: "0 \<le> num div base" "num div base < base"
    using assms by (simp_all add: pos_imp_zdiv_nonneg_iff zdiv_less)
  then show "big2str_emit 2 False base num j acc =
      Inr (j - 2, [digit_char (num div base), digit_char (num mod base)] @ acc)"
    using assms by (simp add: numeral_2_eq_2 Let_def)
  define w where "w = q * base + num div base"
  have w0: "base \<le> w"
  proof -
    have "1 * base \<le> q * base" using assms(1,4) by (intro mult_right_mono) simp_all
    then show ?thesis using d(1) by (simp add: w_def)
  qed
  have w: "w div base = q" "w mod base = num div base"
    using add_mult_div_mod[OF d, of q] by (simp_all add: w_def algebra_simps)
  have v: "q * (base * base) + num = base * w + num mod base"
    using mult_div_mod_eq[of base num] by (simp add: w_def algebra_simps)
  then have vd: "(q * (base * base) + num) div base = w" "(q * (base * base) + num) mod base = num mod base"
    using add_mult_div_mod[of "num mod base" base w] assms(1) by (simp_all add: add.commute)
  have "1 * w \<le> base * w" using w0 assms(1) by (intro mult_right_mono) simp_all
  moreover have "0 \<le> num mod base" using assms(1) by simp
  ultimately have "base \<le> q * (base * base) + num" using w0 unfolding v by linarith
  then show "repr base (q * (base * base) + num) = repr base q @ [digit_char (num div base), digit_char (num mod base)]"
    using w0 assms(1) by (simp add: repr_rec[of base "q * (base * base) + num"] repr_rec[of base w] vd w)
qed

lemma last_nonzero:
  assumes "ds \<noteq> []" "65536 ^ (length ds - 1) \<le> digs_val ds"
  shows "last ds \<noteq> 0"
proof
  assume "last ds = 0"
  then show False using digs_val_last(2)[OF assms(1)] assms(2) by simp
qed

text \<open>A quotient by less than the radix loses at most one digit.\<close>

lemma strip_one:
  assumes "ds \<noteq> []" "last ds \<noteq> 0" "0 < h" "h < 65536" "length qs = length ds"
    and "digs_val qs = digs_val ds div h" "es = (if last qs = 0 then butlast qs else qs)"
  shows "digs_val es = digs_val qs" "es = [] \<longleftrightarrow> digs_val qs = 0" "es \<noteq> [] \<longrightarrow> last es \<noteq> 0"
proof -
  have qs: "qs \<noteq> []" "qs = butlast qs @ [last qs]"
    using assms(1,5) by (auto intro!: append_butlast_last_id[symmetric])
  have val: "digs_val es = digs_val qs"
  proof (cases "last qs = 0")
    case True
    then have "digs_val qs = digs_val (butlast qs @ [0])" using qs(2) by metis
    then show ?thesis using True assms(7) by (simp add: digs_val_append)
  qed (use assms(7) in simp)
  have top: "es \<noteq> [] \<longrightarrow> last es \<noteq> 0"
  proof (cases "last qs = 0 \<and> 2 \<le> length qs")
    case True
    then obtain n where n: "length ds = Suc (Suc n)" using assms(5) by (metis add_2_eq_Suc le_Suc_ex)
    have len: "length es = Suc n" using True assms(5,7) n by simp
    have "65536 ^ n * h \<le> 65536 ^ n * (65536::int)" using assms(4) by simp
    also have "\<dots> \<le> digs_val ds" using digs_val_ge[OF assms(1,2)] n by simp
    finally have "65536 ^ n * h div h \<le> digs_val qs" using assms(3,6) by (simp only:) (rule zdiv_mono1)
    then have "65536 ^ (length es - 1) \<le> digs_val es" using val len assms(3) by simp
    then show ?thesis using last_nonzero by blast
  next
    case False
    then show ?thesis using assms(7) qs(1) by (cases qs rule: rev_cases) (auto simp: Suc_le_eq)
  qed
  have "es \<noteq> [] \<Longrightarrow> 0 < digs_val es" using top digs_val_pos by blast
  then show "digs_val es = digs_val qs" "es = [] \<longleftrightarrow> digs_val qs = 0" "es \<noteq> [] \<longrightarrow> last es \<noteq> 0"
    using val top by (cases "es = []"; force)+
qed

lemma big2str_loop_val:
  assumes "2 \<le> base" "base \<le> 36"
  shows "ds \<noteq> [] \<Longrightarrow> last ds \<noteq> 0 \<Longrightarrow> length (repr base (digs_val ds)) \<le> j \<Longrightarrow>
    big2str_loop base ds j acc = Inr (j - length (repr base (digs_val ds)), repr base (digs_val ds) @ acc)"
proof (induction j arbitrary: ds acc rule: less_induct)
  case (less j)
  let ?v = "digs_val ds" and ?h = "base * base"
  have h: "0 < ?h" "?h < 65536" using assms mult_mono[of base 36 base 36] by simp_all
  have v0: "0 < ?v" using less.prems digs_val_pos by simp
  have "repr base ?v \<noteq> []" using repr_rec[OF assms(1), of ?v] v0 by simp
  then have j: "j \<noteq> 0" using less.prems(3) by (cases "repr base ?v") auto
  obtain qs num where dr: "divrem_short ?h 0 (rev ds) = (qs, num)" by force
  have q: "length (rev qs) = length ds" "0 \<le> num" "num < ?h" "?v = digs_val (rev qs) * ?h + num"
    using divrem_short_val[OF h _ _ dr] h(1) by simp_all
  have qd: "digs_val (rev qs) = ?v div ?h"
    using add_mult_div_mod(1)[OF q(2,3), of "digs_val (rev qs)"] q(4) by (simp add: algebra_simps)
  define es where "es = (if last (rev qs) = 0 then butlast (rev qs) else rev qs)"
  note st = strip_one[OF less.prems(1,2) h q(1) qd es_def]
  have loop: "big2str_loop base ds j acc =
      obind (big2str_emit 2 (es = []) base num j acc) (\<lambda>(j, acc). big2str_loop base es j acc)"
    using less.prems(1) j dr by (simp add: big2str_loop.simps[of base ds j] es_def[symmetric] Let_def)
  show ?case
  proof (cases "es = []")
    case True
    then have "?v = num" using st(2) q(4) by simp
    then show ?thesis
      using emit_last[OF assms(1) _ q(3), of j acc] True v0 less.prems(3)
      by (simp add: loop big2str_loop.simps[of base "[]"])
  next
    case False
    have pos: "0 < digs_val (rev qs)" using st False digs_val_pos by metis
    have em: "repr base ?v = repr base (digs_val (rev qs)) @ [digit_char (num div base), digit_char (num mod base)]"
      using emit_inner[OF assms(1) q(2,3) pos order_refl] q(4) by simp
    then have "2 + length (repr base (digs_val (rev qs))) \<le> j" using less.prems(3) by simp
    then show ?thesis
      using emit_inner[OF assms(1) q(2,3) pos, of j acc] False st em
        less.IH[of "j - 2" es "[digit_char (num div base), digit_char (num mod base)] @ acc"] j
      by (simp add: loop)
  qed
qed

text \<open>
  The estimate of the buffer: each group of bases has a rational bound for the digits per bit. The
  products stay in a \<open>long\<close> for the numbers of digits below.
\<close>

lemma estimate_power:
  fixes g :: int and a b n :: nat
  assumes "2 ^ b \<le> g ^ a" "0 < b" "1 < g"
  shows "2 ^ n \<le> g ^ (n * a div b + 1)"
proof -
  define e where "e = n * a div b + 1"
  have "n * a \<le> e * b"
    using assms(2) dividend_less_div_times[of b "n * a"] by (simp add: e_def)
  have "(2 ^ n) ^ b = (2 ^ b :: int) ^ n" by (simp add: power_mult[symmetric] mult.commute)
  also have "\<dots> \<le> (g ^ a) ^ n" using assms(1) by (intro power_mono) simp_all
  also have "\<dots> = g ^ (n * a)" by (simp add: power_mult[symmetric] mult.commute)
  also have "\<dots> \<le> g ^ (e * b)" using \<open>n * a \<le> e * b\<close> assms(3) by (intro power_increasing) simp_all
  also have "\<dots> = (g ^ e) ^ b" by (simp add: power_mult)
  finally have "(2 ^ n :: int) ^ b \<le> (g ^ e) ^ b" .
  then show ?thesis using assms(2,3) by (simp add: power_mono_iff e_def)
qed

lemma estimate_bits:
  "(2::int) ^ 1 \<le> 2 ^ 1" "(2::int) ^ 1024 \<le> 3 ^ 647" "(2::int) ^ 2 \<le> 4 ^ 1" "(2::int) ^ 3 \<le> 8 ^ 1"
  "(2::int) ^ 800 \<le> 10 ^ 241" "(2::int) ^ 4 \<le> 16 ^ 1" "(2::int) ^ 5 \<le> 32 ^ 1"
  by simp_all

lemma c_quot_nat: "0 < b \<Longrightarrow> c_quot (int a) (int b) = int (a div b)"
  by (simp add: c_quot_nonneg zdiv_int)

text \<open>The numbers of digits for which the products of the estimate stay in a \<open>long\<close>.\<close>

definition estimate_fits :: "int \<Rightarrow> nat \<Rightarrow> bool" where
  "estimate_fits base i \<longleftrightarrow> i < 134217728 \<and> (base = 3 \<longrightarrow> i \<le> 207446) \<and>
     (10 \<le> base \<and> base \<le> 15 \<longrightarrow> i \<le> 556920)"

lemma big2str_size_ok:
  assumes "2 \<le> base" "base \<le> 36" "estimate_fits base i" "n = 16 * i"
  obtains k where "big2str_size base (s32 (int n)) = Some (int k)" "2 ^ n \<le> base ^ (k + 1)"
proof -
  note result = that
  have s: "s32 (int n) = int n" "base = 3 \<Longrightarrow> s32 (int n * 647) = int (n * 647)"
    "10 \<le> base \<Longrightarrow> base \<le> 15 \<Longrightarrow> s32 (int n * 241) = int (n * 241)"
    using assms(3,4) by (simp_all add: s32_id estimate_fits_def)
  have pick: ?thesis if "big2str_size base (s32 (int n)) = Some (int (n * a div b))"
    "2 ^ b \<le> g ^ a" "0 < b" "1 < g" "g \<le> base" for a b g
  proof -
    have "2 ^ n \<le> g ^ (n * a div b + 1)" by (rule estimate_power[OF that(2-4)])
    also have "\<dots> \<le> base ^ (n * a div b + 1)" using that(4,5) by (intro power_mono) simp_all
    finally show ?thesis using result that(1) by blast
  qed
  note q = c_quot_nat[of 1024 "n * 647"] c_quot_nat[of 800 "n * 241"] c_quot_nat[of 2 n] c_quot_nat[of 3 n]
    c_quot_nat[of 4 n] c_quot_nat[of 5 n]
  consider "base = 2" | "base = 3" | "4 \<le> base \<and> base \<le> 7" | "8 \<le> base \<and> base \<le> 9"
    | "10 \<le> base \<and> base \<le> 15" | "16 \<le> base \<and> base \<le> 31" | "32 \<le> base"
    using assms(1) by linarith
  then show ?thesis
  proof cases
    case 1
    then show ?thesis using pick[OF _ estimate_bits(1)] by (simp add: big2str_size_def s)
  next
    case 2
    then show ?thesis using pick[OF _ estimate_bits(2)] q by (simp add: big2str_size_def s)
  next
    case 3
    then show ?thesis using pick[OF _ estimate_bits(3)] q by (simp add: big2str_size_def s)
  next
    case 4
    then show ?thesis using pick[OF _ estimate_bits(4)] q by (simp add: big2str_size_def s)
  next
    case 5
    then show ?thesis using pick[OF _ estimate_bits(5)] q by (simp add: big2str_size_def s)
  next
    case 6
    then show ?thesis using pick[OF _ estimate_bits(6)] q by (simp add: big2str_size_def s)
  next
    case 7
    then show ?thesis using pick[OF _ estimate_bits(7)] q assms(2) by (simp add: big2str_size_def s)
  qed
qed

lemma numeral_hd: "numeral_of base v s \<Longrightarrow> 0 < v \<Longrightarrow> takeWhile (\<lambda>c. c = CHR ''0'') s = []"
  by (cases s) (auto simp: numeral_of_def str_val_0)

lemma big2str_correct:
  assumes "2 \<le> base" "base \<le> 36" "digits x \<noteq> []" "last (digits x) \<noteq> 0"
    and "estimate_fits base (length (digits x))"
  shows "rb_big2str (Bignum x) base = Inr ((if sign x then [] else ''-'') @ repr base \<bar>big_val x\<bar>)"
proof -
  let ?v = "digs_val (digits x)"
  have v: "0 < ?v" "\<bar>big_val x\<bar> = ?v" using digs_val_pos[OF assms(3,4)] by (simp_all add: big_val_def)
  obtain k where k: "big2str_size base (s32 (16 * int (length (digits x)))) = Some (int k)"
    "2 ^ (16 * length (digits x)) \<le> base ^ (k + 1)"
    using big2str_size_ok[OF assms(1,2,5) refl] by auto
  have "?v < base ^ (k + 1)"
    using digs_val_less[of "digits x"] k(2) by (simp add: power_mult)
  then have len: "length (repr base ?v) \<le> k + 1" using repr_length_le[OF assms(1), of ?v "k + 1"] by simp
  have num: "takeWhile (\<lambda>c. c = CHR ''0'') (repr base ?v) = []"
    using numeral_hd[OF repr_numeral[OF assms(1,2)]] v(1) by simp
  have z: "\<not> BIGZEROP x" using v(1) by (auto simp: BIGZEROP_def length_Suc_conv)
  have "big2str_loop base (digits x) (k + 2) [] = Inr (k + 2 - length (repr base ?v), repr base ?v)"
    using big2str_loop_val[OF assms(1-4), of "k + 2" "[]"] len by simp
  moreover have "nat (int k + 2) = k + 2" by simp
  ultimately show ?thesis
    using z k(1) len v(2) by (simp add: rb_big2str_def num Let_def)
qed

lemma fix2str_correct:
  assumes "2 \<le> base" "base \<le> 36" "FIXABLE n"
  shows "rb_big2str (Fixnum n) base = Inr ((if 0 \<le> n then [] else ''-'') @ repr base \<bar>n\<bar>)"
proof (cases "n = 0")
  case True
  then show ?thesis
    using assms repr_rec[OF assms(1), of 0] by (simp add: rb_big2str_def rb_fix2str_def ruby_digitmap_def)
next
  case False
  have "\<bar>n\<bar> < 2 ^ 31" using assms(3) unfolding fixable_defs by auto
  also have "\<dots> \<le> base ^ 31" using assms(1) by (intro power_mono) simp_all
  finally have "length (repr base \<bar>n\<bar>) \<le> 31" using repr_length_le[OF assms(1), of "\<bar>n\<bar>" 31] by simp
  then show ?thesis
    using False assms(1,2)
    by (cases "0 \<le> n") (simp_all add: rb_big2str_def rb_fix2str_def repr_def[symmetric] Let_def)
qed

section \<open>Parsing a numeral\<close>

lemma char_digit_range: "char_digit c = Some d \<Longrightarrow> 0 \<le> d \<and> d < 36"
  by (auto simp: char_digit_def split: if_splits)

lemma base_digit_Some: "base_digit base c = Some d \<longleftrightarrow> char_digit c = Some d \<and> d < base"
  by (auto simp: base_digit_def split: option.splits)

lemma digit_not_special:
  assumes "base_digit base c \<noteq> None"
  shows "\<not> ISSPACE c" "c \<noteq> CHR ''_''" "c \<noteq> CHR ''+''" "c \<noteq> CHR ''-''"
  using assms
  by (auto simp: base_digit_def char_digit_def ISSPACE_def code_def split: option.splits if_splits)

lemma foldl_str_val:
  "foldl (\<lambda>v c. v * base + the (char_digit c)) a s = a * base ^ length s + str_val base s"
proof (induction s rule: rev_induct)
  case (snoc c s)
  then show ?case by (simp add: str_val_snoc algebra_simps)
qed (simp add: str_val_def)

lemma str_val_Cons: "str_val base (c # s) = the (char_digit c) * base ^ length s + str_val base s"
  using foldl_str_val[of base "the (char_digit c)" s] by (simp add: str_val_def)

lemma str_val_bounds:
  assumes "2 \<le> base" "\<forall>c \<in> set s. base_digit base c \<noteq> None"
  shows "0 \<le> str_val base s" "str_val base s < base ^ length s"
proof -
  have "0 \<le> str_val base s \<and> str_val base s < base ^ length s"
    using assms(2)
  proof (induction s)
    case (Cons c s)
    then obtain d where d: "char_digit c = Some d" "d < base" "0 \<le> d"
      using char_digit_range base_digit_Some by fastforce
    have "(d + 1) * base ^ length s \<le> base * base ^ length s"
      using d assms(1) by (intro mult_right_mono) simp_all
    moreover have "0 \<le> str_val base s" "str_val base s < base ^ length s" using Cons by simp_all
    moreover have "0 \<le> d * base ^ length s" using d assms(1) by simp
    ultimately show ?case
      using d(1) by (simp add: str_val_Cons distrib_right)
  qed (simp add: str_val_def)
  then show "0 \<le> str_val base s" "str_val base s < base ^ length s" by blast+
qed

lemma muladd_loop_val:
  assumes "2 \<le> base" "base \<le> 36" "0 \<le> num" "num < 65536" "muladd_loop base num zs = (rs, c)"
  shows "length rs = length zs \<and> 0 \<le> c \<and> c < 65536 \<and>
    digs_val rs + 65536 ^ length zs * c = digs_val zs * base + num"
  using assms(3-5)
proof (induction zs arbitrary: num rs)
  case (Cons z zs)
  have p: "0 \<le> uint z * base" "uint z * base \<le> 65535 * 36"
    using assms(1,2) uint16_bounds[of z] mult_mono[of "uint z" 65535 base 36] by simp_all
  define t where "t = u32 (num + u32 (uint z * base))"
  have t: "t = num + uint z * base" "0 \<le> t" "t < 4294967296"
    using p Cons.prems(1,2) by (simp_all add: t_def u32_id)
  obtain rs' where r: "muladd_loop base (BIGDN t) zs = (rs', c)" "rs = BIGLO t # rs'"
    using Cons.prems(3) by (auto simp: t_def[symmetric] Let_def split: prod.splits)
  have "0 \<le> BIGDN t" "BIGDN t < 65536" using t(2,3) by (auto simp: BIGDN_def BIGRAD_def)
  from Cons.IH[OF this r(1)] show ?case
    using BIGDN_BIGLO[of t] r(2) t(1) by (simp add: algebra_simps)
qed simp

lemma muladd_grow_val:
  assumes "0 \<le> c" "c < 65536"
  shows "muladd_grow len c zs =
    (if c = 0 then Inr zs else if len \<le> length zs then Inl Undefined else Inr (zs @ [BIGLO c]))"
proof -
  have "BIGDN c = 0" using assms by (simp add: BIGDN_def BIGRAD_def)
  then show ?thesis
    using assms by (simp add: muladd_grow.simps[of len c] muladd_grow.simps[of len 0])
qed

lemma parse_loop_val:
  assumes "2 \<le> base" "base \<le> 36"
  shows "\<forall>c \<in> set cs. base_digit base c \<noteq> None \<Longrightarrow>
    digs_val zs * base ^ length cs + str_val base cs < 65536 ^ len \<Longrightarrow>
    \<exists>zs'. parse_loop badcheck base len nd cs zs = Inr (zs', []) \<and>
      digs_val zs' = digs_val zs * base ^ length cs + str_val base cs"
proof (induction cs arbitrary: zs nd)
  case (Cons c cs)
  obtain d where d: "base_digit base c = Some d" "char_digit c = Some d" "0 \<le> d" "d < 36"
    using Cons.prems(1) base_digit_Some char_digit_range by fastforce
  have us: "c \<noteq> CHR ''_''" using d(1) digit_not_special(2)[of base c] by simp
  obtain rs k where mk: "muladd_loop base d zs = (rs, k)" by force
  have ml: "length rs = length zs" "0 \<le> k" "k < 65536"
    "digs_val rs + 65536 ^ length zs * k = digs_val zs * base + d"
    using muladd_loop_val[OF assms d(3) _ mk] d(4) by simp_all
  define W where "W = digs_val zs * base + d"
  have F: "digs_val zs * base ^ length (c # cs) + str_val base (c # cs) = W * base ^ length cs + str_val base cs"
    using d(2) by (simp add: W_def str_val_Cons algebra_simps)
  have W0: "0 \<le> W" using d(3) assms(1) by (simp add: W_def)
  have "W * 1 \<le> W * base ^ length cs" using W0 assms(1) by (intro mult_left_mono) simp_all
  moreover have "0 \<le> str_val base cs" using str_val_bounds(1)[OF assms(1)] Cons.prems(1) by simp
  ultimately have W: "W < 65536 ^ len" using Cons.prems(2) F by linarith
  have "\<exists>ys. muladd_grow len k rs = Inr ys \<and> digs_val ys = W"
  proof (cases "k = 0")
    case False
    then have "65536 ^ length zs * 1 \<le> 65536 ^ length zs * k" using ml(2) by (intro mult_left_mono) simp_all
    then have "(65536::int) ^ length zs < 65536 ^ len"
      using ml(4) W digs_val_nonneg[of rs] unfolding W_def by linarith
    then have "length zs < len" by (rule power_less_imp_less_exp[rotated]) simp
    then show ?thesis
      using False ml by (simp add: muladd_grow_val digs_val_append BIGLO_id W_def)
  qed (use ml in \<open>simp add: muladd_grow_val W_def\<close>)
  then obtain ys where ys: "muladd_grow len k rs = Inr ys" "digs_val ys = W" by blast
  show ?case
    unfolding F using Cons.IH[of ys False] Cons.prems F ys us d(1) mk by simp
qed (simp add: str_val_def)

lemma strtoul_digits_val:
  "\<forall>c \<in> set s. base_digit base c \<noteq> None \<Longrightarrow>
   strtoul_digits base v s = (v * base ^ length s + str_val base s, [])"
proof (induction s arbitrary: v)
  case (Cons c s)
  then obtain d where d: "base_digit base c = Some d" "char_digit c = Some d" using base_digit_Some by fastforce
  then show ?case using Cons by (simp add: str_val_Cons algebra_simps)
qed (simp add: str_val_def)

text \<open>What the parser finds at the start of a numeral.\<close>

lemma numeral_start:
  assumes "numeral_of base v s"
  obtains c t where "s = c # t" "base_digit base c \<noteq> None" "c \<noteq> CHR ''+''" "c \<noteq> CHR ''-''" "c \<noteq> CHR ''_''"
    "\<not> ISSPACE c" "c = CHR ''0'' \<Longrightarrow> t = []"
proof (cases s)
  case (Cons c t)
  then have "base_digit base c \<noteq> None" "c = CHR ''0'' \<Longrightarrow> t = []"
    using assms by (simp_all add: numeral_of_def)
  then show ?thesis using that[of c t] Cons digit_not_special[of base c] by blast
qed (use assms in \<open>simp add: numeral_of_def\<close>)

lemma strtoul_numeral:
  assumes "2 \<le> base" "numeral_of base v s" "v < 4294967296"
  shows "strtoul s base = (v, [])"
proof -
  obtain c t where c: "s = c # t" "base_digit base c \<noteq> None" "c \<noteq> CHR ''+''" "c \<noteq> CHR ''-''"
    "\<not> ISSPACE c" "c = CHR ''0'' \<Longrightarrow> t = []"
    using numeral_start[OF assms(2)] by metis
  have d: "strtoul_digits base 0 s = (v, [])"
    using strtoul_digits_val[of s base 0] assms(2) by (simp add: numeral_of_def)
  have p: "\<not> (base = 16 \<and> char_at s 0 = CHR ''0'' \<and> (char_at s 1 = CHR ''x'' \<or> char_at s 1 = CHR ''X'') \<and>
      base_digit 16 (char_at s 2) \<noteq> None)"
    using c(1,6) by (auto simp: char_at_def)
  have at: "char_at s 0 = c" "dropWhile ISSPACE s = s" using c(1,5) by (simp_all add: char_at_def)
  show ?thesis
    unfolding strtoul_def Let_def at using p c(2,3,4) d assms(3) at(1) by auto
qed

lemma base_width_numeral:
  assumes "2 \<le> base" "base \<le> 36" "s = c # t" "c = CHR ''0'' \<Longrightarrow> t = []"
  obtains w where "base_width s base = Inr (int w, s)" "base \<le> 2 ^ w" "0 < w" "w \<le> 6"
proof -
  have p: "drop_prefix cs s = s" if "CHR 0x00 \<notin> cs" for cs
    using assms(3,4) that by (auto simp: drop_prefix_def char_at_def)
  define w where "w = (if base = 2 then 1 else if base = 3 then 2 else if base \<le> 8 then 3
    else if base \<le> 16 then 4 else if base \<le> 32 then 5 else 6 :: nat)"
  have "base_width s base = Inr (int w, s)"
    using assms(1,2) unfolding base_width_def w_def by (auto simp: p)
  moreover have "base \<le> 2 ^ w" "0 < w" "w \<le> 6" using assms(1,2) by (auto simp: w_def)
  ultimately show ?thesis using that by blast
qed

text \<open>The two ways through the parser: a short numeral by \<open>strtoul\<close>, a longer one digit by digit.\<close>

lemma short_result:
  assumes "0 \<le> v" "v < 4294967296" "sg \<or> 0 < v"
  shows "int_result (if POSFIXABLE v then Inr (if sg then LONG2FIX v else LONG2FIX (s32 (- s32 v)))
    else Inr (bignorm (Bignum ((rb_uint2big v)\<lparr>sign := sg\<rparr>)))) (if sg then v else - v)"
proof (cases "POSFIXABLE v")
  case True
  then have "s32 v = v" "s32 (- v) = - v" "FIXABLE v" "FIXABLE (- v)"
    using assms(1) by (simp_all add: fixable_defs s32_id)
  then show ?thesis using True by (auto simp: LONG2FIX_id int_result_def)
next
  case False
  have "big_val ((rb_uint2big v)\<lparr>sign := sg\<rparr>) = (if sg then v else - v)"
    using rb_uint2big_correct(4)[OF assms(1,2)] by (simp add: big_val_def)
  from int_result_bignorm[OF this] show ?thesis using False by simp
qed

lemma bigparse_numeral:
  assumes "2 \<le> base" "base \<le> 36" "numeral_of base v s" "base \<le> 2 ^ w" "pre @ s = whole"
  shows "int_result (bigparse whole s base (int (w * length s)) sg badcheck) (if sg then v else - v)"
proof -
  obtain c t where c: "s = c # t" "base_digit base c \<noteq> None" "c \<noteq> CHR ''_''"
    using numeral_start[OF assms(3)] by metis
  have ds: "\<forall>c \<in> set s. base_digit base c \<noteq> None" and v: "str_val base s = v"
    using assms(3) by (auto simp: numeral_of_def)
  define len where "len = w * length s div 16 + 1"
  have len: "nat (c_quot (int (w * length s)) 16 + 1) = len"
    using c_quot_nat[of 16 "w * length s"] by (simp add: len_def nat_add_distrib)
  have "v < base ^ length s" using str_val_bounds(2)[OF assms(1) ds] v by simp
  also have "\<dots> \<le> (2 ^ w) ^ length s" using assms(1,4) by (intro power_mono) simp_all
  also have "\<dots> = 2 ^ (w * length s)" by (simp add: power_mult)
  also have "\<dots> \<le> 2 ^ (16 * len)" by (intro power_increasing) (simp_all add: len_def)
  finally have "v < 65536 ^ len" by (simp add: power_mult)
  then obtain zs where zs: "parse_loop badcheck base len False s [0] = Inr (zs, [])" "digs_val zs = v"
    using parse_loop_val[OF assms(1,2) ds, of "[0]" len badcheck False] v by auto
  have "last whole \<in> set s" using assms(5) c(1) by (metis last_appendR last_in_set list.distinct(1))
  then have "last whole \<noteq> CHR ''_''" using ds digit_not_special(2) by blast
  then have u: "char_at whole (length whole - 1) \<noteq> CHR ''_''"
    using assms(5) c(1) by (cases whole rule: rev_cases) (simp_all add: char_at_def nth_append)
  have "int_result (Inr (bignorm (Bignum \<lparr>sign = sg, digits = zs\<rparr>))) (if sg then v else - v)"
    using zs(2) by (intro int_result_bignorm) (simp add: big_val_def)
  moreover have "char_at s 0 \<noteq> CHR ''_''" using c(1,3) by (simp add: char_at_def)
  ultimately show ?thesis unfolding bigparse_def len using zs(1) u by simp
qed

lemma cstr_numeral:
  assumes "2 \<le> base" "base \<le> 36" "numeral_of base v s" "length s \<le> 300000000" "sg \<or> 0 < v"
  shows "int_result (rb_cstr_to_inum (Some ((if sg then [] else ''-'') @ s)) base badcheck) (if sg then v else - v)"
proof -
  obtain c t where c: "s = c # t" "c \<noteq> CHR ''+''" "c \<noteq> CHR ''-''" "c \<noteq> CHR ''_''" "\<not> ISSPACE c" "c = CHR ''0'' \<Longrightarrow> t = []"
    using numeral_start[OF assms(3)] by metis
  obtain w where w: "base_width s base = Inr (int w, s)" "base \<le> 2 ^ w" "0 < w" "w \<le> 6"
    using base_width_numeral[OF assms(1,2) c(1)] c(6) by blast
  define whole where "whole = (if sg then [] else ''-'') @ s"
  have skip: "dropWhile (\<lambda>c. ISSPACE c \<or> \<not> badcheck \<and> c = CHR ''_'') whole = whole"
  proof -
    have "\<not> ISSPACE (CHR ''-'')" by (simp add: ISSPACE_def code_def)
    then show ?thesis using c(1,4,5) by (simp add: whole_def)
  qed
  have sgn: "(char_at whole 0 \<noteq> CHR ''-'') = sg"
    "(if char_at whole 0 = CHR ''+'' \<or> char_at whole 0 = CHR ''-'' then tl whole else whole) = s"
    using c(1,2,3) by (auto simp: whole_def char_at_def)
  have at: "char_at s 0 \<noteq> CHR ''+''" "char_at s 0 \<noteq> CHR ''-''" using c(1-3) by (simp_all add: char_at_def)
  have sq: "(if char_at s 0 = CHR ''0'' then CHR ''0'' # dropWhile (\<lambda>c. c = CHR ''0'') s else s) = s"
    using c(1,6) by (auto simp: char_at_def)
  have "w * length s \<le> 6 * 300000000" using w(4) assms(4) by (intro mult_mono) simp_all
  then have len: "s32 (int w * int (length s)) = int (w * length s)" "u32 (int (w * length s)) = int (w * length s)"
    by (simp_all add: s32_id u32_id of_nat_mult[symmetric] del: of_nat_mult)
  have ab: "auto_base s base = base" using assms(1) by (simp add: auto_base_def)
  note unf = rb_cstr_to_inum_def option.case Let_def whole_def[symmetric] skip sgn ab w(1) obind_simps prod.case sq len
  show ?thesis
  proof (cases "w * length s \<le> 32")
    case True
    have ds: "\<forall>c \<in> set s. base_digit base c \<noteq> None" "str_val base s = v" using assms(3) by (auto simp: numeral_of_def)
    have v: "0 \<le> v" using str_val_bounds(1)[OF assms(1) ds(1)] ds(2) by simp
    have "v < base ^ length s" using str_val_bounds(2)[OF assms(1) ds(1)] ds(2) by simp
    also have "\<dots> \<le> (2 ^ w) ^ length s" using assms(1) w(2) by (intro power_mono) simp_all
    also have "\<dots> \<le> 2 ^ 32" unfolding power_mult[symmetric] using True by (intro power_increasing) simp_all
    finally have v32: "v < 4294967296" by simp
    note st = strtoul_numeral[OF assms(1,3) v32]
    have t: "int (w * length s) \<le> 32" "s \<noteq> []" "char_at [] 0 \<noteq> CHR ''_''"
      using True c(1) by (simp_all del: of_nat_mult add: char_at_def)
    show ?thesis
      using short_result[OF v v32 assms(5)] t at unfolding unf st
      by (simp del: of_nat_mult split del: if_split)
  next
    case False
    then have "\<not> int (w * length s) \<le> 32" by linarith
    then show ?thesis
      using bigparse_numeral[OF assms(1-3) w(2) whole_def[symmetric], of sg badcheck] at unfolding unf
      by (simp del: of_nat_mult split del: if_split)
  qed
qed

section \<open>Eight byte integers round trip\<close>

lemma bytes_digits_concat: "bytes_digits (concat (map digit_bytes ds)) = ds"
proof (induction ds)
  case (Cons d ds)
  have "ucast (ucast d :: byte) OR push_bit 8 (ucast (ucast (drop_bit 8 d) :: byte)) = d"
    by (rule bit_word_eqI) (auto simp: bit_simps)
  then show ?case using Cons by (simp add: digit_bytes_def)
qed simp

lemma not_digit_bytes: "map (\<lambda>c. NOT c) (concat (map digit_bytes ds)) = concat (map digit_bytes (map (\<lambda>d. NOT d) ds))"
proof (induction ds)
  case (Cons d ds)
  have "map (\<lambda>c. NOT c) (digit_bytes d) = digit_bytes (NOT d)"
    by (auto simp: digit_bytes_def intro!: bit_word_eqI simp: bit_simps)
  then show ?case using Cons by simp
qed simp

lemma top_digit_neg: "drop_bit 15 (d::bdigit) \<noteq> 0 \<longleftrightarrow> 32768 \<le> uint d"
proof -
  have "uint (drop_bit 15 d) = uint d div 32768" by (simp add: drop_bit_eq_div uint_div)
  moreover have "uint d div 32768 \<noteq> 0 \<longleftrightarrow> 32768 \<le> uint d"
    using uint16_bounds[of d] by (auto simp: div_int_pos_iff zdiv_eq_0_iff)
  ultimately show ?thesis by (metis uint_0_iff)
qed

text \<open>The buffer holds the four digits of the magnitude, complemented when negative.\<close>

lemma quad_pack_digits:
  assumes "big_operand x = Inr b" "length (digits b) \<le> 4"
  obtains ds where "rb_quad_pack x = Inr (concat (map digit_bytes (if sign b then ds else map (\<lambda>d. NOT d) ds)))"
    "length ds = 4" "digs_val ds = digs_val (digits b)"
proof -
  define ds where "ds = digits b @ replicate (4 - length (digits b)) 0"
  have z: "concat (replicate k (digit_bytes 0)) = replicate (2 * k) 0" for k
    by (induction k) (simp_all add: digit_bytes_def)
  have "8 - length (digits b) * 2 = 2 * (4 - length (digits b))" by simp
  then have "concat (map digit_bytes (digits b)) @ replicate (8 - length (digits b) * 2) 0 = concat (map digit_bytes ds)"
    using z by (simp add: ds_def)
  then have "rb_quad_pack x = Inr (concat (map digit_bytes (if sign b then ds else map (\<lambda>d. NOT d) ds)))"
    using assms not_digit_bytes[of ds] by (simp add: rb_quad_pack_def Let_def)
  then show ?thesis using that[of ds] assms(2) by (simp add: ds_def digs_val_append)
qed

lemma int_result_eq: "int_result r n \<Longrightarrow> value_ok x \<Longrightarrow> int_val x = Some n \<Longrightarrow> r = Inr x"
  using int_result_unique[of r n "Inr x"] by (simp add: int_result_def)

definition value_digits :: "value \<Rightarrow> nat" where
  "value_digits x = (case x of Bignum b \<Rightarrow> length (digits b) | _ \<Rightarrow> 0)"

lemma value_magnitude:
  assumes "value_ok x" "int_val x = Some n"
  shows "\<exists>N. 0 < N \<and> N \<le> 31 + 16 * value_digits x \<and> \<bar>n\<bar> < 2 ^ N"
proof (cases x)
  case (Fixnum m)
  then have "FIXABLE n" using assms by simp
  then have "\<bar>n\<bar> < 2 ^ 31" unfolding fixable_defs by auto
  then show ?thesis by (intro exI[of _ 31]) simp
next
  case (Bignum b)
  have "\<bar>n\<bar> < 65536 ^ length (digits b)"
    using digs_val_less[of "digits b"] assms(2) Bignum by (auto simp: big_val_def)
  then have "\<bar>n\<bar> < 2 ^ (16 * length (digits b))" by (simp add: power_mult)
  then show ?thesis
    using assms(1) Bignum by (intro exI[of _ "16 * length (digits b)"]) (simp add: big_ok_def value_digits_def)
qed (use assms in simp_all)

lemma big2str_print:
  assumes "2 \<le> base" "base \<le> 36" "value_ok x" "int_val x = Some n" "estimate_fits base (value_digits x)"
  shows "rb_big2str x base = Inr ((if 0 \<le> n then [] else ''-'') @ repr base \<bar>n\<bar>)"
  using fix2str_correct[OF assms(1,2)] big2str_correct[OF assms(1,2)] big_ok_sign assms(3-5)
  by (cases x) (auto simp: big_ok_def value_digits_def)








section \<open>Properties\<close>



text \<open>
  C13. Parsing the numeral of a number, with or without a minus sign, in its base returns the canonical
  object of the number, for short numerals through \<open>strtoul\<close> and for long ones through the digit
  loop, whose buffer is never overrun.
\<close>

theorem text_to_integer:
  assumes "2 \<le> base" "base \<le> 36" "numeral_of base v s" "length s \<le> 300000000" "sg \<or> 0 < v"
  shows "int_result (rb_cstr_to_inum (Some ((if sg then [] else ''-'') @ s)) base badcheck) (if sg then v else - v)"
  by (rule cstr_numeral[OF assms])

theorem text_to_integer_witness:
  "int_result (rb_cstr_to_inum (Some ''-123456789012345'') 10 True) (- 123456789012345)"
  using text_to_integer[of 10 123456789012345 "''123456789012345''" False True]
  by (simp add: numeral_of_def str_val_def base_digit_def char_digit_def code_def ruby_digitmap_def)

text \<open>An integer object printed in a base and parsed in the same base is the same object.\<close>

theorem text_roundtrip:
  assumes "2 \<le> base" "base \<le> 36" "value_ok x" "int_val x = Some n"
    and "estimate_fits base (value_digits x)" "value_digits x < 18000000"
  shows "obind (rb_big2str x base) (\<lambda>s. rb_cstr_to_inum (Some s) base badcheck) = Inr x"
proof -
  obtain N where N: "0 < N" "N \<le> 31 + 16 * value_digits x" "\<bar>n\<bar> < 2 ^ N"
    using value_magnitude[OF assms(3,4)] by blast
  have "\<bar>n\<bar> < base ^ N" using N(3) assms(1) power_mono[of 2 base N] by simp
  then have len: "length (repr base \<bar>n\<bar>) \<le> 300000000"
    using repr_length_le[OF assms(1) _ _ N(1), of "\<bar>n\<bar>"] N(2) assms(6) by simp
  have "rb_big2str x base = Inr ((if 0 \<le> n then [] else ''-'') @ repr base \<bar>n\<bar>)"
    by (rule big2str_print[OF assms(1-5)])
  moreover have "int_result (rb_cstr_to_inum (Some ((if 0 \<le> n then [] else ''-'') @ repr base \<bar>n\<bar>)) base badcheck) n"
    using cstr_numeral[OF assms(1,2) repr_numeral[OF assms(1,2)] len, of "0 \<le> n" badcheck] by (auto split: if_splits)
  ultimately show ?thesis using int_result_eq[OF _ assms(3,4)] by simp
qed

theorem text_roundtrip_witness:
  "obind (rb_big2str (Bignum \<lparr>sign = False, digits = [7, 8, 9]\<rparr>) 7) (\<lambda>s. rb_cstr_to_inum (Some s) 7 True) =
   Inr (Bignum \<lparr>sign = False, digits = [7, 8, 9]\<rparr>)"
  using text_roundtrip[of 7 "Bignum \<lparr>sign = False, digits = [7, 8, 9]\<rparr>" "- 38655229959"]
  by (simp add: value_digits_def estimate_fits_def big_ok_def big_val_def fixable_defs)

text \<open>
  An integer object of magnitude below \<open>2^63\<close> packed into eight bytes and unpacked as a signed
  quantity is the same object. The bytes of a negative number are the one's complement of its
  magnitude: those of -1 are the two's complement of -2, and eight bytes of ones unpack to 0.
\<close>

theorem quad_roundtrip:
  assumes "value_ok x" "int_val x = Some n" "\<bar>n\<bar> < 2 ^ 63"
  shows "(\<exists>buf. rb_quad_pack x = Inr buf \<and> length buf = 8 \<and> rb_quad_unpack buf True = x) \<and>
    rb_quad_pack (Fixnum (- 1)) = Inr [0xFE, 0xFF, 0xFF, 0xFF, 0xFF, 0xFF, 0xFF, 0xFF] \<and>
    rb_quad_unpack (replicate 8 0xFF) True = Fixnum 0"
proof (intro conjI)
  obtain b where b: "big_operand x = Inr b" "big_val b = n" "big_op b" "sign b \<longleftrightarrow> 0 \<le> n"
    using big_operand_correct[OF assms(1,2)] by blast
  have mag: "digs_val (digits b) = \<bar>n\<bar>" using b(2) by (auto simp: big_val_def)
  have "length (digits b) \<le> 4"
  proof (rule ccontr)
    assume "\<not> ?thesis"
    then have l: "5 \<le> length (digits b)" by simp
    then have "last (digits b) \<noteq> 0" using b(3) by (auto simp: big_op_def)
    then have "65536 ^ (length (digits b) - 1) \<le> digs_val (digits b)" using b(3) by (intro digs_val_ge) (auto simp: big_op_def)
    moreover have "(65536::int) ^ 4 \<le> 65536 ^ (length (digits b) - 1)" using l by (intro power_increasing) simp_all
    ultimately show False using assms(3) mag by simp
  qed
  then obtain ds where ds: "rb_quad_pack x = Inr (concat (map digit_bytes (if sign b then ds else map (\<lambda>d. NOT d) ds)))"
    "length ds = 4" "digs_val ds = \<bar>n\<bar>"
    using quad_pack_digits[OF b(1)] mag by metis
  obtain a0 a1 a2 a3 where a: "ds = [a0, a1, a2, a3]" using ds(2) by (auto simp: numeral_eq_Suc length_Suc_conv)
  then have "uint a0 + (65536 * uint a1 + (4294967296 * uint a2 + 281474976710656 * uint a3)) = \<bar>n\<bar>"
    using ds(3) by simp
  then have top: "uint a3 < 32768"
    using assms(3)[simplified] uint16_bounds(1)[of a0] uint16_bounds(1)[of a1] uint16_bounds(1)[of a2] by linarith
  then have ntop: "32768 \<le> uint (NOT a3)" by (simp add: uint_NOT)
  define buf where "buf = concat (map digit_bytes (if sign b then ds else map (\<lambda>d. NOT d) ds))"
  have bd: "bytes_digits buf = (if sign b then ds else map (\<lambda>d. NOT d) ds)"
    by (simp add: buf_def bytes_digits_concat)
  have neg: "BNEG buf \<longleftrightarrow> \<not> sign b" using top ntop a by (simp add: BNEG_def bd top_digit_neg)
  have "map (\<lambda>c. NOT c) buf = concat (map digit_bytes ds)" if "\<not> sign b"
    using that not_digit_bytes[of "map (\<lambda>d. NOT d) ds"] by (simp add: buf_def comp_def)
  then have un: "rb_quad_unpack buf True = bignorm (Bignum \<lparr>sign = sign b, digits = ds\<rparr>)"
    using neg bd by (auto simp: rb_quad_unpack_def bytes_digits_concat)
  have "big_val \<lparr>sign = sign b, digits = ds\<rparr> = n" using ds(3) b(4) by (simp add: big_val_def)
  then have "rb_quad_unpack buf True = x" using un bignorm_eqI[OF assms(1)] assms(2) by simp
  moreover have "length buf = 8" using a by (simp add: buf_def digit_bytes_def)
  ultimately show "\<exists>buf. rb_quad_pack x = Inr buf \<and> length buf = 8 \<and> rb_quad_unpack buf True = x"
    using ds(1) buf_def by blast
  show "rb_quad_pack (Fixnum (- 1)) = Inr [0xFE, 0xFF, 0xFF, 0xFF, 0xFF, 0xFF, 0xFF, 0xFF]" by code_simp
  show "rb_quad_unpack (replicate 8 0xFF) True = Fixnum 0" by code_simp
qed

theorem quad_roundtrip_witness:
  "\<exists>buf. rb_quad_pack (Bignum \<lparr>sign = False, digits = [1, 2, 3]\<rparr>) = Inr buf \<and> length buf = 8 \<and>
     rb_quad_unpack buf True = Bignum \<lparr>sign = False, digits = [1, 2, 3]\<rparr>"
  using quad_roundtrip[of "Bignum \<lparr>sign = False, digits = [1, 2, 3]\<rparr>" "- 12885032961", THEN conjunct1]
  by (simp add: big_ok_def big_val_def fixable_defs)

end
