(* ===== verification/RArray.thy ===== *)
theory RArray
  imports Bignum
begin

text \<open>
  The storage layer of \<^verbatim>\<open>src/ruby/array.c\<close>. A Ruby array is a \<open>struct RArray\<close> that points into a
  block of cells; several arrays may point into the same block (\<open>ELTS_SHARED\<close>), so the model keeps an
  explicit heap: the list of the blocks \<open>malloc\<close> has handed out and the list of the array objects.
  A cell is \<open>None\<close> until it is written; a block that has been freed or moved has no cells. Any
  access outside a block, or a read of a cell never written, is the outcome \<open>Undefined\<close>.

  The second half of the theory states the ownership discipline behind the copy-on-write scheme
  (\<open>heap_ok\<close>), and proves that an array that may be written is the only one that sees its block.
\<close>

section \<open>Objects, blocks and the heap\<close>

datatype VALUE =
    Qnil
  | Num "value"
  | Sym nat
  | Ary nat
  | Range VALUE VALUE bool
  | Other nat

datatype pointer = NULL | Ptr nat int

datatype aux = Capa int | Shared_by nat

record rarray =
  ptr :: pointer
  alen :: int
  aaux :: aux
  elts_shared :: bool
  frozen :: bool
  tmplock :: bool
  tainted :: bool

record heap =
  bufs :: "VALUE option list list"
  arys :: "rarray list"
  safe_level :: int

type_synonym 'a heapM = "heap \<Rightarrow> 'a outcome \<times> heap"

definition ret :: "'a \<Rightarrow> 'a heapM" where
  "ret x h = (Inr x, h)"

definition throw :: "rb_error \<Rightarrow> 'a heapM" where
  "throw e h = (Inl e, h)"

definition bind :: "'a heapM \<Rightarrow> ('a \<Rightarrow> 'b heapM) \<Rightarrow> 'b heapM" where
  "bind m f h = (case m h of (Inl e, h') \<Rightarrow> (Inl e, h') | (Inr x, h') \<Rightarrow> f x h')"

definition lift :: "'a outcome \<Rightarrow> 'a heapM" where
  "lift r h = (r, h)"

definition get_ary :: "nat \<Rightarrow> rarray heapM" where
  "get_ary a h = (if a < length (arys h) then (Inr (arys h ! a), h) else (Inl Undefined, h))"

definition upd_ary :: "nat \<Rightarrow> (rarray \<Rightarrow> rarray) \<Rightarrow> unit heapM" where
  "upd_ary a f h = (if a < length (arys h) then (Inr (), h\<lparr>arys := (arys h)[a := f (arys h ! a)]\<rparr>)
     else (Inl Undefined, h))"

text \<open>\<open>NEWOBJ\<close>: a new object at the end of the object list. Garbage collection is not modelled.\<close>

definition NEWOBJ :: "rarray \<Rightarrow> nat heapM" where
  "NEWOBJ r h = (Inr (length (arys h)), h\<lparr>arys := arys h @ [r]\<rparr>)"

text \<open>The union member \<open>aux.capa\<close>; reading it while \<open>aux.shared\<close> is stored is meaningless.\<close>

definition capa :: "rarray \<Rightarrow> int outcome" where
  "capa r = (case aaux r of Capa c \<Rightarrow> Inr c | Shared_by s \<Rightarrow> Inl Undefined)"

text \<open>
  \<open>sizeof(VALUE)*(n)\<close> is computed at 32 bits without sign and passed as a \<open>long\<close>. \<open>malloc\<close> itself
  is taken to succeed.
\<close>

definition byte_size :: "int \<Rightarrow> int" where
  "byte_size n = s32 (u32 (4 * n))"

definition xmalloc :: "int \<Rightarrow> pointer heapM" where
  "xmalloc sz h =
     (if sz < 0 then (Inl NoMemError, h)
      else (Inr (Ptr (length (bufs h)) 0), h\<lparr>bufs := bufs h @ [replicate (nat (sz div 4)) None]\<rparr>))"

definition resize :: "nat \<Rightarrow> VALUE option list \<Rightarrow> VALUE option list" where
  "resize n xs = take n xs @ replicate (n - length xs) None"

definition xrealloc :: "pointer \<Rightarrow> int \<Rightarrow> pointer heapM" where
  "xrealloc p sz h =
     (if sz < 0 then (Inl ArgError, h)
      else (case p of
          NULL \<Rightarrow> xmalloc sz h
        | Ptr b off \<Rightarrow>
            if off = 0 \<and> b < length (bufs h) then
              (Inr (Ptr (length (bufs h)) 0),
               h\<lparr>bufs := (bufs h)[b := []] @ [resize (nat (sz div 4)) (bufs h ! b)]\<rparr>)
            else (Inl Undefined, h)))"

definition ALLOC_N :: "int \<Rightarrow> pointer heapM" where
  "ALLOC_N n = xmalloc (byte_size n)"

definition REALLOC_N :: "nat \<Rightarrow> int \<Rightarrow> unit heapM" where
  "REALLOC_N a n =
     bind (get_ary a) (\<lambda>r. bind (xrealloc (ptr r) (byte_size n)) (\<lambda>p. upd_ary a (\<lambda>r. r\<lparr>ptr := p\<rparr>)))"

text \<open>
  A reallocation comes with an assignment of the new capacity, before or after it.
\<close>

definition set_capa :: "nat \<Rightarrow> int \<Rightarrow> unit heapM" where
  "set_capa a n = upd_ary a (\<lambda>r. r\<lparr>aaux := Capa n\<rparr>)"

definition realloc_then_capa :: "nat \<Rightarrow> int \<Rightarrow> unit heapM" where
  "realloc_then_capa a n = bind (REALLOC_N a n) (\<lambda>_. set_capa a n)"

definition capa_then_realloc :: "nat \<Rightarrow> int \<Rightarrow> unit heapM" where
  "capa_then_realloc a n = bind (set_capa a n) (\<lambda>_. REALLOC_N a n)"

definition free_block :: "pointer \<Rightarrow> unit heapM" where
  "free_block p h =
     (case p of
        NULL \<Rightarrow> (Inr (), h)
      | Ptr b off \<Rightarrow>
          if off = 0 \<and> b < length (bufs h) then (Inr (), h\<lparr>bufs := (bufs h)[b := []]\<rparr>)
          else (Inl Undefined, h))"

definition ptr_add :: "pointer \<Rightarrow> int \<Rightarrow> pointer" where
  "ptr_add p n = (case p of NULL \<Rightarrow> NULL | Ptr b off \<Rightarrow> Ptr b (off + n))"

text \<open>A run of \<open>n\<close> cells at a pointer; an empty run may start anywhere.\<close>

definition in_block :: "heap \<Rightarrow> pointer \<Rightarrow> int \<Rightarrow> bool" where
  "in_block h p n \<longleftrightarrow> (case p of
       NULL \<Rightarrow> False
     | Ptr b off \<Rightarrow> b < length (bufs h) \<and> 0 \<le> off \<and> off + n \<le> int (length (bufs h ! b)))"

definition load :: "pointer \<Rightarrow> int \<Rightarrow> VALUE option list heapM" where
  "load p n h =
     (if n = 0 then (Inr [], h)
      else if 0 < n \<and> in_block h p n then
        (case p of NULL \<Rightarrow> (Inl Undefined, h)
         | Ptr b off \<Rightarrow> (Inr (take (nat n) (drop (nat off) (bufs h ! b))), h))
      else (Inl Undefined, h))"

definition poke :: "VALUE option list \<Rightarrow> nat \<Rightarrow> VALUE option list \<Rightarrow> VALUE option list" where
  "poke xs i ys = take i xs @ ys @ drop (i + length ys) xs"

definition fill_cells :: "pointer \<Rightarrow> VALUE option list \<Rightarrow> unit heapM" where
  "fill_cells p ys h =
     (if ys = [] then (Inr (), h)
      else if in_block h p (int (length ys)) then
        (case p of NULL \<Rightarrow> (Inl Undefined, h)
         | Ptr b off \<Rightarrow> (Inr (), h\<lparr>bufs := (bufs h)[b := poke (bufs h ! b) (nat off) ys]\<rparr>))
      else (Inl Undefined, h))"

definition overlap :: "pointer \<Rightarrow> pointer \<Rightarrow> int \<Rightarrow> bool" where
  "overlap p q n \<longleftrightarrow> (case (p, q) of
       (Ptr b i, Ptr c j) \<Rightarrow> b = c \<and> i < j + n \<and> j < i + n
     | _ \<Rightarrow> False)"

definition MEMMOVE :: "pointer \<Rightarrow> pointer \<Rightarrow> int \<Rightarrow> unit heapM" where
  "MEMMOVE p q n = bind (load q n) (\<lambda>xs. fill_cells p xs)"

definition MEMCPY :: "pointer \<Rightarrow> pointer \<Rightarrow> int \<Rightarrow> unit heapM" where
  "MEMCPY p q n = (if n \<noteq> 0 \<and> overlap p q n then throw Undefined else MEMMOVE p q n)"

text \<open>\<open>memfill\<close> counts \<open>size\<close> down to zero; a negative count would run through memory.\<close>

definition memfill :: "pointer \<Rightarrow> int \<Rightarrow> VALUE \<Rightarrow> unit heapM" where
  "memfill mem sz v = (if sz < 0 then throw Undefined else fill_cells mem (replicate (nat sz) (Some v)))"

definition rb_mem_clear :: "pointer \<Rightarrow> int \<Rightarrow> unit heapM" where
  "rb_mem_clear mem sz = memfill mem sz Qnil"

text \<open>\<open>p[i]\<close> as an expression and as the target of an assignment.\<close>

definition cell :: "pointer \<Rightarrow> int \<Rightarrow> VALUE heapM" where
  "cell p i = bind (load (ptr_add p i) 1) (\<lambda>xs.
     case xs of [Some v] \<Rightarrow> ret v | _ \<Rightarrow> throw Undefined)"

definition set_cell :: "pointer \<Rightarrow> int \<Rightarrow> VALUE \<Rightarrow> unit heapM" where
  "set_cell p i v = fill_cells (ptr_add p i) [Some v]"

section \<open>Allocation, write checks and the growing operations\<close>

definition ARY_DEFAULT_SIZE :: int where "ARY_DEFAULT_SIZE = 16"

definition rb_ary_modify_check :: "nat \<Rightarrow> unit heapM" where
  "rb_ary_modify_check a = bind (get_ary a) (\<lambda>r h.
     if frozen r then (Inl FrozenError, h)
     else if tmplock r then (Inl RuntimeError, h)
     else if \<not> tainted r \<and> safe_level h \<ge> 4 then (Inl SecurityError, h)
     else (Inr (), h))"

definition rb_ary_modify :: "nat \<Rightarrow> unit heapM" where
  "rb_ary_modify a =
     bind (rb_ary_modify_check a) (\<lambda>_.
     bind (get_ary a) (\<lambda>r.
     if elts_shared r then
       bind (ALLOC_N (alen r)) (\<lambda>p.
       bind (upd_ary a (\<lambda>r. r\<lparr>elts_shared := False, aaux := Capa (alen r)\<rparr>)) (\<lambda>_.
       bind (MEMCPY p (ptr r) (alen r)) (\<lambda>_.
       upd_ary a (\<lambda>r. r\<lparr>ptr := p\<rparr>))))
     else ret ()))"

definition rb_ary_frozen_p :: "nat \<Rightarrow> bool heapM" where
  "rb_ary_frozen_p a = bind (get_ary a) (\<lambda>r.
     if frozen r then ret True else if tmplock r then ret True else ret False)"

definition ary_alloc :: "nat heapM" where
  "ary_alloc = NEWOBJ \<lparr>ptr = NULL, alen = 0, aaux = Capa 0, elts_shared = False, frozen = False,
                       tmplock = False, tainted = False\<rparr>"

definition ary_new :: "int \<Rightarrow> nat heapM" where
  "ary_new n =
     bind ary_alloc (\<lambda>a.
     if n < 0 then throw ArgError
     else if n > 0 \<and> u32 (n * 4) \<le> u32 n then throw ArgError
     else (let n = (if n = 0 then 1 else n) in
       bind (ALLOC_N n) (\<lambda>p.
       bind (upd_ary a (\<lambda>r. r\<lparr>ptr := p, aaux := Capa n\<rparr>)) (\<lambda>_.
       ret a))))"

definition rb_ary_new2 :: "int \<Rightarrow> nat heapM" where
  "rb_ary_new2 n = ary_new n"

definition rb_ary_new :: "nat heapM" where
  "rb_ary_new = rb_ary_new2 ARY_DEFAULT_SIZE"

definition rb_ary_new3 :: "VALUE list \<Rightarrow> nat heapM" where
  "rb_ary_new3 vs =
     bind (rb_ary_new2 (int (length vs))) (\<lambda>a.
     bind (get_ary a) (\<lambda>r.
     bind (fill_cells (ptr r) (map Some vs)) (\<lambda>_.
     bind (upd_ary a (\<lambda>r. r\<lparr>alen := int (length vs)\<rparr>)) (\<lambda>_.
     ret a))))"

definition rb_ary_new4 :: "int \<Rightarrow> VALUE list option \<Rightarrow> nat heapM" where
  "rb_ary_new4 n elts =
     bind (rb_ary_new2 n) (\<lambda>a.
     bind (get_ary a) (\<lambda>r.
     bind (case elts of
         Some vs \<Rightarrow> if n > 0 then
            (if n \<le> int (length vs) then fill_cells (ptr r) (map Some (take (nat n) vs))
             else throw Undefined) else ret ()
       | None \<Rightarrow> ret ()) (\<lambda>_.
     bind (upd_ary a (\<lambda>r. r\<lparr>alen := n\<rparr>)) (\<lambda>_.
     ret a))))"

definition rb_assoc_new :: "VALUE \<Rightarrow> VALUE \<Rightarrow> nat heapM" where
  "rb_assoc_new car cdr =
     bind (rb_ary_new2 2) (\<lambda>a.
     bind (get_ary a) (\<lambda>r.
     bind (set_cell (ptr r) 0 car) (\<lambda>_.
     bind (set_cell (ptr r) 1 cdr) (\<lambda>_.
     bind (upd_ary a (\<lambda>r. r\<lparr>alen := 2\<rparr>)) (\<lambda>_.
     ret a)))))"

definition rb_ary_s_create :: "int \<Rightarrow> VALUE list \<Rightarrow> nat heapM" where
  "rb_ary_s_create argc argv =
     bind ary_alloc (\<lambda>a.
     if argc < 0 then throw ArgError
     else
       bind (if argc > 0 then
           bind (ALLOC_N argc) (\<lambda>p.
           bind (upd_ary a (\<lambda>r. r\<lparr>ptr := p\<rparr>)) (\<lambda>_.
           if argc \<le> int (length argv) then fill_cells p (map Some (take (nat argc) argv))
           else throw Undefined))
         else ret ()) (\<lambda>_.
       bind (upd_ary a (\<lambda>r. r\<lparr>alen := argc, aaux := Capa argc\<rparr>)) (\<lambda>_.
       ret a)))"

definition rb_ary_store :: "nat \<Rightarrow> int \<Rightarrow> VALUE \<Rightarrow> unit heapM" where
  "rb_ary_store a idx v =
     bind (get_ary a) (\<lambda>r.
     (let idx' = (if idx < 0 then idx + alen r else idx) in
     if idx' < 0 then throw IndexError
     else
       bind (rb_ary_modify a) (\<lambda>_.
       bind (get_ary a) (\<lambda>r.
       bind (lift (capa r)) (\<lambda>c.
       bind (if idx' \<ge> c then
           (let half = c_quot c 2;
                new_capa = s32 ((if half < ARY_DEFAULT_SIZE then ARY_DEFAULT_SIZE else half) + idx') in
            if s32 (new_capa * 4) \<le> new_capa then throw ArgError
            else realloc_then_capa a new_capa)
         else ret ()) (\<lambda>_.
       bind (get_ary a) (\<lambda>r.
       bind (if idx' > alen r then rb_mem_clear (ptr_add (ptr r) (alen r)) (s32 (idx' - alen r + 1))
             else ret ()) (\<lambda>_.
       bind (if idx' \<ge> alen r then upd_ary a (\<lambda>r. r\<lparr>alen := s32 (idx' + 1)\<rparr>) else ret ()) (\<lambda>_.
       set_cell (ptr r) idx' v)))))))))"

definition rb_ary_push :: "nat \<Rightarrow> VALUE \<Rightarrow> nat heapM" where
  "rb_ary_push a item =
     bind (get_ary a) (\<lambda>r. bind (rb_ary_store a (alen r) item) (\<lambda>_. ret a))"

fun rb_ary_push_m :: "VALUE list \<Rightarrow> nat \<Rightarrow> nat heapM" where
  "rb_ary_push_m [] a = ret a"
| "rb_ary_push_m (v # argv) a = bind (rb_ary_push a v) (\<lambda>_. rb_ary_push_m argv a)"

text \<open>The expression \<open>RARRAY(ary)->ptr[--RARRAY(ary)->len]\<close>.\<close>

definition take_last :: "nat \<Rightarrow> VALUE heapM" where
  "take_last a =
     bind (upd_ary a (\<lambda>r. r\<lparr>alen := alen r - 1\<rparr>)) (\<lambda>_.
     bind (get_ary a) (\<lambda>r.
     cell (ptr r) (alen r)))"

definition rb_ary_pop :: "nat \<Rightarrow> VALUE heapM" where
  "rb_ary_pop a =
     bind (rb_ary_modify_check a) (\<lambda>_.
     bind (get_ary a) (\<lambda>r.
     if alen r = 0 then ret Qnil
     else
       bind (if elts_shared r then ret ()
             else bind (lift (capa r)) (\<lambda>c.
               if alen r * 2 < c \<and> c > ARY_DEFAULT_SIZE then
                 capa_then_realloc a (alen r * 2)
               else ret ())) (\<lambda>_.
       take_last a)))"

definition ary_make_shared :: "nat \<Rightarrow> nat heapM" where
  "ary_make_shared a =
     bind (get_ary a) (\<lambda>r.
     if \<not> elts_shared r then
       bind (NEWOBJ \<lparr>ptr = ptr r, alen = alen r, aaux = aaux r, elts_shared = False,
                      frozen = True, tmplock = False, tainted = False\<rparr>) (\<lambda>s.
       bind (upd_ary a (\<lambda>r. r\<lparr>aaux := Shared_by s, elts_shared := True\<rparr>)) (\<lambda>_.
       ret s))
     else (case aaux r of Shared_by s \<Rightarrow> ret s | Capa c \<Rightarrow> throw Undefined))"

definition rb_ary_shift :: "nat \<Rightarrow> VALUE heapM" where
  "rb_ary_shift a =
     bind (rb_ary_modify_check a) (\<lambda>_.
     bind (get_ary a) (\<lambda>r.
     if alen r = 0 then ret Qnil
     else
       bind (cell (ptr r) 0) (\<lambda>top.
       bind (ary_make_shared a) (\<lambda>_.
       bind (upd_ary a (\<lambda>r. r\<lparr>ptr := ptr_add (ptr r) 1, alen := alen r - 1\<rparr>)) (\<lambda>_.
       ret top)))))"

definition rb_ary_unshift :: "nat \<Rightarrow> VALUE \<Rightarrow> nat heapM" where
  "rb_ary_unshift a item =
     bind (rb_ary_modify a) (\<lambda>_.
     bind (get_ary a) (\<lambda>r.
     bind (lift (capa r)) (\<lambda>c.
     bind (if alen r = c then
         (let half = c_quot c 2;
              capa_inc = (if half < ARY_DEFAULT_SIZE then ARY_DEFAULT_SIZE else half) in
          capa_then_realloc a (s32 (c + capa_inc)))
       else ret ()) (\<lambda>_.
     bind (get_ary a) (\<lambda>r.
     bind (MEMMOVE (ptr_add (ptr r) 1) (ptr r) (alen r)) (\<lambda>_.
     bind (upd_ary a (\<lambda>r. r\<lparr>alen := alen r + 1\<rparr>)) (\<lambda>_.
     bind (set_cell (ptr r) 0 item) (\<lambda>_.
     ret a))))))))"

definition rb_ary_unshift_m :: "int \<Rightarrow> VALUE list \<Rightarrow> nat \<Rightarrow> nat heapM" where
  "rb_ary_unshift_m argc argv a =
     bind (get_ary a) (\<lambda>r.
     (let len = alen r in
     if argc < 0 then throw ArgError
     else if argc = 0 then ret a
     else
       bind (rb_ary_store a (s32 (len + argc - 1)) Qnil) (\<lambda>_.
       bind (get_ary a) (\<lambda>r.
       bind (MEMMOVE (ptr_add (ptr r) argc) (ptr r) len) (\<lambda>_.
       bind (if argc \<le> int (length argv) then fill_cells (ptr r) (map Some (take (nat argc) argv))
             else throw Undefined) (\<lambda>_.
       ret a))))))"

section \<open>Running heap programs\<close>

named_theorems heap_simps

lemma heap_run [simp, heap_simps]:
  "ret x h = (Inr x, h)"
  "throw e h = (Inl e, h)"
  "lift r h = (r, h)"
  "bind m f h = (case m h of (Inl e, h') \<Rightarrow> (Inl e, h') | (Inr x, h') \<Rightarrow> f x h')"
  by (simp_all add: ret_def throw_def lift_def bind_def)

lemma object_access [simp, heap_simps]:
  "a < length (arys h) \<Longrightarrow> get_ary a h = (Inr (arys h ! a), h)"
  "a < length (arys h) \<Longrightarrow> upd_ary a f h = (Inr (), h\<lparr>arys := (arys h)[a := f (arys h ! a)]\<rparr>)"
  by (simp_all add: get_ary_def upd_ary_def)

lemma byte_size_exact: "0 \<le> n \<Longrightarrow> 4 * n < 2147483648 \<Longrightarrow> byte_size n = 4 * n"
  by (simp add: byte_size_def wrap_simps)

lemma ALLOC_N_run:
  "0 \<le> n \<Longrightarrow> 4 * n < 2147483648 \<Longrightarrow>
     ALLOC_N n h = (Inr (Ptr (length (bufs h)) 0), h\<lparr>bufs := bufs h @ [replicate (nat n) None]\<rparr>)"
  by (simp add: ALLOC_N_def xmalloc_def byte_size_exact)

lemma resize_props [simp]:
  "length (resize n xs) = n"
  "k \<le> n \<Longrightarrow> k \<le> length xs \<Longrightarrow> take k (resize n xs) = take k xs"
  by (simp_all add: resize_def min_def)

lemma poke_props [simp]:
  "i + length ys \<le> length xs \<Longrightarrow> length (poke xs i ys) = length xs"
  "n \<le> i \<Longrightarrow> i \<le> length xs \<Longrightarrow> take n (poke xs i ys) = take n xs"
  by (auto simp: poke_def min_def)

lemma take_poke_end:
  "i \<le> length xs \<Longrightarrow> take (i + length ys) (poke xs i ys) = take i xs @ ys"
  by (simp add: poke_def min_def)

lemma take_poke_beyond:
  assumes "i + length ys \<le> n" "n \<le> length xs"
  shows "take n (poke xs i ys) = take i xs @ ys @ drop (i + length ys) (take n xs)"
proof -
  have "take n xs = take i xs \<and> ys = []" if "n \<le> i"
    using assms that by (cases ys) simp_all
  then show ?thesis using assms by (auto simp: poke_def drop_take min_def)
qed

section \<open>The ownership discipline\<close>

text \<open>The block an array points into, its elements, and whether a write check lets it through.\<close>

definition blk :: "rarray \<Rightarrow> nat option" where
  "blk r = (case ptr r of NULL \<Rightarrow> None | Ptr b off \<Rightarrow> Some b)"

definition cells :: "VALUE option list list \<Rightarrow> rarray \<Rightarrow> VALUE option list" where
  "cells bs r = (case ptr r of NULL \<Rightarrow> [] | Ptr b off \<Rightarrow> take (nat (alen r)) (drop (nat off) (bs ! b)))"

definition ary_list :: "heap \<Rightarrow> nat \<Rightarrow> VALUE list" where
  "ary_list h a = map the (cells (bufs h) (arys h ! a))"

definition writable :: "heap \<Rightarrow> nat \<Rightarrow> bool" where
  "writable h a \<longleftrightarrow> a < length (arys h) \<and> \<not> frozen (arys h ! a) \<and> \<not> tmplock (arys h ! a) \<and>
     (tainted (arys h ! a) \<or> safe_level h < 4)"

definition owned :: "heap \<Rightarrow> nat \<Rightarrow> bool" where
  "owned h a \<longleftrightarrow> a < length (arys h) \<and> \<not> frozen (arys h ! a) \<and> \<not> elts_shared (arys h ! a)"

lemma owned_iff: "writable h a \<Longrightarrow> owned h a \<longleftrightarrow> \<not> elts_shared (arys h ! a)"
  by (auto simp: owned_def writable_def)

text \<open>
  \<open>rep_ok\<close> ties one object to its block: the elements lie inside the block and have been written;
  an array that does not share points at the start of its block and its capacity is the size of
  the block. \<open>heap_ok\<close> adds the ownership of blocks: every sharing array names a frozen owner of
  the same block, and a block has one owner.
\<close>

definition rep_ok :: "VALUE option list list \<Rightarrow> rarray \<Rightarrow> bool" where
  "rep_ok bs r \<longleftrightarrow> 0 \<le> alen r \<and> (case ptr r of
       NULL \<Rightarrow> alen r = 0 \<and> (\<not> elts_shared r \<longrightarrow> aaux r = Capa 0)
     | Ptr b off \<Rightarrow>
         b < length bs \<and> 0 \<le> off \<and> off + alen r \<le> int (length (bs ! b)) \<and>
         4 * int (length (bs ! b)) < 2147483648 \<and> None \<notin> set (cells bs r) \<and>
         (\<not> elts_shared r \<longrightarrow> off = 0 \<and> aaux r = Capa (int (length (bs ! b)))))"

definition share_ok :: "rarray list \<Rightarrow> rarray \<Rightarrow> bool" where
  "share_ok rs r \<longleftrightarrow> (elts_shared r \<longrightarrow> (\<exists>s < length rs. aaux r = Shared_by s \<and>
     \<not> elts_shared (rs ! s) \<and> frozen (rs ! s) \<and> blk (rs ! s) = blk r))"

definition one_owner :: "rarray list \<Rightarrow> bool" where
  "one_owner rs \<longleftrightarrow> (\<forall>a < length rs. \<forall>b < length rs.
     \<not> elts_shared (rs ! a) \<and> \<not> elts_shared (rs ! b) \<and> blk (rs ! a) \<noteq> None \<and>
     blk (rs ! a) = blk (rs ! b) \<longrightarrow> a = b)"

definition heap_ok :: "heap \<Rightarrow> bool" where
  "heap_ok h \<longleftrightarrow> (\<forall>r \<in> set (arys h). rep_ok (bufs h) r \<and> share_ok (arys h) r) \<and> one_owner (arys h)"

text \<open>
  The objects \<open>ary_make_shared\<close> creates are named by sharing arrays only; every other object is
  visible to the program.
\<close>

definition visible :: "heap \<Rightarrow> nat \<Rightarrow> bool" where
  "visible h a \<longleftrightarrow> a < length (arys h) \<and> (\<forall>r \<in> set (arys h). elts_shared r \<longrightarrow> aaux r \<noteq> Shared_by a)"

text \<open>
  What a mutation of array \<open>a\<close> may change for everybody else: nothing that can be observed.
\<close>

definition frame :: "nat \<Rightarrow> heap \<Rightarrow> heap \<Rightarrow> bool" where
  "frame a h h' \<longleftrightarrow> length (arys h) \<le> length (arys h') \<and> safe_level h' = safe_level h \<and>
     (\<forall>x < length (arys h). writable h' x = writable h x) \<and>
     (\<forall>x < length (arys h). visible h x \<longrightarrow> visible h' x) \<and>
     (\<forall>x < length (arys h). x \<noteq> a \<longrightarrow> ary_list h' x = ary_list h x)"

lemma frame_refl [simp]: "frame a h h"
  by (simp add: frame_def)

lemma frame_trans [trans]: "frame a h h1 \<Longrightarrow> frame a h1 h2 \<Longrightarrow> frame a h h2"
  by (auto simp: frame_def)

lemma heap_okD:
  assumes "heap_ok h" "a < length (arys h)"
  shows "rep_ok (bufs h) (arys h ! a)" "share_ok (arys h) (arys h ! a)"
  using assms by (auto simp: heap_ok_def)

lemma alen_cells:
  assumes "rep_ok bs r"
  shows "length (cells bs r) = nat (alen r)" "0 \<le> alen r"
  using assms by (auto simp: rep_ok_def cells_def split: pointer.splits)

lemma length_ary_list:
  "heap_ok h \<Longrightarrow> a < length (arys h) \<Longrightarrow> int (length (ary_list h a)) = alen (arys h ! a)"
  using alen_cells[OF heap_okD(1)] by (simp add: ary_list_def)

lemma alen_bound:
  "heap_ok h \<Longrightarrow> a < length (arys h) \<Longrightarrow> 0 \<le> alen (arys h ! a) \<and> 4 * alen (arys h ! a) < 2147483648"
  using heap_okD(1)[of h a] by (auto simp: rep_ok_def split: pointer.splits)

lemma owned_shape:
  assumes "heap_ok h" "owned h a"
  shows "a < length (arys h)" "\<not> elts_shared (arys h ! a)" "\<not> frozen (arys h ! a)"
    "\<exists>c. aaux (arys h ! a) = Capa c \<and> alen (arys h ! a) \<le> c \<and> 4 * c < 2147483648"
    "ptr (arys h ! a) = NULL \<or> (\<exists>b < length (bufs h). ptr (arys h ! a) = Ptr b 0)"
  using assms heap_okD(1)[of h a]
  by (auto simp: owned_def writable_def rep_ok_def split: pointer.splits)

text \<open>The heart of copy-on-write: nobody else can see the block of an array that is owned.\<close>

lemma owned_exclusive:
  assumes ok: "heap_ok h" and own: "owned h a" and x: "x < length (arys h)" "x \<noteq> a"
    and b: "blk (arys h ! a) = Some b"
  shows "blk (arys h ! x) \<noteq> Some b"
proof
  assume same: "blk (arys h ! x) = Some b"
  note a = owned_shape(1-3)[OF ok own]
  have one: "\<not> elts_shared (arys h ! y) \<Longrightarrow> blk (arys h ! y) = Some b \<Longrightarrow> y < length (arys h) \<Longrightarrow> y = a" for y
    using ok a b by (auto simp: heap_ok_def one_owner_def)
  show False
  proof (cases "elts_shared (arys h ! x)")
    case True
    then obtain s where "s < length (arys h)" "\<not> elts_shared (arys h ! s)" "frozen (arys h ! s)"
      "blk (arys h ! s) = Some b"
      using heap_okD(2)[OF ok x(1)] same by (auto simp: share_ok_def)
    then show False using one a(3) by metis
  next
    case False
    then show False using one same x by blast
  qed
qed

section \<open>Preservation of the discipline\<close>

lemma heap_update_order [simp]:
  "h\<lparr>arys := y, bufs := x\<rparr> = h\<lparr>bufs := x, arys := y\<rparr>"
  by simp

lemma one_owner_update:
  assumes one: "one_owner rs" and a: "a < length rs"
    and new: "\<And>x. x < length rs \<Longrightarrow> x \<noteq> a \<Longrightarrow> \<not> elts_shared r' \<Longrightarrow> blk r' \<noteq> None \<Longrightarrow> blk (rs ! x) \<noteq> blk r'"
  shows "one_owner (rs[a := r'])"
  unfolding one_owner_def
proof (intro allI impI)
  fix x y assume x: "x < length (rs[a := r'])" and y: "y < length (rs[a := r'])"
    and own: "\<not> elts_shared (rs[a := r'] ! x) \<and> \<not> elts_shared (rs[a := r'] ! y) \<and>
       blk (rs[a := r'] ! x) \<noteq> None \<and> blk (rs[a := r'] ! x) = blk (rs[a := r'] ! y)"
  consider "x = a" "y = a" | "x = a" "y \<noteq> a" | "x \<noteq> a" "y = a" | "x \<noteq> a" "y \<noteq> a" by blast
  then show "x = y"
  proof cases
    case 2 then show ?thesis using own new[of y] x y
      by (metis length_list_update nth_list_update_eq nth_list_update_neq)
  next
    case 3 then show ?thesis using own new[of x] x y
      by (metis length_list_update nth_list_update_eq nth_list_update_neq)
  next
    case 4 then show ?thesis using own one x y unfolding one_owner_def
      by (metis length_list_update nth_list_update_neq)
  qed simp
qed

lemma share_ok_update:
  assumes "share_ok rs r" "elts_shared (rs ! a) \<or> \<not> frozen (rs ! a)"
  shows "share_ok (rs[a := r']) r"
proof (cases "elts_shared r")
  case True
  then obtain s where "s < length rs" "aaux r = Shared_by s" "\<not> elts_shared (rs ! s)"
    "frozen (rs ! s)" "blk (rs ! s) = blk r"
    using assms(1) by (auto simp: share_ok_def)
  moreover from this have "s \<noteq> a" using assms(2) by auto
  ultimately show ?thesis by (auto simp: share_ok_def)
qed (simp add: share_ok_def)

text \<open>
  The frame rule: an owned array may replace the contents of its block, move to a new block or let
  go of its block, as long as it still satisfies \<open>rep_ok\<close>.
\<close>

lemma owned_change:
  assumes ok: "heap_ok h" and own: "owned h a"
    and bs: "length (bufs h) \<le> length (bufs h')"
      "\<And>b. b < length (bufs h) \<Longrightarrow> blk (arys h ! a) \<noteq> Some b \<Longrightarrow> bufs h' ! b = bufs h ! b"
    and h': "arys h' = (arys h)[a := r']" "safe_level h' = safe_level h"
    and r': "rep_ok (bufs h') r'" "frozen r' = frozen (arys h ! a)"
      "tmplock r' = tmplock (arys h ! a)" "tainted r' = tainted (arys h ! a)"
    and blk: "\<And>b. \<not> elts_shared r' \<Longrightarrow> blk r' = Some b \<Longrightarrow> blk (arys h ! a) = Some b \<or> length (bufs h) \<le> b"
    and sh: "elts_shared r' \<Longrightarrow> \<exists>s < length (arys h). s \<noteq> a \<and> aaux r' = Shared_by s \<and> \<not> elts_shared (arys h ! s) \<and>
       frozen (arys h ! s) \<and> blk (arys h ! s) = blk r' \<and> \<not> visible h s"
  shows "heap_ok h'" "frame a h h'"
proof -
  note a = owned_shape(1-3)[OF ok own]
  have other: "cells (bufs h') (arys h ! x) = cells (bufs h) (arys h ! x) \<and> rep_ok (bufs h') (arys h ! x)"
    if "x < length (arys h)" "x \<noteq> a" for x
  proof (cases "ptr (arys h ! x)")
    case NULL
    then show ?thesis using heap_okD(1)[OF ok that(1)] by (simp add: cells_def rep_ok_def)
  next
    case (Ptr b off)
    then have "blk (arys h ! a) \<noteq> Some b"
      using owned_exclusive[OF ok own that] by (auto simp: blk_def)
    moreover have "b < length (bufs h)" using heap_okD(1)[OF ok that(1)] Ptr by (simp add: rep_ok_def)
    ultimately have "bufs h' ! b = bufs h ! b" "b < length (bufs h')" using bs by auto
    then show ?thesis using heap_okD(1)[OF ok that(1)] Ptr by (simp add: cells_def rep_ok_def)
  qed
  have fresh: "blk (arys h ! x) \<noteq> blk r'" if x: "x < length (arys h)" "x \<noteq> a" "\<not> elts_shared r'" "blk r' \<noteq> None" for x
  proof
    assume same: "blk (arys h ! x) = blk r'"
    obtain b where b: "blk r' = Some b" using x by auto
    have "b < length (bufs h)"
      using heap_okD(1)[OF ok x(1)] same b by (auto simp: rep_ok_def blk_def split: pointer.splits)
    then have "blk (arys h ! a) = Some b" using blk[OF x(3) b] by linarith
    then show False using owned_exclusive[OF ok own x(1,2)] same b by simp
  qed
  have share: "share_ok (arys h') (arys h ! x)" if "x < length (arys h)" for x
    using share_ok_update[OF heap_okD(2)[OF ok that]] a h' by simp
  have shr: "share_ok (arys h') r'" using sh h' by (auto simp: share_ok_def)
  have "one_owner (arys h')"
    using ok fresh h' a one_owner_update[of "arys h" a r'] by (simp add: heap_ok_def)
  moreover have "rep_ok (bufs h') (arys h' ! x) \<and> share_ok (arys h') (arys h' ! x)" if "x < length (arys h')" for x
    using that other share shr r' h' a by (cases "x = a") auto
  ultimately show "heap_ok h'" by (auto simp: heap_ok_def in_set_conv_nth)
  have "visible h' x" if "visible h x" for x
    using that sh h' by (auto simp: visible_def dest!: set_update_subset_insert[THEN subsetD])
  then show "frame a h h'"
    using other h' r' a by (simp add: frame_def writable_def ary_list_def nth_list_update)
qed

lemma owned_update:
  assumes ok: "heap_ok h" and own: "owned h a"
    and bs: "length (bufs h) \<le> length (bufs h')"
      "\<And>b. b < length (bufs h) \<Longrightarrow> blk (arys h ! a) \<noteq> Some b \<Longrightarrow> bufs h' ! b = bufs h ! b"
    and h': "arys h' = (arys h)[a := r']" "safe_level h' = safe_level h"
    and r': "rep_ok (bufs h') r'" "\<not> elts_shared r'" "frozen r' = frozen (arys h ! a)"
      "tmplock r' = tmplock (arys h ! a)" "tainted r' = tainted (arys h ! a)"
    and blk: "\<And>b. blk r' = Some b \<Longrightarrow> blk (arys h ! a) = Some b \<or> length (bufs h) \<le> b"
  shows "heap_ok h'" "owned h' a" "frame a h h'"
proof -
  show "heap_ok h'" "frame a h h'"
    using owned_change[OF ok own bs h' r'(1,3-5)] blk r'(2) by blast+
  show "owned h' a" using own h' r' owned_shape(1)[OF ok own] by (auto simp: owned_def)
qed

text \<open>A write check that passes, and what it raises otherwise; in neither case does the heap change.\<close>

lemma modify_check_run:
  "writable h a \<Longrightarrow> rb_ary_modify_check a h = (Inr (), h)"
  "a < length (arys h) \<Longrightarrow> \<not> writable h a \<Longrightarrow>
     \<exists>e \<in> {FrozenError, RuntimeError, SecurityError}. rb_ary_modify_check a h = (Inl e, h)"
  by (auto simp: rb_ary_modify_check_def writable_def)

lemma rb_ary_modify_refused:
  "rb_ary_modify_check a h = (Inl e, h') \<Longrightarrow> rb_ary_modify a h = (Inl e, h')"
  by (simp add: rb_ary_modify_def)

lemma rep_ok_slice:
  assumes "rep_ok bs r" "ptr r = Ptr b off"
  shows "cells bs r = take (nat (alen r)) (drop (nat off) (bs ! b))"
    "length (take (nat (alen r)) (drop (nat off) (bs ! b))) = nat (alen r)"
    "b < length bs" "0 \<le> off" "off + alen r \<le> int (length (bs ! b))"
  using assms alen_cells[OF assms(1)] by (auto simp: rep_ok_def cells_def)

lemma copy_to_fresh:
  assumes r: "rep_ok bs r" and n: "4 * alen r < 2147483648" and bs: "bufs h = bs"
  shows "MEMCPY (Ptr (length bs) 0) (ptr r) (alen r) (h\<lparr>bufs := bs @ [replicate (nat (alen r)) None]\<rparr>) =
           (Inr (), h\<lparr>bufs := bs @ [cells bs r]\<rparr>)"
proof (cases "alen r = 0")
  case True
  then have "cells bs r = []" using alen_cells[OF r] by simp
  then show ?thesis using True by (simp add: MEMCPY_def MEMMOVE_def load_def fill_cells_def)
next
  case False
  then obtain b off where p: "ptr r = Ptr b off" using r by (auto simp: rep_ok_def split: pointer.splits)
  note s = rep_ok_slice[OF r p]
  have "0 < alen r" using False alen_cells[OF r] by simp
  moreover from this have "cells bs r \<noteq> []" using alen_cells[OF r] by auto
  ultimately show ?thesis using s p
    by (simp add: MEMCPY_def MEMMOVE_def load_def fill_cells_def overlap_def in_block_def nth_append
          poke_def)
qed

text \<open>The capacity an array has once \<open>rb_ary_modify\<close> has made its block its own.\<close>

definition room :: "heap \<Rightarrow> nat \<Rightarrow> int" where
  "room h a = (case aaux (arys h ! a) of Capa c \<Rightarrow> c | Shared_by s \<Rightarrow> alen (arys h ! a))"

lemma rb_ary_modify_shared:
  assumes ok: "heap_ok h" and w: "writable h a" and True: "elts_shared (arys h ! a)"
  defines "r \<equiv> arys h ! a"
  shows "rb_ary_modify a h = (Inr (), h\<lparr>bufs := bufs h @ [cells (bufs h) r],
    arys := (arys h)[a := r\<lparr>elts_shared := False, aaux := Capa (alen r), ptr := Ptr (length (bufs h)) 0\<rparr>]\<rparr>)"
proof -
  have a: "a < length (arys h)" using w by (simp add: writable_def)
  note r = heap_okD(1)[OF ok a] and len = alen_bound[OF ok a]
  show ?thesis
    unfolding r_def
    using a len True modify_check_run(1)[OF w]
      copy_to_fresh[OF r, of "h\<lparr>arys := (arys h)[a := (arys h ! a)\<lparr>elts_shared := False, aaux := Capa (alen (arys h ! a))\<rparr>]\<rparr>"]
    by (simp add: rb_ary_modify_def ALLOC_N_run)
qed

lemma rb_ary_modify_room:
  assumes ok: "heap_ok h" and w: "writable h a" and run: "rb_ary_modify a h = (Inr (), h')"
  shows "aaux (arys h' ! a) = Capa (room h a)"
proof -
  have a: "a < length (arys h)" using w by (simp add: writable_def)
  show ?thesis
  proof (cases "elts_shared (arys h ! a)")
    case True
    then obtain s where "aaux (arys h ! a) = Shared_by s"
      using heap_okD(2)[OF ok a] by (auto simp: share_ok_def)
    then show ?thesis using rb_ary_modify_shared[OF ok w True] run a by (auto simp: room_def)
  next
    case False
    then have own: "owned h a" using w by (simp add: owned_iff)
    obtain c where "aaux (arys h ! a) = Capa c" using owned_shape(4)[OF ok own] by blast
    moreover have "h' = h" using run False a modify_check_run(1)[OF w] by (simp add: rb_ary_modify_def)
    ultimately show ?thesis by (simp add: room_def)
  qed
qed

lemma rb_ary_modify_ok:
  assumes ok: "heap_ok h" and w: "writable h a"
  obtains h' where "rb_ary_modify a h = (Inr (), h')" "heap_ok h'" "owned h' a" "frame a h h'"
    "ary_list h' a = ary_list h a" "alen (arys h' ! a) = alen (arys h ! a)"
    "\<not> elts_shared (arys h ! a) \<Longrightarrow> h' = h" "length (arys h') = length (arys h)"
    "safe_level h' = safe_level h"
proof (cases "elts_shared (arys h ! a)")
  case False
  then have "rb_ary_modify a h = (Inr (), h)"
    using w modify_check_run(1)[OF w] by (simp add: rb_ary_modify_def writable_def)
  then show thesis using that[of h] ok w False by (simp add: owned_iff)
next
  case True
  have a: "a < length (arys h)" using w by (simp add: writable_def)
  let ?r = "arys h ! a"
  let ?r' = "?r\<lparr>elts_shared := False, aaux := Capa (alen ?r), ptr := Ptr (length (bufs h)) 0\<rparr>"
  let ?h' = "h\<lparr>bufs := bufs h @ [cells (bufs h) ?r], arys := (arys h)[a := ?r']\<rparr>"
  note r = heap_okD(1)[OF ok a] and len = alen_bound[OF ok a]
  have run: "rb_ary_modify a h = (Inr (), ?h')" by (rule rb_ary_modify_shared[OF ok w True])
  have none: "None \<notin> set (cells (bufs h) ?r)" using r by (auto simp: rep_ok_def cells_def split: pointer.splits)
  have rep: "rep_ok (bufs ?h') ?r'"
    using none alen_cells[OF r] len by (simp add: rep_ok_def cells_def)
  have other: "cells (bufs ?h') r = cells (bufs h) r \<and> rep_ok (bufs ?h') r" if "r \<in> set (arys h)" for r
    using ok that by (auto simp: heap_ok_def rep_ok_def cells_def nth_append split: pointer.splits)
  have old: "b < length (bufs h)" if "x < length (arys h)" "blk (arys h ! x) = Some b" for x b
    using heap_okD(1)[OF ok that(1)] that(2) by (auto simp: rep_ok_def blk_def split: pointer.splits)
  have share: "share_ok (arys ?h') (arys h ! x)" if "x < length (arys h)" for x
    using share_ok_update[OF heap_okD(2)[OF ok that]] True by simp
  have one: "one_owner (arys ?h')"
    using ok old a one_owner_update[of "arys h" a ?r'] by (fastforce simp: heap_ok_def blk_def)
  have ok': "heap_ok ?h'"
    unfolding heap_ok_def
  proof (rule conjI, rule ballI)
    fix r assume "r \<in> set (arys ?h')"
    then obtain x where "x < length (arys h)" "r = (if x = a then ?r' else arys h ! x)"
      by (auto simp: in_set_conv_nth nth_list_update)
    then show "rep_ok (bufs ?h') r \<and> share_ok (arys ?h') r"
      using rep other share by (cases "x = a") (simp_all add: share_ok_def)
  qed (rule one)
  moreover have "owned ?h' a" using w a by (simp add: owned_def writable_def)
  moreover have "frame a h ?h'"
    using other a
    by (auto simp: frame_def writable_def visible_def ary_list_def nth_list_update dest!: set_update_subset_insert[THEN subsetD])
  moreover have "ary_list ?h' a = ary_list h a"
    using a alen_cells[OF r] by (simp add: ary_list_def cells_def[of "bufs h @ _"])
  ultimately show thesis using that[OF run] a True by simp
qed

lemma rarray_update_order [simp]:
  "r\<lparr>alen := l, ptr := p\<rparr> = r\<lparr>ptr := p, alen := l\<rparr>"
  "r\<lparr>aaux := x, ptr := p\<rparr> = r\<lparr>ptr := p, aaux := x\<rparr>"
  "r\<lparr>aaux := x, alen := l\<rparr> = r\<lparr>alen := l, aaux := x\<rparr>"
  by simp_all

section \<open>Working on an owned array\<close>

lemma nat_alen:
  "heap_ok h \<Longrightarrow> a < length (arys h) \<Longrightarrow> nat (alen (arys h ! a)) = length (ary_list h a)"
  by (metis length_ary_list nat_int)

lemma owned_cells:
  assumes "heap_ok h" "owned h a" "ptr (arys h ! a) = Ptr b 0"
  shows "take (nat (alen (arys h ! a))) (bufs h ! b) = map Some (ary_list h a)"
    "aaux (arys h ! a) = Capa (int (length (bufs h ! b)))" "b < length (bufs h)"
    "length (ary_list h a) \<le> length (bufs h ! b)" "4 * int (length (bufs h ! b)) < 2147483648"
proof -
  note a = owned_shape(1,2)[OF assms(1,2)]
  note r = heap_okD(1)[OF assms(1) a(1)]
  have none: "map Some (map the xs) = xs" if "None \<notin> set xs" for xs :: "VALUE option list"
    using that by (induction xs) auto
  show "take (nat (alen (arys h ! a))) (bufs h ! b) = map Some (ary_list h a)"
    using r assms(3) none[of "take (nat (alen (arys h ! a))) (bufs h ! b)"]
    by (simp add: ary_list_def rep_ok_def cells_def)
  show "aaux (arys h ! a) = Capa (int (length (bufs h ! b)))" "b < length (bufs h)"
    "length (ary_list h a) \<le> length (bufs h ! b)" "4 * int (length (bufs h ! b)) < 2147483648"
    using r assms(3) a length_ary_list[OF assms(1) a(1)] by (simp_all add: rep_ok_def)
qed

text \<open>Filling the block of an owned array with new contents and a new length.\<close>

lemma owned_write:
  assumes ok: "heap_ok h" and own: "owned h a" and p: "ptr (arys h ! a) = Ptr b 0"
    and ys: "length ys = length (bufs h ! b)" "take (length vs) ys = map Some vs" "n = int (length vs)"
    and h': "bufs h' = (bufs h)[b := ys]" "arys h' = (arys h)[a := (arys h ! a)\<lparr>alen := n\<rparr>]"
      "safe_level h' = safe_level h"
  shows "heap_ok h'" "owned h' a" "frame a h h'" "ary_list h' a = vs"
proof -
  note o = owned_cells[OF ok own p] and a = owned_shape(1,2)[OF ok own]
  have le: "length vs \<le> length (bufs h ! b)"
    using ys by (metis length_map length_take min.cobounded1)
  have rep: "rep_ok (bufs h') ((arys h ! a)\<lparr>alen := n\<rparr>)"
    using p o a ys h' le by (auto simp: rep_ok_def cells_def)
  show "heap_ok h'" "owned h' a" "frame a h h'"
    using owned_update[OF ok own, of h' "(arys h ! a)\<lparr>alen := n\<rparr>"] h' rep a p
    by (auto simp: blk_def)
  show "ary_list h' a = vs"
    using h' a o p ys by (simp add: ary_list_def cells_def comp_def)
qed

lemma resize_copy:
  assumes "take k xs = map Some vs" "k = length vs" "k \<le> n"
  shows "take k (resize n xs) = map Some vs"
proof -
  have "length vs \<le> length xs" using assms by (metis length_map length_take min.cobounded1)
  then show ?thesis using assms by simp
qed

text \<open>A reallocation moves the elements to a new block of exactly the requested size.\<close>

lemma owned_resize:
  assumes ok: "heap_ok h" and own: "owned h a" and n: "alen (arys h ! a) \<le> n" "4 * n < 2147483648"
  obtains h' b where "realloc_then_capa a n h = (Inr (), h')" "capa_then_realloc a n h = (Inr (), h')"
    "heap_ok h'" "owned h' a" "frame a h h'" "ary_list h' a = ary_list h a"
    "arys h' ! a = (arys h ! a)\<lparr>ptr := Ptr b 0, aaux := Capa n\<rparr>" "safe_level h' = safe_level h"
    "length (bufs h' ! b) = nat n"
    "length (arys h') = length (arys h)"
proof -
  note a = owned_shape(1,2)[OF ok own] and len = alen_bound[OF ok]
  have n0: "0 \<le> n" using len[OF a(1)] n by linarith
  let ?b = "length (bufs h)"
  let ?r = "(arys h ! a)\<lparr>ptr := Ptr ?b 0, aaux := Capa n\<rparr>"
  obtain bs xs where run: "xrealloc (ptr (arys h ! a)) (byte_size n) h = (Inr (Ptr ?b 0), h\<lparr>bufs := bs @ [xs]\<rparr>)"
    and bs: "length bs = ?b" "\<And>c. c < ?b \<Longrightarrow> blk (arys h ! a) \<noteq> Some c \<Longrightarrow> bs ! c = bufs h ! c"
    and xs: "length xs = nat n" "take (length (ary_list h a)) xs = map Some (ary_list h a)"
  proof (cases "ptr (arys h ! a)")
    case NULL
    then have "ary_list h a = []" by (simp add: ary_list_def cells_def)
    then show thesis
      using that[of "bufs h" "replicate (nat n) None"] NULL n0 n
      by (simp add: xrealloc_def xmalloc_def byte_size_exact)
  next
    case (Ptr b off)
    then have p: "ptr (arys h ! a) = Ptr b 0" using owned_shape(5)[OF ok own] by auto
    note o = owned_cells[OF ok own p]
    have "take (length (ary_list h a)) (resize (nat n) (bufs h ! b)) = map Some (ary_list h a)"
      using resize_copy[OF o(1)] n nat_alen[OF ok a(1)] by simp
    then show thesis
      using that[of "(bufs h)[b := []]" "resize (nat n) (bufs h ! b)"] p o(3) n0 n
      by (simp add: xrealloc_def byte_size_exact blk_def nth_list_update)
  qed
  let ?h' = "h\<lparr>bufs := bs @ [xs], arys := (arys h)[a := ?r]\<rparr>"
  have runs: "realloc_then_capa a n h = (Inr (), ?h')" "capa_then_realloc a n h = (Inr (), ?h')"
  proof -
    have "xrealloc (ptr (arys h ! a)) (byte_size n) (h\<lparr>arys := rs\<rparr>) = (Inr (Ptr ?b 0), h\<lparr>bufs := bs @ [xs], arys := rs\<rparr>)" for rs
      using run by (auto simp: xrealloc_def xmalloc_def split: pointer.splits if_splits)
    then show "realloc_then_capa a n h = (Inr (), ?h')" "capa_then_realloc a n h = (Inr (), ?h')"
      using a run by (simp_all add: realloc_then_capa_def capa_then_realloc_def REALLOC_N_def set_capa_def)
  qed
  have cells: "cells (bs @ [xs]) ?r = map Some (ary_list h a)"
    using xs bs nat_alen[OF ok a(1)] by (simp add: cells_def nth_append)
  have rep: "rep_ok (bs @ [xs]) ?r"
    using cells bs n0 n xs a len[OF a(1)] by (auto simp: rep_ok_def nth_append)
  note upd = owned_update[OF ok own, of ?h' ?r]
  have "heap_ok ?h'" "owned ?h' a" "frame a h ?h'"
    using upd rep bs a by (auto simp: blk_def nth_append)
  moreover have "ary_list ?h' a = ary_list h a"
    using cells a by (simp add: ary_list_def[of ?h'] comp_def)
  ultimately show thesis using that[OF runs] bs xs a by (simp add: nth_append)
qed

section \<open>The growing operations refine lists\<close>

text \<open>
  \<open>updates m a h x vs\<close>: run from \<open>h\<close>, the operation \<open>m\<close> returns \<open>x\<close>, array \<open>a\<close> then holds \<open>vs\<close>,
  the discipline still holds, and no other array has changed.
\<close>

definition updates :: "'a heapM \<Rightarrow> nat \<Rightarrow> heap \<Rightarrow> 'a \<Rightarrow> VALUE list \<Rightarrow> bool" where
  "updates m a h x vs \<longleftrightarrow> (case m h of
       (Inr y, h') \<Rightarrow> y = x \<and> heap_ok h' \<and> frame a h h' \<and> ary_list h' a = vs
     | (Inl e, h') \<Rightarrow> False)"

lemma updatesI:
  "m h = (Inr x, h') \<Longrightarrow> heap_ok h' \<Longrightarrow> frame a h h' \<Longrightarrow> ary_list h' a = vs \<Longrightarrow> updates m a h x vs"
  by (simp add: updates_def)

lemma updatesE:
  assumes "updates m a h x vs"
  obtains h' where "m h = (Inr x, h')" "heap_ok h'" "frame a h h'" "ary_list h' a = vs"
  using assms by (auto simp: updates_def split: prod.splits sum.splits)

text \<open>\<open>writes\<close> adds that the array ends up with a block of its own.\<close>

definition writes :: "'a heapM \<Rightarrow> nat \<Rightarrow> heap \<Rightarrow> 'a \<Rightarrow> VALUE list \<Rightarrow> bool" where
  "writes m a h x vs \<longleftrightarrow> updates m a h x vs \<and> \<not> elts_shared (arys (snd (m h)) ! a)"

lemma writes_updates: "writes m a h x vs \<Longrightarrow> updates m a h x vs"
  by (simp add: writes_def)

lemma frame_writable: "frame a h h' \<Longrightarrow> writable h x \<Longrightarrow> writable h' x"
  by (auto simp: frame_def writable_def)

lemma frame_valid: "frame a h h' \<Longrightarrow> x < length (arys h) \<Longrightarrow> x < length (arys h')"
  by (auto simp: frame_def)

lemma writable_valid: "writable h a \<Longrightarrow> a < length (arys h)"
  by (simp add: writable_def)

definition store_list :: "VALUE list \<Rightarrow> int \<Rightarrow> VALUE \<Rightarrow> VALUE list" where
  "store_list vs i v = (let j = nat (if i < 0 then i + int (length vs) else i) in
     if j < length vs then vs[j := v] else vs @ replicate (j - length vs) Qnil @ [v])"

lemma fill_cells_run:
  assumes "b < length (bufs h)" "0 \<le> off" "off + int (length ys) \<le> int (length (bufs h ! b))"
  shows "fill_cells (Ptr b off) ys h =
    (Inr (), h\<lparr>bufs := (bufs h)[b := poke (bufs h ! b) (nat off) ys]\<rparr>)"
  using assms by (cases "ys = []") (simp_all add: fill_cells_def in_block_def poke_def)

lemma take_poke_mid:
  assumes "i \<le> n" "n \<le> i + length ys" "i \<le> length xs"
  shows "take n (poke xs i ys) = take i xs @ take (n - i) ys"
  using assms by (simp add: poke_def min_def)

text \<open>The cells written by \<open>rb_ary_store\<close> once there is room.\<close>

lemma store_cells:
  assumes xs: "take (length vs) xs = map Some vs" "length vs \<le> length xs" and j: "j < length xs"
  shows "j < length vs \<Longrightarrow> take (length vs) (poke xs j [Some v]) = map Some (vs[j := v])"
    "length vs \<le> j \<Longrightarrow>
       take (Suc j) (poke (poke xs (length vs) (replicate (Suc (j - length vs)) (Some Qnil))) j [Some v]) =
         map Some (vs @ replicate (j - length vs) Qnil @ [v])"
    "length vs = j \<Longrightarrow> take (Suc j) (poke xs j [Some v]) = map Some (vs @ [v])"
proof -
  show "take (length vs) (poke xs j [Some v]) = map Some (vs[j := v])" if "j < length vs"
  proof -
    have "take j xs = take j (map Some vs)" using that xs(1) by (metis less_imp_le min.absorb1 take_take)
    then have "take (length vs) (poke xs j [Some v]) = (take (length vs) xs)[j := Some v]"
      using that j xs by (simp add: take_poke_beyond upd_conv_take_nth_drop min_def)
    then show ?thesis using xs by (simp add: map_update)
  qed
  show "take (Suc j) (poke (poke xs (length vs) (replicate (Suc (j - length vs)) (Some Qnil))) j [Some v]) =
         map Some (vs @ replicate (j - length vs) Qnil @ [v])" if "length vs \<le> j"
  proof -
    let ?ys = "poke xs (length vs) (replicate (Suc (j - length vs)) (Some Qnil))"
    have len: "length ?ys = length xs" using that j by simp
    have "take (Suc j) (poke ?ys j [Some v]) = take j ?ys @ [Some v]"
      using take_poke_end[of j ?ys "[Some v]"] len j by simp
    also have "take j ?ys = take (length vs) xs @ replicate (j - length vs) (Some Qnil)"
      using that xs take_poke_mid[of "length vs" j "replicate (Suc (j - length vs)) (Some Qnil)" xs]
      by (simp add: min_def take_replicate del: replicate_Suc)
    finally show ?thesis using xs by simp
  qed
  show "take (Suc j) (poke xs j [Some v]) = map Some (vs @ [v])" if "length vs = j"
    using take_poke_end[of j xs "[Some v]"] that xs j by simp
qed

lemma writes_write:
  assumes "heap_ok h" "owned h a" "ptr (arys h ! a) = Ptr b 0"
    and "m h = (Inr x, h\<lparr>bufs := (bufs h)[b := ys], arys := (arys h)[a := (arys h ! a)\<lparr>alen := n\<rparr>]\<rparr>)"
    and "length ys = length (bufs h ! b)" "take (length vs) ys = map Some vs" "n = int (length vs)"
  shows "writes m a h x vs"
  using owned_write[OF assms(1-3,5-7), of "h\<lparr>bufs := (bufs h)[b := ys], arys := (arys h)[a := (arys h ! a)\<lparr>alen := n\<rparr>]\<rparr>"]
    assms(4) by (auto simp: writes_def updates_def owned_def)

lemma alen_same: "alen r = n \<Longrightarrow> r\<lparr>alen := n\<rparr> = r"
  by (cases r) simp

lemma store_in_room:
  assumes ok: "heap_ok h" and own: "owned h a" and p: "ptr (arys h ! a) = Ptr b 0"
    and j: "0 \<le> j" "j < int (length (bufs h ! b))"
  shows "writes (bind (get_ary a) (\<lambda>r.
       bind (if j > alen r then rb_mem_clear (ptr_add (ptr r) (alen r)) (s32 (j - alen r + 1))
             else ret ()) (\<lambda>_.
       bind (if j \<ge> alen r then upd_ary a (\<lambda>r. r\<lparr>alen := s32 (j + 1)\<rparr>) else ret ()) (\<lambda>_.
       set_cell (ptr r) j v)))) a h () (store_list (ary_list h a) j v)"
    (is "writes ?m a h () ?vs")
proof -
  note a = owned_shape(1,2)[OF ok own] and o = owned_cells[OF ok own p]
  let ?l = "length (ary_list h a)" and ?xs = "bufs h ! b" and ?k = "nat j"
  note len = length_ary_list[OF ok a(1), symmetric]
  have l: "take ?l ?xs = map Some (ary_list h a)" using o(1) len by simp
  have wr: "?k < length ?xs" using j by linarith
  note st = store_cells[OF l o(4) wr, of v]
  have w1: "s32 (j + 1) = j + 1" and w2: "j > int ?l \<Longrightarrow> s32 (j - int ?l + 1) = j - int ?l + 1"
    using j o(5) by (auto intro!: s32_id)
  have wr_cell: "set_cell (Ptr b 0) j v g = (Inr (), g\<lparr>bufs := (bufs g)[b := poke (bufs g ! b) ?k [Some v]]\<rparr>)"
    if "b < length (bufs g)" "length (bufs g ! b) = length ?xs" for g
    using fill_cells_run[of b g j "[Some v]"] that j by (simp add: set_cell_def ptr_add_def)
  let ?run = "\<lambda>ys n. ?m h = (Inr (), h\<lparr>bufs := (bufs h)[b := ys], arys := (arys h)[a := (arys h ! a)\<lparr>alen := n\<rparr>]\<rparr>)"
  note wr_rule = writes_write[OF ok own p, of ?m "()"]
  consider "j < int ?l" | "j = int ?l" | "int ?l < j" by linarith
  then show ?thesis
  proof cases
    case 1
    then have vs: "?vs = (ary_list h a)[?k := v]" using j by (simp add: store_list_def Let_def nat_less_iff)
    have "(arys h)[a := (arys h ! a)\<lparr>alen := int ?l\<rparr>] = arys h" using alen_same[OF len] by simp
    then have "?run (poke ?xs ?k [Some v]) (int ?l)" using 1 a p len wr_cell[of h] o by simp
    then show ?thesis unfolding vs by (rule wr_rule) (use 1 st(1) wr j in \<open>simp_all\<close>)
  next
    case 2
    then have vs: "?vs = ary_list h a @ [v]" by (simp add: store_list_def)
    have "?run (poke ?xs ?k [Some v]) (j + 1)" using 2 a p len wr_cell o w1 by simp
    then show ?thesis unfolding vs by (rule wr_rule) (use 2 st(3) wr in \<open>simp_all\<close>)
  next
    case 3
    then have vs: "?vs = ary_list h a @ replicate (?k - ?l) Qnil @ [v]"
      by (simp add: store_list_def Let_def nat_less_iff)
    let ?ys = "poke ?xs ?l (replicate (Suc (?k - ?l)) (Some Qnil))"
    have k: "nat (j - int ?l + 1) = Suc (?k - ?l)" using 3 by linarith
    have ys: "length ?ys = length ?xs" using 3 wr by simp
    have clr: "rb_mem_clear (Ptr b (int ?l)) (j - int ?l + 1) h = (Inr (), h\<lparr>bufs := (bufs h)[b := ?ys]\<rparr>)"
      using 3 wr o fill_cells_run[of b h "int ?l" "replicate (Suc (?k - ?l)) (Some Qnil)"]
      by (simp add: rb_mem_clear_def memfill_def k del: replicate_Suc)
    have "?run (poke ?ys ?k [Some v]) (j + 1)"
      using 3 a p len wr_cell o w1 w2 ys clr by (simp add: ptr_add_def del: replicate_Suc)
    then show ?thesis unfolding vs
      by (rule wr_rule) (use 3 st(2) wr ys in \<open>simp_all add: Suc_diff_le del: replicate_Suc\<close>)
  qed
qed

lemma updates_from:
  "updates m a h' x vs \<Longrightarrow> frame a h h' \<Longrightarrow> m' h = m h' \<Longrightarrow> updates m' a h x vs"
  by (auto simp: updates_def split: prod.splits sum.splits intro: frame_trans)

lemma writes_from:
  "writes m a h' x vs \<Longrightarrow> frame a h h' \<Longrightarrow> m' h = m h' \<Longrightarrow> writes m' a h x vs"
  by (auto simp: writes_def intro: updates_from)

lemma grown_capa:
  assumes c: "0 \<le> c" "4 * c < 2147483648" "c \<le> j" "(if c div 2 < 16 then 16 else c div 2) + j < 536870912"
    and half: "half = (if c_quot c 2 < ARY_DEFAULT_SIZE then ARY_DEFAULT_SIZE else c_quot c 2)"
    and n: "n = (if c div 2 < 16 then 16 else c div 2) + j"
  shows "s32 (half + j) = n" "\<not> s32 (s32 (half + j) * 4) \<le> s32 (half + j)" "j < n" "4 * n < 2147483648"
proof -
  have hn: "half + j = n" "16 \<le> n - j" "n < 536870912"
    using c by (auto simp: half n c_quot_nonneg ARY_DEFAULT_SIZE_def)
  then show e: "s32 (half + j) = n" "j < n" "4 * n < 2147483648"
    using c by (auto intro: s32_id)
  show "\<not> s32 (s32 (half + j) * 4) \<le> s32 (half + j)"
    unfolding e using hn c by (simp add: s32_id)
qed

lemma rb_ary_store_index:
  assumes "a < length (arys h)" "j = (if i < 0 then i + alen (arys h ! a) else i)" "0 \<le> j"
  shows "rb_ary_store a i v h = rb_ary_store a j v h"
  using assms by (cases "i < 0") (simp_all add: rb_ary_store_def)

lemma rb_ary_store_writes:
  assumes ok: "heap_ok h" and w: "writable h a"
    and i: "- int (length (ary_list h a)) \<le> i" "i < room h a \<or> max 16 (room h a div 2) + i < 536870912"
  shows "writes (rb_ary_store a i v) a h () (store_list (ary_list h a) i v)"
proof -
  note a = writable_valid[OF w]
  note len = length_ary_list[OF ok a, symmetric]
  define j where "j = (if i < 0 then i + alen (arys h ! a) else i)"
  have j: "0 \<le> j" "alen (arys h ! a) \<le> j \<Longrightarrow> j = i"
    using i len alen_bound[OF ok a] by (auto simp: j_def)
  have spec: "store_list (ary_list h a) i v = store_list (ary_list h a) j v"
  proof -
    have "(if i < 0 then i + int (length (ary_list h a)) else i) = j" by (simp add: j_def len)
    then show ?thesis using j(1) by (simp add: store_list_def)
  qed
  note step = trans[OF rb_ary_store_index[OF a j_def j(1)] fun_cong[OF rb_ary_store_def]]
  obtain h1 where h1: "rb_ary_modify a h = (Inr (), h1)" "heap_ok h1" "owned h1 a" "frame a h h1"
    "ary_list h1 a = ary_list h a" "length (arys h1) = length (arys h)"
    "alen (arys h1 ! a) = alen (arys h ! a)"
    using rb_ary_modify_ok[OF ok w] by metis
  obtain c where c: "aaux (arys h1 ! a) = Capa c" "alen (arys h1 ! a) \<le> c" "4 * c < 2147483648"
    using owned_shape(4)[OF h1(2,3)] by blast
  have a1: "a < length (arys h1)" using a h1 by simp
  have c0: "0 \<le> c" using c alen_bound[OF h1(2) a1] by linarith
  show ?thesis
  proof (cases "j < c")
    case True
    then obtain b where p: "ptr (arys h1 ! a) = Ptr b 0"
      using owned_shape(5)[OF h1(2,3)] c heap_okD(1)[OF h1(2) a1] j owned_shape(2)[OF h1(2,3)]
      by (auto simp: rep_ok_def)
    then have "j < int (length (bufs h1 ! b))" using owned_cells(2)[OF h1(2,3) p] c True by simp
    note room = store_in_room[OF h1(2,3) p j(1) this, of v]
    have e: "store_list (ary_list h a) i v = store_list (ary_list h1 a) j v" using spec h1 by simp
    show ?thesis
      unfolding e
      by (rule writes_from[OF room h1(4)])
        (use a a1 h1(1) c(1) True j(1) in \<open>simp add: step capa_def\<close>)
  next
    case False
    then have cj: "c \<le> j" by simp
    then have "j = i" using j(2) c(2) h1(7) by linarith
    moreover have "c = room h a" using rb_ary_modify_room[OF ok w h1(1)] c(1) by simp
    ultimately have "(if c div 2 < 16 then 16 else c div 2) + j < 536870912"
      using i(2) cj by (simp add: max_def split: if_splits)
    note g = grown_capa[OF c0 c(3) cj this refl refl]
    let ?n = "(if c div 2 < 16 then 16 else c div 2) + j"
    have "alen (arys h1 ! a) \<le> ?n" using c(2) g(3) cj by linarith
    then obtain h2 b where h2: "realloc_then_capa a ?n h1 = (Inr (), h2)" "heap_ok h2" "owned h2 a"
      "frame a h1 h2" "ary_list h2 a = ary_list h1 a"
      "arys h2 ! a = (arys h1 ! a)\<lparr>ptr := Ptr b 0, aaux := Capa ?n\<rparr>" "length (bufs h2 ! b) = nat ?n"
      "length (arys h2) = length (arys h1)"
      using owned_resize[OF h1(2,3) _ g(4)] by metis
    have p: "ptr (arys h2 ! a) = Ptr b 0" using h2 by simp
    have "j < int (length (bufs h2 ! b))" using h2(7) g(3) j by linarith
    note room = store_in_room[OF h2(2,3) p j(1) this, of v]
    have e: "store_list (ary_list h a) i v = store_list (ary_list h2 a) j v" using spec h1 h2 by simp
    show ?thesis
      unfolding e
    proof (rule writes_from[OF room frame_trans[OF h1(4) h2(4)]])
      show "rb_ary_store a i v h = (bind (get_ary a) (\<lambda>r.
         bind (if j > alen r then rb_mem_clear (ptr_add (ptr r) (alen r)) (s32 (j - alen r + 1))
               else ret ()) (\<lambda>_.
         bind (if j \<ge> alen r then upd_ary a (\<lambda>r. r\<lparr>alen := s32 (j + 1)\<rparr>) else ret ()) (\<lambda>_.
         set_cell (ptr r) j v)))) h2"
        using a a1 h1(1) h2(1,8) c(1) cj j(1) g(1,2)
        by (simp add: step capa_def)
    qed
  qed
qed

text \<open>Below \<open>2\<^sup>2\<^sup>8\<close> there is always room, since a capacity is below \<open>2\<^sup>2\<^sup>9\<close>.\<close>

lemma room_bound:
  assumes "heap_ok h" "writable h a"
  shows "alen (arys h ! a) \<le> room h a" "4 * room h a < 2147483648"
proof -
  obtain h1 where h1: "rb_ary_modify a h = (Inr (), h1)" "heap_ok h1" "owned h1 a" "alen (arys h1 ! a) = alen (arys h ! a)"
    using rb_ary_modify_ok[OF assms] by metis
  show "alen (arys h ! a) \<le> room h a" "4 * room h a < 2147483648"
    using owned_shape(4)[OF h1(2,3)] rb_ary_modify_room[OF assms h1(1)] h1(4) by auto
qed

lemma rb_ary_store_below:
  assumes "heap_ok h" "writable h a" "- int (length (ary_list h a)) \<le> i" "i < 268435456"
  shows "writes (rb_ary_store a i v) a h () (store_list (ary_list h a) i v)"
proof -
  have "room h a div 2 < 268435456" using room_bound(2)[OF assms(1,2)] by linarith
  then have "max 16 (room h a div 2) < 268435456" by simp
  then have "max 16 (room h a div 2) + i < 536870912" using assms(4) by linarith
  then show ?thesis using rb_ary_store_writes[OF assms(1-3)] by blast
qed

lemmas rb_ary_store_ok = writes_updates[OF rb_ary_store_below]

lemma rb_ary_push_ok:
  assumes ok: "heap_ok h" and w: "writable h a" and n: "length (ary_list h a) < 268435456"
  shows "updates (rb_ary_push a v) a h a (ary_list h a @ [v])"
proof -
  note a = writable_valid[OF w]
  note len = length_ary_list[OF ok a, symmetric]
  have "updates (rb_ary_store a (alen (arys h ! a)) v) a h () (ary_list h a @ [v])"
    using rb_ary_store_ok[OF ok w, of "alen (arys h ! a)" v] n len by (simp add: store_list_def)
  then obtain h' where "rb_ary_store a (alen (arys h ! a)) v h = (Inr (), h')" "heap_ok h'" "frame a h h'"
    "ary_list h' a = ary_list h a @ [v]" by (rule updatesE)
  then show ?thesis using a by (intro updatesI) (simp_all add: rb_ary_push_def)
qed

lemma updates_then:
  assumes "updates m a h x vs" "\<And>h'. heap_ok h' \<Longrightarrow> frame a h h' \<Longrightarrow> ary_list h' a = vs \<Longrightarrow> updates (f x) a h' y ws"
  shows "updates (bind m f) a h y ws"
proof -
  obtain h' where h': "m h = (Inr x, h')" "heap_ok h'" "frame a h h'" "ary_list h' a = vs"
    using assms(1) by (rule updatesE)
  show ?thesis using updates_from[OF assms(2)[OF h'(2-4)] h'(3)] h'(1) by simp
qed

lemma rb_ary_push_m_ok:
  assumes "heap_ok h" "writable h a" "length (ary_list h a) + length argv \<le> 268435456"
  shows "updates (rb_ary_push_m argv a) a h a (ary_list h a @ argv)"
  using assms
proof (induction argv arbitrary: h)
  case Nil
  then show ?case by (intro updatesI) simp_all
next
  case (Cons v argv)
  have "updates (bind (rb_ary_push a v) (\<lambda>_. rb_ary_push_m argv a)) a h a ((ary_list h a @ [v]) @ argv)"
  proof (rule updates_then[OF rb_ary_push_ok[OF Cons.prems(1,2)]])
    show "length (ary_list h a) < 268435456" using Cons.prems(3) by simp
    fix h' assume h': "heap_ok h'" "frame a h h'" "ary_list h' a = ary_list h a @ [v]"
    show "updates (rb_ary_push_m argv a) a h' a ((ary_list h a @ [v]) @ argv)"
      using Cons.IH[OF h'(1) frame_writable[OF h'(2) Cons.prems(2)]] Cons.prems(3) h'(3) by simp
  qed
  then show ?case by (simp only: rb_ary_push_m.simps append_assoc append_Cons append_Nil)
qed

section \<open>Sharing\<close>

lemma writable_visible:
  assumes "heap_ok h" "writable h a"
  shows "visible h a"
  using assms by (auto simp: visible_def heap_ok_def share_ok_def writable_def)

lemma share_ok_append: "share_ok rs r \<Longrightarrow> share_ok (rs @ [r']) r"
  unfolding share_ok_def by (auto simp: nth_append intro: less_SucI)

text \<open>A new object joins the heap; it either shares or has a block of its own.\<close>

lemma add_object:
  assumes ok: "heap_ok h" and h': "arys h' = arys h @ [r]" "bufs h' = bufs h" "safe_level h' = safe_level h"
    and r: "rep_ok (bufs h) r" "share_ok (arys h) r"
    and own: "\<not> elts_shared r \<Longrightarrow> blk r \<noteq> None \<Longrightarrow> \<forall>x < length (arys h). blk (arys h ! x) \<noteq> blk r"
    and vis: "elts_shared r \<Longrightarrow> \<forall>x. visible h x \<longrightarrow> aaux r \<noteq> Shared_by x"
  shows "heap_ok h'" "frame a h h'" "ary_list h' (length (arys h)) = map the (cells (bufs h) r)"
    "ary_list h' x = ary_list h x \<or> x \<ge> length (arys h)"
proof -
  have "one_owner (arys h')"
    unfolding one_owner_def
  proof (intro allI impI)
    fix x y assume x: "x < length (arys h')" and y: "y < length (arys h')"
      and e: "\<not> elts_shared (arys h' ! x) \<and> \<not> elts_shared (arys h' ! y) \<and> blk (arys h' ! x) \<noteq> None \<and>
        blk (arys h' ! x) = blk (arys h' ! y)"
    consider "x < length (arys h)" "y < length (arys h)" | "x = length (arys h)" "y < length (arys h)"
      | "x < length (arys h)" "y = length (arys h)" | "x = y"
      using x y h' by fastforce
    then show "x = y"
    proof cases
      case 1 then show ?thesis using ok e h' unfolding heap_ok_def one_owner_def by (metis nth_append)
    next
      case 2 then show ?thesis using own e h' by (metis nth_append nth_append_length)
    next
      case 3 then show ?thesis using own e h' by (metis nth_append nth_append_length)
    qed
  qed
  then show "heap_ok h'"
    using ok r h' share_ok_append unfolding heap_ok_def by fastforce
  show "frame a h h'"
    using h' vis by (auto simp: frame_def writable_def visible_def ary_list_def nth_append)
  show "ary_list h' (length (arys h)) = map the (cells (bufs h) r)"
    "ary_list h' x = ary_list h x \<or> x \<ge> length (arys h)"
    using h' by (auto simp: ary_list_def nth_append)
qed

text \<open>A sharing array may look at another part of its block.\<close>

lemma shared_update:
  assumes ok: "heap_ok h" and a: "a < length (arys h)" and sh: "elts_shared (arys h ! a)"
    and r': "rep_ok (bufs h) r'" "elts_shared r'" "aaux r' = aaux (arys h ! a)" "blk r' = blk (arys h ! a)"
      "frozen r' = frozen (arys h ! a)" "tmplock r' = tmplock (arys h ! a)" "tainted r' = tainted (arys h ! a)"
    and h': "arys h' = (arys h)[a := r']" "bufs h' = bufs h" "safe_level h' = safe_level h"
  shows "heap_ok h'" "frame a h h'" "ary_list h' a = map the (cells (bufs h) r')"
proof -
  have share: "share_ok (arys h') (arys h ! x)" if "x < length (arys h)" for x
    using share_ok_update[OF heap_okD(2)[OF ok that]] sh h' by simp
  have "share_ok (arys h') r'" using share[OF a] r' sh by (simp add: share_ok_def)
  then have "rep_ok (bufs h') (arys h' ! x) \<and> share_ok (arys h') (arys h' ! x)" if "x < length (arys h')" for x
    using that share heap_okD(1)[OF ok] r' h' a by (cases "x = a") auto
  moreover have "one_owner (arys h')"
    using ok h' r' unfolding heap_ok_def one_owner_def
    by (metis length_list_update nth_list_update_eq nth_list_update_neq)
  ultimately show "heap_ok h'" by (auto simp: heap_ok_def in_set_conv_nth)
  have "visible h' x" if "visible h x" for x
  proof -
    have "aaux (arys h ! a) \<noteq> Shared_by x" using that sh a by (auto simp: visible_def)
    then show ?thesis using that h' r'
      by (auto simp: visible_def dest!: set_update_subset_insert[THEN subsetD])
  qed
  then show "frame a h h'"
    using h' r' a by (simp add: frame_def writable_def ary_list_def nth_list_update)
  show "ary_list h' a = map the (cells (bufs h) r')" using h' a by (simp add: ary_list_def)
qed

lemma ary_make_shared_ok:
  assumes ok: "heap_ok h" and v: "visible h a"
  obtains h' s where "ary_make_shared a h = (Inr s, h')" "heap_ok h'" "\<forall>x. frame x h h'"
    "ary_list h' a = ary_list h a" "arys h' ! a = (arys h ! a)\<lparr>aaux := Shared_by s, elts_shared := True\<rparr>"
    "bufs h' = bufs h" "safe_level h' = safe_level h" "s < length (arys h')"
    "\<not> elts_shared (arys h' ! s)" "frozen (arys h' ! s)" "blk (arys h' ! s) = blk (arys h ! a)"
    "length (arys h) \<le> length (arys h')" "\<forall>x < length (arys h). x \<noteq> a \<longrightarrow> arys h' ! x = arys h ! x"
    "s < length (arys h) \<longrightarrow> h' = h"
proof (cases "elts_shared (arys h ! a)")
  case True
  have a: "a < length (arys h)" using v by (simp add: visible_def)
  obtain s where s: "s < length (arys h)" "aaux (arys h ! a) = Shared_by s" "\<not> elts_shared (arys h ! s)"
    "frozen (arys h ! s)" "blk (arys h ! s) = blk (arys h ! a)"
    using heap_okD(2)[OF ok a] True by (auto simp: share_ok_def)
  have "ary_make_shared a h = (Inr s, h)" using a True s by (simp add: ary_make_shared_def)
  moreover have "arys h ! a = (arys h ! a)\<lparr>aaux := Shared_by s, elts_shared := True\<rparr>"
    using s(2) True by (cases "arys h ! a") simp
  ultimately show thesis using that[of s h] ok s by simp
next
  case False
  have a: "a < length (arys h)" using v by (simp add: visible_def)
  note r = heap_okD(1)[OF ok a]
  let ?r = "arys h ! a" and ?s = "length (arys h)"
  let ?o = "\<lparr>ptr = ptr ?r, alen = alen ?r, aaux = aaux ?r, elts_shared = False, frozen = True,
             tmplock = False, tainted = False\<rparr>"
  let ?r' = "?r\<lparr>aaux := Shared_by ?s, elts_shared := True\<rparr>"
  let ?h' = "h\<lparr>arys := (arys h)[a := ?r'] @ [?o]\<rparr>"
  have run: "ary_make_shared a h = (Inr ?s, ?h')"
    using a False by (simp add: ary_make_shared_def NEWOBJ_def nth_append list_update_append)
  have rep: "rep_ok (bufs h) ?o" "rep_ok (bufs h) ?r'"
    using r False by (auto simp: rep_ok_def cells_def split: pointer.splits)
  have blk: "blk ?o = blk ?r" "blk ?r' = blk ?r" by (simp_all add: blk_def)
  have nota: "share_ok (arys h) r \<Longrightarrow> r \<in> set (arys h) \<Longrightarrow> share_ok (arys ?h') r" for r
  proof (cases "elts_shared r")
    assume sr: "share_ok (arys h) r" "r \<in> set (arys h)" and e: "elts_shared r"
    then obtain s where s: "s < length (arys h)" "aaux r = Shared_by s" "\<not> elts_shared (arys h ! s)"
      "frozen (arys h ! s)" "blk (arys h ! s) = blk r"
      by (auto simp: share_ok_def)
    have "s \<noteq> a" using s(2) v sr(2) e by (auto simp: visible_def)
    then show ?thesis using s e by (auto simp: share_ok_def nth_append)
  qed (simp add: share_ok_def)
  have share: "share_ok (arys ?h') ?o" "share_ok (arys ?h') ?r'"
    using blk by (simp_all add: share_ok_def nth_append)
  have sa: "?s \<noteq> a" using a by simp
  have one: "one_owner (arys ?h')"
    unfolding one_owner_def
  proof (intro allI impI)
    fix x y assume x: "x < length (arys ?h')" and y: "y < length (arys ?h')"
      and e: "\<not> elts_shared (arys ?h' ! x) \<and> \<not> elts_shared (arys ?h' ! y) \<and> blk (arys ?h' ! x) \<noteq> None \<and>
        blk (arys ?h' ! x) = blk (arys ?h' ! y)"
    define f where "f z = (if z = ?s then a else z)" for z
    have f: "z \<noteq> a \<and> f z < length (arys h) \<and> \<not> elts_shared (arys h ! f z) \<and> blk (arys h ! f z) = blk (arys ?h' ! z)"
      if "z < length (arys ?h')" "\<not> elts_shared (arys ?h' ! z)" for z
      using that False a blk by (cases "z = ?s"; cases "z = a") (auto simp: f_def nth_append)
    have "f x = f y"
      using ok e f[of x] f[of y] x y unfolding heap_ok_def one_owner_def by metis
    then show "x = y" using f[of x] f[of y] x y e by (auto simp: f_def split: if_splits)
  qed
  have ok': "heap_ok ?h'"
    unfolding heap_ok_def
  proof (rule conjI, rule ballI)
    fix r assume "r \<in> set (arys ?h')"
    then consider "r = ?o" | "r = ?r'" | "r \<in> set (arys h)"
      by (auto dest!: set_update_subset_insert[THEN subsetD])
    then show "rep_ok (bufs ?h') r \<and> share_ok (arys ?h') r"
      by cases (use ok rep share nota in \<open>auto simp: heap_ok_def\<close>)
  qed (rule one)
  have cells: "cells (bufs h) ?r' = cells (bufs h) ?r" by (simp add: cells_def split: pointer.split)
  have fr: "\<forall>x. frame x h ?h'"
    using a cells
    by (auto simp: frame_def writable_def visible_def ary_list_def nth_list_update nth_append
          dest!: set_update_subset_insert[THEN subsetD])
  have "ary_list ?h' a = ary_list h a" using a cells by (simp add: ary_list_def nth_append)
  then show thesis
    using that[OF run ok' fr] a blk by (simp add: nth_append)
qed

section \<open>Both ends of an array\<close>

lemma cell_run:
  assumes r: "rep_ok (bufs h) r" and i: "0 \<le> i" "i < alen r" and g: "bufs g = bufs h"
  shows "cell (ptr r) i g = (Inr (map the (cells (bufs h) r) ! nat i), g)"
proof -
  obtain b off where p: "ptr r = Ptr b off" using r i by (auto simp: rep_ok_def split: pointer.splits)
  note s = rep_ok_slice[OF r p]
  have n: "nat i < length (cells (bufs h) r)" using alen_cells[OF r] i by linarith
  have k: "nat (off + i) < length (bufs h ! b)" "nat (off + i) = nat off + nat i" using s i by linarith+
  have c: "cells (bufs h) r ! nat i = bufs h ! b ! nat (off + i)" using s n k by simp
  have "None \<notin> set (cells (bufs h) r)" using r p by (simp add: rep_ok_def)
  then have "cells (bufs h) r ! nat i \<noteq> None" using nth_mem[OF n] by metis
  then obtain v where v: "bufs h ! b ! nat (off + i) = Some v" using c by auto
  have "take (Suc 0) (drop (nat (off + i)) (bufs h ! b)) = [Some v]"
    using k(1) v by (simp add: take_Suc_conv_app_nth)
  moreover have "in_block g (Ptr b (off + i)) 1" using s i g by (simp add: in_block_def)
  ultimately show ?thesis using p g c n v by (simp add: cell_def ptr_add_def load_def)
qed

lemma frame_of_updates: "updates m a h x vs \<Longrightarrow> m h = (r, h') \<Longrightarrow> heap_ok h' \<and> frame a h h' \<and> r = Inr x"
  by (auto elim: updatesE)

lemma owned_block:
  assumes "heap_ok h" "owned h a" "ary_list h a \<noteq> []"
  obtains b where "ptr (arys h ! a) = Ptr b 0"
  using owned_shape(5)[OF assms(1,2)] assms(3) by (auto simp: ary_list_def cells_def)

lemma take_last_ok:
  assumes ok: "heap_ok g" and ag: "a < length (arys g)" and ne: "ary_list g a \<noteq> []"
    and sh: "owned g a \<or> elts_shared (arys g ! a)"
  shows "updates (take_last a) a g (last (ary_list g a)) (butlast (ary_list g a))"
proof -
  let ?vs = "ary_list g a" and ?l = "int (length (ary_list g a))"
  note r = heap_okD(1)[OF ok ag] and len = length_ary_list[OF ok ag, symmetric]
  have l: "0 < ?l" "nat (?l - 1) = length ?vs - Suc 0"
    and lm: "?l - 1 = int (length ?vs - Suc 0)" using ne by (simp_all add: of_nat_diff Suc_leI)
  let ?r' = "(arys g ! a)\<lparr>alen := ?l - 1\<rparr>" and ?g' = "g\<lparr>arys := (arys g)[a := (arys g ! a)\<lparr>alen := ?l - 1\<rparr>]\<rparr>"
  have run: "take_last a g = (Inr (last ?vs), ?g')"
    using ag len l cell_run[OF r, of "?l - 1" ?g'] ne
    by (simp add: take_last_def ary_list_def[symmetric] last_conv_nth)
  show ?thesis
  proof (cases "owned g a")
    case True
    then obtain b where p: "ptr (arys g ! a) = Ptr b 0" using owned_block[OF ok _ ne] by blast
    have "take (length (butlast ?vs)) (bufs g ! b) = take (length ?vs - 1) (take (length ?vs) (bufs g ! b))"
      by simp
    also have "take (length ?vs) (bufs g ! b) = map Some ?vs" using owned_cells(1)[OF ok True p] len by simp
    finally have "take (length (butlast ?vs)) (bufs g ! b) = map Some (butlast ?vs)"
      by (simp add: butlast_conv_take take_map)
    note t = this
    show ?thesis
    proof (rule writes_updates[OF writes_write[OF ok True p]])
      show "take_last a g = (Inr (last ?vs), g\<lparr>bufs := (bufs g)[b := bufs g ! b],
          arys := (arys g)[a := (arys g ! a)\<lparr>alen := ?l - 1\<rparr>]\<rparr>)" using run by simp
      show "?l - 1 = int (length (butlast ?vs))" unfolding lm by simp
    qed (rule refl t)+
  next
    case False
    then have sh: "elts_shared (arys g ! a)" using sh by simp
    have c: "cells (bufs g) ?r' = butlast (cells (bufs g) (arys g ! a))"
      using len l alen_cells[OF r] by (auto simp: cells_def butlast_conv_take split: pointer.splits)
    have rep: "rep_ok (bufs g) ?r'"
      using r c sh l len by (auto simp: rep_ok_def split: pointer.splits dest: in_set_butlastD)
    note u = shared_update[OF ok ag sh rep, of ?g']
    show ?thesis
    proof (rule updatesI)
      show "take_last a g = (Inr (last ?vs), ?g')" by (rule run)
      show "heap_ok ?g'" "frame a g ?g'" using u sh by (simp_all add: blk_def)
      show "ary_list ?g' a = butlast ?vs" using ag c by (simp add: ary_list_def map_butlast)
    qed
  qed
qed

lemma rb_ary_pop_ok:
  assumes ok: "heap_ok h" and w: "writable h a"
  shows "updates (rb_ary_pop a) a h (if ary_list h a = [] then Qnil else last (ary_list h a)) (butlast (ary_list h a))"
proof (cases "ary_list h a = []")
  case True
  then show ?thesis
    using ok writable_valid[OF w] modify_check_run(1)[OF w] length_ary_list[OF ok writable_valid[OF w]]
    by (intro updatesI) (simp_all add: rb_ary_pop_def)
next
  case False
  note a = writable_valid[OF w] and check = modify_check_run(1)[OF w]
  have nz: "alen (arys h ! a) \<noteq> 0" using length_ary_list[OF ok a] False by auto
  have "\<exists>g. heap_ok g \<and> frame a h g \<and> ary_list g a = ary_list h a \<and> a < length (arys g) \<and>
      (owned g a \<or> elts_shared (arys g ! a)) \<and> rb_ary_pop a h = take_last a g"
  proof (cases "owned h a")
    case True
    then obtain c where c: "aaux (arys h ! a) = Capa c" "4 * c < 2147483648" "\<not> elts_shared (arys h ! a)"
      using owned_shape(2,4)[OF ok True] by blast
    show ?thesis
    proof (cases "alen (arys h ! a) * 2 < c \<and> c > ARY_DEFAULT_SIZE")
      case shrink: True
      then have "alen (arys h ! a) \<le> alen (arys h ! a) * 2" "4 * (alen (arys h ! a) * 2) < 2147483648"
        using c alen_bound[OF ok a] by linarith+
      then obtain g where g: "capa_then_realloc a (alen (arys h ! a) * 2) h = (Inr (), g)" "heap_ok g" "owned g a"
        "frame a h g" "ary_list g a = ary_list h a"
        using owned_resize[OF ok True] by metis
      then show ?thesis using a nz check c shrink frame_valid[OF g(4) a]
        by (intro exI[of _ g]) (simp add: rb_ary_pop_def capa_def)
    next
      case keep: False
      then show ?thesis using a nz check c ok True
        by (intro exI[of _ h]) (auto simp: rb_ary_pop_def capa_def)
    qed
  next
    case shared: False
    then show ?thesis using a nz check ok w
      by (intro exI[of _ h]) (auto simp: rb_ary_pop_def owned_iff)
  qed
  then obtain g where g: "heap_ok g" "frame a h g" "ary_list g a = ary_list h a" "a < length (arys g)"
    "owned g a \<or> elts_shared (arys g ! a)" "rb_ary_pop a h = take_last a g" by blast
  have "ary_list g a \<noteq> []" using g(3) False by simp
  note last = take_last_ok[OF g(1,4) this g(5)]
  show ?thesis using updates_from[where m' = "rb_ary_pop a", OF last g(2,6)] g(3) False by simp
qed

lemma MEMMOVE_run:
  assumes "b < length (bufs h)" "c < length (bufs h)" "0 \<le> i" "0 \<le> j" "0 \<le> n"
    "i + n \<le> int (length (bufs h ! b))" "j + n \<le> int (length (bufs h ! c))"
  shows "MEMMOVE (Ptr b i) (Ptr c j) n h =
    (Inr (), h\<lparr>bufs := (bufs h)[b := poke (bufs h ! b) (nat i) (take (nat n) (drop (nat j) (bufs h ! c)))]\<rparr>)"
proof (cases "n = 0")
  case True
  then show ?thesis using assms by (simp add: MEMMOVE_def load_def fill_cells_def poke_def)
next
  case False
  let ?ys = "take (nat n) (drop (nat j) (bufs h ! c))"
  have "load (Ptr c j) n h = (Inr ?ys, h)" using False assms by (simp add: load_def in_block_def)
  moreover have "fill_cells (Ptr b i) ?ys h = (Inr (), h\<lparr>bufs := (bufs h)[b := poke (bufs h ! b) (nat i) ?ys]\<rparr>)"
    using assms by (intro fill_cells_run) auto
  ultimately show ?thesis by (simp add: MEMMOVE_def)
qed

lemma rb_ary_shift_ok:
  assumes ok: "heap_ok h" and w: "writable h a"
  shows "updates (rb_ary_shift a) a h (if ary_list h a = [] then Qnil else hd (ary_list h a)) (tl (ary_list h a))"
proof (cases "ary_list h a = []")
  case True
  then show ?thesis
    using ok writable_valid[OF w] modify_check_run(1)[OF w] length_ary_list[OF ok writable_valid[OF w]]
    by (intro updatesI) (simp_all add: rb_ary_shift_def)
next
  case False
  note a = writable_valid[OF w] and check = modify_check_run(1)[OF w]
  have l: "0 < alen (arys h ! a)" using length_ary_list[OF ok a] False by (cases "ary_list h a") auto
  obtain h1 s where h1: "ary_make_shared a h = (Inr s, h1)" "heap_ok h1" "frame a h h1"
    "ary_list h1 a = ary_list h a" "arys h1 ! a = (arys h ! a)\<lparr>aaux := Shared_by s, elts_shared := True\<rparr>"
    "bufs h1 = bufs h"
    using ary_make_shared_ok[OF ok writable_visible[OF ok w]] by metis
  have a1: "a < length (arys h1)" using frame_valid[OF h1(3) a] .
  let ?r = "arys h1 ! a"
  let ?r' = "?r\<lparr>ptr := ptr_add (ptr ?r) 1, alen := alen ?r - 1\<rparr>"
  let ?h' = "h1\<lparr>arys := (arys h1)[a := ?r']\<rparr>"
  note r = heap_okD(1)[OF h1(2) a1]
  have l1: "0 < alen ?r" and sh: "elts_shared ?r" using l h1(5) by simp_all
  obtain b off where p: "ptr ?r = Ptr b off" using r l1 by (auto simp: rep_ok_def split: pointer.splits)
  note sl = rep_ok_slice[OF r p]
  have c: "cells (bufs h1) ?r' = tl (cells (bufs h1) ?r)"
    using sl l1 p by (simp add: cells_def ptr_add_def nat_add_distrib nat_diff_distrib drop_Suc tl_take tl_drop)
  have rep: "rep_ok (bufs h1) ?r'"
    using r p c sh l1 list.set_sel(2)[of "cells (bufs h1) ?r" None]
    by (cases "cells (bufs h1) ?r") (auto simp: rep_ok_def ptr_add_def)
  have run: "rb_ary_shift a h = (Inr (hd (ary_list h a)), ?h')"
    using a a1 check l h1(1) cell_run[OF heap_okD(1)[OF ok a], of 0 h] False
    by (simp add: rb_ary_shift_def ary_list_def[symmetric] hd_conv_nth)
  note u = shared_update[OF h1(2) a1 sh rep, of ?h']
  have "heap_ok ?h'" "frame a h1 ?h'" "ary_list ?h' a = tl (ary_list h1 a)"
    using u sh p c by (simp_all add: blk_def ptr_add_def ary_list_def map_tl)
  then show ?thesis using updatesI[of "rb_ary_shift a" h] run frame_trans[OF h1(3)] h1(4) False by simp
qed

lemma poke_front:
  assumes xs: "take (length vs) xs = map Some vs" and n: "length vs + length us \<le> length xs"
  shows "length (poke (poke xs (length us) (take (length vs) xs)) 0 (map Some us)) = length xs"
    "take (length (us @ vs)) (poke (poke xs (length us) (take (length vs) xs)) 0 (map Some us)) = map Some (us @ vs)"
proof -
  let ?ys = "poke xs (length us) (take (length vs) xs)"
  have ys: "length ?ys = length xs" using n by simp
  then show "length (poke ?ys 0 (map Some us)) = length xs" using n by simp
  have "take (length us + length vs) ?ys = take (length us) xs @ map Some vs"
    using take_poke_end[of "length us" xs "take (length vs) xs"] n xs by simp
  then have "drop (length us) (take (length us + length vs) ?ys) = map Some vs" using n by simp
  then show "take (length (us @ vs)) (poke ?ys 0 (map Some us)) = map Some (us @ vs)"
    using take_poke_beyond[of 0 "map Some us" "length us + length vs" ?ys] ys n by simp
qed

lemma shift_cells_right:
  assumes ok: "heap_ok h" and own: "owned h a" and p: "ptr (arys h ! a) = Ptr b 0"
    and n: "length (ary_list h a) + length us \<le> length (bufs h ! b)"
  shows "MEMMOVE (Ptr b (int (length us))) (Ptr b 0) (int (length (ary_list h a))) h =
      (Inr (), h\<lparr>bufs := (bufs h)[b := poke (bufs h ! b) (length us) (take (length (ary_list h a)) (bufs h ! b))]\<rparr>)"
  using MEMMOVE_run[of b h b "int (length us)" 0 "int (length (ary_list h a))"] owned_cells(3)[OF ok own p] n
  by simp

lemma rb_ary_unshift_ok:
  assumes ok: "heap_ok h" and w: "writable h a" and n: "length (ary_list h a) < 268435456"
  shows "updates (rb_ary_unshift a v) a h a (v # ary_list h a)"
proof -
  note a = writable_valid[OF w]
  obtain h1 where h1: "rb_ary_modify a h = (Inr (), h1)" "heap_ok h1" "owned h1 a" "frame a h h1"
    "ary_list h1 a = ary_list h a"
    using rb_ary_modify_ok[OF ok w] by metis
  have a1: "a < length (arys h1)" using frame_valid[OF h1(4) a] .
  note len1 = length_ary_list[OF h1(2) a1, symmetric]
  obtain c where c: "aaux (arys h1 ! a) = Capa c" "alen (arys h1 ! a) \<le> c" "4 * c < 2147483648"
    using owned_shape(4)[OF h1(2,3)] by blast
  define grow where "grow = (if alen (arys h1 ! a) = c
     then (let half = c_quot c 2; capa_inc = (if half < ARY_DEFAULT_SIZE then ARY_DEFAULT_SIZE else half)
       in capa_then_realloc a (s32 (c + capa_inc))) else ret ())"
  obtain h2 b where h2: "grow h1 = (Inr (), h2)" "heap_ok h2" "owned h2 a" "frame a h1 h2"
    "ary_list h2 a = ary_list h1 a" "ptr (arys h2 ! a) = Ptr b 0"
    "length (ary_list h2 a) < length (bufs h2 ! b)"
  proof (cases "alen (arys h1 ! a) = c")
    case True
    let ?n = "c + (if c div 2 < 16 then 16 else c div 2)"
    have c28: "0 \<le> c" "c < 268435456" using True len1 h1(5) n by simp_all
    then have bound: "4 * ?n < 2147483648" "alen (arys h1 ! a) \<le> ?n" "c < ?n" using True by auto
    have "s32 (c + (if c_quot c 2 < ARY_DEFAULT_SIZE then ARY_DEFAULT_SIZE else c_quot c 2)) = ?n"
      using c28 bound by (simp add: c_quot_nonneg ARY_DEFAULT_SIZE_def s32_id)
    then have "grow = capa_then_realloc a ?n" using True by (simp add: grow_def Let_def)
    then obtain h2 b where h2: "grow h1 = (Inr (), h2)" "heap_ok h2" "owned h2 a" "frame a h1 h2"
      "ary_list h2 a = ary_list h1 a" "arys h2 ! a = (arys h1 ! a)\<lparr>ptr := Ptr b 0, aaux := Capa ?n\<rparr>"
      "length (bufs h2 ! b) = nat ?n"
      using owned_resize[OF h1(2,3) bound(2,1)] by metis
    have "length (ary_list h2 a) < length (bufs h2 ! b)"
      using h2(5,7) len1 True bound(3) by simp
    then show thesis using that[OF h2(1-5)] h2(6) by simp
  next
    case False
    then have "0 < c" using c len1 by simp
    then obtain b where p: "ptr (arys h1 ! a) = Ptr b 0"
      using owned_shape(2,5)[OF h1(2,3)] c heap_okD(1)[OF h1(2) a1] by (auto simp: rep_ok_def)
    have "length (ary_list h1 a) < length (bufs h1 ! b)"
      using owned_cells(2)[OF h1(2,3) p] c False len1 by simp
    then show thesis using that[of h1 b] h1 p False by (simp add: grow_def)
  qed
  have a2: "a < length (arys h2)" using frame_valid[OF h2(4) a1] .
  note o = owned_cells[OF h2(2,3,6)] and len2 = length_ary_list[OF h2(2) a2, symmetric]
  let ?xs = "bufs h2 ! b" and ?vs = "ary_list h2 a"
  let ?ys = "poke (poke ?xs 1 (take (length ?vs) ?xs)) 0 [Some v]"
  have t: "take (length ?vs) ?xs = map Some ?vs" using o(1) len2 by simp
  note front = poke_front[of ?vs ?xs "[v]"]
  have mv: "MEMMOVE (Ptr b 1) (Ptr b 0) (int (length ?vs)) h2 =
      (Inr (), h2\<lparr>bufs := (bufs h2)[b := poke ?xs 1 (take (length ?vs) ?xs)]\<rparr>)"
    using shift_cells_right[OF h2(2,3,6), of "[v]"] h2(7) by simp
  have set0: "set_cell (Ptr b 0) 0 v g = (Inr (), g\<lparr>bufs := (bufs g)[b := poke (bufs g ! b) 0 [Some v]]\<rparr>)"
    if "b < length (bufs g)" "0 < length (bufs g ! b)" for g
    using fill_cells_run[of b g 0 "[Some v]"] that by (simp add: set_cell_def ptr_add_def)
  have nz: "0 < length (poke ?xs 1 (take (length ?vs) ?xs))" using h2(7) by (auto simp: poke_def)
  have run: "rb_ary_unshift a v h = (Inr a, h2\<lparr>bufs := (bufs h2)[b := ?ys],
      arys := (arys h2)[a := (arys h2 ! a)\<lparr>alen := int (length ?vs) + 1\<rparr>]\<rparr>)"
    using a1 a2 h1(1) c(1) h2(1) o(3) mv set0 nz len2 h2(6)
    by (simp add: rb_ary_unshift_def capa_def grow_def[symmetric] ptr_add_def)
  have "writes (\<lambda>_. rb_ary_unshift a v h) a h2 a (v # ?vs)"
    by (rule writes_write[OF h2(2,3,6)]) (rule run, use front t h2(7) in simp_all)
  then show ?thesis
    using updates_from[OF writes_updates frame_trans[OF h1(4) h2(4)], of _ _ _ "rb_ary_unshift a v"] h1 h2 by simp
qed

lemma rb_ary_unshift_m_ok:
  assumes ok: "heap_ok h" and w: "writable h a" and n: "length (ary_list h a) + length argv \<le> 268435456"
  shows "updates (rb_ary_unshift_m (int (length argv)) argv a) a h a (argv @ ary_list h a)"
proof (cases "argv = []")
  case True
  then show ?thesis using ok writable_valid[OF w] by (intro updatesI) (simp_all add: rb_ary_unshift_m_def)
next
  case False
  note a = writable_valid[OF w]
  note len = length_ary_list[OF ok a, symmetric]
  let ?k = "int (length argv)" and ?vs = "ary_list h a" and ?l = "int (length (ary_list h a))"
  have k: "0 < ?k" using False by simp
  have idx: "s32 (alen (arys h ! a) + ?k - 1) = ?l + ?k - 1" using len n k by (simp add: s32_id)
  have "nat (?l + ?k - 1) = length ?vs + (length argv - 1)" using k by linarith
  then have spec: "store_list ?vs (?l + ?k - 1) Qnil = ?vs @ replicate (length argv) Qnil"
    using k by (cases argv) (simp_all add: store_list_def replicate_append_same)
  have w1: "writes (rb_ary_store a (?l + ?k - 1) Qnil) a h () (?vs @ replicate (length argv) Qnil)"
    using rb_ary_store_below[OF ok w, of "?l + ?k - 1" Qnil] k n spec by simp
  then obtain h1 where h1: "rb_ary_store a (?l + ?k - 1) Qnil h = (Inr (), h1)" "heap_ok h1" "frame a h h1"
    "ary_list h1 a = ?vs @ replicate (length argv) Qnil" "\<not> elts_shared (arys h1 ! a)"
    by (auto simp: writes_def elim: updatesE)
  have a1: "a < length (arys h1)" using frame_valid[OF h1(3) a] .
  have own: "owned h1 a" using h1 frame_writable[OF h1(3) w] by (simp add: owned_iff)
  have ne: "ary_list h1 a \<noteq> []" using h1(4) False by simp
  obtain b where p: "ptr (arys h1 ! a) = Ptr b 0" using owned_block[OF h1(2) own ne] .
  note o = owned_cells[OF h1(2) own p] and len1 = length_ary_list[OF h1(2) a1, symmetric]
  let ?xs = "bufs h1 ! b"
  have room: "length ?vs + length argv \<le> length ?xs" using o(4) h1(4) by simp
  have "take (length ?vs) ?xs = take (length ?vs) (take (length ?vs + length argv) ?xs)" by simp
  also have "take (length ?vs + length argv) ?xs = map Some (ary_list h1 a)" using o(1) nat_alen[OF h1(2) a1] h1(4) by simp
  finally have t: "take (length ?vs) ?xs = map Some ?vs" using h1(4) by simp
  note front = poke_front[OF t room]
  let ?ys = "poke (poke ?xs (length argv) (take (length ?vs) ?xs)) 0 (map Some argv)"
  have mv: "MEMMOVE (Ptr b ?k) (Ptr b 0) ?l h1 =
      (Inr (), h1\<lparr>bufs := (bufs h1)[b := poke ?xs (length argv) (take (length ?vs) ?xs)]\<rparr>)"
    using MEMMOVE_run[of b h1 b ?k 0 ?l] o(3) room by simp
  have fc: "fill_cells (Ptr b 0) (map Some argv) g = (Inr (), g\<lparr>bufs := (bufs g)[b := poke (bufs g ! b) 0 (map Some argv)]\<rparr>)"
    if "b < length (bufs g)" "length (bufs g ! b) = length ?xs" for g
    using fill_cells_run[of b g 0 "map Some argv"] that room by simp
  have "(arys h1)[a := (arys h1 ! a)\<lparr>alen := int (length (ary_list h1 a))\<rparr>] = arys h1"
    using alen_same[OF len1] by simp
  then have run: "rb_ary_unshift_m ?k argv a h = (Inr a, h1\<lparr>bufs := (bufs h1)[b := ?ys],
      arys := (arys h1)[a := (arys h1 ! a)\<lparr>alen := int (length (ary_list h1 a))\<rparr>]\<rparr>)"
    using a a1 False idx h1(1) p mv fc o(3) room len
    by (simp add: rb_ary_unshift_m_def ptr_add_def Let_def)
  have "writes (\<lambda>_. rb_ary_unshift_m ?k argv a h) a h1 a (argv @ ?vs)"
    by (rule writes_write[OF h1(2) own p]) (rule run, use front len1 h1(4) in simp_all)
  then show ?thesis
    using updates_from[OF writes_updates h1(3), of _ _ _ "rb_ary_unshift_m ?k argv a"] by simp
qed

section \<open>New arrays\<close>

text \<open>
  \<open>fresh_ary h n h' vs\<close>: array \<open>n\<close> of \<open>h'\<close> is new, holds \<open>vs\<close>, and every array of \<open>h\<close> is as it was.
\<close>

definition fresh_ary :: "heap \<Rightarrow> nat \<Rightarrow> heap \<Rightarrow> VALUE list \<Rightarrow> bool" where
  "fresh_ary h n h' vs \<longleftrightarrow> heap_ok h' \<and> length (arys h) \<le> n \<and> n < length (arys h') \<and>
     ary_list h' n = vs \<and> visible h' n \<and> (safe_level h < 4 \<longrightarrow> writable h' n) \<and> frame n h h'"

lemma fresh_aryD:
  assumes "fresh_ary h n h' vs" "x < length (arys h)"
  shows "ary_list h' x = ary_list h x" "writable h' x = writable h x" "x < length (arys h')" "x \<noteq> n"
  using assms by (auto simp: fresh_ary_def frame_def)

lemma fresh_ary_extend:
  assumes "fresh_ary h n h1 us" "frame n h1 h2" "heap_ok h2" "ary_list h2 n = vs"
  shows "fresh_ary h n h2 vs"
  using assms frame_trans[of n h h1 h2] by (auto simp: fresh_ary_def frame_def)

lemma ary_new_ok:
  assumes ok: "heap_ok h" and n: "0 \<le> n" "4 * n < 2147483648"
  obtains h' b where "ary_new n h = (Inr (length (arys h)), h')" "fresh_ary h (length (arys h)) h' []"
    "owned h' (length (arys h))" "ptr (arys h' ! length (arys h)) = Ptr b 0"
    "length (bufs h' ! b) = nat (if n = 0 then 1 else n)" "alen (arys h' ! length (arys h)) = 0"
    "tainted (arys h' ! length (arys h)) = False" "length (arys h') = Suc (length (arys h))"
    "b = length (bufs h)" "tmplock (arys h' ! length (arys h)) = False"
    "\<forall>x < length (arys h). arys h' ! x = arys h ! x"
proof -
  let ?a = "length (arys h)" and ?b = "length (bufs h)" and ?n = "if n = 0 then 1 else n"
  let ?r = "\<lparr>ptr = Ptr ?b 0, alen = 0, aaux = Capa ?n, elts_shared = False, frozen = False,
             tmplock = False, tainted = False\<rparr>"
  let ?g = "h\<lparr>bufs := bufs h @ [replicate (nat ?n) None]\<rparr>"
  let ?h' = "?g\<lparr>arys := arys h @ [?r]\<rparr>"
  have small: "\<not> (n > 0 \<and> u32 (n * 4) \<le> u32 n)" using n by (auto simp: u32_id)
  have alloc: "ALLOC_N ?n g = (Inr (Ptr (length (bufs g)) 0), g\<lparr>bufs := bufs g @ [replicate (nat ?n) None]\<rparr>)" for g
    using n by (intro ALLOC_N_run) auto
  have run: "ary_new n h = (Inr ?a, ?h')"
    using n small alloc by (simp add: ary_new_def ary_alloc_def NEWOBJ_def Let_def nth_append)
  have cells: "cells (bufs ?g) r = cells (bufs h) r \<and> rep_ok (bufs ?g) r" if "r \<in> set (arys h)" for r
    using ok that by (auto simp: heap_ok_def rep_ok_def cells_def nth_append split: pointer.splits)
  have okg: "heap_ok ?g" using ok cells by (auto simp: heap_ok_def)
  have frg: "frame x h ?g" for x
    using cells by (auto simp: frame_def writable_def visible_def ary_list_def)
  have rep: "rep_ok (bufs ?g) ?r" "share_ok (arys ?g) ?r"
    using n by (auto simp: rep_ok_def cells_def share_ok_def)
  have old: "blk (arys ?g ! x) \<noteq> blk ?r" if "x < length (arys ?g)" for x
    using heap_okD(1)[OF ok, of x] that by (auto simp: rep_ok_def blk_def split: pointer.splits)
  note add = add_object[OF okg _ _ _ rep, of ?h']
  have ok': "heap_ok ?h'" and fr: "frame ?a ?g ?h'" and l: "ary_list ?h' ?a = []"
    using add(1,3) add(2)[of ?a] old by (simp_all add: cells_def)
  have "visible ?h' ?a"
    using ok by (auto simp: visible_def heap_ok_def share_ok_def)
  then have fresh: "fresh_ary h ?a ?h' []"
    using ok' l frame_trans[OF frg fr] by (simp add: fresh_ary_def writable_def)
  show thesis by (rule that[OF run fresh, of ?b]) (use n in \<open>auto simp: owned_def nth_append\<close>)
qed

lemma ary_new_negative: "n < 0 \<Longrightarrow> fst (ary_new n h) = Inl ArgError"
  by (simp add: ary_new_def ary_alloc_def NEWOBJ_def)

lemma fill_new:
  assumes f: "fresh_ary h a h1 []" and own: "owned h1 a" and p: "ptr (arys h1 ! a) = Ptr b 0"
    and n: "length vs \<le> length (bufs h1 ! b)"
  obtains h2 where "fill_cells (Ptr b 0) (map Some vs) h1 = (Inr (), h2)"
    "upd_ary a (\<lambda>r. r\<lparr>alen := int (length vs)\<rparr>) h2 = (Inr (), h2\<lparr>arys := (arys h1)[a := (arys h1 ! a)\<lparr>alen := int (length vs)\<rparr>]\<rparr>)"
    "fresh_ary h a (h2\<lparr>arys := (arys h1)[a := (arys h1 ! a)\<lparr>alen := int (length vs)\<rparr>]\<rparr>) vs"
    "arys h2 = arys h1"
proof -
  have ok: "heap_ok h1" and a: "a < length (arys h1)" using f by (simp_all add: fresh_ary_def)
  note o = owned_cells[OF ok own p]
  let ?ys = "poke (bufs h1 ! b) 0 (map Some vs)"
  let ?h2 = "h1\<lparr>bufs := (bufs h1)[b := ?ys]\<rparr>"
  let ?h3 = "?h2\<lparr>arys := (arys h1)[a := (arys h1 ! a)\<lparr>alen := int (length vs)\<rparr>]\<rparr>"
  have run: "fill_cells (Ptr b 0) (map Some vs) h1 = (Inr (), ?h2)"
    using fill_cells_run[of b h1 0 "map Some vs"] o(3) n by simp
  have t: "take (length vs) ?ys = map Some vs" using take_poke_end[of 0 "bufs h1 ! b" "map Some vs"] by simp
  have "heap_ok ?h3" "frame a h1 ?h3" "ary_list ?h3 a = vs"
    using owned_write[OF ok own p _ t refl, of ?h3] n by simp_all
  then have "fresh_ary h a ?h3 vs" by (intro fresh_ary_extend[OF f])
  then show thesis using that[of ?h2] run a by simp
qed

lemma rb_ary_new3_ok:
  assumes ok: "heap_ok h" and n: "4 * int (length vs) < 2147483648"
  obtains h' where "rb_ary_new3 vs h = (Inr (length (arys h)), h')" "fresh_ary h (length (arys h)) h' vs"
    "rb_ary_new4 (int (length vs)) (Some vs) h = (Inr (length (arys h)), h')"
proof -
  let ?a = "length (arys h)"
  obtain h1 b where h1: "ary_new (int (length vs)) h = (Inr ?a, h1)" "fresh_ary h ?a h1 []" "owned h1 ?a"
    "ptr (arys h1 ! ?a) = Ptr b 0" "length (bufs h1 ! b) = nat (if int (length vs) = 0 then 1 else int (length vs))"
    "length (arys h1) = Suc (length (arys h))"
    using ary_new_ok[OF ok, of "int (length vs)"] n by (metis of_nat_0_le_iff)
  have "length vs \<le> length (bufs h1 ! b)" using h1(5) by simp
  from fill_new[OF h1(2-4) this] obtain h2 where h2: "fill_cells (Ptr b 0) (map Some vs) h1 = (Inr (), h2)"
    "fresh_ary h ?a (h2\<lparr>arys := (arys h1)[?a := (arys h1 ! ?a)\<lparr>alen := int (length vs)\<rparr>]\<rparr>) vs"
    "arys h2 = arys h1" by metis
  show thesis
  proof (rule that[of "h2\<lparr>arys := (arys h1)[?a := (arys h1 ! ?a)\<lparr>alen := int (length vs)\<rparr>]\<rparr>"])
    show "rb_ary_new3 vs h = (Inr ?a, h2\<lparr>arys := (arys h1)[?a := (arys h1 ! ?a)\<lparr>alen := int (length vs)\<rparr>]\<rparr>)"
      using h1 h2 by (simp add: rb_ary_new3_def rb_ary_new2_def)
    have "h2 = h1" if "vs = []" using that h2(1) by (simp add: fill_cells_def)
    then show "rb_ary_new4 (int (length vs)) (Some vs) h = (Inr ?a, h2\<lparr>arys := (arys h1)[?a := (arys h1 ! ?a)\<lparr>alen := int (length vs)\<rparr>]\<rparr>)"
      using h1 h2 by (cases "vs = []") (simp_all add: rb_ary_new4_def rb_ary_new2_def)
  qed (rule h2(2))
qed

section \<open>A sample heap\<close>

text \<open>
  The array 1, 2, 3 (object 0) and its last two elements as a slice (object 1); both share the
  block of the frozen object 2.
\<close>

definition fix_cells :: "int list \<Rightarrow> VALUE list" where
  "fix_cells is = map (\<lambda>i. Num (Fixnum i)) is"

definition sample_heap :: heap where
  "sample_heap = \<lparr>bufs = [map Some (fix_cells [1, 2, 3])],
     arys = [\<lparr>ptr = Ptr 0 0, alen = 3, aaux = Shared_by 2, elts_shared = True, frozen = False, tmplock = False, tainted = False\<rparr>,
             \<lparr>ptr = Ptr 0 1, alen = 2, aaux = Shared_by 2, elts_shared = True, frozen = False, tmplock = False, tainted = False\<rparr>,
             \<lparr>ptr = Ptr 0 0, alen = 3, aaux = Capa 3, elts_shared = False, frozen = True, tmplock = False, tainted = False\<rparr>],
     safe_level = 0\<rparr>"

lemma sample_heap_ok: "heap_ok sample_heap" "writable sample_heap 0" "writable sample_heap 1"
  "visible sample_heap 0" "visible sample_heap 1" "length (arys sample_heap) = 3"
  "ary_list sample_heap 0 = fix_cells [1, 2, 3]" "ary_list sample_heap 1 = fix_cells [2, 3]"
proof -
  note ev = sample_heap_def fix_cells_def
  show "writable sample_heap 0" "writable sample_heap 1" "visible sample_heap 0" "visible sample_heap 1"
    "length (arys sample_heap) = 3"
    by (simp_all add: ev writable_def visible_def)
  show "ary_list sample_heap 0 = fix_cells [1, 2, 3]" "ary_list sample_heap 1 = fix_cells [2, 3]"
    by (simp_all add: ev ary_list_def cells_def)
  have one: "one_owner (arys sample_heap)"
    by (auto simp: one_owner_def ev less_Suc_eq nth_Cons split: nat.splits)
  have rep: "rep_ok (bufs sample_heap) r" if "r \<in> set (arys sample_heap)" for r
    using that by (auto simp: ev rep_ok_def cells_def)
  have "share_ok (arys sample_heap) r" if "r \<in> set (arys sample_heap)" for r
    using that by (auto simp: ev share_ok_def blk_def intro!: exI[of _ 2])
  then show "heap_ok sample_heap" using one rep by (simp add: heap_ok_def)
qed

section \<open>Size arithmetic of stores\<close>

lemma byte_size_wrap:
  "1431655766 \<le> n \<Longrightarrow> n < 1610612736 \<Longrightarrow> byte_size n = 4 * (n - 1073741824)"
  "- 2147483648 \<le> n \<Longrightarrow> n < - 1610612736 \<Longrightarrow> byte_size n = 4 * (n + 2147483648)"
proof -
  have u: "u32 (4 * n) = 4 * n - 4294967296" if "1431655766 \<le> n" "n < 1610612736"
  proof -
    have "4 * n mod 4294967296 = (4 * n - 4294967296) mod 4294967296" by (simp only: minus_mod_self2)
    also have "\<dots> = 4 * n - 4294967296" using that by (intro mod_pos_pos_trivial) simp_all
    finally show ?thesis by (simp only: u32_def)
  qed
  show "1431655766 \<le> n \<Longrightarrow> n < 1610612736 \<Longrightarrow> byte_size n = 4 * (n - 1073741824)"
    using u by (simp add: byte_size_def s32_id)
  have v: "u32 (4 * n) = 4 * (n + 2147483648)" if "- 2147483648 \<le> n" "n < - 1610612736"
  proof -
    have "4 * (n + 2147483648) mod 4294967296 = (4 * n + 2 * 4294967296) mod 4294967296" by simp
    also have "\<dots> = 4 * n mod 4294967296" by (rule mod_mult_self1)
    finally show ?thesis using that by (simp add: u32_def)
  qed
  show "- 2147483648 \<le> n \<Longrightarrow> n < - 1610612736 \<Longrightarrow> byte_size n = 4 * (n + 2147483648)"
    using v by (simp add: byte_size_def s32_id)
qed

lemma s32_add: "s32 (x + 4294967296) = s32 x" "s32 (x - 4294967296) = s32 x"
proof -
  have "x + 4294967296 + 2147483648 = x + 2147483648 + 4294967296"
    "x - 4294967296 + 2147483648 = x + 2147483648 - 4294967296" by simp_all
  then show "s32 (x + 4294967296) = s32 x" "s32 (x - 4294967296) = s32 x"
    unfolding s32_def by (simp_all only: mod_add_self2 minus_mod_self2)
qed

lemma realloc_raw:
  assumes ok: "heap_ok h" and own: "owned h a" and n: "byte_size n = 4 * m" "0 \<le> m"
  obtains h' b where "realloc_then_capa a n h = (Inr (), h')" "a < length (arys h')" "ptr (arys h' ! a) = Ptr b 0"
    "alen (arys h' ! a) = alen (arys h ! a)" "length (bufs h' ! b) = nat m"
proof -
  note a = owned_shape(1)[OF ok own]
  obtain bs xs where run: "xrealloc (ptr (arys h ! a)) (4 * m) h = (Inr (Ptr (length (bufs h)) 0), h\<lparr>bufs := bs @ [xs]\<rparr>)"
    and bs: "length bs = length (bufs h)" "length xs = nat m"
  proof (cases "ptr (arys h ! a)")
    case NULL
    then show thesis using that[of "bufs h" "replicate (nat m) None"] n by (simp add: xrealloc_def xmalloc_def)
  next
    case (Ptr b off)
    then have "off = 0" "b < length (bufs h)" using owned_shape(5)[OF ok own] by auto
    then show thesis using that[of "(bufs h)[b := []]" "resize (nat m) (bufs h ! b)"] Ptr n by (simp add: xrealloc_def)
  qed
  show thesis
    by (rule that[of "h\<lparr>bufs := bs @ [xs], arys := (arys h)[a := (arys h ! a)\<lparr>ptr := Ptr (length (bufs h)) 0, aaux := Capa n\<rparr>]\<rparr>"
          "length (bufs h)"])
      (use a run bs n in \<open>simp_all add: realloc_then_capa_def REALLOC_N_def set_capa_def nth_append\<close>)
qed

text \<open>A new capacity as \<open>rb_ary_store\<close> computes it, by the size of the sum.\<close>

lemma store_capa_cases:
  assumes half: "16 \<le> half" "half < 268435456" and j: "0 \<le> j" "j < 2147483648"
  defines "n \<equiv> s32 (half + j)"
  shows "536870912 \<le> half + j \<Longrightarrow> half + j \<le> 1431655765 \<Longrightarrow> s32 (n * 4) \<le> n"
    "1431655766 \<le> half + j \<Longrightarrow> half + j < 1610612736 \<Longrightarrow> \<not> s32 (n * 4) \<le> n \<and> byte_size n = 4 * (half + j - 1073741824)"
    "1610612736 \<le> half + j \<Longrightarrow> half + j < 2147483648 \<Longrightarrow> s32 (n * 4) \<le> n"
    "2147483648 \<le> half + j \<Longrightarrow> \<not> s32 (n * 4) \<le> n \<and> byte_size n = 4 * (half + j - 2147483648)"
proof -
  let ?s = "half + j"
  have low: "n = ?s" if "?s < 2147483648" using that half j by (simp add: n_def s32_id)
  show "s32 (n * 4) \<le> n" if "536870912 \<le> ?s" "?s \<le> 1431655765"
  proof (cases "?s < 1073741824")
    case True
    have "s32 (?s * 4) = ?s * 4 - 4294967296" using that True by (intro s32_high) simp_all
    then show ?thesis using low that by simp
  next
    case False
    have "s32 (?s * 4) = ?s * 4 - 4294967296"
      using that False s32_add(2)[of "?s * 4"] by (simp add: s32_id)
    then show ?thesis using low that by simp
  qed
  show "\<not> s32 (n * 4) \<le> n \<and> byte_size n = 4 * (?s - 1073741824)" if "1431655766 \<le> ?s" "?s < 1610612736"
  proof -
    have "s32 (?s * 4) = ?s * 4 - 4294967296"
      using that s32_add(2)[of "?s * 4"] by (simp add: s32_id)
    then show ?thesis using low that byte_size_wrap(1)[of ?s] by simp
  qed
  show "s32 (n * 4) \<le> n" if "1610612736 \<le> ?s" "?s < 2147483648"
  proof -
    have "s32 (?s * 4 - 4294967296) = ?s * 4 - 4294967296 - 4294967296" using that by (intro s32_high) simp_all
    then show ?thesis using low that s32_add(2)[of "?s * 4"] by simp
  qed
  show "\<not> s32 (n * 4) \<le> n \<and> byte_size n = 4 * (?s - 2147483648)" if "2147483648 \<le> ?s"
  proof -
    have n: "n = ?s - 4294967296" using that half j unfolding n_def by (intro s32_high) simp_all
    have "s32 (n * 4) = s32 (n * 4 + 4294967296 + 4294967296)" by (simp only: s32_add)
    also have "\<dots> = 4 * (?s - 2147483648)" using n that half j by (simp add: s32_id)
    finally show ?thesis using n that half j byte_size_wrap(2)[of n] by simp
  qed
qed

lemma store_beyond_block:
  assumes a: "a < length (arys h)" and p: "ptr (arys h ! a) = Ptr b 0"
    and j: "alen (arys h ! a) < j" "j < 2147483648" "0 \<le> alen (arys h ! a)" "int (length (bufs h ! b)) \<le> j"
  shows "fst (rb_mem_clear (ptr_add (ptr (arys h ! a)) (alen (arys h ! a))) (s32 (j - alen (arys h ! a) + 1)) h) = Inl Undefined"
proof (cases "j - alen (arys h ! a) + 1 < 2147483648")
  case True
  then have "s32 (j - alen (arys h ! a) + 1) = j - alen (arys h ! a) + 1" using j by (intro s32_id) simp_all
  then show ?thesis using p j by (simp add: rb_mem_clear_def memfill_def fill_cells_def ptr_add_def in_block_def)
next
  case False
  then have "j - alen (arys h ! a) + 1 = 2147483648" using j by simp
  then show ?thesis by (simp add: rb_mem_clear_def memfill_def s32_def)
qed

lemma store_needs_room:
  assumes own: "owned h a" and ok: "heap_ok h" and w: "writable h a" and c: "aaux (arys h ! a) = Capa c"
    and j: "c \<le> j" "0 \<le> j" "half = max 16 (c div 2)" and n: "n = s32 (half + j)"
  shows "s32 (n * 4) \<le> n \<Longrightarrow> rb_ary_store a j v h = (Inl ArgError, h)"
    and "\<not> s32 (n * 4) \<le> n \<Longrightarrow> byte_size n = 4 * m \<Longrightarrow> 0 \<le> m \<Longrightarrow> m \<le> j \<Longrightarrow> 536870912 \<le> j \<Longrightarrow> j < 2147483648 \<Longrightarrow>
      fst (rb_ary_store a j v h) = Inl Undefined"
proof -
  note a = writable_valid[OF w]
  have "0 \<le> c" using owned_shape(4)[OF ok own] c alen_bound[OF ok a] by auto
  then have half: "(if c_quot c 2 < ARY_DEFAULT_SIZE then ARY_DEFAULT_SIZE else c_quot c 2) = half"
    using j by (simp add: c_quot_nonneg ARY_DEFAULT_SIZE_def max_def)
  have un: "\<not> elts_shared (arys h ! a)" using own by (simp add: owned_def)
  have md: "rb_ary_modify a h = (Inr (), h)"
    using a un modify_check_run(1)[OF w] by (simp add: rb_ary_modify_def)
  show "rb_ary_store a j v h = (Inl ArgError, h)" if "s32 (n * 4) \<le> n"
    using that a j(1,2) md c by (simp add: rb_ary_store_def capa_def Let_def half n[symmetric])
  show "fst (rb_ary_store a j v h) = Inl Undefined"
    if big: "\<not> s32 (n * 4) \<le> n" and bs: "byte_size n = 4 * m" "0 \<le> m" and m: "m \<le> j" "536870912 \<le> j" "j < 2147483648"
  proof -
    obtain h' b where h': "realloc_then_capa a n h = (Inr (), h')" "a < length (arys h')" "ptr (arys h' ! a) = Ptr b 0"
      "alen (arys h' ! a) = alen (arys h ! a)" "length (bufs h' ! b) = nat m"
      using realloc_raw[OF ok own bs] .
    have "alen (arys h ! a) < j" "0 \<le> alen (arys h ! a)" using alen_bound[OF ok a] m by linarith+
    then have cl: "fst (rb_mem_clear (ptr_add (ptr (arys h' ! a)) (alen (arys h ! a))) (s32 (j - alen (arys h ! a) + 1)) h') = Inl Undefined"
      using store_beyond_block[OF h'(2,3), of j] h'(4,5) m bs by simp
    then obtain g where g: "rb_mem_clear (ptr_add (ptr (arys h' ! a)) (alen (arys h ! a))) (s32 (j - alen (arys h ! a) + 1)) h' = (Inl Undefined, g)"
      by (metis prod.collapse)
    show ?thesis
      using a h'(1,2,4) big j(1,2) md c g \<open>alen (arys h ! a) < j\<close>
      by (simp add: rb_ary_store_def capa_def Let_def half n[symmetric])
  qed
qed

section \<open>Properties of the storage layer\<close>

text \<open>
  C22. Both ends. On an array that may be written, \<open>push\<close>, \<open>pop\<close>, \<open>shift\<close> and \<open>unshift\<close> (with one or
  several arguments) return the right element and turn the elements into what the list operations
  give, whether or not the array shares its block; every other array keeps its elements, and the
  ownership discipline of the heap is preserved.
\<close>

theorem array_ends_refine:
  assumes "heap_ok h" "writable h a" "length (ary_list h a) + length vs < 268435456"
  shows "updates (rb_ary_push a v) a h a (ary_list h a @ [v]) \<and>
    updates (rb_ary_pop a) a h (if ary_list h a = [] then Qnil else last (ary_list h a)) (butlast (ary_list h a)) \<and>
    updates (rb_ary_shift a) a h (if ary_list h a = [] then Qnil else hd (ary_list h a)) (tl (ary_list h a)) \<and>
    updates (rb_ary_unshift a v) a h a (v # ary_list h a) \<and>
    updates (rb_ary_push_m vs a) a h a (ary_list h a @ vs) \<and>
    updates (rb_ary_unshift_m (int (length vs)) vs a) a h a (vs @ ary_list h a)"
  using assms
  by (intro conjI rb_ary_push_ok rb_ary_pop_ok rb_ary_shift_ok rb_ary_unshift_ok rb_ary_push_m_ok rb_ary_unshift_m_ok)
    simp_all

theorem array_ends_refine_witness:
  "updates (rb_ary_push 0 Qnil) 0 sample_heap 0 (fix_cells [1, 2, 3] @ [Qnil]) \<and>
   updates (rb_ary_shift 0) 0 sample_heap (Num (Fixnum 1)) (fix_cells [2, 3])"
  using array_ends_refine[of sample_heap 0 "[]" Qnil] sample_heap_ok
  by (simp add: fix_cells_def)

lemma branchesI:
  "(p \<Longrightarrow> A) \<Longrightarrow> (\<not> p \<Longrightarrow> q \<Longrightarrow> B) \<Longrightarrow> (\<not> p \<Longrightarrow> \<not> q \<Longrightarrow> r \<Longrightarrow> C) \<Longrightarrow> (\<not> p \<Longrightarrow> \<not> q \<Longrightarrow> \<not> r \<Longrightarrow> D) \<Longrightarrow>
   if p then A else if q then B else if r then C else D"
  by simp

text \<open>An array that shares its block behaves as the one \<open>rb_ary_modify\<close> turns it into.\<close>

lemma rb_ary_store_modified:
  assumes "heap_ok h" "writable h a" "0 \<le> i"
  obtains h1 where "rb_ary_store a i v h = rb_ary_store a i v h1" "heap_ok h1" "owned h1 a" "writable h1 a"
    "aaux (arys h1 ! a) = Capa (room h a)" "frame a h h1" "ary_list h1 a = ary_list h a"
proof -
  note a = writable_valid[OF assms(2)]
  obtain h1 where h1: "rb_ary_modify a h = (Inr (), h1)" "heap_ok h1" "owned h1 a" "frame a h h1"
    "ary_list h1 a = ary_list h a" "length (arys h1) = length (arys h)"
    using rb_ary_modify_ok[OF assms(1,2)] by metis
  have w1: "writable h1 a" using frame_writable[OF h1(4) assms(2)] .
  have "\<not> elts_shared (arys h1 ! a)" using h1(3) by (simp add: owned_def)
  then have "rb_ary_modify a h1 = (Inr (), h1)"
    using a h1(6) modify_check_run(1)[OF w1] by (simp add: rb_ary_modify_def)
  then have "rb_ary_store a i v h = rb_ary_store a i v h1"
    using a h1(1,6) assms(3) by (simp add: rb_ary_store_def)
  then show thesis using that h1 w1 rb_ary_modify_room[OF assms(1,2) h1(1)] by blast
qed

lemma rb_ary_store_too_big:
  assumes "heap_ok h" "writable h a" "room h a \<le> i" "i < 2147483648" "s = max 16 (room h a div 2) + i" "536870912 \<le> s"
  shows "if s \<le> 1431655765 \<or> 1610612736 \<le> s \<and> s < 2147483648
    then \<exists>h'. rb_ary_store a i v h = (Inl ArgError, h') \<and> heap_ok h' \<and> frame a h h' \<and> ary_list h' a = ary_list h a
    else fst (rb_ary_store a i v h) = Inl Undefined"
proof -
  let ?c = "room h a" and ?half = "max 16 (room h a div 2)"
  have c: "0 \<le> ?c" "4 * ?c < 2147483648"
    using room_bound[OF assms(1,2)] alen_bound[OF assms(1) writable_valid[OF assms(2)]] by linarith+
  have half: "16 \<le> ?half" "?half < 268435456" "0 \<le> i" using c assms(3) by auto
  obtain h1 where h1: "rb_ary_store a i v h = rb_ary_store a i v h1" "heap_ok h1" "owned h1 a" "writable h1 a"
    "aaux (arys h1 ! a) = Capa ?c" "frame a h h1" "ary_list h1 a = ary_list h a"
    using rb_ary_store_modified[OF assms(1,2) half(3)] .
  note cs = store_capa_cases[OF half assms(4)]
  note st = store_needs_room[OF h1(3,2,4,5) assms(3) half(3) refl refl, where v = v]
  have "rb_ary_store a i v h1 = (Inl ArgError, h1)" if "s \<le> 1431655765 \<or> 1610612736 \<le> s \<and> s < 2147483648"
    using that st(1) cs(1,3) assms(5,6) by blast
  moreover have "fst (rb_ary_store a i v h1) = Inl Undefined" if "1431655766 \<le> s" "s < 1610612736"
  proof -
    have "536870912 \<le> i" "s - 1073741824 \<le> i" "0 \<le> s - 1073741824" using that half(2) assms(5) by linarith+
    then show ?thesis using cs(2) that assms(4,5) by (intro st(2)[of "s - 1073741824"]) simp_all
  qed
  moreover have "fst (rb_ary_store a i v h1) = Inl Undefined" if "2147483648 \<le> s"
  proof -
    have "536870912 \<le> i" "s - 2147483648 \<le> i" "0 \<le> s - 2147483648" using that half(2) assms(5) by linarith+
    then show ?thesis using cs(4) that assms(4,5) by (intro st(2)[of "s - 2147483648"]) simp_all
  qed
  ultimately show ?thesis using h1(1,2,6,7) by (auto simp: not_le not_less)
qed

text \<open>
  C23. Assignment by index, for every index of a \<open>long\<close>. An index before the first element raises
  \<open>IndexError\<close>, and an array that is frozen, locked or protected by the safe level raises; nothing
  changes in these cases. Otherwise let \<open>s\<close> be the index plus the reserve \<open>rb_ary_store\<close> adds to it.
  When the index is within the capacity, or \<open>s\<close> below \<open>2\<^sup>2\<^sup>9\<close>, the element counted from either end is
  replaced, and the array padded with \<open>nil\<close> beyond the end. Larger sums are rejected with
  \<open>ArgumentError\<close>, leaving all elements alone, except from 1431655766 to 1610612735 and from \<open>2\<^sup>3\<^sup>1\<close> on:
  there the product by the cell size wraps past the check, and the store leaves the block.
\<close>

theorem array_store_correct:
  assumes "heap_ok h" "a < length (arys h)" "i < 2147483648" "s = max 16 (room h a div 2) + i"
  shows "if i < - int (length (ary_list h a)) then rb_ary_store a i v h = (Inl IndexError, h)
    else if \<not> writable h a then
      fst (rb_ary_store a i v h) \<in> Inl ` {FrozenError, RuntimeError, SecurityError} \<and>
      snd (rb_ary_store a i v h) = h
    else if i < room h a \<or> s < 536870912 then
      updates (rb_ary_store a i v) a h () (store_list (ary_list h a) i v)
    else if s \<le> 1431655765 \<or> 1610612736 \<le> s \<and> s < 2147483648 then
      \<exists>h'. rb_ary_store a i v h = (Inl ArgError, h') \<and> heap_ok h' \<and> frame a h h' \<and> ary_list h' a = ary_list h a
    else fst (rb_ary_store a i v h) = Inl Undefined"
proof -
  note len = length_ary_list[OF assms(1,2), symmetric]
  have early: "rb_ary_store a i v h = (Inl IndexError, h)" if "i < - int (length (ary_list h a))"
    using that assms(2) len by (simp add: rb_ary_store_def)
  have refused: "fst (rb_ary_store a i v h) \<in> Inl ` {FrozenError, RuntimeError, SecurityError} \<and> snd (rb_ary_store a i v h) = h"
    if i: "\<not> i < - int (length (ary_list h a))" and nw: "\<not> writable h a"
  proof -
    obtain e where e: "e \<in> {FrozenError, RuntimeError, SecurityError}" "rb_ary_modify a h = (Inl e, h)"
      using modify_check_run(2)[OF assms(2) nw] rb_ary_modify_refused by blast
    have "\<not> (if i < 0 then i + alen (arys h ! a) else i) < 0" using i len by auto
    then have "rb_ary_store a i v h = (Inl e, h)"
      using e(2) assms(2) by (simp add: rb_ary_store_def Let_def split del: if_split)
    then show ?thesis using e(1) by auto
  qed
  have ok: "updates (rb_ary_store a i v) a h () (store_list (ary_list h a) i v)"
    if "\<not> i < - int (length (ary_list h a))" "writable h a" "i < room h a \<or> s < 536870912"
    using that writes_updates[OF rb_ary_store_writes[OF assms(1)]] assms(4) by simp
  have big: "if s \<le> 1431655765 \<or> 1610612736 \<le> s \<and> s < 2147483648
    then \<exists>h'. rb_ary_store a i v h = (Inl ArgError, h') \<and> heap_ok h' \<and> frame a h h' \<and> ary_list h' a = ary_list h a
    else fst (rb_ary_store a i v h) = Inl Undefined"
    if "writable h a" "\<not> (i < room h a \<or> s < 536870912)"
  proof -
    have "room h a \<le> i" "536870912 \<le> s" using that(2) by simp_all
    then show ?thesis using rb_ary_store_too_big[OF assms(1) that(1) _ assms(3,4), of v] by blast
  qed
  show ?thesis by (rule branchesI) (use early refused ok big in blast)+
qed

definition plain_heap :: heap where
  "plain_heap = \<lparr>bufs = [], arys = [\<lparr>ptr = NULL, alen = 0, aaux = Capa 0, elts_shared = False, frozen = False,
     tmplock = False, tainted = False\<rparr>], safe_level = 0\<rparr>"

lemma plain_heap_ok: "heap_ok plain_heap" "owned plain_heap 0" "writable plain_heap 0" "aaux (arys plain_heap ! 0) = Capa 0"
  by (simp_all add: plain_heap_def heap_ok_def owned_def writable_def rep_ok_def share_ok_def one_owner_def blk_def)

theorem array_store_correct_witness:
  "updates (rb_ary_store 1 4 (Num (Fixnum 9))) 1 sample_heap () (fix_cells [2, 3] @ [Qnil, Qnil, Num (Fixnum 9)]) \<and>
   (\<exists>h'. rb_ary_store 0 1000000000 Qnil plain_heap = (Inl ArgError, h')) \<and>
   fst (rb_ary_store 0 1500000000 Qnil plain_heap) = Inl Undefined"
proof -
  have l: "ary_list plain_heap 0 = []" "room plain_heap 0 = 0" "0 < length (arys plain_heap)"
    by (simp_all add: plain_heap_def ary_list_def cells_def room_def)
  have r: "max 16 (room sample_heap 1 div 2) + 4 < 536870912" using room_bound(2)[of sample_heap 1] sample_heap_ok by auto
  have "updates (rb_ary_store 1 4 (Num (Fixnum 9))) 1 sample_heap () (store_list (ary_list sample_heap 1) 4 (Num (Fixnum 9)))"
    using array_store_correct[of sample_heap 1 4 "max 16 (room sample_heap 1 div 2) + 4" "Num (Fixnum 9)"] sample_heap_ok r by simp
  moreover have "store_list (ary_list sample_heap 1) 4 (Num (Fixnum 9)) = fix_cells [2, 3] @ [Qnil, Qnil, Num (Fixnum 9)]"
    using sample_heap_ok by (simp add: fix_cells_def store_list_def numeral_2_eq_2)
  moreover have "\<exists>h'. rb_ary_store 0 1000000000 Qnil plain_heap = (Inl ArgError, h')"
    using array_store_correct[OF plain_heap_ok(1) l(3), of 1000000000 1000000016 Qnil] plain_heap_ok(3) by (auto simp: l)
  moreover have "fst (rb_ary_store 0 1500000000 Qnil plain_heap) = Inl Undefined"
    using array_store_correct[OF plain_heap_ok(1) l(3), of 1500000000 1500000016 Qnil] plain_heap_ok(3) by (auto simp: l)
  ultimately show ?thesis by simp
qed

end
