(* ===== verification/RArray_Slice.thy ===== *)
theory RArray_Slice
  imports RArray
begin

text \<open>
  Element access, slices and splices of \<^verbatim>\<open>src/ruby/array.c\<close>, with the reading of a range as a pair
  of offset and length from \<^verbatim>\<open>src/ruby/range.c\<close>. A slice shares the block of the array it is
  taken from; a splice works in place on a block of its own, also when an array is spliced into
  itself. Arithmetic on offsets is that of a 32 bit \<open>long\<close>.
\<close>

section \<open>Arguments\<close>

text \<open>
  \<open>NUM2LONG\<close>: floats continue in floating point code, and an object that is no number is asked for
  \<open>to_int\<close>.
\<close>

definition rb_num2long :: "VALUE \<Rightarrow> int outcome" where
  "rb_num2long v = (case v of
       Qnil \<Rightarrow> Inl TypeError
     | Num (Fixnum i) \<Rightarrow> Inr i
     | Num (Bignum x) \<Rightarrow> rb_big2long x
     | Num (Flo f) \<Rightarrow> Inl Float_path
     | _ \<Rightarrow> Inl Coerce)"

definition SYMBOL_P :: "VALUE \<Rightarrow> bool" where
  "SYMBOL_P v \<longleftrightarrow> (case v of Sym s \<Rightarrow> True | _ \<Rightarrow> False)"

datatype range_answer = No_range | Out_of_range | Beg_len int int

definition rb_range_beg_len :: "VALUE \<Rightarrow> int \<Rightarrow> int \<Rightarrow> range_answer outcome" where
  "rb_range_beg_len rng len err = (case rng of
       Range b e excl \<Rightarrow>
         obind (rb_num2long b) (\<lambda>beg.
         obind (rb_num2long e) (\<lambda>end'.
         (let out = (if err \<noteq> 0 then Inl RangeError else Inr Out_of_range);
              beg = (if beg < 0 then beg + len else beg) in
          if beg < 0 then out
          else if (err = 0 \<or> err = 2) \<and> beg > len then out
          else
            (let end' = (if (err = 0 \<or> err = 2) \<and> end' > len then len else end');
                 end' = (if end' < 0 then end' + len else end');
                 end' = (if \<not> excl then s32 (end' + 1) else end');
                 n = s32 (end' - beg) in
             Inr (Beg_len beg (if n < 0 then 0 else n))))))
     | _ \<Rightarrow> Inr No_range)"

section \<open>Reading elements\<close>

definition rb_ary_elt :: "nat \<Rightarrow> int \<Rightarrow> VALUE heapM" where
  "rb_ary_elt a offset = bind (get_ary a) (\<lambda>r.
     if alen r = 0 then ret Qnil
     else if offset < 0 \<or> alen r \<le> offset then ret Qnil
     else cell (ptr r) offset)"

definition rb_ary_entry :: "nat \<Rightarrow> int \<Rightarrow> VALUE heapM" where
  "rb_ary_entry a offset = bind (get_ary a) (\<lambda>r.
     rb_ary_elt a (if offset < 0 then offset + alen r else offset))"

definition rb_ary_at :: "nat \<Rightarrow> VALUE \<Rightarrow> VALUE heapM" where
  "rb_ary_at a pos = bind (lift (rb_num2long pos)) (\<lambda>i. rb_ary_entry a i)"

definition rb_ary_fetch :: "(VALUE \<Rightarrow> VALUE) option \<Rightarrow> nat \<Rightarrow> VALUE \<Rightarrow> VALUE option \<Rightarrow> VALUE heapM" where
  "rb_ary_fetch block a pos ifnone =
     bind (lift (rb_num2long pos)) (\<lambda>i.
     bind (get_ary a) (\<lambda>r.
     (let idx = (if i < 0 then i + alen r else i) in
      if idx < 0 \<or> alen r \<le> idx then
        (case block of
           Some f \<Rightarrow> ret (f pos)
         | None \<Rightarrow> (case ifnone of None \<Rightarrow> throw IndexError | Some v \<Rightarrow> ret v))
      else cell (ptr r) idx)))"

text \<open>The loops of \<open>first\<close> and \<open>last\<close>: push \<open>n\<close> elements of \<open>a\<close> from index \<open>i\<close> on.\<close>

fun push_elements :: "nat \<Rightarrow> nat \<Rightarrow> nat \<Rightarrow> int \<Rightarrow> unit heapM" where
  "push_elements 0 result a i = ret ()"
| "push_elements (Suc n) result a i =
     bind (get_ary a) (\<lambda>r.
     bind (cell (ptr r) i) (\<lambda>v.
     bind (rb_ary_push result v) (\<lambda>_.
     push_elements n result a (i + 1))))"

definition rb_ary_first :: "VALUE list \<Rightarrow> nat \<Rightarrow> VALUE heapM" where
  "rb_ary_first argv a = bind (get_ary a) (\<lambda>r.
     case argv of
       [] \<Rightarrow> if alen r = 0 then ret Qnil else cell (ptr r) 0
     | [nv] \<Rightarrow>
         bind (lift (rb_num2long nv)) (\<lambda>n.
         (let n = (if n > alen r then alen r else n) in
          bind (rb_ary_new2 n) (\<lambda>result.
          bind (push_elements (nat n) result a 0) (\<lambda>_.
          ret (Ary result)))))
     | _ \<Rightarrow> throw ArgError)"

definition rb_ary_last :: "VALUE list \<Rightarrow> nat \<Rightarrow> VALUE heapM" where
  "rb_ary_last argv a = bind (get_ary a) (\<lambda>r.
     case argv of
       [] \<Rightarrow> if alen r = 0 then ret Qnil else cell (ptr r) (alen r - 1)
     | [nv] \<Rightarrow>
         bind (lift (rb_num2long nv)) (\<lambda>n.
         (let n = (if n > alen r then alen r else n) in
          bind (rb_ary_new2 n) (\<lambda>result.
          bind (push_elements (nat n) result a (alen r - n)) (\<lambda>_.
          ret (Ary result)))))
     | _ \<Rightarrow> throw ArgError)"

section \<open>Slices\<close>

definition rb_ary_subseq :: "nat \<Rightarrow> int \<Rightarrow> int \<Rightarrow> VALUE heapM" where
  "rb_ary_subseq a beg len = bind (get_ary a) (\<lambda>r.
     if beg > alen r then ret Qnil
     else if beg < 0 \<or> len < 0 then ret Qnil
     else
       (let len = (if s32 (beg + len) > alen r
                   then (let l = alen r - beg in if l < 0 then 0 else l) else len) in
        if len = 0 then bind (ary_new 0) (\<lambda>n. ret (Ary n))
        else
          bind (ary_make_shared a) (\<lambda>shared.
          bind (get_ary a) (\<lambda>r.
          bind ary_alloc (\<lambda>a2.
          bind (upd_ary a2 (\<lambda>x. x\<lparr>ptr := ptr_add (ptr r) beg, alen := len,
                                  aaux := Shared_by shared, elts_shared := True\<rparr>)) (\<lambda>_.
          ret (Ary a2)))))))"

definition rb_ary_aref :: "VALUE list \<Rightarrow> nat \<Rightarrow> VALUE heapM" where
  "rb_ary_aref argv a = (case argv of
       [v, w] \<Rightarrow>
         if SYMBOL_P v then throw TypeError
         else
           bind (lift (rb_num2long v)) (\<lambda>beg.
           bind (lift (rb_num2long w)) (\<lambda>len.
           bind (get_ary a) (\<lambda>r.
           rb_ary_subseq a (if beg < 0 then beg + alen r else beg) len)))
     | [arg] \<Rightarrow>
         (case arg of
            Num (Fixnum i) \<Rightarrow> rb_ary_entry a i
          | _ \<Rightarrow>
            if SYMBOL_P arg then throw TypeError
            else
              bind (get_ary a) (\<lambda>r.
              bind (lift (rb_range_beg_len arg (alen r) 0)) (\<lambda>ans.
              case ans of
                No_range \<Rightarrow> bind (lift (rb_num2long arg)) (\<lambda>i. rb_ary_entry a i)
              | Out_of_range \<Rightarrow> ret Qnil
              | Beg_len beg len \<Rightarrow> rb_ary_subseq a beg len)))
     | _ \<Rightarrow> throw ArgError)"

section \<open>Splices\<close>

text \<open>An object that is no array may be asked for \<open>to_ary\<close>; the built-in kinds below have none.\<close>

definition rb_ary_to_ary :: "VALUE \<Rightarrow> nat heapM" where
  "rb_ary_to_ary obj = (case obj of
       Ary x \<Rightarrow> ret x
     | Other n \<Rightarrow> throw Coerce
     | _ \<Rightarrow> rb_ary_new3 [obj])"

definition to_ary :: "VALUE \<Rightarrow> nat heapM" where
  "to_ary obj = (case obj of Ary x \<Rightarrow> ret x | Other n \<Rightarrow> throw Coerce | _ \<Rightarrow> throw TypeError)"

text \<open>The two halves of \<open>rb_ary_splice\<close> after the write check: beyond the end, and inside the array.\<close>

definition splice_beyond :: "nat \<Rightarrow> int \<Rightarrow> nat option \<Rightarrow> int \<Rightarrow> unit heapM" where
  "splice_beyond a beg rpl rlen =
     (let len = s32 (beg + rlen) in
     bind (get_ary a) (\<lambda>r.
     bind (lift (capa r)) (\<lambda>c.
     bind (if len \<ge> c then realloc_then_capa a len else ret ()) (\<lambda>_.
     bind (get_ary a) (\<lambda>r.
     bind (rb_mem_clear (ptr_add (ptr r) (alen r)) (beg - alen r)) (\<lambda>_.
     bind (case rpl of
         Some q \<Rightarrow> if rlen > 0 then bind (get_ary q) (\<lambda>s. MEMCPY (ptr_add (ptr r) beg) (ptr s) rlen) else ret ()
       | None \<Rightarrow> ret ()) (\<lambda>_.
     upd_ary a (\<lambda>r. r\<lparr>alen := len\<rparr>))))))))"

definition splice_within :: "nat \<Rightarrow> int \<Rightarrow> int \<Rightarrow> nat option \<Rightarrow> int \<Rightarrow> unit heapM" where
  "splice_within a beg len rpl rlen =
     bind (get_ary a) (\<lambda>r.
     (let len = (if s32 (beg + len) > alen r then alen r - beg else len);
          alen' = s32 (alen r + rlen - len) in
     bind (lift (capa r)) (\<lambda>c.
     bind (if alen' \<ge> c then realloc_then_capa a alen' else ret ()) (\<lambda>_.
     bind (get_ary a) (\<lambda>r.
     bind (if len \<noteq> rlen then
         bind (MEMMOVE (ptr_add (ptr r) (beg + rlen)) (ptr_add (ptr r) (beg + len)) (alen r - (beg + len))) (\<lambda>_.
         upd_ary a (\<lambda>r. r\<lparr>alen := alen'\<rparr>))
       else ret ()) (\<lambda>_.
     case rpl of
       Some q \<Rightarrow> if rlen > 0 then bind (get_ary q) (\<lambda>s. MEMMOVE (ptr_add (ptr r) beg) (ptr s) rlen) else ret ()
     | None \<Rightarrow> ret ()))))))"

definition rb_ary_splice :: "nat \<Rightarrow> int \<Rightarrow> int \<Rightarrow> VALUE \<Rightarrow> unit heapM" where
  "rb_ary_splice a beg len rpl =
     (if len < 0 then throw IndexError
      else bind (get_ary a) (\<lambda>r.
        (let beg = (if beg < 0 then beg + alen r else beg) in
        if beg < 0 then throw IndexError
        else
          (let len = (if s32 (beg + len) > alen r then alen r - beg else len) in
          bind (if rpl = Qnil then ret None
                else bind (rb_ary_to_ary rpl) (\<lambda>q. ret (Some q))) (\<lambda>rpl.
          bind (case rpl of None \<Rightarrow> ret 0 | Some q \<Rightarrow> bind (get_ary q) (\<lambda>s. ret (alen s))) (\<lambda>rlen.
          bind (rb_ary_modify a) (\<lambda>_.
          bind (get_ary a) (\<lambda>r.
          if beg \<ge> alen r then splice_beyond a beg rpl rlen
          else splice_within a beg len rpl rlen))))))))"

text \<open>
  The C standard leaves open which of two arguments of a call is converted first; the model
  converts from left to right. With \<open>err = 1\<close> a range that does not fit raises, so the answer
  \<open>Out_of_range\<close>, which would leave \<open>beg\<close> and \<open>len\<close> unset, cannot come back.
\<close>

definition rb_ary_aset :: "VALUE list \<Rightarrow> nat \<Rightarrow> VALUE heapM" where
  "rb_ary_aset argv a = (case argv of
       [u, v, w] \<Rightarrow>
         if SYMBOL_P u then throw TypeError
         else if SYMBOL_P v then throw TypeError
         else
           bind (lift (rb_num2long u)) (\<lambda>beg.
           bind (lift (rb_num2long v)) (\<lambda>len.
           bind (rb_ary_splice a beg len w) (\<lambda>_. ret w)))
     | [u, v] \<Rightarrow>
         (case u of
            Num (Fixnum offset) \<Rightarrow> bind (rb_ary_store a offset v) (\<lambda>_. ret v)
          | _ \<Rightarrow>
            if SYMBOL_P u then throw TypeError
            else
              bind (get_ary a) (\<lambda>r.
              bind (lift (rb_range_beg_len u (alen r) 1)) (\<lambda>ans.
              case ans of
                Beg_len beg len \<Rightarrow> bind (rb_ary_splice a beg len v) (\<lambda>_. ret v)
              | Out_of_range \<Rightarrow> throw Undefined
              | No_range \<Rightarrow>
                  bind (lift (rb_num2long u)) (\<lambda>offset.
                  bind (rb_ary_store a offset v) (\<lambda>_. ret v)))))
     | _ \<Rightarrow> throw ArgError)"

definition rb_ary_insert :: "VALUE list \<Rightarrow> nat \<Rightarrow> nat heapM" where
  "rb_ary_insert argv a = (case argv of
       [] \<Rightarrow> throw ArgError
     | p # args \<Rightarrow>
         bind (lift (rb_num2long p)) (\<lambda>pos.
         bind (get_ary a) (\<lambda>r.
         (let pos = (if pos = -1 then alen r else if pos < 0 then pos + 1 else pos) in
         if args = [] then ret a
         else
           bind (rb_ary_new4 (int (length args)) (Some args)) (\<lambda>q.
           bind (rb_ary_splice a pos 0 (Ary q)) (\<lambda>_.
           ret a))))))"

definition rb_ary_concat :: "nat \<Rightarrow> VALUE \<Rightarrow> nat heapM" where
  "rb_ary_concat x y =
     bind (to_ary y) (\<lambda>q.
     bind (get_ary q) (\<lambda>s.
     if alen s > 0 then
       bind (get_ary x) (\<lambda>r. bind (rb_ary_splice x (alen r) 0 (Ary q)) (\<lambda>_. ret x))
     else ret x))"

section \<open>Deletion by position\<close>

text \<open>\<open>for (i = pos + 1; i < len; i++, pos++) ptr[pos] = ptr[i]\<close>\<close>

function delete_loop :: "pointer \<Rightarrow> int \<Rightarrow> int \<Rightarrow> int heapM" where
  "delete_loop p pos len =
     (if pos + 1 < len then
        bind (cell p (pos + 1)) (\<lambda>v.
        bind (set_cell p pos v) (\<lambda>_.
        delete_loop p (pos + 1) len))
      else ret pos)"
  by pat_completeness auto
termination by (relation "measure (\<lambda>(p, pos, len). nat (len - pos))") auto

declare delete_loop.simps [simp del]

definition rb_ary_delete_at :: "nat \<Rightarrow> int \<Rightarrow> VALUE heapM" where
  "rb_ary_delete_at a pos = bind (get_ary a) (\<lambda>r.
     (let len = alen r in
     if pos \<ge> len then ret Qnil
     else
       (let pos = (if pos < 0 then pos + len else pos) in
       if pos < 0 then ret Qnil
       else
         bind (rb_ary_modify a) (\<lambda>_.
         bind (get_ary a) (\<lambda>r.
         bind (cell (ptr r) pos) (\<lambda>del.
         bind (delete_loop (ptr r) pos len) (\<lambda>pos.
         bind (upd_ary a (\<lambda>r. r\<lparr>alen := pos\<rparr>)) (\<lambda>_.
         ret del))))))))"

definition rb_ary_delete_at_m :: "nat \<Rightarrow> VALUE \<Rightarrow> VALUE heapM" where
  "rb_ary_delete_at_m a pos = bind (lift (rb_num2long pos)) (\<lambda>i. rb_ary_delete_at a i)"

definition slice_out :: "nat \<Rightarrow> int \<Rightarrow> int \<Rightarrow> VALUE heapM" where
  "slice_out a pos len = bind (get_ary a) (\<lambda>r.
     (let pos = (if pos < 0 then alen r + pos else pos) in
      bind (rb_ary_subseq a pos len) (\<lambda>arg2.
      bind (rb_ary_splice a pos len Qnil) (\<lambda>_.
      ret arg2))))"

definition rb_ary_slice_bang :: "VALUE list \<Rightarrow> nat \<Rightarrow> VALUE heapM" where
  "rb_ary_slice_bang argv a = (case argv of
       [u, v] \<Rightarrow>
         bind (lift (rb_num2long u)) (\<lambda>pos.
         bind (lift (rb_num2long v)) (\<lambda>len.
         slice_out a pos len))
     | [u] \<Rightarrow>
         bind (get_ary a) (\<lambda>r.
         bind (lift (case u of Num (Fixnum i) \<Rightarrow> Inr No_range | _ \<Rightarrow> rb_range_beg_len u (alen r) 1)) (\<lambda>ans.
         case ans of
           Beg_len pos len \<Rightarrow> slice_out a pos len
         | Out_of_range \<Rightarrow> throw Undefined
         | No_range \<Rightarrow> bind (lift (rb_num2long u)) (\<lambda>i. rb_ary_delete_at a i)))
     | _ \<Rightarrow> throw ArgError)"

section \<open>Element access\<close>

definition entry_list :: "VALUE list \<Rightarrow> int \<Rightarrow> VALUE" where
  "entry_list vs i = (let j = (if i < 0 then i + int (length vs) else i) in
     if 0 \<le> j \<and> j < int (length vs) then vs ! nat j else Qnil)"

lemma ary_cell:
  assumes "heap_ok h" "a < length (arys h)" "0 \<le> i" "i < alen (arys h ! a)"
  shows "cell (ptr (arys h ! a)) i h = (Inr (ary_list h a ! nat i), h)"
  using cell_run[OF heap_okD(1)[OF assms(1,2)] assms(3,4), of h] by (simp add: ary_list_def)

lemma rb_ary_elt_ok:
  assumes ok: "heap_ok h" and a: "a < length (arys h)"
  shows "rb_ary_elt a i h = (Inr (if 0 \<le> i \<and> i < int (length (ary_list h a)) then ary_list h a ! nat i else Qnil), h)"
  using a ary_cell[OF ok a, of i] length_ary_list[OF ok a, symmetric] by (auto simp: rb_ary_elt_def)

lemma rb_ary_entry_ok:
  assumes ok: "heap_ok h" and a: "a < length (arys h)"
  shows "rb_ary_entry a i h = (Inr (entry_list (ary_list h a) i), h)"
  using a rb_ary_elt_ok[OF ok a] length_ary_list[OF ok a, symmetric]
  by (simp add: rb_ary_entry_def entry_list_def Let_def)

section \<open>Slices share, and look like copies\<close>

definition slice_list :: "VALUE list \<Rightarrow> int \<Rightarrow> int \<Rightarrow> VALUE list option" where
  "slice_list vs beg len =
     (if 0 \<le> beg \<and> beg \<le> int (length vs) \<and> 0 \<le> len then Some (take (nat len) (drop (nat beg) vs)) else None)"

text \<open>\<open>yields m h w\<close>: \<open>m\<close> answers \<open>nil\<close> and leaves the heap alone, or answers a new array with the given elements.\<close>

definition yields :: "VALUE heapM \<Rightarrow> heap \<Rightarrow> VALUE list option \<Rightarrow> bool" where
  "yields m h w \<longleftrightarrow> (case w of
       None \<Rightarrow> m h = (Inr Qnil, h)
     | Some vs \<Rightarrow> (case m h of (Inr (Ary n), h') \<Rightarrow> fresh_ary h n h' vs | _ \<Rightarrow> False))"

lemma yieldsI: "m h = (Inr (Ary n), h') \<Longrightarrow> fresh_ary h n h' vs \<Longrightarrow> yields m h (Some vs)"
  by (simp add: yields_def)

lemma yieldsE:
  assumes "yields m h (Some vs)"
  obtains n h' where "m h = (Inr (Ary n), h')" "fresh_ary h n h' vs"
  using assms by (auto simp: yields_def split: prod.splits sum.splits VALUE.splits)

lemma share_part:
  assumes ok: "heap_ok h" and v: "visible h a" and l: "0 \<le> beg" "0 < l" "beg + l \<le> int (length (ary_list h a))"
  shows "yields (bind (ary_make_shared a) (\<lambda>shared.
          bind (get_ary a) (\<lambda>r.
          bind ary_alloc (\<lambda>a2.
          bind (upd_ary a2 (\<lambda>x. x\<lparr>ptr := ptr_add (ptr r) beg, alen := l,
                                  aaux := Shared_by shared, elts_shared := True\<rparr>)) (\<lambda>_.
          ret (Ary a2)))))) h (Some (take (nat l) (drop (nat beg) (ary_list h a))))"
proof -
  have a: "a < length (arys h)" using v by (simp add: visible_def)
  obtain h1 s where h1: "ary_make_shared a h = (Inr s, h1)" "heap_ok h1" "\<forall>x. frame x h h1"
    "ary_list h1 a = ary_list h a" "arys h1 ! a = (arys h ! a)\<lparr>aaux := Shared_by s, elts_shared := True\<rparr>"
    "s < length (arys h1)" "\<not> elts_shared (arys h1 ! s)" "frozen (arys h1 ! s)"
    "blk (arys h1 ! s) = blk (arys h ! a)" "length (arys h) \<le> length (arys h1)"
    using ary_make_shared_ok[OF ok v] by metis
  have a1: "a < length (arys h1)" using a h1 by simp
  let ?r = "arys h1 ! a" and ?n = "length (arys h1)"
  note r = heap_okD(1)[OF h1(2) a1] and len = length_ary_list[OF h1(2) a1, symmetric]
  have fit: "beg + l \<le> alen ?r" using l len h1(4) by simp
  then obtain b off where p: "ptr ?r = Ptr b off" using r l by (auto simp: rep_ok_def split: pointer.splits)
  note sl = rep_ok_slice[OF r p]
  let ?x = "\<lparr>ptr = ptr_add (ptr ?r) beg, alen = l, aaux = Shared_by s, elts_shared = True,
             frozen = False, tmplock = False, tainted = False\<rparr>"
  let ?h' = "h1\<lparr>arys := arys h1 @ [?x]\<rparr>"
  have "nat l \<le> nat (alen ?r) - nat beg" using fit l by linarith
  then have "take (nat l) (drop (nat (off + beg)) (bufs h1 ! b)) =
      take (nat l) (drop (nat beg) (take (nat (alen ?r)) (drop (nat off) (bufs h1 ! b))))"
    using fit l sl by (simp add: drop_take min_def nat_add_distrib add.commute)
  then have c: "cells (bufs h1) ?x = take (nat l) (drop (nat beg) (cells (bufs h1) ?r))"
    using p by (simp add: cells_def ptr_add_def)
  have rep: "rep_ok (bufs h1) ?x"
    using r p c fit l by (auto simp: rep_ok_def ptr_add_def dest: in_set_takeD in_set_dropD)
  have share: "share_ok (arys h1) ?x"
    using h1 p by (auto simp: share_ok_def blk_def ptr_add_def)
  have "elts_shared ?r" "aaux ?r = Shared_by s" using h1(5) by simp_all
  then have hidden: "\<not> visible h1 s" using nth_mem[OF a1] by (auto simp: visible_def)
  have run: "(bind (ary_make_shared a) (\<lambda>shared. bind (get_ary a) (\<lambda>r. bind ary_alloc (\<lambda>a2.
      bind (upd_ary a2 (\<lambda>x. x\<lparr>ptr := ptr_add (ptr r) beg, alen := l,
         aaux := Shared_by shared, elts_shared := True\<rparr>)) (\<lambda>_. ret (Ary a2)))))) h = (Inr (Ary ?n), ?h')"
    using a1 h1(1) by (simp add: ary_alloc_def NEWOBJ_def)
  note add = add_object[OF h1(2) _ _ _ rep share, of ?h']
  have ok': "heap_ok ?h'" "frame ?n h1 ?h'" and l': "ary_list ?h' ?n = map the (cells (bufs h1) ?x)"
    using add(1,3) add(2)[of ?n] hidden by auto
  have vs: "ary_list ?h' ?n = take (nat l) (drop (nat beg) (ary_list h a))"
    unfolding l' c h1(4)[symmetric] by (simp add: ary_list_def take_map drop_map)
  have "visible ?h' ?n"
    using h1(2,6) by (auto simp: visible_def heap_ok_def share_ok_def)
  moreover have "safe_level h1 = safe_level h" using h1(3) by (simp add: frame_def)
  ultimately have "fresh_ary h ?n ?h' (take (nat l) (drop (nat beg) (ary_list h a)))"
    using ok' vs h1(10) frame_trans[OF spec[OF h1(3)] ok'(2)] by (simp add: fresh_ary_def writable_def)
  with run show ?thesis by (rule yieldsI)
qed

lemma rb_ary_subseq_ok:
  assumes ok: "heap_ok h" and v: "visible h a" and n: "beg < 2147483648" "len < 2147483648 - \<bar>beg\<bar>"
  shows "yields (rb_ary_subseq a beg len) h (slice_list (ary_list h a) beg len)"
proof (cases "0 \<le> beg \<and> beg \<le> int (length (ary_list h a)) \<and> 0 \<le> len")
  case False
  have "a < length (arys h)" using v by (simp add: visible_def)
  then show ?thesis
    using False length_ary_list[OF ok, of a, symmetric]
    by (auto simp: yields_def slice_list_def rb_ary_subseq_def)
next
  case True
  have a: "a < length (arys h)" using v by (simp add: visible_def)
  note alen = length_ary_list[OF ok a, symmetric]
  define l where "l = (if s32 (beg + len) > alen (arys h ! a)
                   then (let l = alen (arys h ! a) - beg in if l < 0 then 0 else l) else len)"
  have "s32 (beg + len) = beg + len" using True n by (intro s32_id) linarith+
  then have l: "l = (if beg + len > alen (arys h ! a) then alen (arys h ! a) - beg else len)"
    using True alen by (simp add: l_def)
  then have lb: "0 \<le> l" "beg + l \<le> int (length (ary_list h a))" using True alen by auto
  have eq: "take (nat len) (drop (nat beg) (ary_list h a)) = take (nat l) (drop (nat beg) (ary_list h a))"
    using l alen True by (auto simp: nat_diff_distrib take_all_iff)
  have unf: "rb_ary_subseq a beg len h = (if l = 0 then bind (ary_new 0) (\<lambda>n. ret (Ary n))
        else bind (ary_make_shared a) (\<lambda>shared. bind (get_ary a) (\<lambda>r. bind ary_alloc (\<lambda>a2.
          bind (upd_ary a2 (\<lambda>x. x\<lparr>ptr := ptr_add (ptr r) beg, alen := l,
             aaux := Shared_by shared, elts_shared := True\<rparr>)) (\<lambda>_. ret (Ary a2)))))) h"
    using a True alen unfolding rb_ary_subseq_def l_def Let_def by simp
  show ?thesis
  proof (cases "l = 0")
    case l0: True
    obtain h' where h': "ary_new 0 h = (Inr (length (arys h)), h')" "fresh_ary h (length (arys h)) h' []"
      using ary_new_ok[OF ok, of 0] by auto
    have "rb_ary_subseq a beg len h = (Inr (Ary (length (arys h))), h')" using unf l0 h'(1) by simp
    moreover have "slice_list (ary_list h a) beg len = Some []" using True eq l0 by (simp add: slice_list_def)
    ultimately show ?thesis using yieldsI[OF _ h'(2)] by simp
  next
    case False
    then have "0 < l" using lb by simp
    from share_part[OF ok v _ this lb(2)] True
    show ?thesis unfolding slice_list_def yields_def using unf False True eq by (simp del: heap_run(4))
  qed
qed

section \<open>Splicing in place\<close>

definition splice_list :: "VALUE list \<Rightarrow> nat \<Rightarrow> nat \<Rightarrow> VALUE list \<Rightarrow> VALUE list" where
  "splice_list vs beg len rs =
     (if length vs \<le> beg then vs @ replicate (beg - length vs) Qnil @ rs
      else take beg vs @ rs @ drop (beg + len) vs)"

text \<open>The cells of the block, before and after.\<close>

lemma poke_same: "poke xs i (take n (drop i xs)) = xs"
proof (cases "i \<le> length xs")
  case True
  have "take n (drop i xs) @ drop (i + length (take n (drop i xs))) xs = drop i xs"
  proof (cases "n \<le> length xs - i")
    case True
    then show ?thesis
      using append_take_drop_id[of n "drop i xs"] by (simp add: add.commute)
  qed simp
  then show ?thesis by (simp add: poke_def)
qed (simp add: poke_def)

lemma beyond_cells:
  assumes xs: "take (length vs) xs = map Some vs" and b: "length vs \<le> beg" "beg + length rs \<le> length xs"
    and xs1: "xs1 = poke xs (length vs) (replicate (beg - length vs) (Some Qnil))"
  shows "length xs1 = length xs" "take (length vs) xs1 = map Some vs"
    "take (beg + length rs) (poke xs1 beg (map Some rs)) = map Some (vs @ replicate (beg - length vs) Qnil @ rs)"
proof -
  show l: "length xs1 = length xs" "take (length vs) xs1 = map Some vs" using b xs by (simp_all add: xs1)
  have "take beg xs1 = map Some (vs @ replicate (beg - length vs) Qnil)"
    using b xs take_poke_end[of "length vs" xs "replicate (beg - length vs) (Some Qnil)"] by (simp add: xs1)
  then show "take (beg + length rs) (poke xs1 beg (map Some rs)) = map Some (vs @ replicate (beg - length vs) Qnil @ rs)"
    using take_poke_end[of beg xs1 "map Some rs"] b l by simp
qed

lemma within_cells:
  assumes xs: "take (length vs) xs = map Some vs" and b: "beg + len \<le> length vs"
    and room: "length vs \<le> length xs" "length vs + length rs - len \<le> length xs"
    and xs1: "xs1 = poke xs (beg + length rs) (take (length vs - (beg + len)) (drop (beg + len) xs))"
  shows "length xs1 = length xs" "take (length rs) xs1 = take (length rs) xs"
    "length (poke xs1 beg (map Some rs)) = length xs"
    "take (length vs + length rs - len) (poke xs1 beg (map Some rs)) =
       map Some (take beg vs @ rs @ drop (beg + len) vs)"
proof -
  let ?tl = "take (length vs - (beg + len)) (drop (beg + len) xs)"
  have tl: "?tl = map Some (drop (beg + len) vs)"
    using xs by (metis drop_map drop_take)
  have ltl: "length ?tl = length vs - (beg + len)" using tl by simp
  show l: "length xs1 = length xs" using ltl b room unfolding xs1 by (intro poke_props(1)) linarith
  show "take (length rs) xs1 = take (length rs) xs" using b room unfolding xs1 by (intro poke_props(2)) linarith+
  show "length (poke xs1 beg (map Some rs)) = length xs" using l b room by (subst poke_props(1)) simp_all
  let ?n = "length vs + length rs - len"
  have n: "?n = (beg + length rs) + length ?tl" using ltl b by linarith
  have "take ?n xs1 = take (beg + length rs) xs @ ?tl"
    unfolding n xs1 using b room by (intro take_poke_end) linarith
  then have "drop (beg + length rs) (take ?n xs1) = map Some (drop (beg + len) vs)"
    using tl b room by simp
  moreover have "take beg xs1 = map Some (take beg vs)"
  proof -
    have "take beg xs1 = take beg xs" using b room unfolding xs1 by (intro poke_props(2)) linarith+
    also have "\<dots> = take beg (take (length vs) xs)" using b by simp
    finally show ?thesis using xs by (simp add: take_map)
  qed
  ultimately show "take ?n (poke xs1 beg (map Some rs)) = map Some (take beg vs @ rs @ drop (beg + len) vs)"
    using take_poke_beyond[of beg "map Some rs" ?n xs1] l b room n by simp
qed

text \<open>Room for \<open>n\<close> cells, as every growing operation asks for it.\<close>

lemma ensure_room:
  assumes ok: "heap_ok h" and own: "owned h a" and n: "4 * n < 2147483648" and c: "aaux (arys h ! a) = Capa c"
  obtains h' b where "(if n \<ge> c then realloc_then_capa a n else ret ()) h = (Inr (), h')" "heap_ok h'" "owned h' a"
    "frame a h h'" "ary_list h' a = ary_list h a"
    "0 < c \<or> n \<ge> c \<Longrightarrow> ptr (arys h' ! a) = Ptr b 0"
    "n \<le> int (length (bufs h' ! b))"
proof (cases "n \<ge> c")
  case True
  have "alen (arys h ! a) \<le> n" using owned_shape(4)[OF ok own] c True by auto
  from owned_resize[OF ok own this n] obtain h' b where
    h': "realloc_then_capa a n h = (Inr (), h')" "heap_ok h'" "owned h' a" "frame a h h'"
      "ary_list h' a = ary_list h a" "arys h' ! a = (arys h ! a)\<lparr>ptr := Ptr b 0, aaux := Capa n\<rparr>"
      "length (bufs h' ! b) = nat n" by metis
  show thesis by (rule that[of h' b]) (use h' True in simp_all)
next
  case False
  note a = owned_shape(1,2)[OF ok own]
  have "0 \<le> c" using owned_shape(4)[OF ok own] c alen_bound[OF ok a(1)] by auto
  show thesis
  proof (cases "0 < c")
    case True
    then obtain b where p: "ptr (arys h ! a) = Ptr b 0"
      using owned_shape(5)[OF ok own] c heap_okD(1)[OF ok a(1)] a by (auto simp: rep_ok_def)
    show thesis by (rule that[of h b]) (use ok own p False owned_cells(2)[OF ok own p] c in simp_all)
  next
    case zero: False
    have "n \<le> int (length (bufs h ! 0))" using False zero by linarith
    then show thesis by (intro that[of h 0]) (use ok own False zero in simp_all)
  qed
qed

text \<open>The replacement: nothing, or the elements of an array, which may be the spliced array itself.\<close>

definition source_ok :: "heap \<Rightarrow> nat option \<Rightarrow> VALUE list \<Rightarrow> bool" where
  "source_ok h rpl rs \<longleftrightarrow> (case rpl of None \<Rightarrow> rs = [] | Some q \<Rightarrow> q < length (arys h) \<and> rs = ary_list h q)"

lemma source_ok_frame:
  assumes "source_ok h rpl rs" "frame a h h'" "ary_list h' a = ary_list h a"
  shows "source_ok h' rpl rs"
  using assms by (auto simp: source_ok_def frame_def split: option.splits)

lemma ary_cells:
  assumes "heap_ok h" "q < length (arys h)"
  shows "cells (bufs h) (arys h ! q) = map Some (ary_list h q)"
proof -
  have some: "map Some (map the xs) = xs" if "None \<notin> set xs" for xs :: "VALUE option list"
    using that by (induction xs) auto
  have "None \<notin> set (cells (bufs h) (arys h ! q))"
    using heap_okD(1)[OF assms] by (auto simp: rep_ok_def cells_def split: pointer.splits)
  from some[OF this] show ?thesis by (simp add: ary_list_def)
qed

lemma source_load:
  assumes ok: "heap_ok h" and own: "owned h a" and p: "ptr (arys h ! a) = Ptr b 0"
    and q: "q < length (arys h)" "ary_list h q \<noteq> []"
    and g: "bufs g = (bufs h)[b := ys]" "length ys = length (bufs h ! b)"
    and self: "q = a \<Longrightarrow> take (length (ary_list h a)) ys = map Some (ary_list h a)"
  shows "load (ptr (arys h ! q)) (int (length (ary_list h q))) g = (Inr (map Some (ary_list h q)), g)"
proof -
  note r = heap_okD(1)[OF ok q(1)] and o = owned_cells[OF ok own p]
  have l: "alen (arys h ! q) = int (length (ary_list h q))" using length_ary_list[OF ok q(1)] by simp
  obtain c off where pq: "ptr (arys h ! q) = Ptr c off"
    using q(2) by (cases "ptr (arys h ! q)") (auto simp: ary_list_def cells_def)
  note s = rep_ok_slice[OF r pq]
  show ?thesis
  proof (cases "q = a")
    case True
    then have "c = b" "off = 0" using pq p by simp_all
    then show ?thesis using True pq g self q o by (simp add: load_def in_block_def)
  next
    case False
    have "c \<noteq> b" using owned_exclusive[OF ok own q(1) False, of b] p pq by (auto simp: blk_def)
    then have gc: "bufs g ! c = bufs h ! c" "length (bufs g) = length (bufs h)" using g by simp_all
    have "take (length (ary_list h q)) (drop (nat off) (bufs h ! c)) = map Some (ary_list h q)"
      using s l ary_cells[OF ok q(1)] by simp
    then show ?thesis using pq gc q(2) s l by (simp add: load_def in_block_def)
  qed
qed

lemma splice_beyond_ok:
  assumes ok: "heap_ok h" and own: "owned h a" and src: "source_ok h rpl rs"
    and beg: "length (ary_list h a) \<le> beg" "4 * int (beg + length rs) < 2147483648"
  shows "writes (splice_beyond a (int beg) rpl (int (length rs))) a h ()
           (ary_list h a @ replicate (beg - length (ary_list h a)) Qnil @ rs)"
proof -
  note a = owned_shape(1,2)[OF ok own]
  let ?n = "int beg + int (length rs)"
  have n: "s32 ?n = ?n" "4 * ?n < 2147483648" using beg by (simp_all add: s32_id)
  obtain c where c: "aaux (arys h ! a) = Capa c" "alen (arys h ! a) \<le> c" using owned_shape(4)[OF ok own] by blast
  have "0 < c \<or> ?n \<ge> c" using c alen_bound[OF ok a(1)] by linarith
  then obtain h1 b where h1: "(if ?n \<ge> c then realloc_then_capa a ?n else ret ()) h = (Inr (), h1)" "heap_ok h1" "owned h1 a"
    "frame a h h1" "ary_list h1 a = ary_list h a" "ptr (arys h1 ! a) = Ptr b 0" "?n \<le> int (length (bufs h1 ! b))"
    using ensure_room[OF ok own n(2) c(1)] by metis
  note a1 = owned_shape(1)[OF h1(2,3)] and o = owned_cells[OF h1(2,3,6)]
  note src1 = source_ok_frame[OF src h1(4,5)]
  let ?vs = "ary_list h1 a" and ?xs = "bufs h1 ! b"
  note len1 = length_ary_list[OF h1(2) a1, symmetric]
  have t: "take (length ?vs) ?xs = map Some ?vs" using o(1) len1 by simp
  have fit: "length ?vs \<le> beg" "beg + length rs \<le> length ?xs" using beg h1(5,7) by simp_all
  define xs1 where "xs1 = poke ?xs (length ?vs) (replicate (beg - length ?vs) (Some Qnil))"
  note cells = beyond_cells[OF t fit xs1_def]
  let ?g = "h1\<lparr>bufs := (bufs h1)[b := xs1]\<rparr>"
  have clr: "rb_mem_clear (ptr_add (ptr (arys h1 ! a)) (alen (arys h1 ! a))) (int beg - alen (arys h1 ! a)) h1 = (Inr (), ?g)"
    using fill_cells_run[of b h1 "int (length ?vs)" "replicate (beg - length ?vs) (Some Qnil)"] o(3) fit len1
    by (simp add: rb_mem_clear_def memfill_def xs1_def nat_diff_distrib ptr_add_def h1(6))
  have copy: "(case rpl of Some q \<Rightarrow> if int (length rs) > 0 then bind (get_ary q) (\<lambda>s. MEMCPY (ptr_add (ptr (arys h1 ! a)) (int beg)) (ptr s) (int (length rs))) else ret ()
       | None \<Rightarrow> ret ()) ?g = (Inr (), h1\<lparr>bufs := (bufs h1)[b := poke xs1 beg (map Some rs)]\<rparr>)"
  proof (cases "rs = []")
    case True
    then show ?thesis by (simp add: poke_def split: option.splits)
  next
    case False
    then obtain q where q: "rpl = Some q" "q < length (arys h1)" "rs = ary_list h1 q"
      using src1 by (auto simp: source_ok_def split: option.splits)
    have ld: "load (ptr (arys h1 ! q)) (int (length rs)) ?g = (Inr (map Some rs), ?g)"
      using source_load[OF h1(2,3,6) q(2), of ?g xs1] q(3) False cells by simp
    have no: "\<not> overlap (Ptr b (int beg)) (ptr (arys h1 ! q)) (int (length rs))"
    proof (cases "q = a")
      case True
      then show ?thesis using h1(6) q(3) fit by (simp add: overlap_def)
    next
      case False
      then show ?thesis using owned_exclusive[OF h1(2,3) q(2) False, of b] h1(6)
        by (auto simp: overlap_def blk_def split: pointer.splits)
    qed
    have "fill_cells (Ptr b (int beg)) (map Some rs) ?g = (Inr (), h1\<lparr>bufs := (bufs h1)[b := poke xs1 beg (map Some rs)]\<rparr>)"
      using fill_cells_run[of b ?g "int beg" "map Some rs"] o(3) fit cells(1) by simp
    then show ?thesis using q False ld no h1(6) by (simp add: MEMCPY_def MEMMOVE_def ptr_add_def)
  qed
  have run: "splice_beyond a (int beg) rpl (int (length rs)) h = (Inr (),
      h1\<lparr>bufs := (bufs h1)[b := poke xs1 beg (map Some rs)], arys := (arys h1)[a := (arys h1 ! a)\<lparr>alen := ?n\<rparr>]\<rparr>)"
    using a a1 c(1) h1(1) clr copy unfolding splice_beyond_def Let_def n(1)
    by (simp add: capa_def)
  have "writes (\<lambda>_. splice_beyond a (int beg) rpl (int (length rs)) h) a h1 ()
      (?vs @ replicate (beg - length ?vs) Qnil @ rs)"
    by (rule writes_write[OF h1(2,3,6)]) (rule run, use cells fit in simp_all)
  from writes_from[OF this h1(4)] show ?thesis using h1(5) by simp
qed

lemma splice_within_ok:
  assumes ok: "heap_ok h" and own: "owned h a" and src: "source_ok h rpl rs"
    and beg: "beg < length (ary_list h a)" "beg + len \<le> length (ary_list h a)"
      "4 * int (length (ary_list h a) + length rs - len) < 2147483648"
  shows "writes (splice_within a (int beg) (int len) rpl (int (length rs))) a h ()
           (take beg (ary_list h a) @ rs @ drop (beg + len) (ary_list h a))"
proof -
  note a = owned_shape(1,2)[OF ok own]
  let ?l = "length (ary_list h a)"
  define n where "n = ?l + length rs - len"
  note len0 = length_ary_list[OF ok a(1), symmetric]
  have l: "4 * int ?l < 2147483648" using alen_bound[OF ok a(1)] len0 by simp
  have "alen (arys h ! a) + int (length rs) - int len = int n" using beg(2) len0 by (simp add: n_def of_nat_diff)
  then have n: "s32 (alen (arys h ! a) + int (length rs) - int len) = int n" "4 * int n < 2147483648"
    "s32 (int beg + int len) = int beg + int len"
    using beg l by (simp_all add: n_def s32_id)
  obtain c where c: "aaux (arys h ! a) = Capa c" "alen (arys h ! a) \<le> c" using owned_shape(4)[OF ok own] by blast
  have "0 < c \<or> int n \<ge> c" using c beg len0 by linarith
  then obtain h1 b where h1: "(if int n \<ge> c then realloc_then_capa a (int n) else ret ()) h = (Inr (), h1)" "heap_ok h1"
    "owned h1 a" "frame a h h1" "ary_list h1 a = ary_list h a" "ptr (arys h1 ! a) = Ptr b 0"
    "int n \<le> int (length (bufs h1 ! b))"
    using ensure_room[OF ok own n(2) c(1)] by metis
  note a1 = owned_shape(1)[OF h1(2,3)] and o = owned_cells[OF h1(2,3,6)]
  note src1 = source_ok_frame[OF src h1(4,5)]
  let ?vs = "ary_list h1 a" and ?xs = "bufs h1 ! b"
  note len1 = length_ary_list[OF h1(2) a1, symmetric]
  have t: "take (length ?vs) ?xs = map Some ?vs" using o(1) len1 by simp
  have fit: "beg + len \<le> length ?vs" "length ?vs \<le> length ?xs" "length ?vs + length rs - len \<le> length ?xs"
    using beg h1(5,7) o(4) by (simp_all add: n_def)
  define xs1 where "xs1 = poke ?xs (beg + length rs) (take (length ?vs - (beg + len)) (drop (beg + len) ?xs))"
  note cells = within_cells[OF t fit xs1_def]
  let ?r = "(arys h1 ! a)\<lparr>alen := int n\<rparr>"
  let ?g = "h1\<lparr>bufs := (bufs h1)[b := xs1], arys := (arys h1)[a := ?r]\<rparr>"
  have slide: "(if int len \<noteq> int (length rs) then
         bind (MEMMOVE (ptr_add (ptr (arys h1 ! a)) (int beg + int (length rs))) (ptr_add (ptr (arys h1 ! a)) (int beg + int len))
                 (alen (arys h1 ! a) - (int beg + int len))) (\<lambda>_.
         upd_ary a (\<lambda>r. r\<lparr>alen := int n\<rparr>)) else ret ()) h1 = (Inr (), ?g)"
  proof (cases "len = length rs")
    case True
    have "xs1 = ?xs" unfolding xs1_def True by (rule poke_same)
    moreover have "?r = arys h1 ! a" using True len1 h1(5) alen_same[of "arys h1 ! a" "int n"] by (simp add: n_def)
    ultimately show ?thesis using True by simp
  next
    case False
    have "nat (alen (arys h1 ! a) - (int beg + int len)) = length ?vs - (beg + len)"
      "nat (int beg + int len) = beg + len" "nat (int beg + int (length rs)) = beg + length rs"
      using len1 fit by linarith+
    then have "MEMMOVE (Ptr b (int beg + int (length rs))) (Ptr b (int beg + int len))
                 (alen (arys h1 ! a) - (int beg + int len)) h1 = (Inr (), h1\<lparr>bufs := (bufs h1)[b := xs1]\<rparr>)"
      using MEMMOVE_run[of b h1 b "int beg + int (length rs)" "int beg + int len" "alen (arys h1 ! a) - (int beg + int len)"]
        o(3) fit len1 by (simp add: xs1_def)
    then show ?thesis using False a1 h1(6) by (simp add: ptr_add_def)
  qed
  have copy: "(case rpl of Some q \<Rightarrow> if int (length rs) > 0 then bind (get_ary q) (\<lambda>s. MEMMOVE (ptr_add (ptr (arys h1 ! a)) (int beg)) (ptr s) (int (length rs))) else ret ()
       | None \<Rightarrow> ret ()) ?g = (Inr (), h1\<lparr>bufs := (bufs h1)[b := poke xs1 beg (map Some rs)], arys := (arys h1)[a := ?r]\<rparr>)"
  proof (cases "rs = []")
    case True
    then show ?thesis by (simp add: poke_def split: option.splits)
  next
    case False
    then obtain q where q: "rpl = Some q" "q < length (arys h1)" "rs = ary_list h1 q"
      using src1 by (auto simp: source_ok_def split: option.splits)
    have "take (length ?vs) xs1 = map Some ?vs" if "q = a" using cells(2) t q(3) that by simp
    then have "load (ptr (arys h1 ! q)) (int (length rs)) ?g = (Inr (map Some rs), ?g)"
      using source_load[OF h1(2,3,6) q(2), of ?g xs1] q(3) False cells(1) by simp
    moreover have "ptr ((arys h1)[a := ?r] ! q) = ptr (arys h1 ! q)" using a1 by (cases "q = a") simp_all
    moreover have "fill_cells (Ptr b (int beg)) (map Some rs) ?g =
        (Inr (), h1\<lparr>bufs := (bufs h1)[b := poke xs1 beg (map Some rs)], arys := (arys h1)[a := ?r]\<rparr>)"
      using fill_cells_run[of b ?g "int beg" "map Some rs"] o(3) fit cells(1) by simp
    ultimately show ?thesis using q False h1(6) by (simp add: MEMMOVE_def ptr_add_def)
  qed
  have keep: "\<not> s32 (int beg + int len) > alen (arys h ! a)"
    using n(3) len0 beg by simp
  have run: "splice_within a (int beg) (int len) rpl (int (length rs)) h = (Inr (),
      h1\<lparr>bufs := (bufs h1)[b := poke xs1 beg (map Some rs)], arys := (arys h1)[a := ?r]\<rparr>)"
  proof -
    define room where "room = (if int n \<ge> c then realloc_then_capa a (int n) else ret ())"
    have "splice_within a (int beg) (int len) rpl (int (length rs)) h =
        bind (get_ary a) (\<lambda>r. bind (if int len \<noteq> int (length rs) then
          bind (MEMMOVE (ptr_add (ptr r) (int beg + int (length rs))) (ptr_add (ptr r) (int beg + int len)) (alen r - (int beg + int len)))
            (\<lambda>_. upd_ary a (\<lambda>r. r\<lparr>alen := int n\<rparr>)) else ret ()) (\<lambda>_. case rpl of
          Some q \<Rightarrow> if int (length rs) > 0 then bind (get_ary q) (\<lambda>s. MEMMOVE (ptr_add (ptr r) (int beg)) (ptr s) (int (length rs))) else ret ()
        | None \<Rightarrow> ret ())) h1"
      using a(1) c(1) h1(1)[folded room_def]
      by (simp only: splice_within_def Let_def heap_run object_access prod.case sum.case if_not_P[OF keep] n(1) capa_def aux.case
            room_def[symmetric])
    also have "\<dots> = (Inr (), h1\<lparr>bufs := (bufs h1)[b := poke xs1 beg (map Some rs)], arys := (arys h1)[a := ?r]\<rparr>)"
      using a1 slide copy by (simp only: heap_run object_access prod.case sum.case)
    finally show ?thesis .
  qed
  have "writes (\<lambda>_. splice_within a (int beg) (int len) rpl (int (length rs)) h) a h1 ()
      (take beg ?vs @ rs @ drop (beg + len) ?vs)"
  proof (rule writes_write[OF h1(2,3,6)])
    show "splice_within a (int beg) (int len) rpl (int (length rs)) h = (Inr (),
      h1\<lparr>bufs := (bufs h1)[b := poke xs1 beg (map Some rs)], arys := (arys h1)[a := (arys h1 ! a)\<lparr>alen := int n\<rparr>]\<rparr>)"
      by (rule run)
    have l: "length (take beg ?vs @ rs @ drop (beg + len) ?vs) = n" using fit h1(5) by (simp add: n_def)
    then show "int n = int (length (take beg ?vs @ rs @ drop (beg + len) ?vs))" by simp
    show "take (length (take beg ?vs @ rs @ drop (beg + len) ?vs)) (poke xs1 beg (map Some rs)) =
        map Some (take beg ?vs @ rs @ drop (beg + len) ?vs)"
      unfolding l using cells(4) h1(5) by (simp add: n_def)
  qed (rule cells(3))
  from writes_from[OF this h1(4)] show ?thesis using h1(5) by simp
qed

definition rpl_list :: "heap \<Rightarrow> VALUE \<Rightarrow> VALUE list" where
  "rpl_list h v = (case v of Qnil \<Rightarrow> [] | Ary q \<Rightarrow> ary_list h q | _ \<Rightarrow> [v])"

definition rpl_ok :: "heap \<Rightarrow> VALUE \<Rightarrow> bool" where
  "rpl_ok h v \<longleftrightarrow> (case v of Ary q \<Rightarrow> q < length (arys h) | Other n \<Rightarrow> False | _ \<Rightarrow> True)"

lemma frame_of_fresh: "fresh_ary h n h' vs \<Longrightarrow> frame a h h'"
  by (auto simp: fresh_ary_def frame_def)

lemma convert_replacement:
  assumes ok: "heap_ok h" and v: "rpl_ok h v" and a: "a < length (arys h)"
  obtains h0 src where "(if v = Qnil then ret None else bind (rb_ary_to_ary v) (\<lambda>q. ret (Some q))) h = (Inr src, h0)"
    "heap_ok h0" "frame a h h0" "ary_list h0 a = ary_list h a" "source_ok h0 src (rpl_list h v)"
proof -
  consider "v = Qnil" | q where "v = Ary q" "q < length (arys h)" | "rb_ary_to_ary v = rb_ary_new3 [v]" "rpl_list h v = [v]" "v \<noteq> Qnil"
    using v by (cases v) (auto simp: rpl_ok_def rb_ary_to_ary_def rpl_list_def)
  then show thesis
  proof cases
    case 1
    then show thesis using that[of None h] ok by (simp add: source_ok_def rpl_list_def)
  next
    case (2 q)
    then show thesis using that[of "Some q" h] ok by (simp add: source_ok_def rpl_list_def rb_ary_to_ary_def)
  next
    case 3
    obtain h' where h': "rb_ary_new3 [v] h = (Inr (length (arys h)), h')" "fresh_ary h (length (arys h)) h' [v]"
      using rb_ary_new3_ok[OF ok, of "[v]"] by auto
    show thesis
      by (rule that[of "Some (length (arys h))" h'])
        (use 3 h' a frame_of_fresh[OF h'(2)] fresh_aryD(1)[OF h'(2) a] in \<open>auto simp: source_ok_def fresh_ary_def\<close>)
  qed
qed

lemma source_length:
  assumes "heap_ok h" "source_ok h src rs"
  shows "(case src of None \<Rightarrow> ret 0 | Some q \<Rightarrow> bind (get_ary q) (\<lambda>s. ret (alen s))) h = (Inr (int (length rs)), h)"
  using assms length_ary_list[OF assms(1)] by (auto simp: source_ok_def split: option.splits)

lemma length_splice_list:
  "length (splice_list vs beg len rs) =
     (if length vs \<le> beg then beg + length rs else length vs + length rs - min len (length vs - beg))"
  by (auto simp: splice_list_def min_def)

text \<open>The run up to the choice between the two halves: conversion, write check, block of its own.\<close>

lemma rb_ary_splice_run:
  assumes ok: "heap_ok h" and w: "writable h a" and v: "rpl_ok h v"
    and beg: "j = (if beg < 0 then beg + int (length (ary_list h a)) else beg)" "0 \<le> j"
    and len: "0 \<le> len" "j + len < 2147483648"
    and l: "l = (if j + len > int (length (ary_list h a)) then int (length (ary_list h a)) - j else len)"
  obtains h1 src where "heap_ok h1" "owned h1 a" "frame a h h1" "ary_list h1 a = ary_list h a"
    "source_ok h1 src (rpl_list h v)"
    "rb_ary_splice a beg len v h =
      (if j \<ge> int (length (ary_list h a)) then splice_beyond a j src (int (length (rpl_list h v)))
       else splice_within a j l src (int (length (rpl_list h v)))) h1"
proof -
  note a = writable_valid[OF w]
  let ?l = "length (ary_list h a)"
  note alen = length_ary_list[OF ok a, symmetric]
  have "s32 (j + len) = j + len" using beg len by (simp add: s32_id)
  then have l': "(if s32 (j + len) > alen (arys h ! a) then alen (arys h ! a) - j else len) = l" using alen l by simp
  obtain h0 src where h0: "(if v = Qnil then ret None else bind (rb_ary_to_ary v) (\<lambda>q. ret (Some q))) h = (Inr src, h0)"
    "heap_ok h0" "frame a h h0" "ary_list h0 a = ary_list h a" "source_ok h0 src (rpl_list h v)"
    using convert_replacement[OF ok v a] .
  obtain h1 where h1: "rb_ary_modify a h0 = (Inr (), h1)" "heap_ok h1" "owned h1 a" "frame a h0 h1"
    "ary_list h1 a = ary_list h0 a"
    using rb_ary_modify_ok[OF h0(2) frame_writable[OF h0(3) w]] by metis
  note src = source_ok_frame[OF h0(5) h1(4,5)] and fr = frame_trans[OF h0(3) h1(4)]
  have a1: "a < length (arys h1)" using frame_valid[OF fr a] .
  have l1: "alen (arys h1 ! a) = int ?l" using length_ary_list[OF h1(2) a1] h1(5) h0(4) by simp
  have jb: "(if beg < 0 then beg + alen (arys h ! a) else beg) = j" using beg alen by simp
  define conv where "conv = (if v = Qnil then ret None else bind (rb_ary_to_ary v) (\<lambda>q. ret (Some q)))"
  have neg: "\<not> len < 0" "\<not> j < 0" using len beg by simp_all
  have run: "rb_ary_splice a beg len v h =
      (if j \<ge> int ?l then splice_beyond a j src (int (length (rpl_list h v)))
       else splice_within a j l src (int (length (rpl_list h v)))) h1"
    using a a1 h0(1)[folded conv_def] source_length[OF h0(2,5)] h1(1)
    by (simp only: rb_ary_splice_def Let_def if_not_P[OF neg(1)] if_not_P[OF neg(2)] heap_run object_access prod.case sum.case jb
          l' conv_def[symmetric] l1)
  show thesis using that[OF h1(2,3) fr _ src run] h1(5) h0(4) by simp
qed

lemma rb_ary_splice_writes:
  assumes ok: "heap_ok h" and w: "writable h a" and v: "rpl_ok h v"
    and beg: "j = (if beg < 0 then beg + int (length (ary_list h a)) else beg)" "0 \<le> j"
    and len: "0 \<le> len" "j + len < 2147483648"
    and bound: "4 * int (length (splice_list (ary_list h a) (nat j) (nat len) (rpl_list h v))) < 2147483648"
  shows "writes (rb_ary_splice a beg len v) a h () (splice_list (ary_list h a) (nat j) (nat len) (rpl_list h v))"
proof -
  let ?l = "length (ary_list h a)" and ?r = "length (rpl_list h v)"
  define l where "l = (if j + len > int ?l then int ?l - j else len)"
  obtain h1 src where h1: "heap_ok h1" "owned h1 a" "frame a h h1" "ary_list h1 a = ary_list h a"
    "source_ok h1 src (rpl_list h v)"
    "rb_ary_splice a beg len v h =
      (if j \<ge> int ?l then splice_beyond a j src (int ?r) else splice_within a j l src (int ?r)) h1"
    using rb_ary_splice_run[OF ok w v beg len l_def] .
  show ?thesis
  proof (cases "int ?l \<le> j")
    case True
    have "4 * int (nat j + ?r) < 2147483648" using bound True by (simp add: length_splice_list le_nat_iff)
    then have "writes (splice_beyond a j src (int ?r)) a h1 () (splice_list (ary_list h a) (nat j) (nat len) (rpl_list h v))"
      using splice_beyond_ok[OF h1(1,2,5), of "nat j"] True beg h1(4)
      by (simp add: splice_list_def le_nat_iff)
    from writes_from[OF this h1(3)] show ?thesis using h1(6) True by simp
  next
    case False
    have lb: "0 \<le> l" "j + l \<le> int ?l" using l_def False len by auto
    have m: "min (nat len) (?l - nat j) = nat l" using l_def False len beg by (auto simp: min_def)
    have "drop (nat j + nat len) (ary_list h a) = drop (nat j + nat l) (ary_list h a)"
    proof (cases "j + len > int ?l")
      case True
      then have "l = int ?l - j" using l_def by simp
      then have "?l \<le> nat j + nat len" "?l \<le> nat j + nat l" using True by linarith+
      then show ?thesis by simp
    qed (simp add: l_def)
    moreover have nb: "nat j < ?l" "nat j + nat l \<le> ?l" using False lb beg by linarith+
    moreover have "4 * int (?l + ?r - nat l) < 2147483648" using bound nb(1) by (simp add: length_splice_list m)
    ultimately have "writes (splice_within a j l src (int ?r)) a h1 () (splice_list (ary_list h a) (nat j) (nat len) (rpl_list h v))"
      using splice_within_ok[OF h1(1,2,5), of "nat j" "nat l"] lb beg h1(4)
      by (simp add: splice_list_def)
    from writes_from[OF this h1(3)] show ?thesis using h1(6) False by simp
  qed
qed

lemma rb_ary_splice_ok:
  assumes "heap_ok h" "writable h a" "rpl_ok h v"
    "j = (if beg < 0 then beg + int (length (ary_list h a)) else beg)" "0 \<le> j" "0 \<le> len" "j + len < 2147483648"
    and bound: "4 * (max j (int (length (ary_list h a))) + int (length (rpl_list h v))) < 2147483648"
  shows "writes (rb_ary_splice a beg len v) a h () (splice_list (ary_list h a) (nat j) (nat len) (rpl_list h v))"
proof -
  have "int (length (splice_list (ary_list h a) (nat j) (nat len) (rpl_list h v))) \<le>
      max j (int (length (ary_list h a))) + int (length (rpl_list h v))"
    using assms(5) unfolding length_splice_list by (cases "length (ary_list h a) \<le> nat j") simp_all
  from le_less_trans[OF mult_left_mono[OF this, of 4] bound] show ?thesis
    by (intro rb_ary_splice_writes[OF assms(1-7)]) simp
qed

text \<open>
  There is no check of the new length. From \<open>2\<^sup>2\<^sup>9\<close> to \<open>2\<^sup>3\<^sup>0\<close> elements the number of bytes comes out
  negative and \<open>xrealloc\<close> raises; from \<open>2\<^sup>3\<^sup>0\<close> on it has wrapped to a small positive number, and
  clearing the gap leaves the block.
\<close>

lemma byte_size_large:
  "536870912 \<le> n \<Longrightarrow> n < 1073741824 \<Longrightarrow> byte_size n < 0"
  "1073741824 \<le> n \<Longrightarrow> n < 1610612736 \<Longrightarrow> byte_size n = 4 * (n - 1073741824)"
proof -
  show "byte_size n < 0" if "536870912 \<le> n" "n < 1073741824"
    using that by (simp add: byte_size_def u32_id s32_high)
  assume n: "1073741824 \<le> n" "n < 1610612736"
  have "4 * n mod 4294967296 = (4 * n - 4294967296) mod 4294967296" by (simp only: minus_mod_self2)
  also have "\<dots> = 4 * n - 4294967296" using n by (intro mod_pos_pos_trivial) simp_all
  finally show "byte_size n = 4 * (n - 1073741824)" using n by (simp add: byte_size_def u32_def s32_id)
qed

lemma realloc_negative:
  "a < length (arys h) \<Longrightarrow> byte_size n < 0 \<Longrightarrow> realloc_then_capa a n h = (Inl ArgError, h)"
  by (simp add: realloc_then_capa_def REALLOC_N_def xrealloc_def)

lemma splice_beyond_too_big:
  assumes ok: "heap_ok h" and own: "owned h a" and j: "int (length (ary_list h a)) \<le> j" "0 \<le> n" "n < 536870912" "j < 1073741824"
  shows "536870912 \<le> j + n \<Longrightarrow> j + n < 1073741824 \<Longrightarrow> splice_beyond a j src n h = (Inl ArgError, h)"
    "1073741824 \<le> j + n \<Longrightarrow> fst (splice_beyond a j src n h) = Inl Undefined"
proof -
  note a = owned_shape(1)[OF ok own]
  have len: "alen (arys h ! a) = int (length (ary_list h a))" using length_ary_list[OF ok a] by simp
  obtain c where c: "aaux (arys h ! a) = Capa c" "4 * c < 2147483648" using owned_shape(4)[OF ok own] by blast
  have w: "s32 (j + n) = j + n" using j by (intro s32_id) linarith+
  have unf: "splice_beyond a j src n h =
    bind (realloc_then_capa a (j + n)) (\<lambda>_. bind (get_ary a) (\<lambda>r.
     bind (rb_mem_clear (ptr_add (ptr r) (alen r)) (j - alen r)) (\<lambda>_.
     bind (case src of
         Some q \<Rightarrow> if n > 0 then bind (get_ary q) (\<lambda>s. MEMCPY (ptr_add (ptr r) j) (ptr s) n) else ret ()
       | None \<Rightarrow> ret ()) (\<lambda>_.
     upd_ary a (\<lambda>r. r\<lparr>alen := j + n\<rparr>))))) h" if "536870912 \<le> j + n"
    using a c that w by (simp add: splice_beyond_def Let_def capa_def)
  show "splice_beyond a j src n h = (Inl ArgError, h)" if "536870912 \<le> j + n" "j + n < 1073741824"
    using unf[OF that(1)] realloc_negative[OF a byte_size_large(1)[OF that]] by simp
  show "fst (splice_beyond a j src n h) = Inl Undefined" if big: "1073741824 \<le> j + n"
  proof -
    have "j + n < 1610612736" using j by linarith
    note bs = byte_size_large(2)[OF big this]
    obtain h' b where h': "realloc_then_capa a (j + n) h = (Inr (), h')" "a < length (arys h')" "ptr (arys h' ! a) = Ptr b 0"
      "alen (arys h' ! a) = alen (arys h ! a)" "length (bufs h' ! b) = nat (j + n - 1073741824)"
      using realloc_raw[OF ok own bs] big by auto
    have "alen (arys h ! a) < 536870912" "0 \<le> alen (arys h ! a)" using alen_bound[OF ok a] by linarith+
    then have "fst (rb_mem_clear (ptr_add (ptr (arys h' ! a)) (alen (arys h' ! a))) (j - alen (arys h' ! a)) h') = Inl Undefined"
      using h' j big by (simp add: rb_mem_clear_def memfill_def fill_cells_def ptr_add_def in_block_def)
    then obtain g where "rb_mem_clear (ptr_add (ptr (arys h' ! a)) (alen (arys h' ! a))) (j - alen (arys h' ! a)) h' = (Inl Undefined, g)"
      by (metis prod.collapse)
    then show ?thesis using unf big h'(1,2) by simp
  qed
qed

lemma splice_within_too_big:
  assumes ok: "heap_ok h" and own: "owned h a"
    and j: "0 \<le> j" "0 \<le> l" "j + l \<le> int (length (ary_list h a))" "0 \<le> n" "n < 536870912"
      "536870912 \<le> int (length (ary_list h a)) + n - l"
  shows "splice_within a j l src n h = (Inl ArgError, h)"
proof -
  note a = owned_shape(1)[OF ok own]
  have len: "alen (arys h ! a) = int (length (ary_list h a))" "int (length (ary_list h a)) < 536870912"
    using length_ary_list[OF ok a] alen_bound[OF ok a] by auto
  obtain c where c: "aaux (arys h ! a) = Capa c" "4 * c < 2147483648" using owned_shape(4)[OF ok own] by blast
  let ?t = "int (length (ary_list h a)) + n - l"
  have w: "s32 (j + l) = j + l" "s32 ?t = ?t" using j len by (simp_all add: s32_id)
  have "?t < 1073741824" using j len by linarith
  note ng = realloc_negative[OF a byte_size_large(1)[OF j(6) this]]
  have "\<not> j + l > alen (arys h ! a)" using j len by simp
  then show ?thesis using a c ng w j(6) len(1) by (simp add: splice_within_def Let_def capa_def)
qed

text \<open>What raising leaves behind: no array the program knew of has changed.\<close>

definition rejects :: "'a heapM \<Rightarrow> nat \<Rightarrow> heap \<Rightarrow> rb_error set \<Rightarrow> bool" where
  "rejects m a h es \<longleftrightarrow> (case m h of
       (Inr y, h') \<Rightarrow> False
     | (Inl e, h') \<Rightarrow> e \<in> es \<and> heap_ok h' \<and> frame a h h' \<and> ary_list h' a = ary_list h a)"

lemma rejectsI:
  "m h = (Inl e, h') \<Longrightarrow> e \<in> es \<Longrightarrow> heap_ok h' \<Longrightarrow> frame a h h' \<Longrightarrow> ary_list h' a = ary_list h a \<Longrightarrow> rejects m a h es"
  by (simp add: rejects_def)

lemma rejectsE:
  assumes "rejects m a h es"
  obtains e h' where "m h = (Inl e, h')" "e \<in> es" "heap_ok h'" "frame a h h'" "ary_list h' a = ary_list h a"
  using assms by (auto simp: rejects_def split: prod.splits sum.splits)

text \<open>
  The contract of a splice that replaces \<open>len\<close> elements from \<open>j\<close> on, by the outcome for every
  offset, length and size of the result.
\<close>

definition splices :: "'a heapM \<Rightarrow> nat \<Rightarrow> heap \<Rightarrow> 'a \<Rightarrow> int \<Rightarrow> int \<Rightarrow> VALUE list \<Rightarrow> bool" where
  "splices m a h x j len rs \<longleftrightarrow>
     (let vs' = splice_list (ary_list h a) (nat j) (nat len) rs in
      if j < 0 \<or> len < 0 then rejects m a h {IndexError}
      else if \<not> writable h a then rejects m a h {FrozenError, RuntimeError, SecurityError}
      else if length vs' < 536870912 then updates m a h x vs'
      else if length vs' < 1073741824 then rejects m a h {ArgError}
      else fst (m h) = Inl Undefined)"

lemma rb_ary_splice_errors:
  assumes "a < length (arys h)"
  shows "len < 0 \<Longrightarrow> rb_ary_splice a beg len v h = (Inl IndexError, h)"
    "beg + alen (arys h ! a) < 0 \<Longrightarrow> beg < 0 \<Longrightarrow> rb_ary_splice a beg len v h = (Inl IndexError, h)"
  using assms by (simp_all add: rb_ary_splice_def)

lemma rpl_length: "heap_ok h \<Longrightarrow> rpl_ok h v \<Longrightarrow> length (rpl_list h v) < 536870912"
  using alen_bound[of h] length_ary_list[of h] by (force simp: rpl_ok_def rpl_list_def split: VALUE.splits)

lemma rb_ary_splice_refused:
  assumes ok: "heap_ok h" and a: "a < length (arys h)" and nw: "\<not> writable h a" and v: "rpl_ok h v"
    and j: "0 \<le> (if beg < 0 then beg + int (length (ary_list h a)) else beg)" "0 \<le> len"
  shows "rejects (rb_ary_splice a beg len v) a h {FrozenError, RuntimeError, SecurityError}"
proof -
  obtain h0 src where h0: "(if v = Qnil then ret None else bind (rb_ary_to_ary v) (\<lambda>q. ret (Some q))) h = (Inr src, h0)"
    "heap_ok h0" "frame a h h0" "ary_list h0 a = ary_list h a" "source_ok h0 src (rpl_list h v)"
    using convert_replacement[OF ok v a] .
  have a0: "a < length (arys h0)" "\<not> writable h0 a" using h0(3) a nw by (simp_all add: frame_def)
  obtain e where e: "e \<in> {FrozenError, RuntimeError, SecurityError}" "rb_ary_modify a h0 = (Inl e, h0)"
    using modify_check_run(2)[OF a0] rb_ary_modify_refused by blast
  define conv where "conv = (if v = Qnil then ret None else bind (rb_ary_to_ary v) (\<lambda>q. ret (Some q)))"
  have neg: "\<not> len < 0" "\<not> (if beg < 0 then beg + alen (arys h ! a) else beg) < 0"
    using j length_ary_list[OF ok a, symmetric] by (simp_all only: not_less)
  have "rb_ary_splice a beg len v h = (Inl e, h0)"
    using a h0(1)[folded conv_def] source_length[OF h0(2,5)] e(2)
    by (simp only: rb_ary_splice_def Let_def if_not_P[OF neg(1)] if_not_P[OF neg(2)] heap_run object_access prod.case sum.case
          conv_def[symmetric])
  then show ?thesis using e(1) h0(2-4) by (intro rejectsI)
qed

lemma rb_ary_splice_contract:
  assumes ok: "heap_ok h" and a: "a < length (arys h)" and v: "rpl_ok h v"
    and j: "j = (if beg < 0 then beg + int (length (ary_list h a)) else beg)" "j < 1073741824" "len < 1073741824"
  shows "splices (rb_ary_splice a beg len v) a h () j len (rpl_list h v)"
proof -
  let ?vs = "splice_list (ary_list h a) (nat j) (nat len) (rpl_list h v)"
  have al: "alen (arys h ! a) = int (length (ary_list h a))" using length_ary_list[OF ok a] by simp
  have one: "rejects (rb_ary_splice a beg len v) a h {IndexError}" if "j < 0 \<or> len < 0"
  proof (rule rejectsI)
    show "rb_ary_splice a beg len v h = (Inl IndexError, h)"
    proof (cases "len < 0")
      case False
      then have "beg + alen (arys h ! a) < 0" "beg < 0" using that j(1) al by (auto split: if_splits)
      then show ?thesis by (rule rb_ary_splice_errors(2)[OF a])
    qed (rule rb_ary_splice_errors(1)[OF a])
  qed (use ok in simp_all)
  have two: "rejects (rb_ary_splice a beg len v) a h {FrozenError, RuntimeError, SecurityError}"
    if "\<not> (j < 0 \<or> len < 0)" "\<not> writable h a"
    using that j(1) by (intro rb_ary_splice_refused[OF ok a _ v]) simp_all
  have three: "updates (rb_ary_splice a beg len v) a h () ?vs"
    if "\<not> (j < 0 \<or> len < 0)" "\<not> \<not> writable h a" "length ?vs < 536870912"
    using that j by (intro writes_updates rb_ary_splice_writes[OF ok _ v j(1)]) simp_all
  have big: "if length ?vs < 1073741824 then rejects (rb_ary_splice a beg len v) a h {ArgError}
    else fst (rb_ary_splice a beg len v h) = Inl Undefined"
    if nn: "\<not> (j < 0 \<or> len < 0)" and w: "\<not> \<not> writable h a" and n: "\<not> length ?vs < 536870912"
  proof -
    let ?l = "length (ary_list h a)" and ?r = "length (rpl_list h v)"
    define l where "l = (if j + len > int ?l then int ?l - j else len)"
    have w: "writable h a" and j0: "0 \<le> j" "0 \<le> len" "j + len < 2147483648" using w nn j by simp_all
    obtain h1 src where h1: "heap_ok h1" "owned h1 a" "frame a h h1" "ary_list h1 a = ary_list h a"
      "source_ok h1 src (rpl_list h v)"
      "rb_ary_splice a beg len v h =
        (if j \<ge> int ?l then splice_beyond a j src (int ?r) else splice_within a j l src (int ?r)) h1"
      using rb_ary_splice_run[OF ok w v j(1) j0 l_def] .
    have r: "int ?r < 536870912" and lb: "?l < 536870912" using rpl_length[OF ok v] alen_bound[OF ok a] al by simp_all
    show ?thesis
    proof (cases "int ?l \<le> j")
      case True
      have t: "int (length ?vs) = j + int ?r" using True j0 by (simp add: length_splice_list le_nat_iff)
      note sb = splice_beyond_too_big[OF h1(1,2), of j "int ?r" src, unfolded h1(4), OF True _ r j(2)]
      show ?thesis
      proof (cases "length ?vs < 1073741824")
        case small: True
        have "rb_ary_splice a beg len v h = (Inl ArgError, h1)" using sb(1) t n small h1(6) True by simp
        then show ?thesis using small h1(1,3,4) by (simp add: rejectsI)
      next
        case False
        then show ?thesis using sb(2) t h1(6) True by simp
      qed
    next
      case False
      have ll: "0 \<le> l" "j + l \<le> int ?l" using l_def False j0 by auto
      have m: "min (nat len) (?l - nat j) = nat l" using l_def False j0 by (auto simp: min_def)
      have nb: "nat j < ?l" "nat l \<le> ?l" using False ll j0 by linarith+
      have t: "int (length ?vs) = int ?l + int ?r - l" using nb ll by (simp add: length_splice_list m of_nat_diff)
      have "rb_ary_splice a beg len v h = (Inl ArgError, h1)"
        using splice_within_too_big[OF h1(1,2) j0(1) ll(1), of "int ?r" src] h1(4,6) ll(2) r t n False by simp
      moreover have "length ?vs < 1073741824" using t ll(1) r lb by linarith
      ultimately show ?thesis using h1(1,3,4) by (simp add: rejectsI)
    qed
  qed
  show ?thesis unfolding splices_def Let_def using one two three big by simp
qed

lemma splices_through:
  assumes sp: "splices m a h0 y j len rs" and h0: "frame a h h0" "ary_list h0 a = ary_list h a" "a < length (arys h)"
    and run: "m' h = bind m (\<lambda>_. ret x) h0"
  shows "splices m' a h x j len rs"
proof -
  have w: "writable h0 a = writable h a" using h0 by (simp add: frame_def)
  have rej: "rejects m a h0 es \<Longrightarrow> rejects m' a h es" for es
    using run h0(2) frame_trans[OF h0(1)] by (auto elim!: rejectsE intro!: rejectsI)
  have upd: "updates m a h0 y vs \<Longrightarrow> updates m' a h x vs" for vs
    using run frame_trans[OF h0(1)] by (auto elim!: updatesE intro!: updatesI)
  have bad: "fst (m h0) = Inl Undefined \<Longrightarrow> fst (m' h) = Inl Undefined"
    using run by (cases "m h0") (auto split: sum.splits)
  show ?thesis using sp rej upd bad unfolding splices_def Let_def w h0(2) by (auto split: if_splits)
qed

section \<open>Insertion, concatenation, deletion\<close>

lemma fixnum_index [simp]: "rb_num2long (Num (Fixnum i)) = Inr i"
  by (simp add: rb_num2long_def)

definition insert_pos :: "VALUE list \<Rightarrow> int \<Rightarrow> int" where
  "insert_pos vs pos = (if pos < 0 then pos + 1 + int (length vs) else pos)"

lemma rb_ary_aset_splices:
  assumes "heap_ok h" "a < length (arys h)" "rpl_ok h v" "i < 1073741824" "n < 1073741824"
  shows "splices (rb_ary_aset [Num (Fixnum i), Num (Fixnum n), v] a) a h v
    (if i < 0 then i + int (length (ary_list h a)) else i) n (rpl_list h v)"
proof (rule splices_through[OF rb_ary_splice_contract[OF assms(1-3) refl _ assms(5)] frame_refl refl assms(2)])
  show "(if i < 0 then i + int (length (ary_list h a)) else i) < 1073741824"
    using assms(4) alen_bound[OF assms(1,2)] length_ary_list[OF assms(1,2)] by auto
  show "rb_ary_aset [Num (Fixnum i), Num (Fixnum n), v] a h = bind (rb_ary_splice a i n v) (\<lambda>_. ret v) h"
    by (simp add: rb_ary_aset_def SYMBOL_P_def)
qed

lemma rb_ary_insert_splices:
  assumes ok: "heap_ok h" and a: "a < length (arys h)" and args: "args \<noteq> []" "length args < 536870912"
    and pos: "pos < 1073741824"
  shows "splices (rb_ary_insert (Num (Fixnum pos) # args) a) a h a (insert_pos (ary_list h a) pos) 0 args"
proof -
  note len = length_ary_list[OF ok a, symmetric]
  let ?l = "int (length (ary_list h a))" and ?q = "length (arys h)"
  have l: "?l < 536870912" using alen_bound[OF ok a] len by simp
  define p where "p = (if pos = -1 then ?l else if pos < 0 then pos + 1 else pos)"
  obtain h1 where h1: "rb_ary_new4 (int (length args)) (Some args) h = (Inr ?q, h1)" "fresh_ary h ?q h1 args"
    using rb_ary_new3_ok[OF ok, of args] args by auto
  have h1ok: "heap_ok h1" "a < length (arys h1)" "ary_list h1 a = ary_list h a" "?q < length (arys h1)" "ary_list h1 ?q = args"
    using h1(2) fresh_aryD[OF h1(2) a] by (simp_all add: fresh_ary_def)
  have rpl: "rpl_ok h1 (Ary ?q)" "rpl_list h1 (Ary ?q) = args" using h1ok by (simp_all add: rpl_ok_def rpl_list_def)
  have j: "insert_pos (ary_list h a) pos = (if p < 0 then p + int (length (ary_list h1 a)) else p)"
    using h1ok l by (auto simp: p_def insert_pos_def)
  have "insert_pos (ary_list h a) pos < 1073741824" using pos l by (auto simp: insert_pos_def)
  then have sp: "splices (rb_ary_splice a p 0 (Ary ?q)) a h1 () (insert_pos (ary_list h a) pos) 0 args"
    using rb_ary_splice_contract[OF h1ok(1,2) rpl(1) j, of 0] rpl(2) by simp
  have "rb_ary_insert (Num (Fixnum pos) # args) a h = bind (rb_ary_splice a p 0 (Ary ?q)) (\<lambda>_. ret a) h1"
    using a args h1(1)
    unfolding p_def len[symmetric] by (simp add: rb_ary_insert_def Let_def split del: if_split)
  then show ?thesis by (rule splices_through[OF sp frame_of_fresh[OF h1(2)] h1ok(3) a])
qed

lemma rb_ary_concat_splices:
  assumes ok: "heap_ok h" and a: "a < length (arys h)" and q: "q < length (arys h)"
  shows "if ary_list h q = [] then rb_ary_concat a (Ary q) h = (Inr a, h)
    else splices (rb_ary_concat a (Ary q)) a h a (int (length (ary_list h a))) 0 (ary_list h q)"
proof (cases "ary_list h q = []")
  case True
  then have "alen (arys h ! q) = 0" using length_ary_list[OF ok q] by simp
  then show ?thesis using True q by (simp add: rb_ary_concat_def to_ary_def)
next
  case False
  note len = length_ary_list[OF ok a, symmetric] and lq = length_ary_list[OF ok q, symmetric]
  have rpl: "rpl_ok h (Ary q)" "rpl_list h (Ary q) = ary_list h q" using q by (simp_all add: rpl_ok_def rpl_list_def)
  let ?l = "int (length (ary_list h a))"
  have "?l < 1073741824" using alen_bound[OF ok a] len by simp
  then have sp: "splices (rb_ary_splice a ?l 0 (Ary q)) a h () ?l 0 (ary_list h q)"
    using rb_ary_splice_contract[OF ok a rpl(1), of ?l ?l 0] rpl(2) by simp
  have "0 < alen (arys h ! q)" using lq False by simp
  then have "rb_ary_concat a (Ary q) h = bind (rb_ary_splice a ?l 0 (Ary q)) (\<lambda>_. ret a) h"
    using a q len by (simp add: rb_ary_concat_def to_ary_def)
  then have "splices (rb_ary_concat a (Ary q)) a h a ?l 0 (ary_list h q)"
    by (rule splices_through[OF sp frame_refl refl a])
  then show ?thesis using False by simp
qed

lemma updates_small:
  "splices m a h x j len rs \<Longrightarrow> 0 \<le> j \<Longrightarrow> 0 \<le> len \<Longrightarrow> writable h a \<Longrightarrow>
   length (splice_list (ary_list h a) (nat j) (nat len) rs) < 536870912 \<Longrightarrow>
   updates m a h x (splice_list (ary_list h a) (nat j) (nat len) rs)"
  by (simp add: splices_def Let_def)

lemma rb_ary_concat_ok:
  assumes "heap_ok h" "writable h a" "q < length (arys h)"
    "length (ary_list h a) + length (ary_list h q) < 536870912"
  shows "updates (rb_ary_concat a (Ary q)) a h a (ary_list h a @ ary_list h q)"
proof (cases "ary_list h q = []")
  case True
  then show ?thesis
    using rb_ary_concat_splices[OF assms(1) writable_valid[OF assms(2)] assms(3)] assms(1) by (intro updatesI) simp_all
next
  case False
  have "splice_list (ary_list h a) (nat (int (length (ary_list h a)))) (nat 0) (ary_list h q) = ary_list h a @ ary_list h q"
    by (simp add: splice_list_def)
  then show ?thesis
    using updates_small[of "rb_ary_concat a (Ary q)" a h a "int (length (ary_list h a))" 0 "ary_list h q"] assms False
      rb_ary_concat_splices[OF assms(1) writable_valid[OF assms(2)] assms(3)] by simp
qed

lemma poke_next:
  assumes "i < length xs"
  shows "poke (poke xs i [y]) (Suc i) zs = poke xs i (y # zs)"
  using assms by (simp add: poke_def add.commute)

lemma delete_loop_run:
  assumes "b < length (bufs h)" "p < n" "n \<le> length (bufs h ! b)" "None \<notin> set (take n (bufs h ! b))"
  shows "delete_loop (Ptr b 0) (int p) (int n) h =
    (Inr (int n - 1), h\<lparr>bufs := (bufs h)[b := poke (bufs h ! b) p (take (n - Suc p) (drop (Suc p) (bufs h ! b)))]\<rparr>)"
  using assms
proof (induction "n - p" arbitrary: p h)
  case 0
  then show ?case by simp
next
  case (Suc k)
  let ?xs = "bufs h ! b"
  show ?case
  proof (cases "Suc p < n")
    case False
    then have "Suc p = n" using Suc.prems by simp
    then have "int n - 1 = int p" by simp
    then show ?thesis using False \<open>Suc p = n\<close> by (subst delete_loop.simps) (simp add: poke_def)
  next
    case True
    have "?xs ! Suc p \<in> set (take n ?xs)" using True Suc.prems(3) by (auto simp: in_set_conv_nth)
    then obtain v where v: "?xs ! Suc p = Some v" using Suc.prems(4) by (metis not_None_eq)
    have rd: "cell (Ptr b 0) (int p + 1) h = (Inr v, h)"
      using Suc.prems True v
      by (simp add: cell_def ptr_add_def load_def in_block_def nat_add_distrib take_Suc_conv_app_nth)
    let ?ys = "poke ?xs p [Some v]" and ?h1 = "h\<lparr>bufs := (bufs h)[b := poke ?xs p [Some v]]\<rparr>"
    have wr: "set_cell (Ptr b 0) (int p) v h = (Inr (), ?h1)"
      using fill_cells_run[of b h "int p" "[Some v]"] Suc.prems by (simp add: set_cell_def ptr_add_def)
    have ys: "length ?ys = length ?xs" "drop (Suc (Suc p)) ?ys = drop (Suc (Suc p)) ?xs" "take (Suc p) ?ys = take p ?xs @ [Some v]"
      using Suc.prems True take_poke_end[of p ?xs "[Some v]"] by (simp_all add: poke_def)
    have none: "None \<notin> set (take n ?ys)"
    proof -
      have "take n ?ys = take p ?xs @ [Some v] @ drop (p + 1) (take n ?xs)"
        using take_poke_beyond[of p "[Some v]" n ?xs] True Suc.prems(3) by simp
      moreover have "set (take p ?xs) \<subseteq> set (take n ?xs)" using True by (intro set_take_subset_set_take) simp
      ultimately show ?thesis using Suc.prems(4) by (auto dest: in_set_dropD)
    qed
    have len: "n \<le> length (bufs ?h1 ! b)" "b < length (bufs ?h1)" "bufs ?h1 ! b = ?ys"
      using ys Suc.prems by simp_all
    have "delete_loop (Ptr b 0) (int (Suc p)) (int n) ?h1 = (Inr (int n - 1),
        ?h1\<lparr>bufs := (bufs ?h1)[b := poke ?ys (Suc p) (take (n - Suc (Suc p)) (drop (Suc (Suc p)) ?ys))]\<rparr>)"
      using Suc.hyps(1)[of "Suc p" ?h1] Suc.hyps(2) True len none by simp
    moreover have "poke ?ys (Suc p) (take (n - Suc (Suc p)) (drop (Suc (Suc p)) ?ys)) =
        poke ?xs p (take (n - Suc p) (drop (Suc p) ?xs))"
    proof -
      have "take (n - Suc p) (drop (Suc p) ?xs) = Some v # take (n - Suc (Suc p)) (drop (Suc (Suc p)) ?xs)"
        using True Suc.prems(3) v by (simp add: Cons_nth_drop_Suc[symmetric] take_Cons' Suc_diff_Suc)
      then show ?thesis using poke_next[of p ?xs "Some v"] ys(2) True Suc.prems(3) by simp
    qed
    ultimately show ?thesis using True rd wr Suc.prems(1) by (subst delete_loop.simps) (simp add: add.commute)
  qed
qed

definition delete_list :: "VALUE list \<Rightarrow> int \<Rightarrow> VALUE list" where
  "delete_list vs i = (let j = (if i < 0 then i + int (length vs) else i) in
     if 0 \<le> j \<and> j < int (length vs) then take (nat j) vs @ drop (Suc (nat j)) vs else vs)"

lemma rb_ary_delete_at_ok:
  assumes ok: "heap_ok h" and w: "writable h a"
  shows "updates (rb_ary_delete_at a i) a h (entry_list (ary_list h a) i) (delete_list (ary_list h a) i)"
proof -
  note a = writable_valid[OF w]
  let ?l = "int (length (ary_list h a))"
  note len = length_ary_list[OF ok a, symmetric]
  define j where "j = (if i < 0 then i + ?l else i)"
  have spec: "entry_list (ary_list h a) i = (if 0 \<le> j \<and> j < ?l then ary_list h a ! nat j else Qnil)"
    "delete_list (ary_list h a) i = (if 0 \<le> j \<and> j < ?l then take (nat j) (ary_list h a) @ drop (Suc (nat j)) (ary_list h a) else ary_list h a)"
    by (simp_all add: entry_list_def delete_list_def Let_def j_def)
  show ?thesis
  proof (cases "0 \<le> j \<and> j < ?l")
    case False
    then have "rb_ary_delete_at a i h = (Inr Qnil, h)" using a len by (auto simp: rb_ary_delete_at_def j_def split: if_splits)
    then show ?thesis unfolding spec if_not_P[OF False] using ok by (intro updatesI) simp_all
  next
    case True
    obtain h1 where h1: "rb_ary_modify a h = (Inr (), h1)" "heap_ok h1" "owned h1 a" "frame a h h1"
      "ary_list h1 a = ary_list h a"
      using rb_ary_modify_ok[OF ok w] by metis
    let ?vs = "ary_list h1 a" and ?p = "nat j" and ?n = "length (ary_list h1 a)"
    have ne: "?vs \<noteq> []" using True h1(5) by auto
    obtain b where p: "ptr (arys h1 ! a) = Ptr b 0" using owned_block[OF h1(2,3) ne] .
    note a1 = owned_shape(1)[OF h1(2,3)] and o = owned_cells[OF h1(2,3) p]
    note len1 = length_ary_list[OF h1(2) a1, symmetric]
    have t: "take ?n (bufs h1 ! b) = map Some ?vs" using o(1) len1 by simp
    have jn: "?p < ?n" "int ?p = j" using True h1(5) by (simp_all add: nat_less_iff)
    let ?ys = "poke (bufs h1 ! b) ?p (take (?n - Suc ?p) (drop (Suc ?p) (bufs h1 ! b)))"
    have loop: "delete_loop (Ptr b 0) j ?l h1 = (Inr (?l - 1), h1\<lparr>bufs := (bufs h1)[b := ?ys]\<rparr>)"
      using delete_loop_run[of b h1 ?p ?n] o(3,4) jn t h1(5) by auto
    have rd: "cell (Ptr b 0) j h1 = (Inr (?vs ! ?p), h1)"
      using ary_cell[OF h1(2) a1, of j] True p len1 h1(5) by simp
    have run: "rb_ary_delete_at a i h = (Inr (?vs ! ?p), h1\<lparr>bufs := (bufs h1)[b := ?ys],
        arys := (arys h1)[a := (arys h1 ! a)\<lparr>alen := ?l - 1\<rparr>]\<rparr>)"
    proof -
      have "\<not> i \<ge> ?l" "\<not> j < 0" using True by (auto simp: j_def split: if_splits)
      moreover have e: "(if i < 0 then i + alen (arys h ! a) else i) = j" by (simp add: j_def len)
      ultimately show ?thesis using a a1 h1(1) p rd loop
        by (simp add: rb_ary_delete_at_def len Let_def e split del: if_split)
    qed
    have lt: "take (?n - Suc ?p) (drop (Suc ?p) (bufs h1 ! b)) = map Some (drop (Suc ?p) ?vs)"
      using t by (metis drop_map drop_take)
    have "length (map Some (drop (Suc ?p) ?vs)) = ?n - Suc ?p" by simp
    then have ys: "length ?ys = length (bufs h1 ! b)" "take (?n - 1) ?ys = take ?p (bufs h1 ! b) @ map Some (drop (Suc ?p) ?vs)"
      using jn o(4) take_poke_end[of ?p "bufs h1 ! b" "map Some (drop (Suc ?p) ?vs)"] unfolding lt
      by (simp_all)
    have tp: "take ?p (bufs h1 ! b) = map Some (take ?p ?vs)"
      using t jn by (metis less_imp_le min.absorb1 take_map take_take)
    have "writes (\<lambda>_. rb_ary_delete_at a i h) a h1 (?vs ! ?p) (take ?p ?vs @ drop (Suc ?p) ?vs)"
    proof (rule writes_write[OF h1(2,3) p])
      show "rb_ary_delete_at a i h = (Inr (?vs ! ?p), h1\<lparr>bufs := (bufs h1)[b := ?ys],
        arys := (arys h1)[a := (arys h1 ! a)\<lparr>alen := ?l - 1\<rparr>]\<rparr>)" by (rule run)
      have l: "length (take ?p ?vs @ drop (Suc ?p) ?vs) = ?n - 1" using jn by simp
      show "take (length (take ?p ?vs @ drop (Suc ?p) ?vs)) ?ys = map Some (take ?p ?vs @ drop (Suc ?p) ?vs)"
        unfolding l using ys(2) tp by simp
      show "?l - 1 = int (length (take ?p ?vs @ drop (Suc ?p) ?vs))" unfolding l using jn h1(5) by simp
    qed (rule ys(1))
    from updates_from[OF writes_updates[OF this] h1(4), of "rb_ary_delete_at a i"]
    show ?thesis unfolding spec using True h1(5) by simp
  qed
qed

text \<open>\<open>slice!\<close>: the removed elements as a new array, the rest in place.\<close>

lemma slice_out_ok:
  assumes ok: "heap_ok h" and w: "writable h a"
    and j: "j = (if pos < 0 then pos + int (length (ary_list h a)) else pos)" "0 \<le> j" "j \<le> int (length (ary_list h a))"
    and len: "0 \<le> len" "len < 1073741824"
  obtains n h' where "slice_out a pos len h = (Inr (Ary n), h')" "heap_ok h'" "frame a h h'"
    "length (arys h) \<le> n" "ary_list h' n = take (nat len) (drop (nat j) (ary_list h a))"
    "ary_list h' a = take (nat j) (ary_list h a) @ drop (nat j + nat len) (ary_list h a)"
proof -
  note a = writable_valid[OF w]
  let ?vs = "ary_list h a"
  have l: "int (length ?vs) < 536870912" using alen_bound[OF ok a] length_ary_list[OF ok a] by simp
  have jp: "(if pos < 0 then alen (arys h ! a) + pos else pos) = j"
    using length_ary_list[OF ok a] j(1) by auto
  have "yields (rb_ary_subseq a j len) h (Some (take (nat len) (drop (nat j) ?vs)))"
    using rb_ary_subseq_ok[OF ok writable_visible[OF ok w], of j len] j len l by (simp add: slice_list_def)
  then obtain n h1 where h1: "rb_ary_subseq a j len h = (Inr (Ary n), h1)" "fresh_ary h n h1 (take (nat len) (drop (nat j) ?vs))"
    by (rule yieldsE)
  have h1ok: "heap_ok h1" "writable h1 a" "ary_list h1 a = ?vs" "n \<noteq> a" "n < length (arys h1)" "length (arys h) \<le> n"
    using h1(2) w fresh_aryD[OF h1(2) a] by (auto simp: fresh_ary_def)
  have "writes (rb_ary_splice a j len Qnil) a h1 () (splice_list ?vs (nat j) (nat len) [])"
    using rb_ary_splice_ok[OF h1ok(1,2), of Qnil j j len] j len l h1ok(3) by (simp add: rpl_ok_def rpl_list_def)
  then obtain h2 where h2: "rb_ary_splice a j len Qnil h1 = (Inr (), h2)" "heap_ok h2" "frame a h1 h2"
    "ary_list h2 a = splice_list ?vs (nat j) (nat len) []"
    by (auto simp: writes_def elim: updatesE)
  have "splice_list ?vs (nat j) (nat len) [] = take (nat j) ?vs @ drop (nat j + nat len) ?vs"
    using j by (auto simp: splice_list_def)
  moreover have "slice_out a pos len h = (Inr (Ary n), h2)" using a h1(1) h2(1) jp by (simp add: slice_out_def)
  moreover have "ary_list h2 n = ary_list h1 n" using h2(3) h1ok by (simp add: frame_def)
  ultimately show thesis
    using that[of n h2] h1(2) h1ok h2 frame_trans[OF frame_of_fresh[OF h1(2)] h2(3)] by (simp add: fresh_ary_def)
qed

text \<open>
  An offset that is still negative after the length has been added: the slice is \<open>nil\<close>, but the
  splice adds the length once more and removes elements.
\<close>

lemma slice_out_negative:
  assumes ok: "heap_ok h" and w: "writable h a"
    and pos: "pos < 0" "pos + int (length (ary_list h a)) < 0" "0 \<le> pos + 2 * int (length (ary_list h a))"
    and len: "0 \<le> len" "len < 1073741824"
  shows "updates (slice_out a pos len) a h Qnil
           (splice_list (ary_list h a) (nat (pos + 2 * int (length (ary_list h a)))) (nat len) [])"
proof -
  note a = writable_valid[OF w]
  let ?vs = "ary_list h a"
  have l: "int (length ?vs) < 536870912" using alen_bound[OF ok a] length_ary_list[OF ok a] by simp
  note al = length_ary_list[OF ok a, symmetric]
  have sub: "rb_ary_subseq a (int (length ?vs) + pos) len h = (Inr Qnil, h)"
    using a pos al by (simp add: rb_ary_subseq_def)
  have "writes (rb_ary_splice a (int (length ?vs) + pos) len Qnil) a h () (splice_list ?vs (nat (pos + 2 * int (length ?vs))) (nat len) [])"
    using rb_ary_splice_ok[OF ok w, of Qnil "pos + 2 * int (length ?vs)" "int (length ?vs) + pos" len] pos len l
    by (simp add: rpl_ok_def rpl_list_def)
  then obtain h2 where h2: "rb_ary_splice a (int (length ?vs) + pos) len Qnil h = (Inr (), h2)" "heap_ok h2" "frame a h h2"
    "ary_list h2 a = splice_list ?vs (nat (pos + 2 * int (length ?vs))) (nat len) []"
    by (auto simp: writes_def elim: updatesE)
  have "slice_out a pos len h = (Inr Qnil, h2)" using a pos(1) al sub h2(1) by (simp add: slice_out_def Let_def)
  then show ?thesis using updatesI[of "slice_out a pos len"] h2 by blast
qed

section \<open>The indexing method\<close>

lemma yields_run: "m h = m' h \<Longrightarrow> yields m' h w \<Longrightarrow> yields m h w"
  by (cases w) (simp_all add: yields_def)

definition from_end :: "VALUE list \<Rightarrow> int \<Rightarrow> int" where
  "from_end vs i = (if i < 0 then i + int (length vs) else i)"

lemma range_aref:
  assumes "- 1073741824 \<le> i" "i < 1073741824" "- 1073741824 \<le> e" "e < 1073741824" "int (length vs) < 536870912"
  shows "\<exists>ans. rb_range_beg_len (Range (Num (Fixnum i)) (Num (Fixnum e)) excl) (int (length vs)) 0 = Inr ans \<and>
    (case ans of
       No_range \<Rightarrow> False
     | Out_of_range \<Rightarrow> \<not> (0 \<le> from_end vs i \<and> from_end vs i \<le> int (length vs))
     | Beg_len b n \<Rightarrow> b = from_end vs i \<and> 0 \<le> b \<and> b \<le> int (length vs) \<and> 0 \<le> n \<and> n < 1073741824 \<and>
         take (nat n) (drop (nat b) vs) =
           take (nat (from_end vs e + (if excl then 0 else 1) - b)) (drop (nat b) vs))"
proof -
  let ?l = "int (length vs)"
  define b where "b = from_end vs i"
  show ?thesis
  proof (cases "0 \<le> b \<and> b \<le> ?l")
    case False
    have e: "(if i < 0 then i + ?l else i) = b" by (simp add: b_def from_end_def)
    have "rb_range_beg_len (Range (Num (Fixnum i)) (Num (Fixnum e)) excl) ?l 0 = Inr Out_of_range"
      using False by (cases "b < 0") (simp_all add: rb_range_beg_len_def Let_def e split del: if_split)
    then show ?thesis using False by (simp add: b_def)
  next
    case True
    define e1 where "e1 = (if e > ?l then ?l else e)"
    define e2 where "e2 = from_end vs e1 + (if excl then 0 else 1)"
    have e1: "- 1073741824 \<le> e1" "e1 \<le> ?l" using assms by (auto simp: e1_def)
    then have e2b: "- 1073741824 \<le> e2" "e2 \<le> ?l + 1" by (auto simp: e2_def from_end_def)
    then have w: "s32 (e2 - b) = e2 - b" using True assms by (intro s32_id) linarith+
    have w2: "(if \<not> excl then s32 (from_end vs e1 + 1) else from_end vs e1) = e2"
      using e1 assms by (auto simp: e2_def from_end_def s32_id)
    have run: "rb_range_beg_len (Range (Num (Fixnum i)) (Num (Fixnum e)) excl) ?l 0 =
        Inr (Beg_len b (if e2 - b < 0 then 0 else e2 - b))"
    proof -
      have eb: "(if i < 0 then i + ?l else i) = b" by (simp add: b_def from_end_def)
      have ee: "(if e1 < 0 then e1 + ?l else e1) = from_end vs e1" by (simp add: from_end_def)
      have bb: "(b < 0) = False" "(b > ?l) = False" using True by simp_all
      show ?thesis
        by (simp only: rb_range_beg_len_def VALUE.case fixnum_index obind_simps Let_def eb e1_def[symmetric] ee bb
              simp_thms if_False if_True w w2)
    qed
    have "take (nat (if e2 - b < 0 then 0 else e2 - b)) (drop (nat b) vs) =
        take (nat (from_end vs e + (if excl then 0 else 1) - b)) (drop (nat b) vs)"
    proof (cases "e > ?l")
      case big: True
      then have "e1 = ?l" "from_end vs e = e" using True by (auto simp: e1_def from_end_def)
      then have "e2 \<ge> ?l" "from_end vs e \<ge> ?l" using big by (auto simp: e2_def from_end_def)
      then have "length (drop (nat b) vs) \<le> nat (if e2 - b < 0 then 0 else e2 - b)"
        "length (drop (nat b) vs) \<le> nat (from_end vs e + (if excl then 0 else 1) - b)" using True by auto
      then show ?thesis by simp
    next
      case False
      then show ?thesis by (auto simp: e2_def e1_def)
    qed
    then show ?thesis using run True e2b assms by (auto simp: b_def)
  qed
qed

text \<open>
  C24. Indexing. On any array the program can see, \<open>array[i]\<close> answers the element at \<open>i\<close> counted
  from either end or \<open>nil\<close>, without touching the heap; \<open>array[i, n]\<close> and \<open>array[i..e]\<close>,
  \<open>array[i...e]\<close> answer \<open>nil\<close> when the start lies outside, and otherwise a new array with exactly
  the elements selected, leaving the elements of every other array as they were.
\<close>

theorem array_aref_correct:
  assumes "heap_ok h" "visible h a"
    "- 1073741824 \<le> i" "i < 1073741824" "- 1073741824 \<le> n" "n < 1073741824"
  shows "rb_ary_aref [Num (Fixnum i)] a h = (Inr (entry_list (ary_list h a) i), h) \<and>
    yields (rb_ary_aref [Num (Fixnum i), Num (Fixnum n)] a) h
           (slice_list (ary_list h a) (from_end (ary_list h a) i) n) \<and>
    yields (rb_ary_aref [Range (Num (Fixnum i)) (Num (Fixnum n)) excl] a) h
           (slice_list (ary_list h a) (from_end (ary_list h a) i)
              (max 0 (from_end (ary_list h a) n + (if excl then 0 else 1) - from_end (ary_list h a) i)))"
proof -
  let ?vs = "ary_list h a"
  have a: "a < length (arys h)" using assms(2) by (simp add: visible_def)
  have l: "int (length ?vs) < 536870912" "alen (arys h ! a) = int (length ?vs)"
    using alen_bound[OF assms(1) a] length_ary_list[OF assms(1) a] by simp_all
  have one: "rb_ary_aref [Num (Fixnum i)] a h = (Inr (entry_list ?vs i), h)"
    using rb_ary_entry_ok[OF assms(1) a] by (simp add: rb_ary_aref_def)
  have sub: "yields (rb_ary_subseq a b m) h (slice_list ?vs b m)"
    if "- 1073741824 \<le> b" "b < 1073741824" "m < 1073741824" for b m
    using that by (intro rb_ary_subseq_ok[OF assms(1,2)]) linarith+
  have fe: "- 1073741824 \<le> from_end ?vs i" "from_end ?vs i < 1073741824"
    using assms l by (auto simp: from_end_def)
  have "rb_ary_aref [Num (Fixnum i), Num (Fixnum n)] a h = rb_ary_subseq a (from_end ?vs i) n h"
    using a l by (simp add: rb_ary_aref_def SYMBOL_P_def from_end_def)
  then have two: "yields (rb_ary_aref [Num (Fixnum i), Num (Fixnum n)] a) h (slice_list ?vs (from_end ?vs i) n)"
    using sub[OF fe, of n] assms by (auto intro: yields_run)
  obtain ans where ans: "rb_range_beg_len (Range (Num (Fixnum i)) (Num (Fixnum n)) excl) (int (length ?vs)) 0 = Inr ans"
    "case ans of No_range \<Rightarrow> False
     | Out_of_range \<Rightarrow> \<not> (0 \<le> from_end ?vs i \<and> from_end ?vs i \<le> int (length ?vs))
     | Beg_len b m \<Rightarrow> b = from_end ?vs i \<and> 0 \<le> b \<and> b \<le> int (length ?vs) \<and> 0 \<le> m \<and> m < 1073741824 \<and>
         take (nat m) (drop (nat b) ?vs) = take (nat (from_end ?vs n + (if excl then 0 else 1) - b)) (drop (nat b) ?vs)"
    using range_aref[OF assms(3-6) l(1), of excl] by blast
  let ?m = "max 0 (from_end ?vs n + (if excl then 0 else 1) - from_end ?vs i)"
  have "yields (rb_ary_aref [Range (Num (Fixnum i)) (Num (Fixnum n)) excl] a) h (slice_list ?vs (from_end ?vs i) ?m)"
  proof (cases ans)
    case No_range then show ?thesis using ans by simp
  next
    case Out_of_range
    then have "slice_list ?vs (from_end ?vs i) ?m = None" using ans(2) by (auto simp: slice_list_def)
    then show ?thesis using a l ans(1) Out_of_range by (simp add: yields_def rb_ary_aref_def SYMBOL_P_def)
  next
    case (Beg_len b m)
    note bm = ans(2)[unfolded Beg_len, simplified]
    have "rb_ary_aref [Range (Num (Fixnum i)) (Num (Fixnum n)) excl] a h = rb_ary_subseq a b m h"
      using a l ans(1) Beg_len by (simp add: rb_ary_aref_def SYMBOL_P_def)
    moreover have "slice_list ?vs b m = slice_list ?vs (from_end ?vs i) ?m"
      using bm by (auto simp: slice_list_def max_def)
    ultimately show ?thesis using sub[of b m] bm l by (auto intro: yields_run)
  qed
  with one two show ?thesis by blast
qed

theorem array_aref_correct_witness:
  "rb_ary_aref [Num (Fixnum (-1))] 0 sample_heap = (Inr (Num (Fixnum 3)), sample_heap) \<and>
   yields (rb_ary_aref [Range (Num (Fixnum (-1))) (Num (Fixnum 7)) False] 0) sample_heap (Some [Num (Fixnum 3)])"
  using array_aref_correct[of sample_heap 0 "-1" 7 False] sample_heap_ok
  by (simp add: fix_cells_def entry_list_def from_end_def slice_list_def)

lemma rb_ary_delete_at_cases:
  assumes ok: "heap_ok h" and a: "a < length (arys h)" and j: "j = from_end (ary_list h a) i"
  shows "\<not> (0 \<le> j \<and> j < int (length (ary_list h a))) \<Longrightarrow> rb_ary_delete_at a i h = (Inr Qnil, h)"
    "0 \<le> j \<Longrightarrow> j < int (length (ary_list h a)) \<Longrightarrow> \<not> writable h a \<Longrightarrow>
      rejects (rb_ary_delete_at a i) a h {FrozenError, RuntimeError, SecurityError}"
proof -
  note len = length_ary_list[OF ok a, symmetric]
  show "rb_ary_delete_at a i h = (Inr Qnil, h)" if "\<not> (0 \<le> j \<and> j < int (length (ary_list h a)))"
    using that a len j by (auto simp: rb_ary_delete_at_def from_end_def split: if_splits)
  assume jb: "0 \<le> j" "j < int (length (ary_list h a))" and nw: "\<not> writable h a"
  obtain e where e: "e \<in> {FrozenError, RuntimeError, SecurityError}" "rb_ary_modify a h = (Inl e, h)"
    using modify_check_run(2)[OF a nw] rb_ary_modify_refused by blast
  have "\<not> i \<ge> int (length (ary_list h a))" "(if i < 0 then i + alen (arys h ! a) else i) = j" "\<not> j < 0"
    using jb j len by (auto simp: from_end_def split: if_splits)
  then have "rb_ary_delete_at a i h = (Inl e, h)"
    using a e(2) len by (simp add: rb_ary_delete_at_def Let_def split del: if_split)
  then show "rejects (rb_ary_delete_at a i) a h {FrozenError, RuntimeError, SecurityError}"
    using e(1) ok by (intro rejectsI) simp_all
qed

text \<open>
  C25. Splices, for every fixnum offset and length. With a replacement that is \<open>nil\<close>, an array (also
  the array itself) or a plain object, \<open>array[i, n] = v\<close> replaces the elements selected, padding with
  \<open>nil\<close> when the start lies beyond the end; \<open>insert\<close> with arguments and \<open>concat\<close> with a non-empty
  array are such splices, and \<open>delete_at\<close> removes one element and answers it. A start before the
  first element or a negative length raises \<open>IndexError\<close>, an array that may not be written raises,
  and no element changes in these cases. There is no check of the size: a result of \<open>2\<^sup>2\<^sup>9\<close> elements or
  more makes the reallocation raise \<open>ArgumentError\<close>, and from \<open>2\<^sup>3\<^sup>0\<close> elements on the number of bytes
  has wrapped to a small one and the splice writes outside its block. No other array changes.
\<close>

theorem array_splice_correct:
  assumes "heap_ok h" "a < length (arys h)" "rpl_ok h v" "q < length (arys h)" "args \<noteq> []" "length args < 536870912"
    "i < 1073741824" "n < 1073741824"
  shows "splices (rb_ary_aset [Num (Fixnum i), Num (Fixnum n), v] a) a h v (from_end (ary_list h a) i) n (rpl_list h v) \<and>
    splices (rb_ary_insert (Num (Fixnum i) # args) a) a h a (insert_pos (ary_list h a) i) 0 args \<and>
    (if ary_list h q = [] then rb_ary_concat a (Ary q) h = (Inr a, h)
     else splices (rb_ary_concat a (Ary q)) a h a (int (length (ary_list h a))) 0 (ary_list h q)) \<and>
    (if \<not> (0 \<le> from_end (ary_list h a) i \<and> from_end (ary_list h a) i < int (length (ary_list h a)))
     then rb_ary_delete_at_m a (Num (Fixnum i)) h = (Inr Qnil, h)
     else if \<not> writable h a
     then rejects (rb_ary_delete_at_m a (Num (Fixnum i))) a h {FrozenError, RuntimeError, SecurityError}
     else updates (rb_ary_delete_at_m a (Num (Fixnum i))) a h (entry_list (ary_list h a) i) (delete_list (ary_list h a) i))"
proof -
  let ?j = "from_end (ary_list h a) i"
  have run: "rb_ary_delete_at_m a (Num (Fixnum i)) h = rb_ary_delete_at a i h" by (simp add: rb_ary_delete_at_m_def)
  note del = rb_ary_delete_at_cases[OF assms(1,2) refl, of i]
  have "rejects (rb_ary_delete_at_m a (Num (Fixnum i))) a h {FrozenError, RuntimeError, SecurityError}"
    if "0 \<le> ?j" "?j < int (length (ary_list h a))" "\<not> writable h a"
    using del(2) that by (simp add: rejects_def run)
  moreover have "updates (rb_ary_delete_at_m a (Num (Fixnum i))) a h (entry_list (ary_list h a) i) (delete_list (ary_list h a) i)"
    if "writable h a"
    using rb_ary_delete_at_ok[OF assms(1) that, of i] by (rule updates_from[OF _ frame_refl]) (rule run)
  ultimately show ?thesis
    using rb_ary_aset_splices[OF assms(1-3,7,8)] rb_ary_insert_splices[OF assms(1,2,5-7)]
      rb_ary_concat_splices[OF assms(1,2,4)] run del(1) by (auto simp: from_end_def[symmetric])
qed

theorem array_splice_correct_witness:
  "updates (rb_ary_aset [Num (Fixnum 1), Num (Fixnum 1), Ary 0] 0) 0 sample_heap (Ary 0) (fix_cells [1, 1, 2, 3, 3]) \<and>
   updates (rb_ary_concat 0 (Ary 1)) 0 sample_heap 0 (fix_cells [1, 2, 3, 2, 3]) \<and>
   rejects (rb_ary_aset [Num (Fixnum 600000000), Num (Fixnum 0), Num (Fixnum 1)] 0) 0 plain_heap {ArgError} \<and>
   fst (rb_ary_aset [Num (Fixnum 1073741823), Num (Fixnum 0), Num (Fixnum 1)] 0 plain_heap) = Inl Undefined"
proof -
  have p: "0 < length (arys plain_heap)" "ary_list plain_heap 0 = []"
    by (simp_all add: plain_heap_def ary_list_def cells_def)
  note big = array_splice_correct[OF plain_heap_ok(1) p(1) _ p(1), of "Num (Fixnum 1)" "[Qnil]" _ 0]
  show ?thesis
    using array_splice_correct[of sample_heap 0 "Ary 0" 1 "[Qnil]" 1 1] sample_heap_ok big[of 600000000] big[of 1073741823]
    by (simp add: p fix_cells_def from_end_def splice_list_def splices_def Let_def rpl_ok_def rpl_list_def plain_heap_ok)
qed

text \<open>
  \<open>slice!(pos, len)\<close> with a start inside the array answers the removed elements as a new array
  and keeps the rest. A start so far before the first element that it is still negative once the
  length has been added answers \<open>nil\<close>, but nevertheless removes the elements found by adding the
  length a second time.
\<close>

theorem array_slice_bang:
  assumes "heap_ok h" "writable h a" "0 \<le> n" "n < 1073741824"
  shows "if 0 \<le> from_end (ary_list h a) pos \<and> from_end (ary_list h a) pos \<le> int (length (ary_list h a)) then
      \<exists>m h'. rb_ary_slice_bang [Num (Fixnum pos), Num (Fixnum n)] a h = (Inr (Ary m), h') \<and> heap_ok h' \<and> frame a h h' \<and>
        ary_list h' m = take (nat n) (drop (nat (from_end (ary_list h a) pos)) (ary_list h a)) \<and>
        ary_list h' a = take (nat (from_end (ary_list h a) pos)) (ary_list h a) @
                        drop (nat (from_end (ary_list h a) pos) + nat n) (ary_list h a)
    else from_end (ary_list h a) pos < 0 \<and> 0 \<le> pos + 2 * int (length (ary_list h a)) \<longrightarrow>
      updates (rb_ary_slice_bang [Num (Fixnum pos), Num (Fixnum n)] a) a h Qnil
        (splice_list (ary_list h a) (nat (pos + 2 * int (length (ary_list h a)))) (nat n) [])"
proof -
  have run: "rb_ary_slice_bang [Num (Fixnum pos), Num (Fixnum n)] a h = slice_out a pos n h"
    by (simp add: rb_ary_slice_bang_def)
  show ?thesis
  proof (cases "0 \<le> from_end (ary_list h a) pos \<and> from_end (ary_list h a) pos \<le> int (length (ary_list h a))")
    case True
    then obtain m h' where "slice_out a pos n h = (Inr (Ary m), h')" "heap_ok h'" "frame a h h'"
      "ary_list h' m = take (nat n) (drop (nat (from_end (ary_list h a) pos)) (ary_list h a))"
      "ary_list h' a = take (nat (from_end (ary_list h a) pos)) (ary_list h a) @
         drop (nat (from_end (ary_list h a) pos) + nat n) (ary_list h a)"
      using slice_out_ok[OF assms(1,2) from_end_def _ _ assms(3,4)] by blast
    then show ?thesis using run True by auto
  next
    case False
    have "updates (rb_ary_slice_bang [Num (Fixnum pos), Num (Fixnum n)] a) a h Qnil
        (splice_list (ary_list h a) (nat (pos + 2 * int (length (ary_list h a)))) (nat n) [])"
      if "from_end (ary_list h a) pos < 0" "0 \<le> pos + 2 * int (length (ary_list h a))"
    proof -
      have "pos < 0" "pos + int (length (ary_list h a)) < 0" using that by (auto simp: from_end_def split: if_splits)
      from slice_out_negative[OF assms(1,2) this that(2) assms(3,4)]
      show ?thesis using run by (rule updates_from[OF _ frame_refl])
    qed
    then show ?thesis using False by auto
  qed
qed

theorem array_slice_bang_witness:
  "updates (rb_ary_slice_bang [Num (Fixnum (-5)), Num (Fixnum 2)] 0) 0 sample_heap Qnil (fix_cells [1])"
  using array_slice_bang[of sample_heap 0 2 "-5"] sample_heap_ok
  by (simp add: fix_cells_def from_end_def splice_list_def)

end
