(* ===== verification/RArray_More.thy ===== *)
theory RArray_More
  imports RArray_Slice
begin

text \<open>
  The operations of \<^verbatim>\<open>src/ruby/array.c\<close> that build or overwrite whole arrays (initialisation,
  replacement, clearing, filling, concatenation into a new array, repetition, reversal), the
  searches by equality and the removal of equal elements, and the safety of arbitrary sequences of
  array operations. A block passed to a method is a function of its argument that leaves the heap
  alone; \<open>rb_equal\<close> is a parameter in the same sense.
\<close>

section \<open>Replacing, clearing, copying\<close>

definition rb_ary_replace :: "nat \<Rightarrow> VALUE \<Rightarrow> nat heapM" where
  "rb_ary_replace copy orig =
     bind (rb_ary_modify copy) (\<lambda>_.
     bind (to_ary orig) (\<lambda>q.
     if copy = q then ret copy
     else
       bind (ary_make_shared q) (\<lambda>shared.
       bind (get_ary copy) (\<lambda>c.
       bind (if ptr c \<noteq> NULL \<and> \<not> elts_shared c then free_block (ptr c) else ret ()) (\<lambda>_.
       bind (get_ary q) (\<lambda>r.
       bind (upd_ary copy (\<lambda>c. c\<lparr>ptr := ptr r, alen := alen r, aaux := Shared_by shared, elts_shared := True\<rparr>)) (\<lambda>_.
       ret copy)))))))"

definition rb_ary_clear :: "nat \<Rightarrow> nat heapM" where
  "rb_ary_clear a =
     bind (rb_ary_modify a) (\<lambda>_.
     bind (upd_ary a (\<lambda>r. r\<lparr>alen := 0\<rparr>)) (\<lambda>_.
     bind (get_ary a) (\<lambda>r.
     bind (lift (capa r)) (\<lambda>c.
     bind (if ARY_DEFAULT_SIZE * 2 < c then realloc_then_capa a (ARY_DEFAULT_SIZE * 2) else ret ()) (\<lambda>_.
     ret a)))))"

definition rb_ary_dup :: "nat \<Rightarrow> nat heapM" where
  "rb_ary_dup a =
     bind (get_ary a) (\<lambda>r.
     bind (rb_ary_new2 (alen r)) (\<lambda>d.
     bind (upd_ary d (\<lambda>x. x\<lparr>tainted := tainted r\<rparr>)) (\<lambda>_.
     bind (get_ary d) (\<lambda>x.
     bind (MEMCPY (ptr x) (ptr r) (alen r)) (\<lambda>_.
     bind (upd_ary d (\<lambda>x. x\<lparr>alen := alen r\<rparr>)) (\<lambda>_.
     ret d))))))"

definition rb_ary_plus :: "nat \<Rightarrow> VALUE \<Rightarrow> nat heapM" where
  "rb_ary_plus x y =
     bind (to_ary y) (\<lambda>y.
     bind (get_ary x) (\<lambda>rx.
     bind (get_ary y) (\<lambda>ry.
     (let len = s32 (alen rx + alen ry) in
     bind (rb_ary_new2 len) (\<lambda>z.
     bind (get_ary z) (\<lambda>rz.
     bind (MEMCPY (ptr rz) (ptr rx) (alen rx)) (\<lambda>_.
     bind (MEMCPY (ptr_add (ptr rz) (alen rx)) (ptr ry) (alen ry)) (\<lambda>_.
     bind (upd_ary z (\<lambda>r. r\<lparr>alen := len\<rparr>)) (\<lambda>_.
     ret z)))))))))"

text \<open>
  The loop of \<open>rb_ary_times\<close> steps by the length of the array; when that is 0 so is \<open>len\<close>, and the
  loop is not entered.
\<close>

function times_loop :: "pointer \<Rightarrow> rarray \<Rightarrow> int \<Rightarrow> int \<Rightarrow> unit heapM" where
  "times_loop p r i len =
     (if i < len \<and> 0 < alen r then
        bind (MEMCPY (ptr_add p i) (ptr r) (alen r)) (\<lambda>_. times_loop p r (i + alen r) len)
      else ret ())"
  by pat_completeness auto
termination by (relation "measure (\<lambda>(p, r, i, len). nat (len - i))") auto

declare times_loop.simps [simp del]

definition rb_ary_times :: "nat \<Rightarrow> VALUE \<Rightarrow> nat heapM" where
  "rb_ary_times a tm =
     (case tm of Other n \<Rightarrow> throw Coerce | _ \<Rightarrow>
     bind (lift (rb_num2long tm)) (\<lambda>len.
     if len = 0 then ary_new 0
     else if len < 0 then throw ArgError
     else
       bind (get_ary a) (\<lambda>r.
       if c_quot 2147483647 len < alen r then throw ArgError
       else
         (let len = len * alen r in
         bind (ary_new len) (\<lambda>a2.
         bind (upd_ary a2 (\<lambda>x. x\<lparr>alen := len\<rparr>)) (\<lambda>_.
         bind (get_ary a2) (\<lambda>x.
         bind (times_loop (ptr x) r 0 len) (\<lambda>_.
         bind (upd_ary a2 (\<lambda>x. x\<lparr>tainted := tainted x \<or> tainted r\<rparr>)) (\<lambda>_.
         ret a2)))))))))"

section \<open>Reversal\<close>

text \<open>The two pointers of \<open>rb_ary_reverse\<close> as indices that approach each other.\<close>

function reverse_loop :: "pointer \<Rightarrow> int \<Rightarrow> int \<Rightarrow> unit heapM" where
  "reverse_loop p i j =
     (if i < j then
        bind (cell p i) (\<lambda>tmp.
        bind (cell p j) (\<lambda>x.
        bind (set_cell p i x) (\<lambda>_.
        bind (set_cell p j tmp) (\<lambda>_.
        reverse_loop p (i + 1) (j - 1)))))
      else ret ())"
  by pat_completeness auto
termination by (relation "measure (\<lambda>(p, i, j). nat (j - i))") auto

declare reverse_loop.simps [simp del]

definition rb_ary_reverse :: "nat \<Rightarrow> nat heapM" where
  "rb_ary_reverse a =
     bind (rb_ary_modify a) (\<lambda>_.
     bind (get_ary a) (\<lambda>r.
     bind (if alen r > 1 then reverse_loop (ptr r) 0 (alen r - 1) else ret ()) (\<lambda>_.
     ret a)))"

definition rb_ary_reverse_bang :: "nat \<Rightarrow> nat heapM" where
  "rb_ary_reverse_bang a = rb_ary_reverse a"

definition rb_ary_reverse_m :: "nat \<Rightarrow> nat heapM" where
  "rb_ary_reverse_m a = bind (rb_ary_dup a) (\<lambda>d. rb_ary_reverse d)"

section \<open>Filling and initialisation\<close>

fun fill_block_loop :: "(VALUE \<Rightarrow> VALUE) \<Rightarrow> nat \<Rightarrow> nat \<Rightarrow> int \<Rightarrow> unit heapM" where
  "fill_block_loop f a 0 i = ret ()"
| "fill_block_loop f a (Suc n) i =
     bind (get_ary a) (\<lambda>r.
     if i \<ge> alen r then ret ()
     else bind (set_cell (ptr r) i (f (Num (rb_int2inum i)))) (\<lambda>_. fill_block_loop f a n (i + 1)))"

text \<open>
  \<open>fill_range\<close> is the body of \<open>rb_ary_fill\<close> once the offset and length are known; \<open>src\<close> is the
  item or the block.
\<close>

definition fill_range :: "VALUE + (VALUE \<Rightarrow> VALUE) \<Rightarrow> nat \<Rightarrow> int \<Rightarrow> int \<Rightarrow> nat heapM" where
  "fill_range src a beg len =
     bind (rb_ary_modify a) (\<lambda>_.
     bind (get_ary a) (\<lambda>r.
     (let end' = s32 (beg + len) in
     bind (if end' > alen r then
         bind (lift (capa r)) (\<lambda>c.
         bind (if end' \<ge> c then realloc_then_capa a end' else ret ()) (\<lambda>_.
         bind (get_ary a) (\<lambda>r.
         bind (if beg > alen r then rb_mem_clear (ptr_add (ptr r) (alen r)) (end' - alen r) else ret ()) (\<lambda>_.
         upd_ary a (\<lambda>r. r\<lparr>alen := end'\<rparr>)))))
       else ret ()) (\<lambda>_.
     bind (get_ary a) (\<lambda>r.
     bind (case src of
         Inr f \<Rightarrow> fill_block_loop f a (nat (end' - beg)) beg
       | Inl item \<Rightarrow> if len > 0 then memfill (ptr_add (ptr r) beg) len item else ret ()) (\<lambda>_.
     ret a))))))"

definition rb_ary_fill :: "(VALUE \<Rightarrow> VALUE) option \<Rightarrow> VALUE list \<Rightarrow> nat \<Rightarrow> nat heapM" where
  "rb_ary_fill block argv a =
     (case (case block of Some f \<Rightarrow> Some (Inr f, argv)
            | None \<Rightarrow> (case argv of [] \<Rightarrow> None | item # rest \<Rightarrow> Some (Inl item, rest))) of
        None \<Rightarrow> throw ArgError
      | Some (src, args) \<Rightarrow>
          if length args > 2 then throw ArgError
          else
            bind (get_ary a) (\<lambda>r.
            (let arg1 = (if length args \<ge> 1 then args ! 0 else Qnil);
                 arg2 = (if length args = 2 then args ! 1 else Qnil);
                 by_numbers =
                   bind (if arg1 = Qnil then ret 0 else lift (rb_num2long arg1)) (\<lambda>beg.
                   (let beg = (if beg < 0 then (if alen r + beg < 0 then 0 else alen r + beg) else beg) in
                   bind (if arg2 = Qnil then ret (alen r - beg) else lift (rb_num2long arg2)) (\<lambda>len.
                   fill_range src a beg len))) in
             if args = [] then fill_range src a 0 (alen r)
             else if length args = 1 then
               bind (lift (rb_range_beg_len arg1 (alen r) 1)) (\<lambda>ans.
               case ans of
                 Beg_len beg len \<Rightarrow> fill_range src a beg len
               | Out_of_range \<Rightarrow> throw Undefined
               | No_range \<Rightarrow> by_numbers)
             else by_numbers)))"

fun init_block_loop :: "(VALUE \<Rightarrow> VALUE) \<Rightarrow> nat \<Rightarrow> nat \<Rightarrow> int \<Rightarrow> unit heapM" where
  "init_block_loop f a 0 i = ret ()"
| "init_block_loop f a (Suc n) i =
     bind (rb_ary_store a i (f (Num (rb_int2inum i)))) (\<lambda>_.
     bind (upd_ary a (\<lambda>r. r\<lparr>alen := i + 1\<rparr>)) (\<lambda>_.
     init_block_loop f a n (i + 1)))"

definition rb_ary_initialize :: "(VALUE \<Rightarrow> VALUE) option \<Rightarrow> VALUE list \<Rightarrow> nat \<Rightarrow> nat heapM" where
  "rb_ary_initialize block argv a =
     (if length argv > 2 then throw ArgError
      else if argv = [] then bind (upd_ary a (\<lambda>r. r\<lparr>alen := 0\<rparr>)) (\<lambda>_. ret a)
      else
        (let sz = argv ! 0; v = (if length argv = 2 then argv ! 1 else Qnil) in
         case (length argv = 1, sz) of
           (True, Ary q) \<Rightarrow> bind (rb_ary_replace a (Ary q)) (\<lambda>_. ret a)
         | (True, Other n) \<Rightarrow> throw Coerce
         | _ \<Rightarrow>
           bind (lift (rb_num2long sz)) (\<lambda>len.
           if len < 0 then throw ArgError
           else if len > 0 \<and> s32 (len * 4) \<le> len then throw ArgError
           else
             bind (rb_ary_modify a) (\<lambda>_.
             bind (get_ary a) (\<lambda>r.
             bind (lift (capa r)) (\<lambda>c.
             bind (if len > c then realloc_then_capa a len else ret ()) (\<lambda>_.
             bind (get_ary a) (\<lambda>r.
             bind (case block of
                 Some f \<Rightarrow> init_block_loop f a (nat len) 0
               | None \<Rightarrow> bind (memfill (ptr r) len v) (\<lambda>_. upd_ary a (\<lambda>r. r\<lparr>alen := len\<rparr>))) (\<lambda>_.
             ret a)))))))))"

section \<open>Replacement shares, clearing keeps the block\<close>

lemma rb_ary_replace_ok:
  assumes ok: "heap_ok h" and w: "writable h a" and q: "visible h q"
  shows "updates (rb_ary_replace a (Ary q)) a h a (ary_list h q)"
proof -
  note a = writable_valid[OF w]
  obtain h1 where h1: "rb_ary_modify a h = (Inr (), h1)" "heap_ok h1" "owned h1 a" "frame a h h1"
    "ary_list h1 a = ary_list h a"
    using rb_ary_modify_ok[OF ok w] by metis
  show ?thesis
  proof (cases "q = a")
    case True
    then have "rb_ary_replace a (Ary q) h = (Inr a, h1)" using h1(1) by (simp add: rb_ary_replace_def to_ary_def)
    then show ?thesis using updatesI[of "rb_ary_replace a (Ary q)"] h1 True by auto
  next
    case False
    have ql: "q < length (arys h)" using q by (simp add: visible_def)
    have q1: "visible h1 q" "q < length (arys h1)" "ary_list h1 q = ary_list h q"
      using h1(4) q ql False by (auto simp: frame_def visible_def)
    note a1 = owned_shape(1)[OF h1(2,3)]
    obtain h2 s where h2: "ary_make_shared q h1 = (Inr s, h2)" "heap_ok h2" "\<forall>x. frame x h1 h2"
      "ary_list h2 q = ary_list h1 q" "arys h2 ! q = (arys h1 ! q)\<lparr>aaux := Shared_by s, elts_shared := True\<rparr>"
      "s < length (arys h2)" "\<not> elts_shared (arys h2 ! s)" "frozen (arys h2 ! s)" "blk (arys h2 ! s) = blk (arys h1 ! q)"
      "length (arys h1) \<le> length (arys h2)" "\<forall>x < length (arys h1). x \<noteq> q \<longrightarrow> arys h2 ! x = arys h1 ! x"
      using ary_make_shared_ok[OF h1(2) q1(1)] by metis
    have ra: "arys h2 ! a = arys h1 ! a" "a < length (arys h2)" "q < length (arys h2)" using h2 a1 q1 False by simp_all
    have own: "owned h2 a" using h1(3) ra by (simp add: owned_def)
    let ?rq = "arys h2 ! q"
    have shq: "elts_shared ?rq" "aaux ?rq = Shared_by s" using h2(5) by simp_all
    then have hid: "\<not> visible h2 s" using nth_mem[OF ra(3)] by (auto simp: visible_def)
    let ?r' = "(arys h2 ! a)\<lparr>ptr := ptr ?rq, alen := alen ?rq, aaux := Shared_by s, elts_shared := True\<rparr>"
    define bs where "bs = (case blk (arys h2 ! a) of None \<Rightarrow> bufs h2 | Some b \<Rightarrow> (bufs h2)[b := []])"
    let ?h3 = "h2\<lparr>bufs := bs, arys := (arys h2)[a := ?r']\<rparr>"
    have bsl: "length bs = length (bufs h2)" "\<And>b. blk (arys h2 ! a) \<noteq> Some b \<Longrightarrow> bs ! b = bufs h2 ! b"
      by (auto simp: bs_def split: option.splits)
    have free: "(if ptr (arys h2 ! a) \<noteq> NULL \<and> \<not> elts_shared (arys h2 ! a) then free_block (ptr (arys h2 ! a)) else ret ()) h2 =
        (Inr (), h2\<lparr>bufs := bs\<rparr>)"
      using owned_shape(2,5)[OF h2(2) own] by (auto simp: free_block_def bs_def blk_def)
    have run: "rb_ary_replace a (Ary q) h = (Inr a, ?h3)"
    proof -
      define fr where "fr = (if ptr (arys h2 ! a) \<noteq> NULL \<and> \<not> elts_shared (arys h2 ! a) then free_block (ptr (arys h2 ! a)) else ret ())"
      have ne: "\<not> a = q" using False by simp
      have "rb_ary_replace a (Ary q) h = bind (get_ary q) (\<lambda>r. bind (upd_ary a (\<lambda>c. c\<lparr>ptr := ptr r, alen := alen r,
          aaux := Shared_by s, elts_shared := True\<rparr>)) (\<lambda>_. ret a)) (h2\<lparr>bufs := bs\<rparr>)"
        using free[folded fr_def] ra(2,3) h1(1) h2(1)
        by (simp only: rb_ary_replace_def to_ary_def VALUE.case heap_run object_access prod.case sum.case if_not_P[OF ne]
              fr_def[symmetric])
      also have "\<dots> = (Inr a, ?h3)" using ra(2,3) by simp
      finally show ?thesis .
    qed
    note rq = heap_okD(1)[OF h2(2) ra(3)]
    have nb: "blk (arys h2 ! a) \<noteq> Some b" if "ptr ?rq = Ptr b off" for b off
      using owned_exclusive[OF h2(2) own ra(3), of b] False that by (auto simp: blk_def)
    have cells: "cells bs ?r' = cells (bufs h2) ?rq"
      using nb bsl by (auto simp: cells_def split: pointer.splits)
    have rep: "rep_ok bs ?r'"
      using rq cells nb bsl shq by (auto simp: rep_ok_def split: pointer.splits)
    have sa: "s \<noteq> a" using h2(8) own by (auto simp: owned_def)
    have bq: "blk ?r' = blk (arys h1 ! q)" using h2(5) by (simp add: blk_def)
    have ok3: "heap_ok ?h3" and fr3: "frame a h2 ?h3"
      using owned_change[OF h2(2) own, of ?h3 ?r'] bsl rep h2(6-9) sa bq hid by auto
    have "ary_list ?h3 a = ary_list h q"
      using ra cells q1(3) h2(4) by (simp add: ary_list_def)
    moreover have "frame a h ?h3" using frame_trans[OF frame_trans[OF h1(4) spec[OF h2(3)]] fr3] .
    ultimately show ?thesis using updatesI[of "rb_ary_replace a (Ary q)"] run ok3 by blast
  qed
qed

lemma emptied:
  assumes ok: "heap_ok h" and own: "owned h a"
    and h': "h' = h\<lparr>arys := (arys h)[a := (arys h ! a)\<lparr>alen := 0\<rparr>]\<rparr>"
  shows "heap_ok h'" "owned h' a" "frame a h h'" "ary_list h' a = []"
proof -
  note a1 = owned_shape(1)[OF ok own]
  let ?r = "(arys h ! a)\<lparr>alen := 0\<rparr>"
  have rep: "rep_ok (bufs h) ?r"
    using heap_okD(1)[OF ok a1] by (auto simp: rep_ok_def cells_def split: pointer.splits)
  show "heap_ok h'" "owned h' a" "frame a h h'"
    using owned_update[OF ok own, of h' ?r] h' rep owned_shape(2)[OF ok own] by (auto simp: blk_def)
  show "ary_list h' a = []" using a1 h' by (auto simp: ary_list_def cells_def split: pointer.splits)
qed

lemma rb_ary_clear_ok:
  assumes ok: "heap_ok h" and w: "writable h a"
  shows "updates (rb_ary_clear a) a h a []"
proof -
  note a = writable_valid[OF w]
  obtain h1 where h1: "rb_ary_modify a h = (Inr (), h1)" "heap_ok h1" "owned h1 a" "frame a h h1"
    using rb_ary_modify_ok[OF ok w] by metis
  note a1 = owned_shape(1)[OF h1(2,3)]
  let ?h2 = "h1\<lparr>arys := (arys h1)[a := (arys h1 ! a)\<lparr>alen := 0\<rparr>]\<rparr>"
  note h2 = emptied(1-3)[OF h1(2,3) refl] and l2 = emptied(4)[OF h1(2,3) refl]
  obtain c where c: "aaux (arys h1 ! a) = Capa c" using owned_shape(4)[OF h1(2,3)] by blast
  define shrink where "shrink = (if ARY_DEFAULT_SIZE * 2 < c then realloc_then_capa a (ARY_DEFAULT_SIZE * 2) else ret ())"
  obtain h3 where h3: "shrink ?h2 = (Inr (), h3)" "heap_ok h3" "frame a ?h2 h3" "ary_list h3 a = []"
  proof (cases "ARY_DEFAULT_SIZE * 2 < c")
    case True
    then show thesis
      using owned_resize[OF h2(1,2), of "ARY_DEFAULT_SIZE * 2"] that l2 a1
      by (auto simp: shrink_def ARY_DEFAULT_SIZE_def)
  next
    case False
    then show thesis using that[of ?h2] h2 l2 by (simp add: shrink_def)
  qed
  have "rb_ary_clear a h = (Inr a, h3)"
    using a1 h1(1) h3(1) c by (simp add: rb_ary_clear_def capa_def shrink_def[symmetric])
  then show ?thesis using updatesI[of "rb_ary_clear a"] h3 frame_trans[OF frame_trans[OF h1(4) h2(3)] h3(3)] by blast
qed

section \<open>New arrays by copying\<close>

lemma fresh_taint:
  assumes f: "fresh_ary h n h1 vs" and own: "owned h1 n"
    and h2_def: "h2 = h1\<lparr>arys := (arys h1)[n := (arys h1 ! n)\<lparr>tainted := t\<rparr>]\<rparr>"
  shows "fresh_ary h n h2 vs" "owned h2 n"
proof -
  let ?r = "(arys h1 ! n)\<lparr>tainted := t\<rparr>"
  have ok: "heap_ok h1" and n: "n < length (arys h1)" using f by (simp_all add: fresh_ary_def)
  have nr: "blk ?r = blk (arys h1 ! n)" "cells (bufs h1) ?r = cells (bufs h1) (arys h1 ! n)"
    by (auto simp: blk_def cells_def split: pointer.splits)
  have rep: "rep_ok (bufs h1) ?r" using heap_okD(1)[OF ok n] nr by (auto simp: rep_ok_def split: pointer.splits)
  have same: "elts_shared (arys h2 ! x) = elts_shared (arys h1 ! x)" "blk (arys h2 ! x) = blk (arys h1 ! x)" for x
    using n nr(1) unfolding h2_def by (cases "x = n"; simp)+
  have "one_owner (arys h2)"
    using ok unfolding heap_ok_def one_owner_def same by (auto simp: h2_def)
  moreover have "share_ok (arys h2) r" if "share_ok (arys h1) r" for r
    unfolding h2_def using share_ok_update[OF that] own by (simp add: owned_def)
  ultimately have "heap_ok h2"
    using ok rep own unfolding heap_ok_def h2_def
    by (auto simp: share_ok_def owned_def dest!: set_update_subset_insert[THEN subsetD])
  moreover have "visible h2 n" if "visible h1 n" for n
    using that own unfolding h2_def by (auto simp: visible_def owned_def dest!: set_update_subset_insert[THEN subsetD])
  ultimately show "fresh_ary h n h2 vs"
    using f n nr(2) unfolding h2_def
    by (auto simp: fresh_ary_def frame_def writable_def ary_list_def nth_list_update)
  show "owned h2 n" using own n by (simp add: owned_def h2_def)
qed

lemma copy_from:
  assumes ok: "heap_ok h" and own: "owned h a" and p: "ptr (arys h ! a) = Ptr b 0"
    and q: "q < length (arys h)" "q \<noteq> a" and i: "i + length (ary_list h q) \<le> length ys"
    and g: "bufs g = (bufs h)[b := ys]" "length ys = length (bufs h ! b)"
  shows "MEMCPY (Ptr b (int i)) (ptr (arys h ! q)) (int (length (ary_list h q))) g =
      (Inr (), g\<lparr>bufs := (bufs h)[b := poke ys i (map Some (ary_list h q))]\<rparr>)"
proof (cases "ary_list h q = []")
  case True
  then show ?thesis using g by (simp add: MEMCPY_def MEMMOVE_def load_def fill_cells_def poke_def)
next
  case False
  have bl: "b < length (bufs h)" using owned_cells(3)[OF ok own p] .
  have "load (ptr (arys h ! q)) (int (length (ary_list h q))) g = (Inr (map Some (ary_list h q)), g)"
    using source_load[OF ok own p q(1) False g] q(2) by simp
  moreover have "\<not> overlap (Ptr b (int i)) (ptr (arys h ! q)) (int (length (ary_list h q)))"
    using owned_exclusive[OF ok own q, of b] p by (auto simp: overlap_def blk_def split: pointer.splits)
  moreover have "fill_cells (Ptr b (int i)) (map Some (ary_list h q)) g =
      (Inr (), g\<lparr>bufs := (bufs h)[b := poke ys i (map Some (ary_list h q))]\<rparr>)"
    using fill_cells_run[of b g "int i" "map Some (ary_list h q)"] g i bl by simp
  ultimately show ?thesis by (simp add: MEMCPY_def MEMMOVE_def)
qed

text \<open>A new array whose block has been filled from the start.\<close>

lemma fresh_filled:
  assumes f: "fresh_ary h n h1 []" and own: "owned h1 n" and p: "ptr (arys h1 ! n) = Ptr b 0"
    and ys: "length ys = length (bufs h1 ! b)" "take (length vs) ys = map Some vs"
  shows "fresh_ary h n (h1\<lparr>bufs := (bufs h1)[b := ys], arys := (arys h1)[n := (arys h1 ! n)\<lparr>alen := int (length vs)\<rparr>]\<rparr>) vs"
    "owned (h1\<lparr>bufs := (bufs h1)[b := ys], arys := (arys h1)[n := (arys h1 ! n)\<lparr>alen := int (length vs)\<rparr>]\<rparr>) n"
proof -
  let ?h2 = "h1\<lparr>bufs := (bufs h1)[b := ys], arys := (arys h1)[n := (arys h1 ! n)\<lparr>alen := int (length vs)\<rparr>]\<rparr>"
  have ok: "heap_ok h1" using f by (simp add: fresh_ary_def)
  note w = owned_write[OF ok own p ys refl, of ?h2]
  show "fresh_ary h n ?h2 vs" using fresh_ary_extend[OF f, of ?h2 vs] w by simp
  show "owned ?h2 n" using w by simp
qed

lemma rb_ary_dup_ok:
  assumes ok: "heap_ok h" and a: "a < length (arys h)"
  obtains h' where "rb_ary_dup a h = (Inr (length (arys h)), h')" "fresh_ary h (length (arys h)) h' (ary_list h a)"
    "owned h' (length (arys h))" "tmplock (arys h' ! length (arys h)) = False"
proof -
  let ?n = "length (arys h)" and ?vs = "ary_list h a" and ?t = "tainted (arys h ! a)"
  note len = length_ary_list[OF ok a, symmetric] and bound = alen_bound[OF ok a]
  obtain h1 b where h1: "ary_new (alen (arys h ! a)) h = (Inr ?n, h1)" "fresh_ary h ?n h1 []" "owned h1 ?n"
    "ptr (arys h1 ! ?n) = Ptr b 0" "length (bufs h1 ! b) = nat (if alen (arys h ! a) = 0 then 1 else alen (arys h ! a))"
    "tmplock (arys h1 ! ?n) = False" "\<forall>x < length (arys h). arys h1 ! x = arys h ! x"
    using ary_new_ok[OF ok conjunct1[OF bound] conjunct2[OF bound]] by blast
  define h2 where "h2 = h1\<lparr>arys := (arys h1)[?n := (arys h1 ! ?n)\<lparr>tainted := ?t\<rparr>]\<rparr>"
  note f2 = fresh_taint[OF h1(2,3) h2_def]
  have n1: "?n < length (arys h1)" "?n < length (arys h2)" "a < length (arys h2)" "heap_ok h2"
    using f2 h1(2) a by (auto simp: fresh_ary_def)
  have r2: "ptr (arys h2 ! ?n) = Ptr b 0" "arys h2 ! a = arys h ! a" "bufs h2 = bufs h1" "tmplock (arys h2 ! ?n) = False"
    using h1(4,6,7) n1(1) a by (simp_all add: h2_def)
  have l2: "ary_list h2 a = ?vs" using fresh_aryD(1)[OF f2(1) a] .
  let ?ys = "poke (bufs h2 ! b) 0 (map Some ?vs)"
  have room: "length ?vs \<le> length (bufs h2 ! b)" using h1(5) len r2(3) by auto
  have an: "a \<noteq> ?n" using a by simp
  have cp: "MEMCPY (Ptr b 0) (ptr (arys h ! a)) (int (length ?vs)) h2 = (Inr (), h2\<lparr>bufs := (bufs h2)[b := ?ys]\<rparr>)"
    using copy_from[OF n1(4) f2(2) r2(1) n1(3) an, of 0 "bufs h2 ! b" h2] room unfolding l2 r2(2) by simp
  have ys: "length ?ys = length (bufs h2 ! b)" "take (length ?vs) ?ys = map Some ?vs"
    using room take_poke_end[of 0 "bufs h2 ! b" "map Some ?vs"] by simp_all
  let ?h3 = "h2\<lparr>bufs := (bufs h2)[b := ?ys], arys := (arys h2)[?n := (arys h2 ! ?n)\<lparr>alen := int (length ?vs)\<rparr>]\<rparr>"
  have "upd_ary ?n (\<lambda>x. x\<lparr>tainted := ?t\<rparr>) h1 = (Inr (), h2)" using n1(1) by (simp add: h2_def)
  then have "rb_ary_dup a h = (Inr ?n, ?h3)"
    using a n1(2) h1(1) r2(1) cp by (simp add: rb_ary_dup_def rb_ary_new2_def len del: object_access(2))
      (simp add: n1(2))
  then show thesis
    using that[of ?h3] fresh_filled[OF f2(1,2) r2(1) ys] n1(2) r2(4) by simp
qed

lemma rb_ary_plus_ok:
  assumes ok: "heap_ok h" and x: "x < length (arys h)" and y: "y < length (arys h)"
    and n: "4 * int (length (ary_list h x) + length (ary_list h y)) < 2147483648"
  obtains h' where "rb_ary_plus x (Ary y) h = (Inr (length (arys h)), h')"
    "fresh_ary h (length (arys h)) h' (ary_list h x @ ary_list h y)"
proof -
  let ?n = "length (arys h)" and ?vx = "ary_list h x" and ?vy = "ary_list h y"
  let ?l = "int (length ?vx + length ?vy)"
  note lx = length_ary_list[OF ok x, symmetric] and ly = length_ary_list[OF ok y, symmetric]
  have s: "s32 (alen (arys h ! x) + alen (arys h ! y)) = ?l" using lx ly n by (simp add: s32_id)
  obtain h1 b where h1: "ary_new ?l h = (Inr ?n, h1)" "fresh_ary h ?n h1 []" "owned h1 ?n"
    "ptr (arys h1 ! ?n) = Ptr b 0" "length (bufs h1 ! b) = nat (if ?l = 0 then 1 else ?l)"
    "\<forall>z < length (arys h). arys h1 ! z = arys h ! z"
    using ary_new_ok[OF ok _ n] by (metis of_nat_0_le_iff)
  have ok1: "heap_ok h1" and n1: "?n < length (arys h1)" using h1(2) by (simp_all add: fresh_ary_def)
  have rx: "arys h1 ! x = arys h ! x" "ary_list h1 x = ?vx" "x < length (arys h1)" "x \<noteq> ?n"
    using h1(6) x fresh_aryD[OF h1(2) x] by simp_all
  have ry: "arys h1 ! y = arys h ! y" "ary_list h1 y = ?vy" "y < length (arys h1)" "y \<noteq> ?n"
    using h1(6) y fresh_aryD[OF h1(2) y] by simp_all
  let ?xs = "bufs h1 ! b"
  have room: "length ?vx + length ?vy \<le> length ?xs" using h1(5) by auto
  define ys where "ys = poke ?xs 0 (map Some ?vx)"
  define zs where "zs = poke ys (length ?vx) (map Some ?vy)"
  have yl: "length ys = length ?xs" "take (length ?vx) ys = map Some ?vx"
    using room take_poke_end[of 0 ?xs "map Some ?vx"] by (simp_all add: ys_def)
  have zl: "length zs = length ?xs" "take (length (?vx @ ?vy)) zs = map Some (?vx @ ?vy)"
    using room yl take_poke_end[of "length ?vx" ys "map Some ?vy"] by (simp_all add: zs_def)
  define h2 where "h2 = h1\<lparr>bufs := (bufs h1)[b := ys]\<rparr>"
  define h3 where "h3 = h1\<lparr>bufs := (bufs h1)[b := zs]\<rparr>"
  have cx: "MEMCPY (Ptr b 0) (ptr (arys h ! x)) (alen (arys h ! x)) h1 = (Inr (), h2)"
    using copy_from[OF ok1 h1(3,4) rx(3,4), of 0 ?xs h1] room unfolding rx(1,2) by (simp add: lx h2_def ys_def)
  have cy: "MEMCPY (Ptr b (alen (arys h ! x))) (ptr (arys h ! y)) (alen (arys h ! y)) h2 = (Inr (), h3)"
    using copy_from[OF ok1 h1(3,4) ry(3,4), of "length ?vx" ys h2] room yl unfolding ry(1,2)
    by (simp add: lx ly h2_def h3_def zs_def)
  have "rb_ary_plus x (Ary y) h = (Inr ?n, h3\<lparr>arys := (arys h3)[?n := (arys h3 ! ?n)\<lparr>alen := ?l\<rparr>]\<rparr>)"
    using x y n1 h1(1,4) cx cy
    by (simp add: rb_ary_plus_def to_ary_def s[simplified] rb_ary_new2_def ptr_add_def h3_def Let_def)
  then show thesis
    using that fresh_filled(1)[OF h1(2-4) zl] by (simp add: h3_def)
qed

lemma poke_append:
  assumes "i + length us \<le> length ys"
  shows "poke (poke ys i us) (i + length us) zs = poke ys i (us @ zs)"
  using assms by (simp add: poke_def ac_simps)

lemma times_loop_run:
  assumes ok: "heap_ok h" and own: "owned h a" and p: "ptr (arys h ! a) = Ptr b 0"
    and q: "q < length (arys h)" "q \<noteq> a" "ary_list h q = vs" "vs \<noteq> []"
    and g: "bufs g = (bufs h)[b := ys]" "length ys = length (bufs h ! b)" "i + m * length vs \<le> length ys"
  shows "times_loop (Ptr b 0) (arys h ! q) (int i) (int (i + m * length vs)) g =
      (Inr (), g\<lparr>bufs := (bufs h)[b := poke ys i (map Some (concat (replicate m vs)))]\<rparr>)"
  using g
proof (induction m arbitrary: i ys g)
  case 0
  then show ?case by (subst times_loop.simps) (simp add: poke_def)
next
  case (Suc m)
  have l: "alen (arys h ! q) = int (length vs)" "0 < length vs" using length_ary_list[OF ok q(1)] q(3,4) by simp_all
  let ?g1 = "g\<lparr>bufs := (bufs h)[b := poke ys i (map Some vs)]\<rparr>"
  have cp: "MEMCPY (Ptr b (int i)) (ptr (arys h ! q)) (int (length vs)) g = (Inr (), ?g1)"
    using copy_from[OF ok own p q(1,2), of i ys g] Suc.prems q(3) by simp
  have yl: "length (poke ys i (map Some vs)) = length ys" using Suc.prems(3) by simp
  have "times_loop (Ptr b 0) (arys h ! q) (int (i + length vs)) (int (i + length vs + m * length vs)) ?g1 =
      (Inr (), ?g1\<lparr>bufs := (bufs h)[b := poke (poke ys i (map Some vs)) (i + length vs) (map Some (concat (replicate m vs)))]\<rparr>)"
    using Suc.IH[of ?g1 "poke ys i (map Some vs)" "i + length vs"] Suc.prems yl by (simp add: add.assoc)
  moreover have "poke (poke ys i (map Some vs)) (i + length vs) (map Some (concat (replicate m vs))) =
      poke ys i (map Some (concat (replicate (Suc m) vs)))"
    using Suc.prems(3) poke_append[of i "map Some vs" ys "map Some (concat (replicate m vs))"] by simp
  moreover have "0 < int (length vs) + int m * int (length vs)" using l(2) by (simp add: add_pos_nonneg)
  ultimately show ?case
    using cp l by (subst times_loop.simps) (simp add: ptr_add_def add.assoc)
qed

lemma rb_ary_times_ok:
  assumes ok: "heap_ok h" and a: "a < length (arys h)" and k: "0 \<le> k"
    and n: "4 * (k * int (length (ary_list h a))) < 2147483648" "k < 2147483648"
  obtains h' where "rb_ary_times a (Num (Fixnum k)) h = (Inr (length (arys h)), h')"
    "fresh_ary h (length (arys h)) h' (concat (replicate (nat k) (ary_list h a)))"
proof (cases "k = 0 \<or> ary_list h a = []")
  case True
  obtain h' where h': "ary_new 0 h = (Inr (length (arys h)), h')" "fresh_ary h (length (arys h)) h' []"
    "owned h' (length (arys h))" "alen (arys h' ! length (arys h)) = 0"
    using ary_new_ok[OF ok, of 0] by auto
  show thesis
  proof (cases "k = 0")
    case k0: True
    then have "rb_ary_times a (Num (Fixnum k)) h = (Inr (length (arys h)), h')" using h'(1) by (simp add: rb_ary_times_def)
    then show thesis using that h'(2) k0 by simp
  next
    case False
    then have e: "ary_list h a = []" "alen (arys h ! a) = 0" using True length_ary_list[OF ok a] by simp_all
    let ?n = "length (arys h)"
    let ?t = "tainted (arys h' ! ?n) \<or> tainted (arys h ! a)"
    have n1: "?n < length (arys h')" using h'(2) by (simp add: fresh_ary_def)
    have id: "(arys h')[?n := (arys h' ! ?n)\<lparr>alen := 0\<rparr>] = arys h'" using alen_same[OF h'(4)] by simp
    have "0 \<le> c_quot 2147483647 k" using k False by (simp add: c_quot_nonneg pos_imp_zdiv_nonneg_iff)
    then have "rb_ary_times a (Num (Fixnum k)) h =
        (Inr ?n, h'\<lparr>arys := (arys h')[?n := (arys h' ! ?n)\<lparr>tainted := ?t\<rparr>]\<rparr>)"
      using False k a h'(1) n1 e(2) id
      by (simp add: rb_ary_times_def times_loop.simps Let_def)
    then show thesis using that fresh_taint(1)[OF h'(2,3) refl] e(1) by simp
  qed
next
  case False
  let ?n = "length (arys h)" and ?vs = "ary_list h a"
  let ?l = "k * int (length ?vs)"
  have k1: "0 < k" using k False by simp
  note len = length_ary_list[OF ok a, symmetric]
  have l0: "0 \<le> ?l" "?l \<noteq> 0" using k False by simp_all
  obtain h1 b where h1: "ary_new ?l h = (Inr ?n, h1)" "fresh_ary h ?n h1 []" "owned h1 ?n"
    "ptr (arys h1 ! ?n) = Ptr b 0" "length (bufs h1 ! b) = nat (if ?l = 0 then 1 else ?l)"
    "\<forall>z < length (arys h). arys h1 ! z = arys h ! z"
    using ary_new_ok[OF ok l0(1) n(1)] by metis
  have ok1: "heap_ok h1" and n1: "?n < length (arys h1)" using h1(2) by (simp_all add: fresh_ary_def)
  have ra: "arys h1 ! a = arys h ! a" "ary_list h1 a = ?vs" "a < length (arys h1)" "a \<noteq> ?n"
    using h1(6) a fresh_aryD[OF h1(2) a] by simp_all
  let ?vv = "concat (replicate (nat k) ?vs)"
  have lv: "length ?vv = nat k * length ?vs" "int (length ?vv) = ?l"
    using k by (simp_all add: length_concat sum_list_replicate)
  have room: "nat k * length ?vs \<le> length (bufs h1 ! b)" using h1(5) l0 lv by (simp, linarith)
  define g where "g = h1\<lparr>arys := (arys h1)[?n := (arys h1 ! ?n)\<lparr>alen := ?l\<rparr>]\<rparr>"
  define ys where "ys = poke (bufs h1 ! b) 0 (map Some ?vv)"
  have yl: "length ys = length (bufs h1 ! b)" "take (length ?vv) ys = map Some ?vv"
    using room lv take_poke_end[of 0 "bufs h1 ! b" "map Some ?vv"] by (simp_all add: ys_def)
  have bg: "bufs g = (bufs h1)[b := bufs h1 ! b]" by (simp add: g_def)
  have loop: "times_loop (Ptr b 0) (arys h ! a) 0 ?l g = (Inr (), g\<lparr>bufs := (bufs h1)[b := ys]\<rparr>)"
    using times_loop_run[OF ok1 h1(3,4) ra(3,4,2) _ bg, of 0 "nat k"] False room k unfolding ra(1)
    by (simp add: ys_def)
  let ?h3 = "h1\<lparr>bufs := (bufs h1)[b := ys], arys := (arys h1)[?n := (arys h1 ! ?n)\<lparr>alen := int (length ?vv)\<rparr>]\<rparr>"
  let ?t = "tainted (arys ?h3 ! ?n) \<or> tainted (arys h ! a)"
  note f3 = fresh_filled[OF h1(2-4) yl]
  have fit: "\<not> c_quot 2147483647 k < int (length ?vs)"
  proof -
    have "int (length ?vs) * k \<le> 2147483647" using n(1) by (simp add: mult.commute)
    then have "int (length ?vs) \<le> 2147483647 div k" using k1 by (metis zdiv_mono1 nonzero_mult_div_cancel_right less_irrefl)
    then show ?thesis using k1 by (simp add: c_quot_nonneg)
  qed
  have run: "rb_ary_times a (Num (Fixnum k)) h = (Inr ?n, ?h3\<lparr>arys := (arys ?h3)[?n := (arys ?h3 ! ?n)\<lparr>tainted := ?t\<rparr>]\<rparr>)"
    using False k1 a n1 h1(1,4) loop fit lv(2) by (simp add: rb_ary_times_def len g_def Let_def)
  show thesis using that[OF run] fresh_taint(1)[OF f3 refl] by blast
qed

section \<open>Reversal in place\<close>

lemma cell_at:
  assumes "b < length (bufs g)" "i < length (bufs g ! b)" "bufs g ! b ! i = Some v"
  shows "cell (Ptr b 0) (int i) g = (Inr v, g)"
  using assms by (simp add: cell_def ptr_add_def load_def in_block_def take_Suc_conv_app_nth)

lemma set_cell_at:
  assumes "b < length (bufs g)" "i < length (bufs g ! b)"
  shows "set_cell (Ptr b 0) (int i) v g = (Inr (), g\<lparr>bufs := (bufs g)[b := (bufs g ! b)[i := Some v]]\<rparr>)"
proof -
  have "poke (bufs g ! b) i [Some v] = (bufs g ! b)[i := Some v]"
    using assms(2) by (simp add: poke_def upd_conv_take_nth_drop)
  then show ?thesis using fill_cells_run[of b g "int i" "[Some v]"] assms by (simp add: set_cell_def ptr_add_def)
qed

lemma reverse_loop_run:
  assumes "b < length (bufs g)" "bufs g ! b = ps @ map Some seg @ qs"
  shows "reverse_loop (Ptr b 0) (int (length ps)) (int (length ps) + int (length seg) - 1) g =
      (Inr (), g\<lparr>bufs := (bufs g)[b := ps @ map Some (rev seg) @ qs]\<rparr>)"
  using assms
proof (induction "length seg" arbitrary: seg ps qs g rule: less_induct)
  case less
  show ?case
  proof (cases "length seg \<le> 1")
    case True
    then have "rev seg = seg" by (cases seg) auto
    moreover have "\<not> int (length ps) < int (length ps) + int (length seg) - 1" using True by simp
    moreover have "g\<lparr>bufs := (bufs g)[b := bufs g ! b]\<rparr> = g" by simp
    ultimately show ?thesis using less.prems by (subst reverse_loop.simps) simp
  next
    case False
    then obtain x mid y where seg: "seg = x # mid @ [y]"
      by (cases seg) (auto, metis append_butlast_last_id)
    let ?i = "length ps" and ?j = "Suc (length ps + length mid)"
    let ?xs = "bufs g ! b"
    have xs: "?xs = ps @ Some x # map Some mid @ Some y # qs" using less.prems(2) seg by simp
    have idx: "int (length ps) + int (length seg) - 1 = int ?j" using seg by simp
    have rd: "cell (Ptr b 0) (int ?i) g = (Inr x, g)" "cell (Ptr b 0) (int ?j) g = (Inr y, g)"
      by (rule cell_at[OF less.prems(1)]; simp add: xs nth_append)+
    let ?g1 = "g\<lparr>bufs := (bufs g)[b := ps @ Some y # map Some mid @ Some y # qs]\<rparr>"
    let ?g2 = "g\<lparr>bufs := (bufs g)[b := ps @ Some y # map Some mid @ Some x # qs]\<rparr>"
    have w1: "set_cell (Ptr b 0) (int ?i) y g = (Inr (), ?g1)"
      using set_cell_at[of b g ?i y] less.prems(1) xs by simp
    have w2: "set_cell (Ptr b 0) (int ?j) x ?g1 = (Inr (), ?g2)"
      using set_cell_at[of b ?g1 ?j x] less.prems(1) by (simp add: list_update_append)
    have "reverse_loop (Ptr b 0) (int (length (ps @ [Some y]))) (int (length (ps @ [Some y])) + int (length mid) - 1) ?g2 =
        (Inr (), ?g2\<lparr>bufs := (bufs ?g2)[b := (ps @ [Some y]) @ map Some (rev mid) @ Some x # qs]\<rparr>)"
      using less.hyps[of mid ?g2 "ps @ [Some y]" "Some x # qs"] seg less.prems(1) by simp
    then have rest: "reverse_loop (Ptr b 0) (int ?i + 1) (int ?j - 1) ?g2 =
        (Inr (), g\<lparr>bufs := (bufs g)[b := ps @ map Some (rev seg) @ qs]\<rparr>)"
      using seg by (simp add: add.commute)
    have "int ?i < int ?j" by simp
    then show ?thesis
      unfolding idx by (subst reverse_loop.simps) (simp only: heap_run rd w1 w2 rest prod.case sum.case if_True)
  qed
qed

lemma rb_ary_reverse_owned:
  assumes ok: "heap_ok h" and own: "owned h a"
  shows "writes (bind (get_ary a) (\<lambda>r. bind (if alen r > 1 then reverse_loop (ptr r) 0 (alen r - 1) else ret ()) (\<lambda>_. ret a)))
      a h a (rev (ary_list h a))"
proof -
  note a = owned_shape(1,2)[OF ok own]
  note len = length_ary_list[OF ok a(1), symmetric]
  show ?thesis
  proof (cases "length (ary_list h a) \<le> 1")
    case True
    then have "rev (ary_list h a) = ary_list h a" by (cases "ary_list h a") auto
    then show ?thesis using True a ok len by (simp add: writes_def updates_def)
  next
    case False
    then have "ary_list h a \<noteq> []" by auto
    then obtain b where p: "ptr (arys h ! a) = Ptr b 0" using owned_block[OF ok own] by blast
    note o = owned_cells[OF ok own p]
    let ?vs = "ary_list h a" and ?qs = "drop (length (ary_list h a)) (bufs h ! b)"
    have xs: "bufs h ! b = [] @ map Some ?vs @ ?qs"
      using o(1) len append_take_drop_id[of "length ?vs" "bufs h ! b"] by simp
    let ?ys = "map Some (rev ?vs) @ ?qs"
    have loop: "reverse_loop (Ptr b 0) 0 (int (length ?vs) - 1) h = (Inr (), h\<lparr>bufs := (bufs h)[b := ?ys]\<rparr>)"
      using reverse_loop_run[OF o(3) xs] by simp
    have id: "(arys h)[a := (arys h ! a)\<lparr>alen := int (length ?vs)\<rparr>] = arys h" using alen_same[OF len] by simp
    show ?thesis
    proof (rule writes_write[OF ok own p])
      show "bind (get_ary a) (\<lambda>r. bind (if alen r > 1 then reverse_loop (ptr r) 0 (alen r - 1) else ret ()) (\<lambda>_. ret a)) h =
          (Inr a, h\<lparr>bufs := (bufs h)[b := ?ys], arys := (arys h)[a := (arys h ! a)\<lparr>alen := int (length ?vs)\<rparr>]\<rparr>)"
        using a(1) p loop False len id by simp
      show "length ?ys = length (bufs h ! b)" using o(4) by simp
    qed simp_all
  qed
qed

lemma rb_ary_reverse_ok:
  assumes ok: "heap_ok h" and w: "writable h a"
  shows "updates (rb_ary_reverse a) a h a (rev (ary_list h a))"
proof -
  obtain h1 where h1: "rb_ary_modify a h = (Inr (), h1)" "heap_ok h1" "owned h1 a" "frame a h h1"
    "ary_list h1 a = ary_list h a"
    using rb_ary_modify_ok[OF ok w] by metis
  have "rb_ary_reverse a h = (bind (get_ary a) (\<lambda>r. bind (if alen r > 1 then reverse_loop (ptr r) 0 (alen r - 1) else ret ()) (\<lambda>_. ret a))) h1"
    using h1(1) by (simp only: rb_ary_reverse_def heap_run prod.case sum.case)
  with writes_updates[OF rb_ary_reverse_owned[OF h1(2,3)]] h1(4)
  have "updates (rb_ary_reverse a) a h a (rev (ary_list h1 a))" by (rule updates_from)
  then show ?thesis using h1(5) by simp
qed

lemma rb_ary_reverse_m_ok:
  assumes ok: "heap_ok h" and a: "a < length (arys h)" and s: "safe_level h < 4"
  obtains h' where "rb_ary_reverse_m a h = (Inr (length (arys h)), h')"
    "fresh_ary h (length (arys h)) h' (rev (ary_list h a))"
proof -
  let ?n = "length (arys h)"
  obtain h1 where h1: "rb_ary_dup a h = (Inr ?n, h1)" "fresh_ary h ?n h1 (ary_list h a)"
    using rb_ary_dup_ok[OF ok a] by blast
  have "updates (rb_ary_reverse ?n) ?n h1 ?n (rev (ary_list h a))"
    using rb_ary_reverse_ok[of h1 ?n] h1(2) s by (simp add: fresh_ary_def)
  then obtain h2 where h2: "rb_ary_reverse ?n h1 = (Inr ?n, h2)" "heap_ok h2" "frame ?n h1 h2"
    "ary_list h2 ?n = rev (ary_list h a)" by (rule updatesE)
  show thesis
    by (rule that[of h2]) (use h1(1) h2 fresh_ary_extend[OF h1(2) h2(3,2,4)] in \<open>simp_all add: rb_ary_reverse_m_def\<close>)
qed

section \<open>Filling and initialising\<close>

definition fill_list :: "VALUE list \<Rightarrow> nat \<Rightarrow> nat \<Rightarrow> VALUE \<Rightarrow> VALUE list" where
  "fill_list vs beg n v =
     (if beg + n \<le> length vs then take beg vs @ replicate n v @ drop (beg + n) vs
      else take beg (vs @ replicate (beg - length vs) Qnil) @ replicate n v)"

lemma fill_cells_list:
  assumes xs: "take (length vs) xs = map Some vs" "length vs \<le> length xs" and m: "m = max (beg + n) (length vs)" "m \<le> length xs"
    and xs1: "xs1 = (if beg > length vs then poke xs (length vs) (replicate (beg + n - length vs) (Some Qnil)) else xs)"
  shows "length xs1 = length xs" "length (fill_list vs beg n v) = m"
    "take m (poke xs1 beg (replicate n (Some v))) = map Some (fill_list vs beg n v)"
proof -
  show l1: "length xs1 = length xs" using m xs(2) by (auto simp: xs1)
  show "length (fill_list vs beg n v) = m" using m by (auto simp: fill_list_def)
  show "take m (poke xs1 beg (replicate n (Some v))) = map Some (fill_list vs beg n v)"
  proof (cases "beg + n \<le> length vs")
    case True
    then have "xs1 = xs" "m = length vs" using m by (auto simp: xs1)
    moreover have "take beg xs = map Some (take beg vs)"
      using xs(1) True by (metis add_leD1 min.absorb1 take_map take_take)
    ultimately show ?thesis using True xs take_poke_beyond[of beg "replicate n (Some v)" "length vs" xs]
      by (simp add: fill_list_def drop_map)
  next
    case False
    then have mm: "m = beg + n" using m by simp
    have "take beg xs1 = map Some (take beg (vs @ replicate (beg - length vs) Qnil))"
    proof (cases "beg > length vs")
      case True
      have "take beg xs1 = take (length vs) xs @ take (beg - length vs) (replicate (beg + n - length vs) (Some Qnil))"
        using True xs(2) unfolding xs1 if_P[OF True] by (intro take_poke_mid) simp_all
      then show ?thesis using True xs(1) by (simp add: take_replicate min_def)
    next
      case le: False
      then have "xs1 = xs" by (simp add: xs1)
      moreover have "take beg xs = map Some (take beg vs)"
        using xs(1) le by (metis min.absorb1 not_le take_map take_take)
      ultimately show ?thesis using le by simp
    qed
    then show ?thesis using take_poke_end[of beg xs1 "replicate n (Some v)"] l1 m mm False
      by (simp add: fill_list_def)
  qed
qed

lemma fill_range_ok:
  assumes ok: "heap_ok h" and w: "writable h a" and n: "4 * int (beg + n) < 2147483648"
  shows "updates (fill_range (Inl v) a (int beg) (int n)) a h a (fill_list (ary_list h a) beg n v)"
proof -
  obtain h1 where h1: "rb_ary_modify a h = (Inr (), h1)" "heap_ok h1" "owned h1 a" "frame a h h1"
    "ary_list h1 a = ary_list h a"
    using rb_ary_modify_ok[OF ok w] by metis
  note a1 = owned_shape(1)[OF h1(2,3)] and len1 = length_ary_list[OF h1(2) owned_shape(1)[OF h1(2,3)], symmetric]
  let ?vs = "ary_list h1 a" and ?e = "int (beg + n)"
  have s: "s32 (int beg + int n) = ?e" using n by (simp add: s32_id)
  obtain c where c: "aaux (arys h1 ! a) = Capa c" "alen (arys h1 ! a) \<le> c" using owned_shape(4)[OF h1(2,3)] by blast
  define grow where "grow = (if ?e > alen (arys h1 ! a) then
         bind (lift (capa (arys h1 ! a))) (\<lambda>c.
         bind (if ?e \<ge> c then realloc_then_capa a ?e else ret ()) (\<lambda>_.
         bind (get_ary a) (\<lambda>r.
         bind (if int beg > alen r then rb_mem_clear (ptr_add (ptr r) (alen r)) (?e - alen r) else ret ()) (\<lambda>_.
         upd_ary a (\<lambda>r. r\<lparr>alen := ?e\<rparr>)))))
       else ret ())"
  define m where "m = max (beg + n) (length ?vs)"
  have body: "fill_range (Inl v) a (int beg) (int n) h = (bind grow (\<lambda>_. bind (get_ary a) (\<lambda>r.
      bind (if int n > 0 then memfill (ptr_add (ptr r) (int beg)) (int n) v else ret ()) (\<lambda>_. ret a)))) h1"
    using h1(1) a1 by (simp only: fill_range_def Let_def s heap_run object_access prod.case sum.case grow_def)
  have "\<exists>h2 b xs1. heap_ok h2 \<and> owned h2 a \<and> frame a h1 h2 \<and> ary_list h2 a = ?vs \<and>
      (m > 0 \<longrightarrow> ptr (arys h2 ! a) = Ptr b 0 \<and> m \<le> length (bufs h2 ! b)) \<and>
      xs1 = (if beg > length ?vs then poke (bufs h2 ! b) (length ?vs) (replicate (beg + n - length ?vs) (Some Qnil)) else bufs h2 ! b) \<and>
      grow h1 = (Inr (), h2\<lparr>bufs := (bufs h2)[b := xs1], arys := (arys h2)[a := (arys h2 ! a)\<lparr>alen := int m\<rparr>]\<rparr>)"
  proof (cases "beg + n > length ?vs")
    case False
    then have "grow h1 = (Inr (), h1)" "m = length ?vs" using len1 by (simp_all add: grow_def m_def)
    moreover have "(arys h1)[a := (arys h1 ! a)\<lparr>alen := int (length ?vs)\<rparr>] = arys h1" using alen_same[OF len1] by simp
    moreover obtain b where "length ?vs > 0 \<longrightarrow> ptr (arys h1 ! a) = Ptr b 0 \<and> length ?vs \<le> length (bufs h1 ! b)"
    proof (cases "?vs = []")
      case True then show thesis using that by simp
    next
      case ne: False
      obtain b where p: "ptr (arys h1 ! a) = Ptr b 0" using owned_block[OF h1(2,3) ne] .
      then show thesis using that owned_cells(4)[OF h1(2,3) p] by blast
    qed
    ultimately show ?thesis using h1(2,3) False
      by (intro exI[of _ h1] exI[of _ b] exI[of _ "bufs h1 ! b"]) simp
  next
    case True
    then have mm: "m = beg + n" "0 < c \<or> ?e \<ge> c" using c len1 by (auto simp: m_def)
    obtain h2 b where h2: "(if ?e \<ge> c then realloc_then_capa a ?e else ret ()) h1 = (Inr (), h2)" "heap_ok h2" "owned h2 a"
      "frame a h1 h2" "ary_list h2 a = ?vs" "ptr (arys h2 ! a) = Ptr b 0" "?e \<le> int (length (bufs h2 ! b))"
      using ensure_room[OF h1(2,3) n c(1)] mm(2) by metis
    note a2 = owned_shape(1)[OF h2(2,3)] and o = owned_cells[OF h2(2,3,6)]
    have l2: "alen (arys h2 ! a) = int (length ?vs)" using length_ary_list[OF h2(2) a2] h2(5) by simp
    define xs1 where "xs1 = (if beg > length ?vs then poke (bufs h2 ! b) (length ?vs) (replicate (beg + n - length ?vs) (Some Qnil)) else bufs h2 ! b)"
    define room where "room = (if ?e \<ge> c then realloc_then_capa a ?e else ret ())"
    define clr where "clr = (if int beg > int (length ?vs) then rb_mem_clear (ptr_add (ptr (arys h2 ! a)) (int (length ?vs))) (?e - int (length ?vs)) else ret ())"
    have k: "nat (int beg + int n - int (length ?vs)) = beg + n - length ?vs" using True by linarith
    have clr: "clr h2 = (Inr (), h2\<lparr>bufs := (bufs h2)[b := xs1]\<rparr>)"
      using fill_cells_run[of b h2 "int (length ?vs)" "replicate (beg + n - length ?vs) (Some Qnil)"] o(3) True h2(6,7)
      by (simp add: clr_def xs1_def rb_mem_clear_def memfill_def ptr_add_def k)
    have gt: "?e > alen (arys h1 ! a)" using True len1 by simp
    have "grow h1 = (bind clr (\<lambda>_. upd_ary a (\<lambda>r. r\<lparr>alen := ?e\<rparr>))) h2"
      using a2 h2(1)[folded room_def]
      by (simp only: grow_def if_P[OF gt] heap_run object_access prod.case sum.case capa_def c(1) aux.case l2 room_def[symmetric] clr_def)
    also have "\<dots> = (Inr (), h2\<lparr>bufs := (bufs h2)[b := xs1], arys := (arys h2)[a := (arys h2 ! a)\<lparr>alen := int m\<rparr>]\<rparr>)"
      using clr a2 mm by simp
    finally show ?thesis using h2 mm(1) xs1_def by (intro exI[of _ h2] exI[of _ b] exI[of _ xs1]) simp
  qed
  then obtain h2 b xs1 where h2: "heap_ok h2" "owned h2 a" "frame a h1 h2" "ary_list h2 a = ?vs"
    "m > 0 \<longrightarrow> ptr (arys h2 ! a) = Ptr b 0 \<and> m \<le> length (bufs h2 ! b)"
    "xs1 = (if beg > length ?vs then poke (bufs h2 ! b) (length ?vs) (replicate (beg + n - length ?vs) (Some Qnil)) else bufs h2 ! b)"
    "grow h1 = (Inr (), h2\<lparr>bufs := (bufs h2)[b := xs1], arys := (arys h2)[a := (arys h2 ! a)\<lparr>alen := int m\<rparr>]\<rparr>)"
    by blast
  note a2 = owned_shape(1)[OF h2(1,2)]
  have l2: "alen (arys h2 ! a) = int (length ?vs)" using length_ary_list[OF h2(1) a2] h2(4) by simp
  have "updates (\<lambda>_. fill_range (Inl v) a (int beg) (int n) h) a h2 a (fill_list ?vs beg n v)"
  proof (cases "m > 0")
    case False
    then have z: "beg = 0" "n = 0" "?vs = []" by (auto simp: m_def)
    then have "xs1 = bufs h2 ! b" "(arys h2)[a := (arys h2 ! a)\<lparr>alen := int m\<rparr>] = arys h2"
      using h2(6) False alen_same[OF l2] by simp_all
    then have "fill_range (Inl v) a (int beg) (int n) h = (Inr a, h2)" using body h2(7) a2 z by simp
    then show ?thesis using h2 z by (intro updatesI) (simp_all add: fill_list_def)
  next
    case True
    then have p: "ptr (arys h2 ! a) = Ptr b 0" and mb: "m \<le> length (bufs h2 ! b)" using h2(5) by simp_all
    note o = owned_cells[OF h2(1,2) p]
    have t: "take (length ?vs) (bufs h2 ! b) = map Some ?vs" "length ?vs \<le> length (bufs h2 ! b)" using o(1,4) l2 h2(4) by simp_all
    note fc = fill_cells_list(1)[OF t m_def mb h2(6)] fill_cells_list(2,3)[OF t m_def mb h2(6), where v = v]
    let ?ys = "poke xs1 beg (replicate n (Some v))"
    let ?g = "h2\<lparr>bufs := (bufs h2)[b := xs1], arys := (arys h2)[a := (arys h2 ! a)\<lparr>alen := int m\<rparr>]\<rparr>"
    have fit: "beg + n \<le> length xs1" using fc(1) mb by (simp add: m_def)
    have "memfill (Ptr b (int beg)) (int n) v ?g = (Inr (), ?g\<lparr>bufs := (bufs h2)[b := ?ys]\<rparr>)"
      using fill_cells_run[of b ?g "int beg" "replicate n (Some v)"] fit o(3) by (simp add: memfill_def)
    moreover have "xs1 = ?ys" if "n = 0" using that by (simp add: poke_def)
    ultimately have run: "fill_range (Inl v) a (int beg) (int n) h = (Inr a, h2\<lparr>bufs := (bufs h2)[b := ?ys],
        arys := (arys h2)[a := (arys h2 ! a)\<lparr>alen := int m\<rparr>]\<rparr>)"
      using body h2(7) a2 p by (cases "n = 0") (simp_all add: ptr_add_def)
    have "writes (\<lambda>_. fill_range (Inl v) a (int beg) (int n) h) a h2 a (fill_list ?vs beg n v)"
      by (rule writes_write[OF h2(1,2) p]) (rule run, use fc fit in simp_all)
    then show ?thesis by (rule writes_updates)
  qed
  from updates_from[OF this frame_trans[OF h1(4) h2(3)], of "fill_range (Inl v) a (int beg) (int n)"]
  show ?thesis using h1(5) by simp
qed

lemma rb_ary_fill_item:
  assumes ok: "heap_ok h" and w: "writable h a" and n: "n \<ge> 0" "b \<ge> 0" "4 * (b + n) < 2147483648"
  shows "updates (rb_ary_fill None [v, Num (Fixnum b), Num (Fixnum n)] a) a h a
      (fill_list (ary_list h a) (nat b) (nat n) v)"
proof -
  have "rb_ary_fill None [v, Num (Fixnum b), Num (Fixnum n)] a h = fill_range (Inl v) a (int (nat b)) (int (nat n)) h"
    using writable_valid[OF w] n by (simp add: rb_ary_fill_def Let_def)
  moreover have "4 * int (nat b + nat n) < 2147483648" using n by simp
  ultimately show ?thesis using fill_range_ok[OF ok w, of "nat b" "nat n" v] by (simp only: updates_def)
qed

lemma rb_ary_fill_all:
  assumes ok: "heap_ok h" and w: "writable h a"
  shows "updates (rb_ary_fill None [v] a) a h a (replicate (length (ary_list h a)) v)"
proof -
  note len = length_ary_list[OF ok writable_valid[OF w]]
  have "rb_ary_fill None [v] a h = fill_range (Inl v) a (int 0) (int (length (ary_list h a))) h"
    using writable_valid[OF w] len by (simp add: rb_ary_fill_def Let_def)
  moreover have "4 * int (0 + length (ary_list h a)) < 2147483648" using alen_bound[OF ok writable_valid[OF w]] len by simp
  ultimately show ?thesis using fill_range_ok[OF ok w, of 0 "length (ary_list h a)" v]
    by (simp add: updates_def fill_list_def)
qed

text \<open>Every operation that starts by unsharing the array is refused, with nothing changed, on one that must not be written.\<close>

definition refuses :: "'a heapM \<Rightarrow> heap \<Rightarrow> bool" where
  "refuses m h \<longleftrightarrow> (\<exists>e \<in> {FrozenError, RuntimeError, SecurityError}. m h = (Inl e, h))"

lemma refuses_modify:
  assumes "a < length (arys h)" "\<not> writable h a"
  shows "refuses (rb_ary_modify a) h" "refuses (rb_ary_modify_check a) h"
  using modify_check_run(2)[OF assms] rb_ary_modify_refused[of a h _ h] by (auto simp: refuses_def)

lemma refuses_bind [intro]: "refuses m h \<Longrightarrow> refuses (bind m k) h"
  by (auto simp: refuses_def)

lemma whole_refused:
  assumes "a < length (arys h)" "\<not> writable h a"
  shows "refuses (rb_ary_replace a v) h" "refuses (rb_ary_clear a) h" "refuses (rb_ary_reverse a) h"
    "refuses (fill_range src a b n) h"
  using refuses_modify(1)[OF assms]
  by (auto simp: rb_ary_replace_def rb_ary_clear_def rb_ary_reverse_def fill_range_def)

lemma rb_ary_initialize_item:
  assumes ok: "heap_ok h" and w: "writable h a" and k: "0 \<le> k" "4 * k < 2147483648"
  shows "updates (rb_ary_initialize None [Num (Fixnum k), v] a) a h a (replicate (nat k) v)"
    (is "updates ?m a h a ?vs")
proof -
  obtain h1 where h1: "rb_ary_modify a h = (Inr (), h1)" "heap_ok h1" "owned h1 a" "frame a h h1"
    using rb_ary_modify_ok[OF ok w] by metis
  obtain c where c: "aaux (arys h1 ! a) = Capa c" "alen (arys h1 ! a) \<le> c" using owned_shape(4)[OF h1(2,3)] by blast
  define room where "room = (if k > c then realloc_then_capa a k else ret ())"
  have fits: "\<not> k < 0" "\<not> (k > 0 \<and> s32 (k * 4) \<le> k)" using k by (auto simp: s32_id)
  have body: "?m h = (bind room (\<lambda>_. bind (get_ary a) (\<lambda>r. bind (bind (memfill (ptr r) k v) (\<lambda>_.
      upd_ary a (\<lambda>r. r\<lparr>alen := k\<rparr>))) (\<lambda>_. ret a)))) h1"
    using owned_shape(1)[OF h1(2,3)] h1(1) c(1) fits
    by (auto simp: rb_ary_initialize_def Let_def capa_def room_def)
  obtain h2 where h2: "room h1 = (Inr (), h2)" "heap_ok h2" "owned h2 a" "frame a h1 h2"
    "k > 0 \<longrightarrow> (\<exists>b. ptr (arys h2 ! a) = Ptr b 0 \<and> k \<le> int (length (bufs h2 ! b)))"
  proof (cases "k > c")
    case True
    have "k \<ge> c" "alen (arys h1 ! a) \<le> k" using True c(2) by simp_all
    from owned_resize[OF h1(2,3) this(2) k(2)] obtain h2 b where
      "realloc_then_capa a k h1 = (Inr (), h2)" "heap_ok h2" "owned h2 a" "frame a h1 h2"
      "arys h2 ! a = (arys h1 ! a)\<lparr>ptr := Ptr b 0, aaux := Capa k\<rparr>" "length (bufs h2 ! b) = nat k" by metis
    then show thesis using that[of h2] True by (simp add: room_def)
  next
    case False
    have "\<exists>b. ptr (arys h1 ! a) = Ptr b 0 \<and> k \<le> int (length (bufs h1 ! b))" if "k > 0"
    proof -
      have "0 < c" using that False by simp
      then obtain b where p: "ptr (arys h1 ! a) = Ptr b 0"
        using owned_shape(2,5)[OF h1(2,3)] c heap_okD(1)[OF h1(2) owned_shape(1)[OF h1(2,3)]] by (auto simp: rep_ok_def)
      then show ?thesis using owned_cells(2)[OF h1(2,3) p] c False by simp
    qed
    then show thesis using that[of h1] h1 False by (simp add: room_def)
  qed
  note a2 = owned_shape(1)[OF h2(2,3)]
  have "updates (\<lambda>_. ?m h) a h2 a ?vs"
  proof (cases "k > 0")
    case False
    then have "?m h = (Inr a, h2\<lparr>arys := (arys h2)[a := (arys h2 ! a)\<lparr>alen := 0\<rparr>]\<rparr>)"
      using body h2(1) a2 k by (simp add: memfill_def fill_cells_def)
    then show ?thesis using emptied[OF h2(2,3) refl] False by (intro updatesI) simp_all
  next
    case True
    then obtain b where p: "ptr (arys h2 ! a) = Ptr b 0" and fit: "k \<le> int (length (bufs h2 ! b))" using h2(5) by blast
    let ?ys = "poke (bufs h2 ! b) 0 (replicate (nat k) (Some v))"
    have "memfill (Ptr b 0) k v h2 = (Inr (), h2\<lparr>bufs := (bufs h2)[b := ?ys]\<rparr>)"
      using fill_cells_run[of b h2 0 "replicate (nat k) (Some v)"] fit k owned_cells(3)[OF h2(2,3) p] by (simp add: memfill_def)
    then have run: "?m h = (Inr a, h2\<lparr>bufs := (bufs h2)[b := ?ys], arys := (arys h2)[a := (arys h2 ! a)\<lparr>alen := k\<rparr>]\<rparr>)"
      using body h2(1) a2 p by simp
    have "writes (\<lambda>_. ?m h) a h2 a ?vs"
      by (rule writes_write[OF h2(2,3) p]) (rule run, use fit k in \<open>simp_all add: poke_def\<close>)
    then show ?thesis by (rule writes_updates)
  qed
  from updates_from[OF this frame_trans[OF h1(4) h2(4)], of ?m] show ?thesis by simp
qed

section \<open>Property of the operations on whole arrays\<close>

lemma whole_arrays_new:
  assumes ok: "heap_ok h" and a: "a < length (arys h)" "q < length (arys h)" and s: "safe_level h < 4" and k: "0 \<le> k"
    and lim: "length (ary_list h a) + length (ary_list h q) < 268435456" "k * int (length (ary_list h a)) < 268435456" "k < 268435456"
  shows "\<exists>n h'. rb_ary_dup a h = (Inr n, h') \<and> fresh_ary h n h' (ary_list h a)"
    "\<exists>n h'. rb_ary_plus a (Ary q) h = (Inr n, h') \<and> fresh_ary h n h' (ary_list h a @ ary_list h q)"
    "\<exists>n h'. rb_ary_times a (Num (Fixnum k)) h = (Inr n, h') \<and> fresh_ary h n h' (concat (replicate (nat k) (ary_list h a)))"
    "\<exists>n h'. rb_ary_reverse_m a h = (Inr n, h') \<and> fresh_ary h n h' (rev (ary_list h a))"
proof -
  show "\<exists>n h'. rb_ary_dup a h = (Inr n, h') \<and> fresh_ary h n h' (ary_list h a)"
    by (rule rb_ary_dup_ok[OF ok a(1)]) blast
  show "\<exists>n h'. rb_ary_reverse_m a h = (Inr n, h') \<and> fresh_ary h n h' (rev (ary_list h a))"
    by (rule rb_ary_reverse_m_ok[OF ok a(1) s]) blast
  have "4 * int (length (ary_list h a) + length (ary_list h q)) < 2147483648" using lim(1) by simp
  from rb_ary_plus_ok[OF ok a this]
  show "\<exists>n h'. rb_ary_plus a (Ary q) h = (Inr n, h') \<and> fresh_ary h n h' (ary_list h a @ ary_list h q)" by blast
  have "4 * (k * int (length (ary_list h a))) < 2147483648" "k < 2147483648" using lim(2,3) by simp_all
  from rb_ary_times_ok[OF ok a(1) k this]
  show "\<exists>n h'. rb_ary_times a (Num (Fixnum k)) h = (Inr n, h') \<and> fresh_ary h n h' (concat (replicate (nat k) (ary_list h a)))"
    by blast
qed

text \<open>
  Whole arrays. \<open>dup\<close>, \<open>+\<close>, \<open>*\<close> and \<open>reverse\<close> answer a new array with the elements meant, and
  leave every array that existed as it was; \<open>replace\<close>, \<open>clear\<close>, \<open>reverse!\<close>, \<open>fill\<close> and the
  initialisation with a size and a value change exactly the array they are sent to. \<open>replace\<close> shares
  the block of the other array, which nevertheless stays independent.
\<close>

theorem array_whole_operations:
  assumes "heap_ok h" "writable h a" "visible h q" "safe_level h < 4" "0 \<le> b" "0 \<le> k"
    "length (ary_list h a) + length (ary_list h q) < 268435456" "k * int (length (ary_list h a)) < 268435456"
    "b + k < 268435456"
  shows "(\<exists>n h'. rb_ary_dup a h = (Inr n, h') \<and> fresh_ary h n h' (ary_list h a)) \<and>
    (\<exists>n h'. rb_ary_plus a (Ary q) h = (Inr n, h') \<and> fresh_ary h n h' (ary_list h a @ ary_list h q)) \<and>
    (\<exists>n h'. rb_ary_times a (Num (Fixnum k)) h = (Inr n, h') \<and>
       fresh_ary h n h' (concat (replicate (nat k) (ary_list h a)))) \<and>
    (\<exists>n h'. rb_ary_reverse_m a h = (Inr n, h') \<and> fresh_ary h n h' (rev (ary_list h a))) \<and>
    updates (rb_ary_replace a (Ary q)) a h a (ary_list h q) \<and>
    updates (rb_ary_clear a) a h a [] \<and>
    updates (rb_ary_reverse_bang a) a h a (rev (ary_list h a)) \<and>
    updates (rb_ary_fill None [v, Num (Fixnum b), Num (Fixnum k)] a) a h a (fill_list (ary_list h a) (nat b) (nat k) v) \<and>
    updates (rb_ary_initialize None [Num (Fixnum k), v] a) a h a (replicate (nat k) v)"
proof -
  have q: "q < length (arys h)" using assms(3) by (simp add: visible_def)
  have k: "k < 268435456" "4 * (b + k) < 2147483648" "4 * k < 2147483648" using assms(5,6,9) by simp_all
  note n = whole_arrays_new[OF assms(1) writable_valid[OF assms(2)] q assms(4,6,7,8) k(1)]
  show ?thesis
    by (intro conjI n rb_ary_replace_ok[OF assms(1-3)] rb_ary_clear_ok[OF assms(1,2)]
        rb_ary_fill_item[OF assms(1,2,6,5) k(2)] rb_ary_initialize_item[OF assms(1,2,6) k(3)]
        rb_ary_reverse_ok[OF assms(1,2), folded rb_ary_reverse_bang_def])
qed

theorem array_whole_operations_witness:
  "updates (rb_ary_replace 0 (Ary 1)) 0 sample_heap 0 (fix_cells [2, 3]) \<and>
   updates (rb_ary_fill None [Qnil, Num (Fixnum 4), Num (Fixnum 2)] 0) 0 sample_heap 0
     (fix_cells [1, 2, 3] @ [Qnil, Qnil, Qnil])"
proof -
  have pre: "visible sample_heap 1" "safe_level sample_heap < 4" "(0::int) \<le> 4" "(0::int) \<le> 2"
    "length (ary_list sample_heap 0) + length (ary_list sample_heap 1) < 268435456"
    "2 * int (length (ary_list sample_heap 0)) < 268435456" "(4::int) + 2 < 268435456"
    using sample_heap_ok by (auto intro: writable_visible simp: fix_cells_def) (simp add: sample_heap_def)
  have "updates (rb_ary_replace 0 (Ary 1)) 0 sample_heap 0 (ary_list sample_heap 1)"
    "updates (rb_ary_fill None [Qnil, Num (Fixnum 4), Num (Fixnum 2)] 0) 0 sample_heap 0
      (fill_list (ary_list sample_heap 0) (nat 4) (nat 2) Qnil)"
    using array_whole_operations[OF sample_heap_ok(1,2) pre, of Qnil] by blast+
  moreover have "fill_list (ary_list sample_heap 0) (nat 4) (nat 2) Qnil = fix_cells [1, 2, 3] @ [Qnil, Qnil, Qnil]"
    using sample_heap_ok by (simp add: fix_cells_def fill_list_def eval_nat_numeral)
  ultimately show ?thesis using sample_heap_ok by simp
qed


end
