(* ===== verification/RArray_Machine.thy ===== *)
theory RArray_Machine
  imports RArray_More
begin

text \<open>
  Sequences of array operations. The mutators of \<^verbatim>\<open>src/ruby/array.c\<close> are the transitions of a machine
  whose state is the heap of the storage layer; it is simulated by a machine that knows nothing of
  blocks and sharing and keeps one list per array. The interface of a double-ended queue is stated
  as a locale and discharged for the four end operations.
\<close>

section \<open>The machine\<close>

datatype ary_op =
    Push nat VALUE
  | Pop nat
  | Shift nat
  | Unshift nat VALUE
  | Store nat int VALUE
  | Delete_at nat int
  | Concat nat nat
  | Replace nat nat
  | Clear nat
  | Reverse nat
  | Fill nat VALUE

definition answer :: "('a \<Rightarrow> VALUE) \<Rightarrow> 'a heapM \<Rightarrow> VALUE heapM" where
  "answer f m = bind m (\<lambda>x. ret (f x))"

fun exec_op :: "ary_op \<Rightarrow> VALUE heapM" where
  "exec_op (Push a v) = answer Ary (rb_ary_push a v)"
| "exec_op (Pop a) = rb_ary_pop a"
| "exec_op (Shift a) = rb_ary_shift a"
| "exec_op (Unshift a v) = answer Ary (rb_ary_unshift a v)"
| "exec_op (Store a i v) = answer (\<lambda>_. v) (rb_ary_store a i v)"
| "exec_op (Delete_at a i) = rb_ary_delete_at a i"
| "exec_op (Concat a q) = answer Ary (rb_ary_concat a (Ary q))"
| "exec_op (Replace a q) = answer Ary (rb_ary_replace a (Ary q))"
| "exec_op (Clear a) = answer Ary (rb_ary_clear a)"
| "exec_op (Reverse a) = answer Ary (rb_ary_reverse a)"
| "exec_op (Fill a v) = answer Ary (rb_ary_fill None [v] a)"

fun target :: "ary_op \<Rightarrow> nat" where
  "target (Push a v) = a"
| "target (Pop a) = a"
| "target (Shift a) = a"
| "target (Unshift a v) = a"
| "target (Store a i v) = a"
| "target (Delete_at a i) = a"
| "target (Concat a q) = a"
| "target (Replace a q) = a"
| "target (Clear a) = a"
| "target (Reverse a) = a"
| "target (Fill a v) = a"

text \<open>
  The arrays a program can name are the visible ones. Two operations are limited: \<open>Store\<close> takes a
  fixnum index (\<open>array_store_correct\<close> says what larger ones do), and \<open>Unshift\<close> an array of fewer than
  \<open>2\<^sup>2\<^sup>8\<close> elements, whose growth cannot fail (\<open>unshift_stale_capacity\<close> below says why that matters).
\<close>

fun operands :: "ary_op \<Rightarrow> nat list" where
  "operands (Concat a q) = [a, q]"
| "operands (Replace a q) = [a, q]"
| "operands op = [target op]"

fun within_limits :: "ary_op \<Rightarrow> heap \<Rightarrow> bool" where
  "within_limits (Unshift a v) h \<longleftrightarrow> length (ary_list h a) < 268435456"
| "within_limits (Store a i v) h \<longleftrightarrow> i < 1073741824"
| "within_limits op h \<longleftrightarrow> True"

definition admissible :: "ary_op \<Rightarrow> heap \<Rightarrow> bool" where
  "admissible op h \<longleftrightarrow> (\<forall>x \<in> set (operands op). visible h x) \<and> within_limits op h"

text \<open>The list machine: the answer and the new elements of the target.\<close>

fun spec_op :: "ary_op \<Rightarrow> (nat \<Rightarrow> VALUE list) \<Rightarrow> VALUE \<times> VALUE list" where
  "spec_op (Push a v) \<sigma> = (Ary a, \<sigma> a @ [v])"
| "spec_op (Pop a) \<sigma> = (if \<sigma> a = [] then Qnil else last (\<sigma> a), butlast (\<sigma> a))"
| "spec_op (Shift a) \<sigma> = (if \<sigma> a = [] then Qnil else hd (\<sigma> a), tl (\<sigma> a))"
| "spec_op (Unshift a v) \<sigma> = (Ary a, v # \<sigma> a)"
| "spec_op (Store a i v) \<sigma> = (v, store_list (\<sigma> a) i v)"
| "spec_op (Delete_at a i) \<sigma> = (entry_list (\<sigma> a) i, delete_list (\<sigma> a) i)"
| "spec_op (Concat a q) \<sigma> = (Ary a, \<sigma> a @ \<sigma> q)"
| "spec_op (Replace a q) \<sigma> = (Ary a, \<sigma> q)"
| "spec_op (Clear a) \<sigma> = (Ary a, [])"
| "spec_op (Reverse a) \<sigma> = (Ary a, rev (\<sigma> a))"
| "spec_op (Fill a v) \<sigma> = (Ary a, replicate (length (\<sigma> a)) v)"

text \<open>
  The errors an operation may raise: \<open>IndexError\<close> for a store before the first element,
  \<open>ArgumentError\<close> on an array that may be written when more than \<open>2\<^sup>2\<^sup>8\<close> elements would result, and
  those of the write check on an array \<open>w\<close> says may not be written.
\<close>

fun before_first :: "ary_op \<Rightarrow> (nat \<Rightarrow> VALUE list) \<Rightarrow> bool" where
  "before_first (Store a i v) \<sigma> \<longleftrightarrow> i < - int (length (\<sigma> a))"
| "before_first op \<sigma> \<longleftrightarrow> False"

definition may_raise :: "(nat \<Rightarrow> bool) \<Rightarrow> ary_op \<Rightarrow> (nat \<Rightarrow> VALUE list) \<Rightarrow> rb_error \<Rightarrow> bool" where
  "may_raise w op \<sigma> e \<longleftrightarrow>
     (if e = IndexError then before_first op \<sigma>
      else if e = ArgError then w (target op) \<and> 268435456 < length (snd (spec_op op \<sigma>))
      else e \<in> {FrozenError, RuntimeError, SecurityError} \<and> \<not> w (target op))"

text \<open>An answer is the one of the list machine; an array that may not be written keeps its elements.\<close>

definition may_answer :: "(nat \<Rightarrow> bool) \<Rightarrow> ary_op \<Rightarrow> (nat \<Rightarrow> VALUE list) \<Rightarrow> VALUE \<Rightarrow> bool" where
  "may_answer w op \<sigma> v \<longleftrightarrow>
     v = fst (spec_op op \<sigma>) \<and> (w (target op) \<or> snd (spec_op op \<sigma>) = \<sigma> (target op))"

definition follows :: "heap \<Rightarrow> ary_op \<Rightarrow> VALUE outcome \<times> heap \<Rightarrow> bool" where
  "follows h op res \<longleftrightarrow> heap_ok (snd res) \<and> frame (target op) h (snd res) \<and>
     (case fst res of
        Inr v \<Rightarrow> may_answer (writable h) op (ary_list h) v \<and>
          ary_list (snd res) (target op) = snd (spec_op op (ary_list h))
      | Inl e \<Rightarrow> may_raise (writable h) op (ary_list h) e \<and>
          ary_list (snd res) (target op) = ary_list h (target op))"

lemma answer_run [simp]:
  "answer f m h = (case m h of (Inl e, h') \<Rightarrow> (Inl e, h') | (Inr x, h') \<Rightarrow> (Inr (f x), h'))"
  by (simp add: answer_def split: prod.splits sum.splits)

lemma follows_updates:
  assumes "updates m (target op) h x vs" "exec_op op h = answer f m h" "spec_op op (ary_list h) = (f x, vs)"
    "writable h (target op)"
  shows "follows h op (exec_op op h)"
  using assms(1) by (rule updatesE) (simp add: follows_def may_answer_def assms(2-4))

lemma follows_pure:
  assumes "updates m (target op) h x vs" "exec_op op h = m h" "spec_op op (ary_list h) = (x, vs)"
    "writable h (target op)"
  shows "follows h op (exec_op op h)"
  using assms(1) by (rule updatesE) (simp add: follows_def may_answer_def assms(2-4))

lemma follows_rejects:
  assumes "rejects m (target op) h es" "exec_op op h = answer f m h"
    "\<And>e. e \<in> es \<Longrightarrow> may_raise (writable h) op (ary_list h) e"
  shows "follows h op (exec_op op h)"
  using assms(1) by (rule rejectsE) (use assms(2,3) in \<open>simp add: follows_def\<close>)

lemma follows_raise:
  "exec_op op h = (Inl e, h) \<Longrightarrow> heap_ok h \<Longrightarrow> may_raise (writable h) op (ary_list h) e \<Longrightarrow> follows h op (exec_op op h)"
  by (simp add: follows_def)

lemma may_refuse:
  "e \<in> {FrozenError, RuntimeError, SecurityError} \<Longrightarrow> \<not> w (target op) \<Longrightarrow> may_raise w op \<sigma> e"
  by (auto simp: may_raise_def)

lemma follows_refused:
  assumes "refuses (exec_op op) h" "\<not> writable h (target op)" "heap_ok h"
  shows "follows h op (exec_op op h)"
proof -
  obtain e where "e \<in> {FrozenError, RuntimeError, SecurityError}" "exec_op op h = (Inl e, h)"
    using assms(1) by (auto simp: refuses_def)
  then show ?thesis using follows_raise[OF _ assms(3)] may_refuse[of e "writable h" op "ary_list h"] assms(2) by blast
qed

lemma refuses_answer [intro]: "refuses m h \<Longrightarrow> refuses (answer f m) h"
  unfolding answer_def by (rule refuses_bind)

lemma visible_valid: "visible h a \<Longrightarrow> a < length (arys h)"
  by (simp add: visible_def)

lemma target_visible: "admissible op h \<Longrightarrow> visible h (target op)"
  by (cases op) (simp_all add: admissible_def)

lemma ends_refused:
  assumes a: "a < length (arys h)" "\<not> writable h a" and ok: "heap_ok h"
  shows "refuses (rb_ary_pop a) h" "refuses (rb_ary_shift a) h" "refuses (rb_ary_unshift a v) h"
    "- int (length (ary_list h a)) \<le> i \<Longrightarrow> refuses (rb_ary_store a i v) h" "refuses (rb_ary_push a v) h"
    "refuses (rb_ary_fill None [v] a) h"
proof -
  note len = length_ary_list[OF ok a(1), symmetric] and r = refuses_modify[OF a]
  show "refuses (rb_ary_pop a) h" "refuses (rb_ary_shift a) h" "refuses (rb_ary_unshift a v) h"
    using r by (auto simp: rb_ary_pop_def rb_ary_shift_def rb_ary_unshift_def)
  have st: "refuses (rb_ary_store a i v) h" if "- int (length (ary_list h a)) \<le> i" for i
  proof -
    obtain e where e: "e \<in> {FrozenError, RuntimeError, SecurityError}" "rb_ary_modify a h = (Inl e, h)"
      using r(1) by (auto simp: refuses_def)
    have "\<not> (if i < 0 then i + alen (arys h ! a) else i) < 0" using that len by auto
    then have "rb_ary_store a i v h = (Inl e, h)"
      using e(2) a(1) by (simp add: rb_ary_store_def Let_def split del: if_split)
    then show ?thesis using e(1) by (auto simp: refuses_def)
  qed
  show "- int (length (ary_list h a)) \<le> i \<Longrightarrow> refuses (rb_ary_store a i v) h" by (rule st)
  show "refuses (rb_ary_push a v) h" using st[of "alen (arys h ! a)"] a(1) len by (auto simp: refuses_def rb_ary_push_def)
  show "refuses (rb_ary_fill None [v] a) h" using whole_refused(4)[OF a, of "Inl v" 0 "alen (arys h ! a)"] a(1)
    by (auto simp: refuses_def rb_ary_fill_def Let_def)
qed

lemma concat_unwritable:
  assumes a: "a < length (arys h)" "\<not> writable h a" "q < length (arys h)" and ok: "heap_ok h"
  shows "follows h (Concat a q) (exec_op (Concat a q) h)"
proof (cases "ary_list h q = []")
  case True
  then show ?thesis using rb_ary_concat_splices[OF ok a(1,3)] ok by (simp add: follows_def may_answer_def)
next
  case False
  then have "rejects (rb_ary_concat a (Ary q)) a h {FrozenError, RuntimeError, SecurityError}"
    using rb_ary_concat_splices[OF ok a(1,3)] a(2) by (simp add: splices_def Let_def)
  then show ?thesis by (intro follows_rejects[where f = Ary] may_refuse) (use a(2) in auto)
qed

lemma delete_at_unwritable:
  assumes a: "a < length (arys h)" "\<not> writable h a" and ok: "heap_ok h"
  shows "follows h (Delete_at a i) (exec_op (Delete_at a i) h)"
proof -
  note len = length_ary_list[OF ok a(1), symmetric]
  obtain e where e: "e \<in> {FrozenError, RuntimeError, SecurityError}" "rb_ary_modify a h = (Inl e, h)"
    using refuses_modify[OF a(1,2)] by (auto simp: refuses_def)
  let ?j = "if i < 0 then i + int (length (ary_list h a)) else i"
  show ?thesis
  proof (cases "0 \<le> ?j \<and> ?j < int (length (ary_list h a))")
    case True
    then have "exec_op (Delete_at a i) h = (Inl e, h)"
      using e(2) a(1) len by (auto simp: rb_ary_delete_at_def Let_def split: if_splits)
    then show ?thesis by (rule follows_raise[OF _ ok may_refuse[OF e(1)]]) (use a(2) in simp)
  next
    case False
    then have "exec_op (Delete_at a i) h = (Inr Qnil, h)"
      using a(1) len by (auto simp: rb_ary_delete_at_def Let_def split: if_splits)
    moreover have "entry_list (ary_list h a) i = Qnil" "delete_list (ary_list h a) i = ary_list h a"
      using False by (auto simp: entry_list_def delete_list_def Let_def split: if_splits)
    ultimately show ?thesis using ok by (simp add: follows_def may_answer_def)
  qed
qed

lemma store_early:
  assumes "heap_ok h" "a < length (arys h)" "i < - int (length (ary_list h a))"
  shows "follows h (Store a i v) (exec_op (Store a i v) h)"
proof (rule follows_raise[OF _ assms(1)])
  show "exec_op (Store a i v) h = (Inl IndexError, h)"
    using assms length_ary_list[OF assms(1,2)] by (simp add: rb_ary_store_def)
qed (use assms(3) in \<open>simp add: may_raise_def\<close>)

lemma unwritable_follows:
  assumes ok: "heap_ok h" and adm: "admissible op h" and nw: "\<not> writable h (target op)"
  shows "follows h op (exec_op op h)"
proof -
  have a: "target op < length (arys h)" using target_visible[OF adm] by (rule visible_valid)
  note r = follows_refused[OF _ nw ok] and e = ends_refused[OF a nw ok] whole_refused[OF a nw]
  have plain: "refuses (exec_op op) h" if "\<forall>x i v. op \<noteq> Store x i v" "\<forall>x i. op \<noteq> Delete_at x i" "\<forall>x q. op \<noteq> Concat x q"
    using that e by (cases op) auto
  show ?thesis
  proof (cases op)
    case (Store x i v)
    show ?thesis
    proof (cases "- int (length (ary_list h x)) \<le> i")
      case True
      then have "refuses (exec_op op) h" using e(4)[of i v] Store by auto
      then show ?thesis by (rule r)
    next
      case False
      then show ?thesis using store_early[OF ok, of x i v] a Store by simp
    qed
  next
    case (Delete_at x i)
    then show ?thesis using delete_at_unwritable[of x h i] a nw ok by simp
  next
    case (Concat x q)
    then show ?thesis using concat_unwritable[of x h q] a nw ok adm by (simp add: admissible_def visible_valid)
  qed (rule r[OF plain]; simp)+
qed

text \<open>On an array that may be written, a store at a fixnum index and a concatenation succeed or are too large.\<close>

lemma store_or_too_large:
  assumes "heap_ok h" "writable h a" "- int (length (ary_list h a)) \<le> i" "i < 1073741824"
  shows "updates (rb_ary_store a i v) a h () (store_list (ary_list h a) i v) \<or>
    rejects (rb_ary_store a i v) a h {ArgError} \<and> 268435456 < length (store_list (ary_list h a) i v)"
proof (cases "i < room h a \<or> max 16 (room h a div 2) + i < 536870912")
  case True
  then show ?thesis using writes_updates[OF rb_ary_store_writes[OF assms(1-3)]] by simp
next
  case False
  let ?s = "max 16 (room h a div 2) + i"
  note a = writable_valid[OF assms(2)]
  have b: "alen (arys h ! a) \<le> room h a" "4 * room h a < 2147483648" "0 \<le> alen (arys h ! a)"
    using room_bound[OF assms(1,2)] alen_bound[OF assms(1) a] by simp_all
  have "room h a div 2 < 268435456" using b(2) by linarith
  then have half: "max 16 (room h a div 2) < 268435456" by simp
  then have s: "536870912 \<le> ?s" "?s \<le> 1431655765" "room h a \<le> i" "268435456 < i" using False assms(4) by linarith+
  have len: "int (length (ary_list h a)) \<le> i" using b s(3) length_ary_list[OF assms(1) a] by simp
  have "rejects (rb_ary_store a i v) a h {ArgError}"
    using rb_ary_store_too_big[OF assms(1,2) s(3) _ refl s(1), of v] s(2) assms(4) by (auto intro: rejectsI)
  moreover have nl: "\<not> nat i < length (ary_list h a)" using len by linarith
  have "length (store_list (ary_list h a) i v) = Suc (nat i)"
    using len s(4) nl by (simp add: store_list_def Let_def)
  moreover have "268435456 < Suc (nat i)" using s(4) by linarith
  ultimately show ?thesis by simp
qed

lemma concat_or_too_large:
  assumes "heap_ok h" "writable h a" "q < length (arys h)"
  shows "updates (rb_ary_concat a (Ary q)) a h a (ary_list h a @ ary_list h q) \<or>
    rejects (rb_ary_concat a (Ary q)) a h {ArgError} \<and> 268435456 < length (ary_list h a @ ary_list h q)"
proof (cases "length (ary_list h a) + length (ary_list h q) < 536870912")
  case True
  then show ?thesis using rb_ary_concat_ok[OF assms] by simp
next
  case False
  note a = writable_valid[OF assms(2)]
  have l: "length (ary_list h x) < 536870912" if "x < length (arys h)" for x
    using alen_bound[OF assms(1) that] length_ary_list[OF assms(1) that] by simp
  have "ary_list h q \<noteq> []" using False l[OF a] by auto
  then have "rejects (rb_ary_concat a (Ary q)) a h {ArgError}"
    using rb_ary_concat_splices[OF assms(1) a assms(3)] assms(2) l[OF a] l[OF assms(3)] False
    by (simp add: splices_def length_splice_list)
  then show ?thesis using False by simp
qed

lemma writable_follows:
  assumes ok: "heap_ok h" and adm: "admissible op h" and w: "writable h (target op)"
  shows "follows h op (exec_op op h)"
proof -
  note adm = adm[unfolded admissible_def]
  show ?thesis
  proof (cases op)
  case (Push a v)
  have a: "a < length (arys h)" "writable h a" using writable_valid[OF w] w Push by simp_all
  let ?l = "alen (arys h ! a)"
  have l: "?l = int (length (ary_list h a))" "?l < 1073741824" using length_ary_list[OF ok a(1)] alen_bound[OF ok a(1)] by simp_all
  have e: "exec_op op h = answer (\<lambda>_. Ary a) (rb_ary_store a ?l v) h"
    using a(1) Push by (simp add: rb_ary_push_def split: prod.splits sum.splits)
  have st: "store_list (ary_list h a) ?l v = ary_list h a @ [v]" using l by (simp add: store_list_def)
  have "- int (length (ary_list h a)) \<le> ?l" using l by simp
  from store_or_too_large[OF ok a(2) this l(2), of v] show ?thesis
  proof (elim disjE conjE)
    assume "updates (rb_ary_store a ?l v) a h () (store_list (ary_list h a) ?l v)"
    then show ?thesis using e Push w by (intro follows_updates[where f = "\<lambda>_. Ary a" and m = "rb_ary_store a ?l v"]) (simp_all add: st)
  next
    assume "rejects (rb_ary_store a ?l v) a h {ArgError}" "268435456 < length (store_list (ary_list h a) ?l v)"
    then show ?thesis using e Push w
      by (intro follows_rejects[where f = "\<lambda>_. Ary a" and m = "rb_ary_store a ?l v"]) (auto simp: st may_raise_def)
  qed
next
  case (Pop a)
  then show ?thesis using rb_ary_pop_ok[OF ok, of a] w by (intro follows_pure) auto
next
  case (Shift a)
  then show ?thesis using rb_ary_shift_ok[OF ok, of a] w by (intro follows_pure) auto
next
  case (Unshift a v)
  then show ?thesis using rb_ary_unshift_ok[OF ok, of a v] adm w by (intro follows_updates[where f = Ary]) auto
next
  case (Store a i v)
  show ?thesis
  proof (cases "- int (length (ary_list h a)) \<le> i")
    case True
    have "i < 1073741824" "writable h a" using Store adm w by simp_all
    from store_or_too_large[OF ok this(2) True this(1), of v] show ?thesis
    proof (elim disjE conjE)
      assume "updates (rb_ary_store a i v) a h () (store_list (ary_list h a) i v)"
      then show ?thesis using Store w by (intro follows_updates[where f = "\<lambda>_. v"]) simp_all
    next
      assume "rejects (rb_ary_store a i v) a h {ArgError}" "268435456 < length (store_list (ary_list h a) i v)"
      then show ?thesis using Store w by (intro follows_rejects[where f = "\<lambda>_. v"]) (auto simp: may_raise_def)
    qed
  next
    case False
    then show ?thesis using store_early[OF ok, of a i v] Store writable_valid[OF w] by simp
  qed
next
  case (Delete_at a i)
  then show ?thesis using rb_ary_delete_at_ok[OF ok, of a i] w by (intro follows_pure) auto
next
  case (Concat a q)
  have "writable h a" "q < length (arys h)" using Concat adm w by (auto dest: visible_valid)
  from concat_or_too_large[OF ok this] show ?thesis
  proof (elim disjE conjE)
    assume "updates (rb_ary_concat a (Ary q)) a h a (ary_list h a @ ary_list h q)"
    then show ?thesis using Concat w by (intro follows_updates[where f = Ary]) simp_all
  next
    assume "rejects (rb_ary_concat a (Ary q)) a h {ArgError}" "268435456 < length (ary_list h a @ ary_list h q)"
    then show ?thesis using Concat w by (intro follows_rejects[where f = Ary]) (auto simp: may_raise_def)
  qed
next
  case (Replace a q)
  then show ?thesis using rb_ary_replace_ok[OF ok, of a q] adm w by (intro follows_updates[where f = Ary]) auto
next
  case (Clear a)
  then show ?thesis using rb_ary_clear_ok[OF ok, of a] w by (intro follows_updates[where f = Ary]) auto
next
  case (Reverse a)
  then show ?thesis using rb_ary_reverse_ok[OF ok, of a] w by (intro follows_updates[where f = Ary]) auto
next
  case (Fill a v)
  then show ?thesis using rb_ary_fill_all[OF ok, of a v] w by (intro follows_updates[where f = Ary]) auto
  qed
qed

lemma step_follows: "heap_ok h \<Longrightarrow> admissible op h \<Longrightarrow> follows h op (exec_op op h)"
  using unwritable_follows writable_follows by blast

section \<open>Runs and the list machine\<close>

text \<open>
  A run uses the arrays that are visible in the first heap. The objects a later heap has in addition
  are the hidden owners of shared blocks.
\<close>

inductive array_run :: "heap \<Rightarrow> (ary_op \<times> VALUE outcome) list \<Rightarrow> heap \<Rightarrow> bool" for h0 where
  run_nil: "array_run h0 [] h0"
| run_step: "array_run h0 tr h \<Longrightarrow> \<forall>x \<in> set (operands op). visible h0 x \<Longrightarrow> within_limits op h \<Longrightarrow>
    exec_op op h = (r, h') \<Longrightarrow> array_run h0 (tr @ [(op, r)]) h'"

text \<open>One step of the list machine, which sees the outcome: an error leaves the lists alone.\<close>

definition spec_step :: "ary_op \<times> VALUE outcome \<Rightarrow> (nat \<Rightarrow> VALUE list) \<Rightarrow> nat \<Rightarrow> VALUE list" where
  "spec_step x \<sigma> = (case snd x of Inl e \<Rightarrow> \<sigma> | Inr v \<Rightarrow> \<sigma>(target (fst x) := snd (spec_op (fst x) \<sigma>)))"

definition answer_ok :: "(nat \<Rightarrow> bool) \<Rightarrow> ary_op \<times> VALUE outcome \<Rightarrow> (nat \<Rightarrow> VALUE list) \<Rightarrow> bool" where
  "answer_ok w x \<sigma> \<longleftrightarrow> (case snd x of Inl e \<Rightarrow> may_raise w (fst x) \<sigma> e | Inr v \<Rightarrow> may_answer w (fst x) \<sigma> v)"

primrec answers_ok :: "(nat \<Rightarrow> bool) \<Rightarrow> (nat \<Rightarrow> VALUE list) \<Rightarrow> (ary_op \<times> VALUE outcome) list \<Rightarrow> bool" where
  "answers_ok w \<sigma> [] = True"
| "answers_ok w \<sigma> (x # tr) = (answer_ok w x \<sigma> \<and> answers_ok w (spec_step x \<sigma>) tr)"

lemma answers_ok_append:
  "answers_ok w \<sigma> (tr @ tr') \<longleftrightarrow> answers_ok w \<sigma> tr \<and> answers_ok w (fold spec_step tr \<sigma>) tr'"
  by (induction tr arbitrary: \<sigma>) simp_all

lemma spec_op_cong:
  assumes "\<And>a. a \<in> set (operands op) \<Longrightarrow> \<sigma> a = \<tau> a"
  shows "spec_op op \<sigma> = spec_op op \<tau>"
  using assms by (cases op) simp_all

lemma before_first_cong:
  "\<sigma> (target op) = \<tau> (target op) \<Longrightarrow> before_first op \<sigma> = before_first op \<tau>"
  by (cases op) simp_all

lemma may_cong:
  assumes "spec_op op \<sigma> = spec_op op \<tau>" "\<sigma> (target op) = \<tau> (target op)" "before_first op \<sigma> = before_first op \<tau>"
    "w (target op) = w' (target op)"
  shows "may_raise w op \<tau> e = may_raise w' op \<sigma> e" "may_answer w op \<tau> v = may_answer w' op \<sigma> v"
  by (simp_all add: may_raise_def may_answer_def assms)

text \<open>The simulation relation: the lists agree with the heap on the arrays that existed at the start.\<close>

definition tracks :: "heap \<Rightarrow> (nat \<Rightarrow> VALUE list) \<Rightarrow> heap \<Rightarrow> bool" where
  "tracks h0 \<sigma> h \<longleftrightarrow> heap_ok h \<and> length (arys h0) \<le> length (arys h) \<and>
     (\<forall>a. visible h0 a \<longrightarrow> visible h a \<and> writable h a = writable h0 a \<and> \<sigma> a = ary_list h a)"

lemma tracks_frame:
  assumes "tracks h0 \<sigma> h" "heap_ok h'" "frame a h h'" "visible h0 a"
  shows "tracks h0 (\<sigma>(a := ary_list h' a)) h'"
proof -
  have "visible h' x \<and> writable h' x = writable h0 x \<and> (\<sigma>(a := ary_list h' a)) x = ary_list h' x" if "visible h0 x" for x
    using that assms(1,3) visible_valid[of h x] by (auto simp: tracks_def frame_def)
  then show ?thesis using assms by (auto simp: tracks_def frame_def)
qed

lemma tracks_step:
  assumes t: "tracks h0 \<sigma> h" and vis: "\<forall>x \<in> set (operands op). visible h0 x" and lim: "within_limits op h"
    and run: "exec_op op h = (r, h')"
  shows "tracks h0 (spec_step (op, r) \<sigma>) h' \<and> answer_ok (writable h0) (op, r) \<sigma>"
proof -
  have ok: "heap_ok h" and adm: "admissible op h" using t vis lim by (auto simp: tracks_def admissible_def)
  have tv: "visible h0 (target op)" using vis by (cases op) simp_all
  have f: "follows h op (r, h')" using step_follows[OF ok adm] run by simp
  have s: "spec_op op \<sigma> = spec_op op (ary_list h)" "\<sigma> (target op) = ary_list h (target op)"
    "before_first op \<sigma> = before_first op (ary_list h)"
    using t vis tv by (auto simp: tracks_def intro!: spec_op_cong before_first_cong)
  have w: "writable h (target op) = writable h0 (target op)" using t tv by (simp add: tracks_def)
  have "answer_ok (writable h0) (op, r) \<sigma>"
    using f may_cong[of op \<sigma> "ary_list h" "writable h" "writable h0", OF s w]
    by (cases r) (simp_all add: follows_def answer_ok_def)
  moreover have "ary_list h' (target op) = spec_step (op, r) \<sigma> (target op)"
    using f s(1,2) by (cases r) (simp_all add: follows_def spec_step_def)
  moreover have "spec_step (op, r) \<sigma> = \<sigma>(target op := spec_step (op, r) \<sigma> (target op))"
    by (cases r) (simp_all add: spec_step_def)
  moreover have "heap_ok h'" "frame (target op) h h'" using f by (simp_all add: follows_def)
  ultimately show ?thesis using tracks_frame[OF t _ _ tv, of h'] by metis
qed

lemma array_run_tracks:
  assumes "array_run h0 tr h" "heap_ok h0"
  shows "tracks h0 (fold spec_step tr (ary_list h0)) h \<and> answers_ok (writable h0) (ary_list h0) tr"
  using assms
proof (induction rule: array_run.induct)
  case run_nil
  then show ?case by (simp add: tracks_def)
next
  case (run_step tr h op r h')
  from tracks_step[OF _ run_step.hyps(2-4)] run_step
  show ?case by (simp add: answers_ok_append)
qed

section \<open>Why unshift is limited\<close>

text \<open>
  \<open>rb_ary_unshift\<close> records the new capacity before it asks for the block. When the request fails, the
  array claims more room than its block has, and the next \<open>unshift\<close> writes outside it.
\<close>

lemma unshift_stale_capacity:
  assumes ok: "heap_ok h" and w: "writable h a" and own: "\<not> elts_shared (arys h ! a)"
    and c: "aaux (arys h ! a) = Capa c" "alen (arys h ! a) = c" "536870912 \<le> c + c div 2"
  shows "\<exists>h'. rb_ary_unshift a v h = (Inl ArgError, h') \<and> fst (rb_ary_unshift a v h') = Inl Undefined"
proof -
  note a = writable_valid[OF w]
  have o: "owned h a" using own owned_iff[OF w] by simp
  have cb: "0 < c" "c < 536870912" "16 \<le> c div 2" using alen_bound[OF ok a] c by linarith+
  let ?n = "c + c div 2"
  have n: "536870912 \<le> ?n" "?n < 1073741824" "c \<noteq> ?n" using c(3) cb by linarith+
  let ?h' = "h\<lparr>arys := (arys h)[a := (arys h ! a)\<lparr>aaux := Capa ?n\<rparr>]\<rparr>"
  have inc: "s32 (c + (if c_quot c 2 < ARY_DEFAULT_SIZE then ARY_DEFAULT_SIZE else c_quot c 2)) = ?n"
    using cb n by (simp add: c_quot_nonneg ARY_DEFAULT_SIZE_def s32_id)
  have "xrealloc (ptr (arys h ! a)) (byte_size ?n) g = (Inl ArgError, g)" for g
    using byte_size_large(1)[OF n(1,2)] by (simp add: xrealloc_def)
  then have grow: "capa_then_realloc a ?n h = (Inl ArgError, ?h')"
    using a by (simp add: capa_then_realloc_def set_capa_def REALLOC_N_def)
  have md: "rb_ary_modify a h = (Inr (), h)"
    using a own modify_check_run(1)[OF w] by (simp add: rb_ary_modify_def)
  have one: "rb_ary_unshift a v h = (Inl ArgError, ?h')"
    using a md c(1,2) grow by (simp add: rb_ary_unshift_def capa_def Let_def inc)
  have w': "writable ?h' a" using w by (simp add: writable_def)
  have md': "rb_ary_modify a ?h' = (Inr (), ?h')"
    using a own modify_check_run(1)[OF w'] by (simp add: rb_ary_modify_def)
  obtain b where b: "ptr (arys h ! a) = Ptr b 0" "b < length (bufs h)"
    using owned_shape(5)[OF ok o] heap_okD(1)[OF ok a] c(2) cb(1) by (auto simp: rep_ok_def)
  have l: "length (bufs h ! b) = nat c" using owned_cells(2)[OF ok o b(1)] c(1) by simp
  have ne: "bufs h ! b \<noteq> []" using l cb by auto
  have "fst (MEMMOVE (ptr_add (Ptr b 0) 1) (Ptr b 0) c ?h') = Inl Undefined"
    using b l cb ne by (simp add: MEMMOVE_def load_def in_block_def fill_cells_def ptr_add_def)
  then obtain g where "MEMMOVE (ptr_add (Ptr b 0) 1) (Ptr b 0) c ?h' = (Inl Undefined, g)"
    by (metis prod.collapse)
  then have "fst (rb_ary_unshift a v ?h') = Inl Undefined"
    using a md' c(2) b(1) n(3) by (simp add: rb_ary_unshift_def capa_def)
  then show ?thesis using one by blast
qed

section \<open>The interface of a double-ended queue\<close>

text \<open>Clients of a queue: insert a list of elements one by one, remove a number of them.\<close>

fun feed :: "('v \<Rightarrow> 'h \<Rightarrow> ('e + 'r) \<times> 'h) \<Rightarrow> 'v list \<Rightarrow> 'h \<Rightarrow> ('e + unit) \<times> 'h" where
  "feed ins [] h = (Inr (), h)"
| "feed ins (v # vs) h = (case ins v h of (Inl e, h') \<Rightarrow> (Inl e, h') | (Inr _, h') \<Rightarrow> feed ins vs h')"

fun drain :: "('h \<Rightarrow> ('e + 'v) \<times> 'h) \<Rightarrow> nat \<Rightarrow> 'h \<Rightarrow> ('e + 'v list) \<times> 'h" where
  "drain del 0 h = (Inr [], h)"
| "drain del (Suc n) h = (case del h of (Inl e, h') \<Rightarrow> (Inl e, h')
     | (Inr v, h') \<Rightarrow> (case drain del n h' of (Inl e, h'') \<Rightarrow> (Inl e, h'') | (Inr vs, h'') \<Rightarrow> (Inr (v # vs), h'')))"

text \<open>
  A container seen from one end: \<open>look\<close> lists its elements starting at that end. A removal that takes
  from the end where the insertion puts makes a stack; at the other end, a queue.
\<close>

locale container_end =
  fixes ok :: "'h \<Rightarrow> bool" and look :: "'h \<Rightarrow> 'v list" and limit :: nat
    and ins :: "'v \<Rightarrow> 'h \<Rightarrow> ('e + 'r) \<times> 'h" and del :: "'h \<Rightarrow> ('e + 'v) \<times> 'h"
  assumes ins_law: "ok h \<Longrightarrow> length (look h) < limit \<Longrightarrow> \<exists>x h'. ins v h = (Inr x, h') \<and> ok h' \<and> look h' = v # look h"
    and del_law: "ok h \<Longrightarrow> look h = v # vs \<Longrightarrow> \<exists>h'. del h = (Inr v, h') \<and> ok h' \<and> look h' = vs"
begin

lemma feed_looks:
  assumes "ok h" "length (look h) + length vs \<le> limit"
  shows "\<exists>h'. feed ins vs h = (Inr (), h') \<and> ok h' \<and> look h' = rev vs @ look h"
  using assms
proof (induction vs arbitrary: h)
  case (Cons v vs)
  then obtain x h1 where h1: "ins v h = (Inr x, h1)" "ok h1" "look h1 = v # look h"
    using ins_law[of h v] by auto
  with Cons show ?case by fastforce
qed simp

lemma drain_takes:
  assumes "ok h" "look h = us @ vs"
  shows "\<exists>h'. drain del (length us) h = (Inr us, h') \<and> ok h' \<and> look h' = vs"
  using assms
proof (induction us arbitrary: h)
  case (Cons u us)
  then obtain h1 where h1: "del h = (Inr u, h1)" "ok h1" "look h1 = us @ vs"
    using del_law[of h u "us @ vs"] by auto
  with Cons.IH[of h1] show ?case by auto
qed simp

lemma stack_roundtrip:
  assumes "ok h" "length (look h) + length vs \<le> limit"
  shows "\<exists>h1 h2. feed ins vs h = (Inr (), h1) \<and> drain del (length vs) h1 = (Inr (rev vs), h2) \<and> ok h2 \<and> look h2 = look h"
proof -
  obtain h1 where h1: "feed ins vs h = (Inr (), h1)" "ok h1" "look h1 = rev vs @ look h"
    using feed_looks[OF assms] by blast
  with drain_takes[of h1 "rev vs" "look h"] show ?thesis by auto
qed

end

text \<open>The two ends of one container.\<close>

locale deque = front: container_end ok look limit ins_front del_front +
    rear: container_end ok "\<lambda>h. rev (look h)" limit ins_back del_back
  for ok :: "'h \<Rightarrow> bool" and look :: "'h \<Rightarrow> 'v list" and limit :: nat
    and ins_front :: "'v \<Rightarrow> 'h \<Rightarrow> ('e + 'r) \<times> 'h" and del_front :: "'h \<Rightarrow> ('e + 'v) \<times> 'h"
    and ins_back :: "'v \<Rightarrow> 'h \<Rightarrow> ('e + 'r) \<times> 'h" and del_back :: "'h \<Rightarrow> ('e + 'v) \<times> 'h"
begin

lemma queue_roundtrip:
  assumes "ok h" "length (look h) + length vs \<le> limit"
  shows "\<exists>h1 h2. feed ins_back vs h = (Inr (), h1) \<and>
    drain del_front (length (look h) + length vs) h1 = (Inr (look h @ vs), h2) \<and> ok h2 \<and> look h2 = []"
proof -
  obtain h1 where h1: "feed ins_back vs h = (Inr (), h1)" "ok h1" "rev (look h1) = rev vs @ rev (look h)"
    using rear.feed_looks[of h vs] assms by auto
  then have "look h1 = (look h @ vs) @ []" by (metis append_Nil2 rev_append rev_rev_ident)
  from front.drain_takes[OF h1(2) this] h1(1) show ?thesis by auto
qed

end

lemma updates_end:
  "updates m a h x vs \<Longrightarrow> writable h a \<Longrightarrow> \<exists>h'. m h = (Inr x, h') \<and> (heap_ok h' \<and> writable h' a) \<and> ary_list h' a = vs"
  by (auto elim!: updatesE intro: frame_writable)

interpretation ary: deque "\<lambda>h. heap_ok h \<and> writable h a" "\<lambda>h. ary_list h a" 268435456
  "\<lambda>v. rb_ary_unshift a v" "rb_ary_shift a" "\<lambda>v. rb_ary_push a v" "rb_ary_pop a" for a
proof unfold_locales
  show "\<exists>x h'. rb_ary_unshift a v h = (Inr x, h') \<and> (heap_ok h' \<and> writable h' a) \<and> ary_list h' a = v # ary_list h a"
    if "heap_ok h \<and> writable h a" "length (ary_list h a) < 268435456" for h v
    using updates_end[OF rb_ary_unshift_ok[of h a v]] that by blast
  show "\<exists>h'. rb_ary_shift a h = (Inr v, h') \<and> (heap_ok h' \<and> writable h' a) \<and> ary_list h' a = vs"
    if "heap_ok h \<and> writable h a" "ary_list h a = v # vs" for h v vs
    using updates_end[OF rb_ary_shift_ok[of h a]] that by simp
  show "\<exists>x h'. rb_ary_push a v h = (Inr x, h') \<and> (heap_ok h' \<and> writable h' a) \<and> rev (ary_list h' a) = v # rev (ary_list h a)"
    if "heap_ok h \<and> writable h a" "length (rev (ary_list h a)) < 268435456" for h v
    using updates_end[OF rb_ary_push_ok[of h a v]] that by auto
  show "\<exists>h'. rb_ary_pop a h = (Inr v, h') \<and> (heap_ok h' \<and> writable h' a) \<and> rev (ary_list h' a) = vs"
    if "heap_ok h \<and> writable h a" "rev (ary_list h a) = v # vs" for h v vs
  proof -
    have "ary_list h a = rev vs @ [v]" using that(2) by (simp add: rev_eq_Cons_iff)
    then show ?thesis using updates_end[OF rb_ary_pop_ok[of h a]] that(1) by auto
  qed
qed

section \<open>Properties of sequences of operations\<close>

text \<open>
  C26. Any sequence of array mutators, on any arrays a program can name and with any outcome, is
  simulated by the machine that keeps one list per array: every answer is the one the list machine
  gives, no step reads or writes outside a block or reads a cell never written, the ownership
  discipline of shared blocks still holds at the end, and every array then holds the elements of
  its list. The indices of stores are fixnums, and \<open>unshift\<close> is used on arrays of fewer than \<open>2\<^sup>2\<^sup>8\<close>
  elements; no other size is limited. A step that raises changes no element, and raises for an index
  before the first element, for an array that is frozen, locked or protected, or because more than
  \<open>2\<^sup>2\<^sup>8\<close> elements would result; an array that may not be written never changes.
\<close>

theorem array_run_simulates:
  assumes "heap_ok h0" "array_run h0 tr h"
  shows "heap_ok h \<and> answers_ok (writable h0) (ary_list h0) tr \<and>
    (\<forall>a. visible h0 a \<longrightarrow> visible h a \<and> ary_list h a = fold spec_step tr (ary_list h0) a)"
  using array_run_tracks[OF assms(2,1)] by (simp add: tracks_def)

theorem array_run_simulates_witness:
  "\<exists>h. array_run sample_heap [(Push 0 Qnil, Inr (Ary 0))] h \<and> heap_ok h \<and> ary_list h 0 = fix_cells [1, 2, 3] @ [Qnil] \<and>
    ary_list h 1 = fix_cells [2, 3]"
proof -
  obtain h where h: "rb_ary_push 0 Qnil sample_heap = (Inr 0, h)"
    using rb_ary_push_ok[of sample_heap 0 Qnil] sample_heap_ok by (auto simp: fix_cells_def elim: updatesE)
  have v: "visible sample_heap 0" "visible sample_heap 1" using sample_heap_ok by (auto intro: writable_visible)
  have "array_run sample_heap ([] @ [(Push 0 Qnil, Inr (Ary 0))]) h"
    using h v sample_heap_ok by (intro run_step[OF run_nil]) (auto simp: fix_cells_def)
  then show ?thesis using array_run_simulates[of sample_heap "[(Push 0 Qnil, Inr (Ary 0))]" h] v sample_heap_ok
    by (auto simp: spec_step_def)
qed

text \<open>
  An array as a queue and as a stack. Elements pushed one by one come back from \<open>shift\<close> in the
  order they went in, after those that were there before; from \<open>pop\<close>, in the opposite order;
  elements put in front by \<open>unshift\<close> come back from \<open>shift\<close> last in, first out. This holds through
  every reallocation, and every step at which \<open>shift\<close> shares the block and \<open>push\<close> copies it again.
\<close>

theorem array_queue_roundtrip:
  assumes "heap_ok h" "writable h a" "length (ary_list h a) + length vs \<le> 268435456"
  shows "(\<exists>h1 h2. feed (rb_ary_push a) vs h = (Inr (), h1) \<and>
      drain (rb_ary_shift a) (length (ary_list h a) + length vs) h1 = (Inr (ary_list h a @ vs), h2) \<and>
      heap_ok h2 \<and> ary_list h2 a = []) \<and>
    (\<exists>h1 h2. feed (rb_ary_push a) vs h = (Inr (), h1) \<and> drain (rb_ary_pop a) (length vs) h1 = (Inr (rev vs), h2) \<and>
      heap_ok h2 \<and> ary_list h2 a = ary_list h a) \<and>
    (\<exists>h1 h2. feed (rb_ary_unshift a) vs h = (Inr (), h1) \<and> drain (rb_ary_shift a) (length vs) h1 = (Inr (rev vs), h2) \<and>
      heap_ok h2 \<and> ary_list h2 a = ary_list h a)"
  using ary.queue_roundtrip[of h a vs] ary.rear.stack_roundtrip[of h a vs] ary.front.stack_roundtrip[of h a vs] assms
  by (auto simp del: drain.simps feed.simps)

theorem array_queue_roundtrip_witness:
  "\<exists>h1 h2. feed (rb_ary_push 0) [Qnil, Ary 0] sample_heap = (Inr (), h1) \<and>
     drain (rb_ary_shift 0) 5 h1 = (Inr (fix_cells [1, 2, 3] @ [Qnil, Ary 0]), h2) \<and> ary_list h2 0 = []"
proof -
  have "length (ary_list sample_heap 0) + length [Qnil, Ary 0] = 5" using sample_heap_ok by (simp add: fix_cells_def)
  then show ?thesis
    using array_queue_roundtrip[of sample_heap 0 "[Qnil, Ary 0]", THEN conjunct1] sample_heap_ok
    by (simp only:) auto
qed


end
