(* ===== verification/Pack.thy ===== *)
theory Pack
  imports RArray_Slice Bignum_Div
begin

unbundle bit_operations_syntax

text \<open>
  The text encodings of \<^verbatim>\<open>src/ruby/pack.c\<close>: UTF-8 (\<open>U\<close>), uuencode (\<open>u\<close>), base64 (\<open>m\<close>),
  quoted-printable (\<open>M\<close>) and BER compressed integers (\<open>w\<close>), each in both directions. A string is
  a list of bytes; \<open>char\<close> is signed on OpenVMS, so reading a \<open>char\<close> gives \<open>sint\<close> and reading an
  \<open>unsigned char\<close> gives \<open>uint\<close>, and storing an \<open>int\<close> keeps its low eight bits. A pointer \<open>s\<close> into the
  text is the list of the bytes from \<open>s\<close> to the end; behind the end stands the NUL byte that ends
  every Ruby string.
\<close>

type_synonym byte = "8 word"

definition to_char :: "int \<Rightarrow> byte" where
  "to_char i = word_of_int i"

definition peek :: "byte list \<Rightarrow> nat \<Rightarrow> int outcome" where
  "peek s k = (if k < length s then return (sint (s ! k)) else if k = length s then return 0 else raise Undefined)"

section \<open>UTF-8\<close>

definition uv_to_utf8 :: "int \<Rightarrow> byte list outcome" where
  "uv_to_utf8 uv =
     (if uv \<le> 0x7f then return [to_char uv]
      else if uv \<le> 0x7ff then return
        [to_char ((drop_bit 6 uv AND 0xff) OR 0xc0),
         to_char ((uv AND 0x3f) OR 0x80)]
      else if uv \<le> 0xffff then return
        [to_char ((drop_bit 12 uv AND 0xff) OR 0xe0),
         to_char ((drop_bit 6 uv AND 0x3f) OR 0x80),
         to_char ((uv AND 0x3f) OR 0x80)]
      else if uv \<le> 0x1fffff then return
        [to_char ((drop_bit 18 uv AND 0xff) OR 0xf0),
         to_char ((drop_bit 12 uv AND 0x3f) OR 0x80),
         to_char ((drop_bit 6 uv AND 0x3f) OR 0x80),
         to_char ((uv AND 0x3f) OR 0x80)]
      else if uv \<le> 0x3ffffff then return
        [to_char ((drop_bit 24 uv AND 0xff) OR 0xf8),
         to_char ((drop_bit 18 uv AND 0x3f) OR 0x80),
         to_char ((drop_bit 12 uv AND 0x3f) OR 0x80),
         to_char ((drop_bit 6 uv AND 0x3f) OR 0x80),
         to_char ((uv AND 0x3f) OR 0x80)]
      else if uv \<le> 0x7fffffff then return
        [to_char ((drop_bit 30 uv AND 0xff) OR 0xfc),
         to_char ((drop_bit 24 uv AND 0x3f) OR 0x80),
         to_char ((drop_bit 18 uv AND 0x3f) OR 0x80),
         to_char ((drop_bit 12 uv AND 0x3f) OR 0x80),
         to_char ((drop_bit 6 uv AND 0x3f) OR 0x80),
         to_char ((uv AND 0x3f) OR 0x80)]
      else raise RangeError)"

text \<open>The limits are converted to \<open>unsigned long\<close> by the comparison.\<close>

definition utf8_limits :: "int list" where
  "utf8_limits = [0x0, 0x80, 0x800, 0x10000, 0x200000, 0x4000000, 0x80000000]"

fun utf8_loop :: "nat \<Rightarrow> byte list \<Rightarrow> int \<Rightarrow> int outcome" where
  "utf8_loop 0 p uv = return uv"
| "utf8_loop (Suc n) p uv = (case p of
       [] \<Rightarrow> raise Undefined
     | b # p \<Rightarrow>
         (let c = sint b AND 0xff in
          if c AND 0xc0 \<noteq> 0x80 then raise ArgError
          else utf8_loop n p (u32 (push_bit 6 uv) OR (c AND 0x3f))))"

text \<open>The answer is the character and the number of bytes it takes.\<close>

definition utf8_to_uv :: "byte list \<Rightarrow> int \<Rightarrow> (int \<times> int) outcome" where
  "utf8_to_uv p lenp = (case p of
       [] \<Rightarrow> raise Undefined
     | b # p \<Rightarrow>
         (let uv = sint b AND 0xff in
          if uv AND 0x80 = 0 then return (uv, 1)
          else if uv AND 0x40 = 0 then raise ArgError
          else
            obind (if uv AND 0x20 = 0 then return (2, uv AND 0x1f)
                   else if uv AND 0x10 = 0 then return (3, uv AND 0x0f)
                   else if uv AND 0x08 = 0 then return (4, uv AND 0x07)
                   else if uv AND 0x04 = 0 then return (5, uv AND 0x03)
                   else if uv AND 0x02 = 0 then return (6, uv AND 0x01)
                   else raise ArgError) (\<lambda>(n, uv).
            if n > lenp then raise ArgError
            else
              obind (utf8_loop (nat (n - 1)) p uv) (\<lambda>uv.
              if uv < utf8_limits ! nat (n - 1) then raise ArgError
              else return (uv, n)))))"

text \<open>The directive \<open>U\<close>: \<open>pack_U\<close> writes the characters, \<open>unpack_U\<close> reads at most \<open>len\<close> of them.\<close>

fun pack_U :: "VALUE list \<Rightarrow> byte list outcome" where
  "pack_U [] = return []"
| "pack_U (from # items) =
     obind (rb_num2long from) (\<lambda>l.
     if l < 0 then raise RangeError
     else
       obind (uv_to_utf8 l) (\<lambda>buf.
       obind (pack_U items) (\<lambda>res. return (buf @ res))))"

text \<open>A decoded character takes at least one byte, so the bytes left bound the number of rounds.\<close>

fun unpack_U_loop :: "nat \<Rightarrow> byte list \<Rightarrow> VALUE list outcome" where
  "unpack_U_loop 0 s = return []"
| "unpack_U_loop (Suc len) s =
     (if s = [] then return []
      else
        obind (utf8_to_uv s (int (length s))) (\<lambda>(l, alen).
        obind (unpack_U_loop len (drop (nat alen) s)) (\<lambda>ary.
        return (Num (rb_uint2inum l) # ary))))"

definition unpack_U :: "int \<Rightarrow> byte list \<Rightarrow> VALUE list outcome" where
  "unpack_U len s = unpack_U_loop (nat (min len (int (length s)))) s"

section \<open>uuencode and base64\<close>

definition ascii :: "string \<Rightarrow> byte list" where
  "ascii cs = map of_char cs"

definition uu_table :: "byte list" where
  "uu_table = ascii ''`!\"#$%&'' @ [39] @ ascii ''()*+,-./0123456789:;<=>?@ABCDEFGHIJKLMNOPQRSTUVWXYZ['' @ [92] @ ascii '']^_''"

definition b64_table :: "byte list" where
  "b64_table = ascii ''ABCDEFGHIJKLMNOPQRSTUVWXYZabcdefghijklmnopqrstuvwxyz0123456789+/''"

fun encode_groups :: "byte list \<Rightarrow> byte \<Rightarrow> byte list \<Rightarrow> byte list" where
  "encode_groups tbl padding (s0 # s1 # s2 # s) =
     [tbl ! nat (0x3f AND drop_bit 2 (sint s0)),
      tbl ! nat (0x3f AND ((push_bit 4 (sint s0) AND 0x30) OR (drop_bit 4 (sint s1) AND 0xf))),
      tbl ! nat (0x3f AND ((push_bit 2 (sint s1) AND 0x3c) OR (drop_bit 6 (sint s2) AND 0x3))),
      tbl ! nat (0x3f AND sint s2)] @ encode_groups tbl padding s"
| "encode_groups tbl padding [s0, s1] =
     [tbl ! nat (0x3f AND drop_bit 2 (sint s0)),
      tbl ! nat (0x3f AND ((push_bit 4 (sint s0) AND 0x30) OR (drop_bit 4 (sint s1) AND 0xf))),
      tbl ! nat (0x3f AND ((push_bit 2 (sint s1) AND 0x3c) OR (drop_bit 6 0 AND 0x3))),
      padding]"
| "encode_groups tbl padding [s0] =
     [tbl ! nat (0x3f AND drop_bit 2 (sint s0)),
      tbl ! nat (0x3f AND ((push_bit 4 (sint s0) AND 0x30) OR (drop_bit 4 0 AND 0xf))),
      padding, padding]"
| "encode_groups tbl padding [] = []"

text \<open>\<open>uu\<close> is \<open>type == 'u'\<close>.\<close>

definition encodes :: "bool \<Rightarrow> byte list \<Rightarrow> byte list" where
  "encodes uu s =
     (if uu then [to_char (int (length s) + 32)] @ encode_groups uu_table 96 s
      else encode_groups b64_table 61 s) @ [10]"

function encode_lines :: "bool \<Rightarrow> nat \<Rightarrow> byte list \<Rightarrow> byte list" where
  "encode_lines uu len s =
     (if s = [] \<or> len = 0 then [] else encodes uu (take len s) @ encode_lines uu len (drop len s))"
  by pat_completeness auto
termination by (relation "measure (\<lambda>(uu, len, s). length s)") auto

declare encode_lines.simps [simp del]

definition line_length :: "int \<Rightarrow> nat" where
  "line_length len = nat (if len \<le> 2 then 45 else c_quot len 3 * 3)"

definition pack_um :: "bool \<Rightarrow> int \<Rightarrow> byte list \<Rightarrow> byte list" where
  "pack_um uu len s = encode_lines uu (line_length len) s"

text \<open>The size of the result buffer; a negative one is refused by \<open>rb_str_new\<close>.\<close>

definition decoded_size :: "byte list \<Rightarrow> int" where
  "decoded_size s = c_quot (s32 (int (length s) * 3)) 4"

fun uu_char :: "byte list \<Rightarrow> int \<times> byte list" where
  "uu_char [] = (0, [])"
| "uu_char (b # s) = (if sint b \<ge> 32 then ((sint b - 32) AND 0x3f, s) else (0, b # s))"

function uu_line :: "nat \<Rightarrow> byte list \<Rightarrow> byte list \<times> byte list" where
  "uu_line len s =
     (if len > 0 then
        (let mlen = (if len > 3 then 3 else len);
             (a, s) = uu_char s; (b, s) = uu_char s; (c, s) = uu_char s; (d, s) = uu_char s;
             hunk = [to_char (push_bit 2 a OR drop_bit 4 b),
                     to_char (push_bit 4 b OR drop_bit 2 c),
                     to_char (push_bit 6 c OR d)];
             (out, s) = uu_line (len - mlen) s in
         (take mlen hunk @ out, s))
      else ([], s))"
  by pat_completeness auto
termination by (relation "measure fst") auto

declare uu_line.simps [simp del]

text \<open>Behind the line: an optional carriage return, then a newline or a checksum byte and whatever follows it.\<close>

definition uu_line_end :: "byte list \<Rightarrow> byte list" where
  "uu_line_end s =
     (let s = (case s of b # t \<Rightarrow> if b = 13 then t else s | [] \<Rightarrow> []) in
      case s of
        [] \<Rightarrow> []
      | b # t \<Rightarrow>
          if b = 10 then t
          else if t = [] \<or> hd t = 10 then drop 1 t
          else s)"

lemma uu_char_length: "length (snd (uu_char s)) \<le> length s"
  by (cases s) auto

lemma uu_line_length: "length (snd (uu_line len s)) \<le> length s"
proof (induction len s rule: uu_line.induct)
  case (1 len s)
  show ?case
  proof (cases "len > 0")
    case True
    obtain a s1 b s2 c s3 d s4 where e: "uu_char s = (a, s1)" "uu_char s1 = (b, s2)" "uu_char s2 = (c, s3)" "uu_char s3 = (d, s4)"
      by (metis surj_pair)
    have l: "length s4 \<le> length s" using uu_char_length[of s] uu_char_length[of s1] uu_char_length[of s2] uu_char_length[of s3] e by simp
    show ?thesis using 1 True e l by (subst uu_line.simps) (fastforce split: prod.splits)
  qed (simp add: uu_line.simps)
qed

lemma uu_line_end_length: "length (uu_line_end s) \<le> length s"
  by (auto simp: uu_line_end_def Let_def split: list.splits)

function unpack_u_loop :: "int \<Rightarrow> int \<Rightarrow> byte list \<Rightarrow> byte list" where
  "unpack_u_loop lim ttl s =
     (if s \<noteq> [] \<and> sint (hd s) > 32 \<and> sint (hd s) < 97 then
        (let len = (sint (hd s) - 32) AND 0x3f;
             tot = ttl + len;
             len' = (if tot > lim then len - (tot - lim) else len);
             tot' = (if tot > lim then lim else tot);
             r = uu_line (nat len') (tl s) in
         fst r @ unpack_u_loop lim tot' (uu_line_end (snd r)))
      else [])"
  by pat_completeness auto
termination
proof (relation "measure (\<lambda>(lim, ttl, s). length s)")
  fix ttl lim :: int and s :: "byte list" and len tot len' tot' r
  assume "s \<noteq> [] \<and> 32 < sint (hd s) \<and> sint (hd s) < 97" and r: "r = uu_line (nat len') (tl s)"
  then have "length (tl s) < length s" by simp
  then show "((lim, tot', uu_line_end (snd r)), lim, ttl, s) \<in> measure (\<lambda>(lim, ttl, s). length s)"
    using uu_line_end_length[of "snd r"] uu_line_length[of "nat len'" "tl s"] r by simp
qed simp

declare unpack_u_loop.simps [simp del]

definition unpack_u :: "byte list \<Rightarrow> byte list outcome" where
  "unpack_u s =
     (if decoded_size s < 0 then raise ArgError else return (unpack_u_loop (decoded_size s) 0 s))"

text \<open>The reverse table, and a look-up by a signed \<open>char\<close>: a negative index lies outside the table.\<close>

definition b64_xtable :: "int list" where
  "b64_xtable = fold (\<lambda>i t. t[nat (sint (b64_table ! i)) := int i]) [0..<64] (replicate 256 (-1))"

definition b64_look :: "byte list \<Rightarrow> nat \<Rightarrow> int outcome" where
  "b64_look s k = obind (peek s k) (\<lambda>v. if v < 0 then raise Undefined else return (b64_xtable ! nat v))"

function unpack_m_loop :: "int \<times> int \<times> int \<Rightarrow> byte list \<Rightarrow> byte list \<Rightarrow> ((int \<times> int \<times> int) \<times> byte list \<times> byte list) outcome" where
  "unpack_m_loop abc s out =
     (if s = [] then return (abc, s, out)
      else
        (let (a, b, c) = abc; s' = dropWhile (\<lambda>x. x = 13 \<or> x = 10) s in
         obind (b64_look s' 0) (\<lambda>a. if a = -1 then return ((a, b, c), s', out) else
         obind (b64_look s' 1) (\<lambda>b. if b = -1 then return ((a, b, c), s', out) else
         obind (b64_look s' 2) (\<lambda>c. if c = -1 then return ((a, b, c), s', out) else
         obind (b64_look s' 3) (\<lambda>d. if d = -1 then return ((a, b, c), s', out) else
         unpack_m_loop (a, b, c) (drop 4 s')
           (out @ [to_char (push_bit 2 a OR drop_bit 4 b),
                   to_char (push_bit 4 b OR drop_bit 2 c),
                   to_char (push_bit 6 c OR d)])))))))"
  by pat_completeness auto
termination
proof (relation "measure (\<lambda>(abc, s, out). length s)")
  fix s :: "byte list" and abc abc' :: "int \<times> int \<times> int" and out out' s' 
  assume "s \<noteq> []" and s': "s' = dropWhile (\<lambda>x. x = 13 \<or> x = 10) s"
  then have "0 < length s" "length s' \<le> length s" by (simp_all add: length_dropWhile_le)
  then have "length (drop 4 s') < length s" unfolding length_drop by linarith
  then show "((abc', drop 4 s', out'), abc, s, out) \<in> measure (\<lambda>(abc, s, out). length s)" by simp
qed simp

declare unpack_m_loop.simps [simp del]

text \<open>The group that was cut short by padding.\<close>

definition unpack_m_tail :: "(int \<times> int \<times> int) \<times> byte list \<times> byte list \<Rightarrow> byte list" where
  "unpack_m_tail r =
     (let ((a, b, c), s, out) = r in
      if a \<noteq> -1 \<and> b \<noteq> -1 then
        out @ (if 2 < length s \<and> s ! 2 = 61 then [to_char (push_bit 2 a OR drop_bit 4 b)] else []) @
          (if c \<noteq> -1 \<and> 3 < length s \<and> s ! 3 = 61 then
             [to_char (push_bit 2 a OR drop_bit 4 b), to_char (push_bit 4 b OR drop_bit 2 c)] else [])
      else out)"

definition unpack_m :: "byte list \<Rightarrow> byte list outcome" where
  "unpack_m s =
     (if decoded_size s < 0 then raise ArgError
      else obind (unpack_m_loop (-1, -1, 0) s []) (\<lambda>r. return (unpack_m_tail r)))"

section \<open>Quoted-printable\<close>

definition hex_table :: "byte list" where
  "hex_table = ascii ''0123456789ABCDEF''"

text \<open>
  The loop carries the part of \<open>buff\<close> in use, the line length \<open>n\<close>, the previous character (\<open>-1\<close> is
  \<open>EOF\<close>) and what has been appended to the result.
\<close>

type_synonym qp_state = "byte list \<times> int \<times> int \<times> byte list"

text \<open>\<open>qp_char\<close> is the body of the loop up to the test that empties the buffer.\<close>

definition qp_char :: "int \<Rightarrow> byte \<Rightarrow> byte list \<Rightarrow> int \<Rightarrow> int \<Rightarrow> byte list \<times> int \<times> int" where
  "qp_char len s buff n prev =
     (let c = uint s;
          (buff, n, prev) =
            (if c > 126 \<or> (c < 32 \<and> c \<noteq> 10 \<and> c \<noteq> 9) \<or> c = 61 then
               (buff @ [61, hex_table ! nat (drop_bit 4 c), hex_table ! nat (c AND 0x0f)], n + 3, -1)
             else if c = 10 then
               (if prev = 32 \<or> prev = 9 then (buff @ [61, s] @ [s], 0, c) else (buff @ [s], 0, c))
             else (buff @ [s], n + 1, c)) in
      if n > len then (buff @ [61, 10], 0, 10) else (buff, n, prev))"

definition qp_step :: "int \<Rightarrow> byte \<Rightarrow> qp_state \<Rightarrow> qp_state" where
  "qp_step len s st =
     (let (buff, n, prev, str) = st; (buff, n, prev) = qp_char len s buff n prev in
      if length buff > 1024 - 5 then ([], n, prev, str @ buff) else (buff, n, prev, str))"

definition qpencode :: "byte list \<Rightarrow> int \<Rightarrow> byte list" where
  "qpencode from len =
     (let (buff, n, prev, str) = fold (qp_step len) from ([], 0, -1, []);
          buff = (if n > 0 then buff @ [61, 10] else buff) in
      if length buff > 0 then str @ buff else str)"

definition pack_M :: "int \<Rightarrow> byte list \<Rightarrow> byte list" where
  "pack_M len from = qpencode from (if len \<le> 1 then 72 else len)"

definition hex2num :: "byte \<Rightarrow> int" where
  "hex2num c =
     (if 48 \<le> sint c \<and> sint c \<le> 57 then sint c - 48
      else if 97 \<le> sint c \<and> sint c \<le> 102 then sint c - 97 + 10
      else if 65 \<le> sint c \<and> sint c \<le> 70 then sint c - 65 + 10
      else -1)"

fun unpack_M :: "byte list \<Rightarrow> byte list" where
  "unpack_M [] = []"
| "unpack_M (b # s) =
     (if b = 61 then
        (case s of
           [] \<Rightarrow> []
         | x # t \<Rightarrow>
             if x \<noteq> 10 then
               (if hex2num x = -1 then []
                else (case t of
                    [] \<Rightarrow> []
                  | y # t \<Rightarrow>
                      if hex2num y = -1 then []
                      else to_char (push_bit 4 (hex2num x) OR hex2num y) # unpack_M t))
             else unpack_M t)
      else b # unpack_M s)"

section \<open>BER compressed integers\<close>

text \<open>
  The two loops of the directive \<open>w\<close>: the first divides a \<open>Bignum\<close> by 128 until a fixnum is left,
  the second takes the \<open>long\<close> apart. A \<open>Bignum\<close> loses seven bits in each round and a digit has
  sixteen, so three rounds per digit are more than enough.
\<close>

fun ber_big :: "nat \<Rightarrow> value \<Rightarrow> (byte list \<times> value) outcome" where
  "ber_big 0 from = raise Undefined"
| "ber_big (Suc n) from = (case from of
       Bignum x \<Rightarrow>
         obind (rb_big_divmod x (Bignum (rb_uint2big 128))) (\<lambda>(d, m).
         obind (rb_num2long (Num m)) (\<lambda>c.
         obind (ber_big n d) (\<lambda>(buf, from).
         return (to_char (c OR 0x80) # buf, from))))
     | _ \<Rightarrow> return ([], from))"

function ber_long :: "int \<Rightarrow> byte list" where
  "ber_long ul = (if ul > 0 then to_char ((ul AND 0x7f) OR 0x80) # ber_long (drop_bit 7 ul) else [])"
  by pat_completeness auto
termination by (relation "measure nat") (auto simp: drop_bit_eq_div)

declare ber_long.simps [simp del]

definition ber_rounds :: "value \<Rightarrow> nat" where
  "ber_rounds from = (case from of Bignum x \<Rightarrow> 3 * length (digits x) + 1 | _ \<Rightarrow> 1)"

text \<open>An item that is no number is handed on to \<open>NUM2LONG\<close>, as every non-\<open>Bignum\<close> is.\<close>

definition ber_item :: "VALUE \<Rightarrow> (byte list \<times> VALUE) outcome" where
  "ber_item from = (case from of
       Num v \<Rightarrow> obind (ber_big (ber_rounds v) v) (\<lambda>(buf, v). return (buf, Num v))
     | _ \<Rightarrow> return ([], from))"

fun pack_w :: "VALUE list \<Rightarrow> byte list outcome" where
  "pack_w [] = return []"
| "pack_w (from # items) =
     obind (ber_item from) (\<lambda>(buf, from).
     obind (rb_num2long from) (\<lambda>l.
     if l < 0 then raise ArgError
     else
       (let buf = buf @ ber_long l in
       obind (pack_w items) (\<lambda>res.
       return ((case buf of [] \<Rightarrow> [0] | b # bs \<Rightarrow> rev ((b AND 0x7f) # bs)) @ res)))))"

fun unber_big :: "value \<Rightarrow> byte list \<Rightarrow> (value option \<times> byte list) outcome" where
  "unber_big big [] = return (None, [])"
| "unber_big big (b # s) =
     obind (rb_big_mul big (Bignum (rb_uint2big 128))) (\<lambda>big.
     obind (case big of Bignum x \<Rightarrow> rb_big_plus x (Bignum (rb_uint2big (sint b AND 0x7f))) | _ \<Rightarrow> raise Undefined) (\<lambda>big.
     if sint b AND 0x80 = 0 then return (Some big, s) else unber_big big s))"

lemma unber_big_length: "unber_big big s = Inr (r, t) \<Longrightarrow> length t \<le> length s"
  by (induction big s arbitrary: r t rule: unber_big.induct) (fastforce simp: obind_eq_Inr_iff split: if_splits)+

text \<open>\<open>ulmask\<close> has the seven highest bits of an \<open>unsigned long\<close>.\<close>

function unpack_w_loop :: "nat \<Rightarrow> int \<Rightarrow> byte list \<Rightarrow> VALUE list outcome" where
  "unpack_w_loop len ul s =
     (if len = 0 \<or> s = [] then return []
      else
        (let b = hd s; t = tl s; ul = u32 (push_bit 7 ul) OR (sint b AND 0x7f) in
         if sint b AND 0x80 = 0 then
           obind (unpack_w_loop (len - 1) 0 t) (\<lambda>ary. return (Num (rb_uint2inum ul) # ary))
         else if ul AND 0xfe000000 \<noteq> 0 then
           obind (unber_big (Bignum (rb_uint2big ul)) t) (\<lambda>(big, t).
           case big of
             None \<Rightarrow> unpack_w_loop len ul t
           | Some big \<Rightarrow> obind (unpack_w_loop (len - 1) 0 t) (\<lambda>ary. return (Num big # ary)))
         else unpack_w_loop len ul t))"
  by pat_completeness auto
termination
  by (relation "measure (\<lambda>(len, ul, s). length s)") (auto simp: neq_Nil_conv dest!: unber_big_length)

declare unpack_w_loop.simps [simp del]

definition unpack_w :: "nat \<Rightarrow> byte list \<Rightarrow> VALUE list outcome" where
  "unpack_w len s = unpack_w_loop len 0 s"

section \<open>Bits and bytes\<close>

lemma or_high:
  assumes "0 \<le> x" "x < 2 ^ n"
  shows "x OR (2 ^ n * y) = x + 2 ^ n * (y::int)"
proof -
  have "concat_bit n x y = x OR push_bit n y" using assms by (simp add: concat_bit_def take_bit_int_eq_self)
  moreover have "concat_bit n x y = x + push_bit n y" using assms by (simp add: concat_bit_eq take_bit_int_eq_self)
  ultimately show ?thesis by (simp add: push_bit_eq_mult mult.commute)
qed

lemma low_bits: "x AND 63 = x mod 64" "x AND 127 = x mod 128" "x AND 255 = x mod (256::int)" "x AND 15 = x mod 16"
  using take_bit_eq_mask[of 6 x] take_bit_eq_mask[of 7 x] take_bit_eq_mask[of 8 x] take_bit_eq_mask[of 4 x]
  by (simp_all add: mask_eq_exp_minus_1 take_bit_eq_mod)

lemma uint_to_char: "0 \<le> v \<Longrightarrow> v < 256 \<Longrightarrow> uint (to_char v) = v"
  by (simp add: to_char_def unsigned_of_int take_bit_eq_mod)

lemma to_char_uint [simp]: "to_char (uint b) = b"
  by (simp add: to_char_def)

lemma sint_low: "sint (b::byte) AND 255 = uint b" "sint b mod 256 = uint b"
  using uint_sint[of b] by (simp_all add: low_bits take_bit_eq_mod)

lemma byte_bounds: "0 \<le> uint (b::byte)" "uint (b::byte) < 256"
  using uint_lt2p[of b] by simp_all

text \<open>What the masks of the code test, for each of the 256 bytes.\<close>

lemma byte_masks_all:
  "list_all (\<lambda>c. (c AND 0x80 = 0) = (c < 128) \<and> (128 \<le> c \<longrightarrow> (c AND 0x40 = 0) = (c < 192)) \<and>
     (192 \<le> c \<longrightarrow> (c AND 0x20 = 0) = (c < 224)) \<and> (224 \<le> c \<longrightarrow> (c AND 0x10 = 0) = (c < 240)) \<and>
     (240 \<le> c \<longrightarrow> (c AND 0x08 = 0) = (c < 248)) \<and> (248 \<le> c \<longrightarrow> (c AND 0x04 = 0) = (c < 252)) \<and>
     (252 \<le> c \<longrightarrow> (c AND 0x02 = 0) = (c < 254)) \<and> (c AND 0xc0 = 0x80) = (128 \<le> c \<and> c < 192) \<and>
     (192 \<le> c \<and> c < 224 \<longrightarrow> c AND 0x1f = c - 192) \<and> (224 \<le> c \<and> c < 240 \<longrightarrow> c AND 0x0f = c - 224) \<and>
     (240 \<le> c \<and> c < 248 \<longrightarrow> c AND 0x07 = c - 240) \<and> (248 \<le> c \<and> c < 252 \<longrightarrow> c AND 0x03 = c - 248) \<and>
     (252 \<le> c \<and> c < 254 \<longrightarrow> c AND 0x01 = c - (252::int))) [0..255]"
  by code_simp

lemma byte_masks:
  assumes "0 \<le> c" "c < (256::int)"
  shows "(c AND 0x80 = 0) = (c < 128)" "128 \<le> c \<Longrightarrow> (c AND 0x40 = 0) = (c < 192)"
    "192 \<le> c \<Longrightarrow> (c AND 0x20 = 0) = (c < 224)" "224 \<le> c \<Longrightarrow> (c AND 0x10 = 0) = (c < 240)"
    "240 \<le> c \<Longrightarrow> (c AND 0x08 = 0) = (c < 248)" "248 \<le> c \<Longrightarrow> (c AND 0x04 = 0) = (c < 252)"
    "252 \<le> c \<Longrightarrow> (c AND 0x02 = 0) = (c < 254)" "(c AND 0xc0 = 0x80) = (128 \<le> c \<and> c < 192)"
    "192 \<le> c \<Longrightarrow> c < 224 \<Longrightarrow> c AND 0x1f = c - 192" "224 \<le> c \<Longrightarrow> c < 240 \<Longrightarrow> c AND 0x0f = c - 224"
    "240 \<le> c \<Longrightarrow> c < 248 \<Longrightarrow> c AND 0x07 = c - 240" "248 \<le> c \<Longrightarrow> c < 252 \<Longrightarrow> c AND 0x03 = c - 248"
    "252 \<le> c \<Longrightarrow> c < 254 \<Longrightarrow> c AND 0x01 = c - 252"
  using byte_masks_all assms by (simp_all add: list_all_iff)

section \<open>UTF-8: the bytes of a character\<close>

fun cont_bytes :: "nat \<Rightarrow> int \<Rightarrow> byte list" where
  "cont_bytes 0 v = []"
| "cont_bytes (Suc n) v = cont_bytes n (v div 64) @ [to_char (128 + v mod 64)]"

lemma length_cont_bytes [simp]: "length (cont_bytes n v) = n"
  by (induction n arbitrary: v) simp_all

lemma utf8_loop_app:
  "utf8_loop n p uv = Inr w \<Longrightarrow> utf8_loop (n + m) p uv = utf8_loop m (drop n p) w"
  by (induction n p uv rule: utf8_loop.induct) (auto simp: Let_def split: list.splits if_splits)

lemma utf8_loop_one:
  assumes "0 \<le> uv" "uv < 67108864"
  shows "utf8_loop 1 (b # p) uv = (if 128 \<le> uint b \<and> uint b < 192 then Inr (uv * 64 + uint b mod 64) else Inl ArgError)"
proof -
  note b = byte_bounds[of b]
  have "u32 (push_bit 6 uv) = 2 ^ 6 * uv" using assms by (simp add: push_bit_eq_mult u32_id mult.commute)
  then have "u32 (push_bit 6 uv) OR uint b mod 64 = uint b mod 64 + 2 ^ 6 * uv"
    using or_high[of "uint b mod 64" 6 uv] by (simp add: or.commute)
  then show ?thesis using byte_masks(8)[OF b]
    by (simp add: sint_low low_bits Let_def)
qed

lemma utf8_loop_cont:
  assumes "0 \<le> u" "u * 64 ^ n + v < 2147483648" "0 \<le> v" "v < 64 ^ n" "n \<le> 5"
  shows "utf8_loop n (cont_bytes n v @ rest) u = Inr (u * 64 ^ n + v)"
  using assms
proof (induction n arbitrary: v rest)
  case (Suc n)
  let ?q = "v div 64" and ?b = "to_char (128 + v mod 64)"
  have q: "0 \<le> ?q" "?q < 64 ^ n" using Suc.prems by (simp_all add: zdiv_less mult.commute)
  have eq: "u * 64 ^ Suc n + v = (u * 64 ^ n + ?q) * 64 + v mod 64" by (simp add: algebra_simps)
  have "(u * 64 ^ n + ?q) * 64 + v mod 64 < 2147483648" "0 \<le> v mod 64" using Suc.prems(2) unfolding eq by simp_all
  moreover have "x < 33554432" if "x * 64 + r < 2147483648" "0 \<le> r" for x r :: int using that by linarith
  ultimately have lt: "u * 64 ^ n + ?q < 33554432" by blast
  have u: "0 \<le> u * 64 ^ n + ?q" using q Suc.prems(1) by simp
  have ub: "uint ?b = 128 + v mod 64" using pos_mod_bound[of 64 v] by (intro uint_to_char) simp_all
  have "utf8_loop n (cont_bytes n ?q @ ?b # rest) u = Inr (u * 64 ^ n + ?q)"
    using q lt Suc.prems by (intro Suc.IH) simp_all
  from utf8_loop_app[OF this, of 1]
  have "utf8_loop (Suc n) (cont_bytes (Suc n) v @ rest) u = utf8_loop 1 (?b # rest) (u * 64 ^ n + ?q)" by simp
  also have "\<dots> = Inr ((u * 64 ^ n + ?q) * 64 + uint ?b mod 64)"
  proof -
    have c: "u * 64 ^ n + ?q < 67108864" "128 \<le> uint ?b \<and> uint ?b < 192" using lt ub pos_mod_bound[of 64 v] by simp_all
    show ?thesis unfolding utf8_loop_one[OF u c(1)] if_P[OF c(2)] ..
  qed
  also have "uint ?b mod 64 = v mod 64" unfolding ub using mod_mult_self3[of 2 64 v] by (simp add: mod_add_right_eq)
  finally show ?case using eq by simp
qed simp

lemma utf8_loop_inv:
  assumes "utf8_loop n p u = Inr w" "0 \<le> u" "u * 64 ^ n < 2147483648" "n \<le> 5"
  shows "n \<le> length p \<and> (\<exists>v. 0 \<le> v \<and> v < 64 ^ n \<and> take n p = cont_bytes n v \<and> w = u * 64 ^ n + v)"
  using assms
proof (induction n arbitrary: w)
  case 0
  then show ?case by simp
next
  case (Suc n)
  have u: "u * 64 ^ n < 33554432" using Suc.prems(3) by simp
  obtain w' where w': "utf8_loop n p u = Inr w'" using Suc.prems(1)
    by (induction n p u rule: utf8_loop.induct) (auto simp: Let_def split: list.splits if_splits)
  obtain v where v: "n \<le> length p" "0 \<le> v" "v < 64 ^ n" "take n p = cont_bytes n v" "w' = u * 64 ^ n + v"
    using Suc.IH[OF w'] Suc.prems u by auto
  have one: "utf8_loop 1 (drop n p) w' = Inr w" using utf8_loop_app[OF w', of 1] Suc.prems(1) by simp
  then obtain b t where bt: "drop n p = b # t" by (cases "drop n p") simp_all
  then have n: "n < length p" by (metis drop_all list.distinct(1) not_less)
  have "(64::int) ^ n \<le> 33554432"
  proof -
    have "(64::int) ^ n \<le> 64 ^ 4" using Suc.prems(4) by (intro power_increasing) simp_all
    then show ?thesis by simp
  qed
  then have "w' < 67108864" "0 \<le> w'" using v u Suc.prems(2) by simp_all
  then have "128 \<le> uint b \<and> uint b < 192" "w = w' * 64 + uint b mod 64"
    using one bt utf8_loop_one[of w' b t] by (auto split: if_splits)
  moreover have "b = to_char (128 + uint b mod 64)"
  proof -
    have "uint b mod 64 = uint b - 128" if "128 \<le> uint b \<and> uint b < 192" using that by presburger
    then show ?thesis using calculation to_char_uint[of b] by simp
  qed
  moreover have "take (Suc n) p = take n p @ [b]" using bt n by (metis Cons_nth_drop_Suc list.inject take_Suc_conv_app_nth)
  ultimately show ?case using v n
    by (intro conjI exI[of _ "v * 64 + uint b mod 64"]) (simp_all add: algebra_simps)
qed

definition utf8_tail :: "nat \<Rightarrow> int \<Rightarrow> byte list \<Rightarrow> int \<Rightarrow> (int \<times> int) outcome" where
  "utf8_tail n uv p lenp =
     (if int n + 1 > lenp then raise ArgError
      else obind (utf8_loop n p uv) (\<lambda>uv. if uv < utf8_limits ! n then raise ArgError else return (uv, int n + 1)))"

lemma utf8_to_uv_form:
  assumes c: "c = uint b"
  shows "utf8_to_uv (b # p) lenp =
     (if c < 128 then return (c, 1) else if c < 192 then raise ArgError
      else if c < 224 then utf8_tail 1 (c - 192) p lenp else if c < 240 then utf8_tail 2 (c - 224) p lenp
      else if c < 248 then utf8_tail 3 (c - 240) p lenp else if c < 252 then utf8_tail 4 (c - 248) p lenp
      else if c < 254 then utf8_tail 5 (c - 252) p lenp else raise ArgError)"
proof -
  have b: "0 \<le> c" "c < 256" using byte_bounds[of b] c by simp_all
  note k = byte_masks[OF b] and s = sint_low(1)[of b, folded c]
  consider "c < 128" | "128 \<le> c" "c < 192" | "192 \<le> c" "c < 224" | "224 \<le> c" "c < 240" | "240 \<le> c" "c < 248"
    | "248 \<le> c" "c < 252" | "252 \<le> c" "c < 254" | "254 \<le> c" by linarith
  then show ?thesis by cases (simp_all add: utf8_to_uv_def utf8_tail_def Let_def s k cong: if_cong del: utf8_loop.simps)
qed

text \<open>The five forms longer than one byte: how many bytes follow, the first byte, and the range of characters.\<close>

definition utf8_forms :: "(nat \<times> int \<times> int \<times> int) list" where
  "utf8_forms = [(1, 192, 0x80, 0x800), (2, 224, 0x800, 0x10000), (3, 240, 0x10000, 0x200000),
     (4, 248, 0x200000, 0x4000000), (5, 252, 0x4000000, 0x80000000)]"

lemma or_cont: "(x mod 64) OR 128 = 128 + x mod (64::int)"
  using or_high[of "x mod 64" 7 1] pos_mod_bound[of 64 x] by simp

lemma uv_to_utf8_form:
  assumes "(n, lead, lo, hi) \<in> set utf8_forms" "lo \<le> v" "v < hi"
  shows "uv_to_utf8 v = return (to_char (lead + v div 64 ^ n) # cont_bytes n v)"
proof -
  have lead: "x OR 192 = 192 + x" if "0 \<le> x" "x < 64" for x :: int using or_high[of x 6 3] that by simp
  have lead2: "x OR 224 = 224 + x" if "0 \<le> x" "x < 32" for x :: int using or_high[of x 5 7] that by simp
  have lead3: "x OR 240 = 240 + x" if "0 \<le> x" "x < 16" for x :: int using or_high[of x 4 15] that by simp
  have lead4: "x OR 248 = 248 + x" if "0 \<le> x" "x < 8" for x :: int using or_high[of x 3 31] that by simp
  have lead5: "x OR 252 = 252 + x" if "0 \<le> x" "x < 4" for x :: int using or_high[of x 2 63] that by simp
  have q: "0 \<le> v \<Longrightarrow> v < k * m \<Longrightarrow> 0 < k \<Longrightarrow> v div k < m" for k m :: int by (simp add: zdiv_less mult.commute)
  consider "n = 1" "lead = 192" "128 \<le> v" "v < 2048" | "n = 2" "lead = 224" "2048 \<le> v" "v < 65536"
    | "n = 3" "lead = 240" "65536 \<le> v" "v < 2097152" | "n = 4" "lead = 248" "2097152 \<le> v" "v < 67108864"
    | "n = 5" "lead = 252" "67108864 \<le> v" "v < 2147483648"
    using assms by (auto simp: utf8_forms_def)
  then show ?thesis
  proof cases
    case 1
    then show ?thesis using q[of 64 32] lead[of "v div 64"]
      by (simp add: uv_to_utf8_def drop_bit_eq_div low_bits or_cont)
  next
    case 2
    then show ?thesis using q[of 4096 16] lead2[of "v div 4096"]
      by (simp add: uv_to_utf8_def drop_bit_eq_div low_bits or_cont eval_nat_numeral zdiv_zmult2_eq[symmetric])
  next
    case 3
    then show ?thesis using q[of 262144 8] lead3[of "v div 262144"]
      by (simp add: uv_to_utf8_def drop_bit_eq_div low_bits or_cont eval_nat_numeral zdiv_zmult2_eq[symmetric])
  next
    case 4
    then show ?thesis using q[of 16777216 4] lead4[of "v div 16777216"]
      by (simp add: uv_to_utf8_def drop_bit_eq_div low_bits or_cont eval_nat_numeral zdiv_zmult2_eq[symmetric])
  next
    case 5
    then show ?thesis using q[of 1073741824 2] lead5[of "v div 1073741824"]
      by (simp add: uv_to_utf8_def drop_bit_eq_div low_bits or_cont eval_nat_numeral zdiv_zmult2_eq[symmetric])
  qed
qed


section \<open>UTF-8 in both directions\<close>

lemma utf8_forms_cover:
  assumes "128 \<le> v" "v < 2147483648"
  obtains n lead lo hi where "(n, lead, lo, hi) \<in> set utf8_forms" "lo \<le> v" "v < hi"
proof -
  consider "v < 0x800" | "0x800 \<le> v" "v < 0x10000" | "0x10000 \<le> v" "v < 0x200000" | "0x200000 \<le> v" "v < 0x4000000"
    | "0x4000000 \<le> v" by linarith
  then show thesis
    by cases (use assms that[of 1 192 128 2048] that[of 2 224 2048 65536] that[of 3 240 65536 2097152]
        that[of 4 248 2097152 67108864] that[of 5 252 67108864 2147483648] in \<open>simp_all add: utf8_forms_def\<close>)
qed

lemma utf8_forms_props:
  assumes "(n, lead, lo, hi) \<in> set utf8_forms" "lo \<le> v" "v < hi"
  shows "0 \<le> v div 64 ^ n" "lead + v div 64 ^ n < 254" "192 \<le> lead" "n \<le> 5" "0 < n" "128 \<le> v" "v < 2147483648"
    "utf8_limits ! n = lo" "uint c = lead + v div 64 ^ n \<Longrightarrow> utf8_to_uv (c # p) lenp = utf8_tail n (v div 64 ^ n) p lenp"
proof -
  have q: "0 \<le> v \<Longrightarrow> v < k * m \<Longrightarrow> 0 < k \<Longrightarrow> 0 \<le> v div k \<and> v div k < m" for k m :: int
    by (simp add: zdiv_less mult.commute pos_imp_zdiv_nonneg_iff)
  have c: "n = 1 \<and> lead = 192 \<and> lo = 128 \<and> 128 \<le> v \<and> v < 2048 \<or> n = 2 \<and> lead = 224 \<and> lo = 2048 \<and> 2048 \<le> v \<and> v < 65536 \<or>
      n = 3 \<and> lead = 240 \<and> lo = 65536 \<and> 65536 \<le> v \<and> v < 2097152 \<or>
      n = 4 \<and> lead = 248 \<and> lo = 2097152 \<and> 2097152 \<le> v \<and> v < 67108864 \<or>
      n = 5 \<and> lead = 252 \<and> lo = 67108864 \<and> 67108864 \<le> v \<and> v < 2147483648"
    using assms by (auto simp: utf8_forms_def)
  show "0 \<le> v div 64 ^ n" "lead + v div 64 ^ n < 254" "192 \<le> lead" "n \<le> 5" "0 < n" "128 \<le> v" "v < 2147483648"
    "utf8_limits ! n = lo" "uint c = lead + v div 64 ^ n \<Longrightarrow> utf8_to_uv (c # p) lenp = utf8_tail n (v div 64 ^ n) p lenp"
    by (atomize (full), insert c)
      (elim disjE conjE; use q[of 64 32] q[of 4096 16] q[of 262144 8] q[of 16777216 4] q[of 1073741824 2] in
        \<open>simp add: utf8_limits_def utf8_to_uv_form[OF refl] eval_nat_numeral\<close>)
qed

lemma cont_bytes_mod: "cont_bytes n v = cont_bytes n (v mod 64 ^ n)"
  by (induction n arbitrary: v) (simp_all add: mod_mult2_eq zmod_zmult2_eq)

lemma utf8_decode:
  assumes "0 \<le> v" "v < 2147483648"
  obtains bs where "uv_to_utf8 v = return bs" "bs \<noteq> []"
    "\<And>rest lenp. int (length bs) \<le> lenp \<Longrightarrow> utf8_to_uv (bs @ rest) lenp = return (v, int (length bs))"
proof (cases "v < 128")
  case True
  then show thesis using assms that[of "[to_char v]"] uint_to_char[of v]
    by (simp add: uv_to_utf8_def utf8_to_uv_form[OF refl])
next
  case False
  then have "128 \<le> v" by simp
  from utf8_forms_cover[OF this assms(2)] obtain n lead lo hi
    where f: "(n, lead, lo, hi) \<in> set utf8_forms" "lo \<le> v" "v < hi" .
  note p = utf8_forms_props[OF f]
  have ub: "uint (to_char (lead + v div 64 ^ n)) = lead + v div 64 ^ n" using p by (intro uint_to_char) simp_all
  have "utf8_to_uv ((to_char (lead + v div 64 ^ n) # cont_bytes n v) @ rest) lenp = return (v, int n + 1)"
    if "int n + 1 \<le> lenp" for rest lenp
  proof -
    have "utf8_loop n (cont_bytes n (v mod 64 ^ n) @ rest) (v div 64 ^ n) = Inr (v div 64 ^ n * 64 ^ n + v mod 64 ^ n)"
      using p by (intro utf8_loop_cont) (simp_all add: div_mult_mod_eq)
    then show ?thesis using p(8) f(2) that by (simp add: p(9)[OF ub] utf8_tail_def cont_bytes_mod[symmetric] div_mult_mod_eq)
  qed
  then show thesis using that[of "to_char (lead + v div 64 ^ n) # cont_bytes n v"] uv_to_utf8_form[OF f] by simp
qed

lemma utf8_tail_encode:
  assumes f: "(k, lead, lo, hi) \<in> set utf8_forms" and b: "lead \<le> uint b" "(uint b - lead + 1) * 64 ^ k \<le> hi"
    and run: "utf8_tail k (uint b - lead) t lenp = return (v, n)"
  shows "128 \<le> v" "v < 2147483648" "n = int k + 1" "k \<le> length t" "uv_to_utf8 v = return (take (nat n) (b # t))"
proof -
  let ?u = "uint b - lead"
  have lim: "utf8_limits ! k = lo" "k \<le> 5" "hi \<le> 2147483648" "128 \<le> lo" using f by (auto simp: utf8_forms_def utf8_limits_def)
  have r: "utf8_loop k t ?u = Inr v" "lo \<le> v" and n: "n = int k + 1"
    using run lim by (auto simp: utf8_tail_def obind_eq_Inr_iff split: if_splits)
  have "(0::int) < 64 ^ k" by simp
  then have "?u * 64 ^ k < 2147483648" using b(2) lim(3) unfolding distrib_right by linarith
  then obtain w where w: "k \<le> length t" "0 \<le> w" "w < 64 ^ k" "take k t = cont_bytes k w" "v = ?u * 64 ^ k + w"
    using utf8_loop_inv[OF r(1)] b(1) lim(2) by auto
  have hi: "v < hi" using w b(2) by (simp add: algebra_simps)
  have "v = w + 64 ^ k * ?u" using w(5) by (simp add: mult.commute)
  then have d: "v div 64 ^ k = ?u" "v mod 64 ^ k = w" using add_mult_div_mod[OF w(2,3), of ?u] by (simp_all only:)
  show "128 \<le> v" "v < 2147483648" "n = int k + 1" "k \<le> length t" using r(2) lim hi n w(1) by simp_all
  show "uv_to_utf8 v = return (take (nat n) (b # t))"
    using uv_to_utf8_form[OF f r(2) hi] w(4) n d cont_bytes_mod[of k v] by (simp add: nat_add_distrib)
qed

lemma utf8_encode:
  assumes run: "utf8_to_uv p lenp = return (v, n)" and len: "lenp \<le> int (length p)"
  shows "0 \<le> v \<and> v < 2147483648 \<and> 0 < n \<and> n \<le> int (length p) \<and> uv_to_utf8 v = return (take (nat n) p)"
proof -
  obtain b t where p: "p = b # t" using run by (cases p) (simp_all add: utf8_to_uv_def)
  note form = run[unfolded p utf8_to_uv_form[OF refl]]
  have cls: ?thesis if "(k, lead, lo, hi) \<in> set utf8_forms" "lead \<le> uint b" "(uint b - lead + 1) * 64 ^ k \<le> hi"
      "utf8_tail k (uint b - lead) t lenp = return (v, n)" for k lead lo hi
    using utf8_tail_encode[OF that] p by simp
  consider "uint b < 128" | "192 \<le> uint b" "uint b < 224" | "224 \<le> uint b" "uint b < 240" | "240 \<le> uint b" "uint b < 248"
    | "248 \<le> uint b" "uint b < 252" | "252 \<le> uint b" "uint b < 254" using form by (auto split: if_splits)
  then show ?thesis
  proof cases
    case 1
    then show ?thesis using form p byte_bounds[of b] by (auto simp: uv_to_utf8_def)
  next
    case 2
    then show ?thesis using form by (intro cls[of 1 192 128 2048]) (simp_all add: utf8_forms_def)
  next
    case 3
    then show ?thesis using form by (intro cls[of 2 224 2048 65536]) (simp_all add: utf8_forms_def)
  next
    case 4
    then show ?thesis using form by (intro cls[of 3 240 65536 2097152]) (simp_all add: utf8_forms_def)
  next
    case 5
    then show ?thesis using form by (intro cls[of 4 248 2097152 67108864]) (simp_all add: utf8_forms_def)
  next
    case 6
    then show ?thesis using form by (intro cls[of 5 252 67108864 2147483648]) (simp_all add: utf8_forms_def)
  qed
qed


text \<open>The integer an array element stands for, when it is a well-formed integer object.\<close>

definition int_item :: "VALUE \<Rightarrow> int option" where
  "int_item v = (case v of Num x \<Rightarrow> if value_ok x then int_val x else None | _ \<Rightarrow> None)"

lemma int_item_unique: "int_item u = Some n \<Longrightarrow> int_item v = Some n \<Longrightarrow> u = v"
  by (auto simp: int_item_def intro: value_ok_unique split: VALUE.splits if_splits)

lemma num2long_item:
  assumes "int_item v = Some n" "- 2147483648 \<le> n" "n < 2147483648"
  shows "rb_num2long v = Inr n"
proof -
  obtain x where "v = Num x" "value_ok x" "int_val x = Some n"
    using assms(1) by (auto simp: int_item_def split: VALUE.splits if_splits)
  then show ?thesis using assms(2,3) big2long_cases[OF big_ok_op]
    by (cases x) (auto simp: rb_num2long_def)
qed

lemma uint2inum_item:
  assumes "0 \<le> n" "n < 4294967296"
  shows "int_item (Num (rb_uint2inum n)) = Some n"
  using assms rb_uint2big_correct[OF assms] big_op_ok[of "rb_uint2big n"]
  by (auto simp: int_item_def rb_uint2inum_def fixable_defs LONG2FIX_id)

lemma pack_U_correct:
  assumes "\<forall>v \<in> set vs. \<exists>n. int_item v = Some n \<and> 0 \<le> n \<and> n < 2147483648"
  shows "\<exists>s. pack_U vs = Inr s \<and> length vs \<le> length s \<and> (\<forall>m \<ge> length vs. unpack_U_loop m s = Inr vs)"
  using assms
proof (induction vs)
  case Nil
  have "unpack_U_loop m [] = Inr []" for m by (cases m) simp_all
  then show ?case by simp
next
  case (Cons v vs)
  then obtain s n where s: "pack_U vs = Inr s" "length vs \<le> length s" "\<forall>m \<ge> length vs. unpack_U_loop m s = Inr vs"
    and n: "int_item v = Some n" "0 \<le> n" "n < 2147483648" by auto
  from utf8_decode[OF n(2,3)] obtain bs where bs: "uv_to_utf8 n = return bs" "bs \<noteq> []"
    "\<And>rest lenp. int (length bs) \<le> lenp \<Longrightarrow> utf8_to_uv (bs @ rest) lenp = return (n, int (length bs))" by blast
  have "pack_U (v # vs) = Inr (bs @ s)" using num2long_item[OF n(1)] n bs(1) s(1) by simp
  moreover have "unpack_U_loop m (bs @ s) = Inr (v # vs)" if m: "length (v # vs) \<le> m" for m
  proof -
    obtain m' where m': "m = Suc m'" "length vs \<le> m'" using m by (cases m) simp_all
    have "Num (rb_uint2inum n) = v" using int_item_unique[OF uint2inum_item n(1)] n by simp
    then show ?thesis using m' bs(2) bs(3)[of _ s] s(3) by simp
  qed
  moreover have "length (v # vs) \<le> length (bs @ s)" using bs(2) s(2) by (cases bs) simp_all
  ultimately show ?case by blast
qed

lemma unpack_U_correct:
  assumes "unpack_U_loop m s = Inr ary" "length s \<le> m"
  shows "pack_U ary = Inr s"
  using assms
proof (induction m s arbitrary: ary rule: unpack_U_loop.induct)
  case (2 m s)
  show ?case
  proof (cases "s = []")
    case False
    obtain l n ary' where r: "utf8_to_uv s (int (length s)) = Inr (l, n)" "unpack_U_loop m (drop (nat n) s) = Inr ary'"
      "ary = Num (rb_uint2inum l) # ary'" using 2(2) False by (auto simp: obind_eq_Inr_iff)
    note e = utf8_encode[OF r(1) order_refl]
    have "length s - nat n \<le> m" using e 2(3) by (cases "nat n") auto
    then have "pack_U ary' = Inr (drop (nat n) s)" using 2(1)[OF False r(1) refl r(2)] by simp
    moreover have "rb_num2long (Num (rb_uint2inum l)) = Inr l" using num2long_item[OF uint2inum_item] e by simp
    ultimately show ?thesis using r(3) e by simp
  qed (use 2 in simp)
qed simp

text \<open>
  UTF-8. Packing integers below \<open>2\<^sup>3\<^sup>1\<close> with \<open>U\<close> and unpacking the text gives the same integer
  objects back. Conversely every text that unpacks at all is the one text its characters pack to:
  overlong forms, stray continuation bytes and truncated sequences are all refused.
\<close>

theorem utf8_roundtrip:
  assumes "\<forall>v \<in> set vs. \<exists>n. int_item v = Some n \<and> 0 \<le> n \<and> n < 2147483648" "int (length vs) \<le> len"
  shows "(\<exists>s. pack_U vs = Inr s \<and> unpack_U len s = Inr vs) \<and>
    (\<forall>t ary. unpack_U (int (length t)) t = Inr ary \<longrightarrow> pack_U ary = Inr t)"
proof -
  obtain s where s: "pack_U vs = Inr s" "length vs \<le> length s" "\<forall>m \<ge> length vs. unpack_U_loop m s = Inr vs"
    using pack_U_correct[OF assms(1)] by blast
  have "length vs \<le> nat (min len (int (length s)))" using s(2) assms(2) by (simp add: le_nat_iff)
  then have "unpack_U len s = Inr vs" using s(3) by (simp add: unpack_U_def)
  then show ?thesis using s(1) by (auto simp: unpack_U_def intro: unpack_U_correct)
qed

theorem utf8_roundtrip_witness:
  "\<exists>s. pack_U [Num (Fixnum 8364), Num (Fixnum 65)] = Inr s \<and> unpack_U 2 s = Inr [Num (Fixnum 8364), Num (Fixnum 65)]"
  using utf8_roundtrip[of "[Num (Fixnum 8364), Num (Fixnum 65)]" 2, THEN conjunct1]
  by (simp add: int_item_def fixable_defs)


end
