(* ===== verification/Pack_Text.thy ===== *)
theory Pack_Text
  imports Pack
begin

unbundle bit_operations_syntax

text \<open>
  The text encodings of \<open>Pack\<close> for arbitrary bytes (uuencode, base64, quoted-printable) can be
  undone: proofs group by group, line by line and byte by byte.
\<close>

section \<open>Groups of three bytes\<close>

definition sextets :: "byte \<Rightarrow> byte \<Rightarrow> byte \<Rightarrow> int list" where
  "sextets s0 s1 s2 =
     [0x3f AND drop_bit 2 (sint s0),
      0x3f AND ((push_bit 4 (sint s0) AND 0x30) OR (drop_bit 4 (sint s1) AND 0xf)),
      0x3f AND ((push_bit 2 (sint s1) AND 0x3c) OR (drop_bit 6 (sint s2) AND 0x3)),
      0x3f AND sint s2]"

lemma sextet_range: "0 \<le> 0x3f AND (x::int)" "0x3f AND x < (64::int)"
  using low_bits(1)[of x] by (simp_all add: and.commute)

lemma less_8_cases: "n < 8 \<Longrightarrow> n \<in> {0, 1, 2, 3, 4, 5, 6, 7::nat}"
  by auto

lemma byte_eqI: "(\<And>n. n \<in> {0, 1, 2, 3, 4, 5, 6, 7} \<Longrightarrow> bit (v::byte) n = bit w n) \<Longrightarrow> v = w"
  using less_8_cases by (intro bit_word_eqI) simp

lemma sextets_join:
  "sextets s0 s1 s2 = [a, b, c, d] \<Longrightarrow> to_char (push_bit 2 a OR drop_bit 4 b) = s0"
  "sextets s0 s1 s2 = [a, b, c, d] \<Longrightarrow> to_char (push_bit 4 b OR drop_bit 2 c) = s1"
  "sextets s0 s1 s2 = [a, b, c, d] \<Longrightarrow> to_char (push_bit 6 c OR d) = s2"
  unfolding sextets_def list.inject
  by (auto intro!: byte_eqI simp: to_char_def bit_simps)

text \<open>The tables as numbers.\<close>

definition b64_keys :: "nat list" where
  "b64_keys = [65..<91] @ [97..<123] @ [48..<58] @ [43, 47]"

definition uu_keys :: "nat list" where
  "uu_keys = 96 # [33..<96]"

lemma tables_eval: "map sint b64_table = map int b64_keys" "map sint uu_table = map int uu_keys"
  by code_simp+

lemma map_eq_nth: "map f xs = map g ys \<Longrightarrow> i < length ys \<Longrightarrow> f (xs ! i) = g (ys ! i)"
  by (metis length_map nth_map)

lemma uu_table_nth:
  assumes "0 \<le> x" "x < 64"
  shows "32 \<le> sint (uu_table ! nat x)" "(sint (uu_table ! nat x) - 32) AND 0x3f = x"
proof -
  have "sint (uu_table ! nat x) = int (uu_keys ! nat x)"
    using map_eq_nth[OF tables_eval(2), of "nat x"] assms by (simp add: uu_keys_def nat_less_iff del: upt_conv_Cons upt_Suc upt_rec_numeral)
  also have "\<dots> = (if x = 0 then 96 else x + 32)"
    using assms by (cases "nat x") (auto simp: uu_keys_def simp del: upt_conv_Cons upt_Suc upt_rec_numeral)
  finally show "32 \<le> sint (uu_table ! nat x)" "(sint (uu_table ! nat x) - 32) AND 0x3f = x"
    using assms by (auto simp: low_bits)
qed

lemma fold_updates:
  assumes "distinct (map k xs)" "\<forall>x \<in> set xs. k x < length t"
  shows "fold (\<lambda>i t. t[k i := f i]) xs t ! j =
    (case List.find (\<lambda>i. k i = j) xs of None \<Rightarrow> t ! j | Some i \<Rightarrow> f i)"
  using assms
proof (induction xs arbitrary: t)
  case (Cons x xs)
  have "List.find (\<lambda>i. k i = j) xs = None" if "k x = j"
    unfolding find_none_iff using Cons.prems(1) that by (auto simp: image_iff)
  then show ?case using Cons by (auto split: option.splits)
qed simp

lemma b64_key: "i < 64 \<Longrightarrow> sint (b64_table ! i) = int (b64_keys ! i)"
  using map_eq_nth[OF tables_eval(1), of i] by (simp add: b64_keys_def del: upt_conv_Cons upt_Suc upt_rec_numeral)

lemma b64_keys_props: "length b64_keys = 64" "distinct b64_keys" "\<forall>k \<in> set b64_keys. 32 < k \<and> k < 128 \<and> k \<noteq> 61"
  by (auto simp: b64_keys_def simp del: upt_conv_Cons upt_Suc upt_rec_numeral)

lemma b64_xtable_nth:
  assumes "j < 256"
  shows "b64_xtable ! j = (case List.find (\<lambda>i. b64_keys ! i = j) [0..<64] of None \<Rightarrow> -1 | Some i \<Rightarrow> int i)"
proof -
  have "b64_xtable = fold (\<lambda>i t. t[b64_keys ! i := int i]) [0..<64] (replicate 256 (-1))"
    unfolding b64_xtable_def by (intro fold_cong refl) (simp add: b64_key)
  moreover have "map (\<lambda>i. b64_keys ! i) [0..<64] = b64_keys"
    using b64_keys_props(1) map_nth[of b64_keys] by metis
  moreover have "\<forall>i \<in> set [0..<64]. b64_keys ! i < 256"
    using b64_keys_props(1,3) nth_mem[of _ b64_keys] by fastforce
  ultimately show ?thesis
    using fold_updates[of "\<lambda>i. b64_keys ! i" "[0..<64]" "replicate 256 (-1)" int j] b64_keys_props(2) assms
    by (simp del: upt_conv_Cons upt_Suc upt_rec_numeral split: option.split)
qed

lemma b64_xtable_key:
  assumes "0 \<le> x" "x < 64"
  shows "0 < sint (b64_table ! nat x)" "b64_xtable ! nat (sint (b64_table ! nat x)) = x"
    "b64_table ! nat x \<noteq> 13" "b64_table ! nat x \<noteq> 10" "b64_table ! nat x \<noteq> 61"
proof -
  let ?i = "nat x"
  have i: "?i < 64" using assms by simp
  have m: "b64_keys ! ?i \<in> set b64_keys" using i b64_keys_props(1) by simp
  have k: "sint (b64_table ! ?i) = int (b64_keys ! ?i)" "32 < b64_keys ! ?i" "b64_keys ! ?i < 128" "b64_keys ! ?i \<noteq> 61"
    using b64_key[OF i] b64_keys_props(3) m by auto
  show "0 < sint (b64_table ! ?i)" using k by simp
  show "b64_table ! ?i \<noteq> 13" "b64_table ! ?i \<noteq> 10" "b64_table ! ?i \<noteq> 61" using k by auto
  have "List.find (\<lambda>j. b64_keys ! j = b64_keys ! ?i) [0..<64] = Some ?i"
    using i b64_keys_props(1,2) by (intro find_unique_mem) (auto simp: nth_eq_iff_index_eq)
  then show "b64_xtable ! nat (sint (b64_table ! ?i)) = x"
    using k b64_xtable_nth[of "b64_keys ! ?i"] assms by simp
qed

lemma b64_xtable_none:
  assumes "j \<notin> set b64_keys" "j < 256"
  shows "b64_xtable ! j = -1"
proof -
  have "List.find (\<lambda>i. b64_keys ! i = j) [0..<64] = None"
    unfolding find_none_iff using assms(1) b64_keys_props(1) nth_mem[of _ b64_keys] by auto
  then show ?thesis using b64_xtable_nth[OF assms(2)] by simp
qed

lemma sextets_obtain:
  obtains w x y z where "sextets s0 s1 s2 = [w, x, y, z]" "0 \<le> w \<and> w < 64" "0 \<le> x \<and> x < 64" "0 \<le> y \<and> y < 64" "0 \<le> z \<and> z < 64"
  using sextet_range by (simp add: sextets_def)

lemma encode_groups_sextets:
  "encode_groups tbl pad (s0 # s1 # s2 # s) = map (\<lambda>x. tbl ! nat x) (sextets s0 s1 s2) @ encode_groups tbl pad s"
  "encode_groups tbl pad [s0, s1] = map (\<lambda>x. tbl ! nat x) (take 3 (sextets s0 s1 0)) @ [pad]"
  "encode_groups tbl pad [s0] = map (\<lambda>x. tbl ! nat x) (take 2 (sextets s0 0 0)) @ [pad, pad]"
  by (simp_all add: sextets_def numeral_eq_Suc)

lemma encode_groups_append:
  "length u mod 3 = 0 \<Longrightarrow> encode_groups tbl pad (u @ v) = encode_groups tbl pad u @ encode_groups tbl pad v"
  by (induction tbl pad u rule: encode_groups.induct) (simp_all del: sint_uint)

lemma length_encode_groups: "length (encode_groups tbl pad s) = 4 * ((length s + 2) div 3)"
proof (induction tbl pad s rule: encode_groups.induct)
  case (1 tbl pad s0 s1 s2 s)
  have "(length s + 5) div 3 = (length s + 2) div 3 + 1" by presburger
  then show ?case using 1 by (simp add: add.commute)
qed simp_all

section \<open>base64\<close>

lemma b64_look_key: "0 \<le> x \<and> x < 64 \<Longrightarrow> k < length s \<Longrightarrow> s ! k = b64_table ! nat x \<Longrightarrow> b64_look s k = Inr x"
  using b64_xtable_key[of x] by (simp add: b64_look_def peek_def)

lemma b64_look_pad: "k < length s \<Longrightarrow> s ! k = 61 \<Longrightarrow> b64_look s k = Inr (-1)"
  using b64_keys_props(3) b64_xtable_none[of 61] by (simp add: b64_look_def peek_def) blast

lemma b64_look_end: "b64_look [] 0 = Inr (-1)"
  using b64_keys_props(3) b64_xtable_none[of 0] by (simp add: b64_look_def peek_def) blast

lemma b64_not_newline:
  "0 \<le> x \<and> x < 64 \<Longrightarrow> dropWhile (\<lambda>x. x = 13 \<or> x = 10) (b64_table ! nat x # s) = b64_table ! nat x # s"
  using b64_xtable_key(3,4)[of x] by simp

lemma m_loop_group:
  assumes "sextets s0 s1 s2 = [w, x, y, z]"
    and "0 \<le> w \<and> w < 64" "0 \<le> x \<and> x < 64" "0 \<le> y \<and> y < 64" "0 \<le> z \<and> z < 64"
  shows "unpack_m_loop abc (map (\<lambda>x. b64_table ! nat x) [w, x, y, z] @ rest) out = unpack_m_loop (w, x, y) rest (out @ [s0, s1, s2])"
proof -
  let ?s = "map (\<lambda>x. b64_table ! nat x) [w, x, y, z] @ rest"
  have look: "b64_look ?s 0 = Inr w" "b64_look ?s 1 = Inr x" "b64_look ?s 2 = Inr y" "b64_look ?s 3 = Inr z"
    using assms by (auto intro!: b64_look_key simp: numeral_eq_Suc)
  have dw: "dropWhile (\<lambda>x. x = 13 \<or> x = 10) ?s = ?s" using b64_not_newline[OF assms(2)] by simp
  have ne: "?s \<noteq> []" "w \<noteq> -1" "x \<noteq> -1" "y \<noteq> -1" "z \<noteq> -1" "drop 4 ?s = rest" using assms by auto
  obtain a b c where "abc = (a, b, c)" by (cases abc)
  then show ?thesis
    by (simp only: unpack_m_loop.simps[of "(a, b, c)" ?s out] Let_def dw look ne obind_simps if_False prod.case sextets_join[OF assms(1)])
qed

lemma m_loop_groups:
  assumes "length s mod 3 = 0"
  shows "\<exists>abc'. unpack_m_loop abc (encode_groups b64_table 61 s @ rest) out = unpack_m_loop abc' rest (out @ s)"
  using assms
proof (induction "b64_table" "61 :: byte" s arbitrary: abc out rule: encode_groups.induct)
  case (1 s0 s1 s2 s)
  obtain w x y z where g: "sextets s0 s1 s2 = [w, x, y, z]" "0 \<le> w \<and> w < 64" "0 \<le> x \<and> x < 64" "0 \<le> y \<and> y < 64" "0 \<le> z \<and> z < 64"
    using sextets_obtain[of s0 s1 s2] by blast
  have "unpack_m_loop abc (encode_groups b64_table 61 (s0 # s1 # s2 # s) @ rest) out =
      unpack_m_loop (w, x, y) (encode_groups b64_table 61 s @ rest) (out @ [s0, s1, s2])"
    using m_loop_group[OF g, of abc "encode_groups b64_table 61 s @ rest" out] by (simp only: encode_groups_sextets g(1) append_assoc)
  moreover have "length s mod 3 = 0" using 1(2) by simp
  ultimately show ?case using 1(1)[of "(w, x, y)" "out @ [s0, s1, s2]"] by simp
qed auto


lemma m_loop_last_newline:
  "unpack_m_loop abc [10] out = Inr ((-1, fst (snd abc), snd (snd abc)), [], out)"
  by (subst unpack_m_loop.simps, simp add: b64_look_end split: prod.split)

lemma m_loop_newline:
  assumes "r \<noteq> []"
  shows "unpack_m_loop abc (10 # r) out = unpack_m_loop abc r out"
proof -
  have "(r = []) = False" "((10::byte) # r = []) = False" using assms by simp_all
  moreover have "dropWhile (\<lambda>x. x = 13 \<or> x = 10) (10 # r) = dropWhile (\<lambda>x. x = 13 \<or> x = 10) r" by simp
  ultimately show ?thesis
    by (simp only: unpack_m_loop.simps[of abc "10 # r" out] unpack_m_loop.simps[of abc r out] if_False)
qed

lemma m_loop_short:
  assumes "length s < 3" "s \<noteq> []"
  shows "\<exists>r. unpack_m_loop abc (encode_groups b64_table 61 s @ [10]) out = Inr r \<and> unpack_m_tail r = out @ s"
proof -
  obtain a b c where abc: "abc = (a, b, c)" by (cases abc)
  consider s0 where "s = [s0]" | s0 s1 where "s = [s0, s1]"
  proof (cases s)
    case s: (Cons s0 t)
    show thesis
    proof (cases t)
      case Nil
      then show thesis using that(1) s by blast
    next
      case (Cons s1 t')
      then have "s = [s0, s1]" using assms(1) s by simp
      then show thesis by (rule that(2))
    qed
  qed (use assms in simp)
  then show ?thesis
  proof cases
    case 1
    obtain w x y z where g: "sextets s0 0 0 = [w, x, y, z]" "0 \<le> w \<and> w < 64" "0 \<le> x \<and> x < 64" "0 \<le> y \<and> y < 64" "0 \<le> z \<and> z < 64"
      by (rule sextets_obtain)
    let ?s = "[b64_table ! nat w, b64_table ! nat x, 61, 61, 10]"
    have "b64_look ?s 0 = Inr w" "b64_look ?s 1 = Inr x" "b64_look ?s 2 = Inr (-1)"
      using g by (auto intro!: b64_look_key b64_look_pad simp: numeral_eq_Suc)
    moreover have "dropWhile (\<lambda>x. x = 13 \<or> x = 10) ?s = ?s" using b64_not_newline[OF g(2)] by simp
    ultimately have "unpack_m_loop abc ?s out = Inr ((w, x, -1), ?s, out)"
      using g abc by (subst unpack_m_loop.simps) (simp add: Let_def)
    moreover have "encode_groups b64_table 61 s @ [10] = ?s" unfolding 1 encode_groups_sextets g(1) by simp
    ultimately show ?thesis using g sextets_join(1)[OF g(1)] 1
      by (simp add: unpack_m_tail_def numeral_eq_Suc)
  next
    case 2
    obtain w x y z where g: "sextets s0 s1 0 = [w, x, y, z]" "0 \<le> w \<and> w < 64" "0 \<le> x \<and> x < 64"
      "0 \<le> y \<and> y < 64" "0 \<le> z \<and> z < 64" by (rule sextets_obtain)
    let ?s = "[b64_table ! nat w, b64_table ! nat x, b64_table ! nat y, 61, 10]"
    have "b64_look ?s 0 = Inr w" "b64_look ?s 1 = Inr x" "b64_look ?s 2 = Inr y" "b64_look ?s 3 = Inr (-1)"
      using g by (auto intro!: b64_look_key b64_look_pad simp: numeral_eq_Suc)
    moreover have "dropWhile (\<lambda>x. x = 13 \<or> x = 10) ?s = ?s" using b64_not_newline[OF g(2)] by simp
    ultimately have "unpack_m_loop abc ?s out = Inr ((w, x, y), ?s, out)"
      using g abc by (subst unpack_m_loop.simps) (simp add: Let_def)
    moreover have "encode_groups b64_table 61 s @ [10] = ?s" unfolding 2 encode_groups_sextets g(1) by simp
    ultimately show ?thesis using g sextets_join(1,2)[OF g(1)] 2 b64_xtable_key(5)[of y]
      by (simp add: unpack_m_tail_def numeral_eq_Suc)
  qed
qed

lemma encode_lines_step:
  assumes "s \<noteq> []" "0 < L"
  shows "encode_lines uu L s = encodes uu (take L s) @ encode_lines uu L (drop L s)"
  using assms by (subst encode_lines.simps) simp

lemma encode_lines_Nil [simp]: "encode_lines uu L [] = []"
  by (simp add: encode_lines.simps)

lemma encode_lines_not_Nil: "s \<noteq> [] \<Longrightarrow> 0 < L \<Longrightarrow> encode_lines uu L s \<noteq> []"
  by (simp add: encode_lines_step encodes_def)

lemma split_groups:
  obtains u t where "l = u @ t" "length u mod 3 = 0" "length t < 3"
proof -
  let ?n = "length l div 3 * 3"
  have "length (take ?n l) = ?n" by simp
  moreover have "length (drop ?n l) = length l mod 3" by (simp add: minus_div_mult_eq_mod)
  ultimately show thesis by (intro that[of "take ?n l" "drop ?n l"]) simp_all
qed

lemma m_loop_lines:
  assumes "0 < L" "L mod 3 = 0"
  shows "\<exists>r. unpack_m_loop abc (encode_lines False L s) out = Inr r \<and> unpack_m_tail r = out @ s"
proof (induction s arbitrary: abc out rule: length_induct)
  case (1 s)
  show ?case
  proof (cases "s = []")
    case True
    then show ?thesis by (simp add: unpack_m_loop.simps unpack_m_tail_def split: prod.split)
  next
    case False
    let ?l = "take L s" and ?r = "drop L s"
    obtain u t where ut: "?l = u @ t" "length u mod 3 = 0" "length t < 3" by (rule split_groups)
    have enc: "encode_lines False L s = encode_groups b64_table 61 u @ encode_groups b64_table 61 t @ 10 # encode_lines False L ?r"
      using encode_lines_step[OF False assms(1)] ut encode_groups_append[OF ut(2)] by (simp add: encodes_def)
    obtain abc' where run: "unpack_m_loop abc (encode_lines False L s) out =
        unpack_m_loop abc' (encode_groups b64_table 61 t @ 10 # encode_lines False L ?r) (out @ u)"
      using m_loop_groups[OF ut(2)] enc by metis
    show ?thesis
    proof (cases "t = []")
      case t: True
      show ?thesis
      proof (cases "?r = []")
        case True
        then show ?thesis using run t ut(1) m_loop_last_newline[of abc' "out @ u"]
          by (simp add: unpack_m_tail_def)
      next
        case r: False
        have "length ?r < length s" using False assms(1) by simp
        then obtain res where res: "unpack_m_loop abc' (encode_lines False L ?r) (out @ u) = Inr res" "unpack_m_tail res = (out @ u) @ ?r"
          using 1 by blast
        have "u @ ?r = s" using ut(1) t by (metis append_Nil2 append_take_drop_id)
        then show ?thesis using run t res m_loop_newline[OF encode_lines_not_Nil[OF r assms(1), of False], of abc' "out @ u"] by simp
      qed
    next
      case t: False
      have "length ?l mod 3 \<noteq> 0" using ut t by (metis append_Nil2 length_append length_greater_0_conv mod_add_left_eq add_0 mod_less neq0_conv)
      then have "length s < L" using assms(2) by (metis leI length_take min.absorb2)
      then have "?r = []" "s = u @ t" using ut(1) by simp_all
      then show ?thesis using run m_loop_short[OF ut(3) t, of abc' "out @ u"] by simp
    qed
  qed
qed


section \<open>uuencode\<close>

lemma uu_char_key [simp]: "0 \<le> x \<and> x < 64 \<Longrightarrow> uu_char (uu_table ! nat x # r) = (x, r)"
  using uu_table_nth[of x] by simp

lemma uu_char_pad: "uu_char (96 # r) = (0, r)"
  by (simp add: low_bits)

lemma sint_to_char: "0 \<le> v \<Longrightarrow> v < 128 \<Longrightarrow> sint (to_char v) = v"
  by (simp add: to_char_def signed_of_int signed_take_bit_int_eq_self)

lemma uu_line_group:
  assumes "sextets s0 s1 s2 = [w, x, y, z]" "0 < n" "m = (if n > 3 then 3 else n)" "uu_line (n - m) r = (out, r')"
    and "\<And>t. uu_char (q0 # t) = (w, t)" "\<And>t. uu_char (q1 # t) = (x, t)" "\<And>t. uu_char (q2 # t) = (y, t)"
      "\<And>t. uu_char (q3 # t) = (z', t)" "m = 3 \<Longrightarrow> z' = z"
  shows "uu_line n (q0 # q1 # q2 # q3 # r) = (take m [s0, s1, s2] @ out, r')"
proof -
  note j = sextets_join[OF assms(1)]
  have "take m [s0, s1, to_char (push_bit 6 y OR z')] = take m [s0, s1, s2]"
  proof (cases "m = 3")
    case True
    then show ?thesis using assms(9) j(3) by simp
  next
    case False
    then have "m = 1 \<or> m = 2" using assms(2,3) by (auto split: if_splits)
    then show ?thesis by auto
  qed
  then show ?thesis using assms(2-8) j(1,2) by (subst uu_line.simps) (simp add: Let_def del: uu_char.simps)
qed

lemma uu_line_groups: "uu_line (length s) (encode_groups uu_table 96 s @ rest) = (s, rest)"
proof (induction "uu_table" "96 :: byte" s rule: encode_groups.induct)
  case (1 s0 s1 s2 s)
  obtain w x y z where g: "sextets s0 s1 s2 = [w, x, y, z]" "0 \<le> w \<and> w < 64" "0 \<le> x \<and> x < 64" "0 \<le> y \<and> y < 64" "0 \<le> z \<and> z < 64"
    by (rule sextets_obtain)
  have e: "encode_groups uu_table 96 (s0 # s1 # s2 # s) @ rest =
      uu_table ! nat w # uu_table ! nat x # uu_table ! nat y # uu_table ! nat z # encode_groups uu_table 96 s @ rest"
    unfolding encode_groups_sextets g(1) by simp
  show ?case
  proof (cases "s = []")
    case True
    have "uu_line (length (s0 # s1 # s2 # s)) (encode_groups uu_table 96 (s0 # s1 # s2 # s) @ rest) = (take 3 [s0, s1, s2] @ [], rest)"
      unfolding e by (rule uu_line_group[OF g(1), where z' = z and r = "encode_groups uu_table 96 s @ rest"])
        (use g True in \<open>simp_all add: uu_line.simps del: uu_char.simps\<close>)
    then show ?thesis using True by simp
  next
    case False
    then have "length (s0 # s1 # s2 # s) > 3" by simp
    then have "uu_line (length (s0 # s1 # s2 # s)) (encode_groups uu_table 96 (s0 # s1 # s2 # s) @ rest) = (take 3 [s0, s1, s2] @ s, rest)"
      unfolding e by (intro uu_line_group[OF g(1), where z' = z and r = "encode_groups uu_table 96 s @ rest"])
        (use g 1 in \<open>simp_all del: uu_char.simps\<close>)
    then show ?thesis by simp
  qed
next
  case (2 s0 s1)
  obtain w x y z where g: "sextets s0 s1 0 = [w, x, y, z]" "0 \<le> w \<and> w < 64" "0 \<le> x \<and> x < 64" "0 \<le> y \<and> y < 64" "0 \<le> z \<and> z < 64"
    by (rule sextets_obtain)
  have e: "encode_groups uu_table 96 [s0, s1] @ rest = uu_table ! nat w # uu_table ! nat x # uu_table ! nat y # 96 # rest"
    unfolding encode_groups_sextets g(1) by simp
  have "uu_line (length [s0, s1]) (encode_groups uu_table 96 [s0, s1] @ rest) = (take 2 [s0, s1, 0] @ [], rest)"
    unfolding e by (rule uu_line_group[OF g(1), where z' = 0 and r = rest])
      (use g in \<open>simp_all add: uu_line.simps uu_char_pad del: uu_char.simps\<close>)
  then show ?case by simp
next
  case (3 s0)
  obtain w x y z where g: "sextets s0 0 0 = [w, x, y, z]" "0 \<le> w \<and> w < 64" "0 \<le> x \<and> x < 64" "0 \<le> y \<and> y < 64" "0 \<le> z \<and> z < 64"
    by (rule sextets_obtain)
  have y: "y = 0" using g(1) by (simp add: sextets_def)
  have e: "encode_groups uu_table 96 [s0] @ rest = uu_table ! nat w # uu_table ! nat x # 96 # 96 # rest"
    unfolding encode_groups_sextets g(1) by simp
  have "uu_line (length [s0]) (encode_groups uu_table 96 [s0] @ rest) = (take 1 [s0, 0, 0] @ [], rest)"
    unfolding e by (rule uu_line_group[OF g(1), where z' = 0 and r = rest])
      (use g y in \<open>simp_all add: uu_line.simps uu_char_pad del: uu_char.simps\<close>)
  then show ?case by simp
qed (simp add: uu_line.simps)

lemma u_loop_lines:
  assumes "0 < L" "L \<le> 63" "ttl + int (length s) \<le> lim"
  shows "unpack_u_loop lim ttl (encode_lines True L s) = s"
  using assms(3)
proof (induction s arbitrary: ttl rule: length_induct)
  case (1 s)
  show ?case
  proof (cases "s = []")
    case False
    let ?l = "take L s" and ?r = "drop L s"
    let ?n = "int (length ?l)" and ?c = "to_char (int (length ?l) + 32)"
    have n: "0 < ?n" "?n \<le> 63" "ttl + ?n \<le> lim" using False assms 1(2) by auto
    have c: "sint ?c = ?n + 32" using n by (intro sint_to_char) simp_all
    have enc: "encode_lines True L s = ?c # encode_groups uu_table 96 ?l @ 10 # encode_lines True L ?r"
      using encode_lines_step[OF False assms(1)] by (simp add: encodes_def)
    have len: "(sint ?c - 32) AND 0x3f = ?n" using n c by (simp add: low_bits)
    have "length ?r < length s" using False assms(1) by simp
    moreover have "(ttl + ?n) + int (length ?r) \<le> lim" using 1(2) by simp
    ultimately have ih: "unpack_u_loop lim (ttl + ?n) (encode_lines True L ?r) = ?r" using 1(1) by blast
    have "unpack_u_loop lim ttl (encode_lines True L s) = ?l @ unpack_u_loop lim (ttl + ?n) (uu_line_end (10 # encode_lines True L ?r))"
      unfolding enc using n c len uu_line_groups[of ?l "10 # encode_lines True L ?r"]
      by (subst unpack_u_loop.simps) (simp add: Let_def)
    also have "uu_line_end (10 # encode_lines True L ?r) = encode_lines True L ?r" by (simp add: uu_line_end_def)
    finally show ?thesis using ih by simp
  qed (simp add: unpack_u_loop.simps)
qed


section \<open>Quoted-printable\<close>

text \<open>\<open>stands_for e u\<close>: wherever the text \<open>e\<close> occurs, it decodes to the bytes \<open>u\<close>.\<close>

definition stands_for :: "byte list \<Rightarrow> byte list \<Rightarrow> bool" where
  "stands_for e u \<longleftrightarrow> (\<forall>rest. unpack_M (e @ rest) = u @ unpack_M rest)"

lemma stands_for_append: "stands_for e u \<Longrightarrow> stands_for f v \<Longrightarrow> stands_for (e @ f) (u @ v)"
  by (simp add: stands_for_def)

lemma stands_for_Nil [simp]: "stands_for [] []"
  by (simp add: stands_for_def)

lemma stands_for_units:
  "s \<noteq> 61 \<Longrightarrow> stands_for [s] [s]" "stands_for [61, 10] []" "stands_for [61, 10, 10] [10]"
  by (simp_all add: stands_for_def)

lemma hex_table_nth:
  assumes "0 \<le> x" "x < 16"
  shows "hex2num (hex_table ! nat x) = x" "hex_table ! nat x \<noteq> 10"
proof -
  have "list_all (\<lambda>i. hex2num (hex_table ! nat i) = i \<and> hex_table ! nat i \<noteq> 10) [0..15]" by code_simp
  then show "hex2num (hex_table ! nat x) = x" "hex_table ! nat x \<noteq> 10" using assms by (simp_all add: list_all_iff)
qed

lemma unpack_hex:
  assumes "0 \<le> h" "h < 16" "0 \<le> l" "l < 16"
  shows "unpack_M (61 # hex_table ! nat h # hex_table ! nat l # rest) = to_char (push_bit 4 h OR l) # unpack_M rest"
  using assms hex_table_nth[of h] hex_table_nth[of l] by simp

lemma stands_for_hex:
  "stands_for [61, hex_table ! nat (drop_bit 4 (uint s)), hex_table ! nat (uint s AND 0x0f)] [s]"
proof -
  let ?h = "drop_bit 4 (uint s)" and ?l = "uint s AND 0x0f"
  have r: "0 \<le> ?h" "?h < 16" "0 \<le> ?l" "?l < 16"
    using byte_bounds[of s] by (simp_all add: drop_bit_eq_div low_bits zdiv_less pos_imp_zdiv_nonneg_iff)
  have "push_bit 4 ?h OR ?l = ?l OR 2 ^ 4 * ?h" by (simp add: push_bit_eq_mult or.commute mult.commute)
  also have "\<dots> = ?l + 2 ^ 4 * ?h" using r by (intro or_high) simp_all
  also have "\<dots> = uint s" by (simp add: drop_bit_eq_div low_bits)
  finally have "to_char (push_bit 4 ?h OR ?l) = s" by (simp only: to_char_uint)
  then show ?thesis using unpack_hex[OF r] by (simp add: stands_for_def)
qed

lemma qp_char_stands:
  assumes "stands_for (str @ buff) u" "qp_char len s buff n prev = (buff', n', prev')"
  shows "stands_for (str @ buff') (u @ [s])" "length buff' \<le> length buff + 5"
proof -
  have s10: "s = 10" if "uint s = 10" using that using to_char_uint[of s] by (simp add: to_char_def)
  have s61: "s \<noteq> 61" if "uint s \<noteq> 61" using that by auto
  let ?hex = "uint s > 126 \<or> (uint s < 32 \<and> uint s \<noteq> 10 \<and> uint s \<noteq> 9) \<or> uint s = 61"
  define e where "e = (if ?hex then [61, hex_table ! nat (drop_bit 4 (uint s)), hex_table ! nat (uint s AND 0x0f)]
    else if uint s = 10 then if prev = 32 \<or> prev = 9 then [61, s, s] else [s] else [s])"
  have "stands_for e [s]" using stands_for_hex[of s] stands_for_units s10 s61 by (auto simp: e_def)
  moreover have "buff' = buff @ e \<or> buff' = buff @ e @ [61, 10]"
    using assms(2) by (auto simp: qp_char_def Let_def e_def split: if_splits)
  moreover have "length e \<le> 3" by (simp add: e_def)
  ultimately have e: "stands_for e [s]" "buff' = buff @ e \<or> buff' = buff @ e @ [61, 10]" "length e \<le> 3" by blast+
  then show "length buff' \<le> length buff + 5" by auto
  show "stands_for (str @ buff') (u @ [s])"
    using e(2) stands_for_append[OF assms(1) e(1)] stands_for_append[OF stands_for_append[OF assms(1) e(1)] stands_for_units(2)] by auto
qed

text \<open>The buffer of 1024 bytes is never left behind by more than it can hold.\<close>

definition qp_ok :: "byte list \<Rightarrow> qp_state \<Rightarrow> bool" where
  "qp_ok u st \<longleftrightarrow> (let (buff, n, prev, str) = st in stands_for (str @ buff) u \<and> length buff \<le> 1019)"

lemma qp_step_ok: "qp_ok u st \<Longrightarrow> qp_ok (u @ [s]) (qp_step len s st)"
  using qp_char_stands by (auto simp: qp_ok_def qp_step_def Let_def split: prod.splits) 

lemma qp_fold_ok: "qp_ok u st \<Longrightarrow> qp_ok (u @ s) (fold (qp_step len) s st)"
proof (induction s arbitrary: u st)
  case (Cons b s)
  then show ?case using Cons.IH[OF qp_step_ok[OF Cons.prems, of b len]] by simp
qed simp

lemma qpencode_stands: "stands_for (qpencode s len) s"
proof -
  obtain buff n prev str where r: "fold (qp_step len) s ([], 0, -1, []) = (buff, n, prev, str)" by (metis prod_cases4)
  have "qp_ok ([] @ s) (fold (qp_step len) s ([], 0, -1, []))" by (rule qp_fold_ok) (simp add: qp_ok_def)
  then have "stands_for (str @ buff) s" using r by (simp add: qp_ok_def)
  then show ?thesis using r stands_for_append[OF _ stands_for_units(2), of "str @ buff" s]
    by (auto simp: qpencode_def Let_def)
qed


section \<open>Properties of the text encodings\<close>

lemma line_length_props: "0 < line_length len" "line_length len mod 3 = 0"
proof -
  have "len > 2 \<Longrightarrow> c_quot len 3 * 3 = len div 3 * 3 \<and> 1 \<le> len div 3" by (simp add: c_quot_nonneg)
  then show "0 < line_length len" "line_length len mod 3 = 0"
    by (auto simp: line_length_def nat_mult_distrib)
qed

lemma encode_lines_expands: "0 < L \<Longrightarrow> 4 * length s \<le> 3 * length (encode_lines uu L s)"
proof (induction s rule: length_induct)
  case (1 s)
  show ?case
  proof (cases "s = []")
    case False
    let ?l = "take L s" and ?r = "drop L s"
    have "length ?r < length s" using False 1(2) by simp
    then have "4 * length ?r \<le> 3 * length (encode_lines uu L ?r)" using 1 by blast
    moreover have "length ?l \<le> 3 * ((length ?l + 2) div 3)" by presburger
    then have "4 * length ?l \<le> 3 * length (encodes uu ?l)" by (simp add: encodes_def length_encode_groups)
    moreover have "length s = length ?l + length ?r" by simp
    moreover have "length (encode_lines uu L s) = length (encodes uu ?l) + length (encode_lines uu L ?r)"
      using encode_lines_step[OF False 1(2)] by simp
    ultimately show ?thesis by linarith
  qed simp
qed

lemma decoded_size_exact:
  "3 * int (length t) < 2147483648 \<Longrightarrow> decoded_size t = int (3 * length t div 4)"
  by (simp add: decoded_size_def s32_id c_quot_nonneg zdiv_int mult.commute)

lemma unpack_u_bad_length:
  assumes "s \<noteq> []" "65 \<le> length (take (line_length len) s)" "length (take (line_length len) s) \<le> 223"
  shows "unpack_u_loop lim ttl (pack_um True len s) = []"
proof -
  let ?n = "int (length (take (line_length len) s))"
  obtain r where e: "pack_um True len s = to_char (?n + 32) # r"
    using encode_lines_step[OF assms(1) line_length_props(1)] by (simp add: pack_um_def encodes_def)
  have "uint (to_char (?n + 32)) = ?n + 32" using assms by (intro uint_to_char) simp_all
  then have "\<not> (32 < sint (to_char (?n + 32)) \<and> sint (to_char (?n + 32)) < 97)"
    using sint_low(2)[of "to_char (?n + 32)"] assms(2) by auto
  then show ?thesis using e by (subst unpack_u_loop.simps) auto
qed

text \<open>
  base64 and uuencode. Unpacking what \<open>m\<close> has packed gives the bytes back, for every line length
  that can be asked for; so does unpacking what \<open>u\<close> has packed as long as a line holds at most 63
  bytes, the most its length byte can say. The packer does not check this: with longer lines the length
  byte is no longer one the decoder accepts, and the decoder returns the empty string.
\<close>

theorem base64_uu_roundtrip:
  assumes "3 * int (length (pack_um False len s)) < 2147483648" "3 * int (length (pack_um True len s)) < 2147483648"
  shows "unpack_m (pack_um False len s) = Inr s \<and>
    (line_length len \<le> 63 \<longrightarrow> unpack_u (pack_um True len s) = Inr s) \<and>
    (65 \<le> length (take (line_length len) s) \<and> length (take (line_length len) s) \<le> 223 \<longrightarrow>
      unpack_u (pack_um True len s) = Inr [])"
proof -
  note L = line_length_props[of len]
  have "\<exists>r. unpack_m_loop (-1, -1, 0) (pack_um False len s) [] = Inr r \<and> unpack_m_tail r = [] @ s"
    unfolding pack_um_def by (rule m_loop_lines[OF L])
  then have m: "unpack_m (pack_um False len s) = Inr s" using decoded_size_exact[OF assms(1)] by (auto simp: unpack_m_def)
  have d: "decoded_size (pack_um True len s) = int (3 * length (pack_um True len s) div 4)" by (rule decoded_size_exact[OF assms(2)])
  moreover have "4 * length s \<le> 3 * length (pack_um True len s)" unfolding pack_um_def by (rule encode_lines_expands[OF L(1)])
  ultimately have "0 + int (length s) \<le> decoded_size (pack_um True len s)" by simp
  then have u: "line_length len \<le> 63 \<Longrightarrow> unpack_u (pack_um True len s) = Inr s"
    using u_loop_lines[OF L(1)] d by (simp add: unpack_u_def pack_um_def)
  have "s \<noteq> []" if "65 \<le> length (take (line_length len) s)" using that by auto
  then show ?thesis using m u d unpack_u_bad_length[of s len] by (auto simp: unpack_u_def)
qed

theorem base64_uu_roundtrip_witness:
  "unpack_m (pack_um False 0 (replicate 100 200)) = Inr (replicate 100 200) \<and>
   unpack_u (pack_um True 0 [1, 2]) = Inr [1, 2]"
proof -
  have n: "4 * ((n + 2) div 3) \<le> 2 * n + 4" for n :: nat by presburger
  have l: "length (encodes uu s) \<le> 2 * length s + 6" for uu s
    using n[of "length s"] by (cases uu) (simp_all add: encodes_def length_encode_groups)
  have a: "length (pack_um uu 0 (replicate 100 200)) \<le> 300" for uu
    using l[of uu "replicate 45 200"] l[of uu "replicate 10 200"]
    by (simp add: pack_um_def line_length_def encode_lines.simps)
  have b: "length (pack_um uu 0 [1, 2]) \<le> 300" for uu
    using l[of uu "[1, 2]"] by (simp add: pack_um_def line_length_def encode_lines.simps)
  have "3 * int (length (pack_um uu 0 (replicate 100 200))) < 2147483648" "3 * int (length (pack_um uu 0 [1, 2])) < 2147483648" for uu
    using a[of uu] b[of uu] by linarith+
  then show ?thesis using base64_uu_roundtrip[of 0 "replicate 100 200"] base64_uu_roundtrip[of 0 "[1, 2]"]
    by (simp add: line_length_def)
qed

text \<open>
  Quoted-printable. Decoding what \<open>M\<close> has encoded gives the bytes back for every text and every
  line length; and from any state with at most 1019 bytes in its buffer, the encoder writes at most
  five bytes before it tests for emptying the buffer, which has room for 1024.
\<close>

theorem qp_roundtrip:
  "unpack_M (pack_M len s) = s \<and>
   (let (buff, n, prev, str) = fold (qp_step k) s ([], 0, -1, []) in
     length buff + 5 \<le> 1024 \<and> length (fst (qp_char k b buff n prev)) \<le> 1024)"
proof -
  have "unpack_M (pack_M len s @ []) = s @ unpack_M []" using qpencode_stands unfolding pack_M_def stands_for_def by blast
  moreover obtain buff n prev str where r: "fold (qp_step k) s ([], 0, -1, []) = (buff, n, prev, str)" by (metis prod_cases4)
  moreover have "qp_ok ([] @ s) (fold (qp_step k) s ([], 0, -1, []))" by (rule qp_fold_ok) (simp add: qp_ok_def)
  moreover obtain buff' n' prev' where q: "qp_char k b buff n prev = (buff', n', prev')" by (metis prod_cases3)
  ultimately show ?thesis using qp_char_stands(2)[OF _ q, of str s] by (auto simp: qp_ok_def)
qed


end
