(* ===== verification/Codec.thy ===== *)
theory Codec
  imports Prelude
begin

text \<open>
  What a client may expect of an encoding of items as bytes whose decoder reads a stream of items:
  the interface behind the directives \<open>U\<close> and \<open>w\<close> of \<^verbatim>\<open>src/ruby/pack.c\<close>. A decoder gets the number of
  items wanted and the bytes.
\<close>

locale stream_codec =
  fixes valid :: "'a \<Rightarrow> bool" and enc :: "'a \<Rightarrow> 'b list" and decs :: "nat \<Rightarrow> 'b list \<Rightarrow> 'a list outcome"
  assumes decs_none: "decs n [] = Inr []"
    and decs_item: "valid x \<Longrightarrow> decs (Suc n) (enc x @ s) = obind (decs n s) (\<lambda>xs. Inr (x # xs))"
    and decs_zero: "decs 0 s = Inr []"
begin

definition stream :: "'a list \<Rightarrow> 'b list" where
  "stream xs = concat (map enc xs)"

lemma decs_stream:
  assumes "\<forall>x \<in> set xs. valid x"
  shows "decs (length xs + n) (stream xs @ s) = obind (decs n s) (\<lambda>ys. Inr (xs @ ys))"
  using assms
proof (induction xs)
  case Nil
  then show ?case by (cases "decs n s") (simp_all add: stream_def)
next
  case (Cons x xs)
  then show ?case using decs_item[of x "length xs + n" "stream xs @ s"]
    by (cases "decs n s") (simp_all add: stream_def)
qed

lemma stream_roundtrip:
  assumes "\<forall>x \<in> set xs. valid x" "length xs \<le> n"
  shows "decs n (stream xs) = Inr xs"
  using decs_stream[OF assms(1), of "n - length xs" "[]"] assms(2) by (simp add: decs_none)

text \<open>A decoder asked for fewer items stops after them, so no stream is the beginning of a different one.\<close>

lemma stream_prefix:
  assumes "\<forall>x \<in> set xs. valid x" "n \<le> length xs"
  shows "decs n (stream xs @ s) = Inr (take n xs)"
proof -
  have "stream xs @ s = stream (take n xs) @ stream (drop n xs) @ s"
    by (metis append_take_drop_id append.assoc concat_append map_append stream_def)
  moreover have "\<forall>x \<in> set (take n xs). valid x" using assms(1) by (auto dest: in_set_takeD)
  ultimately show ?thesis using decs_stream[of "take n xs" 0 "stream (drop n xs) @ s"] assms(2)
    by (simp add: decs_zero)
qed

lemma stream_unique:
  assumes "\<forall>x \<in> set xs. valid x" "\<forall>y \<in> set ys. valid y" "stream xs @ s = stream ys @ t" "length xs \<le> length ys"
  shows "xs = take (length xs) ys"
  using stream_prefix[OF assms(1) order_refl, of s] stream_prefix[OF assms(2,4), of t] assms(3) by simp

end

end
