(* ===== verification/Pack_Ber.thy ===== *)
theory Pack_Ber
  imports Pack Codec
begin

unbundle bit_operations_syntax

text \<open>
  BER compressed integers: the directive \<open>w\<close> of \<open>pack\<close> takes a \<open>Bignum\<close> apart with the division of
  \<open>Bignum_Div\<close>, and that of \<open>unpack\<close> puts it together again with the product and the sum of
  \<open>Bignum_Arith\<close>. Integers of every size come back unchanged.
\<close>

section \<open>Taking an integer apart\<close>

lemma or_80: "0 \<le> x \<Longrightarrow> x < 128 \<Longrightarrow> x OR 0x80 = x + (128::int)"
  using or_high[of x 7 1] by simp

lemma ber_long_rec:
  "ber_long n = (if n > 0 then to_char (n mod 128 + 128) # ber_long (n div 128) else [])"
  using or_80[of "n mod 128"] by (subst ber_long.simps) (simp add: low_bits drop_bit_eq_div)

lemma big128: "big_op (rb_uint2big 128)" "big_val (rb_uint2big 128) = 128"
  using rb_uint2big_correct[of 128] by simp_all

lemma divmod128:
  assumes "big_op x"
  obtains d m where "rb_big_divmod x (Bignum (rb_uint2big 128)) = Inr (d, m)"
    "value_ok d" "int_val d = Some (big_val x div 128)" "value_ok m" "int_val m = Some (big_val x mod 128)"
proof -
  obtain d m where "bigdivmod x (rb_uint2big 128) = Inr (d, m)" "big_val d = big_val x div 128" "big_val m = big_val x mod 128"
    using bigdivmod_correct[OF assms big128(1)] big128(2) by auto
  then show thesis using that[of "bignorm (Bignum d)" "bignorm (Bignum m)"] bignorm_correct[of d] bignorm_correct[of m]
    by (simp add: rb_big_divmod_def big_operand_coerce_def)
qed

lemma ber_big_correct:
  assumes "value_ok v" "int_val v = Some n" "- (1073741824 * 128 ^ k) \<le> n" "n < 1073741824 * 128 ^ k"
  shows "\<exists>buf f. ber_big (Suc k) v = Inr (buf, Fixnum f) \<and> FIXABLE f \<and> (0 \<le> n \<longrightarrow> 0 \<le> f \<and> buf @ ber_long f = ber_long n) \<and> (n < 0 \<longrightarrow> f < 0)"
  using assms
proof (induction k arbitrary: v n)
  case 0
  then have "FIXABLE n" by (simp add: fixable_defs)
  then show ?case using 0 by (cases v) (auto simp: big_ok_def)
next
  case (Suc k)
  show ?case
  proof (cases v)
    case (Bignum x)
    then have x: "big_ok x" "big_val x = n" using Suc.prems by simp_all
    obtain d m where dm: "rb_big_divmod x (Bignum (rb_uint2big 128)) = Inr (d, m)"
      "value_ok d" "int_val d = Some (n div 128)" "value_ok m" "int_val m = Some (n mod 128)"
      using divmod128[OF big_ok_op[OF x(1)]] x(2) by metis
    have m: "rb_num2long (Num m) = Inr (n mod 128)"
      using dm(4,5) by (intro num2long_item) (simp_all add: int_item_def)
    have "n div 128 < 1073741824 * 128 ^ k" using Suc.prems(4) by (intro zdiv_less) simp_all
    moreover have "- (1073741824 * 128 ^ k) \<le> n div 128"
      using Suc.prems(3) zdiv_mono1[of "- (1073741824 * 128 ^ k) * 128" n 128] by simp
    ultimately obtain buf f where ih: "ber_big (Suc k) d = Inr (buf, Fixnum f)" "FIXABLE f"
      "0 \<le> n div 128 \<longrightarrow> 0 \<le> f \<and> buf @ ber_long f = ber_long (n div 128)" "n div 128 < 0 \<longrightarrow> f < 0"
      using Suc.IH[OF dm(2,3)] by blast
    have n0: "n \<noteq> 0" using x by (auto simp: big_ok_def fixable_defs)
    have "ber_big (Suc (Suc k)) v = Inr (to_char (n mod 128 + 128) # buf, Fixnum f)"
      using Bignum dm(1) m ih(1) or_80[of "n mod 128"] by simp
    moreover have "0 \<le> n \<longrightarrow> 0 \<le> n div 128" "n < 0 \<longrightarrow> n div 128 < 0"
      by (simp_all add: pos_imp_zdiv_nonneg_iff pos_imp_zdiv_neg_iff)
    ultimately show ?thesis using ih n0 ber_long_rec[of n] by auto
  qed (use Suc.prems in auto)
qed

lemma ber_item_correct:
  assumes "int_item v = Some n"
  shows "\<exists>buf f. ber_item v = Inr (buf, Num (Fixnum f)) \<and> FIXABLE f \<and> (0 \<le> n \<longrightarrow> 0 \<le> f \<and> buf @ ber_long f = ber_long n) \<and> (n < 0 \<longrightarrow> f < 0)"
proof -
  obtain w where w: "v = Num w" "value_ok w" "int_val w = Some n"
    using assms by (auto simp: int_item_def split: VALUE.splits if_splits)
  obtain k where k: "ber_rounds w = Suc k" "- (1073741824 * 128 ^ k) \<le> n" "n < 1073741824 * 128 ^ k"
  proof (cases w)
    case (Fixnum i)
    then show thesis using that[of 0] w by (simp add: ber_rounds_def fixable_defs)
  next
    case (Bignum x)
    let ?d = "length (digits x)"
    have "(65536::int) ^ ?d \<le> 128 ^ (3 * ?d)" using power_mono[of "65536::int" "128 ^ 3" ?d] by (simp add: power_mult)
    then have "\<bar>n\<bar> < 128 ^ (3 * ?d)" using Bignum w(3) digs_val_less[of "digits x"] digs_val_nonneg[of "digits x"]
      by (auto simp: big_val_def)
    moreover have "(0::int) < 128 ^ (3 * ?d)" by simp
    ultimately show thesis using Bignum by (intro that[of "3 * ?d"]) (simp_all add: ber_rounds_def)
  qed (use w in auto)
  show ?thesis using ber_big_correct[OF w(2,3) k(2,3)] w(1) k(1) by (auto simp: ber_item_def)
qed

definition ber_enc :: "int \<Rightarrow> byte list" where
  "ber_enc n = rev (ber_long (n div 128)) @ [to_char (n mod 128)]"

lemma pack_w_correct:
  "\<forall>v \<in> set vs. \<exists>n. int_item v = Some n \<and> 0 \<le> n \<Longrightarrow> pack_w vs = Inr (concat (map (\<lambda>v. ber_enc (the (int_item v))) vs))"
proof (induction vs)
  case (Cons v vs)
  obtain n where n: "int_item v = Some n" "0 \<le> n" using Cons.prems by auto
  obtain buf f where b: "ber_item v = Inr (buf, Num (Fixnum f))" "0 \<le> f" "buf @ ber_long f = ber_long n"
    using ber_item_correct[OF n(1)] n(2) by blast
  have "(case ber_long n of [] \<Rightarrow> [0] | b # bs \<Rightarrow> rev ((b AND 0x7f) # bs)) = ber_enc n"
  proof (cases "n = 0")
    case True
    then show ?thesis by (simp add: ber_long_rec[of 0] ber_enc_def to_char_def)
  next
    case False
    have "to_char (n mod 128 + 128) AND 0x7f = to_char (n mod 128)"
    proof -
      have "to_char (n mod 128 + 128) AND 0x7f = to_char ((n mod 128 + 128) AND 0x7f)"
        by (simp only: to_char_def of_int_and_eq of_int_numeral)
      also have "(n mod 128 + 128) AND 0x7f = n mod 128" by (simp add: low_bits)
      finally show ?thesis .
    qed
    then show ?thesis using False n(2) by (simp add: ber_long_rec[of n] ber_enc_def)
  qed
  then show ?case using Cons b n by (simp add: rb_num2long_def)
qed simp

section \<open>Putting an integer together\<close>

lemma byte_bits:
  "sint (b::byte) AND 0x7f = uint b mod 128" "(sint b AND 0x80 = 0) = (uint b < 128)"
proof -
  have "sint b mod 128 = sint b mod 256 mod 128" by (simp add: mod_mod_cancel)
  then show "sint b AND 0x7f = uint b mod 128" by (simp add: low_bits sint_low)
  have "sint b AND 0x80 = (sint b AND 255) AND 0x80" by (simp only: and.assoc) simp
  then show "(sint b AND 0x80 = 0) = (uint b < 128)" using byte_masks(1)[OF byte_bounds[of b]] by (simp only: sint_low)
qed

lemma ulmask:
  assumes "0 \<le> x" "x < 4294967296"
  shows "(x AND 0xfe000000 = 0) = (x < (33554432::int))"
proof
  assume "x < 33554432"
  then have "take_bit 25 x = x" using assms by (simp add: take_bit_int_eq_self)
  then have "x AND 0xfe000000 = take_bit 25 x AND 0xfe000000" by simp
  also have "\<dots> = x AND take_bit 25 0xfe000000" by (simp only: take_bit_eq_mask and.assoc and.commute[of "mask 25"])
  also have "take_bit 25 (0xfe000000::int) = 0" by (simp add: take_bit_eq_mod)
  finally show "x AND 0xfe000000 = 0" by simp
next
  assume z: "x AND 0xfe000000 = 0"
  have "drop_bit 25 (x AND 0xfe000000) = drop_bit 25 x AND drop_bit 25 0xfe000000" by (rule drop_bit_and)
  also have "drop_bit 25 (0xfe000000::int) = 0x7f" by (simp add: drop_bit_eq_div)
  also have "drop_bit 25 x AND 0x7f = x div 33554432"
    using assms by (simp add: low_bits drop_bit_eq_div mod_pos_pos_trivial pos_imp_zdiv_nonneg_iff zdiv_less)
  finally show "x < 33554432" using z assms by (auto simp: zdiv_eq_0_iff)
qed

lemma w_loop_step:
  assumes "0 < len" "0 \<le> p" "p < 33554432" "q = p * 128 + uint b mod 128"
  shows "unpack_w_loop len p (b # s) =
    (if uint b < 128 then obind (unpack_w_loop (len - 1) 0 s) (\<lambda>ary. Inr (Num (rb_uint2inum q) # ary))
     else if q < 33554432 then unpack_w_loop len q s
     else obind (unber_big (Bignum (rb_uint2big q)) s) (\<lambda>(big, t).
       case big of None \<Rightarrow> unpack_w_loop len q t
       | Some big \<Rightarrow> obind (unpack_w_loop (len - 1) 0 t) (\<lambda>ary. Inr (Num big # ary))))"
proof -
  have r: "0 \<le> uint b mod 128" "uint b mod 128 < 128" by simp_all
  have "u32 (push_bit 7 p) = 2 ^ 7 * p" using assms by (simp add: push_bit_eq_mult u32_id mult.commute)
  then have u: "u32 (push_bit 7 p) OR (sint b AND 0x7f) = q"
    using or_high[OF r(1), of 7 p] r(2) assms(4) by (simp add: byte_bits or.commute mult.commute add.commute)
  have q: "0 \<le> q" "q < 4294967296" using assms r by simp_all
  show ?thesis using assms(1) by (subst unpack_w_loop.simps) (simp add: Let_def u byte_bits(2) ulmask[OF q] cong: option.case_cong)
qed

lemma unber_step:
  assumes x: "big_op x" "big_val x = p" "33554432 \<le> p"
  obtains y where "big_ok y" "big_val y = p * 128 + uint b mod 128"
    "unber_big (Bignum x) (b # s) = (if uint b < 128 then Inr (Some (Bignum y), s) else unber_big (Bignum y) s)"
proof -
  let ?c = "uint b mod 128"
  have "int_result (rb_big_mul (Bignum x) (Bignum (rb_uint2big 128))) (p * 128)" using x big128 by (intro mul_correct) simp_all
  then obtain w where w: "rb_big_mul (Bignum x) (Bignum (rb_uint2big 128)) = Inr w" "value_ok w" "int_val w = Some (p * 128)"
    by (auto simp: int_result_def)
  then obtain z where z: "w = Bignum z" "big_ok z" "big_val z = p * 128" using x(3) by (cases w) (auto simp: fixable_defs)
  have c: "big_op (rb_uint2big ?c)" "big_val (rb_uint2big ?c) = ?c" using rb_uint2big_correct[of ?c] by simp_all
  have "int_result (rb_big_plus z (Bignum (rb_uint2big ?c))) (p * 128 + ?c)"
    using plus_minus_correct(1)[OF big_ok_op[OF z(2)], of "Bignum (rb_uint2big ?c)"] c z(3) by (simp add: big_operand_def)
  then obtain v where v: "rb_big_plus z (Bignum (rb_uint2big ?c)) = Inr v" "value_ok v" "int_val v = Some (p * 128 + ?c)"
    by (auto simp: int_result_def)
  moreover have "0 \<le> ?c" by simp
  ultimately obtain y where "v = Bignum y" "big_ok y" "big_val y = p * 128 + ?c" using x(3) by (cases v) (auto simp: fixable_defs)
  then show thesis using w(1) z(1) v(1) by (intro that[of y]) (simp_all add: byte_bits)
qed

lemma rev_ber_long: "0 < m \<Longrightarrow> rev (ber_long m) @ s = rev (ber_long (m div 128)) @ to_char (m mod 128 + 128) # s"
  by (subst ber_long_rec) simp

lemma cont_byte: "uint (to_char (m mod 128 + 128)) mod 128 = m mod 128" "\<not> uint (to_char (m mod 128 + 128)) < 128"
proof -
  have "uint (to_char (m mod 128 + 128)) = m mod 128 + 128" using pos_mod_bound[of 128 m] by (intro uint_to_char) simp_all
  then show "uint (to_char (m mod 128 + 128)) mod 128 = m mod 128" "\<not> uint (to_char (m mod 128 + 128)) < 128" by simp_all
qed

lemma w_loop_small:
  assumes "0 < len" "0 \<le> m" "m < 33554432"
  shows "unpack_w_loop len 0 (rev (ber_long m) @ s) = unpack_w_loop len m s"
  using assms(2,3)
proof (induction m arbitrary: s rule: ber_long.induct)
  case (1 m)
  show ?case
  proof (cases "m > 0")
    case True
    let ?q = "m div 128"
    have q: "0 \<le> ?q" "?q < 33554432" "m = ?q * 128 + m mod 128" using 1(2,3) by (simp_all add: zdiv_less)
    have "unpack_w_loop len 0 (rev (ber_long m) @ s) = unpack_w_loop len ?q (to_char (m mod 128 + 128) # s)"
      using 1(1)[OF True] q by (simp add: rev_ber_long[OF True] drop_bit_eq_div)
    also have "\<dots> = unpack_w_loop len m s"
      using w_loop_step[OF assms(1) q(1,2), of m "to_char (m mod 128 + 128)" s] cont_byte[of m] 1(3) q(3) by simp
    finally show ?thesis .
  qed (use 1 in \<open>simp add: ber_long_rec\<close>)
qed

lemma w_loop_big:
  assumes "0 < len" "33554432 \<le> m"
  shows "\<exists>x. big_op x \<and> big_val x = m \<and> (\<forall>V t. unber_big (Bignum x) s = Inr (Some V, t) \<longrightarrow>
    unpack_w_loop len 0 (rev (ber_long m) @ s) = obind (unpack_w_loop (len - 1) 0 t) (\<lambda>ary. Inr (Num V # ary)))"
  using assms(2)
proof (induction m arbitrary: s rule: ber_long.induct)
  case (1 m)
  let ?q = "m div 128" and ?b = "to_char (m mod 128 + 128)"
  have m: "0 < m" "m = ?q * 128 + m mod 128" "0 \<le> ?q" using 1(2) by (simp_all add: pos_imp_zdiv_nonneg_iff)
  note e = rev_ber_long[OF m(1), of s]
  show ?case
  proof (cases "?q < 33554432")
    case True
    then have "m < 4294967296" using m(2) pos_mod_bound[of 128 m] by linarith
    then have x: "big_op (rb_uint2big m)" "big_val (rb_uint2big m) = m" using rb_uint2big_correct[of m] m(1) by simp_all
    have "unpack_w_loop len 0 (rev (ber_long m) @ s) = unpack_w_loop len ?q (?b # s)"
      unfolding e by (rule w_loop_small[OF assms(1) m(3) True])
    also have "\<dots> = obind (unber_big (Bignum (rb_uint2big m)) s) (\<lambda>(big, t).
       case big of None \<Rightarrow> unpack_w_loop len m t
       | Some big \<Rightarrow> obind (unpack_w_loop (len - 1) 0 t) (\<lambda>ary. Inr (Num big # ary)))"
      using w_loop_step[OF assms(1) m(3) True, of m ?b s] cont_byte[of m] m(2) 1(2) by simp
    finally show ?thesis using x by (intro exI[of _ "rb_uint2big m"]) simp
  next
    case False
    then obtain x where x: "big_op x" "big_val x = ?q" "\<forall>V t. unber_big (Bignum x) (?b # s) = Inr (Some V, t) \<longrightarrow>
        unpack_w_loop len 0 (rev (ber_long ?q) @ ?b # s) = obind (unpack_w_loop (len - 1) 0 t) (\<lambda>ary. Inr (Num V # ary))"
      using 1(1)[OF m(1), of "?b # s"] by (auto simp: drop_bit_eq_div)
    obtain y where y: "big_ok y" "big_val y = ?q * 128 + uint ?b mod 128"
      "unber_big (Bignum x) (?b # s) = (if uint ?b < 128 then Inr (Some (Bignum y), s) else unber_big (Bignum y) s)"
      using unber_step[OF x(1,2)] False by (metis not_less)
    then show ?thesis using x(3) cont_byte[of m] m(2) big_ok_op[OF y(1)] unfolding e by (intro exI[of _ y]) simp
  qed
qed

lemma w_item:
  assumes v: "int_item v = Some n" "0 \<le> n"
  shows "unpack_w_loop (Suc len) 0 (ber_enc n @ s) = obind (unpack_w_loop len 0 s) (\<lambda>ary. Inr (v # ary))"
proof -
  let ?m = "n div 128" and ?b = "to_char (n mod 128)"
  have b: "uint ?b = n mod 128" using pos_mod_bound[of 128 n] by (intro uint_to_char) simp_all
  have m: "0 \<le> ?m" "n = ?m * 128 + n mod 128" using v(2) by (simp_all add: pos_imp_zdiv_nonneg_iff)
  show ?thesis
  proof (cases "?m < 33554432")
    case True
    then have "n < 4294967296" using m(2) pos_mod_bound[of 128 n] by linarith
    then have "Num (rb_uint2inum n) = v" using int_item_unique[OF uint2inum_item v(1)] v(2) by simp
    moreover have "unpack_w_loop (Suc len) 0 (ber_enc n @ s) = unpack_w_loop (Suc len) ?m (?b # s)"
      using w_loop_small[OF _ m(1) True, of "Suc len" "?b # s"] by (simp add: ber_enc_def)
    ultimately show ?thesis using w_loop_step[OF _ m(1) True, of "Suc len" n ?b s] b m(2) by simp
  next
    case False
    then obtain x where x: "big_op x" "big_val x = ?m" "\<forall>V t. unber_big (Bignum x) (?b # s) = Inr (Some V, t) \<longrightarrow>
        unpack_w_loop (Suc len) 0 (rev (ber_long ?m) @ ?b # s) = obind (unpack_w_loop (Suc len - 1) 0 t) (\<lambda>ary. Inr (Num V # ary))"
      using w_loop_big[of "Suc len" ?m "?b # s"] by (auto simp: not_less)
    obtain y where y: "big_ok y" "big_val y = ?m * 128 + uint ?b mod 128"
      "unber_big (Bignum x) (?b # s) = (if uint ?b < 128 then Inr (Some (Bignum y), s) else unber_big (Bignum y) s)"
      using unber_step[OF x(1,2)] False by (metis not_less)
    have "int_item (Num (Bignum y)) = Some n" using y(1,2) b m(2) by (simp add: int_item_def)
    then have "Num (Bignum y) = v" using int_item_unique v(1) by blast
    then show ?thesis using x(3) y(3) b by (simp add: ber_enc_def)
  qed
qed

section \<open>Streams of integers\<close>

text \<open>The two directives for integers of variable length are stream codecs.\<close>

definition natural :: "VALUE \<Rightarrow> bool" where
  "natural v \<longleftrightarrow> (\<exists>n. int_item v = Some n \<and> 0 \<le> n)"

definition utf8_char :: "VALUE \<Rightarrow> bool" where
  "utf8_char v \<longleftrightarrow> (\<exists>n. int_item v = Some n \<and> 0 \<le> n \<and> n < 2147483648)"

definition utf8_enc :: "VALUE \<Rightarrow> byte list" where
  "utf8_enc v = (case uv_to_utf8 (the (int_item v)) of Inr s \<Rightarrow> s | Inl e \<Rightarrow> [])"

interpretation ber: stream_codec natural "\<lambda>v. ber_enc (the (int_item v))" "\<lambda>n. unpack_w_loop n 0"
proof unfold_locales
  show "unpack_w_loop n 0 [] = Inr []" for n by (simp add: unpack_w_loop.simps)
  show "unpack_w_loop (Suc n) 0 (ber_enc (the (int_item x)) @ s) = obind (unpack_w_loop n 0 s) (\<lambda>xs. Inr (x # xs))"
    if "natural x" for x n s using that w_item by (auto simp: natural_def)
  show "unpack_w_loop 0 0 s = Inr []" for s by (simp add: unpack_w_loop.simps)
qed

interpretation utf8: stream_codec utf8_char utf8_enc unpack_U_loop
proof unfold_locales
  show "unpack_U_loop n [] = Inr []" for n by (cases n) simp_all
  show "unpack_U_loop (Suc n) (utf8_enc x @ s) = obind (unpack_U_loop n s) (\<lambda>xs. Inr (x # xs))"
    if x: "utf8_char x" for x n s
  proof -
    obtain k where k: "int_item x = Some k" "0 \<le> k" "k < 2147483648" using x by (auto simp: utf8_char_def)
    from utf8_decode[OF k(2,3)] obtain bs where bs: "uv_to_utf8 k = return bs" "bs \<noteq> []"
      "\<And>rest lenp. int (length bs) \<le> lenp \<Longrightarrow> utf8_to_uv (bs @ rest) lenp = return (k, int (length bs))" by blast
    have "Num (rb_uint2inum k) = x" using int_item_unique[OF uint2inum_item k(1)] k by simp
    then show ?thesis using bs k by (simp add: utf8_enc_def)
  qed
  show "unpack_U_loop 0 s = Inr []" for s by simp
qed

lemma pack_w_negative:
  assumes "int_item v = Some n" "n < 0"
  shows "pack_w (v # vs) = Inl ArgError"
proof -
  obtain buf f where "ber_item v = Inr (buf, Num (Fixnum f))" "f < 0"
    using ber_item_correct[OF assms(1)] assms(2) by blast
  then show ?thesis by (simp add: rb_num2long_def)
qed

text \<open>
  C27. BER compressed integers. Non-negative integer objects of any size, immediate or \<open>Bignum\<close>, packed
  with \<open>w\<close> come back unchanged from \<open>unpack\<close>, through the division, product and sum of big numbers; a
  negative one raises \<open>ArgumentError\<close>. The text is read unambiguously whatever follows it.
\<close>

theorem ber_roundtrip:
  assumes "\<forall>v \<in> set vs. natural v" "length vs \<le> len"
  shows "\<exists>s. pack_w vs = Inr s \<and> unpack_w len s = Inr vs \<and> (\<forall>t. unpack_w (length vs) (s @ t) = Inr vs) \<and>
    (\<forall>v n. int_item v = Some n \<and> n < 0 \<longrightarrow> pack_w (vs @ [v]) = Inl ArgError)"
proof -
  let ?s = "ber.stream vs"
  have p: "pack_w vs = Inr ?s" using pack_w_correct[of vs] assms(1) by (auto simp: ber.stream_def natural_def)
  have neg: "pack_w (us @ [v]) = Inl ArgError" if "int_item v = Some n" "n < 0" "\<forall>v \<in> set us. natural v" for us v n
    using that
  proof (induction us)
    case (Cons u us)
    obtain k where "int_item u = Some k" "0 \<le> k" using Cons.prems by (auto simp: natural_def)
    then obtain buf f where "ber_item u = Inr (buf, Num (Fixnum f))" "0 \<le> f" using ber_item_correct by blast
    then show ?case using Cons by (simp add: rb_num2long_def)
  qed (simp only: append_Nil pack_w_negative)
  show ?thesis
    using p neg assms(1) ber.stream_roundtrip[OF assms] ber.stream_prefix[OF assms(1) order_refl]
    by (intro exI[of _ ?s]) (auto simp: unpack_w_def simp del: pack_w.simps)
qed

theorem ber_roundtrip_witness:
  "\<exists>s. pack_w [Num (Fixnum 300), Num (Bignum \<lparr>sign = True, digits = [0, 0, 1]\<rparr>)] = Inr s \<and>
     unpack_w 2 s = Inr [Num (Fixnum 300), Num (Bignum \<lparr>sign = True, digits = [0, 0, 1]\<rparr>)]"
proof -
  let ?vs = "[Num (Fixnum 300), Num (Bignum \<lparr>sign = True, digits = [0, 0, 1]\<rparr>)]"
  have "\<forall>v \<in> set ?vs. natural v" by (simp add: natural_def int_item_def fixable_defs big_ok_def big_val_def)
  then have "\<exists>s. pack_w ?vs = Inr s \<and> unpack_w 2 s = Inr ?vs" using ber_roundtrip[of ?vs 2] by (simp del: pack_w.simps) blast
  then show ?thesis by simp
qed


end
