(* ===== verification/Marshal.thy ===== *)
theory Marshal
  imports Pack
begin

unbundle bit_operations_syntax

text \<open>
  Serialisation, \<^verbatim>\<open>src/ruby/marshal.c\<close>. The objects that are dumped form a graph: a heap is a list of
  objects, a value is immediate or the address of an object, so that shared and cyclic structures can
  be told from copies. Modelled are \<open>nil\<close>, \<open>true\<close>, \<open>false\<close>, fixnums, symbols, and objects of the
  classes \<open>Bignum\<close>, \<open>String\<close>, \<open>Regexp\<close>, \<open>Array\<close>, of structure classes and of plain classes with
  instance variables. A symbol is its name, a class its path.

  Not modelled: objects with singleton classes, extended by modules, of subclasses of built-in
  classes or with generic instance variables; classes with \<open>marshal_dump\<close> or \<open>_dump\<close>; floats, hashes,
  classes and modules as data; ports other than strings; the procedure called after each object; taint.
\<close>

section \<open>Objects\<close>

datatype mval = M_nil | M_true | M_false | M_fix int | M_sym "byte list" | M_ref nat

datatype mobj =
    M_str "byte list"
  | M_big rbignum
  | M_reg "byte list" byte
  | M_ary "mval list"
  | M_struct "byte list" "(byte list \<times> mval) list"
  | M_object "byte list" "(byte list \<times> mval) list"
  | M_other

section \<open>Writing numbers and bytes\<close>

text \<open>
  The loop over the bytes of a \<open>long\<close>, from byte \<open>i\<close> on: the bytes and the value of \<open>buf[0]\<close>. When the
  loop ends without a \<open>break\<close>, \<open>buf[0]\<close> has no value and \<open>buf[5]\<close> is read.
\<close>

fun w_long_loop :: "nat \<Rightarrow> nat \<Rightarrow> int \<Rightarrow> (byte list \<times> int) outcome" where
  "w_long_loop 0 i x = raise Undefined"
| "w_long_loop (Suc n) i x =
     (let b = to_char (x AND 0xff); x = drop_bit 8 x in
      if x = 0 then return ([b], int i)
      else if x = -1 then return ([b], - int i)
      else obind (w_long_loop n (Suc i) x) (\<lambda>(bs, c). return (b # bs, c)))"

definition w_long :: "int \<Rightarrow> byte list outcome" where
  "w_long x =
     (if x = 0 then return [0]
      else if 0 < x \<and> x < 123 then return [to_char (x + 5)]
      else if -124 < x \<and> x < 0 then return [to_char ((x - 5) AND 0xff)]
      else obind (w_long_loop 4 1 x) (\<lambda>(bs, c). return (to_char c # bs)))"

definition w_bytes :: "byte list \<Rightarrow> byte list outcome" where
  "w_bytes s = obind (w_long (s32 (int (length s)))) (\<lambda>l. return (l @ s))"

definition w_short :: "16 word \<Rightarrow> byte list" where
  "w_short x = [to_char (uint x AND 0xff), to_char (drop_bit 8 (uint x) AND 0xff)]"

section \<open>Reading numbers and bytes\<close>

definition r_byte :: "byte list \<Rightarrow> (byte \<times> byte list) outcome" where
  "r_byte src = (case src of [] \<Rightarrow> raise ArgError | b # s \<Rightarrow> return (b, s))"

fun r_long_pos :: "nat \<Rightarrow> nat \<Rightarrow> 32 word \<Rightarrow> byte list \<Rightarrow> (32 word \<times> byte list) outcome" where
  "r_long_pos 0 i x s = return (x, s)"
| "r_long_pos (Suc n) i x s =
     obind (r_byte s) (\<lambda>(b, s). r_long_pos n (Suc i) (x OR push_bit (8 * i) (ucast b)) s)"

fun r_long_neg :: "nat \<Rightarrow> nat \<Rightarrow> 32 word \<Rightarrow> byte list \<Rightarrow> (32 word \<times> byte list) outcome" where
  "r_long_neg 0 i x s = return (x, s)"
| "r_long_neg (Suc n) i x s =
     obind (r_byte s) (\<lambda>(b, s).
     r_long_neg n (Suc i) ((x AND NOT (push_bit (8 * i) 0xff)) OR push_bit (8 * i) (ucast b)) s)"

definition r_long :: "byte list \<Rightarrow> (int \<times> byte list) outcome" where
  "r_long s =
     obind (r_byte s) (\<lambda>(b, s).
     (let c = sint b in
      if c = 0 then return (0, s)
      else if c > 0 then
        (if 4 < c \<and> c < 128 then return (c - 5, s)
         else if c > 4 then raise TypeError
         else obind (r_long_pos (nat c) 0 0 s) (\<lambda>(x, s). return (sint x, s)))
      else
        (if -129 < c \<and> c < -4 then return (c + 5, s)
         else
           (let c = - c in
            if c > 4 then raise TypeError
            else obind (r_long_neg (nat c) 0 (-1) s) (\<lambda>(x, s). return (sint x, s))))))"

text \<open>
  The bytes asked for are taken from the string without a test that it has so many; only the NUL byte
  behind its end can still be read.
\<close>

definition r_bytes0 :: "int \<Rightarrow> byte list \<Rightarrow> (byte list \<times> byte list) outcome" where
  "r_bytes0 len s =
     (if len = 0 then return ([], s)
      else if s = [] then raise ArgError
      else if len < 0 then raise ArgError
      else if nat len \<le> length s then return (take (nat len) s, drop (nat len) s)
      else if nat len = length s + 1 then return (s @ [0], [])
      else raise Undefined)"

definition r_bytes :: "byte list \<Rightarrow> (byte list \<times> byte list) outcome" where
  "r_bytes s = obind (r_long s) (\<lambda>(len, s). r_bytes0 len s)"

section \<open>Dumping\<close>

record dump =
  dstr :: "byte list"
  dsyms :: "byte list list"
  ddata :: "nat list"

text \<open>The tables number their entries in the order of entry; a look-up gives the number.\<close>

fun index_of :: "'a \<Rightarrow> 'a list \<Rightarrow> nat option" where
  "index_of x [] = None"
| "index_of x (y # ys) = (if x = y then Some 0 else map_option Suc (index_of x ys))"

definition w_out :: "byte list \<Rightarrow> dump \<Rightarrow> dump outcome" where
  "w_out bs d = return (d\<lparr>dstr := dstr d @ bs\<rparr>)"

definition w_num :: "int \<Rightarrow> dump \<Rightarrow> dump outcome" where
  "w_num n d = obind (w_long n) (\<lambda>bs. w_out bs d)"

definition w_str :: "byte list \<Rightarrow> dump \<Rightarrow> dump outcome" where
  "w_str s d = obind (w_bytes s) (\<lambda>bs. w_out bs d)"

text \<open>A name handed around as a C string ends before its first NUL byte.\<close>

definition c_string :: "byte list \<Rightarrow> byte list" where
  "c_string s = takeWhile (\<lambda>b. b \<noteq> 0) s"

definition w_symbol :: "byte list \<Rightarrow> dump \<Rightarrow> dump outcome" where
  "w_symbol name d =
     (case index_of name (dsyms d) of
        Some num \<Rightarrow> obind (w_out [59] d) (w_num (int num))
      | None \<Rightarrow>
          obind (w_out [58] d) (\<lambda>d.
          obind (w_str (c_string name) d) (\<lambda>d.
          return (d\<lparr>dsyms := dsyms d @ [name]\<rparr>))))"

definition w_unique :: "byte list \<Rightarrow> dump \<Rightarrow> dump outcome" where
  "w_unique s d = (if s \<noteq> [] \<and> hd s = 35 then raise TypeError else w_symbol s d)"

fun w_elems :: "(mval \<Rightarrow> dump \<Rightarrow> dump outcome) \<Rightarrow> mval list \<Rightarrow> dump \<Rightarrow> dump outcome" where
  "w_elems w [] d = return d"
| "w_elems w (v # vs) d = obind (w v d) (w_elems w vs)"

fun w_slots :: "(mval \<Rightarrow> dump \<Rightarrow> dump outcome) \<Rightarrow> (byte list \<times> mval) list \<Rightarrow> dump \<Rightarrow> dump outcome" where
  "w_slots w [] d = return d"
| "w_slots w ((slot, v) # vs) d = obind (w_symbol slot d) (\<lambda>d. obind (w v d) (w_slots w vs))"

text \<open>
  The first argument bounds the depth of the recursion; \<open>Too_deep\<close> says that it is used up. An object
  is entered at most once, so the number of objects is a bound.
\<close>

primrec w_object :: "nat \<Rightarrow> mobj list \<Rightarrow> int \<Rightarrow> mval \<Rightarrow> dump \<Rightarrow> dump outcome" where
  "w_object 0 h limit v d = raise Too_deep"
| "w_object (Suc n) h limit v d =
     (if limit = 0 then raise ArgError
      else
        (let w = w_object n h (s32 (limit - 1)) in
         case v of
           M_nil \<Rightarrow> w_out [48] d
         | M_true \<Rightarrow> w_out [84] d
         | M_false \<Rightarrow> w_out [70] d
         | M_fix i \<Rightarrow> obind (w_out [105] d) (w_num i)
         | M_sym s \<Rightarrow> w_symbol s d
         | M_ref a \<Rightarrow>
             (case index_of a (ddata d) of
                Some num \<Rightarrow> obind (w_out [64] d) (w_num (int num))
              | None \<Rightarrow>
                  if a \<ge> length h then raise Undefined
                  else
                    (let d = d\<lparr>ddata := ddata d @ [a]\<rparr> in
                     case h ! a of
                       M_big x \<Rightarrow>
                         obind (w_out [108] d) (\<lambda>d.
                         obind (w_out [if sign x then 43 else 45] d) (\<lambda>d.
                         obind (w_num (s32 (int (length (digits x)))) d) (\<lambda>d.
                         w_out (concat (map w_short (digits x))) d)))
                     | M_str s \<Rightarrow> obind (w_out [34] d) (w_str s)
                     | M_reg s opts \<Rightarrow> obind (w_out [47] d) (\<lambda>d. obind (w_str s d) (w_out [opts]))
                     | M_ary vs \<Rightarrow>
                         obind (w_out [91] d) (\<lambda>d.
                         obind (w_num (s32 (int (length vs))) d) (\<lambda>d.
                         w_elems w vs d))
                     | M_struct path slots \<Rightarrow>
                         obind (w_out [83] d) (\<lambda>d.
                         obind (w_unique path d) (\<lambda>d.
                         obind (w_num (s32 (int (length slots))) d) (\<lambda>d.
                         w_slots w slots d)))
                     | M_object path ivars \<Rightarrow>
                         obind (w_out [111] d) (\<lambda>d.
                         obind (w_unique path d) (\<lambda>d.
                         obind (w_num (s32 (int (length ivars))) d) (\<lambda>d.
                         w_slots w ivars d)))
                     | M_other \<Rightarrow> raise TypeError))))"

definition marshal_dump :: "mobj list \<Rightarrow> mval \<Rightarrow> int \<Rightarrow> byte list outcome" where
  "marshal_dump h obj limit =
     obind (w_object (length h + 2) h limit obj \<lparr>dstr = [4, 8], dsyms = [], ddata = []\<rparr>) (\<lambda>d.
     return (dstr d))"

section \<open>Loading\<close>

text \<open>
  What a class path stands for: a class of plain objects, of structures with their members, or another.
  A parameter is what the loader finds in the running program: the classes that exist, and the
  regular expressions the compiler of \<^verbatim>\<open>regex.c\<close> accepts under the options given.
\<close>

datatype class_kind = K_object | K_struct "byte list list" | K_class

record world =
  class_named :: "byte list \<Rightarrow> class_kind option"
  compiles :: "byte list \<Rightarrow> byte \<Rightarrow> bool"

record load =
  src :: "byte list"
  lsyms :: "byte list list"
  ldata :: "mval list"
  lheap :: "mobj list"

definition reading :: "(byte list \<Rightarrow> ('a \<times> byte list) outcome) \<Rightarrow> load \<Rightarrow> ('a \<times> load) outcome" where
  "reading r l = obind (r (src l)) (\<lambda>(x, s). return (x, l\<lparr>src := s\<rparr>))"

definition r_symlink :: "load \<Rightarrow> (byte list \<times> load) outcome" where
  "r_symlink l =
     obind (reading r_long l) (\<lambda>(num, l).
     if 0 \<le> num \<and> num < int (length (lsyms l)) then return (lsyms l ! nat num, l) else raise ArgError)"

definition r_symreal :: "load \<Rightarrow> (byte list \<times> load) outcome" where
  "r_symreal l =
     obind (reading r_bytes l) (\<lambda>(s, l).
     return (c_string s, l\<lparr>lsyms := lsyms l @ [c_string s]\<rparr>))"

definition r_symbol :: "load \<Rightarrow> (byte list \<times> load) outcome" where
  "r_symbol l = obind (reading r_byte l) (\<lambda>(b, l). if b = 59 then r_symlink l else r_symreal l)"

definition path2class :: "world \<Rightarrow> byte list \<Rightarrow> class_kind outcome" where
  "path2class cls path = (case class_named cls path of None \<Rightarrow> raise ArgError | Some k \<Rightarrow> return k)"

text \<open>A new object goes into the heap and into the table of objects that can be linked to.\<close>

definition r_entry :: "mval \<Rightarrow> load \<Rightarrow> load" where
  "r_entry v l = l\<lparr>ldata := ldata l @ [v]\<rparr>"

definition new_object :: "mobj \<Rightarrow> load \<Rightarrow> mval \<times> load" where
  "new_object x l = (M_ref (length (lheap l)), l\<lparr>lheap := lheap l @ [x]\<rparr>)"

definition enter_object :: "mobj \<Rightarrow> load \<Rightarrow> mval \<times> load" where
  "enter_object x l = (let (v, l) = new_object x l in (v, r_entry v l))"

definition r_link :: "load \<Rightarrow> (mval \<times> load) outcome" where
  "r_link l =
     obind (reading r_long l) (\<lambda>(id, l).
     (let k = (case LONG2FIX id of Fixnum k \<Rightarrow> k | _ \<Rightarrow> -1) in
      if 0 \<le> k \<and> k < int (length (ldata l)) \<and> ldata l ! nat k \<noteq> M_nil then return (ldata l ! nat k, l)
      else raise ArgError))"

text \<open>
  The digits of a \<open>Bignum\<close>: pairs of bytes, the low one first. A negative count whose double wraps to
  a size that can be read leaves a number of negative length.
\<close>

fun digits_of_bytes :: "byte list \<Rightarrow> bdigit list" where
  "digits_of_bytes (b0 # b1 # s) = word_of_int (uint b0 OR push_bit 8 (uint b1)) # digits_of_bytes s"
| "digits_of_bytes _ = []"

definition r_bignum :: "load \<Rightarrow> (mval \<times> load) outcome" where
  "r_bignum l =
     obind (reading r_byte l) (\<lambda>(sg, l).
     obind (reading r_long l) (\<lambda>(len, l).
     obind (reading (r_bytes0 (s32 (len * 2))) l) (\<lambda>(data, l).
     if len < 0 then raise Undefined
     else
     (let v = bignorm (Bignum \<lparr>sign = (sg = 43), digits = digits_of_bytes data\<rparr>) in
      case v of
        Bignum x \<Rightarrow> return (enter_object (M_big x) l)
      | Fixnum i \<Rightarrow> return (M_fix i, r_entry (M_fix i) l)
      | _ \<Rightarrow> raise Undefined))))"

definition push_elem :: "nat \<Rightarrow> mval \<Rightarrow> load \<Rightarrow> load" where
  "push_elem a v l = (case lheap l ! a of M_ary vs \<Rightarrow> l\<lparr>lheap := (lheap l)[a := M_ary (vs @ [v])]\<rparr> | _ \<Rightarrow> l)"

fun r_elems :: "(load \<Rightarrow> (mval \<times> load) outcome) \<Rightarrow> nat \<Rightarrow> nat \<Rightarrow> load \<Rightarrow> load outcome" where
  "r_elems r 0 a l = return l"
| "r_elems r (Suc n) a l = obind (r l) (\<lambda>(v, l). r_elems r n a (push_elem a v l))"

text \<open>Setting an instance variable replaces its value or adds the variable.\<close>

fun set_slot :: "byte list \<Rightarrow> mval \<Rightarrow> (byte list \<times> mval) list \<Rightarrow> (byte list \<times> mval) list" where
  "set_slot slot v [] = [(slot, v)]"
| "set_slot slot v ((s, w) # vs) = (if s = slot then (s, v) # vs else (s, w) # set_slot slot v vs)"

definition rb_ivar_set :: "nat \<Rightarrow> byte list \<Rightarrow> mval \<Rightarrow> load \<Rightarrow> load" where
  "rb_ivar_set a slot v l = (case lheap l ! a of
       M_object path ivars \<Rightarrow> l\<lparr>lheap := (lheap l)[a := M_object path (set_slot slot v ivars)]\<rparr> | _ \<Rightarrow> l)"

fun r_ivars :: "(load \<Rightarrow> (mval \<times> load) outcome) \<Rightarrow> nat \<Rightarrow> nat \<Rightarrow> load \<Rightarrow> load outcome" where
  "r_ivars r 0 a l = return l"
| "r_ivars r (Suc n) a l =
     obind (r_symbol l) (\<lambda>(slot, l).
     obind (r l) (\<lambda>(v, l). r_ivars r n a (rb_ivar_set a slot v l)))"

definition rb_struct_aset :: "nat \<Rightarrow> nat \<Rightarrow> mval \<Rightarrow> load \<Rightarrow> load" where
  "rb_struct_aset a i v l = (case lheap l ! a of
       M_struct path slots \<Rightarrow> l\<lparr>lheap := (lheap l)[a := M_struct path (slots[i := (fst (slots ! i), v)])]\<rparr> | _ \<Rightarrow> l)"

fun r_members :: "(load \<Rightarrow> (mval \<times> load) outcome) \<Rightarrow> byte list list \<Rightarrow> nat \<Rightarrow> nat \<Rightarrow> nat \<Rightarrow> load \<Rightarrow> load outcome" where
  "r_members r mem 0 i a l = return l"
| "r_members r mem (Suc n) i a l =
     obind (r_symbol l) (\<lambda>(slot, l).
     if mem ! i \<noteq> slot then raise TypeError
     else obind (r l) (\<lambda>(v, l). r_members r mem n (Suc i) a (rb_struct_aset a i v l)))"

text \<open>The size check of \<open>rb_ary_new2\<close>, from the model of arrays.\<close>

definition check_ary_new2 :: "int \<Rightarrow> unit outcome" where
  "check_ary_new2 len = obind (fst (rb_ary_new2 len \<lparr>bufs = [], arys = [], safe_level = 0\<rparr>)) (\<lambda>_. return ())"

text \<open>
  A regular expression is its source and the options \<open>rb_reg_options\<close> reports: three of the flags
  kept by the compiler, and the character code when the options fixed one.
\<close>

definition reg_options :: "byte \<Rightarrow> byte" where
  "reg_options opts = (let code = opts AND 240 in
     (opts AND 7) OR (if code \<in> {16, 32, 48, 64} then code else 0))"

definition rb_reg_new :: "world \<Rightarrow> byte list \<Rightarrow> byte \<Rightarrow> mobj outcome" where
  "rb_reg_new cls s opts =
     (if compiles cls s (reg_options opts) then return (M_reg s (reg_options opts)) else raise RegexpError)"

text \<open>The types whose objects are outside the model; the code goes on there.\<close>

definition unmodelled_types :: "byte list" where
  "unmodelled_types = [73, 101, 67, 102, 123, 125, 117, 85, 100, 77, 99, 109]"

primrec r_object :: "nat \<Rightarrow> world \<Rightarrow> load \<Rightarrow> (mval \<times> load) outcome" where
  "r_object 0 cls l = raise Too_deep"
| "r_object (Suc n) cls l =
     obind (reading r_byte l) (\<lambda>(ty, l).
     if ty = 64 then r_link l
     else if ty = 48 then return (M_nil, l)
     else if ty = 84 then return (M_true, l)
     else if ty = 70 then return (M_false, l)
     else if ty = 105 then
       obind (reading r_long l) (\<lambda>(i, l). case LONG2FIX i of Fixnum k \<Rightarrow> return (M_fix k, l) | _ \<Rightarrow> raise Undefined)
     else if ty = 108 then r_bignum l
     else if ty = 34 then obind (reading r_bytes l) (\<lambda>(s, l). return (enter_object (M_str s) l))
     else if ty = 47 then
       obind (reading r_bytes l) (\<lambda>(s, l).
       obind (reading r_byte l) (\<lambda>(opts, l).
       obind (rb_reg_new cls s opts) (\<lambda>x. return (enter_object x l))))
     else if ty = 91 then
       obind (reading r_long l) (\<lambda>(len, l).
       obind (check_ary_new2 len) (\<lambda>_.
       (let a = length (lheap l); (v, l) = enter_object (M_ary []) l in
        obind (r_elems (r_object n cls) (nat len) a l) (\<lambda>l. return (v, l)))))
     else if ty = 83 then
       obind (r_symbol l) (\<lambda>(path, l).
       obind (path2class cls path) (\<lambda>k.
       case k of
         K_struct mem \<Rightarrow>
           obind (reading r_long l) (\<lambda>(len, l).
           obind (check_ary_new2 len) (\<lambda>_.
           if nat len > length mem then raise ArgError
           else
             (let a = length (lheap l); (v, l) = enter_object (M_struct path (map (\<lambda>m. (m, M_nil)) mem)) l in
              obind (r_members (r_object n cls) mem (nat len) 0 a l) (\<lambda>l. return (v, l)))))
       | _ \<Rightarrow> raise Rb_bug))
     else if ty = 111 then
       obind (r_symbol l) (\<lambda>(path, l).
       obind (path2class cls path) (\<lambda>k.
       if k \<noteq> K_object then raise ArgError
       else
         (let a = length (lheap l); (v, l) = enter_object (M_object path []) l in
          obind (reading r_long l) (\<lambda>(len, l).
          obind (r_ivars (r_object n cls) (nat len) a l) (\<lambda>l. return (v, l))))))
     else if ty = 58 then obind (r_symreal l) (\<lambda>(s, l). return (M_sym s, l))
     else if ty = 59 then obind (r_symlink l) (\<lambda>(s, l). return (M_sym s, l))
     else if ty \<in> set unmodelled_types then raise Coerce
     else raise ArgError)"

definition marshal_load :: "world \<Rightarrow> byte list \<Rightarrow> (mval \<times> mobj list) outcome" where
  "marshal_load cls port =
     obind (r_byte port) (\<lambda>(major, s).
     obind (r_byte s) (\<lambda>(minor, s).
     if major \<noteq> 4 \<or> uint minor > 8 then raise TypeError
     else
       obind (r_object (Suc (length s)) cls \<lparr>src = s, lsyms = [], ldata = [], lheap = []\<rparr>) (\<lambda>(v, l).
       return (v, lheap l))))"


section \<open>Numbers: what is written is read\<close>

lemma bit_0xff: "bit (255 :: int) m \<longleftrightarrow> m < 8" "bit (255 :: 32 word) m \<longleftrightarrow> m < 8"
proof -
  have "(255 :: int) = mask 8" by (simp add: mask_eq_exp_minus_1)
  then show "bit (255 :: int) m \<longleftrightarrow> m < 8" by (simp only: bit_mask_iff possible_bit_int) simp
  have "(255 :: 32 word) = mask 8" by (simp add: mask_eq_exp_minus_1)
  then show "bit (255 :: 32 word) m \<longleftrightarrow> m < 8" by (simp only: bit_mask_iff possible_bit_word) auto
qed

lemma to_char_low: "to_char (x AND 255) = to_char x"
  by (rule bit_word_eqI) (simp add: to_char_def bit_simps bit_0xff)

lemma w_long_loop_result:
  assumes "w_long_loop n i x = Inr (bs, c)"
  shows "bs \<noteq> [] \<and> length bs \<le> n \<and> (\<forall>j < length bs. bs ! j = to_char (drop_bit (8 * j) x)) \<and>
    (c = int (i + length bs) - 1 \<and> drop_bit (8 * length bs) x = 0 \<or>
     c = 1 - int (i + length bs) \<and> drop_bit (8 * length bs) x = -1)"
  using assms
proof (induction n arbitrary: i x bs c)
  case (Suc n)
  consider "drop_bit 8 x = 0" "bs = [to_char x]" "c = int i" | "drop_bit 8 x = -1" "bs = [to_char x]" "c = - int i"
    | bs' where "w_long_loop n (Suc i) (drop_bit 8 x) = Inr (bs', c)" "bs = to_char x # bs'"
    using Suc.prems by (auto simp: Let_def obind_eq_Inr_iff to_char_low split: if_splits)
  then show ?case
  proof cases
    case (3 bs')
    note ih = Suc.IH[OF 3(1)]
    have "bs ! j = to_char (drop_bit (8 * j) x)" if "j < length bs" for j
      using that ih 3(2) by (cases j) (auto simp: drop_bit_drop_bit add.commute)
    moreover have "drop_bit (8 * length bs) x = drop_bit (8 * length bs') (drop_bit 8 x)"
      using 3(2) by (simp add: drop_bit_drop_bit add.commute)
    ultimately show ?thesis using ih 3(2) by auto
  qed simp_all
qed simp

lemma w_long_loop_total:
  assumes "drop_bit (8 * n) x = 0 \<or> drop_bit (8 * n) x = -1" "0 < n"
  shows "\<exists>bs c. w_long_loop n i x = Inr (bs, c)"
  using assms
proof (induction n arbitrary: i x)
  case (Suc n)
  show ?case
  proof (cases "drop_bit 8 x = 0 \<or> drop_bit 8 x = -1")
    case False
    then have "0 < n" using Suc.prems by (cases n) simp_all
    moreover have "drop_bit (8 * n) (drop_bit 8 x) = drop_bit (8 * Suc n) x"
      by (simp add: drop_bit_drop_bit add.commute)
    ultimately obtain bs c where "w_long_loop n (Suc i) (drop_bit 8 x) = Inr (bs, c)"
      using Suc.IH[of "drop_bit 8 x" "Suc i"] Suc.prems(1) by auto
    then show ?thesis using False by (simp add: Let_def)
  qed (auto simp: Let_def)
qed simp

text \<open>Both readers replace the bits of the bytes they read and leave the others alone.\<close>

definition patched :: "nat \<Rightarrow> byte list \<Rightarrow> 32 word \<Rightarrow> 32 word \<Rightarrow> bool" where
  "patched i bs x y \<longleftrightarrow> (\<forall>m < 32. bit y m =
     (if 8 * i \<le> m \<and> m < 8 * (i + length bs) then bit (bs ! (m div 8 - i)) (m mod 8) else bit x m))"

lemma byte_window:
  fixes b :: byte
  assumes "m < 32"
  shows "bit (push_bit (8 * i) (ucast b :: 32 word)) m \<longleftrightarrow> 8 * i \<le> m \<and> m < 8 * i + 8 \<and> bit b (m - 8 * i)"
    "bit (push_bit (8 * i) (255 :: 32 word)) m \<longleftrightarrow> 8 * i \<le> m \<and> m < 8 * i + 8"
  using assms bit_imp_le_length[of b "m - 8 * i"] by (auto simp: bit_simps bit_0xff)

lemma patched_Nil: "patched i [] x x"
  unfolding patched_def by (intro allI impI) (simp only: list.size add_0_right, linarith?, auto)

lemma patched_Cons:
  assumes x: "\<And>m. m < 32 \<Longrightarrow> bit x' m = (if 8 * i \<le> m \<and> m < 8 * i + 8 then bit b (m - 8 * i) else bit x m)"
    and y: "patched (Suc i) bs x' y"
  shows "patched i (b # bs) x y"
  unfolding patched_def
proof (intro allI impI)
  fix m :: nat assume m: "m < 32"
  note xm = x[OF m] and ym = y[unfolded patched_def, rule_format, OF m]
  consider "m < 8 * i" | "8 * i \<le> m" "m < 8 * i + 8" | "8 * i + 8 \<le> m" by linarith
  then show "bit y m =
    (if 8 * i \<le> m \<and> m < 8 * (i + length (b # bs)) then bit ((b # bs) ! (m div 8 - i)) (m mod 8) else bit x m)"
  proof cases
    case 2
    then have "m div 8 = i" by linarith
    moreover from this have "m mod 8 = m - 8 * i" using div_mult_mod_eq[of m 8] by linarith
    ultimately show ?thesis using ym xm 2 by simp
  next
    case 3
    then have "Suc i \<le> m div 8" by linarith
    then have "m div 8 - i = Suc (m div 8 - Suc i)" by linarith
    then show ?thesis using ym xm 3 by simp
  qed (use ym xm in simp)
qed

lemma r_long_pos_bits:
  assumes "\<forall>m < 32. 8 * i \<le> m \<longrightarrow> \<not> bit x m"
  shows "\<exists>y. r_long_pos (length bs) i x (bs @ s) = Inr (y, s) \<and> patched i bs x y"
  using assms
proof (induction bs arbitrary: i x)
  case (Cons b bs)
  let ?x = "x OR push_bit (8 * i) (ucast b) :: 32 word"
  have x: "bit ?x m = (if 8 * i \<le> m \<and> m < 8 * i + 8 then bit b (m - 8 * i) else bit x m)" if "m < 32" for m
    using Cons.prems byte_window(1)[OF that, of i b] that by (auto simp: bit_or_iff)
  have "\<forall>m < 32. 8 * Suc i \<le> m \<longrightarrow> \<not> bit ?x m" using Cons.prems x by simp
  from Cons.IH[OF this] obtain y where y: "r_long_pos (length bs) (Suc i) ?x (bs @ s) = Inr (y, s)"
    "patched (Suc i) bs ?x y" by blast
  then show ?case using patched_Cons[OF x y(2)] by (simp add: r_byte_def)
qed (simp add: patched_Nil)

lemma r_long_neg_bits: "\<exists>y. r_long_neg (length bs) i x (bs @ s) = Inr (y, s) \<and> patched i bs x y"
proof (induction bs arbitrary: i x)
  case (Cons b bs)
  let ?x = "(x AND NOT (push_bit (8 * i) 255)) OR push_bit (8 * i) (ucast b) :: 32 word"
  have x: "bit ?x m = (if 8 * i \<le> m \<and> m < 8 * i + 8 then bit b (m - 8 * i) else bit x m)" if "m < 32" for m
    using byte_window[OF that, of i] that by (auto simp: bit_or_iff bit_and_iff bit_not_iff)
  from Cons.IH[of "Suc i" ?x] obtain y where y: "r_long_neg (length bs) (Suc i) ?x (bs @ s) = Inr (y, s)"
    "patched (Suc i) bs ?x y" by blast
  then show ?case using patched_Cons[OF x y(2)] by (simp add: r_byte_def)
qed (simp add: patched_Nil)


text \<open>The reader starts from the bits above those written: all zero or all one.\<close>

lemma patched_sint:
  assumes bs: "\<forall>j < length bs. bs ! j = to_char (drop_bit (8 * j) x)" and y: "patched 0 bs f y"
    and top: "\<And>m. m < 32 \<Longrightarrow> 8 * length bs \<le> m \<Longrightarrow> bit f m = bit x m" and x: "-(2 ^ 31) \<le> x" "x < 2 ^ 31"
  shows "sint y = x"
proof -
  have "bit y m = bit (word_of_int x :: 32 word) m" if m: "m < 32" for m
  proof (cases "m < 8 * length bs")
    case True
    then have "m div 8 < length bs" by (simp add: less_mult_imp_div_less mult.commute)
    then have "bit (bs ! (m div 8)) (m mod 8) = bit x (8 * (m div 8) + m mod 8)"
      using bs by (simp add: to_char_def bit_simps)
    then show ?thesis using y m True by (simp add: patched_def bit_simps)
  qed (use y m top in \<open>simp add: patched_def bit_simps\<close>)
  then have "y = word_of_int x" by (intro bit_word_eqI) simp
  moreover have "sint (word_of_int x :: 32 word) = x" using x by (intro signed_take_bit_int_eq_self[THEN trans[OF sint_sbintrunc']]) simp_all
  ultimately show ?thesis by simp
qed

lemma sint_to_char_small: "- 128 \<le> c \<Longrightarrow> c < 128 \<Longrightarrow> sint (to_char c) = c"
  unfolding to_char_def by (intro signed_take_bit_int_eq_self[THEN trans[OF sint_sbintrunc']]) simp_all

lemma fits_long_drop:
  fixes x :: int
  assumes "-(2 ^ 31) \<le> x" "x < 2 ^ 31"
  shows "drop_bit (8 * 4) x = 0 \<or> drop_bit (8 * 4) x = -1"
  using assms by (auto simp: drop_bit_eq_div)

lemma r_long_step:
  assumes "sint b = c"
  shows "r_long (b # s) =
    (if c = 0 then return (0, s) else if 4 < c then return (c - 5, s) else if 0 < c then
       obind (r_long_pos (nat c) 0 0 s) (\<lambda>(x, s). return (sint x, s))
     else if c < -4 then return (c + 5, s)
     else obind (r_long_neg (nat (- c)) 0 (-1) s) (\<lambda>(x, s). return (sint x, s)))"
  using assms sint_range_size[of b] by (auto simp: r_long_def r_byte_def Let_def word_size)

lemma r_long_w_long:
  assumes x: "-(2 ^ 31) \<le> x" "x < 2 ^ 31"
  shows "\<exists>bs. w_long x = Inr bs \<and> bs \<noteq> [] \<and> length bs \<le> 5 \<and> (\<forall>s. r_long (bs @ s) = Inr (x, s))"
proof -
  consider "x = 0" | "0 < x" "x < 123" | "-124 < x" "x < 0" | "x \<ge> 123 \<or> x \<le> -124" by linarith
  then show ?thesis
  proof cases
    case 1
    then show ?thesis by (simp add: w_long_def r_long_step)
  next
    case 2
    then have "sint (to_char (x + 5)) = x + 5" by (intro sint_to_char_small) simp_all
    then show ?thesis using 2 by (simp add: w_long_def r_long_step)
  next
    case 3
    then have "sint (to_char (x - 5)) = x - 5" by (intro sint_to_char_small) simp_all
    then show ?thesis using 3 by (simp add: w_long_def r_long_step to_char_low)
  next
    case 4
    obtain bs c where bs: "w_long_loop 4 1 x = Inr (bs, c)"
      using w_long_loop_total[OF fits_long_drop[OF x], of 1] by auto
    note res = w_long_loop_result[OF bs]
    have w: "w_long x = Inr (to_char c # bs)" using 4 bs by (auto simp: w_long_def)
    have len: "0 < length bs" "length bs \<le> 4" using res by auto
    have "r_long (to_char c # bs @ s) = Inr (x, s)" for s
    proof (cases "c = int (length bs)")
      case True
      then have 0: "drop_bit (8 * length bs) x = 0" using res len by auto
      have "bit 0 m = bit x m" if "8 * length bs \<le> m" for m
        using bit_drop_bit_eq[of "8 * length bs" x, THEN fun_cong, of "m - 8 * length bs"] 0 that by simp
      moreover obtain y where "r_long_pos (length bs) 0 0 (bs @ s) = Inr (y, s)" "patched 0 bs 0 y"
        using r_long_pos_bits[of 0 0 bs s] by auto
      moreover have "sint (to_char c) = c" using True len by (intro sint_to_char_small) simp_all
      ultimately show ?thesis using True len res patched_sint[of bs x 0 y] x by (simp add: r_long_step)
    next
      case False
      then have 1: "drop_bit (8 * length bs) x = -1" and c: "c = - int (length bs)" using res by auto
      have "bit (-1 :: 32 word) m = bit x m" if "m < 32" "8 * length bs \<le> m" for m
        using bit_drop_bit_eq[of "8 * length bs" x, THEN fun_cong, of "m - 8 * length bs"] 1 that by simp
      moreover obtain y where "r_long_neg (length bs) 0 (-1) (bs @ s) = Inr (y, s)" "patched 0 bs (-1) y"
        using r_long_neg_bits[of bs 0 "-1" s] by auto
      moreover have "sint (to_char c) = c" using c len by (intro sint_to_char_small) simp_all
      ultimately show ?thesis using c len res patched_sint[of bs x "-1" y] x by (simp add: r_long_step)
    qed
    then show ?thesis using w len by simp
  qed
qed

definition fits :: "nat \<Rightarrow> bool" where
  "fits n \<longleftrightarrow> n < 2 ^ 29"

lemma fits_s32: "fits n \<Longrightarrow> s32 (int n) = int n" "fits n \<Longrightarrow> -(2 ^ 31) \<le> int n" "fits n \<Longrightarrow> int n < 2 ^ 31"
  by (simp_all add: fits_def s32_id)

lemma w_bytes_total: "fits (length t) \<Longrightarrow> \<exists>bs. w_bytes t = Inr bs"
  using r_long_w_long[OF fits_s32(2,3), of "length t"] by (auto simp: w_bytes_def fits_s32)

lemma w_long_read: "w_long x = Inr bs \<Longrightarrow> -(2 ^ 31) \<le> x \<Longrightarrow> x < 2 ^ 31 \<Longrightarrow> bs \<noteq> [] \<and> (\<forall>s. r_long (bs @ s) = Inr (x, s))"
  using r_long_w_long[of x] by auto

lemma r_bytes0_exact: "r_bytes0 (int (length t)) (t @ s) = Inr (t, s)"
  by (auto simp: r_bytes0_def)

lemma r_bytes_w_bytes:
  assumes "w_bytes t = Inr bs" "fits (length t)"
  shows "bs \<noteq> [] \<and> r_bytes (bs @ s) = Inr (t, s)"
proof -
  obtain l where l: "w_long (int (length t)) = Inr l" "bs = l @ t"
    using assms by (auto simp: w_bytes_def fits_s32 obind_eq_Inr_iff)
  note rd = w_long_read[OF l(1) fits_s32(2,3)[OF assms(2)]]
  then have "r_long (bs @ s) = Inr (int (length t), t @ s)" using l(2) by simp
  then show ?thesis using rd l(2) by (simp add: r_bytes_def r_bytes0_exact)
qed

lemma digits_of_bytes_w_short: "digits_of_bytes (concat (map w_short ds)) = ds"
proof (induction ds)
  case (Cons d ds)
  have "(word_of_int (uint (to_char (uint d AND 255)) OR push_bit 8 (uint (to_char (drop_bit 8 (uint d) AND 255)))) :: bdigit) = d"
  proof (rule bit_word_eqI)
    fix m assume "m < LENGTH(16)"
    then show "bit (word_of_int (uint (to_char (uint d AND 255)) OR push_bit 8 (uint (to_char (drop_bit 8 (uint d) AND 255)))) :: bdigit) m = bit d m"
      by (cases "m < 8") (auto simp: to_char_low to_char_def bit_simps bit_0xff)
  qed
  then show ?case using Cons by (simp add: w_short_def)
qed simp

lemma length_w_shorts: "length (concat (map w_short ds)) = 2 * length ds"
  by (induction ds) (simp_all add: w_short_def)

end
