(* ===== verification/Marshal_Graph.thy ===== *)
theory Marshal_Graph
  imports Marshal
begin

text \<open>
  Dumping and loading of object graphs: what \<^verbatim>\<open>Marshal.dump\<close> writes, \<^verbatim>\<open>Marshal.load\<close> reads back as an
  isomorphic graph, shared and cyclic parts included. Writers are functions on the state of the dump,
  readers functions on the state of the load; a writer and a reader are related when the reader takes
  exactly the bytes the writer put out and ends with the same tables.
\<close>

section \<open>What writing keeps\<close>

definition dump_inv :: "mobj list \<Rightarrow> dump \<Rightarrow> bool" where
  "dump_inv h d \<longleftrightarrow> length (dsyms d) \<le> length (dstr d) \<and> length (ddata d) \<le> length (dstr d) \<and>
     distinct (ddata d) \<and> set (ddata d) \<subseteq> {..< length h}"

definition grows :: "mobj list \<Rightarrow> dump \<Rightarrow> dump \<Rightarrow> bool" where
  "grows h d d2 \<longleftrightarrow> (\<exists>bs. dstr d2 = dstr d @ bs) \<and> (\<exists>xs. ddata d2 = ddata d @ xs) \<and> (dump_inv h d \<longrightarrow> dump_inv h d2)"

definition writer :: "mobj list \<Rightarrow> (dump \<Rightarrow> dump outcome) \<Rightarrow> bool" where
  "writer h W \<longleftrightarrow> (\<forall>d d2. W d = Inr d2 \<longrightarrow> grows h d d2)"

lemma grows_refl: "grows h d d"
  by (simp add: grows_def)

lemma grows_trans: "grows h d d2 \<Longrightarrow> grows h d2 d3 \<Longrightarrow> grows h d d3"
  by (auto simp: grows_def)

lemma writerD: "writer h W \<Longrightarrow> W d = Inr d2 \<Longrightarrow> grows h d d2"
  by (simp add: writer_def)

lemma writer_bind [intro]: "writer h W \<Longrightarrow> writer h V \<Longrightarrow> writer h (\<lambda>d. obind (W d) V)"
  unfolding writer_def obind_eq_Inr_iff by (blast intro: grows_trans)

lemma writer_raise [intro]: "writer h (\<lambda>d. raise e)"
  by (simp add: writer_def)

lemma writer_out [intro]: "writer h (w_out bs)"
  by (auto simp: writer_def w_out_def grows_def dump_inv_def)

lemma writer_num [intro]: "writer h (w_num i)"
  using writer_out unfolding w_num_def writer_def by (auto simp: obind_eq_Inr_iff)

lemma writer_str [intro]: "writer h (w_str s)"
  using writer_out unfolding w_str_def writer_def by (auto simp: obind_eq_Inr_iff)

lemma writer_symbol [intro]: "writer h (w_symbol name)"
  unfolding writer_def
proof (intro allI impI)
  fix d d2
  assume w: "w_symbol name d = Inr d2"
  show "grows h d d2"
  proof (cases "index_of name (dsyms d)")
    case None
    then obtain bs where bs: "w_bytes (c_string name) = Inr bs"
      and d2: "d2 = d\<lparr>dstr := dstr d @ 58 # bs, dsyms := dsyms d @ [name]\<rparr>"
      using w by (auto simp: w_symbol_def w_out_def w_str_def obind_eq_Inr_iff)
    then show ?thesis by (auto simp: grows_def dump_inv_def)
  next
    case (Some num)
    then have "obind (w_out [59] d) (w_num (int num)) = Inr d2" using w by (simp add: w_symbol_def)
    then show ?thesis using writerD[OF writer_bind[OF writer_out writer_num]] by blast
  qed
qed

lemma writer_unique [intro]: "writer h (w_unique s)"
  using writer_symbol unfolding writer_def w_unique_def by auto

lemma writer_elems:
  assumes "\<And>v. writer h (w v)"
  shows "writer h (w_elems w vs)"
proof (induction vs)
  case (Cons v vs)
  then show ?case by (auto intro!: writer_bind assms)
qed (simp add: writer_def grows_refl)

lemma writer_slots:
  assumes "\<And>v. writer h (w v)"
  shows "writer h (w_slots w vs)"
proof (induction vs)
  case (Cons p vs)
  then show ?case by (cases p) (auto intro!: writer_bind writer_symbol assms)
qed (simp add: writer_def grows_refl)

text \<open>An object is entered into the table and its first byte is written.\<close>

definition w_body :: "mobj list \<Rightarrow> (mval \<Rightarrow> dump \<Rightarrow> dump outcome) \<Rightarrow> mobj \<Rightarrow> dump \<Rightarrow> dump outcome" where
  "w_body h w x d =
     (case x of
        M_big b \<Rightarrow> obind (w_out [if sign b then 43 else 45] d) (\<lambda>d.
          obind (w_num (s32 (int (length (digits b)))) d) (w_out (concat (map w_short (digits b)))))
      | M_str s \<Rightarrow> w_str s d
      | M_reg s opts \<Rightarrow> obind (w_str s d) (w_out [opts])
      | M_ary vs \<Rightarrow> obind (w_num (s32 (int (length vs))) d) (w_elems w vs)
      | M_struct path slots \<Rightarrow>
          obind (w_unique path d) (\<lambda>d. obind (w_num (s32 (int (length slots))) d) (w_slots w slots))
      | M_object path ivars \<Rightarrow>
          obind (w_unique path d) (\<lambda>d. obind (w_num (s32 (int (length ivars))) d) (w_slots w ivars))
      | M_other \<Rightarrow> raise TypeError)"

fun type_byte :: "mobj \<Rightarrow> byte" where
  "type_byte (M_big b) = 108"
| "type_byte (M_str s) = 34"
| "type_byte (M_reg s opts) = 47"
| "type_byte (M_ary vs) = 91"
| "type_byte (M_struct path slots) = 83"
| "type_byte (M_object path ivars) = 111"
| "type_byte M_other = 0"

lemma writer_body:
  assumes "\<And>v. writer h (w v)"
  shows "writer h (w_body h w x)"
  by (cases x) (auto simp: w_body_def [abs_def] intro!: writer_bind writer_elems writer_slots assms)

lemma w_object_new:
  assumes "index_of a (ddata d) = None" "a < length h" "limit \<noteq> 0"
  shows "w_object (Suc n) h limit (M_ref a) d =
    w_body h (w_object n h (s32 (limit - 1))) (h ! a)
      (d\<lparr>ddata := ddata d @ [a], dstr := dstr d @ [type_byte (h ! a)]\<rparr>)"
  using assms by (cases "h ! a") (simp_all add: w_body_def w_out_def Let_def)

lemma w_object_seen:
  assumes "index_of a (ddata d) = Some k" "limit \<noteq> 0"
  shows "w_object (Suc n) h limit (M_ref a) d = obind (w_out [64] d) (w_num (int k))"
  using assms by (simp add: Let_def)

lemma index_of_None: "index_of x xs = None \<longleftrightarrow> x \<notin> set xs"
  by (induction xs) auto

lemma index_of_Some: "index_of x xs = Some k \<Longrightarrow> k < length xs \<and> xs ! k = x"
  by (induction xs arbitrary: k) (auto split: if_splits)

lemma index_of_append: "index_of x xs = Some k \<Longrightarrow> index_of x (xs @ ys) = Some k"
  by (induction xs arbitrary: k) (auto split: if_splits)

lemma index_of_last: "index_of x xs = None \<Longrightarrow> index_of x (xs @ x # ys) = Some (length xs)"
  by (induction xs) (auto split: if_splits)

lemma writer_object: "writer h (w_object n h limit v)"
proof (induction n arbitrary: limit v)
  case (Suc n)
  let ?w = "w_object n h (s32 (limit - 1))"
  show ?case unfolding writer_def
  proof (intro allI impI)
    fix d d2
    assume w: "w_object (Suc n) h limit v d = Inr d2"
    then have l: "limit \<noteq> 0" by (auto split: if_splits)
    show "grows h d d2"
    proof (cases v)
      case (M_ref a)
      show ?thesis
      proof (cases "index_of a (ddata d)")
        case None
        have a: "a < length h" using w l M_ref None by (auto simp: Let_def split: if_splits)
        let ?d = "d\<lparr>ddata := ddata d @ [a], dstr := dstr d @ [type_byte (h ! a)]\<rparr>"
        have "w_body h ?w (h ! a) ?d = Inr d2"
          using w unfolding M_ref w_object_new[OF None a l] .
        from writerD[OF writer_body[OF Suc.IH] this] have "grows h ?d d2" .
        moreover have "grows h d ?d" using a None by (auto simp: grows_def dump_inv_def index_of_None)
        ultimately show ?thesis by (rule grows_trans[rotated])
      next
        case (Some k)
        show ?thesis using w unfolding M_ref w_object_seen[OF Some l]
          by (rule writerD[OF writer_bind[OF writer_out writer_num]])
      qed
    next
      case (M_fix i)
      then show ?thesis using w l writerD[OF writer_bind[OF writer_out writer_num]] by (simp add: Let_def)
    qed (use w l writerD[OF writer_out] writerD[OF writer_symbol] in \<open>auto simp: Let_def\<close>)
  qed
qed (simp add: writer_def)

section \<open>Readers without objects\<close>

definition at :: "dump \<Rightarrow> byte list \<Rightarrow> mval list \<Rightarrow> mobj list \<Rightarrow> load" where
  "at d s ds hp = \<lparr>src = s, lsyms = dsyms d, ldata = ds, lheap = hp\<rparr>"

text \<open>
  The reader gives \<open>x\<close> from the bytes that the writer puts out, whatever objects there are.
\<close>

definition plain :: "mobj list \<Rightarrow> (dump \<Rightarrow> dump outcome) \<Rightarrow> (load \<Rightarrow> ('a \<times> load) outcome) \<Rightarrow> 'a \<Rightarrow> bool" where
  "plain h W R x \<longleftrightarrow> writer h W \<and> (\<forall>d d2. W d = Inr d2 \<and> dump_inv h d \<and> fits (length (dstr d2)) \<longrightarrow>
     ddata d2 = ddata d \<and> (\<exists>bs. dstr d2 = dstr d @ bs \<and>
       (\<forall>rest ds hp. R (at d (bs @ rest) ds hp) = Inr (x, at d2 rest ds hp))))"

lemma plainI:
  assumes "writer h W"
    and "\<And>d d2. W d = Inr d2 \<Longrightarrow> dump_inv h d \<Longrightarrow> fits (length (dstr d2)) \<Longrightarrow> ddata d2 = ddata d \<and>
      (\<exists>bs. dstr d2 = dstr d @ bs \<and> (\<forall>rest ds hp. R (at d (bs @ rest) ds hp) = Inr (x, at d2 rest ds hp)))"
  shows "plain h W R x"
  using assms by (simp add: plain_def)

lemma plainE:
  assumes "plain h W R x" "W d = Inr d2" "dump_inv h d" "fits (length (dstr d2))"
  obtains bs where "ddata d2 = ddata d" "dstr d2 = dstr d @ bs" "dump_inv h d2"
    "\<And>rest ds hp. R (at d (bs @ rest) ds hp) = Inr (x, at d2 rest ds hp)"
  using assms unfolding plain_def writer_def grows_def by blast

lemma fits_less: "fits n \<Longrightarrow> m \<le> n \<Longrightarrow> fits m"
  by (simp add: fits_def)

lemma grows_fits: "grows h d d2 \<Longrightarrow> fits (length (dstr d2)) \<Longrightarrow> fits (length (dstr d))"
  by (auto simp: grows_def elim: fits_less)

lemma grows_inv: "grows h d d2 \<Longrightarrow> dump_inv h d \<Longrightarrow> dump_inv h d2"
  by (simp add: grows_def)

lemma plain_bind:
  assumes W: "plain h W R x" and V: "plain h V (Q x) y"
  shows "plain h (\<lambda>d. obind (W d) V) (\<lambda>l. obind (R l) (\<lambda>(x, l). Q x l)) y"
proof (rule plainI)
  show "writer h (\<lambda>d. obind (W d) V)" using W V by (auto simp: plain_def)
next
  fix d d3
  assume *: "obind (W d) V = Inr d3" "dump_inv h d" "fits (length (dstr d3))"
  then obtain d2 where d2: "W d = Inr d2" "V d2 = Inr d3" by (auto simp: obind_eq_Inr_iff)
  then have fits2: "fits (length (dstr d2))" using * V grows_fits writerD unfolding plain_def by blast
  from W d2(1) *(2) fits2 obtain bs where 1: "ddata d2 = ddata d" "dstr d2 = dstr d @ bs" "dump_inv h d2"
    "\<And>rest ds hp. R (at d (bs @ rest) ds hp) = Inr (x, at d2 rest ds hp)" by (rule plainE) blast
  from V d2(2) 1(3) *(3) obtain cs where 2: "ddata d3 = ddata d2" "dstr d3 = dstr d2 @ cs"
    "\<And>rest ds hp. Q x (at d2 (cs @ rest) ds hp) = Inr (y, at d3 rest ds hp)" by (rule plainE) blast
  show "ddata d3 = ddata d \<and> (\<exists>bs. dstr d3 = dstr d @ bs \<and>
    (\<forall>rest ds hp. obind (R (at d (bs @ rest) ds hp)) (\<lambda>(x, l). Q x l) = Inr (y, at d3 rest ds hp)))"
    using 1 2 by (intro conjI exI[of _ "bs @ cs"]) simp_all
qed

lemma plain_out:
  assumes "\<And>s. r (bs @ s) = Inr (x, s)"
  shows "plain h (w_out bs) (reading r) x"
  using assms by (intro plainI) (auto simp: w_out_def reading_def at_def)

lemma plain_byte: "plain h (w_out [b]) (reading r_byte) b"
  by (rule plain_out) (simp add: r_byte_def)

lemma plain_num:
  assumes "-(2 ^ 31) \<le> i" "i < 2 ^ 31"
  shows "plain h (w_num i) (reading r_long) i"
proof -
  obtain bs where bs: "w_long i = Inr bs" "\<forall>s. r_long (bs @ s) = Inr (i, s)" using r_long_w_long[OF assms] by blast
  then have "w_num i = w_out bs" by (simp add: w_num_def [abs_def])
  then show ?thesis using plain_out bs(2) by metis
qed

text \<open>Lengths are bounded by what is written after them.\<close>

lemma plain_count:
  assumes "fits n"
  shows "plain h (w_num (s32 (int n))) (reading r_long) (int n)"
  using plain_num[OF fits_s32(2,3)[OF assms], of h] assms by (simp add: fits_s32(1))

lemma plain_str: "plain h (w_str s) (reading r_bytes) s"
proof (rule plainI)
  fix d d2
  assume "w_str s d = Inr d2" "dump_inv h d" "fits (length (dstr d2))"
  then obtain bs where bs: "w_bytes s = Inr bs" "d2 = d\<lparr>dstr := dstr d @ bs\<rparr>" "fits (length (dstr d @ bs))"
    by (auto simp: w_str_def w_out_def obind_eq_Inr_iff)
  moreover have "length s \<le> length bs" using bs(1) by (auto simp: w_bytes_def obind_eq_Inr_iff)
  ultimately have "fits (length s)" by (auto elim: fits_less)
  then show "ddata d2 = ddata d \<and> (\<exists>bs. dstr d2 = dstr d @ bs \<and>
      (\<forall>rest ds hp. reading r_bytes (at d (bs @ rest) ds hp) = Inr (s, at d2 rest ds hp)))"
    using bs r_bytes_w_bytes[OF bs(1)] by (auto simp: reading_def at_def)
qed auto

text \<open>Names of symbols and classes are C strings.\<close>

definition name_ok :: "byte list \<Rightarrow> bool" where
  "name_ok s \<longleftrightarrow> 0 \<notin> set s"

lemma c_string_name: "name_ok s \<Longrightarrow> c_string s = s"
  by (auto simp: name_ok_def c_string_def takeWhile_eq_all_conv)

lemma w_symbol_bytes:
  assumes "name_ok name" "w_symbol name d = Inr d2" "dump_inv h d" "fits (length (dstr d2))"
  shows "ddata d2 = ddata d \<and> (\<exists>b bs. dstr d2 = dstr d @ b # bs \<and> (b = 58 \<or> b = 59) \<and>
    (\<forall>rest ds hp. (if b = 59 then r_symlink else r_symreal) (at d (bs @ rest) ds hp) = Inr (name, at d2 rest ds hp)))"
proof (cases "index_of name (dsyms d)")
  case None
  then obtain bs where bs: "w_bytes name = Inr bs"
    and d2: "d2 = d\<lparr>dstr := dstr d @ 58 # bs, dsyms := dsyms d @ [name]\<rparr>"
    using assms(1,2) by (auto simp: w_symbol_def w_out_def w_str_def obind_eq_Inr_iff c_string_name)
  have "length name \<le> length bs" using bs by (auto simp: w_bytes_def obind_eq_Inr_iff)
  then have "fits (length name)" using assms(4) d2 by (auto elim!: fits_less)
  then show ?thesis using r_bytes_w_bytes[OF bs] d2 assms(1)
    by (auto simp: r_symreal_def reading_def at_def c_string_name)
next
  case (Some num)
  have num: "num < length (dsyms d)" "dsyms d ! num = name" using index_of_Some[OF Some] by auto
  have w: "obind (w_out [59] d) (w_num (int num)) = Inr d2" using Some assms(2) by (simp add: w_symbol_def)
  then obtain bs where bs: "w_long (int num) = Inr bs" "d2 = d\<lparr>dstr := dstr d @ 59 # bs\<rparr>"
    by (auto simp: w_num_def w_out_def obind_eq_Inr_iff)
  have "fits num" using assms(3,4) num(1) bs(2) by (auto simp: dump_inv_def elim!: fits_less)
  then have "\<forall>s. r_long (bs @ s) = Inr (int num, s)" using w_long_read[OF bs(1)] fits_s32(2,3) by blast
  then show ?thesis using bs(2) num by (auto simp: r_symlink_def reading_def at_def)
qed

lemma r_symbol_at: "r_symbol (at d (b # s) ds hp) = (if b = 59 then r_symlink else r_symreal) (at d s ds hp)"
  by (simp add: r_symbol_def reading_def r_byte_def at_def)

lemma plain_symbol:
  assumes "name_ok name"
  shows "plain h (w_symbol name) r_symbol name"
proof (rule plainI[OF writer_symbol])
  fix d d2
  assume *: "w_symbol name d = Inr d2" "dump_inv h d" "fits (length (dstr d2))"
  note sb = w_symbol_bytes[OF assms *]
  then obtain b bs where "dstr d2 = dstr d @ b # bs"
    "\<forall>rest ds hp. (if b = 59 then r_symlink else r_symreal) (at d (bs @ rest) ds hp) = Inr (name, at d2 rest ds hp)"
    by blast
  then show "ddata d2 = ddata d \<and> (\<exists>bs. dstr d2 = dstr d @ bs \<and>
      (\<forall>rest ds hp. r_symbol (at d (bs @ rest) ds hp) = Inr (name, at d2 rest ds hp)))"
    using sb by (intro conjI exI[of _ "b # bs"]) (simp_all add: r_symbol_at)
qed

lemma plain_unique:
  assumes "name_ok path"
  shows "plain h (w_unique path) r_symbol path"
  using plain_symbol[OF assms, of h] writer_unique[of h path] unfolding plain_def by (auto simp: w_unique_def)

section \<open>Objects\<close>

text \<open>
  The objects of the loaded heap are those of the table of the dump, in its order: a reference becomes
  the position of its object in the table.
\<close>

fun ren :: "nat list \<Rightarrow> mval \<Rightarrow> mval" where
  "ren F (M_ref a) = M_ref (case index_of a F of Some k \<Rightarrow> k | None \<Rightarrow> length F)"
| "ren F v = v"

fun ren_obj :: "nat list \<Rightarrow> mobj \<Rightarrow> mobj" where
  "ren_obj F (M_ary vs) = M_ary (map (ren F) vs)"
| "ren_obj F (M_struct path slots) = M_struct path (map (apsnd (ren F)) slots)"
| "ren_obj F (M_object path ivars) = M_object path (map (apsnd (ren F)) ivars)"
| "ren_obj F x = x"

definition fresh :: "nat list \<Rightarrow> mobj list \<Rightarrow> dump \<Rightarrow> dump \<Rightarrow> mobj list" where
  "fresh F h d d2 = map (\<lambda>a. ren_obj F (h ! a)) (drop (length (ddata d)) (ddata d2))"

definition links :: "dump \<Rightarrow> mval list" where
  "links d = map M_ref [0..<length (ddata d)]"

definition reads_back :: "world \<Rightarrow> mobj list \<Rightarrow> nat list \<Rightarrow> dump \<Rightarrow> dump \<Rightarrow> mval \<Rightarrow> bool" where
  "reads_back cls h F d d2 v \<longleftrightarrow> (\<exists>bs. bs \<noteq> [] \<and> dstr d2 = dstr d @ bs \<and> (\<forall>m rest hp.
     length bs \<le> m \<and> length hp = length (ddata d) \<longrightarrow>
     r_object m cls (at d (bs @ rest) (links d) hp) =
       Inr (ren F v, at d2 rest (links d2) (hp @ fresh F h d d2))))"

definition codes :: "world \<Rightarrow> mobj list \<Rightarrow> nat list \<Rightarrow> (dump \<Rightarrow> dump outcome) \<Rightarrow> mval \<Rightarrow> bool" where
  "codes cls h F W v \<longleftrightarrow> (\<forall>d d2 ys. W d = Inr d2 \<longrightarrow> dump_inv h d \<longrightarrow> fits (length (dstr d2)) \<longrightarrow> F = ddata d2 @ ys \<longrightarrow>
     reads_back cls h F d d2 v)"

lemma codesE:
  assumes "codes cls h F W v" "W d = Inr d2" "dump_inv h d" "fits (length (dstr d2))" "F = ddata d2 @ ys"
  obtains bs where "bs \<noteq> []" "dstr d2 = dstr d @ bs" "\<And>m rest hp. length bs \<le> m \<Longrightarrow> length hp = length (ddata d) \<Longrightarrow>
    r_object m cls (at d (bs @ rest) (links d) hp) = Inr (ren F v, at d2 rest (links d2) (hp @ fresh F h d d2))"
proof -
  have "reads_back cls h F d d2 v" using assms(1)[unfolded codes_def, rule_format, OF assms(2-5)] .
  then show ?thesis unfolding reads_back_def using that by metis
qed

lemma fresh_refl: "ddata d2 = ddata d \<Longrightarrow> fresh F h d d2 = []"
  by (simp add: fresh_def)

lemma fresh_trans: "grows h d d2 \<Longrightarrow> grows h d2 d3 \<Longrightarrow> fresh F h d d2 @ fresh F h d2 d3 = fresh F h d d3"
  by (auto simp: grows_def fresh_def)

lemma length_fresh: "grows h d d2 \<Longrightarrow> length (fresh F h d d2) = length (ddata d2) - length (ddata d)"
  by (auto simp: grows_def fresh_def)

text \<open>The elements of an array are read one by one; the array object in the heap is at \<open>a\<close>.\<close>

lemma same_update: "hp ! a = x \<Longrightarrow> hp[a := x] = hp"
  by (drule sym) simp

lemma push_elem_at:
  assumes "a < length hp" "hp ! a = M_ary acc"
  shows "push_elem a v (at d s ds (hp @ new)) = at d s ds (hp[a := M_ary (acc @ [v])] @ new)"
  using assms by (simp add: push_elem_def at_def nth_append list_update_append)

lemma elems_read:
  assumes w: "\<And>v. v \<in> set vs \<Longrightarrow> codes cls h F (w v) v" "\<And>v. writer h (w v)"
    and d: "w_elems w vs d = Inr d2" "dump_inv h d" "fits (length (dstr d2))" "F = ddata d2 @ ys"
  shows "\<exists>bs. dstr d2 = dstr d @ bs \<and> length vs \<le> length bs \<and> (\<forall>m rest hp acc a.
    length bs \<le> m \<and> length hp = length (ddata d) \<and> a < length hp \<and> hp ! a = M_ary acc \<longrightarrow>
    r_elems (r_object m cls) (length vs) a (at d (bs @ rest) (links d) hp) =
      Inr (at d2 rest (links d2) (hp[a := M_ary (acc @ map (ren F) vs)] @ fresh F h d d2)))"
  using w(1) d(1,2)
proof (induction vs arbitrary: d)
  case Nil
  then show ?case by (intro exI[of _ "[]"]) (simp add: fresh_refl same_update)
next
  case (Cons v vs d)
  then obtain d1 where d1: "w v d = Inr d1" "w_elems w vs d1 = Inr d2" by (auto simp: obind_eq_Inr_iff)
  note g = writerD[OF w(2) d1(1)] writerD[OF writer_elems[OF w(2)] d1(2)]
  from g(2) obtain xs where "ddata d2 = ddata d1 @ xs" by (auto simp: grows_def)
  then have F: "F = ddata d1 @ (xs @ ys)" using d(4) by simp
  have "codes cls h F (w v) v" by (rule Cons.prems(1)) simp
  from codesE[OF this d1(1) Cons.prems(3) grows_fits[OF g(2) d(3)] F] obtain bs where bs: "bs \<noteq> []" "dstr d1 = dstr d @ bs"
    "\<And>m rest hp. length bs \<le> m \<Longrightarrow> length hp = length (ddata d) \<Longrightarrow>
    r_object m cls (at d (bs @ rest) (links d) hp) = Inr (ren F v, at d1 rest (links d1) (hp @ fresh F h d d1))" by blast
  have "codes cls h F (w x) x" if "x \<in> set vs" for x by (rule Cons.prems(1)) (simp add: that)
  from Cons.IH[OF this d1(2) grows_inv[OF g(1) Cons.prems(3)]] obtain cs where cs: "dstr d2 = dstr d1 @ cs" "length vs \<le> length cs"
    "\<And>m rest hp acc a. length cs \<le> m \<and> length hp = length (ddata d1) \<and> a < length hp \<and> hp ! a = M_ary acc \<Longrightarrow>
    r_elems (r_object m cls) (length vs) a (at d1 (cs @ rest) (links d1) hp) =
      Inr (at d2 rest (links d2) (hp[a := M_ary (acc @ map (ren F) vs)] @ fresh F h d1 d2))" by blast
  show ?case
  proof (intro exI[of _ "bs @ cs"] conjI allI impI)
    fix m rest acc a and hp :: "mobj list"
    assume *: "length (bs @ cs) \<le> m \<and> length hp = length (ddata d) \<and> a < length hp \<and> hp ! a = M_ary acc"
    have len: "length (hp @ fresh F h d d1) = length (ddata d1)" using * g(1) length_fresh[OF g(1)] by (auto simp: grows_def)
    show "r_elems (r_object m cls) (length (v # vs)) a (at d ((bs @ cs) @ rest) (links d) hp) =
      Inr (at d2 rest (links d2) (hp[a := M_ary (acc @ map (ren F) (v # vs))] @ fresh F h d d2))"
      using * len bs(3)[of m hp "cs @ rest"] cs(3)[of m "hp[a := M_ary (acc @ [ren F v])] @ fresh F h d d1" a "acc @ [ren F v]" rest]
      by (simp add: push_elem_at nth_append list_update_append fresh_trans[OF g])
  qed (use bs(1,2) cs(1,2) in \<open>cases bs; simp\<close>)+
qed

text \<open>
  The slots of structures and the instance variables of objects: a loop that reads a name and a value
  and changes the object at \<open>a\<close> from its \<open>k\<close>-th form to the next.
\<close>

lemma slots_read:
  fixes L :: "(load \<Rightarrow> (mval \<times> load) outcome) \<Rightarrow> nat \<Rightarrow> nat \<Rightarrow> load \<Rightarrow> load outcome"
  assumes L: "\<And>r k l. L r 0 k l = Inr l"
      "\<And>r n k l l1 v l2. k < length xs \<Longrightarrow> r_symbol l = Inr (fst (xs ! k), l1) \<Longrightarrow> r l1 = Inr (v, l2) \<Longrightarrow> L r (Suc n) k l = L r n (Suc k) (upd k v l2)"
    and upd: "\<And>k d s ds hp new. k < length xs \<Longrightarrow> a < length hp \<Longrightarrow> hp ! a = obj k \<Longrightarrow>
      upd k (ren F (snd (xs ! k))) (at d s ds (hp @ new)) = at d s ds (hp[a := obj (Suc k)] @ new)"
    and w: "\<And>x. x \<in> set xs \<Longrightarrow> codes cls h F (w (snd x)) (snd x) \<and> name_ok (fst x)" "\<And>v. writer h (w v)"
    and d: "w_slots w (drop k xs) d = Inr d2" "dump_inv h d" "fits (length (dstr d2))" "F = ddata d2 @ ys" "k \<le> length xs"
  shows "\<exists>bs. dstr d2 = dstr d @ bs \<and> length xs - k \<le> length bs \<and> (\<forall>m rest hp.
    length bs \<le> m \<and> length hp = length (ddata d) \<and> a < length hp \<and> hp ! a = obj k \<longrightarrow>
    L (r_object m cls) (length xs - k) k (at d (bs @ rest) (links d) hp) =
      Inr (at d2 rest (links d2) (hp[a := obj (length xs)] @ fresh F h d d2)))"
  using d(1,2,5)
proof (induction "length xs - k" arbitrary: k d)
  case 0
  then have "obj (length xs) = obj k" "d2 = d" by simp_all
  then show ?case using 0 L(1) by (intro exI[of _ "[]"]) (simp add: fresh_refl same_update)
next
  case (Suc n k d)
  then have k: "k < length xs" "n = length xs - Suc k" by auto
  obtain slot v where x: "xs ! k = (slot, v)" by (cases "xs ! k")
  have "drop k xs = (slot, v) # drop (Suc k) xs" using k(1) x by (metis Cons_nth_drop_Suc)
  then obtain d0 d1 where d1: "w_symbol slot d = Inr d0" "w v d0 = Inr d1" "w_slots w (drop (Suc k) xs) d1 = Inr d2"
    using Suc.prems(1) by (auto simp: obind_eq_Inr_iff)
  note g = writerD[OF writer_symbol d1(1), of h] writerD[OF w(2) d1(2)] writerD[OF writer_slots[OF w(2)] d1(3)]
  have c: "codes cls h F (w v) v" "name_ok slot" using w(1)[OF nth_mem[OF k(1)]] x by simp_all
  obtain zs where "ddata d2 = ddata d1 @ zs" using g(3) by (auto simp: grows_def)
  then have F: "F = ddata d1 @ (zs @ ys)" using d(4) by simp
  note f1 = grows_fits[OF g(3) d(3)] and inv0 = grows_inv[OF g(1) Suc.prems(2)]
  obtain b0 where b0: "ddata d0 = ddata d" "dstr d0 = dstr d @ b0"
    "\<And>rest ds hp. r_symbol (at d (b0 @ rest) ds hp) = Inr (slot, at d0 rest ds hp)"
    using plain_symbol[OF c(2), of h] d1(1) Suc.prems(2) grows_fits[OF g(2) f1] by (rule plainE) blast
  from codesE[OF c(1) d1(2) inv0 f1 F] obtain bs where bs: "bs \<noteq> []" "dstr d1 = dstr d0 @ bs"
    "\<And>m rest hp. length bs \<le> m \<Longrightarrow> length hp = length (ddata d0) \<Longrightarrow>
    r_object m cls (at d0 (bs @ rest) (links d0) hp) = Inr (ren F v, at d1 rest (links d1) (hp @ fresh F h d0 d1))" by blast
  from Suc.hyps(1)[OF k(2) d1(3) grows_inv[OF g(2) inv0]] k(1) obtain cs where
    cs: "dstr d2 = dstr d1 @ cs" "length xs - Suc k \<le> length cs"
    "\<And>m rest hp. length cs \<le> m \<and> length hp = length (ddata d1) \<and> a < length hp \<and> hp ! a = obj (Suc k) \<Longrightarrow>
    L (r_object m cls) (length xs - Suc k) (Suc k) (at d1 (cs @ rest) (links d1) hp) =
      Inr (at d2 rest (links d2) (hp[a := obj (length xs)] @ fresh F h d1 d2))" by (auto simp: Suc_le_eq)
  have l0: "links d0 = links d" using b0(1) by (simp add: links_def)
  have fr: "fresh F h d0 d1 @ fresh F h d1 d2 = fresh F h d d2"
    using fresh_trans[OF g(2,3), of F] b0(1) by (simp add: fresh_def)
  show ?case
  proof (intro exI[of _ "b0 @ bs @ cs"] conjI allI impI)
    fix m rest and hp :: "mobj list"
    assume *: "length (b0 @ bs @ cs) \<le> m \<and> length hp = length (ddata d) \<and> a < length hp \<and> hp ! a = obj k"
    have len: "length (hp @ fresh F h d0 d1) = length (ddata d1)"
      using * b0(1) g(2) length_fresh[OF g(2)] by (auto simp: grows_def)
    have "L (r_object m cls) (Suc n) k (at d ((b0 @ bs @ cs) @ rest) (links d) hp) =
        L (r_object m cls) n (Suc k) (upd k (ren F v) (at d1 (cs @ rest) (links d1) (hp @ fresh F h d0 d1)))"
      by (rule L(2)[of _ _ "at d0 (bs @ cs @ rest) (links d) hp"])
        (use * k(1) x b0 l0 bs(3)[of m hp "cs @ rest"] in simp_all)
    also have "\<dots> = L (r_object m cls) n (Suc k) (at d1 (cs @ rest) (links d1) (hp[a := obj (Suc k)] @ fresh F h d0 d1))"
      using upd[of k hp] * k(1) x by simp
    also have "\<dots> = Inr (at d2 rest (links d2) (hp[a := obj (length xs)] @ fresh F h d d2))"
      using * len k(2) cs(3)[of m "hp[a := obj (Suc k)] @ fresh F h d0 d1" rest]
      by (simp add: nth_append list_update_append fr)
    finally show "L (r_object m cls) (length xs - k) k (at d ((b0 @ bs @ cs) @ rest) (links d) hp) =
        Inr (at d2 rest (links d2) (hp[a := obj (length xs)] @ fresh F h d d2))" using Suc.hyps(2) by simp
  qed (use bs(1,2) b0(2) cs(1,2) k(1) in \<open>cases bs; auto\<close>)+
qed

section \<open>Graphs\<close>

fun val_ok :: "mval \<Rightarrow> bool" where
  "val_ok (M_fix i) = FIXABLE i"
| "val_ok (M_sym s) = name_ok s"
| "val_ok v = True"

definition slots_ok :: "(byte list \<times> mval) list \<Rightarrow> bool" where
  "slots_ok xs \<longleftrightarrow> (\<forall>x \<in> set xs. name_ok (fst x) \<and> val_ok (snd x))"

text \<open>
  Objects that can come back: numbers in normal form, regular expressions that still compile,
  structures and plain objects of classes that exist when the data are loaded, no two instance
  variables of the same name.
\<close>

fun obj_ok :: "world \<Rightarrow> mobj \<Rightarrow> bool" where
  "obj_ok cls (M_big b) = big_ok b"
| "obj_ok cls (M_ary vs) = (\<forall>v \<in> set vs. val_ok v)"
| "obj_ok cls (M_struct path slots) = (name_ok path \<and> class_named cls path = Some (K_struct (map fst slots)) \<and> slots_ok slots)"
| "obj_ok cls (M_object path ivars) =
     (name_ok path \<and> class_named cls path = Some K_object \<and> slots_ok ivars \<and> distinct (map fst ivars))"
| "obj_ok cls (M_reg s opts) = (reg_options opts = opts \<and> compiles cls s opts)"
| "obj_ok cls x = True"

text \<open>The body of the object at the next place is read back, after its type byte.\<close>

definition body_reads where
  "body_reads cls h F d d1 d2 x \<longleftrightarrow> (\<exists>bs. dstr d2 = dstr d1 @ bs \<and> (\<forall>m rest hp.
     length bs \<le> m \<and> length hp = length (ddata d) \<longrightarrow>
     r_object (Suc m) cls (at d1 (type_byte x # bs @ rest) (links d) hp) =
       Inr (M_ref (length (ddata d)), at d2 rest (links d2) (hp @ ren_obj F x # fresh F h d1 d2))))"

lemma plain_map: "plain h W R x \<Longrightarrow> plain h W (\<lambda>l. obind (R l) (\<lambda>(x, l). return (f x, l))) (f x)"
  unfolding plain_def by fastforce

lemma enter_object_at:
  assumes "ddata d1 = ddata d @ [a]" "length hp = length (ddata d)"
  shows "enter_object x (at d2 s (links d) hp) = (M_ref (length (ddata d)), at d2 s (links d1) (hp @ [x]))"
  using assms by (simp add: enter_object_def new_object_def r_entry_def at_def links_def Let_def)

lemma flat_body:
  assumes p: "plain h W R y" and d: "W d1 = Inr d2" "dump_inv h d1" "fits (length (dstr d2))" "ddata d1 = ddata d @ [a]"
    and r: "\<And>m s ds hp. r_object (Suc m) cls (at d1 (type_byte x # s) ds hp) = obind (R (at d1 s ds hp)) (\<lambda>(y, l). Q y l)"
    and x: "\<And>l. Q y l = return (enter_object x l)" "ren_obj F x = x"
  shows "body_reads cls h F d d1 d2 x"
proof -
  obtain bs where bs: "ddata d2 = ddata d1" "dstr d2 = dstr d1 @ bs"
    "\<And>rest ds hp. R (at d1 (bs @ rest) ds hp) = Inr (y, at d2 rest ds hp)"
    using p d(1-3) by (rule plainE) blast
  then show ?thesis unfolding body_reads_def
    using r x enter_object_at[OF d(4)] by (intro exI[of _ bs]) (simp add: fresh_refl links_def)
qed

lemma r_object_at:
  "r_object (Suc m) cls (at d (34 # s) ds hp) = obind (reading r_bytes (at d s ds hp)) (\<lambda>(t, l). return (enter_object (M_str t) l))"
  "r_object (Suc m) cls (at d (47 # s) ds hp) =
     obind (obind (reading r_bytes (at d s ds hp)) (\<lambda>(t, l). obind (reading r_byte l) (\<lambda>(o1, l). return ((t, o1), l))))
       (\<lambda>(y, l). obind (rb_reg_new cls (fst y) (snd y)) (\<lambda>x. return (enter_object x l)))"
  "r_object (Suc m) cls (at d (108 # s) ds hp) = r_bignum (at d s ds hp)"
  by (auto simp: reading_def r_byte_def at_def obind_def split: sum.splits list.splits)

lemma str_body:
  assumes "w_body h w (M_str s) d1 = Inr d2" "dump_inv h d1" "fits (length (dstr d2))" "ddata d1 = ddata d @ [a]"
  shows "body_reads cls h F d d1 d2 (M_str s)"
proof (rule flat_body[OF plain_str, where Q = "\<lambda>t l. return (enter_object (M_str t) l)"])
  show "w_str s d1 = Inr d2" using assms(1) by (simp add: w_body_def)
qed (use assms in \<open>simp_all only: r_object_at type_byte.simps ren_obj.simps\<close>)

lemma reg_body:
  assumes reg: "reg_options opts = opts" "compiles cls s opts" and "w_body h w (M_reg s opts) d1 = Inr d2" "dump_inv h d1" "fits (length (dstr d2))" "ddata d1 = ddata d @ [a]"
  shows "body_reads cls h F d d1 d2 (M_reg s opts)"
proof (rule flat_body[OF plain_bind[OF plain_str plain_map[OF plain_byte]],
      where Q = "\<lambda>y l. obind (rb_reg_new cls (fst y) (snd y)) (\<lambda>x. return (enter_object x l))"])
  show "obind (w_str s d1) (w_out [opts]) = Inr d2" using assms(3) by (simp add: w_body_def)
  show "obind (rb_reg_new cls (fst (s, opts)) (snd (s, opts))) (\<lambda>x. return (enter_object x l)) =
      return (enter_object (M_reg s opts) l)" for l
    using reg by (simp add: rb_reg_new_def)
qed (use assms in \<open>simp_all only: r_object_at type_byte.simps ren_obj.simps fst_conv snd_conv\<close>)

lemma bignorm_ok:
  assumes "big_ok b"
  shows "bignorm (Bignum b) = Bignum b"
proof (cases rule: bignorm_cases[of b])
  case 1
  then show ?thesis using assms by (simp add: big_ok_def)
next
  case (2 c)
  then show ?thesis using assms big_ok_unique[of c b] by simp
qed

lemma big_body:
  assumes b: "big_ok b" and d: "w_body h w (M_big b) d1 = Inr d2" "dump_inv h d1" "fits (length (dstr d2))" "ddata d1 = ddata d @ [a]"
  shows "body_reads cls h F d d1 d2 (M_big b)"
proof -
  let ?sg = "if sign b then 43 else 45 :: byte" and ?ds = "concat (map w_short (digits b))" and ?n = "length (digits b)"
  have "length ?ds \<le> length (dstr d2)" using d(1) by (auto simp: w_body_def w_out_def w_num_def obind_eq_Inr_iff)
  then have n: "fits ?n" using d(3) by (auto simp: length_w_shorts elim!: fits_less)
  then have "s32 (int ?n * 2) = int (length ?ds)" by (simp add: length_w_shorts fits_def s32_id)
  then have ds: "plain h (w_out ?ds) (reading (r_bytes0 (s32 (int ?n * 2)))) ?ds"
    by (intro plain_out) (simp only: r_bytes0_exact)
  have norm: "bignorm (Bignum \<lparr>sign = (?sg = 43), digits = digits_of_bytes ?ds\<rparr>) = Bignum b"
    using bignorm_ok[OF b] by (cases b) (auto simp: digits_of_bytes_w_short)
  have "\<exists>bs. dstr d2 = dstr d1 @ bs \<and> ddata d2 = ddata d1 \<and>
    (\<forall>rest ds hp. r_bignum (at d1 (bs @ rest) ds hp) = Inr (enter_object (M_big b) (at d2 rest ds hp)))"
  proof -
    obtain d3 d4 where w: "w_out [?sg] d1 = Inr d3" "w_num (s32 (int ?n)) d3 = Inr d4" "w_out ?ds d4 = Inr d2"
      using d(1) by (auto simp: w_body_def obind_eq_Inr_iff)
    note g = writerD[OF writer_out w(1), of h] writerD[OF writer_num w(2), of h] writerD[OF writer_out w(3), of h]
    note f4 = grows_fits[OF g(3) d(3)] and f3 = grows_fits[OF g(2) grows_fits[OF g(3) d(3)]]
    obtain b1 where 1: "ddata d3 = ddata d1" "dstr d3 = dstr d1 @ b1" "dump_inv h d3"
      "\<And>rest ds hp. reading r_byte (at d1 (b1 @ rest) ds hp) = Inr (?sg, at d3 rest ds hp)"
      using plain_byte w(1) d(2) f3 by (rule plainE) blast
    obtain b2 where 2: "ddata d4 = ddata d3" "dstr d4 = dstr d3 @ b2" "dump_inv h d4"
      "\<And>rest ds hp. reading r_long (at d3 (b2 @ rest) ds hp) = Inr (int ?n, at d4 rest ds hp)"
      using plain_count[OF n] w(2) 1(3) f4 by (rule plainE) blast
    obtain b3 where 3: "ddata d2 = ddata d4" "dstr d2 = dstr d4 @ b3"
      "\<And>rest ds hp. reading (r_bytes0 (s32 (int ?n * 2))) (at d4 (b3 @ rest) ds hp) = Inr (?ds, at d2 rest ds hp)"
      using ds w(3) 2(3) d(3) by (rule plainE) blast
    show ?thesis using 1 2 3 norm by (intro exI[of _ "b1 @ b2 @ b3"]) (simp add: r_bignum_def)
  qed
  then obtain bs where bs: "dstr d2 = dstr d1 @ bs" "ddata d2 = ddata d1"
    "\<And>rest ds hp. r_bignum (at d1 (bs @ rest) ds hp) = Inr (enter_object (M_big b) (at d2 rest ds hp))" by blast
  show ?thesis unfolding body_reads_def type_byte.simps r_object_at
    using bs enter_object_at[OF d(4)] by (intro exI[of _ bs]) (simp add: fresh_refl links_def)
qed

lemma check_ary_new2_ok: "fits n \<Longrightarrow> check_ary_new2 (int n) = Inr ()"
  by (rule ary_new_ok[of "\<lparr>bufs = [], arys = [], safe_level = 0\<rparr>" "int n"])
    (simp_all add: check_ary_new2_def rb_ary_new2_def fits_def heap_ok_def one_owner_def)

lemma ary_body:
  assumes ok: "\<And>v. v \<in> set vs \<Longrightarrow> codes cls h F (w v) v" "\<And>v. writer h (w v)"
    and d: "w_body h w (M_ary vs) d1 = Inr d2" "dump_inv h d1" "fits (length (dstr d2))" "ddata d1 = ddata d @ [a]" "F = ddata d2 @ ys"
  shows "body_reads cls h F d d1 d2 (M_ary vs)"
proof -
  obtain d3 where w: "w_num (s32 (int (length vs))) d1 = Inr d3" "w_elems w vs d3 = Inr d2"
    using d(1) by (auto simp: w_body_def obind_eq_Inr_iff)
  note g = writerD[OF writer_num w(1), of h] writerD[OF writer_elems w(2), OF ok(2)]
  note inv3 = grows_inv[OF g(1) d(2)]
  obtain bs where bs: "dstr d2 = dstr d3 @ bs" "length vs \<le> length bs" "\<And>m rest hp acc a.
    length bs \<le> m \<and> length hp = length (ddata d3) \<and> a < length hp \<and> hp ! a = M_ary acc \<Longrightarrow>
    r_elems (r_object m cls) (length vs) a (at d3 (bs @ rest) (links d3) hp) =
      Inr (at d2 rest (links d2) (hp[a := M_ary (acc @ map (ren F) vs)] @ fresh F h d3 d2))"
    using elems_read[OF ok(1,2) w(2) inv3 d(3,5)] by blast
  have n: "fits (length vs)" using bs(1,2) d(3) by (auto elim!: fits_less)
  obtain b1 where 1: "ddata d3 = ddata d1" "dstr d3 = dstr d1 @ b1"
    "\<And>rest ds hp. reading r_long (at d1 (b1 @ rest) ds hp) = Inr (int (length vs), at d3 rest ds hp)"
    using plain_count[OF n] w(1) d(2) grows_fits[OF g(2) d(3)] by (rule plainE) blast
  have l: "links d3 = links d1" "fresh F h d3 d2 = fresh F h d1 d2" using 1(1) by (simp_all add: links_def fresh_def)
  have "r_object (Suc m) cls (at d1 (91 # (b1 @ bs) @ rest) (links d) hp) =
      Inr (M_ref (length (ddata d)), at d2 rest (links d2) (hp @ M_ary (map (ren F) vs) # fresh F h d1 d2))"
    if "length (b1 @ bs) \<le> m" "length hp = length (ddata d)" for m rest hp
  proof -
    have "reading r_byte (at d1 (91 # (b1 @ bs) @ rest) (links d) hp) = Inr (91, at d1 (b1 @ bs @ rest) (links d) hp)"
      by (simp add: reading_def r_byte_def at_def)
    moreover have "length (lheap (at d3 (bs @ rest) (links d) hp)) = length (ddata d)" using that by (simp add: at_def)
    moreover have "r_elems (r_object m cls) (length vs) (length (ddata d)) (at d3 (bs @ rest) (links d1) (hp @ [M_ary []])) =
        Inr (at d2 rest (links d2) (hp @ M_ary (map (ren F) vs) # fresh F h d1 d2))"
      using that d(4) 1(1) l bs(3)[of m "hp @ [M_ary []]" "length (ddata d)" "[]" rest]
      by (simp add: nth_append list_update_append)
    ultimately show ?thesis
      using 1(3) check_ary_new2_ok[OF n] enter_object_at[OF d(4) that(2)] by (simp add: Let_def)
  qed
  then show ?thesis unfolding body_reads_def using 1(2) bs(1) by (intro exI[of _ "b1 @ bs"]) simp
qed

lemma set_slot_new: "slot \<notin> fst ` set xs \<Longrightarrow> set_slot slot v xs = xs @ [(slot, v)]"
  by (induction xs rule: set_slot.induct[where ?a0.0 = slot and ?a1.0 = v, case_names Nil Cons]) auto

definition half_object :: "byte list \<Rightarrow> (mval \<Rightarrow> mval) \<Rightarrow> (byte list \<times> mval) list \<Rightarrow> nat \<Rightarrow> mobj" where
  "half_object path f xs k = M_object path (map (apsnd f) (take k xs))"

lemma rb_ivar_set_at:
  assumes "distinct (map fst xs)" "k < length xs" "a < length hp" "hp ! a = half_object path f xs k"
  shows "rb_ivar_set a (fst (xs ! k)) (f (snd (xs ! k))) (at d s ds (hp @ new)) =
    at d s ds (hp[a := half_object path f xs (Suc k)] @ new)"
proof -
  have "fst (xs ! k) \<notin> fst ` set (take k xs)"
  proof
    assume "fst (xs ! k) \<in> fst ` set (take k xs)"
    then obtain i where "i < k" "fst (xs ! i) = fst (xs ! k)" by (auto simp: in_set_conv_nth)
    then show False using nth_eq_iff_index_eq[OF assms(1), of i k] assms(2) by simp
  qed
  then have "set_slot (fst (xs ! k)) (f (snd (xs ! k))) (map (apsnd f) (take k xs)) = map (apsnd f) (take (Suc k) xs)"
    using assms(2) by (subst set_slot_new) (auto simp: image_image take_Suc_conv_app_nth apsnd_def map_prod_def split_beta)
  then show ?thesis using assms(3,4) by (simp add: rb_ivar_set_def half_object_def at_def nth_append list_update_append)
qed

definition half_struct :: "byte list \<Rightarrow> (mval \<Rightarrow> mval) \<Rightarrow> (byte list \<times> mval) list \<Rightarrow> nat \<Rightarrow> mobj" where
  "half_struct path f xs k = M_struct path (map (apsnd f) (take k xs) @ map (\<lambda>m. (m, M_nil)) (map fst (drop k xs)))"

lemma rb_struct_aset_at:
  assumes "k < length xs" "a < length hp" "hp ! a = half_struct path f xs k"
  shows "rb_struct_aset a k (f (snd (xs ! k))) (at d s ds (hp @ new)) = at d s ds (hp[a := half_struct path f xs (Suc k)] @ new)"
proof -
  have "drop k xs = xs ! k # drop (Suc k) xs" using assms(1) by (simp add: Cons_nth_drop_Suc)
  then show ?thesis using assms
    by (simp add: rb_struct_aset_def half_struct_def at_def nth_append list_update_append take_Suc_conv_app_nth apsnd_def map_prod_def split_beta)
qed

lemma slots_okD: "slots_ok xs \<Longrightarrow> x \<in> set xs \<Longrightarrow> name_ok (fst x)"
  by (simp add: slots_ok_def)

lemma w_slots_length: "w_slots w xs d = Inr d2 \<Longrightarrow> (\<And>v. writer h (w v)) \<Longrightarrow> length (dstr d) + length xs \<le> length (dstr d2)"
proof (induction xs arbitrary: d)
  case (Cons x xs)
  obtain slot v where x: "x = (slot, v)" by (cases x)
  obtain d0 d1 where d1: "w_symbol slot d = Inr d0" "w v d0 = Inr d1" "w_slots w xs d1 = Inr d2"
    using Cons.prems(1) x by (auto simp: obind_eq_Inr_iff)
  have "length (dstr d) < length (dstr d0)"
    using d1(1) by (auto simp: w_symbol_def w_out_def w_str_def w_num_def obind_eq_Inr_iff split: option.splits)
  moreover have "length (dstr d0) \<le> length (dstr d1)" using writerD[OF Cons.prems(2) d1(2)] by (auto simp: grows_def)
  ultimately show ?case using Cons.IH[OF d1(3) Cons.prems(2)] by simp
qed simp

text \<open>The two kinds of objects with slots share the head: type, class, number of slots.\<close>

lemma slots_head:
  assumes d: "obind (w_unique path d1) (\<lambda>d. obind (w_num (s32 (int (length xs))) d) (w_slots w xs)) = Inr d2"
      "dump_inv h d1" "fits (length (dstr d2))" and ok: "name_ok path" "\<And>v. writer h (w v)"
  obtains d3 d4 b1 b2 where "w_slots w xs d4 = Inr d2" "dump_inv h d4" "ddata d4 = ddata d1" "dstr d4 = dstr d1 @ b1 @ b2"
    "\<And>rest ds hp. r_symbol (at d1 (b1 @ rest) ds hp) = Inr (path, at d3 rest ds hp)"
    "\<And>rest ds hp. reading r_long (at d3 (b2 @ rest) ds hp) = Inr (int (length xs), at d4 rest ds hp)"
    "fits (length xs)"
proof -
  obtain d3 d4 where w: "w_unique path d1 = Inr d3" "w_num (s32 (int (length xs))) d3 = Inr d4" "w_slots w xs d4 = Inr d2"
    using d(1) by (auto simp: obind_eq_Inr_iff)
  have n: "fits (length xs)" using w_slots_length[OF w(3) ok(2)] d(3) by (auto elim!: fits_less)
  note g = writerD[OF writer_num w(2), of h] writerD[OF writer_slots[OF ok(2)] w(3)]
  note f4 = grows_fits[OF g(2) d(3)]
  obtain b1 where 1: "ddata d3 = ddata d1" "dstr d3 = dstr d1 @ b1" "dump_inv h d3"
    "\<And>rest ds hp. r_symbol (at d1 (b1 @ rest) ds hp) = Inr (path, at d3 rest ds hp)"
    using plain_unique[OF ok(1), of h] w(1) d(2) grows_fits[OF g(1) f4] by (rule plainE) blast
  obtain b2 where 2: "ddata d4 = ddata d3" "dstr d4 = dstr d3 @ b2" "dump_inv h d4"
    "\<And>rest ds hp. reading r_long (at d3 (b2 @ rest) ds hp) = Inr (int (length xs), at d4 rest ds hp)"
    using plain_count[OF n] w(2) 1(3) f4 by (rule plainE) blast
  show ?thesis by (rule that[of d4 b1 b2 d3]) (use w(3) n 1 2 in simp_all)
qed

lemma reading_byte_at: "reading r_byte (at d (b # s) ds hp) = Inr (b, at d s ds hp)"
  by (simp add: reading_def r_byte_def at_def)

lemma lheap_at: "lheap (at d s ds hp) = hp" "ldata (at d s ds hp) = ds"
  by (simp_all add: at_def)

lemma struct_body:
  assumes c: "\<And>x. x \<in> set xs \<Longrightarrow> codes cls h F (w (snd x)) (snd x)" and ok: "obj_ok cls (M_struct path xs)" "\<And>v. writer h (w v)"
    and d: "w_body h w (M_struct path xs) d1 = Inr d2" "dump_inv h d1" "fits (length (dstr d2))" "ddata d1 = ddata d @ [a]" "F = ddata d2 @ ys"
  shows "body_reads cls h F d d1 d2 (M_struct path xs)"
proof -
  have ok': "name_ok path" "class_named cls path = Some (K_struct (map fst xs))" "slots_ok xs" using ok(1) by simp_all
  have "obind (w_unique path d1) (\<lambda>d. obind (w_num (s32 (int (length xs))) d) (w_slots w xs)) = Inr d2"
    using d(1) by (simp add: w_body_def)
  then obtain d3 d4 b1 b2 where hd: "w_slots w xs d4 = Inr d2" "dump_inv h d4"
    "ddata d4 = ddata d1" "dstr d4 = dstr d1 @ b1 @ b2"
    "\<And>rest ds hp. r_symbol (at d1 (b1 @ rest) ds hp) = Inr (path, at d3 rest ds hp)"
    "\<And>rest ds hp. reading r_long (at d3 (b2 @ rest) ds hp) = Inr (int (length xs), at d4 rest ds hp)" "fits (length xs)"
    using d(2,3) ok'(1) ok(2) by (rule slots_head) (rule that)
  let ?a = "length (ddata d)" and ?L = "\<lambda>r n k. r_members r (map fst xs) n k (length (ddata d))"
  have "\<exists>bs. dstr d2 = dstr d4 @ bs \<and> length xs - 0 \<le> length bs \<and> (\<forall>m rest hp.
    length bs \<le> m \<and> length hp = length (ddata d4) \<and> ?a < length hp \<and> hp ! ?a = half_struct path (ren F) xs 0 \<longrightarrow>
    ?L (r_object m cls) (length xs - 0) 0 (at d4 (bs @ rest) (links d4) hp) =
      Inr (at d2 rest (links d2) (hp[?a := half_struct path (ren F) xs (length xs)] @ fresh F h d4 d2)))"
    by (rule slots_read[where w = w and upd = "\<lambda>k v. rb_struct_aset ?a k v" and ys = ys])
      (use c ok(2) ok'(3) hd(1,2) d(3,5) in \<open>simp_all add: rb_struct_aset_at slots_okD\<close>)
  then obtain bs where bs: "dstr d2 = dstr d4 @ bs" "\<And>m rest hp.
    length bs \<le> m \<and> length hp = length (ddata d4) \<and> ?a < length hp \<and> hp ! ?a = half_struct path (ren F) xs 0 \<Longrightarrow>
    ?L (r_object m cls) (length xs) 0 (at d4 (bs @ rest) (links d4) hp) =
      Inr (at d2 rest (links d2) (hp[?a := half_struct path (ren F) xs (length xs)] @ fresh F h d4 d2))" by auto
  have l: "links d4 = links d1" "fresh F h d4 d2 = fresh F h d1 d2" using hd(3) by (simp_all add: links_def fresh_def)
  have "r_object (Suc m) cls (at d1 (83 # (b1 @ b2 @ bs) @ rest) (links d) hp) =
      Inr (M_ref ?a, at d2 rest (links d2) (hp @ ren_obj F (M_struct path xs) # fresh F h d1 d2))"
    if "length (b1 @ b2 @ bs) \<le> m" "length hp = length (ddata d)" for m rest hp
  proof -
    have "?L (r_object m cls) (length xs) 0 (at d4 (bs @ rest) (links d1) (hp @ [half_struct path (ren F) xs 0])) =
        Inr (at d2 rest (links d2) (hp @ ren_obj F (M_struct path xs) # fresh F h d1 d2))"
      using that d(4) hd(3) l bs(2)[of m "hp @ [half_struct path (ren F) xs 0]" rest]
      by (simp add: nth_append list_update_append half_struct_def)
    then show ?thesis
      using hd(5,6) check_ary_new2_ok[OF hd(7)] enter_object_at[OF d(4) that(2)] ok'(2)
      by (simp add: Let_def reading_byte_at lheap_at path2class_def half_struct_def comp_def that(2))
  qed
  then show ?thesis unfolding body_reads_def using hd(4) bs(1) by (intro exI[of _ "b1 @ b2 @ bs"]) simp
qed

lemma object_body:
  assumes c: "\<And>x. x \<in> set xs \<Longrightarrow> codes cls h F (w (snd x)) (snd x)" and ok: "obj_ok cls (M_object path xs)" "\<And>v. writer h (w v)"
    and d: "w_body h w (M_object path xs) d1 = Inr d2" "dump_inv h d1" "fits (length (dstr d2))" "ddata d1 = ddata d @ [a]" "F = ddata d2 @ ys"
  shows "body_reads cls h F d d1 d2 (M_object path xs)"
proof -
  have ok': "name_ok path" "class_named cls path = Some (K_object)" "slots_ok xs" "distinct (map fst xs)" using ok(1) by simp_all
  have "obind (w_unique path d1) (\<lambda>d. obind (w_num (s32 (int (length xs))) d) (w_slots w xs)) = Inr d2"
    using d(1) by (simp add: w_body_def)
  then obtain d3 d4 b1 b2 where hd: "w_slots w xs d4 = Inr d2" "dump_inv h d4"
    "ddata d4 = ddata d1" "dstr d4 = dstr d1 @ b1 @ b2"
    "\<And>rest ds hp. r_symbol (at d1 (b1 @ rest) ds hp) = Inr (path, at d3 rest ds hp)"
    "\<And>rest ds hp. reading r_long (at d3 (b2 @ rest) ds hp) = Inr (int (length xs), at d4 rest ds hp)" "fits (length xs)"
    using d(2,3) ok'(1) ok(2) by (rule slots_head) (rule that)
  let ?a = "length (ddata d)" and ?L = "\<lambda>r n k. r_ivars r n (length (ddata d))"
  have "\<exists>bs. dstr d2 = dstr d4 @ bs \<and> length xs - 0 \<le> length bs \<and> (\<forall>m rest hp.
    length bs \<le> m \<and> length hp = length (ddata d4) \<and> ?a < length hp \<and> hp ! ?a = half_object path (ren F) xs 0 \<longrightarrow>
    ?L (r_object m cls) (length xs - 0) 0 (at d4 (bs @ rest) (links d4) hp) =
      Inr (at d2 rest (links d2) (hp[?a := half_object path (ren F) xs (length xs)] @ fresh F h d4 d2)))"
    by (rule slots_read[where w = w and upd = "\<lambda>k v. rb_ivar_set ?a (fst (xs ! k)) v" and ys = ys])
      (use c ok(2) ok'(3,4) hd(1,2) d(3,5) in \<open>simp_all add: rb_ivar_set_at slots_okD\<close>)
  then obtain bs where bs: "dstr d2 = dstr d4 @ bs" "\<And>m rest hp.
    length bs \<le> m \<and> length hp = length (ddata d4) \<and> ?a < length hp \<and> hp ! ?a = half_object path (ren F) xs 0 \<Longrightarrow>
    ?L (r_object m cls) (length xs) 0 (at d4 (bs @ rest) (links d4) hp) =
      Inr (at d2 rest (links d2) (hp[?a := half_object path (ren F) xs (length xs)] @ fresh F h d4 d2))" by auto
  have l: "links d4 = links d1" "fresh F h d4 d2 = fresh F h d1 d2" using hd(3) by (simp_all add: links_def fresh_def)
  have "r_object (Suc m) cls (at d1 (111 # (b1 @ b2 @ bs) @ rest) (links d) hp) =
      Inr (M_ref ?a, at d2 rest (links d2) (hp @ ren_obj F (M_object path xs) # fresh F h d1 d2))"
    if "length (b1 @ b2 @ bs) \<le> m" "length hp = length (ddata d)" for m rest hp
  proof -
    have "?L (r_object m cls) (length xs) 0 (at d4 (bs @ rest) (links d1) (hp @ [half_object path (ren F) xs 0])) =
        Inr (at d2 rest (links d2) (hp @ ren_obj F (M_object path xs) # fresh F h d1 d2))"
      using that d(4) hd(3) l bs(2)[of m "hp @ [half_object path (ren F) xs 0]" rest]
      by (simp add: nth_append list_update_append half_object_def)
    then show ?thesis
      using hd(5,6) enter_object_at[OF d(4) that(2)] ok'(2)
      by (simp add: Let_def reading_byte_at lheap_at path2class_def half_object_def comp_def that(2))
  qed
  then show ?thesis unfolding body_reads_def using hd(4) bs(1) by (intro exI[of _ "b1 @ b2 @ bs"]) simp
qed

lemma body_reads:
  assumes x: "obj_ok cls x" and w: "\<And>v. val_ok v \<Longrightarrow> codes cls h F (w v) v" "\<And>v. writer h (w v)"
    and d: "w_body h w x d1 = Inr d2" "dump_inv h d1" "fits (length (dstr d2))" "ddata d1 = ddata d @ [a]" "F = ddata d2 @ ys"
  shows "body_reads cls h F d d1 d2 x"
proof (cases x)
  case (M_ary vs)
  have c: "codes cls h F (w v) v" if "v \<in> set vs" for v using that x w(1) M_ary by simp
  show ?thesis unfolding M_ary by (rule ary_body[OF c w(2) d(1)[unfolded M_ary] d(2-5)])
next
  case (M_struct path xs)
  have c: "codes cls h F (w (snd y)) (snd y)" if "y \<in> set xs" for y using that x w(1) M_struct by (simp add: slots_ok_def)
  show ?thesis unfolding M_struct by (rule struct_body[OF c x[unfolded M_struct] w(2) d(1)[unfolded M_struct] d(2-5)])
next
  case (M_object path xs)
  have c: "codes cls h F (w (snd y)) (snd y)" if "y \<in> set xs" for y using that x w(1) M_object by (simp add: slots_ok_def)
  show ?thesis unfolding M_object by (rule object_body[OF c x[unfolded M_object] w(2) d(1)[unfolded M_object] d(2-5)])
next
  case (M_str s)
  then show ?thesis using str_body d(1-4) by blast
next
  case (M_reg s opts)
  then show ?thesis using reg_body[of opts cls s] x d(1-4) by simp
next
  case (M_big b)
  then show ?thesis using big_body[of b] x d(1-4) by simp
next
  case M_other
  then show ?thesis using d(1) by (simp add: w_body_def)
qed

text \<open>Values without objects of their own: a type byte and perhaps a number.\<close>

lemma reads_backI:
  assumes d: "ddata d2 = ddata d" "dstr d2 = dstr d @ b # bs"
    and r: "\<And>m rest ds hp. ds = links d \<Longrightarrow> r_object (Suc m) cls (at d (b # bs @ rest) ds hp) = Inr (ren F v, at d2 rest ds hp)"
  shows "reads_back cls h F d d2 v"
proof -
  have "r_object m cls (at d ((b # bs) @ rest) (links d) hp) = Inr (ren F v, at d2 rest (links d2) (hp @ fresh F h d d2))"
    if m: "length (b # bs) \<le> m" for m rest hp
  proof -
    obtain k where "m = Suc k" using m by (cases m) auto
    then show ?thesis using r[of "links d" k rest hp] d(1) by (simp add: fresh_refl links_def)
  qed
  then show ?thesis unfolding reads_back_def using d(2) by (intro exI[of _ "b # bs"]) simp
qed

lemma w_out_num:
  assumes "obind (w_out [b] d) (w_num i) = Inr d2" "-(2 ^ 31) \<le> i" "i < 2 ^ 31"
  obtains bs where "ddata d2 = ddata d" "dstr d2 = dstr d @ b # bs"
    "\<And>rest ds hp. reading r_long (at d (bs @ rest) ds hp) = Inr (i, at d2 rest ds hp)"
proof -
  obtain bs where bs: "w_long i = Inr bs" "\<forall>s. r_long (bs @ s) = Inr (i, s)" using r_long_w_long[OF assms(2,3)] by blast
  then have "d2 = d\<lparr>dstr := dstr d @ b # bs\<rparr>" using assms(1) by (simp add: w_num_def w_out_def)
  then show ?thesis using bs(2) by (intro that[of bs]) (simp_all add: reading_def at_def)
qed

lemma LONG2FIX_FIXABLE: "FIXABLE i \<Longrightarrow> LONG2FIX i = Fixnum i"
  by (simp add: LONG2FIX_def fixable_defs)

lemma fix_reads_back:
  assumes "obind (w_out [105] d) (w_num i) = Inr d2" "FIXABLE i"
  shows "reads_back cls h F d d2 (M_fix i)"
proof -
  have i: "-(2 ^ 31) \<le> i" "i < 2 ^ 31" using assms(2) by (simp_all add: fixable_defs)
  obtain bs where bs: "ddata d2 = ddata d" "dstr d2 = dstr d @ 105 # bs"
    "\<And>rest ds hp. reading r_long (at d (bs @ rest) ds hp) = Inr (i, at d2 rest ds hp)"
    using assms(1) i by (rule w_out_num) (rule that)
  then show ?thesis using LONG2FIX_FIXABLE[OF assms(2)] by (intro reads_backI[of d2 d 105 bs]) (simp_all add: reading_byte_at)
qed

lemma link_reads_back:
  assumes d: "obind (w_out [64] d) (w_num (int k)) = Inr d2" "dump_inv h d" "fits (length (dstr d2))" "F = ddata d2 @ ys"
    and a: "index_of a (ddata d) = Some k"
  shows "reads_back cls h F d d2 (M_ref a)"
proof -
  have k: "k < length (ddata d)" using index_of_Some[OF a] by simp
  have "grows h d d2" using d(1) by (rule writerD[OF writer_bind[OF writer_out writer_num]])
  then have "fits (length (dstr d))" using d(3) by (rule grows_fits)
  moreover have "k \<le> length (dstr d)" using d(2) k by (simp add: dump_inv_def)
  ultimately have f: "fits k" by (rule fits_less)
  obtain bs where bs: "ddata d2 = ddata d" "dstr d2 = dstr d @ 64 # bs"
    "\<And>rest ds hp. reading r_long (at d (bs @ rest) ds hp) = Inr (int k, at d2 rest ds hp)"
    using d(1) fits_s32(2,3)[OF f] by (rule w_out_num) (rule that)
  have "LONG2FIX (int k) = Fixnum (int k)" using f by (intro LONG2FIX_FIXABLE) (simp add: fits_def fixable_defs)
  moreover have "ren F (M_ref a) = M_ref k" using index_of_append[OF a, of ys] d(4) bs(1) by simp
  ultimately show ?thesis using bs k
    by (intro reads_backI[of d2 d 64 bs]) (simp_all add: reading_byte_at r_link_def lheap_at links_def)
qed

lemma imm_reads_back:
  assumes "w_out [b] d = Inr d2" "b = 48 \<and> v = M_nil \<or> b = 84 \<and> v = M_true \<or> b = 70 \<and> v = M_false"
  shows "reads_back cls h F d d2 v"
proof -
  have "at d2 = at d" using assms(1) by (auto simp: w_out_def at_def fun_eq_iff)
  then show ?thesis using assms by (intro reads_backI[of d2 d b "[]"]) (auto simp: reading_byte_at w_out_def)
qed

lemma sym_reads_back:
  assumes "w_symbol s d = Inr d2" "dump_inv h d" "fits (length (dstr d2))" "name_ok s"
  shows "reads_back cls h F d d2 (M_sym s)"
proof -
  obtain b bs where bs: "dstr d2 = dstr d @ b # bs" "b = 58 \<or> b = 59" "ddata d2 = ddata d"
    "\<And>rest ds hp. (if b = 59 then r_symlink else r_symreal) (at d (bs @ rest) ds hp) = Inr (s, at d2 rest ds hp)"
    using w_symbol_bytes[OF assms(4,1-3)] by blast
  have "r_object (Suc m) cls (at d (b # bs @ rest) ds hp) = Inr (M_sym s, at d2 rest ds hp)" for m rest ds hp
    using bs(2,4) by (auto simp: reading_byte_at split: if_splits)
  then show ?thesis using bs(1,3) by (intro reads_backI) simp_all
qed

lemma new_reads_back:
  assumes d: "w_body h w (h ! a) (d\<lparr>ddata := ddata d @ [a], dstr := dstr d @ [type_byte (h ! a)]\<rparr>) = Inr d2"
      "dump_inv h d" "fits (length (dstr d2))" "F = ddata d2 @ ys"
    and a: "index_of a (ddata d) = None" "a < length h" "obj_ok cls (h ! a)"
    and w: "\<And>v. val_ok v \<Longrightarrow> codes cls h F (w v) v" "\<And>v. writer h (w v)"
  shows "reads_back cls h F d d2 (M_ref a)"
proof -
  let ?d = "d\<lparr>ddata := ddata d @ [a], dstr := dstr d @ [type_byte (h ! a)]\<rparr>"
  have inv: "dump_inv h ?d" using d(2) a by (auto simp: dump_inv_def index_of_None)
  from body_reads[OF a(3) w d(1) inv d(3) _ d(4), of d a] obtain bs where bs: "dstr d2 = dstr ?d @ bs"
    "\<And>m rest hp. length bs \<le> m \<and> length hp = length (ddata d) \<Longrightarrow>
     r_object (Suc m) cls (at ?d (type_byte (h ! a) # bs @ rest) (links d) hp) =
       Inr (M_ref (length (ddata d)), at d2 rest (links d2) (hp @ ren_obj F (h ! a) # fresh F h ?d d2))"
    unfolding body_reads_def by auto
  obtain zs where zs: "ddata d2 = ddata d @ a # zs" using writerD[OF writer_body[OF w(2)] d(1)] by (auto simp: grows_def)
  have "fresh F h d d2 = ren_obj F (h ! a) # fresh F h ?d d2" using zs by (simp add: fresh_def)
  moreover have "ren F (M_ref a) = M_ref (length (ddata d))" using index_of_last[OF a(1)] d(4) zs by simp
  moreover have "at ?d = at d" by (simp add: at_def fun_eq_iff)
  ultimately have "r_object m cls (at d ((type_byte (h ! a) # bs) @ rest) (links d) hp) =
      Inr (ren F (M_ref a), at d2 rest (links d2) (hp @ fresh F h d d2))"
    if "length (type_byte (h ! a) # bs) \<le> m" "length hp = length (ddata d)" for m rest hp
    using bs(2)[of "m - 1" hp rest] that by (cases m) simp_all
  then show ?thesis unfolding reads_back_def using bs(1) by (intro exI[of _ "type_byte (h ! a) # bs"]) simp
qed

lemma codes_object:
  assumes h: "\<forall>x \<in> set h. obj_ok cls x" and v: "val_ok v"
  shows "codes cls h F (w_object n h limit v) v"
  using v
proof (induction n arbitrary: limit v)
  case (Suc n)
  let ?w = "w_object n h (s32 (limit - 1))"
  show ?case unfolding codes_def
  proof (intro allI impI)
    fix d d2 ys
    assume w: "w_object (Suc n) h limit v d = Inr d2" and d: "dump_inv h d" "fits (length (dstr d2))" "F = ddata d2 @ ys"
    have l: "limit \<noteq> 0" using w by (auto split: if_splits)
    show "reads_back cls h F d d2 v"
    proof (cases v)
      case (M_fix i)
      then show ?thesis using fix_reads_back[of d i d2] w l Suc.prems by (simp add: Let_def)
    next
      case (M_sym s)
      then show ?thesis using sym_reads_back[OF _ d(1,2), of s] w l Suc.prems by (simp add: Let_def)
    next
      case (M_ref a)
      show ?thesis
      proof (cases "index_of a (ddata d)")
        case None
        have a: "a < length h" using w l M_ref None by (auto simp: Let_def split: if_splits)
        show ?thesis unfolding M_ref
          by (rule new_reads_back[OF w[unfolded M_ref w_object_new[OF None a l]] d None a _ Suc.IH writer_object])
            (use h a in simp_all)
      next
        case (Some k)
        show ?thesis unfolding M_ref by (rule link_reads_back[OF w[unfolded M_ref w_object_seen[OF Some l]] d Some])
      qed
    next
      case M_nil
      then show ?thesis using w l by (intro imm_reads_back[of 48]) (simp_all add: Let_def)
    next
      case M_true
      then show ?thesis using w l by (intro imm_reads_back[of 84]) (simp_all add: Let_def)
    next
      case M_false
      then show ?thesis using w l by (intro imm_reads_back[of 70]) (simp_all add: Let_def)
    qed
  qed
qed (simp add: codes_def)

section \<open>Round trip\<close>

lemma marshal_load_dump:
  assumes h: "\<forall>x \<in> set h. obj_ok cls x" "val_ok v" and d: "marshal_dump h v limit = Inr out" "length out < 2 ^ 29"
  obtains F where "distinct F" "set F \<subseteq> {..< length h}"
    "marshal_load cls out = Inr (ren F v, map (\<lambda>a. ren_obj F (h ! a)) F)"
proof -
  let ?d = "\<lparr>dstr = [4, 8], dsyms = [], ddata = []\<rparr>"
  obtain d2 where w: "w_object (length h + 2) h limit v ?d = Inr d2" and o: "out = dstr d2"
    using d(1) by (auto simp: marshal_dump_def obind_eq_Inr_iff)
  have inv: "dump_inv h ?d" by (simp add: dump_inv_def)
  then have inv2: "dump_inv h d2" using writerD[OF writer_object w] by (simp add: grows_def)
  have f: "fits (length (dstr d2))" using d(2) o by (simp add: fits_def)
  obtain bs where bs: "dstr d2 = [4, 8] @ bs" "\<And>m rest hp. length bs \<le> m \<Longrightarrow> hp = [] \<Longrightarrow>
    r_object m cls (at ?d (bs @ rest) (links ?d) hp) =
      Inr (ren (ddata d2) v, at d2 rest (links d2) (hp @ fresh (ddata d2) h ?d d2))"
    using codesE[OF codes_object[OF h] w inv f, of "ddata d2" "[]"] by (metis append_Nil2 dump.select_convs(1,3) length_0_conv)
  have "r_byte out = Inr (4, 8 # bs)" "r_byte (8 # bs) = Inr (8, bs)" using bs(1) o by (simp_all add: r_byte_def)
  then have "marshal_load cls out = Inr (ren (ddata d2) v, map (\<lambda>a. ren_obj (ddata d2) (h ! a)) (ddata d2))"
    using bs(2)[of "Suc (length bs)" "[]" "[]"] by (simp add: marshal_load_def at_def links_def fresh_def del: r_object.simps)
  then show ?thesis using inv2 by (intro that[of "ddata d2"]) (simp_all add: dump_inv_def)
qed

end
