(* ===== verification/Marshal_Total.thy ===== *)
theory Marshal_Total
  imports Marshal_Graph
begin

text \<open>
  Dumping a well-formed graph without a depth limit succeeds, and loading gives well-formed graphs only,
  whatever the bytes. With the round trip of \<^verbatim>\<open>Marshal_Graph\<close> this gives the correctness of the
  serialisation.
\<close>

section \<open>Well-formed graphs\<close>

fun refs_in :: "nat \<Rightarrow> mval \<Rightarrow> bool" where
  "refs_in n (M_ref a) = (a < n)"
| "refs_in n v = True"

fun vals_of :: "mobj \<Rightarrow> mval list" where
  "vals_of (M_ary vs) = vs"
| "vals_of (M_struct path slots) = map snd slots"
| "vals_of (M_object path ivars) = map snd ivars"
| "vals_of x = []"

definition graph_ok :: "world \<Rightarrow> mobj list \<Rightarrow> mval \<Rightarrow> bool" where
  "graph_ok cls h v \<longleftrightarrow> val_ok v \<and> refs_in (length h) v \<and>
     (\<forall>x \<in> set h. obj_ok cls x \<and> (\<forall>u \<in> set (vals_of x). refs_in (length h) u))"

text \<open>Objects of types that have no dump and of classes without a name are refused.\<close>

fun dumpable :: "mobj \<Rightarrow> bool" where
  "dumpable M_other = False"
| "dumpable (M_struct path slots) = (path = [] \<or> hd path \<noteq> 35)"
| "dumpable (M_object path ivars) = (path = [] \<or> hd path \<noteq> 35)"
| "dumpable x = True"

text \<open>The symbols of a graph.\<close>

fun val_names :: "mval \<Rightarrow> byte list list" where
  "val_names (M_sym s) = [s]"
| "val_names v = []"

fun obj_names :: "mobj \<Rightarrow> byte list list" where
  "obj_names (M_struct path slots) = path # map fst slots @ concat (map (val_names \<circ> snd) slots)"
| "obj_names (M_object path ivars) = path # map fst ivars @ concat (map (val_names \<circ> snd) ivars)"
| "obj_names x = concat (map val_names (vals_of x))"

definition graph_names :: "mobj list \<Rightarrow> mval \<Rightarrow> byte list set" where
  "graph_names h v = set (val_names v) \<union> (\<Union>x \<in> set h. set (obj_names x))"

section \<open>Dumping succeeds\<close>

text \<open>
  The tables hold symbols of \<open>S\<close> and objects of the heap once each; \<open>k\<close> bounds the objects that are not
  in the table yet.
\<close>

definition tables_ok :: "byte list set \<Rightarrow> mobj list \<Rightarrow> dump \<Rightarrow> bool" where
  "tables_ok S h d \<longleftrightarrow> distinct (dsyms d) \<and> set (dsyms d) \<subseteq> S \<and> distinct (ddata d) \<and> set (ddata d) \<subseteq> {..< length h}"

definition unseen :: "mobj list \<Rightarrow> dump \<Rightarrow> nat" where
  "unseen h d = card ({..< length h} - set (ddata d))"

definition completes :: "byte list set \<Rightarrow> mobj list \<Rightarrow> nat \<Rightarrow> (dump \<Rightarrow> dump outcome) \<Rightarrow> bool" where
  "completes S h k W \<longleftrightarrow> (\<forall>d. tables_ok S h d \<and> unseen h d \<le> k \<longrightarrow>
     (\<exists>d2. W d = Inr d2 \<and> tables_ok S h d2 \<and> unseen h d2 \<le> k))"

lemma completesD: "completes S h k W \<Longrightarrow> tables_ok S h d \<Longrightarrow> unseen h d \<le> k \<Longrightarrow>
    \<exists>d2. W d = Inr d2 \<and> tables_ok S h d2 \<and> unseen h d2 \<le> k"
  by (simp add: completes_def)

lemma completes_bind: "completes S h k W \<Longrightarrow> completes S h k V \<Longrightarrow> completes S h k (\<lambda>d. obind (W d) V)"
  unfolding completes_def by fastforce

lemma completes_out: "completes S h k (w_out bs)"
  by (simp add: completes_def w_out_def tables_ok_def unseen_def)

lemma completes_num:
  assumes "-(2 ^ 31) \<le> i" "i < 2 ^ 31"
  shows "completes S h k (w_num i)"
proof -
  obtain bs where "w_long i = Inr bs" using r_long_w_long[OF assms] by blast
  then have "w_num i = w_out bs" by (simp add: w_num_def fun_eq_iff)
  then show ?thesis using completes_out by simp
qed

lemma completes_count: "completes S h k (w_num (s32 n))"
  using s32_bounds[of n] by (intro completes_num) simp_all

lemma completes_str: "completes S h k (w_str s)"
proof -
  obtain bs where "w_long (s32 (int (length s))) = Inr bs"
    using r_long_w_long[of "s32 (int (length s))"] s32_bounds[of "int (length s)"] by auto
  then have "w_str s = w_out (bs @ s)" by (simp add: w_str_def w_bytes_def fun_eq_iff)
  then show ?thesis using completes_out by simp
qed

definition few :: "'a set \<Rightarrow> bool" where
  "few S \<longleftrightarrow> finite S \<and> card S < 2 ^ 31"

lemma few_index:
  assumes "index_of x xs = Some k" "distinct xs" "set xs \<subseteq> S" "few S"
  shows "-(2 ^ 31) \<le> int k" "int k < 2 ^ 31"
proof -
  have "length xs \<le> card S" using assms card_mono[of S "set xs"] by (simp add: few_def distinct_card)
  then show "-(2 ^ 31) \<le> int k" "int k < 2 ^ 31" using assms(4) index_of_Some[OF assms(1)] by (simp_all add: few_def)
qed

lemma completes_symbol:
  assumes S: "few S" "name \<in> S"
  shows "completes S h k (w_symbol name)"
  unfolding completes_def
proof (intro allI impI)
  fix d
  assume d: "tables_ok S h d \<and> unseen h d \<le> k"
  show "\<exists>d2. w_symbol name d = Inr d2 \<and> tables_ok S h d2 \<and> unseen h d2 \<le> k"
  proof (cases "index_of name (dsyms d)")
    case None
    obtain d1 where d1: "obind (w_out [58] d) (w_str (c_string name)) = Inr d1"
      using completesD[OF completes_bind[OF completes_out completes_str]] d by blast
    then have "dsyms d1 = dsyms d" "ddata d1 = ddata d" by (auto simp: w_out_def w_str_def obind_eq_Inr_iff)
    then have "tables_ok S h (d1\<lparr>dsyms := dsyms d1 @ [name]\<rparr>)" "unseen h (d1\<lparr>dsyms := dsyms d1 @ [name]\<rparr>) \<le> k"
      using d S(2) None by (simp_all add: tables_ok_def unseen_def index_of_None)
    moreover have "w_symbol name d = Inr (d1\<lparr>dsyms := dsyms d1 @ [name]\<rparr>)"
      using None d1 by (auto simp: w_symbol_def obind_eq_Inr_iff)
    ultimately show ?thesis by blast
  next
    case (Some num)
    then have n: "-(2 ^ 31) \<le> int num" "int num < 2 ^ 31" using few_index[OF Some _ _ S(1)] d by (simp_all add: tables_ok_def)
    show ?thesis using completesD[OF completes_bind[OF completes_out completes_num[OF n]]] d Some by (simp add: w_symbol_def)
  qed
qed

lemma completes_unique:
  assumes "few S" "path \<in> S" "path = [] \<or> hd path \<noteq> 35"
  shows "completes S h k (w_unique path)"
  using completes_symbol[OF assms(1,2)] assms(3) by (auto simp: completes_def w_unique_def)

lemma completes_elems: "(\<And>v. v \<in> set vs \<Longrightarrow> completes S h k (w v)) \<Longrightarrow> completes S h k (w_elems w vs)"
proof (induction vs)
  case (Cons v vs)
  then show ?case by (auto intro!: completes_bind)
qed (simp add: completes_def)

lemma completes_slots:
  "few S \<Longrightarrow> (\<And>x. x \<in> set xs \<Longrightarrow> fst x \<in> S \<and> completes S h k (w (snd x))) \<Longrightarrow> completes S h k (w_slots w xs)"
proof (induction xs)
  case (Cons x xs)
  obtain slot v where x: "x = (slot, v)" by (cases x)
  have "slot \<in> S" "completes S h k (w v)" using Cons.prems(2)[of x] x by simp_all
  moreover have "completes S h k (w_slots w xs)" using Cons by simp
  ultimately show ?case using x Cons.prems(1) by (auto intro!: completes_bind completes_symbol)
qed (simp add: completes_def)

lemma completes_body:
  assumes S: "few S" "set (obj_names x) \<subseteq> S" and x: "dumpable x"
    and w: "\<And>v. v \<in> set (vals_of x) \<Longrightarrow> completes S h k (w v)"
  shows "completes S h k (w_body h w x)"
  using assms
  by (cases x) (auto simp: w_body_def [abs_def] intro!: completes_bind completes_out completes_str completes_count
      completes_elems completes_unique completes_slots)

definition graph_dumps :: "byte list set \<Rightarrow> mobj list \<Rightarrow> bool" where
  "graph_dumps S h \<longleftrightarrow> few S \<and> length h < 2 ^ 31 \<and>
     (\<forall>x \<in> set h. dumpable x \<and> set (obj_names x) \<subseteq> S \<and> (\<forall>u \<in> set (vals_of x). refs_in (length h) u))"

lemma obj_ok_vals: "obj_ok cls x \<Longrightarrow> v \<in> set (vals_of x) \<Longrightarrow> val_ok v"
  by (cases x) (auto simp: slots_ok_def)

lemma val_names_obj: "v \<in> set (vals_of x) \<Longrightarrow> set (val_names v) \<subseteq> set (obj_names x)"
  by (cases x) auto

lemma unseen_enter:
  assumes "a < length h" "a \<notin> set (ddata d)"
  shows "0 < unseen h d" "unseen h (d\<lparr>ddata := ddata d @ [a], dstr := s\<rparr>) = unseen h d - 1"
proof -
  let ?U = "{..< length h} - set (ddata d)"
  have "a \<in> ?U" using assms by simp
  then show "0 < unseen h d" unfolding unseen_def by (auto simp: card_gt_0_iff)
  have "{..< length h} - set (ddata d @ [a]) = ?U - {a}" by auto
  then show "unseen h (d\<lparr>ddata := ddata d @ [a], dstr := s\<rparr>) = unseen h d - 1"
    using \<open>a \<in> ?U\<close> by (simp add: unseen_def)
qed

lemma completes_object:
  assumes h: "graph_dumps S h" and v: "set (val_names v) \<subseteq> S" "refs_in (length h) v" "\<And>i. v = M_fix i \<Longrightarrow> FIXABLE i"
    and fx: "\<And>x i. x \<in> set h \<Longrightarrow> M_fix i \<in> set (vals_of x) \<Longrightarrow> FIXABLE i"
    and n: "k < n" "limit < 0" "- (2 ^ 31) \<le> limit - int n"
  shows "completes S h k (w_object n h limit v)"
  using v n
proof (induction n arbitrary: k limit v)
  case (Suc n)
  have S: "few S" "length h < 2 ^ 31" using h by (simp_all add: graph_dumps_def)
  have lim: "s32 (limit - 1) = limit - 1" using Suc.prems by (intro s32_id) simp_all
  let ?w = "w_object n h (limit - 1)"
  show ?case
  proof (cases v)
    case (M_ref a)
    show ?thesis unfolding completes_def
    proof (intro allI impI)
      fix d
      assume d: "tables_ok S h d \<and> unseen h d \<le> k"
      show "\<exists>d2. w_object (Suc n) h limit v d = Inr d2 \<and> tables_ok S h d2 \<and> unseen h d2 \<le> k"
      proof (cases "index_of a (ddata d)")
        case (Some num)
        have "few {..< length h}" using S by (simp add: few_def)
        then have "-(2 ^ 31) \<le> int num" "int num < 2 ^ 31"
          using few_index[OF Some, of "{..< length h}"] d by (simp_all add: tables_ok_def)
        from completesD[OF completes_bind[OF completes_out completes_num[OF this]]] show ?thesis
          using d Suc.prems(5) unfolding M_ref by (subst w_object_seen[OF Some]) simp_all
      next
        case None
        have a: "a < length h" "a \<notin> set (ddata d)" using Suc.prems(2) M_ref None by (simp_all add: index_of_None)
        then have x: "h ! a \<in> set h" by simp
        let ?d = "d\<lparr>ddata := ddata d @ [a], dstr := dstr d @ [type_byte (h ! a)]\<rparr>"
        have k: "0 < k" "unseen h ?d \<le> k - 1" "tables_ok S h ?d"
          using unseen_enter[OF a] d a by (auto simp: tables_ok_def)
        have "completes S h (k - 1) (?w u)" if u: "u \<in> set (vals_of (h ! a))" for u
          using h x u fx val_names_obj[OF u] Suc.prems(4-6) k(1)
          by (intro Suc.IH) (auto simp: graph_dumps_def subset_iff)
        then have "completes S h (k - 1) (w_body h ?w (h ! a))"
          using h x by (intro completes_body) (auto simp: graph_dumps_def)
        from completesD[OF this k(3,2)] show ?thesis
          using Suc.prems(5) lim unfolding M_ref by (subst w_object_new[OF None a(1)]) auto
      qed
    qed
  next
    case (M_fix i)
    then have "-(2 ^ 31) \<le> i" "i < 2 ^ 31" using Suc.prems(3)[of i] by (simp_all add: fixable_defs)
    then show ?thesis using completes_bind[OF completes_out completes_num] Suc.prems(5) M_fix by (simp add: Let_def)
  next
    case (M_sym s)
    then show ?thesis using completes_symbol[OF S(1), of s] Suc.prems(1,5) by (simp add: Let_def)
  qed (use Suc.prems(5) completes_out in \<open>simp_all add: Let_def\<close>)
qed simp

lemma marshal_dump_total:
  assumes "graph_ok cls h v" "\<forall>x \<in> set h. dumpable x" "few (graph_names h v)" "length h < 2 ^ 31 - 4"
  shows "\<exists>out. marshal_dump h v (-1) = Inr out"
proof -
  have "graph_dumps (graph_names h v) h" using assms by (auto simp: graph_dumps_def graph_ok_def graph_names_def)
  moreover have "FIXABLE i" if "x \<in> set h" "M_fix i \<in> set (vals_of x)" for x i
    using assms(1) obj_ok_vals[of cls x "M_fix i"] that by (simp add: graph_ok_def)
  ultimately have "completes (graph_names h v) h (length h) (w_object (length h + 2) h (-1) v)"
    using assms(1,4) by (intro completes_object) (auto simp: graph_ok_def graph_names_def)
  from completesD[OF this, of "\<lparr>dstr = [4, 8], dsyms = [], ddata = []\<rparr>"] show ?thesis
    by (auto simp: tables_ok_def unseen_def marshal_dump_def simp del: w_object.simps)
qed

section \<open>Loading gives well-formed graphs\<close>

definition classes_ok :: "world \<Rightarrow> bool" where
  "classes_ok cls \<longleftrightarrow> (\<forall>path mem. class_named cls path = Some (K_struct mem) \<longrightarrow> (\<forall>m \<in> set mem. name_ok m))"

definition vfit :: "nat \<Rightarrow> mval \<Rightarrow> bool" where
  "vfit n v \<longleftrightarrow> val_ok v \<and> refs_in n v"

definition ofit :: "world \<Rightarrow> nat \<Rightarrow> mobj \<Rightarrow> bool" where
  "ofit cls n x \<longleftrightarrow> obj_ok cls x \<and> (\<forall>u \<in> set (vals_of x). refs_in n u)"

definition load_ok :: "world \<Rightarrow> load \<Rightarrow> bool" where
  "load_ok cls l \<longleftrightarrow> (\<forall>s \<in> set (lsyms l). name_ok s) \<and> (\<forall>v \<in> set (ldata l). vfit (length (lheap l)) v) \<and>
     (\<forall>x \<in> set (lheap l). ofit cls (length (lheap l)) x)"

definition extends :: "load \<Rightarrow> load \<Rightarrow> bool" where
  "extends l l2 \<longleftrightarrow> length (lheap l) \<le> length (lheap l2)"

text \<open>A reader keeps the state well-formed, drops no object and gives a result with the property \<open>P\<close>.\<close>

definition keeps :: "world \<Rightarrow> (load \<Rightarrow> ('a \<times> load) outcome) \<Rightarrow> (load \<Rightarrow> 'a \<Rightarrow> bool) \<Rightarrow> bool" where
  "keeps cls R P \<longleftrightarrow> (\<forall>l x l2. R l = Inr (x, l2) \<longrightarrow> load_ok cls l \<longrightarrow> load_ok cls l2 \<and> extends l l2 \<and> P l2 x)"

lemma refs_in_mono: "refs_in n v \<Longrightarrow> n \<le> m \<Longrightarrow> refs_in m v"
  by (cases v) auto

lemma vfit_mono: "vfit n v \<Longrightarrow> n \<le> m \<Longrightarrow> vfit m v"
  by (auto simp: vfit_def intro: refs_in_mono)

lemma ofit_mono: "ofit cls n x \<Longrightarrow> n \<le> m \<Longrightarrow> ofit cls m x"
  by (auto simp: ofit_def intro: refs_in_mono)

lemma extends_trans: "extends l l1 \<Longrightarrow> extends l1 l2 \<Longrightarrow> extends l l2"
  by (simp add: extends_def)

lemma extends_refl: "extends l l"
  by (simp add: extends_def)

lemma keepsD: "keeps cls R P \<Longrightarrow> R l = Inr (x, l2) \<Longrightarrow> load_ok cls l \<Longrightarrow> load_ok cls l2 \<and> extends l l2 \<and> P l2 x"
  unfolding keeps_def by blast

lemma keeps_bind:
  assumes "keeps cls R P" "\<And>x. keeps cls (\<lambda>l. if P l x then Q x l else raise Undefined) T"
  shows "keeps cls (\<lambda>l. obind (R l) (\<lambda>(x, l). Q x l)) T"
  unfolding keeps_def
proof (intro allI impI)
  fix l y l2
  assume "obind (R l) (\<lambda>(x, l). Q x l) = Inr (y, l2)" and l: "load_ok cls l"
  then obtain x l1 where R: "R l = Inr (x, l1)" and Q: "Q x l1 = Inr (y, l2)" by (auto simp: obind_eq_Inr_iff)
  note 1 = keepsD[OF assms(1) R l]
  then have "(if P l1 x then Q x l1 else raise Undefined) = Inr (y, l2)" using Q by simp
  from keepsD[OF assms(2) this] 1 show "load_ok cls l2 \<and> extends l l2 \<and> T l2 y" by (blast intro: extends_trans)
qed

lemma keeps_reading: "keeps cls (reading r) (\<lambda>l x. True)"
  by (auto simp: keeps_def reading_def obind_eq_Inr_iff load_ok_def extends_def)

lemma keeps_read_bind: "(\<And>x. keeps cls (Q x) T) \<Longrightarrow> keeps cls (\<lambda>l. obind (reading r l) (\<lambda>(x, l). Q x l)) T"
  by (rule keeps_bind[OF keeps_reading]) simp

lemma name_ok_c_string: "name_ok (c_string s)"
  by (auto simp: name_ok_def c_string_def dest: set_takeWhileD)

lemma keeps_symlink: "keeps cls r_symlink (\<lambda>l s. name_ok s)"
  unfolding keeps_def
proof (intro allI impI)
  fix l s l2
  assume "r_symlink l = Inr (s, l2)" and l: "load_ok cls l"
  then obtain n where "reading r_long l = Inr (n, l2)" "0 \<le> n" "n < int (length (lsyms l2))" "s = lsyms l2 ! nat n"
    by (auto simp: r_symlink_def obind_eq_Inr_iff split: if_splits)
  with keepsD[OF keeps_reading this(1) l] show "load_ok cls l2 \<and> extends l l2 \<and> name_ok s" by (auto simp: load_ok_def)
qed

lemma keeps_symreal: "keeps cls r_symreal (\<lambda>l s. name_ok s)"
  unfolding keeps_def
proof (intro allI impI)
  fix l s l2
  assume "r_symreal l = Inr (s, l2)" and l: "load_ok cls l"
  then obtain t l1 where "reading r_bytes l = Inr (t, l1)" "s = c_string t" "l2 = l1\<lparr>lsyms := lsyms l1 @ [s]\<rparr>"
    by (auto simp: r_symreal_def obind_eq_Inr_iff)
  with keepsD[OF keeps_reading this(1) l] show "load_ok cls l2 \<and> extends l l2 \<and> name_ok s"
    by (auto simp: load_ok_def extends_def name_ok_c_string)
qed

lemma keeps_symbol: "keeps cls r_symbol (\<lambda>l s. name_ok s)"
  unfolding r_symbol_def using keeps_symlink[of cls] keeps_symreal[of cls]
  by (intro keeps_bind[OF keeps_reading]) (auto simp: keeps_def)

lemma enter_object_ok:
  assumes "load_ok cls l" "ofit cls (Suc (length (lheap l))) x" "enter_object x l = (v, l2)"
  shows "load_ok cls l2 \<and> extends l l2 \<and> vfit (length (lheap l2)) v"
proof -
  let ?n = "length (lheap l)"
  have "\<forall>y \<in> set (lheap l). ofit cls (Suc ?n) y" "\<forall>u \<in> set (ldata l). vfit (Suc ?n) u"
    using assms(1) ofit_mono[of cls ?n _ "Suc ?n"] vfit_mono[of ?n _ "Suc ?n"] by (auto simp: load_ok_def)
  then show ?thesis using assms
    by (auto simp: enter_object_def new_object_def r_entry_def load_ok_def extends_def vfit_def)
qed

text \<open>Changing an object in place.\<close>

lemma update_ok:
  assumes "load_ok cls l" "a < length (lheap l) \<Longrightarrow> ofit cls (length (lheap l)) x"
  shows "load_ok cls (l\<lparr>lheap := (lheap l)[a := x]\<rparr>) \<and> extends l (l\<lparr>lheap := (lheap l)[a := x]\<rparr>)"
proof (cases "a < length (lheap l)")
  case True
  then show ?thesis using assms set_update_subset_insert[of "lheap l" a x] by (auto simp: load_ok_def extends_def)
qed (use assms in \<open>simp_all add: load_ok_def extends_def list_update_beyond\<close>)

lemma push_elem_ok:
  assumes "load_ok cls l" "vfit (length (lheap l)) v"
  shows "load_ok cls (push_elem a v l) \<and> extends l (push_elem a v l)"
proof (cases "lheap l ! a")
  case (M_ary vs)
  have "ofit cls (length (lheap l)) (M_ary (vs @ [v]))" if "a < length (lheap l)"
    using assms nth_mem[OF that] M_ary by (auto simp: load_ok_def ofit_def vfit_def)
  then show ?thesis using update_ok[OF assms(1)] M_ary by (simp add: push_elem_def)
qed (use assms(1) extends_refl in \<open>simp_all add: push_elem_def\<close>)

lemma set_set_slot: "set (set_slot slot v xs) \<subseteq> insert (slot, v) (set xs)"
  by (induction slot v xs rule: set_slot.induct) auto

lemma distinct_set_slot: "distinct (map fst xs) \<Longrightarrow> distinct (map fst (set_slot slot v xs))"
proof (induction slot v xs rule: set_slot.induct)
  case (2 slot v s w vs)
  have "fst ` set (set_slot slot v vs) \<subseteq> insert slot (fst ` set vs)" using set_set_slot[of slot v vs] by auto
  then show ?case using 2 by auto
qed simp

lemma rb_ivar_set_ok:
  assumes "load_ok cls l" "vfit (length (lheap l)) v" "name_ok slot"
  shows "load_ok cls (rb_ivar_set a slot v l) \<and> extends l (rb_ivar_set a slot v l)"
proof (cases "lheap l ! a")
  case (M_object path xs)
  have "ofit cls (length (lheap l)) (M_object path (set_slot slot v xs))" if "a < length (lheap l)"
  proof -
    have "ofit cls (length (lheap l)) (M_object path xs)" using assms(1) nth_mem[OF that] M_object by (auto simp: load_ok_def)
    then show ?thesis using assms(2,3) distinct_set_slot[of xs slot v] set_set_slot[of slot v xs]
      by (fastforce simp: ofit_def vfit_def slots_ok_def)
  qed
  then show ?thesis using update_ok[OF assms(1)] M_object by (simp add: rb_ivar_set_def)
qed (use assms(1) extends_refl in \<open>simp_all add: rb_ivar_set_def\<close>)

lemma rb_struct_aset_ok:
  assumes "load_ok cls l" "vfit (length (lheap l)) v"
  shows "load_ok cls (rb_struct_aset a i v l) \<and> extends l (rb_struct_aset a i v l)"
proof (cases "lheap l ! a")
  case (M_struct path xs)
  let ?xs = "xs[i := (fst (xs ! i), v)]"
  have "ofit cls (length (lheap l)) (M_struct path ?xs)" if "a < length (lheap l)"
  proof -
    have x: "ofit cls (length (lheap l)) (M_struct path xs)" using assms(1) nth_mem[OF that] M_struct by (auto simp: load_ok_def)
    show ?thesis
    proof (cases "i < length xs")
      case True
      then have "map fst ?xs = map fst xs" by (simp add: map_update same_update)
      moreover have "set ?xs \<subseteq> insert (fst (xs ! i), v) (set xs)" by (rule set_update_subset_insert)
      moreover have "name_ok (fst (xs ! i))" using x nth_mem[OF True] by (simp add: ofit_def slots_ok_def)
      ultimately show ?thesis using x assms(2) by (fastforce simp: ofit_def vfit_def slots_ok_def)
    qed (use x in \<open>simp add: list_update_beyond\<close>)
  qed
  then show ?thesis using update_ok[OF assms(1)] M_struct by (simp add: rb_struct_aset_def)
qed (use assms(1) extends_refl in \<open>simp_all add: rb_struct_aset_def\<close>)

section \<open>Loops over the parts of an object\<close>

definition value_reader :: "world \<Rightarrow> (load \<Rightarrow> (mval \<times> load) outcome) \<Rightarrow> bool" where
  "value_reader cls R \<longleftrightarrow> keeps cls R (\<lambda>l v. vfit (length (lheap l)) v)"

lemma r_elems_ok:
  assumes r: "value_reader cls r" and l: "load_ok cls l" "r_elems r n a l = Inr l2"
  shows "load_ok cls l2 \<and> extends l l2"
  using l
proof (induction n arbitrary: l)
  case (Suc n)
  then obtain v l1 where 1: "r l = Inr (v, l1)" "r_elems r n a (push_elem a v l1) = Inr l2" by (auto simp: obind_eq_Inr_iff)
  note 2 = keepsD[OF r[unfolded value_reader_def] 1(1) Suc.prems(1)]
  note 3 = push_elem_ok[of cls l1 v a]
  show ?case using Suc.IH[OF _ 1(2)] 2 3 by (blast intro: extends_trans)
qed (simp add: extends_refl)

lemma r_ivars_ok:
  assumes r: "value_reader cls r" and l: "load_ok cls l" "r_ivars r n a l = Inr l2"
  shows "load_ok cls l2 \<and> extends l l2"
  using l
proof (induction n arbitrary: l)
  case (Suc n)
  then obtain s l0 v l1 where 1: "r_symbol l = Inr (s, l0)" "r l0 = Inr (v, l1)" "r_ivars r n a (rb_ivar_set a s v l1) = Inr l2"
    by (auto simp: obind_eq_Inr_iff)
  note 2 = keepsD[OF keeps_symbol 1(1) Suc.prems(1)]
  note 3 = keepsD[OF r[unfolded value_reader_def] 1(2)] rb_ivar_set_ok[of cls l1 v s a]
  show ?case using Suc.IH[OF _ 1(3)] 2 3 by (blast intro: extends_trans)
qed (simp add: extends_refl)

lemma r_members_ok:
  assumes r: "value_reader cls r" and l: "load_ok cls l" "r_members r mem n i a l = Inr l2"
  shows "load_ok cls l2 \<and> extends l l2"
  using l
proof (induction n arbitrary: i l)
  case (Suc n)
  then obtain s l0 v l1 where 1: "r_symbol l = Inr (s, l0)" "r l0 = Inr (v, l1)"
    "r_members r mem n (Suc i) a (rb_struct_aset a i v l1) = Inr l2"
    by (auto simp: obind_eq_Inr_iff split: if_splits)
  note 2 = keepsD[OF keeps_symbol 1(1) Suc.prems(1)]
  note 3 = keepsD[OF r[unfolded value_reader_def] 1(2)] rb_struct_aset_ok[of cls l1 v a i]
  show ?case using Suc.IH[OF _ 1(3)] 2 3 by (blast intro: extends_trans)
qed (simp add: extends_refl)

section \<open>The reader of objects\<close>

lemma keeps_if:
  assumes "b \<Longrightarrow> keeps cls R P" "\<not> b \<Longrightarrow> keeps cls Q P"
  shows "keeps cls (\<lambda>l. if b then R l else Q l) P"
  using assms by (cases b) simp_all

lemma keeps_raise: "keeps cls (\<lambda>l. raise e) P"
  by (simp add: keeps_def)

lemma value_immediate: "val_ok v \<Longrightarrow> refs_in 0 v \<Longrightarrow> value_reader cls (\<lambda>l. return (v, l))"
  using refs_in_mono[of 0 v] by (simp add: value_reader_def keeps_def extends_refl vfit_def)

lemma FIXABLE_LONG2FIX: "LONG2FIX i = Fixnum k \<Longrightarrow> FIXABLE k"
  by (auto simp: LONG2FIX_def fixable_defs)

lemma value_fixnum:
  "value_reader cls (\<lambda>l. obind (reading r_long l) (\<lambda>(i, l). case LONG2FIX i of Fixnum k \<Rightarrow> return (M_fix k, l) | _ \<Rightarrow> raise Undefined))"
  unfolding value_reader_def
  by (rule keeps_bind[OF keeps_reading]) (auto simp: keeps_def extends_refl vfit_def dest: FIXABLE_LONG2FIX split: "value.splits")

lemma value_link: "value_reader cls r_link"
  unfolding value_reader_def keeps_def
proof (intro allI impI)
  fix l v l2
  assume "r_link l = Inr (v, l2)" and l: "load_ok cls l"
  then obtain i where "reading r_long l = Inr (i, l2)" "v \<in> set (ldata l2)"
    by (auto simp: r_link_def obind_eq_Inr_iff Let_def split: if_splits)
  with keepsD[OF keeps_reading this(1) l] show "load_ok cls l2 \<and> extends l l2 \<and> vfit (length (lheap l2)) v"
    by (auto simp: load_ok_def)
qed

lemma value_enter: "(\<And>n. ofit cls n x) \<Longrightarrow> value_reader cls (\<lambda>l. return (enter_object x l))"
  unfolding value_reader_def keeps_def by (metis Inr_inject enter_object_ok)

lemma value_bignum: "value_reader cls r_bignum"
  unfolding value_reader_def r_bignum_def
proof (intro keeps_read_bind)
  fix sg len data
  let ?b = "\<lparr>sign = (sg = 43), digits = digits_of_bytes data\<rparr>"
  consider n where "bignorm (Bignum ?b) = Fixnum n" "FIXABLE n" | c where "bignorm (Bignum ?b) = Bignum c" "big_ok c"
    using bignorm_cases[of ?b] by metis
  then show "keeps cls (\<lambda>l. if len < 0 then raise Undefined
      else (let v = bignorm (Bignum ?b) in case v of
        Bignum x \<Rightarrow> return (enter_object (M_big x) l)
      | Fixnum i \<Rightarrow> return (M_fix i, r_entry (M_fix i) l)
      | _ \<Rightarrow> raise Undefined)) (\<lambda>l v. vfit (length (lheap l)) v)"
  proof cases
    case 1
    then show ?thesis by (auto simp: keeps_def r_entry_def load_ok_def extends_def vfit_def)
  next
    case (2 c)
    then show ?thesis using value_enter[of cls "M_big c"] by (auto simp: keeps_def value_reader_def ofit_def)
  qed
qed

text \<open>A new object is entered, then its parts are read.\<close>

lemma value_enter_parts:
  assumes x: "\<And>n. ofit cls n x" and K: "\<And>v a l w l2. load_ok cls l \<Longrightarrow> K v a l = Inr (w, l2) \<Longrightarrow> load_ok cls l2 \<and> extends l l2 \<and> w = v"
  shows "value_reader cls (\<lambda>l. let a = length (lheap l); (v, l) = enter_object x l in K v a l)"
  unfolding value_reader_def keeps_def
proof (intro allI impI)
  fix l w l2
  assume *: "(let a = length (lheap l); (v, l) = enter_object x l in K v a l) = Inr (w, l2)" and l: "load_ok cls l"
  obtain v l1 where e: "enter_object x l = (v, l1)" by (cases "enter_object x l")
  note 1 = enter_object_ok[OF l x e]
  have "K v (length (lheap l)) l1 = Inr (w, l2)" using * e by (simp add: Let_def)
  with K 1 have "load_ok cls l2 \<and> extends l1 l2 \<and> w = v" by blast
  then show "load_ok cls l2 \<and> extends l l2 \<and> vfit (length (lheap l2)) w"
    using 1 by (auto simp: extends_def intro: vfit_mono)
qed

lemma keeps_ignore: "(\<And>y. c = Inr y \<Longrightarrow> keeps cls (Q y) P) \<Longrightarrow> keeps cls (\<lambda>l. obind c (\<lambda>y. Q y l)) P"
  by (cases c) (simp_all add: keeps_raise)

lemma keeps_symbol_bind:
  "(\<And>s. name_ok s \<Longrightarrow> keeps cls (Q s) T) \<Longrightarrow> keeps cls (\<lambda>l. obind (r_symbol l) (\<lambda>(s, l). Q s l)) T"
  by (rule keeps_bind[OF keeps_symbol]) (rule keeps_if, auto simp: keeps_raise)

lemma value_array:
  assumes r: "value_reader cls r"
  shows "value_reader cls (\<lambda>l. obind (reading r_long l) (\<lambda>(len, l). obind (check_ary_new2 len) (\<lambda>_.
       (let a = length (lheap l); (v, l) = enter_object (M_ary []) l in
        obind (r_elems r (nat len) a l) (\<lambda>l. return (v, l))))))"
  unfolding value_reader_def
  by (intro keeps_read_bind keeps_ignore value_enter_parts[unfolded value_reader_def])
    (use r_elems_ok[OF r] in \<open>auto simp: ofit_def obind_eq_Inr_iff\<close>)

lemma value_struct:
  assumes r: "value_reader cls r" and c: "classes_ok cls"
  shows "value_reader cls (\<lambda>l. obind (r_symbol l) (\<lambda>(path, l). obind (path2class cls path) (\<lambda>k. case k of
         K_struct mem \<Rightarrow> obind (reading r_long l) (\<lambda>(len, l). obind (check_ary_new2 len) (\<lambda>_.
           if nat len > length mem then raise ArgError
           else (let a = length (lheap l); (v, l) = enter_object (M_struct path (map (\<lambda>m. (m, M_nil)) mem)) l in
              obind (r_members r mem (nat len) 0 a l) (\<lambda>l. return (v, l)))))
       | _ \<Rightarrow> raise Rb_bug)))"
  unfolding value_reader_def
proof (intro keeps_symbol_bind keeps_ignore)
  fix path k
  assume p: "name_ok path" and "path2class cls path = Inr k"
  then have k: "class_named cls path = Some k" by (auto simp: path2class_def split: option.splits)
  show "keeps cls (\<lambda>l. case k of
         K_struct mem \<Rightarrow> obind (reading r_long l) (\<lambda>(len, l). obind (check_ary_new2 len) (\<lambda>_.
           if nat len > length mem then raise ArgError
           else (let a = length (lheap l); (v, l) = enter_object (M_struct path (map (\<lambda>m. (m, M_nil)) mem)) l in
              obind (r_members r mem (nat len) 0 a l) (\<lambda>l. return (v, l)))))
       | _ \<Rightarrow> raise Rb_bug) (\<lambda>l v. vfit (length (lheap l)) v)"
  proof (cases k)
    case (K_struct mem)
    then have x: "ofit cls n (M_struct path (map (\<lambda>m. (m, M_nil)) mem))" for n
      using c k p by (auto simp: ofit_def slots_ok_def classes_ok_def comp_def)
    show ?thesis unfolding K_struct class_kind.case
      by (intro keeps_read_bind keeps_ignore keeps_if keeps_raise value_enter_parts[unfolded value_reader_def])
        (use r_members_ok[OF r] x in \<open>auto simp: obind_eq_Inr_iff\<close>)
  qed (simp_all add: keeps_raise)
qed

lemma value_object:
  assumes r: "value_reader cls r"
  shows "value_reader cls (\<lambda>l. obind (r_symbol l) (\<lambda>(path, l). obind (path2class cls path) (\<lambda>k.
       if k \<noteq> K_object then raise ArgError
       else (let a = length (lheap l); (v, l) = enter_object (M_object path []) l in
          obind (reading r_long l) (\<lambda>(len, l). obind (r_ivars r (nat len) a l) (\<lambda>l. return (v, l)))))))"
  unfolding value_reader_def
proof (intro keeps_symbol_bind keeps_ignore keeps_if keeps_raise value_enter_parts[unfolded value_reader_def])
  fix path k n
  assume "name_ok path" "path2class cls path = Inr k" "\<not> k \<noteq> K_object"
  then show "ofit cls n (M_object path [])" by (auto simp: ofit_def path2class_def slots_ok_def split: option.splits)
next
  fix v a l w l2
  assume l: "load_ok cls l" and "obind (reading r_long l) (\<lambda>(len, l). obind (r_ivars r (nat len) a l) (\<lambda>l. return (v, l))) = Inr (w, l2)"
  then obtain len l1 where 1: "reading r_long l = Inr (len, l1)" "r_ivars r (nat len) a l1 = Inr l2" "w = v"
    by (auto simp: obind_eq_Inr_iff)
  with keepsD[OF keeps_reading 1(1) l] r_ivars_ok[OF r _ 1(2)] show "load_ok cls l2 \<and> extends l l2 \<and> w = v"
    by (auto intro: extends_trans)
qed

lemma value_symbols:
  "value_reader cls (\<lambda>l. obind (r_symreal l) (\<lambda>(s, l). return (M_sym s, l)))"
  "value_reader cls (\<lambda>l. obind (r_symlink l) (\<lambda>(s, l). return (M_sym s, l)))"
  unfolding value_reader_def
  subgoal by (rule keeps_bind[OF keeps_symreal]) (auto simp: keeps_def extends_refl vfit_def)
  subgoal by (rule keeps_bind[OF keeps_symlink]) (auto simp: keeps_def extends_refl vfit_def)
  done

lemma reg_options_idem: "reg_options (reg_options opts) = reg_options opts"
proof -
  have low: "(opts AND 7 OR k) AND 7 = opts AND 7" if "k AND 7 = 0" for k :: byte
    using that by (simp add: bit.conj_disj_distrib2 and.assoc)
  have high: "(opts AND 7 OR k) AND 240 = k AND 240" for k :: byte
    by (simp add: bit.conj_disj_distrib2 and.assoc)
  show ?thesis
  proof (cases "opts AND 240 \<in> {16, 32, 48, 64}")
    case True
    then have "(opts AND 240) AND 7 = 0" "(opts AND 240) AND 240 = opts AND 240" by auto
    then show ?thesis using True low[of "opts AND 240"] high[of "opts AND 240"] by (simp add: reg_options_def Let_def)
  next
    case False
    then show ?thesis by (simp add: reg_options_def Let_def and.assoc)
  qed
qed

lemma value_r_object:
  assumes "classes_ok cls"
  shows "value_reader cls (r_object n cls)"
proof (induction n)
  case 0
  then show ?case by (simp add: value_reader_def keeps_def)
next
  case (Suc n)
  note parts = value_link value_bignum value_array[OF Suc] value_struct[OF Suc assms] value_object[OF Suc] value_symbols
    value_fixnum value_immediate[of M_nil] value_immediate[of M_true] value_immediate[of M_false]
  have str: "value_reader cls (\<lambda>l. obind (reading r_bytes l) (\<lambda>(s, l). return (enter_object (M_str s) l)))"
    "value_reader cls (\<lambda>l. obind (reading r_bytes l) (\<lambda>(s, l). obind (reading r_byte l) (\<lambda>(opts, l).
       obind (rb_reg_new cls s opts) (\<lambda>x. return (enter_object x l)))))"
    unfolding value_reader_def
    by (intro keeps_read_bind keeps_ignore value_enter[unfolded value_reader_def]; auto simp: ofit_def rb_reg_new_def reg_options_idem split: if_splits)+
  show ?case unfolding value_reader_def r_object.simps [abs_def]
    by (intro keeps_read_bind keeps_if keeps_raise parts[unfolded value_reader_def] str[unfolded value_reader_def]) simp_all
qed

lemma marshal_load_graph:
  assumes "classes_ok cls" "marshal_load cls s = Inr (v, h)"
  shows "graph_ok cls h v"
proof -
  obtain t l where "r_object (Suc (length t)) cls \<lparr>src = t, lsyms = [], ldata = [], lheap = []\<rparr> = Inr (v, l)" "h = lheap l"
    using assms(2) by (auto simp: marshal_load_def obind_eq_Inr_iff split: if_splits simp del: r_object.simps)
  moreover from keepsD[OF value_r_object[OF assms(1), unfolded value_reader_def] this(1)]
  have "load_ok cls l \<and> vfit (length (lheap l)) v" by (simp add: load_ok_def)
  ultimately show ?thesis by (auto simp: graph_ok_def load_ok_def vfit_def ofit_def)
qed

section \<open>The limit on the depth\<close>

lemma w_elems_mono: "(\<And>v d d2. w v d = Inr d2 \<Longrightarrow> w' v d = Inr d2) \<Longrightarrow> w_elems w vs d = Inr d2 \<Longrightarrow> w_elems w' vs d = Inr d2"
  by (induction vs arbitrary: d) (fastforce simp: obind_eq_Inr_iff)+

lemma w_slots_mono: "(\<And>v d d2. w v d = Inr d2 \<Longrightarrow> w' v d = Inr d2) \<Longrightarrow> w_slots w xs d = Inr d2 \<Longrightarrow> w_slots w' xs d = Inr d2"
  by (induction w xs d rule: w_slots.induct) (fastforce simp: obind_eq_Inr_iff)+

lemma w_body_mono:
  assumes "\<And>v d d2. w v d = Inr d2 \<Longrightarrow> w' v d = Inr d2" "w_body h w x d = Inr d2"
  shows "w_body h w' x d = Inr d2"
proof -
  have "w_elems w vs d = Inr d2 \<Longrightarrow> w_elems w' vs d = Inr d2" "w_slots w xs d = Inr d2 \<Longrightarrow> w_slots w' xs d = Inr d2" for vs xs d d2
    using w_elems_mono[of w w'] w_slots_mono[of w w'] assms(1) by blast+
  then show ?thesis using assms(2) by (cases x) (fastforce simp: w_body_def obind_eq_Inr_iff)+
qed

lemma w_object_unlimited:
  assumes "w_object n h limit v d = Inr d2" "limit' < 0" "- (2 ^ 31) \<le> limit' - int n"
  shows "w_object n h limit' v d = Inr d2"
  using assms
proof (induction n arbitrary: limit limit' v d d2)
  case (Suc n)
  have l: "limit \<noteq> 0" "limit' \<noteq> 0" using Suc.prems by (auto split: if_splits)
  have lim: "s32 (limit' - 1) = limit' - 1" using Suc.prems by (intro s32_id) simp_all
  show ?case
  proof (cases v)
    case (M_ref a)
    show ?thesis
    proof (cases "index_of a (ddata d)")
      case None
      have a: "a < length h" using Suc.prems(1) l M_ref None by (auto simp: Let_def split: if_splits)
      show ?thesis using Suc.prems unfolding M_ref w_object_new[OF None a l(1)] w_object_new[OF None a l(2)] lim
        by (elim w_body_mono[rotated]) (rule Suc.IH, auto)
    next
      case (Some k)
      show ?thesis using Suc.prems(1) unfolding M_ref w_object_seen[OF Some l(1)] w_object_seen[OF Some l(2)] .
    qed
  qed (use Suc.prems(1) l in \<open>simp_all add: Let_def\<close>)
qed simp

section \<open>Every object takes a byte\<close>

definition shrinks :: "(load \<Rightarrow> ('a \<times> load) outcome) \<Rightarrow> bool" where
  "shrinks R \<longleftrightarrow> (\<forall>l x l2. R l = Inr (x, l2) \<longrightarrow> length (src l2) \<le> length (src l))"

lemma shrinksD: "shrinks R \<Longrightarrow> R l = Inr (x, l2) \<Longrightarrow> length (src l2) \<le> length (src l)"
  by (auto simp: shrinks_def)

lemma shrinks_bind: "shrinks R \<Longrightarrow> (\<And>x. shrinks (Q x)) \<Longrightarrow> shrinks (\<lambda>l. obind (R l) (\<lambda>(x, l). Q x l))"
  unfolding shrinks_def by (fastforce simp: obind_eq_Inr_iff)

lemma shrinks_if: "(b \<Longrightarrow> shrinks R) \<Longrightarrow> (\<not> b \<Longrightarrow> shrinks Q) \<Longrightarrow> shrinks (\<lambda>l. if b then R l else Q l)"
  by (cases b) simp_all

lemma shrinks_ignore: "(\<And>y. shrinks (Q y)) \<Longrightarrow> shrinks (\<lambda>l. obind c (\<lambda>y. Q y l))"
  by (cases c) (simp_all add: shrinks_def)

lemma shrinks_leaf: "shrinks (\<lambda>l. raise e)" "shrinks (\<lambda>l. return (v, l))" "shrinks (\<lambda>l. return (enter_object x l))"
    "shrinks (\<lambda>l. return (v, r_entry u l))"
  by (auto simp: shrinks_def enter_object_def new_object_def r_entry_def)

lemma r_byte_shrinks: "r_byte s = Inr (b, t) \<Longrightarrow> length t < length s"
  by (auto simp: r_byte_def split: list.splits)

lemma r_long_pos_shrinks: "r_long_pos n i x s = Inr (y, t) \<Longrightarrow> length t \<le> length s"
proof (induction n arbitrary: i x s)
  case (Suc n)
  then obtain b s1 x1 where 1: "r_byte s = Inr (b, s1)" "r_long_pos n (Suc i) x1 s1 = Inr (y, t)" by (auto simp: obind_eq_Inr_iff)
  then show ?case using Suc.IH[OF 1(2)] r_byte_shrinks[OF 1(1)] by simp
qed simp

lemma r_long_neg_shrinks: "r_long_neg n i x s = Inr (y, t) \<Longrightarrow> length t \<le> length s"
proof (induction n arbitrary: i x s)
  case (Suc n)
  then obtain b s1 x1 where 1: "r_byte s = Inr (b, s1)" "r_long_neg n (Suc i) x1 s1 = Inr (y, t)" by (auto simp: obind_eq_Inr_iff)
  then show ?case using Suc.IH[OF 1(2)] r_byte_shrinks[OF 1(1)] by simp
qed simp

lemma r_long_shrinks: "r_long s = Inr (i, t) \<Longrightarrow> length t \<le> length s"
  by (auto simp: r_long_def Let_def obind_eq_Inr_iff split: if_splits
      dest!: r_byte_shrinks r_long_pos_shrinks r_long_neg_shrinks)

lemma r_bytes0_shrinks: "r_bytes0 n s = Inr (x, t) \<Longrightarrow> length t \<le> length s"
  by (auto simp: r_bytes0_def split: if_splits)

lemma shrinks_reading: "(\<And>s x t. r s = Inr (x, t) \<Longrightarrow> length t \<le> length s) \<Longrightarrow> shrinks (reading r)"
  by (auto simp: shrinks_def reading_def obind_eq_Inr_iff)

lemma r_bytes_shrinks: "r_bytes s = Inr (x, t) \<Longrightarrow> length t \<le> length s"
  unfolding r_bytes_def obind_eq_Inr_iff by (fastforce dest: r_long_shrinks r_bytes0_shrinks)

lemma reading_shrinks:
  "shrinks (reading r_byte)" "shrinks (reading r_long)" "shrinks (reading (r_bytes0 n))" "shrinks (reading r_bytes)"
  by (rule shrinks_reading, auto dest: r_byte_shrinks r_long_shrinks r_bytes0_shrinks r_bytes_shrinks)+

lemma shrinks_symbols: "shrinks r_symlink" "shrinks r_symreal" "shrinks r_symbol"
proof -
  show 1: "shrinks r_symlink" unfolding r_symlink_def
    by (rule shrinks_bind[OF reading_shrinks(2)]) (auto simp: shrinks_def)
  show 2: "shrinks r_symreal" unfolding r_symreal_def
    by (rule shrinks_bind[OF reading_shrinks(4)]) (auto simp: shrinks_def)
  show "shrinks r_symbol" unfolding r_symbol_def by (intro shrinks_bind[OF reading_shrinks(1)] shrinks_if 1 2)
qed

lemma shrinks_link: "shrinks r_link"
  unfolding r_link_def by (rule shrinks_bind[OF reading_shrinks(2)]) (auto simp: shrinks_def Let_def split: if_splits)

lemma shrinks_bignum: "shrinks r_bignum"
  unfolding r_bignum_def
  by (intro shrinks_bind[OF reading_shrinks(1)] shrinks_bind[OF reading_shrinks(2)] shrinks_bind[OF reading_shrinks(3)])
    (auto simp: shrinks_def Let_def enter_object_def new_object_def r_entry_def split: if_splits "value.splits")

lemma src_updates: "src (push_elem a v l) = src l" "src (rb_ivar_set a slot v l) = src l" "src (rb_struct_aset a i v l) = src l"
  by (simp_all add: push_elem_def rb_ivar_set_def rb_struct_aset_def split: mobj.split)

lemma r_elems_shrinks: "shrinks r \<Longrightarrow> r_elems r n a l = Inr l2 \<Longrightarrow> length (src l2) \<le> length (src l)"
  by (induction n arbitrary: l) (fastforce simp: obind_eq_Inr_iff src_updates dest: shrinksD)+

lemma r_ivars_shrinks: "shrinks r \<Longrightarrow> r_ivars r n a l = Inr l2 \<Longrightarrow> length (src l2) \<le> length (src l)"
  by (induction n arbitrary: l) (fastforce simp: obind_eq_Inr_iff src_updates dest: shrinksD shrinksD[OF shrinks_symbols(3)])+

lemma r_members_shrinks: "shrinks r \<Longrightarrow> r_members r mem n i a l = Inr l2 \<Longrightarrow> length (src l2) \<le> length (src l)"
  by (induction n arbitrary: i l)
    (fastforce simp: obind_eq_Inr_iff src_updates split: if_splits dest: shrinksD shrinksD[OF shrinks_symbols(3)])+

lemma enter_object_src: "enter_object x l = (v, l1) \<Longrightarrow> src l1 = src l"
  by (auto simp: enter_object_def new_object_def r_entry_def)

lemma shrinks_parts:
  assumes "\<And>v a l w l2. K v a l = Inr (w, l2) \<Longrightarrow> length (src l2) \<le> length (src l)"
  shows "shrinks (\<lambda>l. let a = length (lheap l); (v, l) = enter_object x l in K v a l)"
  unfolding shrinks_def
proof (intro allI impI)
  fix l w l2
  assume *: "(let a = length (lheap l); (v, l) = enter_object x l in K v a l) = Inr (w, l2)"
  obtain v l1 where e: "enter_object x l = (v, l1)" by (cases "enter_object x l")
  then have "K v (length (lheap l)) l1 = Inr (w, l2)" using * by (simp add: Let_def)
  from assms[OF this] show "length (src l2) \<le> length (src l)" using enter_object_src[OF e] by simp
qed

lemma shrinks_object: "shrinks (r_object n cls)"
proof (induction n)
  case 0
  show ?case by (simp add: shrinks_def)
next
  case (Suc n)
  let ?r = "r_object n cls"
  have ary: "shrinks (\<lambda>l. let a = length (lheap l); (v, l) = enter_object x l in obind (r_elems ?r k a l) (\<lambda>l. return (v, l)))" for x k
    by (rule shrinks_parts) (auto simp: obind_eq_Inr_iff dest: r_elems_shrinks[OF Suc])
  have str: "shrinks (\<lambda>l. let a = length (lheap l); (v, l) = enter_object x l in obind (r_members ?r mem k 0 a l) (\<lambda>l. return (v, l)))" for x mem k
    by (rule shrinks_parts) (auto simp: obind_eq_Inr_iff dest: r_members_shrinks[OF Suc])
  have obj: "shrinks (\<lambda>l. let a = length (lheap l); (v, l) = enter_object x l in
      obind (reading r_long l) (\<lambda>(len, l). obind (r_ivars ?r (nat len) a l) (\<lambda>l. return (v, l))))" for x
  proof (rule shrinks_parts)
    fix v a l w l2
    assume "obind (reading r_long l) (\<lambda>(len, l). obind (r_ivars ?r (nat len) a l) (\<lambda>l. return (v, l))) = Inr (w, l2)"
    then obtain len l1 where "reading r_long l = Inr (len, l1)" "r_ivars ?r (nat len) a l1 = Inr l2" by (auto simp: obind_eq_Inr_iff)
    from shrinksD[OF reading_shrinks(2) this(1)] r_ivars_shrinks[OF Suc this(2)] show "length (src l2) \<le> length (src l)" by simp
  qed
  have fix1: "shrinks (\<lambda>l. case LONG2FIX i of Fixnum k \<Rightarrow> return (M_fix k, l) | _ \<Rightarrow> raise Undefined)" for i
    by (auto simp: shrinks_def split: "value.splits")
  have struct: "shrinks (\<lambda>l. case k of
         K_struct mem \<Rightarrow> obind (reading r_long l) (\<lambda>(len, l). obind (check_ary_new2 len) (\<lambda>_.
           if nat len > length mem then raise ArgError
           else (let a = length (lheap l); (v, l) = enter_object (M_struct path (map (\<lambda>m. (m, M_nil)) mem)) l in
              obind (r_members ?r mem (nat len) 0 a l) (\<lambda>l. return (v, l)))))
       | _ \<Rightarrow> raise Rb_bug)" for k path
    by (cases k) (auto intro!: shrinks_bind[OF reading_shrinks(2)] shrinks_ignore shrinks_if shrinks_leaf str)
  show ?case unfolding r_object.simps [abs_def]
    by (intro shrinks_bind[OF reading_shrinks(1)] shrinks_bind[OF reading_shrinks(2)] shrinks_bind[OF reading_shrinks(4)]
        shrinks_bind[OF shrinks_symbols(3)] shrinks_bind[OF shrinks_symbols(1)] shrinks_bind[OF shrinks_symbols(2)]
        shrinks_if shrinks_ignore shrinks_leaf shrinks_link shrinks_bignum ary obj fix1 struct)
qed

section \<open>The bound on the depth is never used up\<close>

text \<open>
  A reader is \<open>fine n\<close> when it does not use up its bound on an input of fewer than \<open>n\<close> bytes.
\<close>

definition fine :: "nat \<Rightarrow> (load \<Rightarrow> 'a outcome) \<Rightarrow> bool" where
  "fine n R \<longleftrightarrow> (\<forall>l. length (src l) < n \<longrightarrow> R l \<noteq> Inl Too_deep)"

lemma obind_eq_Inl_iff: "obind m f = Inl e \<longleftrightarrow> m = Inl e \<or> (\<exists>x. m = Inr x \<and> f x = Inl e)"
  by (cases m) auto

lemma fine_bind:
  "shrinks R \<Longrightarrow> fine n R \<Longrightarrow> (\<And>x. fine n (Q x)) \<Longrightarrow> fine n (\<lambda>l. obind (R l) (\<lambda>(x, l). Q x l))"
  unfolding fine_def by (fastforce simp: obind_eq_Inl_iff dest: shrinksD)

lemma fine_if: "(b \<Longrightarrow> fine n R) \<Longrightarrow> (\<not> b \<Longrightarrow> fine n Q) \<Longrightarrow> fine n (\<lambda>l. if b then R l else Q l)"
  by (cases b) simp_all

lemma fine_check: "c \<noteq> Inl Too_deep \<Longrightarrow> (\<And>y. fine n (Q y)) \<Longrightarrow> fine n (\<lambda>l. obind c (\<lambda>y. Q y l))"
  by (cases c) (simp_all add: fine_def)

lemma fine_leaf: "e \<noteq> Too_deep \<Longrightarrow> fine n (\<lambda>l. raise e)" "fine n (\<lambda>l. return (f l))"
  by (simp_all add: fine_def)

lemma numbers_fine:
  "r_byte s \<noteq> Inl Too_deep" "r_long_pos k i x s \<noteq> Inl Too_deep" "r_long_neg k i x s \<noteq> Inl Too_deep"
  "r_long s \<noteq> Inl Too_deep" "r_bytes0 len s \<noteq> Inl Too_deep" "r_bytes s \<noteq> Inl Too_deep"
proof -
  show b: "r_byte s \<noteq> Inl Too_deep" for s by (simp add: r_byte_def split: list.split)
  show p: "r_long_pos k i x s \<noteq> Inl Too_deep" for k i x s
    by (induction k arbitrary: i x s) (auto simp: obind_eq_Inl_iff b)
  show q: "r_long_neg k i x s \<noteq> Inl Too_deep" for k i x s
    by (induction k arbitrary: i x s) (auto simp: obind_eq_Inl_iff b)
  show r: "r_long s \<noteq> Inl Too_deep" for s
    by (auto simp: r_long_def Let_def obind_eq_Inl_iff b p q)
  show z: "r_bytes0 len s \<noteq> Inl Too_deep" for len s by (simp add: r_bytes0_def)
  show "r_bytes s \<noteq> Inl Too_deep" by (auto simp: r_bytes_def obind_eq_Inl_iff r z)
qed

lemma reading_fine:
  "fine n (reading r_byte)" "fine n (reading r_long)" "fine n (reading (r_bytes0 len))" "fine n (reading r_bytes)"
  using numbers_fine by (auto simp: fine_def reading_def obind_eq_Inl_iff)

lemma symbols_fine: "fine n r_symlink" "fine n r_symreal" "fine n r_symbol"
proof -
  show 1: "fine n r_symlink" unfolding r_symlink_def
    by (rule fine_bind[OF reading_shrinks(2) reading_fine(2)]) (simp add: fine_def)
  show 2: "fine n r_symreal" unfolding r_symreal_def
    by (rule fine_bind[OF reading_shrinks(4) reading_fine(4)]) (simp add: fine_def)
  show "fine n r_symbol" unfolding r_symbol_def
    by (intro fine_bind[OF reading_shrinks(1) reading_fine(1)] fine_if 1 2)
qed

lemma link_fine: "fine n r_link"
  unfolding r_link_def by (rule fine_bind[OF reading_shrinks(2) reading_fine(2)]) (simp add: fine_def Let_def)

lemma bignum_fine: "fine n r_bignum"
  unfolding r_bignum_def
  by (intro fine_bind[OF reading_shrinks(1) reading_fine(1)] fine_bind[OF reading_shrinks(2) reading_fine(2)]
      fine_bind[OF reading_shrinks(3) reading_fine(3)]) (simp add: fine_def Let_def split: "value.split")

text \<open>Loops over readers that are fine.\<close>

lemma r_elems_fine: "shrinks r \<Longrightarrow> fine n r \<Longrightarrow> fine n (r_elems r k a)"
proof (induction k)
  case (Suc k)
  then have "fine n (\<lambda>l. r_elems r k a (push_elem a v l))" for v by (simp add: fine_def src_updates)
  from fine_bind[OF Suc.prems this] show ?case by (simp add: fine_def)
qed (simp add: fine_def)

lemma r_ivars_fine: "shrinks r \<Longrightarrow> fine n r \<Longrightarrow> fine n (r_ivars r k a)"
proof (induction k)
  case (Suc k)
  then have "fine n (\<lambda>l. r_ivars r k a (rb_ivar_set a s v l))" for s v by (simp add: fine_def src_updates)
  then have "fine n (\<lambda>l. obind (r l) (\<lambda>(v, l). r_ivars r k a (rb_ivar_set a s v l)))" for s
    by (rule fine_bind[OF Suc.prems])
  from fine_bind[OF shrinks_symbols(3) symbols_fine(3) this] show ?case by (simp add: fine_def)
qed (simp add: fine_def)

lemma r_members_fine: "shrinks r \<Longrightarrow> fine n r \<Longrightarrow> fine n (r_members r mem k i a)"
proof (induction k arbitrary: i)
  case (Suc k)
  then have "fine n (\<lambda>l. r_members r mem k (Suc i) a (rb_struct_aset a i v l))" for v by (simp add: fine_def src_updates)
  then have "fine n (\<lambda>l. obind (r l) (\<lambda>(v, l). r_members r mem k (Suc i) a (rb_struct_aset a i v l)))"
    by (rule fine_bind[OF Suc.prems])
  then have "fine n (\<lambda>l. if mem ! i \<noteq> s then raise TypeError
      else obind (r l) (\<lambda>(v, l). r_members r mem k (Suc i) a (rb_struct_aset a i v l)))" for s by (simp add: fine_def)
  from fine_bind[OF shrinks_symbols(3) symbols_fine(3) this] show ?case by (simp add: fine_def)
qed (simp add: fine_def)

lemma parts_fine:
  assumes "\<And>v a. fine n (K v a)"
  shows "fine n (\<lambda>l. let a = length (lheap l); (v, l) = enter_object x l in K v a l)"
  using assms by (auto simp: fine_def Let_def enter_object_src split: prod.split)

lemma then_fine: "fine n R \<Longrightarrow> fine n (\<lambda>l. obind (R l) (\<lambda>l. return (f l)))"
  by (auto simp: fine_def obind_eq_Inl_iff)

lemma check_ary_new2_fine: "check_ary_new2 len \<noteq> Inl Too_deep"
  by (auto simp: check_ary_new2_def rb_ary_new2_def ary_new_def ary_alloc_def NEWOBJ_def ALLOC_N_def xmalloc_def
      upd_ary_def Let_def split: if_splits)

lemma object_fine: "fine n (r_object n cls)"
proof (induction n)
  case 0
  show ?case by (simp add: fine_def)
next
  case (Suc n)
  let ?r = "r_object n cls"
  note loops = r_elems_fine[OF shrinks_object Suc] r_ivars_fine[OF shrinks_object Suc] r_members_fine[OF shrinks_object Suc]
  note rd = fine_bind[OF reading_shrinks(2) reading_fine(2)] fine_bind[OF reading_shrinks(4) reading_fine(4)]
    fine_bind[OF reading_shrinks(1) reading_fine(1)] fine_bind[OF shrinks_symbols(3) symbols_fine(3)]
  have fix1: "fine n (\<lambda>l. case LONG2FIX i of Fixnum k \<Rightarrow> return (M_fix k, l) | _ \<Rightarrow> raise Undefined)" for i
    by (auto simp: fine_def split: "value.splits")
  have reg: "fine n (\<lambda>l. obind (rb_reg_new cls s opts) (\<lambda>x. return (enter_object x l)))" for s opts
    by (auto simp: fine_def rb_reg_new_def)
  have struct: "fine n (\<lambda>l. case k of
         K_struct mem \<Rightarrow> obind (reading r_long l) (\<lambda>(len, l). obind (check_ary_new2 len) (\<lambda>_.
           if nat len > length mem then raise ArgError
           else (let a = length (lheap l); (v, l) = enter_object (M_struct path (map (\<lambda>m. (m, M_nil)) mem)) l in
              obind (r_members ?r mem (nat len) 0 a l) (\<lambda>l. return (v, l)))))
       | _ \<Rightarrow> raise Rb_bug)" for k path
    by (cases k) (auto intro!: rd(1) fine_check[OF check_ary_new2_fine] fine_if fine_leaf parts_fine then_fine loops)
  have path: "path2class cls p \<noteq> Inl Too_deep" for p by (simp add: path2class_def split: option.split)
  have first: "fine (Suc n) (\<lambda>l. obind (reading r_byte l) (\<lambda>(ty, l). Q ty l))" if "\<And>ty. fine n (Q ty)"
    for Q :: "byte \<Rightarrow> load \<Rightarrow> (mval \<times> load) outcome"
    using that numbers_fine(1) by (fastforce simp: fine_def reading_def obind_eq_Inl_iff obind_eq_Inr_iff dest: r_byte_shrinks)
  show ?case unfolding r_object.simps [abs_def]
    by (intro first rd fine_if fine_check[OF check_ary_new2_fine] fine_check[OF path] fine_leaf link_fine bignum_fine parts_fine
        then_fine loops fix1 reg struct fine_bind[OF shrinks_symbols(1) symbols_fine(1)] fine_bind[OF shrinks_symbols(2) symbols_fine(2)]) simp_all
qed

text \<open>Loops over readers that agree on what is left of the input.\<close>

lemma r_elems_agree:
  assumes "shrinks r" "\<And>l'. length (src l') \<le> length (src l) \<Longrightarrow> r l' = r' l'"
  shows "r_elems r n a l = r_elems r' n a l"
  using assms(2)
proof (induction n arbitrary: l)
  case (Suc n)
  have "r_elems r n a (push_elem a v l1) = r_elems r' n a (push_elem a v l1)" if "r l = Inr (v, l1)" for v l1
    by (rule Suc.IH) (use Suc.prems shrinksD[OF assms(1) that] in \<open>simp add: src_updates\<close>)
  then show ?case using Suc.prems[of l] by (auto intro!: obind_cong)
qed simp

lemma r_ivars_agree:
  assumes "shrinks r" "\<And>l'. length (src l') \<le> length (src l) \<Longrightarrow> r l' = r' l'"
  shows "r_ivars r n a l = r_ivars r' n a l"
  using assms(2)
proof (induction n arbitrary: l)
  case (Suc n)
  have "obind (r l0) (\<lambda>(v, l). r_ivars r n a (rb_ivar_set a s v l)) = obind (r' l0) (\<lambda>(v, l). r_ivars r' n a (rb_ivar_set a s v l))"
    if s: "r_symbol l = Inr (s, l0)" for s l0
  proof (rule obind_cong)
    note le = shrinksD[OF shrinks_symbols(3) s]
    show "r l0 = r' l0" using Suc.prems le by simp
    fix x assume "r' l0 = Inr x"
    then have "r l0 = Inr x" using Suc.prems le by simp
    then show "(case x of (v, l) \<Rightarrow> r_ivars r n a (rb_ivar_set a s v l)) = (case x of (v, l) \<Rightarrow> r_ivars r' n a (rb_ivar_set a s v l))"
      using shrinksD[OF assms(1), of l0] le Suc.prems by (cases x) (auto intro!: Suc.IH simp: src_updates)
  qed
  then show ?case unfolding r_ivars.simps by (intro obind_cong[OF refl]) auto
qed simp

lemma r_members_agree:
  assumes "shrinks r" "\<And>l'. length (src l') \<le> length (src l) \<Longrightarrow> r l' = r' l'"
  shows "r_members r mem n i a l = r_members r' mem n i a l"
  using assms(2)
proof (induction n arbitrary: i l)
  case (Suc n)
  have "obind (r l0) (\<lambda>(v, l). r_members r mem n (Suc i) a (rb_struct_aset a i v l)) =
      obind (r' l0) (\<lambda>(v, l). r_members r' mem n (Suc i) a (rb_struct_aset a i v l))"
    if s: "r_symbol l = Inr (s, l0)" for s l0
  proof (rule obind_cong)
    note le = shrinksD[OF shrinks_symbols(3) s]
    show "r l0 = r' l0" using Suc.prems le by simp
    fix x assume "r' l0 = Inr x"
    then have "r l0 = Inr x" using Suc.prems le by simp
    then show "(case x of (v, l) \<Rightarrow> r_members r mem n (Suc i) a (rb_struct_aset a i v l)) =
        (case x of (v, l) \<Rightarrow> r_members r' mem n (Suc i) a (rb_struct_aset a i v l))"
      using shrinksD[OF assms(1), of l0] le Suc.prems by (cases x) (auto intro!: Suc.IH simp: src_updates)
  qed
  then show ?case unfolding r_members.simps by (intro obind_cong[OF refl]) auto
qed simp

text \<open>Fuel above the number of bytes left changes nothing.\<close>

lemma r_object_fuel:
  assumes "length (src l) < m" "length (src l) < m'"
  shows "r_object m cls l = r_object m' cls l"
  using assms
proof (induction m arbitrary: m' l)
  case (Suc m)
  then obtain k where k: "m' = Suc k" by (cases m') auto
  let ?r = "r_object m cls" and ?r' = "r_object k cls"
  have agree: "?r l' = ?r' l'" if "length (src l') < length (src l)" for l'
    using that Suc k by (intro Suc.IH) simp_all
  have e: "r_elems ?r n a l' = r_elems ?r' n a l'" "r_ivars ?r n a l' = r_ivars ?r' n a l'" "r_members ?r mem n i a l' = r_members ?r' mem n i a l'"
    if "length (src l') < length (src l)" for n a l' mem i
    using that agree by (auto intro!: r_elems_agree r_ivars_agree r_members_agree shrinks_object)
  show ?case unfolding k r_object.simps
  proof (rule obind_cong[OF refl], goal_cases)
    case (1 x)
    then have x: "reading r_byte l = Inr x" .
    obtain ty l1 where [simp]: "x = (ty, l1)" by (cases x)
    have l1: "length (src l1) < length (src l)"
      using x by (auto simp: reading_def obind_eq_Inr_iff dest: r_byte_shrinks)
    have e1: "(let a = length (lheap l2); (v, l) = enter_object x l2 in obind (r_elems ?r n a l) (\<lambda>l. return (v, l))) =
       (let a = length (lheap l2); (v, l) = enter_object x l2 in obind (r_elems ?r' n a l) (\<lambda>l. return (v, l)))"
      "(let a = length (lheap l2); (v, l) = enter_object x l2 in obind (r_members ?r mem n i a l) (\<lambda>l. return (v, l))) =
       (let a = length (lheap l2); (v, l) = enter_object x l2 in obind (r_members ?r' mem n i a l) (\<lambda>l. return (v, l)))"
      "(let a = length (lheap l2); (v, l) = enter_object x l2 in
          obind (reading r_long l) (\<lambda>(len, l). obind (r_ivars ?r (nat len) a l) (\<lambda>l. return (v, l)))) =
       (let a = length (lheap l2); (v, l) = enter_object x l2 in
          obind (reading r_long l) (\<lambda>(len, l). obind (r_ivars ?r' (nat len) a l) (\<lambda>l. return (v, l))))"
      if "length (src l2) \<le> length (src l1)" for l2 x n mem i
      subgoal using that l1 by (cases "enter_object x l2") (auto simp: Let_def e dest!: enter_object_src)
      subgoal using that l1 by (cases "enter_object x l2") (auto simp: Let_def e dest!: enter_object_src)
      subgoal using that l1 by (cases "enter_object x l2")
          (auto simp: Let_def dest!: enter_object_src shrinksD[OF reading_shrinks(2)] intro!: obind_cong e)
      done
    have ary: "obind (reading r_long l1) (\<lambda>(len, l). obind (check_ary_new2 len) (\<lambda>_.
         (let a = length (lheap l); (v, l) = enter_object (M_ary []) l in obind (r_elems ?r (nat len) a l) (\<lambda>l. return (v, l))))) =
       obind (reading r_long l1) (\<lambda>(len, l). obind (check_ary_new2 len) (\<lambda>_.
         (let a = length (lheap l); (v, l) = enter_object (M_ary []) l in obind (r_elems ?r' (nat len) a l) (\<lambda>l. return (v, l)))))"
      by (intro obind_cong refl) (auto simp only: prod.case split: prod.split dest!: shrinksD[OF reading_shrinks(2)] intro!: obind_cong e1(1))
    have struct: "(case c of
         K_struct mem \<Rightarrow> obind (reading r_long l2) (\<lambda>(len, l). obind (check_ary_new2 len) (\<lambda>_.
           if nat len > length mem then raise ArgError
           else (let a = length (lheap l); (v, l) = enter_object (M_struct path (map (\<lambda>m. (m, M_nil)) mem)) l in
              obind (r_members ?r mem (nat len) 0 a l) (\<lambda>l. return (v, l)))))
       | _ \<Rightarrow> raise Rb_bug) = (case c of
         K_struct mem \<Rightarrow> obind (reading r_long l2) (\<lambda>(len, l). obind (check_ary_new2 len) (\<lambda>_.
           if nat len > length mem then raise ArgError
           else (let a = length (lheap l); (v, l) = enter_object (M_struct path (map (\<lambda>m. (m, M_nil)) mem)) l in
              obind (r_members ?r' mem (nat len) 0 a l) (\<lambda>l. return (v, l)))))
       | _ \<Rightarrow> raise Rb_bug)" if l2: "length (src l2) \<le> length (src l1)" for c l2 path
      using l2 by (cases c) (auto simp only: class_kind.case prod.case split: prod.split
          dest!: shrinksD[OF reading_shrinks(2)] intro!: obind_cong if_cong e1(2))
    have obj: "obind (r_symbol l1) (\<lambda>(path, l). obind (path2class cls path) (\<lambda>k.
       if k \<noteq> K_object then raise ArgError
       else (let a = length (lheap l); (v, l) = enter_object (M_object path []) l in
          obind (reading r_long l) (\<lambda>(len, l). obind (r_ivars ?r (nat len) a l) (\<lambda>l. return (v, l)))))) =
      obind (r_symbol l1) (\<lambda>(path, l). obind (path2class cls path) (\<lambda>k.
       if k \<noteq> K_object then raise ArgError
       else (let a = length (lheap l); (v, l) = enter_object (M_object path []) l in
          obind (reading r_long l) (\<lambda>(len, l). obind (r_ivars ?r' (nat len) a l) (\<lambda>l. return (v, l))))))"
      by (intro obind_cong refl)
        (auto simp only: prod.case split: prod.split dest!: shrinksD[OF shrinks_symbols(3)] intro!: obind_cong if_cong e1(3))
    show ?case
      by (auto simp only: \<open>x = (ty, l1)\<close> prod.case split: prod.split dest!: shrinksD[OF shrinks_symbols(3)]
        intro!: if_cong ary obj obind_cong struct)
  qed
qed simp

section \<open>Serialisation as a whole\<close>

lemma vals_of_ren: "vals_of (ren_obj F x) = map (ren F) (vals_of x)"
  by (cases x) (simp_all add: comp_def)

text \<open>
  C28. A well-formed graph without objects that have no dump can always be dumped, however its objects
  refer to each other, and \<open>Marshal.load\<close> reads the bytes back as an isomorphic graph: the objects of
  the new heap are distinct objects of the old one with every reference renamed, and no reference is
  left without its object. The size of the dump must stay below half a gigabyte.
\<close>

theorem marshal_roundtrip:
  assumes "graph_ok cls h v" "\<forall>x \<in> set h. dumpable x" "few (graph_names h v)" "length h < 2 ^ 31 - 4" "classes_ok cls"
  shows "\<exists>out. marshal_dump h v (-1) = Inr out \<and> (length out < 2 ^ 29 \<longrightarrow>
    (\<exists>F. distinct F \<and> set F \<subseteq> {..< length h} \<and>
      marshal_load cls out = Inr (ren F v, map (\<lambda>a. ren_obj F (h ! a)) F) \<and> refs_in (length F) (ren F v) \<and>
      (\<forall>a \<in> set F. \<forall>u \<in> set (vals_of (h ! a)). refs_in (length F) (ren F u))))"
proof -
  obtain out where out: "marshal_dump h v (-1) = Inr out" using marshal_dump_total[OF assms(1-4)] by blast
  have ok: "\<forall>x \<in> set h. obj_ok cls x" "val_ok v" using assms(1) by (simp_all add: graph_ok_def)
  have "\<exists>F. distinct F \<and> set F \<subseteq> {..< length h} \<and>
      marshal_load cls out = Inr (ren F v, map (\<lambda>a. ren_obj F (h ! a)) F) \<and> refs_in (length F) (ren F v) \<and>
      (\<forall>a \<in> set F. \<forall>u \<in> set (vals_of (h ! a)). refs_in (length F) (ren F u))" if short: "length out < 2 ^ 29"
  proof -
    obtain F where F: "distinct F" "set F \<subseteq> {..< length h}"
      "marshal_load cls out = Inr (ren F v, map (\<lambda>a. ren_obj F (h ! a)) F)"
      by (rule marshal_load_dump[OF ok out short])
    from marshal_load_graph[OF assms(5) F(3)] show ?thesis using F by (intro exI[of _ F]) (auto simp: graph_ok_def vals_of_ren)
  qed
  then show ?thesis using out by blast
qed

text \<open>An array that holds itself, a string twice and a point with two coordinates.\<close>

definition sample_heap :: "mobj list" where
  "sample_heap = [M_ary [M_ref 0, M_ref 2, M_ref 1, M_ref 2, M_fix 300], M_object [80] [([64, 120], M_fix (-5)), ([64, 121], M_ref 2)], M_str [104, 105]]"

definition sample_classes :: world where
  "sample_classes = \<lparr>class_named = (\<lambda>path. if path = [80] then Some K_object else None), compiles = (\<lambda>s opts. True)\<rparr>"

theorem marshal_roundtrip_witness:
  "marshal_dump sample_heap (M_ref 0) (-1) = Inr [4, 8, 91, 10, 64, 0, 34, 7, 104, 105, 111, 58, 6, 80, 7,
     58, 7, 64, 120, 105, 246, 58, 7, 64, 121, 64, 6, 64, 6, 105, 2, 44, 1] \<and>
   (\<exists>F. distinct F \<and> set F \<subseteq> {..< length sample_heap} \<and>
      marshal_load sample_classes [4, 8, 91, 10, 64, 0, 34, 7, 104, 105, 111, 58, 6, 80, 7,
        58, 7, 64, 120, 105, 246, 58, 7, 64, 121, 64, 6, 64, 6, 105, 2, 44, 1] =
        Inr (ren F (M_ref 0), map (\<lambda>a. ren_obj F (sample_heap ! a)) F))"
proof -
  have 1: "marshal_dump sample_heap (M_ref 0) (-1) = Inr [4, 8, 91, 10, 64, 0, 34, 7, 104, 105, 111, 58, 6, 80, 7,
     58, 7, 64, 120, 105, 246, 58, 7, 64, 121, 64, 6, 64, 6, 105, 2, 44, 1]" by code_simp
  have "graph_ok sample_classes sample_heap (M_ref 0)"
    by (simp add: graph_ok_def sample_heap_def sample_classes_def slots_ok_def name_ok_def fixable_defs)
  moreover have "few (graph_names sample_heap (M_ref 0))"
    by (auto simp: few_def graph_names_def sample_heap_def card_insert_if)
  moreover have "classes_ok sample_classes" by (simp add: classes_ok_def sample_classes_def)
  ultimately show ?thesis using marshal_roundtrip[of sample_classes sample_heap "M_ref 0"] 1
    by (auto simp: sample_heap_def) 
qed

text \<open>
  C29. Whatever bytes are loaded, the result is a well-formed graph: no reference points outside the
  heap, numbers are in normal form, structures have the members of their class and objects are of
  classes that exist.
\<close>

theorem marshal_load_well_formed:
  assumes "classes_ok cls" "marshal_load cls s = Inr (v, h)"
  shows "graph_ok cls h v"
  by (rule marshal_load_graph[OF assms])

theorem marshal_load_well_formed_witness:
  "marshal_load sample_classes [4, 8, 91, 7, 105, 6, 64, 0] = Inr (M_ref 0, [M_ary [M_fix 1, M_ref 0]]) \<and>
   graph_ok sample_classes [M_ary [M_fix 1, M_ref 0]] (M_ref 0)"
proof -
  have "marshal_load sample_classes [4, 8, 91, 7, 105, 6, 64, 0] = Inr (M_ref 0, [M_ary [M_fix 1, M_ref 0]])" by code_simp
  moreover have "classes_ok sample_classes" by (simp add: classes_ok_def sample_classes_def)
  ultimately show ?thesis using marshal_load_well_formed by blast
qed


text \<open>
  The limit on the depth only refuses: a limit of 0 refuses every value, objects without a dump are
  refused under every other limit, and a dump that succeeds under some limit is the dump without one.
\<close>

theorem marshal_dump_limit:
  "marshal_dump h v 0 = Inl ArgError \<and>
   (a < length h \<and> h ! a = M_other \<and> limit \<noteq> 0 \<longrightarrow> marshal_dump h (M_ref a) limit = Inl TypeError) \<and>
   (marshal_dump h v limit = Inr out \<and> length h < 2 ^ 31 - 4 \<longrightarrow> marshal_dump h v (-1) = Inr out)"
proof (intro conjI impI)
  show "marshal_dump h v 0 = Inl ArgError" by (simp add: marshal_dump_def)
next
  assume a: "a < length h \<and> h ! a = M_other \<and> limit \<noteq> 0"
  then show "marshal_dump h (M_ref a) limit = Inl TypeError" by (simp add: marshal_dump_def Let_def)
next
  assume *: "marshal_dump h v limit = Inr out \<and> length h < 2 ^ 31 - 4"
  then obtain d where d: "w_object (length h + 2) h limit v \<lparr>dstr = [4, 8], dsyms = [], ddata = []\<rparr> = Inr d" "out = dstr d"
    by (auto simp: marshal_dump_def obind_eq_Inr_iff simp del: w_object.simps)
  have "w_object (length h + 2) h (-1) v \<lparr>dstr = [4, 8], dsyms = [], ddata = []\<rparr> = Inr d"
    by (rule w_object_unlimited[OF d(1)]) (use * in simp_all)
  then show "marshal_dump h v (-1) = Inr out" using d(2) unfolding marshal_dump_def by (simp del: w_object.simps)
qed

theorem marshal_dump_limit_witness:
  "marshal_dump [M_ary [M_nil], M_other] (M_ref 0) 1 = Inl ArgError \<and>
   marshal_dump [M_ary [M_nil], M_other] (M_ref 0) 2 = Inr [4, 8, 91, 6, 48] \<and>
   marshal_dump [M_ary [M_nil], M_other] (M_ref 0) (-1) = Inr [4, 8, 91, 6, 48] \<and>
   marshal_dump [M_ary [M_nil], M_other] (M_ref 1) 5 = Inl TypeError"
proof -
  have "marshal_dump [M_ary [M_nil], M_other] (M_ref 0) 1 = Inl ArgError" by code_simp
  moreover have "marshal_dump [M_ary [M_nil], M_other] (M_ref 0) 2 = Inr [4, 8, 91, 6, 48]" by code_simp
  ultimately show ?thesis
    using marshal_dump_limit[of "[M_ary [M_nil], M_other]" "M_ref 0" 1 2 "[4, 8, 91, 6, 48]"]
      marshal_dump_limit[of "[M_ary [M_nil], M_other]" "M_ref 1" 1 5 "[]"] by simp
qed

text \<open>
  C30. Loading ends, on every input: each object takes a byte, so that a bound on the depth above the
  number of bytes is never used up, and any such bound gives the same outcome.
\<close>

theorem marshal_load_terminates:
  assumes "length s < m"
  shows "marshal_load cls t \<noteq> Inl Too_deep \<and>
    r_object m cls \<lparr>src = s, lsyms = sy, ldata = da, lheap = he\<rparr> \<noteq> Inl Too_deep \<and>
    marshal_load cls (4 # minor # s) =
    (if uint minor > 8 then Inl TypeError
     else obind (r_object m cls \<lparr>src = s, lsyms = [], ldata = [], lheap = []\<rparr>) (\<lambda>(v, l). return (v, lheap l)))"
proof (intro conjI)
  have f: "r_object n cls l \<noteq> Inl Too_deep" if "length (src l) < n" for n l
    using object_fine[of n cls] that by (simp add: fine_def)
  show "marshal_load cls t \<noteq> Inl Too_deep"
    using f[of _ "Suc _"] by (auto simp: marshal_load_def obind_eq_Inl_iff numbers_fine simp del: r_object.simps)
  show "r_object m cls \<lparr>src = s, lsyms = sy, ldata = da, lheap = he\<rparr> \<noteq> Inl Too_deep" using f assms by simp
  show "marshal_load cls (4 # minor # s) =
    (if uint minor > 8 then Inl TypeError
     else obind (r_object m cls \<lparr>src = s, lsyms = [], ldata = [], lheap = []\<rparr>) (\<lambda>(v, l). return (v, lheap l)))"
    using r_object_fuel[of "\<lparr>src = s, lsyms = [], ldata = [], lheap = []\<rparr>" "Suc (length s)" m cls] assms
    by (simp add: marshal_load_def r_byte_def del: r_object.simps)
qed

theorem marshal_load_terminates_witness:
  "marshal_load sample_classes [4, 8, 91, 6, 48] =
     obind (r_object 4 sample_classes \<lparr>src = [91, 6, 48], lsyms = [], ldata = [], lheap = []\<rparr>) (\<lambda>(v, l). return (v, lheap l)) \<and>
   marshal_load sample_classes [4, 8, 91, 6, 91, 6, 91, 6] \<noteq> Inl Too_deep"
  using marshal_load_terminates[of "[91, 6, 48]" 4 sample_classes "[4, 8, 91, 6, 91, 6, 91, 6]" "[]" "[]" "[]" 8] by simp

text \<open>
  C31. The dump of a string that is cut off inside the text, by two bytes or more, makes the loader copy
  bytes from behind the end of the input: the length is compared with nothing.
\<close>

theorem marshal_load_overread:
  assumes "w_bytes t = Inr bs" "fits (length t)" "0 < k" "k + 1 < length t"
  shows "marshal_load cls ([4, 8, 34] @ take (length bs - (length t - k)) bs) = Inl Undefined"
proof -
  obtain l where l: "w_long (int (length t)) = Inr l" "bs = l @ t"
    using assms(1,2) by (auto simp: w_bytes_def fits_s32 obind_eq_Inr_iff)
  have "r_long (l @ take k t) = Inr (int (length t), take k t)"
    using w_long_read[OF l(1) fits_s32(2,3)[OF assms(2)]] by blast
  moreover have "take (length bs - (length t - k)) bs = l @ take k t" using l(2) assms(4) by simp
  moreover have "r_bytes0 (int (length t)) (take k t) = Inl Undefined" using assms(3,4) by (auto simp: r_bytes0_def)
  ultimately show ?thesis by (simp add: marshal_load_def r_byte_def reading_def r_bytes_def)
qed

theorem marshal_load_overread_witness:
  "marshal_load sample_classes [4, 8, 34, 10, 97] = Inl Undefined"
proof -
  have "w_bytes [97, 98, 99, 100, 101] = Inr [10, 97, 98, 99, 100, 101]" by code_simp
  from marshal_load_overread[OF this, of 1 sample_classes] show ?thesis by (simp add: fits_def)
qed


end
