(* ===== verification/RString.thy ===== *)
theory RString
  imports RArray_Slice Pack
begin

unbundle bit_operations_syntax

text \<open>
  Strings, \<^verbatim>\<open>src/ruby/string.c\<close>: comparison, hashing, searching (with \<open>rb_memsearch\<close> of \<^verbatim>\<open>re.c\<close>), element
  reference and assignment. A string is its bytes with the flags that guard it against changes; how the
  bytes are stored and shared is not modelled. The variable \<open>$=\<close> (\<open>ruby_ignorecase\<close>) is an argument.
\<close>

section \<open>Strings\<close>

record rstring =
  sbytes :: "byte list"
  sfrozen :: bool
  stmplock :: bool
  stainted :: bool

definition rb_str_modify :: "int \<Rightarrow> rstring \<Rightarrow> unit outcome" where
  "rb_str_modify safe str =
     (if stmplock str then raise RuntimeError
      else if sfrozen str then raise FrozenError
      else if \<not> stainted str \<and> safe \<ge> 4 then raise SecurityError
      else return ())"

definition slen :: "rstring \<Rightarrow> int" where
  "slen str = int (length (sbytes str))"

section \<open>Comparison\<close>

definition casetable :: "byte \<Rightarrow> byte" where
  "casetable c = (if 65 \<le> c \<and> c \<le> 90 then c + 32 else c)"

text \<open>
  The table is indexed with the character converted from a signed \<open>char\<close>: a byte above 127 is an index
  far outside it.
\<close>

fun rb_memcicmp :: "byte list \<Rightarrow> byte list \<Rightarrow> int outcome" where
  "rb_memcicmp (a # s) (b # t) =
     (if a \<ge> 128 \<or> b \<ge> 128 then raise Undefined
      else (let tmp = uint (casetable a) - uint (casetable b) in
            if tmp \<noteq> 0 then return tmp else rb_memcicmp s t))"
| "rb_memcicmp _ _ = return 0"

fun memcmp :: "byte list \<Rightarrow> byte list \<Rightarrow> int" where
  "memcmp (a # s) (b # t) = (if a \<noteq> b then uint a - uint b else memcmp s t)"
| "memcmp _ _ = 0"

definition rb_memcmp :: "bool \<Rightarrow> byte list \<Rightarrow> byte list \<Rightarrow> int outcome" where
  "rb_memcmp ic s t = (if \<not> ic then return (memcmp s t) else rb_memcicmp s t)"

definition cmp_result :: "byte list \<Rightarrow> byte list \<Rightarrow> int \<Rightarrow> int" where
  "cmp_result s t r =
     (if r = 0 then
        (if length s = length t then 0 else if length s > length t then 1 else -1)
      else if r > 0 then 1 else -1)"

definition rb_str_cmp :: "bool \<Rightarrow> byte list \<Rightarrow> byte list \<Rightarrow> int outcome" where
  "rb_str_cmp ic s t =
     (let len = min (length s) (length t) in
      obind (rb_memcmp ic (take len s) (take len t)) (\<lambda>r. return (cmp_result s t r)))"

definition rb_str_casecmp :: "byte list \<Rightarrow> byte list \<Rightarrow> int outcome" where
  "rb_str_casecmp s t =
     (let len = min (length s) (length t) in
      obind (rb_memcicmp (take len s) (take len t)) (\<lambda>r. return (cmp_result s t r)))"

definition rb_str_equal :: "bool \<Rightarrow> byte list \<Rightarrow> byte list \<Rightarrow> bool outcome" where
  "rb_str_equal ic s t =
     (if length s = length t then obind (rb_str_cmp ic s t) (\<lambda>r. return (r = 0)) else return False)"

definition rb_str_eql :: "byte list \<Rightarrow> byte list \<Rightarrow> bool" where
  "rb_str_eql s t \<longleftrightarrow>
     length s = length t \<and>
     (let len = min (length s) (length t) in memcmp (take len s) (take len t) = 0)"

definition rb_str_hash :: "byte list \<Rightarrow> int" where
  "rb_str_hash s =
     (let key = foldl (\<lambda>key c. key * 65599 + scast c) (0 :: 32 word) s in
      sint (key + signed_drop_bit 5 key))"

definition rb_str_hash_m :: "byte list \<Rightarrow> value" where
  "rb_str_hash_m s = LONG2FIX (rb_str_hash s)"

section \<open>Searching\<close>

text \<open>A rolling hash over the first \<open>d\<close> bytes of the window selects the places to compare.\<close>

definition KR_REHASH :: "nat \<Rightarrow> 32 word \<Rightarrow> 32 word \<Rightarrow> 32 word \<Rightarrow> 32 word" where
  "KR_REHASH d a b h = push_bit 1 h - push_bit d a + b"

definition kr_char :: "bool \<Rightarrow> byte \<Rightarrow> 32 word" where
  "kr_char ic c = (if ic then scast (casetable c) else ucast c)"

definition kr_hash :: "bool \<Rightarrow> nat \<Rightarrow> byte list \<Rightarrow> 32 word" where
  "kr_hash ic d s = foldl (\<lambda>h c. KR_REHASH d 0 (kr_char ic c) h) 0 (take d s)"

function kr_search :: "bool \<Rightarrow> byte list \<Rightarrow> nat \<Rightarrow> 32 word \<Rightarrow> 32 word \<Rightarrow> byte list \<Rightarrow> int \<Rightarrow> int outcome" where
  "kr_search ic x d hx hy s pos =
     obind (if hx \<noteq> hy then return True
            else obind (rb_memcmp ic x (take (length x) s)) (\<lambda>r. return (r \<noteq> 0))) (\<lambda>differ.
     if \<not> differ then return pos
     else if length s \<le> length x then return (-1)
     else kr_search ic x d hx (KR_REHASH d (kr_char ic (s ! 0)) (kr_char ic (s ! d)) hy) (tl s) (pos + 1))"
  by pat_completeness auto
termination
  by (relation "measure (\<lambda>(ic, x, d, hx, hy, s, pos). length s)") auto

declare kr_search.simps [simp del]

definition rb_memsearch :: "bool \<Rightarrow> byte list \<Rightarrow> byte list \<Rightarrow> int outcome" where
  "rb_memsearch ic x y =
     (if length x > length y then return (-1)
      else
        (let d = min 31 (length x) in
         if length y = length x then
           obind (rb_memcmp ic x y) (\<lambda>r. return (if r = 0 then 0 else -1))
         else kr_search ic x d (kr_hash ic d x) (kr_hash ic d y) y 0))"

definition rb_str_index :: "bool \<Rightarrow> byte list \<Rightarrow> byte list \<Rightarrow> int \<Rightarrow> int outcome" where
  "rb_str_index ic str sub offset =
     (let len = int (length str); offset = (if offset < 0 then offset + len else offset) in
      if offset < 0 then return (-1)
      else if len - offset < int (length sub) then return (-1)
      else if sub = [] then return offset
      else obind (rb_memsearch ic sub (drop (nat offset) str)) (\<lambda>pos.
           return (if pos < 0 then pos else pos + offset)))"

fun find_from :: "byte list \<Rightarrow> int \<Rightarrow> int \<Rightarrow> int option" where
  "find_from [] c pos = None"
| "find_from (b # s) c pos = (if uint b = c then Some pos else find_from s c (pos + 1))"

datatype sub_arg = Sub_str "byte list" | Sub_char int | Sub_other

text \<open>A position found, or \<open>nil\<close>.\<close>

definition pos_or_nil :: "int \<Rightarrow> int option" where
  "pos_or_nil pos = (if pos = -1 then None else Some pos)"

definition rb_str_index_m :: "bool \<Rightarrow> byte list \<Rightarrow> sub_arg \<Rightarrow> int option \<Rightarrow> int option outcome" where
  "rb_str_index_m ic str sub initpos =
     (let pos = (case initpos of None \<Rightarrow> 0 | Some p \<Rightarrow> p);
          pos = (if pos < 0 then pos + int (length str) else pos) in
      if pos < 0 then return None
      else case sub of
        Sub_char c \<Rightarrow> return (find_from (drop (nat pos) str) c pos)
      | Sub_str s \<Rightarrow> obind (rb_str_index ic str s pos) (\<lambda>p. return (pos_or_nil p))
      | Sub_other \<Rightarrow> raise TypeError)"

text \<open>The search from the right: the window starts at \<open>s\<close> and moves down.\<close>

fun rindex_loop :: "bool \<Rightarrow> byte list \<Rightarrow> byte list \<Rightarrow> nat \<Rightarrow> int outcome" where
  "rindex_loop ic str sub 0 = return (-1)"
| "rindex_loop ic str sub (Suc s) =
     obind (rb_memcmp ic (take (length sub) (drop s str)) sub) (\<lambda>r.
     if r = 0 then return (int s) else rindex_loop ic str sub s)"

definition rb_str_rindex :: "bool \<Rightarrow> byte list \<Rightarrow> byte list \<Rightarrow> int \<Rightarrow> int outcome" where
  "rb_str_rindex ic str sub pos =
     (let n = int (length str); len = int (length sub) in
      if n < len then return (-1)
      else
        (let pos = (if n - pos < len then n - len else pos) in
         if sub \<noteq> [] then rindex_loop ic str sub (nat (pos + 1)) else return pos))"

fun find_back :: "byte list \<Rightarrow> int \<Rightarrow> nat \<Rightarrow> int option" where
  "find_back str c 0 = None"
| "find_back str c (Suc p) = (if uint (str ! p) = c then Some (int p) else find_back str c p)"

definition rb_str_rindex_m :: "bool \<Rightarrow> byte list \<Rightarrow> sub_arg \<Rightarrow> int option \<Rightarrow> int option outcome" where
  "rb_str_rindex_m ic str sub position =
     (let n = int (length str);
          pos = (case position of None \<Rightarrow> n | Some p \<Rightarrow> if p < 0 then p + n else p) in
      if pos < 0 then return None
      else
        (let pos = (if pos > n then n else pos) in
         case sub of
           Sub_str s \<Rightarrow> obind (rb_str_rindex ic str s pos) (\<lambda>p. return (if p \<ge> 0 then Some p else None))
         | Sub_char c \<Rightarrow>
             if pos = n then (if pos = 0 then return None else return (find_back str c (nat pos)))
             else return (find_back str c (nat (pos + 1)))
         | Sub_other \<Rightarrow> raise TypeError))"

definition rb_str_include :: "bool \<Rightarrow> byte list \<Rightarrow> sub_arg \<Rightarrow> bool outcome" where
  "rb_str_include ic str arg =
     (case arg of
        Sub_char c \<Rightarrow> return (word_of_int c \<in> set str)
      | Sub_str s \<Rightarrow> obind (rb_str_index ic str s 0) (\<lambda>i. return (i \<noteq> -1))
      | Sub_other \<Rightarrow> raise Coerce)"

section \<open>Element reference\<close>

text \<open>
  A new string of \<open>len\<close> bytes from position \<open>beg\<close> of another. The size is checked when memory for it
  and the NUL behind it is allocated; the bytes copied are not.
\<close>

definition str_new_at :: "byte list \<Rightarrow> int \<Rightarrow> int \<Rightarrow> byte list outcome" where
  "str_new_at str beg len =
     (if len < 0 then raise ArgError
      else if s32 (len + 1) < 0 then raise NoMemError
      else if 0 \<le> beg \<and> beg + len \<le> int (length str) then return (take (nat len) (drop (nat beg) str))
      else raise Undefined)"

definition rb_str_substr :: "byte list \<Rightarrow> int \<Rightarrow> int \<Rightarrow> byte list option outcome" where
  "rb_str_substr str beg len =
     (let n = int (length str) in
      if len < 0 then return None
      else if beg > n then return None
      else
        (let beg = (if beg < 0 then beg + n else beg) in
         if beg < 0 then return None
         else
           (let len = (if s32 (beg + len) > n then n - beg else len);
                len = (if len < 0 then 0 else len) in
            if len = 0 then return (Some [])
            else obind (str_new_at str beg len) (\<lambda>s. return (Some s)))))"

text \<open>An index: a string, or another value together with the word that holds it.\<close>

datatype str_index = Ix_val VALUE "32 word" | Ix_str "byte list"

datatype str_result = Res_nil | Res_byte int | Res_str "byte list"

definition str_or_nil :: "byte list option \<Rightarrow> str_result" where
  "str_or_nil r = (case r of None \<Rightarrow> Res_nil | Some s \<Rightarrow> Res_str s)"

definition byte_at :: "byte list \<Rightarrow> int \<Rightarrow> str_result" where
  "byte_at str idx =
     (let idx = (if idx < 0 then int (length str) + idx else idx) in
      if idx < 0 \<or> int (length str) \<le> idx then Res_nil else Res_byte (uint (str ! nat idx)))"

definition rb_str_aref :: "bool \<Rightarrow> byte list \<Rightarrow> str_index \<Rightarrow> str_result outcome" where
  "rb_str_aref ic str indx =
     (case indx of
        Ix_str s \<Rightarrow> obind (rb_str_index ic str s 0) (\<lambda>i. return (if i \<noteq> -1 then Res_str s else Res_nil))
      | Ix_val (Num (Fixnum idx)) w \<Rightarrow> return (byte_at str idx)
      | Ix_val v w \<Rightarrow>
          obind (rb_range_beg_len v (int (length str)) 0) (\<lambda>a.
          case a of
            Out_of_range \<Rightarrow> return Res_nil
          | Beg_len beg len \<Rightarrow> obind (rb_str_substr str beg len) (\<lambda>s. return (str_or_nil s))
          | No_range \<Rightarrow> obind (rb_num2long v) (\<lambda>idx. return (byte_at str idx))))"

datatype str_args = One str_index | Two VALUE VALUE

definition rb_str_aref_m :: "bool \<Rightarrow> byte list \<Rightarrow> str_args \<Rightarrow> str_result outcome" where
  "rb_str_aref_m ic str args =
     (case args of
        Two a b \<Rightarrow>
          obind (rb_num2long a) (\<lambda>beg. obind (rb_num2long b) (\<lambda>len.
          obind (rb_str_substr str beg len) (\<lambda>s. return (str_or_nil s))))
      | One ix \<Rightarrow> rb_str_aref ic str ix)"

section \<open>Element assignment\<close>

datatype str_val = Val_fix int | Val_str "byte list" | Val_other

text \<open>
  The bytes from \<open>beg\<close> on, \<open>len\<close> of them, are replaced. When the sum of the two wraps, the clipping is
  missed and the bytes are moved from outside the string.
\<close>

definition rb_str_splice :: "int \<Rightarrow> rstring \<Rightarrow> int \<Rightarrow> int \<Rightarrow> str_val \<Rightarrow> rstring outcome" where
  "rb_str_splice safe str beg len val =
     (if len < 0 then raise IndexError
      else case val of
        Val_str v \<Rightarrow>
          obind (rb_str_modify safe str) (\<lambda>_.
          (let n = slen str in
           if n < beg then raise IndexError
           else if beg < 0 \<and> - beg > n then raise IndexError
           else
             (let beg = (if beg < 0 then beg + n else beg);
                  len = (if n < s32 (beg + len) then n - beg else len) in
              if beg + len > n then raise Undefined
              else return (str\<lparr>sbytes := take (nat beg) (sbytes str) @ v @ drop (nat (beg + len)) (sbytes str)\<rparr>))))
      | _ \<Rightarrow> raise Coerce)"

definition set_byte :: "int \<Rightarrow> rstring \<Rightarrow> int \<Rightarrow> str_val \<Rightarrow> rstring outcome" where
  "set_byte safe str idx val =
     (let n = slen str in
      if n \<le> idx then raise IndexError
      else if idx < 0 \<and> - idx > n then raise IndexError
      else
        (let idx = (if idx < 0 then idx + n else idx) in
         case val of
           Val_fix c \<Rightarrow>
             obind (rb_str_modify safe str) (\<lambda>_. return (str\<lparr>sbytes := (sbytes str)[nat idx := word_of_int c]\<rparr>))
         | _ \<Rightarrow> rb_str_splice safe str idx 1 val))"

text \<open>
  An index that is neither a fixnum, a string nor a range is converted to a number, and then the word
  that holds the object is taken for a fixnum all the same. With \<open>err = 2\<close> a range that does not fit
  raises, so \<open>Out_of_range\<close>, which would leave \<open>beg\<close> and \<open>len\<close> unset, does not come back.
\<close>

definition FIX2LONG :: "32 word \<Rightarrow> int" where
  "FIX2LONG w = drop_bit 1 (sint w)"

definition rb_str_aset :: "bool \<Rightarrow> int \<Rightarrow> rstring \<Rightarrow> str_index \<Rightarrow> str_val \<Rightarrow> rstring outcome" where
  "rb_str_aset ic safe str indx val =
     (case indx of
        Ix_val (Num (Fixnum idx)) w \<Rightarrow> set_byte safe str idx val
      | Ix_str s \<Rightarrow>
          obind (rb_str_index ic (sbytes str) s 0) (\<lambda>beg.
          if beg < 0 then raise IndexError else rb_str_splice safe str beg (int (length s)) val)
      | Ix_val v w \<Rightarrow>
          obind (rb_range_beg_len v (slen str) 2) (\<lambda>a.
          case a of
            Beg_len beg len \<Rightarrow> rb_str_splice safe str beg len val
          | Out_of_range \<Rightarrow> raise Undefined
          | No_range \<Rightarrow> obind (rb_num2long v) (\<lambda>idx. set_byte safe str (FIX2LONG w) val)))"

definition rb_str_aset_m :: "bool \<Rightarrow> int \<Rightarrow> rstring \<Rightarrow> str_args \<Rightarrow> str_val \<Rightarrow> rstring outcome" where
  "rb_str_aset_m ic safe str args val =
     (case args of
        Two a b \<Rightarrow> obind (rb_num2long a) (\<lambda>beg. obind (rb_num2long b) (\<lambda>len. rb_str_splice safe str beg len val))
      | One ix \<Rightarrow> rb_str_aset ic safe str ix val)"

definition rb_str_insert :: "int \<Rightarrow> rstring \<Rightarrow> VALUE \<Rightarrow> str_val \<Rightarrow> rstring outcome" where
  "rb_str_insert safe str idx str2 =
     obind (rb_num2long idx) (\<lambda>pos.
     rb_str_splice safe str (if pos = -1 then slen str else if pos < 0 then pos + 1 else pos) 0 str2)"

definition rb_str_slice_bang :: "bool \<Rightarrow> int \<Rightarrow> rstring \<Rightarrow> str_args \<Rightarrow> (str_result \<times> rstring) outcome" where
  "rb_str_slice_bang ic safe str args =
     obind (rb_str_aref_m ic (sbytes str) args) (\<lambda>result.
     if result = Res_nil then return (result, str)
     else obind (rb_str_aset_m ic safe str args (Val_str [])) (\<lambda>str. return (result, str)))"


section \<open>Comparison is the order of byte strings\<close>

lemma memcmp_eq_0: "length s = length t \<Longrightarrow> memcmp s t = 0 \<longleftrightarrow> s = t"
proof (induction s t rule: memcmp.induct)
  case (1 a s b t)
  then show ?case by (simp add: uint_word_arith_bintrs word_uint_eq_iff)
qed auto

lemma rb_str_eql_iff: "rb_str_eql s t \<longleftrightarrow> s = t"
  by (auto simp: rb_str_eql_def memcmp_eq_0)

definition byte_less :: "(byte list \<times> byte list) set" where
  "byte_less = lexord {(a, b). a < b}"

lemma cmp_bytes:
  "cmp_result s t (memcmp (take (min (length s) (length t)) s) (take (min (length s) (length t)) t)) =
     (if s = t then 0 else if (s, t) \<in> byte_less then -1 else 1)"
proof (induction s arbitrary: t)
  case Nil
  then show ?case by (cases t) (simp_all add: cmp_result_def byte_less_def)
next
  case (Cons a s)
  show ?case
  proof (cases t)
    case Nil
    then show ?thesis by (simp add: cmp_result_def byte_less_def)
  next
    case (Cons b u)
    have "uint a < uint b \<longleftrightarrow> a < b" "uint a > uint b \<longleftrightarrow> b < a" by (simp_all add: word_less_def)
    then show ?thesis using Cons Cons.IH[of u] by (auto simp: cmp_result_def byte_less_def split: if_splits)
  qed
qed

lemma rb_str_cmp_bytes: "rb_str_cmp False s t = Inr (if s = t then 0 else if (s, t) \<in> byte_less then -1 else 1)"
  using cmp_bytes[of s t] by (simp add: rb_str_cmp_def rb_memcmp_def Let_def)

text \<open>On bytes below 128 the comparison without case is that of the strings in lower case.\<close>

lemma rb_memcicmp_ascii:
  "length s = length t \<Longrightarrow> \<forall>c \<in> set s \<union> set t. c < 128 \<Longrightarrow>
     rb_memcicmp s t = Inr (memcmp (map casetable s) (map casetable t))"
proof (induction s t rule: rb_memcicmp.induct)
  case (1 a s b t)
  then have "a < 128" "b < 128" by simp_all
  then have "\<not> 128 \<le> a" "\<not> 128 \<le> b" by (simp_all add: not_le)
  then show ?case using 1 by (auto simp: Let_def word_uint_eq_iff)
qed auto

lemma rb_str_casecmp_ascii:
  assumes "\<forall>c \<in> set s \<union> set t. c < 128"
  shows "rb_str_casecmp s t = rb_str_cmp False (map casetable s) (map casetable t)"
proof -
  have "\<forall>c \<in> set (take n s) \<union> set (take n t). c < 128" for n using assms by (auto dest: in_set_takeD)
  then show ?thesis
    by (simp add: rb_str_casecmp_def rb_str_cmp_def rb_memcmp_def rb_memcicmp_ascii take_map cmp_result_def Let_def)
qed

lemma memcmp_map_eq_0: "length s = length t \<Longrightarrow> memcmp (map f s) (map f t) = 0 \<longleftrightarrow> map f s = map f t"
  by (rule memcmp_eq_0) simp

section \<open>Searching finds the first occurrence\<close>

definition fold_case :: "bool \<Rightarrow> byte \<Rightarrow> byte" where
  "fold_case ic = (if ic then casetable else id)"

definition plain_case :: "bool \<Rightarrow> byte list \<Rightarrow> bool" where
  "plain_case ic s \<longleftrightarrow> ic \<longrightarrow> (\<forall>c \<in> set s. c < 128)"

definition occurs_at :: "bool \<Rightarrow> byte list \<Rightarrow> byte list \<Rightarrow> nat \<Rightarrow> bool" where
  "occurs_at ic x y i \<longleftrightarrow> i + length x \<le> length y \<and> map (fold_case ic) (take (length x) (drop i y)) = map (fold_case ic) x"

text \<open>\<open>r\<close> is the first place where \<open>x\<close> occurs in \<open>y\<close>, or -1.\<close>

definition first_place :: "bool \<Rightarrow> byte list \<Rightarrow> byte list \<Rightarrow> int \<Rightarrow> bool" where
  "first_place ic x y r \<longleftrightarrow>
     r = -1 \<and> (\<forall>i. \<not> occurs_at ic x y i) \<or> (\<exists>i. r = int i \<and> occurs_at ic x y i \<and> (\<forall>j < i. \<not> occurs_at ic x y j))"

lemma plain_case_simps [simp]:
  "plain_case ic (a # s) \<Longrightarrow> plain_case ic s" "plain_case ic s \<Longrightarrow> plain_case ic (tl s)"
  "plain_case ic s \<Longrightarrow> plain_case ic (take n s)" "plain_case ic s \<Longrightarrow> plain_case ic (drop n s)"
  by (auto simp: plain_case_def dest: in_set_takeD in_set_dropD list.set_sel(2)) (metis list.set_sel(2) tl_Nil)

lemma rb_memcmp_window:
  assumes "length x = length w" "plain_case ic x" "plain_case ic w"
  shows "\<exists>r. rb_memcmp ic x w = Inr r \<and> (r = 0 \<longleftrightarrow> map (fold_case ic) x = map (fold_case ic) w)"
proof (cases ic)
  case True
  then have "rb_memcicmp x w = Inr (memcmp (map casetable x) (map casetable w))"
    using assms by (intro rb_memcicmp_ascii) (auto simp: plain_case_def)
  then show ?thesis using True memcmp_map_eq_0[OF assms(1), of casetable] by (simp add: rb_memcmp_def fold_case_def)
qed (use assms in \<open>simp add: rb_memcmp_def fold_case_def memcmp_eq_0\<close>)

text \<open>The hash is a number in base 2, so that the step is exact.\<close>

definition kr_sum :: "32 word list \<Rightarrow> 32 word" where
  "kr_sum cs = foldl (\<lambda>h c. 2 * h + c) 0 cs"

lemma kr_sum_from: "foldl (\<lambda>h c. 2 * h + c) (a :: 32 word) cs = 2 ^ length cs * a + kr_sum cs"
proof (induction cs arbitrary: a)
  case (Cons c cs)
  have 1: "foldl (\<lambda>h c. 2 * h + c) b (c # cs) = 2 ^ length cs * (2 * b + c) + kr_sum cs" for b
    using Cons[of "2 * b + c"] by simp
  have "kr_sum (c # cs) = 2 ^ length cs * c + kr_sum cs" unfolding kr_sum_def[of "c # cs"] 1 by simp
  then show ?case unfolding 1 by (simp add: algebra_simps)
qed (simp add: kr_sum_def)

lemma kr_sum_Cons: "kr_sum (c # cs) = 2 ^ length cs * c + kr_sum cs"
  using kr_sum_from[of c cs] by (simp add: kr_sum_def[of "c # cs"])

lemma kr_sum_snoc: "kr_sum (cs @ [c]) = 2 * kr_sum cs + c"
  by (simp add: kr_sum_def)

lemma kr_hash_sum: "kr_hash ic d s = kr_sum (map (kr_char ic) (take d s))"
proof -
  have "foldl (\<lambda>h c. KR_REHASH d 0 (kr_char ic c) h) a t = foldl (\<lambda>h c. 2 * h + c) a (map (kr_char ic) t)" for a t
    by (induction t arbitrary: a) (simp_all add: KR_REHASH_def push_bit_eq_mult mult.commute)
  then show ?thesis by (simp add: kr_hash_def kr_sum_def)
qed

lemma kr_step:
  assumes "d < length s" "0 < d"
  shows "KR_REHASH d (kr_char ic (s ! 0)) (kr_char ic (s ! d)) (kr_hash ic d s) = kr_hash ic d (tl s)"
proof -
  obtain a r where s: "s = a # r" using assms by (cases s) auto
  obtain e where d: "d = Suc e" using assms by (cases d) auto
  have "take d (tl s) = take e r @ [s ! d]" using assms s d by (simp add: take_Suc_conv_app_nth)
  then show ?thesis
    using assms s d by (simp add: kr_hash_sum KR_REHASH_def kr_sum_Cons kr_sum_snoc push_bit_eq_mult algebra_simps)
qed

lemma kr_hash_cong:
  assumes "map (fold_case ic) x = map (fold_case ic) w"
  shows "kr_hash ic d x = kr_hash ic d w"
proof -
  have "map (kr_char ic) x = map (kr_char ic) w"
  proof (cases ic)
    case True
    then have "map (\<lambda>c. scast c :: 32 word) (map casetable x) = map scast (map casetable w)" using assms by (simp add: fold_case_def)
    then show ?thesis using True by (simp add: kr_char_def [abs_def] comp_def)
  qed (use assms in \<open>simp add: fold_case_def\<close>)
  then show ?thesis by (simp add: kr_hash_sum take_map[symmetric])
qed


lemma occurs_at_0: "length x \<le> length s \<Longrightarrow> occurs_at ic x s 0 \<longleftrightarrow> map (fold_case ic) x = map (fold_case ic) (take (length x) s)"
  by (auto simp: occurs_at_def)

lemma occurs_at_Suc: "s \<noteq> [] \<Longrightarrow> occurs_at ic x s (Suc i) \<longleftrightarrow> occurs_at ic x (tl s) i"
  by (cases s) (auto simp: occurs_at_def)

lemma first_place_step:
  assumes "\<not> occurs_at ic x s 0" "s \<noteq> []" "first_place ic x (tl s) r"
  shows "first_place ic x s (if r = -1 then -1 else r + 1)"
proof -
  have all: "(\<forall>i. \<not> occurs_at ic x s i) \<longleftrightarrow> (\<forall>i. \<not> occurs_at ic x (tl s) i)"
    using assms(1,2) occurs_at_Suc[OF assms(2)] by (metis not0_implies_Suc)
  have "\<forall>j < Suc i. \<not> occurs_at ic x s j" if "\<forall>j < i. \<not> occurs_at ic x (tl s) j" for i
    using that assms(1) occurs_at_Suc[OF assms(2)] by (metis less_Suc_eq_0_disj)
  note below = this
  from assms(3) consider "r = -1" "\<forall>i. \<not> occurs_at ic x (tl s) i"
    | i where "r = int i" "occurs_at ic x (tl s) i" "\<forall>j < i. \<not> occurs_at ic x (tl s) j"
    unfolding first_place_def by blast
  then show ?thesis
  proof cases
    case 1
    then show ?thesis using all by (simp add: first_place_def)
  next
    case (2 i)
    then have "occurs_at ic x s (Suc i) \<and> (\<forall>j < Suc i. \<not> occurs_at ic x s j)" using below occurs_at_Suc[OF assms(2)] by blast
    moreover have "(if r = -1 then -1 else r + 1) = int (Suc i)" using 2(1) by simp
    ultimately show ?thesis unfolding first_place_def by metis
  qed
qed

lemma kr_search_correct:
  assumes "length x \<le> length s" "0 < length x" "plain_case ic x" "plain_case ic s" "d = min 31 (length x)"
  shows "\<exists>r. kr_search ic x d (kr_hash ic d x) (kr_hash ic d s) s pos = Inr (if r = -1 then -1 else r + pos) \<and> first_place ic x s r"
  using assms(1,4)
proof (induction "length s" arbitrary: s pos)
  case 0
  then show ?case using assms(2) by simp
next
  case (Suc n)
  let ?w = "take (length x) s"
  obtain r where r: "rb_memcmp ic x ?w = Inr r" "r = 0 \<longleftrightarrow> map (fold_case ic) x = map (fold_case ic) ?w"
    using rb_memcmp_window[of x ?w ic] Suc.prems assms(3) by auto
  have d: "0 < d" "d \<le> length x" using assms(2,5) by simp_all
  have take_w: "kr_hash ic d ?w = kr_hash ic d s" using d(2) by (simp add: kr_hash_def min_absorb1)
  show ?case
  proof (cases "occurs_at ic x s 0")
    case True
    then have eq: "map (fold_case ic) x = map (fold_case ic) ?w" using occurs_at_0[OF Suc.prems(1)] by simp
    then have "kr_hash ic d x = kr_hash ic d s" using kr_hash_cong[OF eq, of d] take_w by simp
    then have "kr_search ic x d (kr_hash ic d x) (kr_hash ic d s) s pos = Inr pos" using r eq by (subst kr_search.simps) simp
    moreover have "first_place ic x s 0" using True by (auto simp: first_place_def)
    ultimately show ?thesis by (intro exI[of _ 0]) simp
  next
    case False
    then have ne: "r \<noteq> 0" using occurs_at_0[OF Suc.prems(1)] r(2) by simp
    show ?thesis
    proof (cases "length s \<le> length x")
      case True
      then have "\<not> occurs_at ic x s i" for i using False Suc.prems(1) assms(2) by (cases i) (auto simp: occurs_at_def)
      then have "first_place ic x s (-1)" by (simp add: first_place_def)
      moreover have "kr_search ic x d (kr_hash ic d x) (kr_hash ic d s) s pos = Inr (-1)" using True r ne by (subst kr_search.simps) simp
      ultimately show ?thesis by (intro exI[of _ "-1"]) simp
    next
      case longer: False
      have s: "s \<noteq> []" "n = length (tl s)" "length x \<le> length (tl s)" using Suc longer by auto
      have ds: "d < length s" using d longer by simp
      obtain q where q: "kr_search ic x d (kr_hash ic d x) (kr_hash ic d (tl s)) (tl s) (pos + 1) = Inr (if q = -1 then -1 else q + (pos + 1))"
        "first_place ic x (tl s) q"
        using Suc.hyps(1)[OF s(2,3), of "pos + 1"] Suc.prems(2) by auto
      have "kr_search ic x d (kr_hash ic d x) (kr_hash ic d s) s pos =
          kr_search ic x d (kr_hash ic d x) (kr_hash ic d (tl s)) (tl s) (pos + 1)"
        using r ne longer kr_step[OF ds d(1), of ic] by (subst kr_search.simps) simp
      moreover have "q \<ge> -1" using q(2) by (auto simp: first_place_def)
      ultimately show ?thesis using q(1) first_place_step[OF False s(1) q(2)]
        by (intro exI[of _ "if q = -1 then -1 else q + 1"]) auto
    qed
  qed
qed

lemma rb_memsearch_correct:
  assumes "x \<noteq> []" "plain_case ic x" "plain_case ic y"
  shows "\<exists>r. rb_memsearch ic x y = Inr r \<and> first_place ic x y r"
proof -
  consider "length x > length y" | "length x = length y" | "length x < length y" by linarith
  then show ?thesis
  proof cases
    case 1
    then have "first_place ic x y (-1)" by (simp add: first_place_def occurs_at_def)
    then show ?thesis using 1 by (simp add: rb_memsearch_def)
  next
    case 2
    obtain r where r: "rb_memcmp ic x y = Inr r" "r = 0 \<longleftrightarrow> map (fold_case ic) x = map (fold_case ic) y"
      using rb_memcmp_window[OF 2 assms(2,3)] by blast
    have "occurs_at ic x y i \<longleftrightarrow> i = 0 \<and> r = 0" for i using 2 r(2) by (cases i) (auto simp: occurs_at_def)
    then show ?thesis using 2 r(1) by (auto simp: rb_memsearch_def first_place_def Let_def)
  next
    case 3
    obtain r where "kr_search ic x (min 31 (length x)) (kr_hash ic (min 31 (length x)) x) (kr_hash ic (min 31 (length x)) y) y 0 =
      Inr (if r = -1 then -1 else r + 0)" "first_place ic x y r"
      using kr_search_correct[OF less_imp_le[OF 3] _ assms(2,3) refl, of 0] assms(1) by auto
    then show ?thesis using 3 by (intro exI[of _ r]) (simp add: rb_memsearch_def Let_def)
  qed
qed

section \<open>Positions\<close>

definition first_from :: "(nat \<Rightarrow> bool) \<Rightarrow> int \<Rightarrow> int option \<Rightarrow> bool" where
  "first_from P p r \<longleftrightarrow> (case r of
     None \<Rightarrow> \<forall>i. p \<le> int i \<longrightarrow> \<not> P i
   | Some q \<Rightarrow> \<exists>i. q = int i \<and> p \<le> q \<and> P i \<and> (\<forall>j. p \<le> int j \<and> j < i \<longrightarrow> \<not> P j))"

definition last_upto :: "(nat \<Rightarrow> bool) \<Rightarrow> int \<Rightarrow> int option \<Rightarrow> bool" where
  "last_upto P p r \<longleftrightarrow> (case r of
     None \<Rightarrow> \<forall>i. int i \<le> p \<longrightarrow> \<not> P i
   | Some q \<Rightarrow> \<exists>i. q = int i \<and> q \<le> p \<and> P i \<and> (\<forall>j. int j \<le> p \<and> i < j \<longrightarrow> \<not> P j))"

lemma occurs_at_drop: "k \<le> length y \<Longrightarrow> occurs_at ic x (drop k y) i \<longleftrightarrow> occurs_at ic x y (k + i)"
  by (auto simp: occurs_at_def add.commute)

lemma occurs_at_Nil: "occurs_at ic [] y i \<longleftrightarrow> i \<le> length y"
  by (simp add: occurs_at_def)

lemma first_place_from:
  assumes "first_place ic x (drop k y) r" "k \<le> length y"
  shows "first_from (occurs_at ic x y) (int k) (pos_or_nil (if r < 0 then r else r + int k))"
proof -
  have shift: "occurs_at ic x y i \<longleftrightarrow> occurs_at ic x (drop k y) (i - k)" if "k \<le> i" for i
    using occurs_at_drop[OF assms(2), of ic x "i - k"] that by simp
  from assms(1) consider "r = -1" "\<forall>i. \<not> occurs_at ic x (drop k y) i"
    | i where "r = int i" "occurs_at ic x (drop k y) i" "\<forall>j < i. \<not> occurs_at ic x (drop k y) j"
    unfolding first_place_def by blast
  then show ?thesis
  proof cases
    case (2 i)
    have "\<not> occurs_at ic x y j" if "k \<le> j" "j < i + k" for j using shift[OF that(1)] 2(3) that by simp
    then show ?thesis using 2 shift[of "i + k"]
      by (auto simp: first_from_def pos_or_nil_def intro!: exI[of _ "i + k"])
  qed (simp add: first_from_def pos_or_nil_def shift)
qed

lemma rb_str_index_first:
  assumes "plain_case ic str" "plain_case ic sub" "0 \<le> off"
  shows "\<exists>r. rb_str_index ic str sub off = Inr r \<and> first_from (occurs_at ic sub str) off (pos_or_nil r)"
proof -
  obtain k where k: "off = int k" using assms(3) by (metis nonneg_int_cases)
  show ?thesis
  proof (cases "int (length str) - off < int (length sub)")
    case True
    then show ?thesis using k by (simp add: rb_str_index_def first_from_def pos_or_nil_def occurs_at_def)
  next
    case False
    then have kl: "k \<le> length str" using k by linarith
    show ?thesis
    proof (cases "sub = []")
      case True
      then show ?thesis using kl k by (auto simp: rb_str_index_def first_from_def pos_or_nil_def occurs_at_Nil)
    next
      case sub: False
      obtain r where r: "rb_memsearch ic sub (drop k str) = Inr r" "first_place ic sub (drop k str) r"
        using rb_memsearch_correct[OF sub assms(2), of "drop k str"] assms(1) by auto
      then show ?thesis using False sub k first_place_from[OF r(2) kl] by (simp add: rb_str_index_def Let_def)
    qed
  qed
qed

lemma rindex_loop_last:
  assumes "plain_case ic str" "plain_case ic sub" "n + length sub \<le> length str + 1" "sub \<noteq> []"
  shows "\<exists>r. rindex_loop ic str sub n = Inr r \<and>
    (r = -1 \<and> (\<forall>i < n. \<not> occurs_at ic sub str i) \<or>
     (\<exists>i < n. r = int i \<and> occurs_at ic sub str i \<and> (\<forall>j < n. i < j \<longrightarrow> \<not> occurs_at ic sub str j)))"
  using assms(3)
proof (induction n)
  case (Suc n)
  let ?w = "take (length sub) (drop n str)"
  have len: "length ?w = length sub" using Suc.prems by simp
  obtain r where r: "rb_memcmp ic ?w sub = Inr r" "r = 0 \<longleftrightarrow> map (fold_case ic) ?w = map (fold_case ic) sub"
    using rb_memcmp_window[OF len, of ic] assms by auto
  have occ: "occurs_at ic sub str n \<longleftrightarrow> r = 0" using r(2) Suc.prems by (auto simp: occurs_at_def)
  show ?case
  proof (cases "r = 0")
    case True
    then show ?thesis using r(1) occ by (intro exI[of _ "int n"]) auto
  next
    case False
    obtain q where q: "rindex_loop ic str sub n = Inr q"
      "q = -1 \<and> (\<forall>i < n. \<not> occurs_at ic sub str i) \<or>
       (\<exists>i < n. q = int i \<and> occurs_at ic sub str i \<and> (\<forall>j < n. i < j \<longrightarrow> \<not> occurs_at ic sub str j))"
      using Suc by auto
    show ?thesis
    proof (intro exI[of _ q] conjI)
      show "rindex_loop ic str sub (Suc n) = Inr q" using r(1) False q(1) by simp
      show "q = -1 \<and> (\<forall>i < Suc n. \<not> occurs_at ic sub str i) \<or>
       (\<exists>i < Suc n. q = int i \<and> occurs_at ic sub str i \<and> (\<forall>j < Suc n. i < j \<longrightarrow> \<not> occurs_at ic sub str j))"
        using q(2) False occ less_Suc_eq by metis
    qed
  qed
qed simp

lemma rb_str_rindex_last:
  assumes "plain_case ic str" "plain_case ic sub" "0 \<le> pos" "pos \<le> int (length str)"
  shows "\<exists>r. rb_str_rindex ic str sub pos = Inr r \<and>
    last_upto (occurs_at ic sub str) pos (if r \<ge> 0 then Some r else None)"
proof (cases "length str < length sub")
  case True
  then show ?thesis by (simp add: rb_str_rindex_def last_upto_def occurs_at_def)
next
  case False
  define p where "p = (if int (length str) - pos < int (length sub) then int (length str) - int (length sub) else pos)"
  have p: "0 \<le> p" "p \<le> pos" "p + int (length sub) \<le> int (length str)" using False assms(3,4) by (auto simp: p_def)
  have high: "\<not> occurs_at ic sub str i" if "p < int i" "int i \<le> pos" for i
    using that by (auto simp: p_def occurs_at_def split: if_splits)
  obtain n where n: "p = int n" using p(1) by (metis nonneg_int_cases)
  show ?thesis
  proof (cases "sub = []")
    case True
    then have "rb_str_rindex ic str sub pos = Inr p" using False by (simp add: rb_str_rindex_def p_def Let_def)
    moreover have "occurs_at ic sub str n" using True p(3) n by (simp add: occurs_at_Nil)
    ultimately show ?thesis using p n high by (intro exI[of _ p]) (auto simp: last_upto_def)
  next
    case sub: False
    have "Suc n + length sub \<le> length str + 1" using p(3) n by simp
    from rindex_loop_last[OF assms(1,2) this sub] obtain r where r: "rindex_loop ic str sub (Suc n) = Inr r"
      "r = -1 \<and> (\<forall>i < Suc n. \<not> occurs_at ic sub str i) \<or>
       (\<exists>i < Suc n. r = int i \<and> occurs_at ic sub str i \<and> (\<forall>j < Suc n. i < j \<longrightarrow> \<not> occurs_at ic sub str j))" by blast
    have "rb_str_rindex ic str sub pos = Inr r"
      using False sub r(1) n by (simp add: rb_str_rindex_def p_def[symmetric] Let_def nat_add_distrib del: rindex_loop.simps)
    moreover have "last_upto (occurs_at ic sub str) pos (if r \<ge> 0 then Some r else None)"
    proof (cases "r = -1")
      case True
      then have "\<forall>i < Suc n. \<not> occurs_at ic sub str i" using r(2) by auto
      then show ?thesis using True high n by (auto simp: last_upto_def) (metis less_Suc_eq_le linorder_not_less of_nat_less_iff)
    next
      case False
      then obtain i where i: "i < Suc n" "r = int i" "occurs_at ic sub str i" "\<forall>j < Suc n. i < j \<longrightarrow> \<not> occurs_at ic sub str j"
        using r(2) by auto
      have "\<not> occurs_at ic sub str j" if "int j \<le> pos" "i < j" for j
        using that i(4) high[of j] n by (cases "j < Suc n") auto
      then show ?thesis using i p n by (auto simp: last_upto_def)
    qed
    ultimately show ?thesis by blast
  qed
qed


lemma find_from_first: "first_from (\<lambda>i. k \<le> i \<and> i < k + length s \<and> uint (s ! (i - k)) = c) (int k) (find_from s c (int k))"
proof (induction s arbitrary: k)
  case (Cons b s)
  have ih: "first_from (\<lambda>i. Suc k \<le> i \<and> i < Suc k + length s \<and> uint (s ! (i - Suc k)) = c) (int k + 1) (find_from s c (int k + 1))"
    using Cons[of "Suc k"] by (simp add: add.commute)
  show ?case
  proof (cases "uint b = c")
    case True
    then show ?thesis by (auto simp: first_from_def)
  next
    case False
    have eq: "(k \<le> i \<and> i < k + length (b # s) \<and> uint ((b # s) ! (i - k)) = c) \<longleftrightarrow>
        (Suc k \<le> i \<and> i < Suc k + length s \<and> uint (s ! (i - Suc k)) = c)" for i
      using False by (cases "i = k") (auto simp: nth_Cons' )
    have "first_from (\<lambda>i. Suc k \<le> i \<and> i < Suc k + length s \<and> uint (s ! (i - Suc k)) = c) (int k) (find_from s c (int k + 1))"
      using ih by (auto simp: first_from_def split: option.splits)
    then show ?thesis unfolding eq using False by simp
  qed
qed (simp add: first_from_def)

lemma find_back_last: "n \<le> length str \<Longrightarrow> last_upto (\<lambda>i. i < length str \<and> uint (str ! i) = c) (int n - 1) (find_back str c n)"
proof (induction n)
  case (Suc n)
  show ?case
  proof (cases "uint (str ! n) = c")
    case False
    have "last_upto (\<lambda>i. i < length str \<and> uint (str ! i) = c) (int n) (find_back str c n)"
      using Suc False by (auto simp: last_upto_def split: option.splits) (metis le_neq_implies_less, metis le_neq_implies_less)
    then show ?thesis using False by simp
  qed (use Suc.prems in \<open>auto simp: last_upto_def\<close>)
qed (simp add: last_upto_def)

lemma string_search_parts:
  assumes "plain_case ic str" "plain_case ic sub" "p = (if pos < 0 then pos + int (length str) else pos)"
  shows "p < 0 \<longrightarrow> rb_str_index_m ic str (Sub_str sub) (Some pos) = Inr None \<and>
      rb_str_rindex_m ic str (Sub_str sub) (Some pos) = Inr None"
    and "0 \<le> p \<longrightarrow> (\<exists>r. rb_str_index_m ic str (Sub_str sub) (Some pos) = Inr r \<and> first_from (occurs_at ic sub str) p r)"
    and "0 \<le> p \<longrightarrow> (\<exists>r. rb_str_rindex_m ic str (Sub_str sub) (Some pos) = Inr r \<and> last_upto (occurs_at ic sub str) p r)"
    and "0 \<le> p \<longrightarrow> (\<exists>r. rb_str_index_m ic str (Sub_char c) (Some pos) = Inr r \<and>
      first_from (\<lambda>i. i < length str \<and> uint (str ! i) = c) p r)"
    and "0 \<le> p \<longrightarrow> (\<exists>r. rb_str_rindex_m ic str (Sub_char c) (Some pos) = Inr r \<and>
      last_upto (\<lambda>i. i < length str \<and> uint (str ! i) = c) p r)"
    and "\<exists>b. rb_str_include ic str (Sub_str sub) = Inr b \<and> (b \<longleftrightarrow> (\<exists>i. occurs_at ic sub str i))"
proof -
  show "p < 0 \<longrightarrow> rb_str_index_m ic str (Sub_str sub) (Some pos) = Inr None \<and>
      rb_str_rindex_m ic str (Sub_str sub) (Some pos) = Inr None"
    using assms(3) by (auto simp: rb_str_index_m_def rb_str_rindex_m_def Let_def)
  show "0 \<le> p \<longrightarrow> (\<exists>r. rb_str_index_m ic str (Sub_str sub) (Some pos) = Inr r \<and> first_from (occurs_at ic sub str) p r)"
    using rb_str_index_first[OF assms(1,2), of p] assms(3) by (fastforce simp: rb_str_index_m_def Let_def)
  show "\<exists>b. rb_str_include ic str (Sub_str sub) = Inr b \<and> (b \<longleftrightarrow> (\<exists>i. occurs_at ic sub str i))"
  proof -
    obtain r where "rb_str_index ic str sub 0 = Inr r" "first_from (occurs_at ic sub str) 0 (pos_or_nil r)"
      using rb_str_index_first[OF assms(1,2), of 0] by auto
    then show ?thesis by (auto simp: rb_str_include_def first_from_def pos_or_nil_def split: if_splits)
  qed
  let ?q = "min p (int (length str))"
  show "0 \<le> p \<longrightarrow> (\<exists>r. rb_str_rindex_m ic str (Sub_str sub) (Some pos) = Inr r \<and> last_upto (occurs_at ic sub str) p r)"
  proof
    assume p: "0 \<le> p"
    obtain r where r: "rb_str_rindex ic str sub ?q = Inr r" "last_upto (occurs_at ic sub str) ?q (if r \<ge> 0 then Some r else None)"
      using rb_str_rindex_last[OF assms(1,2), of ?q] p by auto
    have "last_upto (occurs_at ic sub str) p (if r \<ge> 0 then Some r else None)"
      using r(2) by (auto simp: last_upto_def occurs_at_def split: if_splits)
    then show "\<exists>r. rb_str_rindex_m ic str (Sub_str sub) (Some pos) = Inr r \<and> last_upto (occurs_at ic sub str) p r"
      using r(1) p assms(3) by (auto simp: rb_str_rindex_m_def Let_def min_def split: if_splits)
  qed
  show "0 \<le> p \<longrightarrow> (\<exists>r. rb_str_index_m ic str (Sub_char c) (Some pos) = Inr r \<and>
      first_from (\<lambda>i. i < length str \<and> uint (str ! i) = c) p r)"
  proof
    assume p: "0 \<le> p"
    then obtain k where k: "p = int k" by (metis nonneg_int_cases)
    have "first_from (\<lambda>i. i < length str \<and> uint (str ! i) = c) p (find_from (drop k str) c p)"
      using find_from_first[of k "drop k str" c] k by (auto simp: first_from_def split: option.splits)
    then show "\<exists>r. rb_str_index_m ic str (Sub_char c) (Some pos) = Inr r \<and> first_from (\<lambda>i. i < length str \<and> uint (str ! i) = c) p r"
      using p k assms(3) by (auto simp: rb_str_index_m_def Let_def)
  qed
  show "0 \<le> p \<longrightarrow> (\<exists>r. rb_str_rindex_m ic str (Sub_char c) (Some pos) = Inr r \<and>
      last_upto (\<lambda>i. i < length str \<and> uint (str ! i) = c) p r)"
  proof
    assume p: "0 \<le> p"
    define n where "n = nat (min (p + 1) (int (length str)))"
    have n: "n \<le> length str" "int n - 1 = min p (int (length str) - 1)" using p by (auto simp: n_def)
    have "last_upto (\<lambda>i. i < length str \<and> uint (str ! i) = c) p (find_back str c n)"
      using find_back_last[OF n(1), of c] n(2) by (auto simp: last_upto_def split: option.splits)
    moreover have "rb_str_rindex_m ic str (Sub_char c) (Some pos) = Inr (find_back str c n)"
      using p assms(3) by (auto simp: rb_str_rindex_m_def Let_def n_def min_def)
    ultimately show "\<exists>r. rb_str_rindex_m ic str (Sub_char c) (Some pos) = Inr r \<and> last_upto (\<lambda>i. i < length str \<and> uint (str ! i) = c) p r"
      by blast
  qed
qed

text \<open>
  C32. \<open>index\<close> and \<open>rindex\<close>. For a substring or a character and a start position, counted from the end
  when negative, \<open>index\<close> answers the first occurrence at or after it and \<open>rindex\<close> the last one at or
  before it; \<open>nil\<close> when there is none or the position lies before the string. The rolling hash of
  \<open>rb_memsearch\<close> never misses a place, also where it wraps. With \<open>$=\<close> set this holds up to case for
  strings of bytes below 128.
\<close>

theorem string_search_correct:
  assumes "plain_case ic str" "plain_case ic sub" "p = (if pos < 0 then pos + int (length str) else pos)"
  shows "(p < 0 \<longrightarrow> rb_str_index_m ic str (Sub_str sub) (Some pos) = Inr None \<and>
      rb_str_rindex_m ic str (Sub_str sub) (Some pos) = Inr None) \<and>
    (0 \<le> p \<longrightarrow> (\<exists>r. rb_str_index_m ic str (Sub_str sub) (Some pos) = Inr r \<and> first_from (occurs_at ic sub str) p r)) \<and>
    (0 \<le> p \<longrightarrow> (\<exists>r. rb_str_rindex_m ic str (Sub_str sub) (Some pos) = Inr r \<and> last_upto (occurs_at ic sub str) p r)) \<and>
    (0 \<le> p \<longrightarrow> (\<exists>r. rb_str_index_m ic str (Sub_char c) (Some pos) = Inr r \<and>
      first_from (\<lambda>i. i < length str \<and> uint (str ! i) = c) p r)) \<and>
    (0 \<le> p \<longrightarrow> (\<exists>r. rb_str_rindex_m ic str (Sub_char c) (Some pos) = Inr r \<and>
      last_upto (\<lambda>i. i < length str \<and> uint (str ! i) = c) p r)) \<and>
    (\<exists>b. rb_str_include ic str (Sub_str sub) = Inr b \<and> (b \<longleftrightarrow> (\<exists>i. occurs_at ic sub str i)))"
  by (intro conjI string_search_parts[OF assms])

theorem string_search_correct_witness:
  "rb_str_index_m False [104, 101, 108, 108, 111] (Sub_str [108]) (Some (-3)) = Inr (Some 2) \<and>
   rb_str_rindex_m False [104, 101, 108, 108, 111] (Sub_str [108]) (Some (-3)) = Inr (Some 2) \<and>
   (\<exists>r. rb_str_index_m False [104, 101, 108, 108, 111] (Sub_str [108]) (Some (-3)) = Inr r \<and>
      first_from (occurs_at False [108] [104, 101, 108, 108, 111]) 2 r)"
proof (intro conjI)
  show "rb_str_index_m False [104, 101, 108, 108, 111] (Sub_str [108]) (Some (-3)) = Inr (Some 2)" by code_simp
  show "rb_str_rindex_m False [104, 101, 108, 108, 111] (Sub_str [108]) (Some (-3)) = Inr (Some 2)" by code_simp
  show "\<exists>r. rb_str_index_m False [104, 101, 108, 108, 111] (Sub_str [108]) (Some (-3)) = Inr r \<and>
      first_from (occurs_at False [108] [104, 101, 108, 108, 111]) 2 r"
    using string_search_correct[of False "[104, 101, 108, 108, 111]" "[108]" 2 "-3"] by (simp add: plain_case_def)
qed

section \<open>Substrings and replacement\<close>

text \<open>A position counts from the end when it is negative; the sum of position and length must be exact.\<close>

definition start_of :: "byte list \<Rightarrow> int \<Rightarrow> int" where
  "start_of str beg = (if beg < 0 then beg + int (length str) else beg)"

definition inside :: "byte list \<Rightarrow> int \<Rightarrow> bool" where
  "inside str p \<longleftrightarrow> 0 \<le> p \<and> p \<le> int (length str)"

definition size_ok :: "byte list \<Rightarrow> bool" where
  "size_ok str \<longleftrightarrow> int (length str) < 2 ^ 31 - 1"

lemma inside_start: "inside str (start_of str beg) \<Longrightarrow> \<not> beg > int (length str)"
  by (auto simp: inside_def start_of_def split: if_splits)

lemma rb_str_substr_exact:
  assumes "size_ok str" "start_of str beg + len < 2 ^ 31"
  shows "rb_str_substr str beg len =
    Inr (if 0 \<le> len \<and> inside str (start_of str beg) then Some (take (nat len) (drop (nat (start_of str beg)) str)) else None)"
proof (cases "0 \<le> len \<and> inside str (start_of str beg)")
  case False
  then show ?thesis by (auto simp: rb_str_substr_def inside_def start_of_def Let_def)
next
  case True
  let ?n = "int (length str)" and ?p = "start_of str beg"
  define m where "m = (if ?p + len > ?n then ?n - ?p else len)"
  have m: "0 \<le> m" "?p + m \<le> ?n" using True by (auto simp: m_def inside_def)
  have s: "s32 (?p + len) = ?p + len" using True assms(2) by (intro s32_id) (auto simp: inside_def)
  have "s32 (m + 1) = m + 1" using m True assms(1) by (intro s32_id) (auto simp: inside_def size_ok_def)
  then have new: "str_new_at str ?p m = Inr (take (nat m) (drop (nat ?p) str))" using m True by (simp add: str_new_at_def inside_def)
  have eq: "take (nat m) (drop (nat ?p) str) = take (nat len) (drop (nat ?p) str)"
    using True by (auto simp: m_def inside_def nat_diff_distrib)
  have "rb_str_substr str beg len = (if m = 0 then Inr (Some []) else obind (str_new_at str ?p m) (\<lambda>s. return (Some s)))"
    using True inside_start[of str beg] s m(1) by (auto simp: rb_str_substr_def start_of_def[symmetric] m_def[symmetric] inside_def Let_def)
  then show ?thesis using new eq True by (auto split: if_splits)
qed


definition replaced :: "byte list \<Rightarrow> int \<Rightarrow> int \<Rightarrow> byte list \<Rightarrow> byte list" where
  "replaced str p len v = take (nat p) str @ v @ drop (nat p + nat len) str"

lemma rb_str_splice_exact:
  assumes "rb_str_modify safe str = Inr ()" "0 \<le> len" "start_of (sbytes str) beg + len < 2 ^ 31"
  shows "rb_str_splice safe str beg len (Val_str v) =
    (if inside (sbytes str) (start_of (sbytes str) beg)
     then Inr (str\<lparr>sbytes := replaced (sbytes str) (start_of (sbytes str) beg) len v\<rparr>) else Inl IndexError)"
proof (cases "inside (sbytes str) (start_of (sbytes str) beg)")
  case False
  then show ?thesis using assms by (auto simp: rb_str_splice_def inside_def start_of_def slen_def Let_def split: if_splits)
next
  case True
  let ?s = "sbytes str"
  let ?n = "int (length ?s)" and ?p = "start_of ?s beg"
  have s: "s32 (?p + len) = ?p + len" using True assms(2,3) by (intro s32_id) (auto simp: inside_def)
  have "\<not> (beg < 0 \<and> - beg > ?n)" using True by (auto simp: inside_def start_of_def)
  moreover have "drop (nat (?p + (if ?n < ?p + len then ?n - ?p else len))) ?s = drop (nat ?p + nat len) ?s"
    using True assms(2) by (auto simp: inside_def nat_add_distrib)
  ultimately show ?thesis using True inside_start[of ?s beg] assms(1,2) s
    by (auto simp: rb_str_splice_def start_of_def[symmetric] slen_def replaced_def Let_def inside_def)
qed


text \<open>
  C34. Comparison. \<open><=>\<close> is the order of the byte strings as unsigned numbers, \<open>==\<close> and \<open>eql?\<close> hold for
  equal bytes only, and equal strings have equal hashes, which makes strings keys of hash tables.
  \<open>casecmp\<close> compares bytes below 128 after conversion to lower case.
\<close>

theorem string_comparison:
  assumes "\<forall>c \<in> set s \<union> set t. c < 128"
  shows "rb_str_cmp False u w = Inr (if u = w then 0 else if (u, w) \<in> byte_less then -1 else 1) \<and>
    rb_str_equal False u w = Inr (u = w) \<and>
    (rb_str_eql u w \<longleftrightarrow> u = w) \<and>
    (rb_str_eql u w \<longrightarrow> rb_str_hash_m u = rb_str_hash_m w) \<and>
    rb_str_casecmp s t = rb_str_cmp False (map casetable s) (map casetable t) \<and>
    (\<forall>x y. (x, y) \<in> byte_less \<or> x = y \<or> (y, x) \<in> byte_less) \<and> trans byte_less \<and> irrefl byte_less"
proof (intro conjI)
  show "rb_str_equal False u w = Inr (u = w)" by (auto simp: rb_str_equal_def rb_str_cmp_bytes)
  show "\<forall>x y. (x, y) \<in> byte_less \<or> x = y \<or> (y, x) \<in> byte_less"
    unfolding byte_less_def by (intro allI lexord_linear) auto
  show "trans byte_less" unfolding byte_less_def by (intro lexord_trans[THEN transI] transI) auto
  show "irrefl byte_less" unfolding byte_less_def by (intro lexord_irrefl) (auto simp: irrefl_def)
qed (use assms in \<open>simp_all add: rb_str_cmp_bytes rb_str_eql_iff rb_str_casecmp_ascii\<close>)

theorem string_comparison_witness:
  "rb_str_cmp False [97] [98, 99] = Inr (-1) \<and> rb_str_casecmp [65, 98] [97, 66] = Inr 0 \<and>
   rb_str_casecmp [65, 98] [97, 66] = rb_str_cmp False (map casetable [65, 98]) (map casetable [97, 66])"
proof (intro conjI)
  show "rb_str_cmp False [97] [98, 99] = Inr (-1)" by code_simp
  show "rb_str_casecmp [65, 98] [97, 66] = Inr 0" by code_simp
  show "rb_str_casecmp [65, 98] [97, 66] = rb_str_cmp False (map casetable [65, 98]) (map casetable [97, 66])"
    using string_comparison[of "[65, 98]" "[97, 66]"] by simp
qed

lemma replaced_back:
  assumes "inside str p" "0 \<le> len"
  shows "replaced (replaced str p len v) p (int (length v)) (take (nat len) (drop (nat p) str)) = str"
proof -
  have "take (nat len) (drop (nat p) str) @ drop (nat p + nat len) str = drop (nat p) str"
    by (metis append_take_drop_id drop_drop add.commute)
  moreover have "min (length str) (nat p) = nat p" using assms(1) by (intro min_absorb2) (auto simp: inside_def)
  ultimately show ?thesis by (simp add: replaced_def add.assoc)
qed


text \<open>
  C33. \<open>str[beg, len]\<close>. With a position inside the string, counted from the end when negative, the piece is
  read, replaced or removed, and putting a removed piece back restores the string; a position outside
  answers \<open>nil\<close> when reading and raises \<open>IndexError\<close> when assigning.
\<close>

theorem string_slices:
  assumes "size_ok (sbytes str)" "rb_str_modify safe str = Inr ()" "rb_num2long a = Inr beg" "rb_num2long b = Inr len"
    "0 \<le> len" "p = start_of (sbytes str) beg" "p + len < 2 ^ 31"
  shows "if inside (sbytes str) p then
      rb_str_aref_m ic (sbytes str) (Two a b) = Inr (Res_str (take (nat len) (drop (nat p) (sbytes str)))) \<and>
      rb_str_aset_m ic safe str (Two a b) (Val_str v) = Inr (str\<lparr>sbytes := replaced (sbytes str) p len v\<rparr>) \<and>
      rb_str_slice_bang ic safe str (Two a b) =
        Inr (Res_str (take (nat len) (drop (nat p) (sbytes str))), str\<lparr>sbytes := replaced (sbytes str) p len []\<rparr>) \<and>
      replaced (replaced (sbytes str) p len v) p (int (length v)) (take (nat len) (drop (nat p) (sbytes str))) = sbytes str
    else
      rb_str_aref_m ic (sbytes str) (Two a b) = Inr Res_nil \<and>
      rb_str_aset_m ic safe str (Two a b) (Val_str v) = Inl IndexError \<and>
      rb_str_slice_bang ic safe str (Two a b) = Inr (Res_nil, str)"
proof -
  have aref: "rb_str_aref_m ic (sbytes str) (Two a b) =
      Inr (if inside (sbytes str) p then Res_str (take (nat len) (drop (nat p) (sbytes str))) else Res_nil)"
    using assms rb_str_substr_exact[of "sbytes str" beg len] by (simp add: rb_str_aref_m_def str_or_nil_def)
  have aset: "rb_str_aset_m ic safe str (Two a b) (Val_str u) =
      (if inside (sbytes str) p then Inr (str\<lparr>sbytes := replaced (sbytes str) p len u\<rparr>) else Inl IndexError)" for u
    using assms rb_str_splice_exact[of safe str len beg u] by (simp add: rb_str_aset_m_def)
  show ?thesis using aref aset replaced_back[of "sbytes str" p len v] assms(5) by (simp add: rb_str_slice_bang_def)
qed

definition hello :: rstring where
  "hello = \<lparr>sbytes = [104, 101, 108, 108, 111], sfrozen = False, stmplock = False, stainted = False\<rparr>"

theorem string_slices_witness:
  "rb_str_slice_bang False 0 hello (Two (Num (Fixnum (-4))) (Num (Fixnum 3))) =
     Inr (Res_str [101, 108, 108], hello\<lparr>sbytes := [104, 111]\<rparr>) \<and>
   rb_str_aset_m False 0 hello (Two (Num (Fixnum 6)) (Num (Fixnum 0))) (Val_str [33]) = Inl IndexError"
  using string_slices[of hello 0 "Num (Fixnum (-4))" "-4" "Num (Fixnum 3)" 3 1 False "[]"]
    string_slices[of hello 0 "Num (Fixnum 6)" 6 "Num (Fixnum 0)" 0 6 False "[33]"]
  by (simp add: hello_def size_ok_def rb_str_modify_def rb_num2long_def start_of_def inside_def replaced_def numeral_eq_Suc)



end
