(* ===== verification/RString_Succ.thy ===== *)
theory RString_Succ
  imports RString
begin

text \<open>
  \<open>String#succ\<close> and \<open>String#upto\<close> of \<^verbatim>\<open>src/ruby/string.c\<close>. The bytes are handled from the right, so the
  loops run over the reversed string; the position of a byte is the number of bytes to its left.
\<close>

section \<open>Successor\<close>

definition is_digit :: "byte \<Rightarrow> bool" where "is_digit c \<longleftrightarrow> 48 \<le> c \<and> c \<le> 57"
definition is_lower :: "byte \<Rightarrow> bool" where "is_lower c \<longleftrightarrow> 97 \<le> c \<and> c \<le> 122"
definition is_upper :: "byte \<Rightarrow> bool" where "is_upper c \<longleftrightarrow> 65 \<le> c \<and> c \<le> 90"

definition ISALNUM :: "byte \<Rightarrow> bool" where
  "ISALNUM c \<longleftrightarrow> is_digit c \<or> is_lower c \<or> is_upper c"

text \<open>The new character and the carry, 0 for none.\<close>

definition succ_char :: "byte \<Rightarrow> byte \<times> byte" where
  "succ_char c =
     (if 48 \<le> c \<and> c < 57 then (c + 1, 0)
      else if c = 57 then (48, 49)
      else if 97 \<le> c \<and> c < 122 then (c + 1, 0)
      else if c = 122 then (97, 97)
      else if 65 \<le> c \<and> c < 90 then (c + 1, 0)
      else if c = 90 then (65, 65)
      else (c, 0))"

text \<open>The loop over the letters and digits: the bytes, \<open>c\<close>, \<open>n\<close>, and whether a \<open>break\<close> ended it.\<close>

fun succ_loop :: "byte list \<Rightarrow> int \<Rightarrow> nat \<Rightarrow> byte list \<times> int \<times> nat \<times> bool" where
  "succ_loop [] c n = ([], c, n, False)"
| "succ_loop (b # r) c n =
     (if ISALNUM b then
        (let (b', c') = succ_char b in
         if c' = 0 then (b' # r, 0, n, True)
         else (let (r', res) = succ_loop r (uint c') (length r) in (b' # r', res)))
      else (let (r', res) = succ_loop r c n in (b # r', res)))"

fun inc_loop :: "byte list \<Rightarrow> byte list \<times> bool" where
  "inc_loop [] = ([], False)"
| "inc_loop (b # r) = (if b + 1 \<noteq> 0 then ((b + 1) # r, True) else (let (r', stop) = inc_loop r in (0 # r', stop)))"

definition rb_str_succ :: "byte list \<Rightarrow> byte list" where
  "rb_str_succ orig =
     (if orig = [] then orig
      else
        (let (r, c, n, stop) = succ_loop (rev orig) (-1) 0;
             (r, c, stop) = (if c = -1 then (let (r, stop) = inc_loop r in (r, 1, stop)) else (r, c, stop));
             str = rev r in
         if \<not> stop then take n str @ [word_of_int c] @ drop n str else str))"

section \<open>Strings as numbers\<close>

definition radix :: "byte \<Rightarrow> nat" where
  "radix c = (if is_digit c then 10 else 26)"

definition first_of :: "byte \<Rightarrow> byte" where
  "first_of c = (if is_digit c then 48 else if is_lower c then 97 else 65)"

definition digit_of :: "byte \<Rightarrow> nat" where
  "digit_of c = unat (c - first_of c)"

text \<open>The place of a byte in the pattern of a string: its kind, and itself when it is no letter or digit.\<close>

definition kind :: "byte \<Rightarrow> byte" where
  "kind c = (if ISALNUM c then first_of c else c)"

text \<open>Letters and digits are the digits of a number in mixed base; the right end is the low one.\<close>

fun places :: "byte list \<Rightarrow> nat" where
  "places [] = 1"
| "places (b # r) = (if ISALNUM b then radix b * places r else places r)"

fun rank :: "byte list \<Rightarrow> nat" where
  "rank [] = 0"
| "rank (b # r) = (if ISALNUM b then digit_of b + radix b * rank r else rank r)"

fun num256 :: "byte list \<Rightarrow> nat" where
  "num256 [] = 0"
| "num256 (b # r) = unat b + 256 * num256 r"

lemmas byte_kinds = is_digit_def is_lower_def is_upper_def ISALNUM_def

lemma byte_order: "a \<le> b \<longleftrightarrow> unat a \<le> unat b" "a < b \<longleftrightarrow> unat a < unat b" "a = b \<longleftrightarrow> unat a = unat b" for a b :: byte
  by (simp_all add: word_le_nat_alt word_less_nat_alt word_unat_eq_iff)

lemma succ_char_cases:
  assumes "ISALNUM b" "succ_char b = (b', c)"
  shows "ISALNUM b' \<and> kind b' = kind b \<and> radix b' = radix b \<and> digit_of b < radix b \<and>
    (if c = 0 then digit_of b' = digit_of b + 1 \<and> digit_of b + 1 < radix b
     else digit_of b' = 0 \<and> digit_of b + 1 = radix b \<and> c = (if is_digit b then 49 else first_of b))"
proof -
  have "\<forall>b \<in> set (map word_of_int [0..255] :: byte list). ISALNUM b \<longrightarrow> (case succ_char b of (b', c) \<Rightarrow>
    ISALNUM b' \<and> kind b' = kind b \<and> radix b' = radix b \<and> digit_of b < radix b \<and>
    (if c = 0 then digit_of b' = digit_of b + 1 \<and> digit_of b + 1 < radix b
     else digit_of b' = 0 \<and> digit_of b + 1 = radix b \<and> c = (if is_digit b then 49 else first_of b)))"
    by code_simp
  moreover have "b \<in> set (map word_of_int [0..255])"
  proof -
    have "b = word_of_int (uint b)" by simp
    moreover have "uint b \<in> set [0..255]" using uint_lt2p[of b] by simp
    ultimately show ?thesis by (metis imageI set_map)
  qed
  ultimately show ?thesis using assms by auto
qed

text \<open>The character that a full string is extended with, and its place.\<close>

definition lead_of :: "byte \<Rightarrow> byte" where
  "lead_of b = (if is_digit b then 49 else first_of b)"

fun lead :: "byte list \<Rightarrow> int \<Rightarrow> nat \<Rightarrow> int \<times> nat" where
  "lead [] c n = (c, n)"
| "lead (b # r) c n = (if ISALNUM b then lead r (uint (lead_of b)) (length r) else lead r c n)"

lemma rank_less_places: "rank r < places r"
proof (induction r)
  case (Cons b r)
  show ?case
  proof (cases "ISALNUM b")
    case True
    have "digit_of b < radix b" using succ_char_cases[OF True, of "fst (succ_char b)" "snd (succ_char b)"] by simp
    moreover have "radix b * (rank r + 1) \<le> radix b * places r" using Cons by (intro mult_left_mono) simp_all
    ultimately show ?thesis using True by (simp add: algebra_simps)
  qed (use Cons in simp)
qed simp

lemma succ_loop_spec:
  assumes "succ_loop r c n = (r', c', n', stop)"
  shows "map kind r' = map kind r \<and>
    (if stop then c' = 0 \<and> rank r' = rank r + 1 \<and> rank r + 1 < places r \<and> (\<exists>b \<in> set r. ISALNUM b)
     else rank r' = 0 \<and> rank r + 1 = places r \<and> (c', n') = lead r c n)"
  using assms
proof (induction r arbitrary: c n r' c' n' stop)
  case (Cons b r)
  show ?case
  proof (cases "ISALNUM b")
    case True
    obtain b' d where sc: "succ_char b = (b', d)" by (cases "succ_char b")
    note b = succ_char_cases[OF True sc]
    show ?thesis
    proof (cases "d = 0")
      case True
      have "radix b * (rank r + 1) \<le> radix b * places r" using rank_less_places[of r] by (intro mult_left_mono) simp_all
      then show ?thesis using True Cons.prems sc b \<open>ISALNUM b\<close> by (auto simp: kind_def algebra_simps)
    next
      case False
      obtain q where q: "succ_loop r (uint d) (length r) = (q, c', n', stop)" "r' = b' # q"
        using Cons.prems True False sc by (auto simp: Let_def split: prod.splits)
      have carry: "digit_of b + radix b * x + 1 = radix b * (x + 1)" for x using b False by (simp add: algebra_simps)
      have d: "d = lead_of b" using b False by (simp add: lead_of_def)
      have "0 < radix b" by (simp add: radix_def)
      show ?thesis
      proof (cases stop)
        case True
        have "rank r + 1 < places r" using True Cons.IH[OF q(1)] by simp
        then have "radix b * (rank r + 1) < radix b * places r" using \<open>0 < radix b\<close> by (rule mult_strict_left_mono)
        then show ?thesis using True Cons.IH[OF q(1)] q(2) b False \<open>ISALNUM b\<close> carry[of "rank r"] by simp
      next
        case unstopped: False
        then show ?thesis using Cons.IH[OF q(1)] q(2) b False \<open>ISALNUM b\<close> carry[of "rank r"] d by simp
      qed
    qed
  next
    case False
    obtain q where q: "succ_loop r c n = (q, c', n', stop)" "r' = b # q"
      using Cons.prems False by (auto simp: Let_def split: prod.splits)
    then show ?thesis using Cons.IH[OF q(1)] False by (auto split: if_splits)
  qed
qed simp

lemma succ_loop_none: "\<forall>b \<in> set r. \<not> ISALNUM b \<Longrightarrow> succ_loop r c n = (r, c, n, False)"
  by (induction r) (simp_all add: Let_def)

lemma lead_some: "\<exists>b \<in> set r. ISALNUM b \<Longrightarrow>
    \<exists>xs b ys. r = xs @ b # ys \<and> ISALNUM b \<and> (\<forall>y \<in> set ys. \<not> ISALNUM y) \<and> lead r c n = (uint (lead_of b), length ys)"
proof (induction r arbitrary: c n)
  case (Cons a r)
  show ?case
  proof (cases "\<exists>b \<in> set r. ISALNUM b")
    case True
    define p where "p = (if ISALNUM a then (uint (lead_of a), length r) else (c, n))"
    have p: "lead (a # r) c n = lead r (fst p) (snd p)" by (simp add: p_def)
    obtain xs b ys where "r = xs @ b # ys" "ISALNUM b" "\<forall>y \<in> set ys. \<not> ISALNUM y" "lead r (fst p) (snd p) = (uint (lead_of b), length ys)"
      using Cons.IH[OF True] by blast
    then show ?thesis unfolding p by (metis append_Cons)
  next
    case False
    then have "lead r x y = (x, y)" for x y by (induction r arbitrary: x y) auto
    then have "a # r = [] @ a # r \<and> ISALNUM a \<and> (\<forall>y \<in> set r. \<not> ISALNUM y) \<and> lead (a # r) c n = (uint (lead_of a), length r)"
      using False Cons.prems by auto
    then show ?thesis by blast
  qed
qed simp

lemma kind_ISALNUM: "kind a = kind b \<Longrightarrow> ISALNUM a \<longleftrightarrow> ISALNUM b"
  by (auto simp: kind_def first_of_def byte_kinds split: if_splits)

lemma kind_radix: "kind a = kind b \<Longrightarrow> ISALNUM a \<Longrightarrow> radix a = radix b \<and> first_of a = first_of b"
  using kind_ISALNUM[of a b] by (auto simp: kind_def radix_def first_of_def byte_kinds split: if_splits)

lemma places_kind: "map kind r = map kind s \<Longrightarrow> places r = places s"
proof (induction r arbitrary: s)
  case (Cons a r)
  then obtain b t where s: "s = b # t" "kind a = kind b" "map kind r = map kind t" by (cases s) auto
  then show ?case using Cons.IH[of t] kind_ISALNUM[OF s(2)] kind_radix[OF s(2)] by auto
qed simp

lemma inc_loop_spec:
  "inc_loop r = (r', stop) \<Longrightarrow> length r' = length r \<and>
    (if stop then num256 r' = num256 r + 1 else num256 r' = 0 \<and> num256 r + 1 = 256 ^ length r)"
proof (induction r arbitrary: r' stop)
  case (Cons b r)
  show ?case
  proof (cases "b + 1 = 0")
    case True
    then have "b = -1" by (simp add: eq_neg_iff_add_eq_0)
    moreover have "unat (-1 :: byte) = 255" by code_simp
    ultimately have b: "unat b = 255" by simp
    obtain q where "inc_loop r = (q, stop)" "r' = 0 # q" using Cons.prems True by (auto split: prod.splits)
    then show ?thesis using Cons.IH[of q stop] b by (auto split: if_splits)
  next
    case False
    then have "unat (b + 1) = unat b + 1" by (simp add: unat_eq_zero unatSuc add.commute)
    then show ?thesis using Cons.prems False by auto
  qed
qed simp

section \<open>What the successor is\<close>

definition has_alnum :: "byte list \<Rightarrow> bool" where
  "has_alnum s \<longleftrightarrow> (\<exists>b \<in> set s. ISALNUM b)"

definition value_of :: "byte list \<Rightarrow> nat" where "value_of s = rank (rev s)"
definition patterns :: "byte list \<Rightarrow> nat" where "patterns s = places (rev s)"
definition number :: "byte list \<Rightarrow> nat" where "number s = num256 (rev s)"

lemma succ_same_length:
  assumes "has_alnum s" "value_of s + 1 < patterns s"
  shows "map kind (rb_str_succ s) = map kind s \<and> value_of (rb_str_succ s) = value_of s + 1"
proof -
  obtain r c n stop where l: "succ_loop (rev s) (-1) 0 = (r, c, n, stop)" by (metis prod_cases4)
  note spec = succ_loop_spec[OF l]
  have stop: stop using spec assms(2) by (auto simp: value_of_def patterns_def split: if_splits)
  moreover have "s \<noteq> []" using assms(1) by (auto simp: has_alnum_def)
  ultimately have "rb_str_succ s = rev r" using l spec by (simp add: rb_str_succ_def)
  then show ?thesis using spec stop by (simp add: value_of_def rev_map[symmetric])
qed

lemma kind_plain:
  assumes "\<not> ISALNUM b" "kind a = kind b"
  shows "a = b"
proof -
  have "\<not> ISALNUM a" using kind_ISALNUM[OF assms(2)] assms(1) by blast
  then have "kind a = a" "kind b = b" using assms(1) unfolding kind_def by simp_all
  with assms(2) show ?thesis by metis
qed

lemma kind_plain_list: "map kind xs = map kind ys \<Longrightarrow> \<forall>y \<in> set ys. \<not> ISALNUM y \<Longrightarrow> xs = ys"
proof (induction xs arbitrary: ys)
  case (Cons a xs)
  then obtain b zs where "ys = b # zs" "kind a = kind b" "map kind xs = map kind zs" by (cases ys) auto
  then show ?case using Cons kind_plain[of b a] by auto
qed simp

lemma rank_append: "rank (xs @ ys) = rank xs + places xs * rank ys"
  by (induction xs) (auto simp: algebra_simps)

lemma rank_plain: "\<forall>x \<in> set xs. \<not> ISALNUM x \<Longrightarrow> rank xs = 0"
  by (induction xs) simp_all

lemma succ_longer:
  assumes "has_alnum s" "value_of s + 1 = patterns s"
  obtains xs b ys t where "s = xs @ b # ys" "\<forall>x \<in> set xs. \<not> ISALNUM x" "ISALNUM b"
    "rb_str_succ s = xs @ lead_of b # t" "map kind t = map kind (b # ys)" "value_of t = 0"
proof -
  obtain r c n stop where l: "succ_loop (rev s) (-1) 0 = (r, c, n, stop)" by (metis prod_cases4)
  note spec = succ_loop_spec[OF l]
  have stop: "\<not> stop" using spec assms(2) by (auto simp: value_of_def patterns_def split: if_splits)
  obtain zs b ys where z: "rev s = zs @ b # ys" "ISALNUM b" "\<forall>y \<in> set ys. \<not> ISALNUM y" "lead (rev s) (-1) 0 = (uint (lead_of b), length ys)"
    using lead_some[of "rev s" "-1" 0] assms(1) by (auto simp: has_alnum_def)
  from z(1) have s: "s = rev ys @ b # rev zs"
    by (metis append.assoc append_Cons append_Nil rev.simps(2) rev_append rev_rev_ident)
  have cn: "c = uint (lead_of b)" "n = length ys" and r: "map kind r = map kind (rev s)" "rank r = 0"
    using spec stop z(4) by simp_all
  have "c \<noteq> -1" using cn(1) uint_ge_0[of "lead_of b"] by linarith
  then have succ: "rb_str_succ s = take n (rev r) @ [lead_of b] @ drop n (rev r)"
    using l stop s cn(1) by (simp add: rb_str_succ_def Let_def)
  have kinds: "map kind (rev r) = map kind (rev ys) @ map kind (b # rev zs)"
    using r(1) s by (metis map_append rev_map rev_rev_ident)
  have k: "map kind (take n (rev r)) = map kind (rev ys)" "map kind (drop n (rev r)) = map kind (b # rev zs)"
    using kinds cn(2) by (simp_all add: take_map[symmetric] drop_map[symmetric] del: map_append)
  have "\<forall>y \<in> set (rev ys). \<not> ISALNUM y" using z(3) by simp
  then have pre: "take n (rev r) = rev ys" by (rule kind_plain_list[OF k(1)])
  have "value_of (drop n (rev r)) = 0"
  proof -
    have "rev (drop n (rev r)) @ rev (take n (rev r)) = r" by (metis append_take_drop_id rev_append rev_rev_ident)
    then have "rank r = rank (rev (drop n (rev r))) + places (rev (drop n (rev r))) * rank (rev (take n (rev r)))"
      using rank_append by metis
    then show ?thesis using r(2) unfolding value_of_def by linarith
  qed
  then show ?thesis using that[OF s _ z(2) _ k(2)] z(3) succ pre by simp
qed

lemma succ_plain:
  assumes "s \<noteq> []" "\<not> has_alnum s"
  shows "number (rb_str_succ s) = number s + 1 \<and>
    (length (rb_str_succ s) = length s \<or> (length (rb_str_succ s) = Suc (length s) \<and> number s + 1 = 256 ^ length s))"
proof -
  have l: "succ_loop (rev s) (-1) 0 = (rev s, -1, 0, False)" using assms(2) by (intro succ_loop_none) (simp add: has_alnum_def)
  obtain r stop where i: "inc_loop (rev s) = (r, stop)" by (cases "inc_loop (rev s)")
  note spec = inc_loop_spec[OF i]
  have succ: "rb_str_succ s = (if stop then rev r else 1 # rev r)" using l i assms(1) by (simp add: rb_str_succ_def)
  have app: "num256 (xs @ [1]) = num256 xs + 256 ^ length xs" for xs by (induction xs) simp_all
  show ?thesis using spec succ app[of r] by (auto simp: number_def split: if_splits)
qed

section \<open>Iteration\<close>

text \<open>
  The strings yielded by \<open>upto\<close>; the loop need not end, and \<open>None\<close> says that it does not.
\<close>

partial_function (option) upto_loop :: "bool \<Rightarrow> byte list \<Rightarrow> byte list \<Rightarrow> byte list \<Rightarrow> byte list list option" where
  "upto_loop excl end' after_end current =
     (if current = after_end then Some []
      else if \<not> excl \<and> current = end' then Some [current]
      else
        (let succ = rb_str_succ current in
         if excl \<and> succ = end' then Some [current]
         else if length succ > length end' then Some [current]
         else Option.bind (upto_loop excl end' after_end succ) (\<lambda>l. Some (current # l))))"

definition rb_str_upto :: "byte list \<Rightarrow> byte list \<Rightarrow> bool \<Rightarrow> byte list list option outcome" where
  "rb_str_upto beg end' excl =
     obind (rb_str_cmp False beg end') (\<lambda>n.
     if n > 0 \<or> excl \<and> n = 0 then return (Some [])
     else return (upto_loop excl end' (rb_str_succ end') beg))"

lemma has_alnum_kind: "map kind s = map kind t \<Longrightarrow> has_alnum s \<longleftrightarrow> has_alnum t"
proof (induction s arbitrary: t)
  case (Cons a s)
  then obtain b u where t: "t = b # u" "kind a = kind b" "map kind s = map kind u" by (cases t) auto
  then show ?case using Cons.IH[OF t(3)] kind_ISALNUM[OF t(2)] by (auto simp: has_alnum_def)
qed (simp add: has_alnum_def)

lemma patterns_kind: "map kind s = map kind t \<Longrightarrow> patterns s = patterns t"
  unfolding patterns_def by (rule places_kind) (metis rev_map)

lemma value_less_patterns: "value_of s < patterns s"
  by (simp add: value_of_def patterns_def rank_less_places)

lemma number_bound: "number s < 256 ^ length s"
proof -
  have "num256 r < 256 ^ length r" for r
  proof (induction r)
    case (Cons b r)
    have "unat b < 256" using unsigned_less[of b, where ?'a = nat] by simp
    then show ?case using Cons by simp
  qed simp
  from this[of "rev s"] show ?thesis by (simp add: number_def)
qed

definition upto_order :: "byte list \<Rightarrow> (byte list \<times> byte list) set" where
  "upto_order e = measures [\<lambda>c. Suc (length e) - length c, \<lambda>c. if has_alnum c then 0 else 1,
     \<lambda>c. if has_alnum c then patterns c - value_of c else 256 ^ length c - number c]"

lemma succ_step:
  assumes "c \<noteq> []" "length (rb_str_succ c) \<le> length e"
  shows "rb_str_succ c \<noteq> [] \<and> (rb_str_succ c, c) \<in> upto_order e"
proof -
  let ?n = "rb_str_succ c"
  consider "has_alnum c" "value_of c + 1 < patterns c" | "has_alnum c" "value_of c + 1 = patterns c" | "\<not> has_alnum c"
    using value_less_patterns[of c] by linarith
  then show ?thesis
  proof cases
    case 1
    note s = succ_same_length[OF 1]
    have "length ?n = length c" using s by (metis length_map)
    then show ?thesis using assms(1) 1 s has_alnum_kind[of ?n c] patterns_kind[of ?n c] by (auto simp: upto_order_def)
  next
    case 2
    then obtain xs b ys t where "c = xs @ b # ys" "?n = xs @ lead_of b # t" "map kind t = map kind (b # ys)"
      by (rule succ_longer)
    then have "length ?n = Suc (length c)" by (metis add_Suc_right length_Cons length_append length_map)
    then show ?thesis using assms(2) by (auto simp: upto_order_def)
  next
    case 3
    note s = succ_plain[OF assms(1) 3]
    then show ?thesis using assms number_bound[of c] 3 by (auto simp: upto_order_def)
  qed
qed

lemma wf_upto_order: "wf (upto_order e)"
  by (simp add: upto_order_def)

lemma upto_loop_total: "c \<noteq> [] \<Longrightarrow> \<exists>l. upto_loop excl e ae c = Some l"
  using wf_upto_order[of e]
proof (induction c rule: wf_induct_rule)
  case (less c)
  show ?case
  proof (cases "length (rb_str_succ c) \<le> length e")
    case True
    then have "\<exists>l. upto_loop excl e ae (rb_str_succ c) = Some l" using less succ_step[of c e] by blast
    then show ?thesis by (subst upto_loop.simps) (auto simp: Let_def)
  next
    case False
    then show ?thesis by (subst upto_loop.simps) (auto simp: Let_def)
  qed
qed

lemma upto_loop_empty:
  assumes "upto_loop excl e ae c = Some l"
  shows "c = [] \<longrightarrow> ae \<noteq> [] \<longrightarrow> e \<noteq> [] \<longrightarrow> False"
proof (rule upto_loop.raw_induct[OF _ assms])
  fix f excl e ae c l
  assume 1: "\<And>excl e ae c l. f excl e ae c = Some l \<Longrightarrow> c = [] \<longrightarrow> ae \<noteq> [] \<longrightarrow> e \<noteq> [] \<longrightarrow> False"
    "(if c = ae then Some [] else if \<not> excl \<and> c = e then Some [c]
      else let succ = rb_str_succ c in
        if excl \<and> succ = e then Some [c] else if length succ > length e then Some [c]
        else Option.bind (f excl e ae succ) (\<lambda>l. Some (c # l))) = Some l"
  show "c = [] \<longrightarrow> ae \<noteq> [] \<longrightarrow> e \<noteq> [] \<longrightarrow> False"
  proof (intro impI)
    assume ne: "c = []" "ae \<noteq> []" "e \<noteq> []"
    then have "Option.bind (f excl e ae []) (\<lambda>l. Some ([] # l)) = Some l" using 1(2) by (simp add: rb_str_succ_def split: if_splits)
    then obtain y where "f excl e ae [] = Some y" by (auto simp: bind_eq_Some_conv)
    from 1(1)[OF this] ne show False by simp
  qed
qed

section \<open>The order of strings of one pattern\<close>

lemma digit_order:
  assumes "kind a = kind b" "ISALNUM a"
  shows "a < b \<longleftrightarrow> digit_of a < digit_of b"
proof -
  have "first_of c \<le> c" if "ISALNUM c" for c using that by (auto simp: first_of_def byte_kinds)
  then have "first_of a \<le> a" "first_of b \<le> b" using assms kind_ISALNUM by blast+
  then show ?thesis using kind_radix[OF assms] by (auto simp: digit_of_def byte_order unat_sub)
qed

lemma value_Cons: "value_of (a # s) = value_of s + patterns s * (if ISALNUM a then digit_of a else 0)"
  by (simp add: value_of_def patterns_def rank_append)

lemma scaled_less:
  fixes u v p d e :: nat
  assumes "u < p" "v < p"
  shows "u + p * d < v + p * e \<longleftrightarrow> d < e \<or> d = e \<and> u < v"
proof -
  have less: "x + p * a < y + p * b" if "x < p" "a < b" for x y a b
  proof -
    have "p * Suc a \<le> p * b" using that(2) by (intro mult_left_mono) simp_all
    then show ?thesis using that(1) by simp
  qed
  show ?thesis using less[OF assms(1), of d e v] less[OF assms(2), of e d u] by (cases d e rule: linorder_cases) auto
qed

lemma value_order: "map kind s = map kind t \<Longrightarrow> (s, t) \<in> byte_less \<longleftrightarrow> value_of s < value_of t"
proof (induction s arbitrary: t)
  case (Cons a s)
  then obtain b u where t: "t = b # u" "kind a = kind b" "map kind s = map kind u" by (cases t) auto
  let ?d = "\<lambda>c. if ISALNUM c then digit_of c else 0"
  have "a < b \<longleftrightarrow> ?d a < ?d b" "a = b \<longleftrightarrow> ?d a = ?d b"
    using digit_order[OF t(2)] digit_order[OF t(2)[symmetric]] kind_ISALNUM[OF t(2)] kind_plain[OF _ t(2)]
    by (auto simp: not_less_iff_gr_or_eq)
  then show ?case unfolding t(1) value_Cons
    using Cons.IH[OF t(3)] value_less_patterns[of s] value_less_patterns[of u] patterns_kind[OF t(3)]
    by (simp add: byte_less_def scaled_less)
qed (simp add: byte_less_def)

lemma value_inj: "map kind s = map kind t \<Longrightarrow> value_of s = value_of t \<Longrightarrow> s = t"
  using lexord_linear[of "{(a, b :: byte). a < b}" s t] value_order[of s t] value_order[of t s]
  by (simp add: byte_less_def) (metis linorder_less_linear)

lemma succ_ahead:
  assumes "has_alnum e" "map kind c = map kind e" "value_of c \<le> value_of e"
  shows "c \<noteq> rb_str_succ e"
proof (cases "value_of e + 1 < patterns e")
  case True
  then show ?thesis using succ_same_length[OF assms(1) True] assms(3) by auto
next
  case False
  then have "value_of e + 1 = patterns e" using value_less_patterns[of e] by linarith
  then obtain xs b ys t where "e = xs @ b # ys" "rb_str_succ e = xs @ lead_of b # t" "map kind t = map kind (b # ys)"
    by (rule succ_longer[OF assms(1)])
  then have "length (rb_str_succ e) = Suc (length e)" by (metis add_Suc_right length_Cons length_append length_map)
  then show ?thesis using assms(2) by (metis length_map n_not_Suc_n)
qed

lemma upto_run:
  assumes "has_alnum e" "map kind c = map kind e" "value_of c < value_of e \<or> \<not> excl \<and> value_of c = value_of e"
  shows "\<exists>l. upto_loop excl e (rb_str_succ e) c = Some l \<and>
    map value_of l = [value_of c ..< (if excl then value_of e else Suc (value_of e))] \<and> (\<forall>s \<in> set l. map kind s = map kind e)"
  using assms
proof (induction "value_of e - value_of c" arbitrary: c rule: less_induct)
  case less
  have ahead: "c \<noteq> rb_str_succ e" using less.prems by (intro succ_ahead) auto
  show ?case
  proof (cases "value_of c = value_of e")
    case True
    then have "c = e" using value_inj[OF less.prems(2)] by simp
    then show ?thesis using ahead True less.prems(3) by (subst upto_loop.simps) auto
  next
    case False
    let ?n = "rb_str_succ c"
    have lt: "value_of c < value_of e" "value_of c + 1 < patterns c" "has_alnum c" "c \<noteq> e"
      using False less.prems value_less_patterns[of e] patterns_kind[OF less.prems(2)] has_alnum_kind[OF less.prems(2)] by auto
    note s = succ_same_length[OF lt(3,2)]
    have k: "map kind ?n = map kind e" using s less.prems(2) by simp
    then have len: "length ?n = length e" by (metis length_map)
    show ?thesis
    proof (cases "excl \<and> ?n = e")
      case True
      then have "value_of e = value_of c + 1" using s by simp
      then show ?thesis using True ahead lt less.prems(2) by (subst upto_loop.simps) auto
    next
      case going: False
      then have "value_of ?n < value_of e \<or> \<not> excl \<and> value_of ?n = value_of e"
        using lt(1) s value_inj[OF k] by (cases "value_of ?n = value_of e") auto
      moreover have "value_of e - value_of ?n < value_of e - value_of c" using lt(1) s by linarith
      ultimately obtain l where l: "upto_loop excl e (rb_str_succ e) ?n = Some l"
          "map value_of l = [value_of ?n ..< (if excl then value_of e else Suc (value_of e))]" "\<forall>s \<in> set l. map kind s = map kind e"
        using less.hyps[of ?n] less.prems(1) k by metis
      have "upto_loop excl e (rb_str_succ e) c = Some (c # l)"
        using ahead going lt(4) len l(1) by (subst upto_loop.simps) (auto simp: Let_def)
      moreover have "map value_of (c # l) = [value_of c ..< (if excl then value_of e else Suc (value_of e))]"
        using l(2) s lt(1) by (simp add: upt_rec[of "value_of c"])
      ultimately show ?thesis using l(3) less.prems(2) by auto
    qed
  qed
qed

section \<open>Properties\<close>

text \<open>
  C37. The successor of a string. The letters and digits of a string are the digits of a number in a
  mixed base, which the successor increments in place without changing the kind of any character or
  any other character; when the number is the largest of its pattern, all of them start again and
  one more character of the kind of the leftmost is put before it. A string without letters and
  digits is a number in base 256. The empty string is its own successor.
\<close>

theorem string_succ_correct:
  "rb_str_succ [] = [] \<and> value_of s < patterns s \<and>
   (has_alnum s \<and> value_of s + 1 < patterns s \<longrightarrow>
      map kind (rb_str_succ s) = map kind s \<and> value_of (rb_str_succ s) = value_of s + 1) \<and>
   (has_alnum s \<and> value_of s + 1 = patterns s \<longrightarrow>
      (\<exists>xs b ys t. s = xs @ b # ys \<and> (\<forall>x \<in> set xs. \<not> ISALNUM x) \<and> ISALNUM b \<and>
         rb_str_succ s = xs @ lead_of b # t \<and> map kind t = map kind (b # ys) \<and> value_of t = 0)) \<and>
   (s \<noteq> [] \<and> \<not> has_alnum s \<longrightarrow>
      number (rb_str_succ s) = number s + 1 \<and>
      (length (rb_str_succ s) = length s \<or> (length (rb_str_succ s) = Suc (length s) \<and> number s + 1 = 256 ^ length s)))"
proof (intro conjI)
  show "has_alnum s \<and> value_of s + 1 = patterns s \<longrightarrow>
      (\<exists>xs b ys t. s = xs @ b # ys \<and> (\<forall>x \<in> set xs. \<not> ISALNUM x) \<and> ISALNUM b \<and>
         rb_str_succ s = xs @ lead_of b # t \<and> map kind t = map kind (b # ys) \<and> value_of t = 0)"
    by (metis succ_longer)
qed (use succ_same_length[of s] succ_plain[of s] value_less_patterns[of s] in \<open>simp_all add: rb_str_succ_def\<close>)

theorem string_succ_correct_witness:
  "map kind (rb_str_succ [97, 57, 33]) = map kind [97, 57, 33] \<and> value_of (rb_str_succ [97, 57, 33]) = 10 \<and>
   rb_str_succ [97, 57, 33] = [98, 48, 33] \<and> rb_str_succ [90, 57] = [65, 65, 48] \<and> number (rb_str_succ [42, 255]) = 11008"
proof -
  have h: "has_alnum [97, 57, 33] \<and> value_of [97, 57, 33] + 1 < patterns [97, 57, 33]" "value_of [97, 57, 33] + 1 = 10"
    "[42, 255] \<noteq> ([] :: byte list) \<and> \<not> has_alnum [42, 255]" "number [42, 255] + 1 = 11008" by code_simp+
  have "map kind (rb_str_succ [97, 57, 33]) = map kind [97, 57, 33]" "value_of (rb_str_succ [97, 57, 33]) = 10"
    using string_succ_correct[of "[97, 57, 33]"] h(1,2) by metis+
  moreover have "number (rb_str_succ [42, 255]) = 11008" using string_succ_correct[of "[42, 255]"] h(3,4) by metis
  moreover have "rb_str_succ [97, 57, 33] = [98, 48, 33]" "rb_str_succ [90, 57] = [65, 65, 48]" by code_simp+
  ultimately show ?thesis by simp
qed

text \<open>
  Iteration from one string to another of the same pattern yields, in order and once each, exactly
  the strings of that pattern whose numbers lie between the two, the end included or not; a
  beginning above the end yields nothing. Within a pattern the order of the numbers is the byte
  order, and the number determines the string.
\<close>

theorem string_upto_range:
  assumes "has_alnum beg" "map kind beg = map kind e"
  shows "\<exists>l. rb_str_upto beg e excl = Inr (Some l) \<and>
    map value_of l = [value_of beg ..< (if excl then value_of e else Suc (value_of e))] \<and>
    (\<forall>s \<in> set l. map kind s = map kind e) \<and>
    (\<forall>s t. map kind s = map kind t \<longrightarrow>
       ((s, t) \<in> byte_less \<longleftrightarrow> value_of s < value_of t) \<and> (value_of s = value_of t \<longrightarrow> s = t))"
proof -
  have "\<exists>l. rb_str_upto beg e excl = Inr (Some l) \<and>
    map value_of l = [value_of beg ..< (if excl then value_of e else Suc (value_of e))] \<and> (\<forall>s \<in> set l. map kind s = map kind e)"
  proof (cases "value_of beg < value_of e \<or> \<not> excl \<and> value_of beg = value_of e")
    case True
    then have "beg = e \<or> (beg, e) \<in> byte_less" "excl \<longrightarrow> beg \<noteq> e"
      using value_order[OF assms(2)] value_inj[OF assms(2)] by auto
    then show ?thesis using upto_run[OF _ assms(2) True] has_alnum_kind[OF assms(2)] assms(1)
      by (auto simp: rb_str_upto_def rb_str_cmp_bytes)
  next
    case False
    then have "(beg, e) \<notin> byte_less" "\<not> excl \<longrightarrow> beg \<noteq> e" using value_order[OF assms(2)] by auto
    then show ?thesis using False by (auto simp: rb_str_upto_def rb_str_cmp_bytes)
  qed
  then show ?thesis using value_order value_inj by blast
qed

theorem string_upto_range_witness:
  "rb_str_upto [97, 56] [98, 49] False = Inr (Some [[97, 56], [97, 57], [98, 48], [98, 49]]) \<and>
   (\<exists>l. rb_str_upto [97, 56] [98, 49] False = Inr (Some l) \<and> map value_of l = [8 ..< 12])"
proof
  have "has_alnum [97, 56]" "map kind [97, 56] = map kind [98, 49]" "value_of [97, 56] = 8" "Suc (value_of [98, 49]) = 12" by code_simp+
  then show "\<exists>l. rb_str_upto [97, 56] [98, 49] False = Inr (Some l) \<and> map value_of l = [8 ..< 12]"
    using string_upto_range[of "[97, 56]" "[98, 49]" False] by auto
  have s: "rb_str_succ [97, 56] = [97, 57]" "rb_str_succ [97, 57] = [98, 48]" "rb_str_succ [98, 48] = [98, 49]" "rb_str_succ [98, 49] = [98, 50]"
    by code_simp+
  have "rb_str_cmp False [97, 56] [98, 49] = Inr (-1)" by code_simp
  then show "rb_str_upto [97, 56] [98, 49] False = Inr (Some [[97, 56], [97, 57], [98, 48], [98, 49]])"
    by (simp add: rb_str_upto_def s upto_loop.simps)
qed

text \<open>
  C36. Iteration from a string that is not empty comes to an end, whatever the two strings are: every
  step makes the string longer or its number larger, and a string longer than the end stops the loop.
  Iteration from the empty string to any other never ends, for the empty string is its own successor.
\<close>

theorem string_upto_ends:
  "(beg \<noteq> [] \<longrightarrow> (\<exists>l. rb_str_upto beg e excl = Inr (Some l))) \<and>
   (e \<noteq> [] \<longrightarrow> rb_str_upto [] e excl = Inr None)"
proof (intro conjI impI)
  assume "beg \<noteq> []"
  then show "\<exists>l. rb_str_upto beg e excl = Inr (Some l)"
    using upto_loop_total[of beg excl e "rb_str_succ e"] by (auto simp: rb_str_upto_def rb_str_cmp_bytes)
next
  assume e: "e \<noteq> []"
  have "([], e) \<in> byte_less" using e by (auto simp: byte_less_def neq_Nil_conv)
  moreover have "rb_str_succ e \<noteq> []"
    using e succ_step[of e "rb_str_succ e"] by simp
  then have "upto_loop excl e (rb_str_succ e) [] = None" using upto_loop_empty[of excl e "rb_str_succ e" "[]"] e by (cases "upto_loop excl e (rb_str_succ e) []") auto
  ultimately show "rb_str_upto [] e excl = Inr None" using e by (simp add: rb_str_upto_def rb_str_cmp_bytes)
qed

theorem string_upto_ends_witness:
  "(\<exists>l. rb_str_upto [42] [97, 97] False = Inr (Some l)) \<and> rb_str_upto [] [97] False = Inr None"
  using string_upto_ends[of "[42]" "[97, 97]" False] string_upto_ends[of "[]" "[97]" False] by simp

end
