(* ===== verification/QSort.thy ===== *)
theory QSort
  imports Prelude "HOL-Library.Multiset"
begin

text \<open>
  The quick sort of \<^verbatim>\<open>src/ruby/util.c\<close> (\<open>ruby_qsort\<close>). Positions are counted in elements from \<open>base\<close>
  and are integers, so that a pointer may leave the array; an access outside it is \<open>Undefined\<close>. The
  comparison is called with two elements and a state of its own, the state of the Ruby program,
  and may raise.
\<close>

section \<open>Elements\<close>

type_synonym ('a, 's) comparison = "'a \<Rightarrow> 'a \<Rightarrow> 's \<Rightarrow> (int \<times> 's) outcome"

definition item :: "'a list \<Rightarrow> int \<Rightarrow> 'a outcome" where
  "item xs i = (if 0 \<le> i \<and> i < int (length xs) then return (xs ! nat i) else raise Undefined)"

definition cmp_at :: "('a, 's) comparison \<Rightarrow> 'a list \<Rightarrow> int \<Rightarrow> int \<Rightarrow> 's \<Rightarrow> (int \<times> 's) outcome" where
  "cmp_at cmp xs i j s = obind (item xs i) (\<lambda>a. obind (item xs j) (\<lambda>b. cmp a b s))"

text \<open>
  The elements are \<open>VALUE\<close>s, four aligned bytes, for which \<open>mmprepare\<close> chooses the exchange of whole words
  (\<open>mmkind = 0\<close>, \<open>high = 0\<close>, \<open>low = 4\<close>).
\<close>

definition mmswap :: "'a list \<Rightarrow> int \<Rightarrow> int \<Rightarrow> 'a list outcome" where
  "mmswap xs a b =
     (if a = b then return xs
      else obind (item xs a) (\<lambda>x. obind (item xs b) (\<lambda>y. return (xs[nat a := y, nat b := x]))))"

definition mmrot3 :: "'a list \<Rightarrow> int \<Rightarrow> int \<Rightarrow> int \<Rightarrow> 'a list outcome" where
  "mmrot3 xs a b c =
     obind (item xs a) (\<lambda>x. obind (item xs b) (\<lambda>y. obind (item xs c) (\<lambda>z.
     return (xs[nat a := y, nat b := z, nat c := x]))))"

definition med3 :: "('a, 's) comparison \<Rightarrow> 'a list \<Rightarrow> int \<Rightarrow> int \<Rightarrow> int \<Rightarrow> 's \<Rightarrow> (int \<times> 's) outcome" where
  "med3 cmp xs a b c s =
     obind (cmp_at cmp xs a b s) (\<lambda>(t, s).
     if t < 0 then
       obind (cmp_at cmp xs b c s) (\<lambda>(t, s).
       if t < 0 then return (b, s)
       else obind (cmp_at cmp xs a c s) (\<lambda>(t, s). return (if t < 0 then c else a, s)))
     else
       obind (cmp_at cmp xs b c s) (\<lambda>(t, s).
       if t > 0 then return (b, s)
       else obind (cmp_at cmp xs a c s) (\<lambda>(t, s). return (if t < 0 then a else c, s))))"

section \<open>The median and the shape of a region\<close>

definition median :: "('a, 's) comparison \<Rightarrow> 'a list \<Rightarrow> int \<Rightarrow> int \<Rightarrow> 's \<Rightarrow> (int \<times> 's) outcome" where
  "median cmp xs l r s =
     (let t = r - l + 1; m = l + t div 2 in
      if t \<ge> 60 then
        obind
          (if t \<ge> 200 then
             (let t = t div 8 in
              obind (med3 cmp xs (l + t) (l + t + t) (l + t + t + t) s) (\<lambda>(m1, s).
              obind (med3 cmp xs (m + t) (m + t + t) (m + t + t + t) s) (\<lambda>(m3, s).
              return (m1, m3, s))))
           else (let t = t div 4 in return (l + t, m + t, s)))
          (\<lambda>(m1, m3, s). med3 cmp xs m1 m m3 s)
      else return (m, s))"

text \<open>The tests whether the region is already in order, and its reversal.\<close>

function check_up :: "('a, 's) comparison \<Rightarrow> 'a list \<Rightarrow> int \<Rightarrow> int \<Rightarrow> 's \<Rightarrow> (bool \<times> 's) outcome" where
  "check_up cmp xs p r s =
     (if p < r then obind (cmp_at cmp xs p (p + 1) s) (\<lambda>(t, s). if t > 0 then return (False, s) else check_up cmp xs (p + 1) r s)
      else return (True, s))"
  by pat_completeness auto
termination by (relation "measure (\<lambda>(cmp, xs, p, r, s). nat (r - p))") auto

function check_down :: "('a, 's) comparison \<Rightarrow> 'a list \<Rightarrow> int \<Rightarrow> int \<Rightarrow> 's \<Rightarrow> (bool \<times> 's) outcome" where
  "check_down cmp xs p r s =
     (if p < r then obind (cmp_at cmp xs p (p + 1) s) (\<lambda>(t, s). if t < 0 then return (False, s) else check_down cmp xs (p + 1) r s)
      else return (True, s))"
  by pat_completeness auto
termination by (relation "measure (\<lambda>(cmp, xs, p, r, s). nat (r - p))") auto

function reverse_region :: "'a list \<Rightarrow> int \<Rightarrow> int \<Rightarrow> 'a list outcome" where
  "reverse_region xs l r = (if l < r then obind (mmswap xs l r) (\<lambda>xs. reverse_region xs (l + 1) (r - 1)) else return xs)"
  by pat_completeness auto
termination by (relation "measure (\<lambda>(xs, l, r). nat (r - l))") auto

text \<open>Where the code goes on after the comparison of both ends with the median.\<close>

datatype goal = Nxt | LoopA | LoopB

function loop_555 :: "('a, 's) comparison \<Rightarrow> 'a list \<Rightarrow> int \<Rightarrow> int \<Rightarrow> int \<Rightarrow> int \<Rightarrow> 's \<Rightarrow> (goal \<times> 'a list \<times> 's) outcome" where
  "loop_555 cmp xs L l r m s =
     (let l = l + 1 in
      if l = r then return (Nxt, xs, s)
      else if l = m then loop_555 cmp xs L l r m s
      else
        obind (cmp_at cmp xs l m s) (\<lambda>(t, s).
        if t > 0 then obind (mmswap xs l r) (\<lambda>xs. return (LoopA, xs, s))
        else if t < 0 then obind (mmswap xs L l) (\<lambda>xs. return (LoopB, xs, s))
        else loop_555 cmp xs L l r m s))"
  by pat_completeness auto
termination
  by (relation "measure (\<lambda>(cmp, xs, L, l, r, m, s). nat (max (int (length xs)) (m + 1) - l))")
    (auto simp: cmp_at_def item_def split: if_splits)

definition shape :: "('a, 's) comparison \<Rightarrow> 'a list \<Rightarrow> int \<Rightarrow> int \<Rightarrow> int \<Rightarrow> int \<Rightarrow> 's \<Rightarrow> (goal \<times> 'a list \<times> int \<times> 's) outcome" where
  "shape cmp xs chklim l r m s =
     (let nel = int (length xs); go = (\<lambda>g xs s. return (g, xs, chklim, s)) in
      obind (cmp_at cmp xs l m s) (\<lambda>(t, s).
      if t < 0 then
        obind (cmp_at cmp xs m r s) (\<lambda>(t, s).
        if t < 0 then
          (if chklim \<noteq> 0 \<and> nel \<ge> chklim then
             obind (check_up cmp xs l r s) (\<lambda>(ok, s). return (if ok then Nxt else LoopA, xs, 0, s))
           else go LoopA xs s)
        else if t > 0 then
          obind (cmp_at cmp xs l r s) (\<lambda>(t, s).
          if t \<le> 0 then obind (mmswap xs m r) (\<lambda>xs. go LoopA xs s)
          else obind (mmrot3 xs r m l) (\<lambda>xs. go LoopA xs s))
        else go LoopB xs s)
      else if t > 0 then
        obind (cmp_at cmp xs m r s) (\<lambda>(t, s).
        if t > 0 then
          (if chklim \<noteq> 0 \<and> nel \<ge> chklim then
             obind (check_down cmp xs l r s) (\<lambda>(ok, s).
             if ok then obind (reverse_region xs l r) (\<lambda>xs. return (Nxt, xs, 0, s))
             else obind (mmswap xs l r) (\<lambda>xs. return (LoopA, xs, 0, s)))
           else obind (mmswap xs l r) (\<lambda>xs. go LoopA xs s))
        else if t < 0 then
          obind (cmp_at cmp xs l r s) (\<lambda>(t, s).
          if t \<le> 0 then obind (mmswap xs l m) (\<lambda>xs. go LoopB xs s)
          else obind (mmrot3 xs l m r) (\<lambda>xs. go LoopA xs s))
        else obind (mmswap xs l r) (\<lambda>xs. go LoopA xs s))
      else
        obind (cmp_at cmp xs m r s) (\<lambda>(t, s).
        if t < 0 then go LoopA xs s
        else if t > 0 then obind (mmswap xs l r) (\<lambda>xs. go LoopB xs s)
        else obind (loop_555 cmp xs l l r m s) (\<lambda>(g, xs, s). go g xs s))))"

section \<open>Splitting\<close>

text \<open>
  The loops A and B alternate between a search from one end and a search from the other; \<open>scan\<close> says
  which of the two inner loops runs.
\<close>

datatype scan = First | Second

text \<open>What a split leaves: the array, the inner ends of the two groups, and \<open>eq_l\<close> and \<open>eq_r\<close>.\<close>

type_synonym ('a, 's) split = "'a list \<times> int \<times> int \<times> bool \<times> bool \<times> 's"

definition finA :: "'a list \<Rightarrow> int \<Rightarrow> int \<Rightarrow> int \<Rightarrow> bool \<Rightarrow> bool \<Rightarrow> 's \<Rightarrow> ('a, 's) split outcome" where
  "finA xs l r m eq_l eq_r s =
     (let l = l - 1 in
      obind (if l \<noteq> m then mmswap xs m l else return xs) (\<lambda>xs. return (xs, l - 1, r, eq_l, eq_r, s)))"

definition finB :: "'a list \<Rightarrow> int \<Rightarrow> int \<Rightarrow> int \<Rightarrow> bool \<Rightarrow> bool \<Rightarrow> 's \<Rightarrow> ('a, 's) split outcome" where
  "finB xs l r m eq_l eq_r s =
     (let r = r + 1 in
      obind (if r \<noteq> m then mmswap xs r m else return xs) (\<lambda>xs. return (xs, l, r + 1, eq_l, eq_r, s)))"

function loopA :: "('a, 's) comparison \<Rightarrow> scan \<Rightarrow> 'a list \<Rightarrow> int \<Rightarrow> int \<Rightarrow> int \<Rightarrow> bool \<Rightarrow> bool \<Rightarrow> 's \<Rightarrow> ('a, 's) split outcome" where
  "loopA cmp First xs l r m eq_l eq_r s =
     (let l = l + 1 in
      if l = r then finA xs l r m eq_l eq_r s
      else if l = m then loopA cmp First xs l r m eq_l eq_r s
      else
        obind (cmp_at cmp xs l m s) (\<lambda>(t, s).
        if t > 0 then loopA cmp Second xs l r m eq_l False s
        else loopA cmp First xs l r m (if t < 0 then False else eq_l) eq_r s))"
| "loopA cmp Second xs l r m eq_l eq_r s =
     (let r = r - 1 in
      if l = r then finA xs l r m eq_l eq_r s
      else if r = m then obind (mmswap xs l r) (\<lambda>xs. loopA cmp First xs l r l eq_l eq_r s)
      else
        obind (cmp_at cmp xs r m s) (\<lambda>(t, s).
        if t < 0 then obind (mmswap xs l r) (\<lambda>xs. loopA cmp First xs l r m False eq_r s)
        else if t = 0 then obind (mmswap xs l r) (\<lambda>xs. loopA cmp First xs l r m eq_l eq_r s)
        else loopA cmp Second xs l r m eq_l eq_r s))"
  by pat_completeness auto
termination
  by (relation "measure (\<lambda>(cmp, i, xs, l, r, m, eq_l, eq_r, s). nat (max (int (length xs)) (m + 1) - l) + nat (r + 1))")
    (auto simp: cmp_at_def item_def mmswap_def split: if_splits)

function loopB :: "('a, 's) comparison \<Rightarrow> scan \<Rightarrow> 'a list \<Rightarrow> int \<Rightarrow> int \<Rightarrow> int \<Rightarrow> bool \<Rightarrow> bool \<Rightarrow> 's \<Rightarrow> ('a, 's) split outcome" where
  "loopB cmp First xs l r m eq_l eq_r s =
     (let r = r - 1 in
      if l = r then finB xs l r m eq_l eq_r s
      else if r = m then loopB cmp First xs l r m eq_l eq_r s
      else
        obind (cmp_at cmp xs r m s) (\<lambda>(t, s).
        if t < 0 then loopB cmp Second xs l r m False eq_r s
        else loopB cmp First xs l r m eq_l (if t > 0 then False else eq_r) s))"
| "loopB cmp Second xs l r m eq_l eq_r s =
     (let l = l + 1 in
      if l = r then finB xs l r m eq_l eq_r s
      else if l = m then obind (mmswap xs l r) (\<lambda>xs. loopB cmp First xs l r r eq_l eq_r s)
      else
        obind (cmp_at cmp xs l m s) (\<lambda>(t, s).
        if t > 0 then obind (mmswap xs l r) (\<lambda>xs. loopB cmp First xs l r m eq_l False s)
        else if t = 0 then obind (mmswap xs l r) (\<lambda>xs. loopB cmp First xs l r m eq_l eq_r s)
        else loopB cmp Second xs l r m eq_l eq_r s))"
  by pat_completeness auto
termination
  by (relation "measure (\<lambda>(cmp, i, xs, l, r, m, eq_l, eq_r, s). nat (int (length xs) - l) + nat (r + 1 + max 0 (- m)))")
    (auto simp: cmp_at_def item_def mmswap_def split: if_splits)

declare check_up.simps [simp del] check_down.simps [simp del] reverse_region.simps [simp del] loop_555.simps [simp del]
  loopA.simps [simp del] loopB.simps [simp del]

section \<open>The sort\<close>

text \<open>The region that is sorted next, after \<open>nxt\<close> or after a split.\<close>

type_synonym regions = "(int \<times> int) list"

definition STACK :: nat where "STACK = 32"

definition PUSH :: "int \<Rightarrow> int \<Rightarrow> regions \<Rightarrow> regions outcome" where
  "PUSH ll rr stack = (if length stack < STACK then return ((ll, rr) # stack) else raise Undefined)"

definition fin :: "int \<Rightarrow> int \<Rightarrow> int \<Rightarrow> int \<Rightarrow> bool \<Rightarrow> bool \<Rightarrow> regions \<Rightarrow> regions outcome" where
  "fin L R l r eq_l eq_r stack =
     (if \<not> eq_l then
        (if \<not> eq_r then
           (if l - L < R - r then obind (PUSH r R stack) (\<lambda>stack. return ((L, l) # stack))
            else obind (PUSH L l stack) (\<lambda>stack. return ((r, R) # stack)))
         else return ((L, l) # stack))
      else if \<not> eq_r then return ((r, R) # stack)
      else return stack)"

text \<open>One turn of the outer loop on the region \<open>L\<close>, \<open>R\<close>; the result has the next region on top of the stack.\<close>

definition turn :: "('a, 's) comparison \<Rightarrow> 'a list \<Rightarrow> int \<Rightarrow> int \<Rightarrow> regions \<Rightarrow> int \<Rightarrow> 's \<Rightarrow> ('a list \<times> regions \<times> int \<times> 's) outcome" where
  "turn cmp xs L R stack chklim s =
     (if L + 1 = R then
        obind (cmp_at cmp xs L R s) (\<lambda>(t, s).
        obind (if t > 0 then mmswap xs L R else return xs) (\<lambda>xs. return (xs, stack, chklim, s)))
      else
        obind (median cmp xs L R s) (\<lambda>(m, s).
        obind (shape cmp xs chklim L R m s) (\<lambda>(g, xs, chklim, s).
        case g of
          Nxt \<Rightarrow> return (xs, stack, chklim, s)
        | LoopA \<Rightarrow>
            obind (loopA cmp First xs L R m True True s) (\<lambda>(xs, l, r, eq_l, eq_r, s).
            obind (fin L R l r eq_l eq_r stack) (\<lambda>stack. return (xs, stack, chklim, s)))
        | LoopB \<Rightarrow>
            obind (loopB cmp First xs L R m True True s) (\<lambda>(xs, l, r, eq_l, eq_r, s).
            obind (fin L R l r eq_l eq_r stack) (\<lambda>stack. return (xs, stack, chklim, s))))))"

partial_function (option) qs_loop :: "('a, 's) comparison \<Rightarrow> 'a list \<Rightarrow> regions \<Rightarrow> int \<Rightarrow> 's \<Rightarrow> ('a list \<times> 's) outcome option" where
  "qs_loop cmp xs stack chklim s =
     (case stack of
        [] \<Rightarrow> Some (return (xs, s))
      | (L, R) # stack \<Rightarrow>
          (case turn cmp xs L R stack chklim s of
             Inl e \<Rightarrow> Some (raise e)
           | Inr (xs, stack, chklim, s) \<Rightarrow> qs_loop cmp xs stack chklim s))"

definition ruby_qsort :: "('a, 's) comparison \<Rightarrow> 'a list \<Rightarrow> 's \<Rightarrow> ('a list \<times> 's) outcome option" where
  "ruby_qsort cmp xs s =
     (if length xs \<le> 1 then Some (return (xs, s))
      else qs_loop cmp xs [(0, int (length xs) - 1)] 63 s)"

end
