(* ===== verification/QSort_Split.thy ===== *)
theory QSort_Split
  imports QSort
begin

text \<open>
  What one split of \<open>ruby_qsort\<close> does, for every comparison: it stays inside the region, permutes it, and
  leaves two groups that are smaller; and for a comparison that is an order the groups are on their
  sides of the median. Loop B is loop A on the reversed array with the reversed comparison.
\<close>

section \<open>Outcomes with a permitted set of errors\<close>

definition okay :: "(rb_error \<Rightarrow> bool) \<Rightarrow> 'a outcome \<Rightarrow> ('a \<Rightarrow> bool) \<Rightarrow> bool" where
  "okay E m Q = (case m of Inl e \<Rightarrow> E e | Inr x \<Rightarrow> Q x)"

lemma okay_simps [simp]: "okay E (Inr x) Q \<longleftrightarrow> Q x" "okay E (Inl e) Q \<longleftrightarrow> E e"
  by (simp_all add: okay_def)

lemma okay_obind: "okay E (obind m f) Q \<longleftrightarrow> okay E m (\<lambda>x. okay E (f x) Q)"
  by (cases m) simp_all

lemma okay_mono: "okay E m P \<Longrightarrow> (\<And>x. m = Inr x \<Longrightarrow> P x \<Longrightarrow> Q x) \<Longrightarrow> okay E m Q"
  by (cases m) simp_all

lemma okay_obindI: "okay E m P \<Longrightarrow> (\<And>x. m = Inr x \<Longrightarrow> P x \<Longrightarrow> okay E (f x) Q) \<Longrightarrow> okay E (obind m f) Q"
  by (cases m) simp_all

section \<open>Positions and permutations of a region\<close>

abbreviation ix :: "'a list \<Rightarrow> int \<Rightarrow> 'a" where "ix xs i \<equiv> xs ! nat i"
abbreviation inside :: "'a list \<Rightarrow> int \<Rightarrow> bool" where "inside xs i \<equiv> 0 \<le> i \<and> i < int (length xs)"

definition swapped :: "'a list \<Rightarrow> int \<Rightarrow> int \<Rightarrow> 'a list" where
  "swapped xs a b = xs[nat a := ix xs b, nat b := ix xs a]"

lemma ix_in: "set xs \<subseteq> D \<Longrightarrow> inside xs i \<Longrightarrow> ix xs i \<in> D"
  using nth_mem[of "nat i" xs] by (auto simp: nat_less_iff)

lemma length_swapped [simp]: "length (swapped xs a b) = length xs"
  by (simp add: swapped_def)

lemma ix_swapped: "inside xs a \<Longrightarrow> inside xs b \<Longrightarrow> 0 \<le> i \<Longrightarrow>
    ix (swapped xs a b) i = (if i = a then ix xs b else if i = b then ix xs a else ix xs i)"
  by (auto simp: swapped_def nth_list_update nat_eq_iff)

lemma mset_swapped: "inside xs a \<Longrightarrow> inside xs b \<Longrightarrow> mset (swapped xs a b) = mset xs"
  unfolding swapped_def by (rule mset_swap) (simp_all add: nat_less_iff)

lemma set_swapped: "inside xs a \<Longrightarrow> inside xs b \<Longrightarrow> set (swapped xs a b) = set xs"
  by (rule mset_eq_setD) (rule mset_swapped)

lemma swapped_same: "swapped xs a a = xs"
  by (simp add: swapped_def)

lemma mmswap_ok: "inside xs a \<Longrightarrow> inside xs b \<Longrightarrow> mmswap xs a b = Inr (swapped xs a b)"
  by (auto simp: mmswap_def item_def swapped_def)

definition perm_in :: "int \<Rightarrow> int \<Rightarrow> 'a list \<Rightarrow> 'a list \<Rightarrow> bool" where
  "perm_in L R xs ys \<longleftrightarrow> length ys = length xs \<and> mset ys = mset xs \<and>
     (\<forall>i. inside xs i \<longrightarrow> (if L \<le> i \<and> i \<le> R then \<exists>j. L \<le> j \<and> j \<le> R \<and> ix ys i = ix xs j else ix ys i = ix xs i))"

lemma perm_in_refl [simp]: "perm_in L R xs xs"
  by (auto simp: perm_in_def)

lemma perm_in_length: "perm_in L R xs ys \<Longrightarrow> length ys = length xs"
  by (simp add: perm_in_def)

lemma perm_in_set: "perm_in L R xs ys \<Longrightarrow> set ys = set xs"
  by (auto simp: perm_in_def dest: mset_eq_setD)

lemma perm_in_inside: "perm_in L R xs ys \<Longrightarrow> L \<le> i \<Longrightarrow> i \<le> R \<Longrightarrow> inside xs i \<Longrightarrow> \<exists>j. L \<le> j \<and> j \<le> R \<and> ix ys i = ix xs j"
  by (simp add: perm_in_def)

lemma perm_in_outside: "perm_in L R xs ys \<Longrightarrow> i < L \<or> R < i \<Longrightarrow> inside xs i \<Longrightarrow> ix ys i = ix xs i"
  by (auto simp: perm_in_def split: if_splits)

lemma perm_in_trans:
  assumes "perm_in L R xs ys" "perm_in L R ys zs" "0 \<le> L" "R < int (length xs)"
  shows "perm_in L R xs zs"
proof -
  have len: "length ys = length xs" using assms(1) by (rule perm_in_length)
  have "if L \<le> i \<and> i \<le> R then \<exists>j. L \<le> j \<and> j \<le> R \<and> ix zs i = ix xs j else ix zs i = ix xs i" if i: "inside xs i" for i
  proof (cases "L \<le> i \<and> i \<le> R")
    case True
    then obtain j where j: "L \<le> j" "j \<le> R" "ix zs i = ix ys j" using perm_in_inside[OF assms(2)] i len by metis
    then obtain k where "L \<le> k" "k \<le> R" "ix ys j = ix xs k" using perm_in_inside[OF assms(1), of j] assms(3,4) by force
    then show ?thesis using True j(3) by auto
  next
    case False
    then have "ix zs i = ix ys i" "ix ys i = ix xs i"
      using perm_in_outside[OF assms(2), of i] perm_in_outside[OF assms(1), of i] i len by auto
    then show ?thesis using False by auto
  qed
  then show ?thesis using assms(1,2) by (simp add: perm_in_def)
qed

lemma perm_in_swapped:
  assumes "0 \<le> L" "R < int (length xs)" "L \<le> a" "a \<le> R" "L \<le> b" "b \<le> R"
  shows "perm_in L R xs (swapped xs a b)"
proof -
  have ab: "inside xs a" "inside xs b" using assms by auto
  have "if L \<le> i \<and> i \<le> R then \<exists>j. L \<le> j \<and> j \<le> R \<and> ix (swapped xs a b) i = ix xs j else ix (swapped xs a b) i = ix xs i"
    if "inside xs i" for i
    using ix_swapped[OF ab, of i] that assms(3-6) by auto
  then show ?thesis using mset_swapped[OF ab] by (simp add: perm_in_def)
qed

section \<open>The contract of a comparison\<close>

text \<open>
  \<open>E\<close> are the errors that the comparison may raise on elements of \<open>D\<close>. When \<open>ord\<close> holds the comparison answers by the
  sign of \<open>c\<close>, a total preorder, whatever its state; without \<open>ord\<close> it may answer anything.
\<close>

locale compared =
  fixes cmp :: "('a, 's) comparison" and D :: "'a set" and E :: "rb_error \<Rightarrow> bool" and ord :: bool and c :: "'a \<Rightarrow> 'a \<Rightarrow> int"
  assumes answers: "a \<in> D \<Longrightarrow> b \<in> D \<Longrightarrow> okay E (cmp a b s) (\<lambda>(t, s'). ord \<longrightarrow> t = c a b)"
    and turned: "ord \<Longrightarrow> c a b < 0 \<longleftrightarrow> 0 < c b a"
    and chained: "ord \<Longrightarrow> c a b \<le> 0 \<Longrightarrow> c b d \<le> 0 \<Longrightarrow> c a d \<le> 0"
begin

lemma cmp_at_ok: "set xs \<subseteq> D \<Longrightarrow> inside xs i \<Longrightarrow> inside xs j \<Longrightarrow> okay E (cmp_at cmp xs i j s) (\<lambda>(t, s'). ord \<longrightarrow> t = c (ix xs i) (ix xs j))"
  using answers[OF ix_in ix_in, of xs i xs j s] by (simp add: cmp_at_def item_def)

lemma le_refl: "ord \<Longrightarrow> c a a = 0"
  using turned[of a a] by auto

lemma le_flip: "ord \<Longrightarrow> 0 \<le> c a b \<longleftrightarrow> c b a \<le> 0"
  using turned[of a b] by auto

lemma eq_flip: "ord \<Longrightarrow> c a b = 0 \<longleftrightarrow> c b a = 0"
  using turned[of a b] turned[of b a] by auto

lemma lt_le: "ord \<Longrightarrow> c a b < 0 \<Longrightarrow> c b d \<le> 0 \<Longrightarrow> c a d < 0"
  using chained[of b d a] le_flip[of a d] turned[of a b] by (cases "c a d < 0") (auto simp: not_less le_flip)

lemma le_lt: "ord \<Longrightarrow> c a b \<le> 0 \<Longrightarrow> c b d < 0 \<Longrightarrow> c a d < 0"
  using chained[of d a b] le_flip[of a d] le_flip[of b d] by (cases "c a d < 0") (auto simp: not_less)


text \<open>
  The state of loop A: the positions up to \<open>k\<close> belong to the left group, those from \<open>r\<close> on to the right
  one, and the median is at \<open>m\<close>.
\<close>

definition groups :: "int \<Rightarrow> int \<Rightarrow> 'a list \<Rightarrow> int \<Rightarrow> int \<Rightarrow> int \<Rightarrow> bool \<Rightarrow> bool \<Rightarrow> bool" where
  "groups L R xs k r m eq_l eq_r \<longleftrightarrow>
     set xs \<subseteq> D \<and> 0 \<le> L \<and> R < int (length xs) \<and> L \<le> k \<and> k < r \<and> r \<le> R \<and> L < m \<and> m < r \<and>
     (\<not> eq_l \<longrightarrow> L + (if m \<le> k then 2 else 1) \<le> k) \<and> (eq_r \<longrightarrow> r = R)"

definition sides :: "int \<Rightarrow> int \<Rightarrow> 'a list \<Rightarrow> int \<Rightarrow> int \<Rightarrow> int \<Rightarrow> bool \<Rightarrow> bool" where
  "sides L R xs k r m eq_l \<longleftrightarrow>
     (\<forall>i. L \<le> i \<and> i \<le> k \<longrightarrow> c (ix xs i) (ix xs m) \<le> 0) \<and>
     (\<forall>i. r \<le> i \<and> i \<le> R \<longrightarrow> c (ix xs m) (ix xs i) < 0) \<and>
     (eq_l \<longrightarrow> (\<forall>i. L < i \<and> i \<le> k \<longrightarrow> c (ix xs m) (ix xs i) \<le> 0))"

definition invA :: "scan \<Rightarrow> int \<Rightarrow> int \<Rightarrow> 'a list \<Rightarrow> int \<Rightarrow> int \<Rightarrow> int \<Rightarrow> bool \<Rightarrow> bool \<Rightarrow> bool" where
  "invA i L R xs l r m eq_l eq_r \<longleftrightarrow>
     (case i of
        First \<Rightarrow> groups L R xs l r m eq_l eq_r \<and> (\<not> eq_r \<longrightarrow> r < R) \<and> (ord \<longrightarrow> sides L R xs l r m eq_l)
      | Second \<Rightarrow> groups L R xs (l - 1) r m eq_l False \<and> \<not> eq_r \<and> l < r \<and> m \<noteq> l \<and>
          (ord \<longrightarrow> sides L R xs (l - 1) r m eq_l \<and> c (ix xs m) (ix xs l) < 0))"

definition split_ok :: "int \<Rightarrow> int \<Rightarrow> 'a list \<Rightarrow> ('a, 's) split \<Rightarrow> bool" where
  "split_ok L R xs = (\<lambda>(ys, l, r, eq_l, eq_r, s).
     perm_in L R xs ys \<and> L \<le> l \<and> l + 2 = r \<and> r \<le> R \<and> (\<not> eq_l \<longrightarrow> L < l) \<and> (\<not> eq_r \<longrightarrow> r < R) \<and>
     (ord \<longrightarrow> (\<forall>i j. L \<le> i \<and> i < j \<and> j \<le> R \<longrightarrow>
        c (ix ys i) (ix ys j) \<le> 0 \<or> \<not> eq_l \<and> j \<le> l \<or> \<not> eq_r \<and> r \<le> i)))"

lemma finA_order:
  assumes ord "sides L R xs k r k eq_l" "r = k + 1" "eq_r \<longrightarrow> r = R" "L \<le> i" "i < j" "j \<le> R"
  shows "c (ix xs i) (ix xs j) \<le> 0 \<or> \<not> eq_l \<and> j \<le> k - 1 \<or> \<not> eq_r \<and> r \<le> i"
proof -
  consider "r \<le> i" | "i \<le> k" "r \<le> j" | "j = k" | "j < k" using assms(3) by linarith
  then show ?thesis
  proof cases
    case 1
    then show ?thesis using assms by auto
  next
    case 2
    then have "c (ix xs i) (ix xs k) \<le> 0" "c (ix xs k) (ix xs j) < 0" using assms(2,5,7) by (simp_all add: sides_def)
    then show ?thesis using le_lt[OF assms(1), of "ix xs i" "ix xs k" "ix xs j"] by simp
  next
    case 3
    then show ?thesis using assms(2,5,6) by (simp add: sides_def)
  next
    case 4
    then have "eq_l \<Longrightarrow> c (ix xs i) (ix xs k) \<le> 0 \<and> c (ix xs k) (ix xs j) \<le> 0" using assms(2,5,6) by (simp add: sides_def)
    then show ?thesis using chained[OF assms(1), of "ix xs i" "ix xs k" "ix xs j"] 4 by (cases eq_l) simp_all
  qed
qed

lemma sides_swap_median:
  assumes "sides L R xs k r m eq_l" "0 \<le> L" "R < int (length xs)" "L < m" "m \<le> k" "k < r" "r \<le> R" ord
  shows "sides L R (swapped xs m k) k r k eq_l"
proof -
  have mk: "inside xs m" "inside xs k" using assms by auto
  have at: "ix (swapped xs m k) i = (if i = m then ix xs k else if i = k then ix xs m else ix xs i)" if "L \<le> i" for i
    using ix_swapped[OF mk, of i] that assms(2) by simp
  have "ix (swapped xs m k) k = ix xs m" using at[of k] assms by auto
  then show ?thesis using assms at le_refl[OF assms(8)] by (auto simp: sides_def)
qed

lemma finA_ok:
  assumes "groups L R xs k r m eq_l eq_r" "r = k + 1" "\<not> eq_r \<longrightarrow> r < R" "ord \<longrightarrow> sides L R xs k r m eq_l"
  shows "okay E (finA xs (k + 1) r m eq_l eq_r s) (split_ok L R xs)"
proof -
  have g: "0 \<le> L" "R < int (length xs)" "L < m" "m \<le> k" "k < r" "r \<le> R" using assms(1,2) by (simp_all add: groups_def)
  then have mk: "inside xs m" "inside xs k" by auto
  have fin: "finA xs (k + 1) r m eq_l eq_r s = Inr (swapped xs m k, k - 1, r, eq_l, eq_r, s)"
    using mmswap_ok[OF mk] by (auto simp: finA_def swapped_same)
  have "perm_in L R xs (swapped xs m k)" using g by (intro perm_in_swapped) auto
  moreover have "sides L R (swapped xs m k) k r k eq_l" if ord
    using sides_swap_median[of L R xs k r m eq_l] assms(4) g that by blast
  then have "c (ix (swapped xs m k) i) (ix (swapped xs m k) j) \<le> 0 \<or> \<not> eq_l \<and> j \<le> k - 1 \<or> \<not> eq_r \<and> r \<le> i"
    if ord "L \<le> i" "i < j" "j \<le> R" for i j
    using finA_order[OF that(1) _ assms(2) _ that(2-4)] that(1) assms(1) by (auto simp: groups_def)
  ultimately show ?thesis using g assms(1-3) unfolding fin by (auto simp: split_ok_def groups_def split: if_splits)
qed

lemma up_step:
  assumes "invA First L R xs l r m eq_l eq_r" "l + 1 \<noteq> r"
  shows "l + 1 = m \<Longrightarrow> invA First L R xs (l + 1) r m eq_l eq_r"
    and "l + 1 \<noteq> m \<Longrightarrow> ord \<longrightarrow> 0 < c (ix xs (l + 1)) (ix xs m) \<Longrightarrow> invA Second L R xs (l + 1) r m eq_l False"
    and "l + 1 \<noteq> m \<Longrightarrow> ord \<longrightarrow> c (ix xs (l + 1)) (ix xs m) \<le> 0 \<and> (eq' \<longrightarrow> c (ix xs (l + 1)) (ix xs m) = 0) \<Longrightarrow>
      eq' \<longrightarrow> eq_l \<Longrightarrow> invA First L R xs (l + 1) r m eq' eq_r"
proof -
  have next_i: "i \<le> l + 1 \<longleftrightarrow> i \<le> l \<or> i = l + 1" for i by auto
  show "invA First L R xs (l + 1) r m eq_l eq_r" if "l + 1 = m"
    using assms that le_refl by (auto simp: invA_def groups_def sides_def next_i split: if_splits)
  show "invA Second L R xs (l + 1) r m eq_l False" if "l + 1 \<noteq> m" "ord \<longrightarrow> 0 < c (ix xs (l + 1)) (ix xs m)"
    using assms that turned by (auto simp: invA_def groups_def)
  show "invA First L R xs (l + 1) r m eq' eq_r"
    if "l + 1 \<noteq> m" "ord \<longrightarrow> c (ix xs (l + 1)) (ix xs m) \<le> 0 \<and> (eq' \<longrightarrow> c (ix xs (l + 1)) (ix xs m) = 0)" "eq' \<longrightarrow> eq_l"
  proof -
    have "groups L R xs (l + 1) r m eq' eq_r" using assms that by (auto simp: invA_def groups_def split: if_splits)
    moreover have "ord \<longrightarrow> sides L R xs l r m eq_l" using assms(1) by (simp add: invA_def)
    then have "ord \<longrightarrow> sides L R xs (l + 1) r m eq'"
      using that(2,3) eq_flip[of "ix xs (l + 1)" "ix xs m"] by (auto simp: sides_def next_i)
    ultimately show ?thesis using assms(1) by (simp add: invA_def)
  qed
qed

lemma swap_step:
  assumes "invA Second L R xs l r m eq_l eq_r" "l < r - 1" "ord \<longrightarrow> c (ix xs (r - 1)) (ix xs m) \<le> 0"
    "eq' \<longrightarrow> eq_l \<and> (ord \<longrightarrow> c (ix xs (r - 1)) (ix xs m) = 0)" "r - 1 = m \<longrightarrow> eq' = eq_l"
  shows "invA First L R (swapped xs l (r - 1)) l (r - 1) (if r - 1 = m then l else m) eq' eq_r"
proof -
  let ?ys = "swapped xs l (r - 1)" and ?m = "if r - 1 = m then l else m"
  have g: "0 \<le> L" "R < int (length xs)" "L < l" "l < r - 1" "r \<le> R" "L < m" "m < r" "m \<noteq> l" "\<not> eq_r"
    using assms(1,2) by (auto simp: invA_def groups_def)
  then have lr: "inside xs l" "inside xs (r - 1)" by auto
  have at: "ix ?ys i = (if i = l then ix xs (r - 1) else if i = r - 1 then ix xs l else ix xs i)" if "L \<le> i" for i
    using ix_swapped[OF lr, of i] that g(1) by simp
  have med: "ix ?ys ?m = ix xs m" using at[of l] at[of m] g by auto
  have "groups L R ?ys l (r - 1) ?m eq' eq_r"
    using g assms(1,5) set_swapped[OF lr] by (auto simp: invA_def groups_def split: if_splits)
  moreover have "ord \<longrightarrow> sides L R xs (l - 1) r m eq_l \<and> c (ix xs m) (ix xs l) < 0" using assms(1) by (simp add: invA_def)
  then have "sides L R ?ys l (r - 1) ?m eq'" if ord
  proof -
    from that have old: "sides L R xs (l - 1) r m eq_l" "c (ix xs m) (ix xs l) < 0" using \<open>ord \<longrightarrow> _ \<and> _\<close> by simp_all
    have "c (ix ?ys i) (ix xs m) \<le> 0" if "L \<le> i" "i \<le> l" for i
      using at[OF that(1)] that old(1) assms(3) \<open>ord\<close> g by (auto simp: sides_def)
    moreover have "c (ix xs m) (ix ?ys i) < 0" if "r - 1 \<le> i" "i \<le> R" for i
      using at[of i] that old g by (auto simp: sides_def)
    moreover have "c (ix xs m) (ix ?ys i) \<le> 0" if eq' "L < i" "i \<le> l" for i
      using at[of i] that old(1) assms(4) \<open>ord\<close> g eq_flip[OF \<open>ord\<close>, of "ix xs m" "ix xs (r - 1)"] by (auto simp: sides_def)
    ultimately show ?thesis unfolding sides_def med by blast
  qed
  ultimately show ?thesis using g by (simp add: invA_def)
qed

lemma down_step:
  assumes "invA Second L R xs l r m eq_l eq_r" "l \<noteq> r - 1" "r - 1 \<noteq> m" "ord \<longrightarrow> 0 < c (ix xs (r - 1)) (ix xs m)"
  shows "invA Second L R xs l (r - 1) m eq_l eq_r"
proof -
  have prev_i: "r - 1 \<le> i \<longleftrightarrow> r \<le> i \<or> i = r - 1" for i by auto
  show ?thesis using assms turned by (auto simp: invA_def groups_def sides_def prev_i)
qed

lemma down_fin:
  assumes "invA Second L R xs l r m eq_l eq_r" "l = r - 1"
  shows "okay E (finA xs l (r - 1) m eq_l eq_r s) (split_ok L R xs)"
proof -
  have prev_i: "r - 1 \<le> i \<longleftrightarrow> r \<le> i \<or> i = r - 1" for i by auto
  have "groups L R xs (l - 1) (r - 1) m eq_l eq_r" "\<not> eq_r \<longrightarrow> r - 1 < R" "ord \<longrightarrow> sides L R xs (l - 1) (r - 1) m eq_l"
    using assms by (auto simp: invA_def groups_def sides_def prev_i)
  from finA_ok[OF this(1) _ this(2,3)] assms(2) show ?thesis by simp
qed

lemma split_ok_swapped:
  assumes "okay E m (split_ok L R (swapped xs a b))" "0 \<le> L" "R < int (length xs)" "L \<le> a" "a \<le> R" "L \<le> b" "b \<le> R"
  shows "okay E m (split_ok L R xs)"
  using assms(1)
proof (rule okay_mono)
  fix x assume "split_ok L R (swapped xs a b) x"
  then show "split_ok L R xs x"
    using perm_in_trans[OF perm_in_swapped[OF assms(2-7)] _ assms(2,3)] by (auto simp: split_ok_def)
qed

lemma invA_bounds:
  assumes "invA i L R xs l r m eq_l eq_r"
  shows "0 \<le> L" "R < int (length xs)" "L \<le> l" "l < r" "r \<le> R" "L < m" "m < r" "i = Second \<Longrightarrow> L < l" "set xs \<subseteq> D"
  using assms by (auto simp: invA_def groups_def split: scan.splits)

lemma loopA_ok:
  "invA i L R xs l r m eq_l eq_r \<Longrightarrow> okay E (loopA cmp i xs l r m eq_l eq_r s) (split_ok L R xs)"
proof (induction "nat (r - l)" arbitrary: i xs l r m eq_l eq_r s rule: less_induct)
  case less
  note inv = less.prems
  note b = invA_bounds[OF inv]
  show ?case
  proof (cases i)
    case First
    note inv1 = inv[unfolded First]
    have dec: "nat (r - (l + 1)) < nat (r - l)" using b(4) by simp
    consider "l + 1 = r" | "l + 1 \<noteq> r" "l + 1 = m" | "l + 1 \<noteq> r" "l + 1 \<noteq> m" by blast
    then show ?thesis
    proof cases
      case 1
      have "okay E (finA xs (l + 1) r m eq_l eq_r s) (split_ok L R xs)"
        by (rule finA_ok) (use inv1 1 in \<open>auto simp: invA_def\<close>)
      then show ?thesis using 1 unfolding First by (subst loopA.simps) simp
    next
      case 2
      then show ?thesis using less.hyps[OF dec up_step(1)[OF inv1 2]] 2 unfolding First by (subst loopA.simps) simp
    next
      case 3
      have at: "okay E (cmp_at cmp xs (l + 1) m s) (\<lambda>(t, s'). ord \<longrightarrow> t = c (ix xs (l + 1)) (ix xs m))"
        using b 3(1) by (intro cmp_at_ok) simp_all
      have turn: "okay E (loopA cmp Second xs (l + 1) r m eq_l False s') (split_ok L R xs)"
        if "ord \<longrightarrow> t = c (ix xs (l + 1)) (ix xs m)" "0 < t" for t s'
        by (rule less.hyps[OF dec up_step(2)[OF inv1 3]]) (use that in auto)
      have stay: "okay E (loopA cmp First xs (l + 1) r m (if t < 0 then False else eq_l) eq_r s') (split_ok L R xs)"
        if "ord \<longrightarrow> t = c (ix xs (l + 1)) (ix xs m)" "\<not> 0 < t" for t s'
        by (rule less.hyps[OF dec up_step(3)[OF inv1 3]]) (use that in \<open>auto split: if_splits\<close>)
      have "okay E (obind (cmp_at cmp xs (l + 1) m s) (\<lambda>(t, s). if t > 0 then loopA cmp Second xs (l + 1) r m eq_l False s
          else loopA cmp First xs (l + 1) r m (if t < 0 then False else eq_l) eq_r s)) (split_ok L R xs)"
      proof (rule okay_obindI[OF at], clarify)
        fix t s' assume h: "ord \<longrightarrow> t = c (ix xs (l + 1)) (ix xs m)"
        show "okay E (if t > 0 then loopA cmp Second xs (l + 1) r m eq_l False s'
          else loopA cmp First xs (l + 1) r m (if t < 0 then False else eq_l) eq_r s') (split_ok L R xs)"
          using turn[OF h, of s'] stay[OF h, of s'] by (cases "0 < t") simp_all
      qed
      then show ?thesis unfolding First using 3 by (subst loopA.simps) (simp add: Let_def)
    qed
  next
    case Second
    note inv2 = inv[unfolded Second]
    have dec: "nat ((r - 1) - l) < nat (r - l)" using b(4) by simp
    have ins: "inside xs l" "inside xs (r - 1)" "inside xs m" using b by auto
    have lift: "okay E m' (split_ok L R (swapped xs l (r - 1))) \<Longrightarrow> okay E m' (split_ok L R xs)" for m'
      by (erule split_ok_swapped) (use b in auto)
    consider "l = r - 1" | "l < r - 1" "r - 1 = m" | "l < r - 1" "r - 1 \<noteq> m" using b(4) by linarith
    then show ?thesis
    proof cases
      case 1
      then show ?thesis using down_fin[OF inv2 1] unfolding Second by (subst loopA.simps) (simp add: Let_def)
    next
      case 2
      have "invA First L R (swapped xs l (r - 1)) l (r - 1) l eq_l eq_r"
        using swap_step[OF inv2 2(1), of eq_l] 2(2) le_refl by simp
      then show ?thesis using lift[OF less.hyps[OF dec]] mmswap_ok[OF ins(1,2)] 2 unfolding Second by (subst loopA.simps) simp
    next
      case 3
      have at: "okay E (cmp_at cmp xs (r - 1) m s) (\<lambda>(t, s'). ord \<longrightarrow> t = c (ix xs (r - 1)) (ix xs m))"
        using ins b(9) by (intro cmp_at_ok) simp_all
      have turn: "okay E (loopA cmp First (swapped xs l (r - 1)) l (r - 1) m eq' eq_r s') (split_ok L R xs)"
        if "ord \<longrightarrow> t = c (ix xs (r - 1)) (ix xs m)" "t \<le> 0" "eq' \<longrightarrow> eq_l \<and> t = 0" for t s' eq'
      proof -
        have "invA First L R (swapped xs l (r - 1)) l (r - 1) (if r - 1 = m then l else m) eq' eq_r"
          by (rule swap_step[OF inv2 3(1)]) (use that 3(2) in auto)
        then show ?thesis using lift[OF less.hyps[OF dec, of First]] 3(2) by simp
      qed
      have stay: "okay E (loopA cmp Second xs l (r - 1) m eq_l eq_r s') (split_ok L R xs)"
        if "ord \<longrightarrow> t = c (ix xs (r - 1)) (ix xs m)" "0 < t" for t s'
        by (rule less.hyps[OF dec down_step[OF inv2 _ 3(2)]]) (use that 3(1) in auto)
      have "okay E (obind (cmp_at cmp xs (r - 1) m s) (\<lambda>(t, s).
          if t < 0 then loopA cmp First (swapped xs l (r - 1)) l (r - 1) m False eq_r s
          else if t = 0 then loopA cmp First (swapped xs l (r - 1)) l (r - 1) m eq_l eq_r s
          else loopA cmp Second xs l (r - 1) m eq_l eq_r s)) (split_ok L R xs)"
      proof (rule okay_obindI[OF at], clarify)
        fix t s' assume h: "ord \<longrightarrow> t = c (ix xs (r - 1)) (ix xs m)"
        show "okay E (if t < 0 then loopA cmp First (swapped xs l (r - 1)) l (r - 1) m False eq_r s'
          else if t = 0 then loopA cmp First (swapped xs l (r - 1)) l (r - 1) m eq_l eq_r s'
          else loopA cmp Second xs l (r - 1) m eq_l eq_r s') (split_ok L R xs)"
          using turn[OF h, of False s'] turn[OF h, of eq_l s'] stay[OF h, of s'] by (cases t "0 :: int" rule: linorder_cases) simp_all
      qed
      then show ?thesis unfolding Second using 3 mmswap_ok[OF ins(1,2)] by (subst loopA.simps) (simp add: Let_def cong: if_cong)
    qed
  qed
qed

end

section \<open>Loop B\<close>

definition mirrored :: "('a, 's) comparison \<Rightarrow> ('a, 's) comparison" where
  "mirrored cmp a b s = obind (cmp a b s) (\<lambda>(t, s'). Inr (- t, s'))"

lemma compared_mirrored:
  fixes cmp :: "('a, 's) comparison"
  assumes "compared cmp D E ord c"
  shows "compared (mirrored cmp) D E ord (\<lambda>a b. - c a b)"
proof
  fix a b d :: 'a and s :: 's
  show "okay E (mirrored cmp a b s) (\<lambda>(t, s'). ord \<longrightarrow> t = - c a b)" if "a \<in> D" "b \<in> D"
    using compared.answers[OF assms that, of s] by (cases "cmp a b s") (auto simp: mirrored_def)
  show "- c a b < 0 \<longleftrightarrow> 0 < - c b a" if ord using compared.turned[OF assms that, of b a] by auto
  show "- c a d \<le> 0" if ord "- c a b \<le> 0" "- c b d \<le> 0"
    using compared.chained[OF assms, of d b a] compared.le_flip[OF assms that(1)] that by auto
qed

definition mirror :: "'a list \<Rightarrow> int \<Rightarrow> int" where
  "mirror xs i = int (length xs) - 1 - i"

lemma mirror_simps [simp]: "mirror xs i = mirror xs j \<longleftrightarrow> i = j" "mirror xs (mirror xs i) = i" "mirror (rev xs) = mirror xs"
  "mirror (swapped xs a b) = mirror xs"
  by (auto simp: mirror_def fun_eq_iff)

lemma mirror_inside [simp]: "0 \<le> mirror xs i \<longleftrightarrow> i < int (length xs)" "mirror xs i < int (length xs) \<longleftrightarrow> 0 \<le> i"
  by (auto simp: mirror_def)

lemma mirror_order [simp]: "mirror xs i < mirror xs j \<longleftrightarrow> j < i" "mirror xs i \<le> mirror xs j \<longleftrightarrow> j \<le> i"
  by (auto simp: mirror_def)

lemma ix_rev: "inside xs i \<Longrightarrow> ix (rev xs) i = ix xs (mirror xs i)"
  by (simp add: mirror_def rev_nth nat_diff_distrib nat_less_iff)

lemma mirror_move: "mirror xs i + 1 = mirror xs (i - 1)" "mirror xs i - 1 = mirror xs (i + 1)"
  by (simp_all add: mirror_def)

lemma mirror_length: "length ys = length xs \<Longrightarrow> mirror ys = mirror xs"
  by (simp add: mirror_def fun_eq_iff)

lemma item_mirror: "item (rev xs) (mirror xs i) = item xs i"
  by (auto simp: item_def mirror_def rev_nth intro!: arg_cong[of _ _ "nth xs"])

lemma cmp_at_mirror: "cmp_at (mirrored cmp) (rev xs) (mirror xs i) (mirror xs j) s = obind (cmp_at cmp xs i j s) (\<lambda>(t, s'). Inr (- t, s'))"
  unfolding cmp_at_def item_mirror by (simp add: item_def mirrored_def)

lemma mmswap_mirror: "mmswap (rev xs) (mirror xs b) (mirror xs a) = obind (mmswap xs a b) (\<lambda>ys. Inr (rev ys))"
proof (cases "inside xs a \<and> inside xs b \<and> a \<noteq> b")
  case True
  then have ab: "inside xs a" "inside xs b" "inside (rev xs) (mirror xs a)" "inside (rev xs) (mirror xs b)" by (auto simp: mirror_def)
  have "swapped (rev xs) (mirror xs b) (mirror xs a) = rev (swapped xs a b)"
  proof (rule nth_equalityI)
    fix i assume i: "i < length (swapped (rev xs) (mirror xs b) (mirror xs a))"
    show "swapped (rev xs) (mirror xs b) (mirror xs a) ! i = rev (swapped xs a b) ! i"
      using ix_swapped[OF ab(4,3), of "int i"] ix_swapped[OF ab(1,2), of "mirror xs (int i)"]
        ix_rev[of "int i" "swapped xs a b"] ix_rev[of "int i" xs] ix_rev[of "mirror xs a" xs] ix_rev[of "mirror xs b" xs] i ab by auto
  qed simp
  then show ?thesis using ab by (simp add: mmswap_ok)
next
  case False
  then show ?thesis by (auto simp: mmswap_def item_def)
qed

lemma mmswap_sym: "mmswap xs a b = mmswap xs b a"
  by (auto simp: mmswap_def item_def list_update_swap)

abbreviation unmirror :: "'a list \<Rightarrow> ('a, 's) split outcome \<Rightarrow> ('a, 's) split outcome" where
  "unmirror xs m \<equiv> obind m (\<lambda>(ys, l, r, eq_l, eq_r, s). Inr (rev ys, mirror xs r, mirror xs l, eq_r, eq_l, s))"

lemma mmswap_length: "mmswap xs a b = Inr ys \<Longrightarrow> length ys = length xs"
  by (auto simp: mmswap_def obind_eq_Inr_iff split: if_splits)

lemma finB_mirror: "finB xs l r m eq_l eq_r s = unmirror xs (finA (rev xs) (mirror xs r) (mirror xs l) (mirror xs m) eq_r eq_l s)"
  by (cases "mmswap xs (r + 1) m") (auto simp: finA_def finB_def mmswap_mirror mirror_move Let_def)

lemma loopB_mirror:
  "loopB cmp i xs l r m eq_l eq_r s = unmirror xs (loopA (mirrored cmp) i (rev xs) (mirror xs r) (mirror xs l) (mirror xs m) eq_r eq_l s)"
proof (induction cmp i xs l r m eq_l eq_r s rule: loopB.induct)
  case (1 cmp xs l r m eq_l eq_r s)
  note simps = Let_def mirror_move cmp_at_mirror mirror_simps(1) eq_commute[of "r - 1" l]
  consider "l = r - 1" | "l \<noteq> r - 1" "r - 1 = m" | "l \<noteq> r - 1" "r - 1 \<noteq> m" by blast
  then show ?case
  proof cases
    case 1
    then show ?thesis by (subst loopB.simps, subst loopA.simps) (simp add: simps finB_mirror)
  next
    case 2
    then show ?thesis using "1.IH"(1)[OF refl 2] by (subst loopB.simps, subst loopA.simps) (simp add: simps)
  next
    case 3
    show ?thesis
    proof (cases "cmp_at cmp xs (r - 1) m s")
      case (Inl e)
      with 3 show ?thesis by (subst loopB.simps, subst loopA.simps) (simp add: simps)
    next
      case (Inr ts)
      obtain t s' where ts: "ts = (t, s')" by (cases ts)
      note IH = "1.IH"(2,3)[OF refl 3 Inr ts[symmetric]]
      show ?thesis using 3 Inr ts IH
        by (subst loopB.simps, subst loopA.simps) (cases t "0 :: int" rule: linorder_cases; simp add: simps)
    qed
  qed
next
  case (2 cmp xs l r m eq_l eq_r s)
  note simps = Let_def mirror_move cmp_at_mirror mmswap_mirror mirror_simps(1)
  consider "l + 1 = r" | "l + 1 \<noteq> r" "l + 1 = m" | "l + 1 \<noteq> r" "l + 1 \<noteq> m" by blast
  then show ?case
  proof cases
    case 1
    then show ?thesis by (subst loopB.simps, subst loopA.simps) (simp add: simps finB_mirror)
  next
    case 2
    show ?thesis
    proof (cases "mmswap xs (l + 1) r")
      case (Inl e)
      with 2 show ?thesis by (subst loopB.simps, subst loopA.simps) (simp add: simps)
    next
      case (Inr ys)
      then show ?thesis using 2 "2.IH"(1)[OF refl 2 Inr] mirror_length[OF mmswap_length[OF Inr]]
        by (subst loopB.simps, subst loopA.simps) (simp add: simps)
    qed
  next
    case 3
    show ?thesis
    proof (cases "cmp_at cmp xs (l + 1) m s")
      case (Inl e)
      with 3 show ?thesis by (subst loopB.simps, subst loopA.simps) (simp add: simps)
    next
      case (Inr ts)
      obtain t s' where ts: "ts = (t, s')" by (cases ts)
      note IH = "2.IH"(2,3,4)[OF refl 3 Inr ts[symmetric]]
      show ?thesis
      proof (cases "mmswap xs (l + 1) r")
        case (Inl e)
        show ?thesis using 3 \<open>cmp_at cmp xs (l + 1) m s = Inr ts\<close> ts IH(3) Inl
          by (subst loopB.simps, subst loopA.simps) (cases t "0 :: int" rule: linorder_cases; simp add: simps)
      next
        case (Inr ys)
        show ?thesis using 3 \<open>cmp_at cmp xs (l + 1) m s = Inr ts\<close> ts IH Inr mirror_length[OF mmswap_length[OF Inr]]
          by (subst loopB.simps, subst loopA.simps) (cases t "0 :: int" rule: linorder_cases; simp add: simps)
      qed
    qed
  qed
qed


lemma perm_in_mirror:
  assumes "perm_in (mirror xs R) (mirror xs L) (rev xs) ys" "0 \<le> L" "R < int (length xs)"
  shows "perm_in L R xs (rev ys)"
proof -
  have len: "length ys = length xs" using assms(1) by (simp add: perm_in_def)
  have "if L \<le> i \<and> i \<le> R then \<exists>j. L \<le> j \<and> j \<le> R \<and> ix (rev ys) i = ix xs j else ix (rev ys) i = ix xs i" if i: "inside xs i" for i
  proof -
    have at: "ix (rev ys) i = ix ys (mirror xs i)" using ix_rev[of i ys] i len mirror_length[OF len] by simp
    have old: "ix (rev xs) (mirror xs j) = ix xs j" if "inside xs j" for j using ix_rev[of "mirror xs j" xs] that by simp
    show ?thesis
    proof (cases "L \<le> i \<and> i \<le> R")
      case True
      then obtain j where j: "mirror xs R \<le> j" "j \<le> mirror xs L" "ix ys (mirror xs i) = ix (rev xs) j"
        using perm_in_inside[OF assms(1), of "mirror xs i"] i by auto
      have "L \<le> mirror xs j" "mirror xs j \<le> R" using j by (auto simp: mirror_def)
      moreover have "inside xs (mirror xs j)" using calculation assms(2,3) by linarith
      then have "ix xs (mirror xs j) = ix (rev xs) j" using old[of "mirror xs j"] by simp
      ultimately show ?thesis using True j(3) at by auto
    next
      case False
      then show ?thesis using perm_in_outside[OF assms(1), of "mirror xs i"] i at old[OF i] by auto
    qed
  qed
  then show ?thesis using assms(1) len by (simp add: perm_in_def)
qed

context compared
begin

lemma loopB_ok:
  assumes "0 \<le> L" "R < int (length xs)" "L < m" "m < R" "ord \<longrightarrow> c (ix xs L) (ix xs m) < 0 \<and> c (ix xs m) (ix xs R) \<le> 0"
    "set xs \<subseteq> D"
  shows "okay E (loopB cmp First xs L R m True True s) (split_ok L R xs)"
proof -
  let ?c = "\<lambda>a b. - c a b" and ?n = "mirror xs"
  have cm: "compared (mirrored cmp) D E ord ?c" by (rule compared_mirrored) (rule compared_axioms)
  have old: "ix (rev xs) (?n j) = ix xs j" if "inside xs j" for j using ix_rev[of "?n j" xs] that by simp
  have ends: "ix (rev xs) (?n L) = ix xs L" "ix (rev xs) (?n m) = ix xs m" "ix (rev xs) (?n R) = ix xs R"
    using assms by (auto intro!: old)
  have "compared.sides ?c (?n R) (?n L) (rev xs) (?n R) (?n L) (?n m) True" if ord
  proof -
    have only: "i = ?n L" if "?n L \<le> i" "i \<le> ?n L" for i using that by simp
    have only': "i = ?n R" if "?n R \<le> i" "i \<le> ?n R" for i using that by simp
    show ?thesis unfolding compared.sides_def[OF cm] using assms(5) that ends
      by (auto dest!: only only' simp: le_flip turned)
  qed
  then have inv: "compared.invA D ord ?c First (?n R) (?n L) (rev xs) (?n R) (?n L) (?n m) True True"
    unfolding compared.invA_def[OF cm] compared.groups_def[OF cm] using assms(1-4,6) by simp
  show ?thesis unfolding loopB_mirror okay_obind
  proof (rule okay_mono[OF compared.loopA_ok[OF cm inv]])
    fix x :: "('a, 's) split" assume "compared.split_ok ord ?c (?n R) (?n L) (rev xs) x"
    moreover obtain ys l r eq_l eq_r s' where x: "x = (ys, l, r, eq_l, eq_r, s')" by (cases x)
    ultimately have sp: "perm_in (?n R) (?n L) (rev xs) ys" "?n R \<le> l" "l + 2 = r" "r \<le> ?n L" "\<not> eq_l \<longrightarrow> ?n R < l" "\<not> eq_r \<longrightarrow> r < ?n L"
      and order: "ord \<longrightarrow> (\<forall>i j. ?n R \<le> i \<and> i < j \<and> j \<le> ?n L \<longrightarrow>
        - c (ix ys i) (ix ys j) \<le> 0 \<or> \<not> eq_l \<and> j \<le> l \<or> \<not> eq_r \<and> r \<le> i)"
      by (simp_all add: compared.split_ok_def[OF cm])
    have len: "length ys = length xs" using sp(1) by (simp add: perm_in_def)
    have "c (ix (rev ys) i) (ix (rev ys) j) \<le> 0 \<or> \<not> eq_r \<and> j \<le> ?n r \<or> \<not> eq_l \<and> ?n l \<le> i"
      if ord "L \<le> i" "i < j" "j \<le> R" for i j
    proof -
      have at: "ix (rev ys) k = ix ys (?n k)" if "inside xs k" for k using ix_rev[of k ys] that len mirror_length[OF len] by simp
      have "- c (ix ys (?n j)) (ix ys (?n i)) \<le> 0 \<or> \<not> eq_l \<and> ?n i \<le> l \<or> \<not> eq_r \<and> r \<le> ?n j"
        using order that by simp
      then show ?thesis using at[of i] at[of j] that assms(1,2) le_flip[OF that(1), of "ix ys (?n j)" "ix ys (?n i)"]
        by (auto simp: mirror_def)
    qed
    then show "okay E (case x of (ys, l, r, eq_l, eq_r, s) \<Rightarrow> Inr (rev ys, ?n r, ?n l, eq_r, eq_l, s)) (split_ok L R xs)"
      using perm_in_mirror[OF sp(1) assms(1,2)] sp(2-6) unfolding x by (auto simp: split_ok_def mirror_def)
  qed
qed

end

end
