(* ===== verification/QSort_Sort.thy ===== *)
theory QSort_Sort
  imports QSort_Split
begin

text \<open>
  \<open>ruby_qsort\<close> as a whole: the choice of the median and the classification of a region, one turn of the
  outer loop, the stack of pending regions, and the result.
\<close>

context compared
begin

section \<open>The median\<close>

lemma cmp_at_okD:
  assumes "set xs \<subseteq> D" "inside xs i" "inside xs j"
  shows "okay E (cmp_at cmp xs i j s) (\<lambda>_. True)"
  using cmp_at_ok[OF assms] by (rule okay_mono) simp

lemma med3_ok:
  assumes "set xs \<subseteq> D" "0 \<le> L" "R < int (length xs)" "L < a" "a < R" "L < b" "b < R" "L < d" "d < R"
  shows "okay E (med3 cmp xs a b d s) (\<lambda>(m, s'). L < m \<and> m < R)"
  unfolding med3_def using assms by (auto intro!: okay_obindI[OF cmp_at_okD])

lemma median_ok:
  assumes "0 \<le> L" "L + 1 < R" "R < int (length xs)" "set xs \<subseteq> D"
  shows "okay E (median cmp xs L R s) (\<lambda>(m, s'). L < m \<and> m < R)"
proof -
  define t where "t = R - L + 1"
  have t: "3 \<le> t" "R = L + t - 1" using assms(2) by (simp_all add: t_def)
  define m where "m = L + t div 2"
  have m: "L < m" "m < R" using t by (auto simp: m_def)
  note med3 = med3_ok[OF assms(4,1,3)]
  consider "t \<ge> 200" | "60 \<le> t" "t < 200" | "t < 60" by linarith
  then show ?thesis
  proof cases
    case 1
    let ?t = "t div 8"
    have p: "0 < ?t" "m + ?t + ?t + ?t < R" using 1 t by (auto simp: m_def)
    have "okay E (obind (med3 cmp xs (L + ?t) (L + ?t + ?t) (L + ?t + ?t + ?t) s) (\<lambda>(m1, s).
        obind (med3 cmp xs (m + ?t) (m + ?t + ?t) (m + ?t + ?t + ?t) s) (\<lambda>(m3, s). return (m1, m3, s))))
      (\<lambda>(m1, m3, s). L < m1 \<and> m1 < R \<and> L < m3 \<and> m3 < R)"
      using m p by (auto intro!: okay_obindI[OF med3])
    then have "okay E (obind (obind (med3 cmp xs (L + ?t) (L + ?t + ?t) (L + ?t + ?t + ?t) s) (\<lambda>(m1, s).
        obind (med3 cmp xs (m + ?t) (m + ?t + ?t) (m + ?t + ?t + ?t) s) (\<lambda>(m3, s). return (m1, m3, s))))
        (\<lambda>(m1, m3, s). med3 cmp xs m1 m m3 s)) (\<lambda>(m, s'). L < m \<and> m < R)"
      by (rule okay_obindI) (auto intro: med3 m)
    then show ?thesis unfolding median_def Let_def t_def[symmetric] m_def using 1 by simp
  next
    case 2
    have "okay E (med3 cmp xs (L + t div 4) m (m + t div 4) s) (\<lambda>(m, s'). L < m \<and> m < R)"
      by (rule med3) (use 2 t m in \<open>auto simp: m_def\<close>)
    then show ?thesis unfolding median_def Let_def t_def[symmetric] m_def using 2 by simp
  next
    case 3
    then show ?thesis unfolding median_def Let_def t_def[symmetric] using m by (simp add: m_def)
  qed
qed

section \<open>Regions in order\<close>

definition ordered :: "int \<Rightarrow> int \<Rightarrow> 'a list \<Rightarrow> bool" where
  "ordered L R xs \<longleftrightarrow> (\<forall>i j. L \<le> i \<and> i < j \<and> j \<le> R \<longrightarrow> c (ix xs i) (ix xs j) \<le> 0)"

lemma check_up_ok:
  "set xs \<subseteq> D \<Longrightarrow> 0 \<le> p \<Longrightarrow> r < int (length xs) \<Longrightarrow>
   okay E (check_up cmp xs p r s) (\<lambda>(ok, s'). ok \<longrightarrow> ord \<longrightarrow> (\<forall>i. p \<le> i \<and> i < r \<longrightarrow> c (ix xs i) (ix xs (i + 1)) \<le> 0))"
proof (induction "nat (r - p)" arbitrary: p s)
  case (Suc n)
  have step: "p \<le> i \<longleftrightarrow> i = p \<or> p + 1 \<le> i" for i by auto
  have IH: "okay E (check_up cmp xs (p + 1) r s')
      (\<lambda>(ok, s''). ok \<longrightarrow> ord \<longrightarrow> (\<forall>i. p + 1 \<le> i \<and> i < r \<longrightarrow> c (ix xs i) (ix xs (i + 1)) \<le> 0))" for s'
    using Suc by simp
  show ?case
    using Suc.hyps(2) Suc.prems
    by (subst check_up.simps) (auto simp: step intro!: okay_obindI[OF cmp_at_ok] okay_mono[OF IH])
qed (subst check_up.simps, simp)

lemma check_down_ok:
  "set xs \<subseteq> D \<Longrightarrow> 0 \<le> p \<Longrightarrow> r < int (length xs) \<Longrightarrow>
   okay E (check_down cmp xs p r s) (\<lambda>(ok, s'). ok \<longrightarrow> ord \<longrightarrow> (\<forall>i. p \<le> i \<and> i < r \<longrightarrow> 0 \<le> c (ix xs i) (ix xs (i + 1))))"
proof (induction "nat (r - p)" arbitrary: p s)
  case (Suc n)
  have step: "p \<le> i \<longleftrightarrow> i = p \<or> p + 1 \<le> i" for i by auto
  have IH: "okay E (check_down cmp xs (p + 1) r s')
      (\<lambda>(ok, s''). ok \<longrightarrow> ord \<longrightarrow> (\<forall>i. p + 1 \<le> i \<and> i < r \<longrightarrow> 0 \<le> c (ix xs i) (ix xs (i + 1))))" for s'
    using Suc by simp
  show ?case
    using Suc.hyps(2) Suc.prems
    by (subst check_down.simps) (auto simp: step intro!: okay_obindI[OF cmp_at_ok] okay_mono[OF IH])
qed (subst check_down.simps, simp)

lemma ordered_chain:
  assumes ord "\<forall>i. L \<le> i \<and> i < R \<longrightarrow> c (ix xs i) (ix xs (i + 1)) \<le> 0"
  shows "ordered L R xs"
  unfolding ordered_def
proof (intro allI impI)
  fix i j assume ij: "L \<le> i \<and> i < j \<and> j \<le> R"
  then show "c (ix xs i) (ix xs j) \<le> 0"
  proof (induction "nat (j - i - 1)" arbitrary: j)
    case 0
    then have "j = i + 1" by simp
    then show ?case using 0 assms(2) by simp
  next
    case (Suc n)
    then have "c (ix xs i) (ix xs (j - 1)) \<le> 0" by simp
    moreover have "c (ix xs (j - 1)) (ix xs j) \<le> 0" using assms(2)[rule_format, of "j - 1"] Suc by auto
    ultimately show ?case by (rule chained[OF assms(1)])
  qed
qed

end

lemma reverse_region_ok:
  "0 \<le> l \<Longrightarrow> r < int (length xs) \<Longrightarrow>
   \<exists>ys. reverse_region xs l r = Inr ys \<and> length ys = length xs \<and> mset ys = mset xs \<and>
     (\<forall>i. inside xs i \<longrightarrow> ix ys i = (if l \<le> i \<and> i \<le> r then ix xs (l + r - i) else ix xs i))"
proof (induction "nat (r - l)" arbitrary: xs l r rule: less_induct)
  case less
  show ?case
  proof (cases "l < r")
    case True
    let ?xs = "swapped xs l r"
    have lr: "inside xs l" "inside xs r" using True less.prems by auto
    obtain ys where ys: "reverse_region ?xs (l + 1) (r - 1) = Inr ys" "length ys = length xs" "mset ys = mset ?xs"
        "\<forall>i. inside xs i \<longrightarrow> ix ys i = (if l + 1 \<le> i \<and> i \<le> r - 1 then ix ?xs (l + r - i) else ix ?xs i)"
      using less.hyps[of "r - 1" "l + 1" ?xs] True less.prems by auto
    have "ix ys i = (if l \<le> i \<and> i \<le> r then ix xs (l + r - i) else ix xs i)" if i: "inside xs i" for i
      using ys(4)[rule_format, OF i] ix_swapped[OF lr, of i] ix_swapped[OF lr, of "l + r - i"] i True less.prems by auto
    then show ?thesis using ys(1-3) mset_swapped[OF lr] mmswap_ok[OF lr] True by (subst reverse_region.simps) simp
  next
    case False
    have same: "l + r - i = i" if "l \<le> i" "i \<le> r" for i using False that by simp
    show ?thesis using False by (subst reverse_region.simps) (auto simp: same)
  qed
qed


section \<open>The shape of a region\<close>

context compared
begin

text \<open>What holds where the code jumps to: an ordered region, or ends on the right sides of the median.\<close>

definition reached :: "int \<Rightarrow> int \<Rightarrow> int \<Rightarrow> goal \<Rightarrow> 'a list \<Rightarrow> bool" where
  "reached L R m g xs =
     (case g of
        Nxt \<Rightarrow> ordered L R xs
      | LoopA \<Rightarrow> c (ix xs L) (ix xs m) \<le> 0 \<and> c (ix xs m) (ix xs R) < 0
      | LoopB \<Rightarrow> c (ix xs L) (ix xs m) < 0 \<and> c (ix xs m) (ix xs R) \<le> 0)"

lemma loop_555_ok:
  "set xs \<subseteq> D \<Longrightarrow> 0 \<le> L \<Longrightarrow> R < int (length xs) \<Longrightarrow> L < m \<Longrightarrow> m < R \<Longrightarrow> L \<le> l \<Longrightarrow> l < R \<Longrightarrow>
   ord \<longrightarrow> c (ix xs R) (ix xs m) = 0 \<and> (\<forall>i. L \<le> i \<and> i \<le> l \<longrightarrow> c (ix xs i) (ix xs m) = 0) \<Longrightarrow>
   okay E (loop_555 cmp xs L l R m s) (\<lambda>(g, ys, s'). perm_in L R xs ys \<and> (ord \<longrightarrow> reached L R m g ys))"
proof (induction "nat (R - l)" arbitrary: l s)
  case (Suc n)
  have step: "i \<le> l + 1 \<longleftrightarrow> i \<le> l \<or> i = l + 1" for i by auto
  have IH: "okay E (loop_555 cmp xs L (l + 1) R m s') (\<lambda>(g, ys, s''). perm_in L R xs ys \<and> (ord \<longrightarrow> reached L R m g ys))"
    if "l + 1 \<noteq> R" "ord \<longrightarrow> c (ix xs (l + 1)) (ix xs m) = 0" for s'
    using Suc.hyps(2) Suc.prems that by (intro Suc.hyps(1)) (auto simp: step)
  consider "l + 1 = R" | "l + 1 \<noteq> R" "l + 1 = m" | "l + 1 \<noteq> R" "l + 1 \<noteq> m" by blast
  then show ?case
  proof cases
    case 1
    have "ordered L R xs" if ord
    proof -
      have eq: "c (ix xs i) (ix xs m) = 0" if "L \<le> i" "i \<le> R" for i
        using Suc.prems(8) \<open>ord\<close> 1 that by (cases "i = R") auto
      have "c (ix xs i) (ix xs j) \<le> 0" if "L \<le> i" "i \<le> R" "L \<le> j" "j \<le> R" for i j
        using eq[OF that(1,2)] eq[OF that(3,4)] eq_flip[OF \<open>ord\<close>, of "ix xs j" "ix xs m"]
          chained[OF \<open>ord\<close>, of "ix xs i" "ix xs m" "ix xs j"] by simp
      then show ?thesis by (simp add: ordered_def)
    qed
    then show ?thesis using 1 by (subst loop_555.simps) (simp add: reached_def)
  next
    case 2
    then show ?thesis using IH le_refl by (subst loop_555.simps) (simp add: Let_def)
  next
    case 3
    have ins: "inside xs L" "inside xs (l + 1)" "inside xs m" "inside xs R" using Suc.prems by auto
    have perm: "perm_in L R xs (swapped xs (l + 1) R)" "perm_in L R xs (swapped xs L (l + 1))"
      using Suc.prems by (auto intro!: perm_in_swapped)
    have at: "okay E (cmp_at cmp xs (l + 1) m s) (\<lambda>(t, s'). ord \<longrightarrow> t = c (ix xs (l + 1)) (ix xs m))"
      using Suc.prems(1) ins(2,3) by (rule cmp_at_ok)
    have big: "reached L R m LoopA (swapped xs (l + 1) R)" if ord "0 < c (ix xs (l + 1)) (ix xs m)"
      using Suc.prems 3 that ix_swapped[OF ins(2,4)] ins turned by (simp add: reached_def)
    have small: "reached L R m LoopB (swapped xs L (l + 1))" if ord "c (ix xs (l + 1)) (ix xs m) < 0"
      using Suc.prems 3 that ix_swapped[OF ins(1,2)] ins eq_flip[OF that(1), of "ix xs R"] by (simp add: reached_def)
    show ?thesis using 3 mmswap_ok[OF ins(2,4)] mmswap_ok[OF ins(1,2)] perm big small IH
      by (subst loop_555.simps) (auto simp: Let_def cong: if_cong intro!: okay_obindI[OF at])
  qed
qed simp


lemma mmrot3_ok:
  assumes "inside xs a" "inside xs b" "inside xs d" "a \<noteq> b" "a \<noteq> d" "b \<noteq> d"
  shows "mmrot3 xs a b d = Inr (swapped (swapped xs a b) b d)"
  using assms by (auto simp: mmrot3_def item_def swapped_def list_update_swap nat_eq_iff)

lemma reversed_ok:
  assumes "0 \<le> L" "L < R" "R < int (length xs)" "ord \<longrightarrow> (\<forall>i. L \<le> i \<and> i < R \<longrightarrow> 0 \<le> c (ix xs i) (ix xs (i + 1)))"
  shows "okay E (reverse_region xs L R) (\<lambda>ys. perm_in L R xs ys \<and> (ord \<longrightarrow> ordered L R ys))"
proof -
  obtain ys where ys: "reverse_region xs L R = Inr ys" "length ys = length xs" "mset ys = mset xs"
      "\<forall>i. inside xs i \<longrightarrow> ix ys i = (if L \<le> i \<and> i \<le> R then ix xs (L + R - i) else ix xs i)"
    using reverse_region_ok[OF assms(1,3)] by blast
  have "\<exists>j. L \<le> j \<and> j \<le> R \<and> ix ys i = ix xs j" if "inside xs i" "L \<le> i" "i \<le> R" for i
    by (rule exI[of _ "L + R - i"]) (use ys(4) that in auto)
  then have "perm_in L R xs ys" unfolding perm_in_def using ys(2-4) by auto
  moreover have "ordered L R ys" if ord
  proof (rule ordered_chain[OF that], intro allI impI)
    fix i assume i: "L \<le> i \<and> i < R"
    have "0 \<le> c (ix xs (L + R - i - 1)) (ix xs (L + R - i - 1 + 1))"
      using assms(4)[rule_format, OF that, of "L + R - i - 1"] i by simp
    then show "c (ix ys i) (ix ys (i + 1)) \<le> 0"
      using ys(4) i assms(1,3) le_flip[OF that, of "ix xs (L + R - i - 1)" "ix xs (L + R - i)"] by (simp add: algebra_simps)
  qed
  ultimately show ?thesis using ys(1) by simp
qed

lemma shape_ok:
  assumes region: "0 \<le> L" "L < m" "m < R" "R < int (length xs)" and dom: "set xs \<subseteq> D"
  shows "okay E (shape cmp xs chk L R m s) (\<lambda>(g, ys, chk', s'). perm_in L R xs ys \<and> (ord \<longrightarrow> reached L R m g ys))"
proof -
  let ?Q = "\<lambda>(g, ys, chk' :: int, s' :: 's). perm_in L R xs ys \<and> (ord \<longrightarrow> reached L R m g ys)"
  have ins: "inside xs L" "inside xs m" "inside xs R" and ne: "L \<noteq> m" "m \<noteq> R" "L \<noteq> R" using region by auto
  have LR: "0 \<le> L" "R < int (length xs)" "L < R" using region by auto
  note rot = mmrot3_ok[OF ins(3,2,1)] mmrot3_ok[OF ins]
  have perms: "perm_in L R xs (swapped xs a b)" "perm_in L R xs (swapped (swapped xs a b) b d)"
    if "a \<in> {L, m, R}" "b \<in> {L, m, R}" "d \<in> {L, m, R}" for a b d
  proof -
    show p: "perm_in L R xs (swapped xs a b)" using that region by (intro perm_in_swapped) auto
    have "perm_in L R (swapped xs a b) (swapped (swapped xs a b) b d)" using that region by (intro perm_in_swapped) auto
    then show "perm_in L R xs (swapped (swapped xs a b) b d)" by (rule perm_in_trans[OF p _ LR(1,2)])
  qed
  note perm = perms(1)[of L R L] perms(1)[of m R L] perms(1)[of L m L] perms(2)[of R m L] perms(2)[of L m R]
  have at: "ix (swapped ys a b) i = (if i = a then ix ys b else if i = b then ix ys a else ix ys i)"
    if "length ys = length xs" "a \<in> {L, m, R}" "b \<in> {L, m, R}" "i \<in> {L, m, R}" for ys :: "'a list" and a b i
    using that ins by (intro ix_swapped) auto
  note swap = mmswap_ok[OF ins(2,3)] mmswap_ok[OF ins(1,2)] mmswap_ok[OF ins(1,3)]
  note facts = reached_def at ne ne[symmetric]
  note eqs = turned[of "ix xs L" "ix xs m"] turned[of "ix xs m" "ix xs L"] turned[of "ix xs m" "ix xs R"] turned[of "ix xs R" "ix xs m"]
    turned[of "ix xs L" "ix xs R"] turned[of "ix xs R" "ix xs L"]
  have up: "okay E (obind (check_up cmp xs L R s') (\<lambda>(ok, s). return (if ok then Nxt else LoopA, xs, 0, s))) ?Q"
    if "ord \<longrightarrow> c (ix xs L) (ix xs m) < 0 \<and> c (ix xs m) (ix xs R) < 0" for s'
    using that ordered_chain[of L R xs] by (auto simp: facts intro!: okay_obindI[OF check_up_ok[OF dom LR(1,2)]])
  have down: "okay E (obind (check_down cmp xs L R s') (\<lambda>(ok, s).
        if ok then obind (reverse_region xs L R) (\<lambda>xs. return (Nxt, xs, 0, s))
        else obind (mmswap xs L R) (\<lambda>xs. return (LoopA, xs, 0, s)))) ?Q"
    if "ord \<longrightarrow> 0 < c (ix xs L) (ix xs m) \<and> 0 < c (ix xs m) (ix xs R)" for s'
    using that eqs perm by (auto simp: facts swap intro!: okay_obindI[OF check_down_ok[OF dom LR(1,2)]] okay_obindI[OF reversed_ok[OF LR(1,3,2)]])
  have same: "okay E (obind (loop_555 cmp xs L L R m s') (\<lambda>(g, xs, s). return (g, xs, chk, s))) ?Q"
    if "ord \<longrightarrow> c (ix xs L) (ix xs m) = 0 \<and> c (ix xs m) (ix xs R) = 0" for s'
    by (rule okay_obindI[OF loop_555_ok[of xs L R m L]]) (use that region dom eq_flip[of "ix xs m" "ix xs R"] in \<open>auto dest: order_antisym\<close>)
  have less: "okay E (shape cmp xs chk L R m s) ?Q" if "cmp_at cmp xs L m s = Inr (t, s')" "t < 0" "ord \<longrightarrow> t = c (ix xs L) (ix xs m)" for t s'
    using that eqs perm up unfolding shape_def Let_def
    by (auto simp: facts swap rot intro!: okay_obindI[OF cmp_at_ok[OF dom ins(2,3)]] okay_obindI[OF cmp_at_ok[OF dom ins(1,3)]])
  have more: "okay E (shape cmp xs chk L R m s) ?Q" if "cmp_at cmp xs L m s = Inr (t, s')" "0 < t" "ord \<longrightarrow> t = c (ix xs L) (ix xs m)" for t s'
    using that eqs perm down unfolding shape_def Let_def
    by (auto simp: facts swap rot intro!: okay_obindI[OF cmp_at_ok[OF dom ins(2,3)]] okay_obindI[OF cmp_at_ok[OF dom ins(1,3)]])
  have eq: "okay E (shape cmp xs chk L R m s) ?Q" if "cmp_at cmp xs L m s = Inr (t, s')" "t = 0" "ord \<longrightarrow> t = c (ix xs L) (ix xs m)" for t s'
    using that eqs perm same eq_flip[of "ix xs L" "ix xs m"] unfolding shape_def Let_def
    by (auto simp: facts swap intro!: okay_obindI[OF cmp_at_ok[OF dom ins(2,3)]])
  show ?thesis
  proof (cases "cmp_at cmp xs L m s")
    case (Inl e)
    then show ?thesis using cmp_at_okD[OF dom ins(1,2), of s] by (simp add: shape_def)
  next
    case (Inr ts)
    obtain t s' where ts: "ts = (t, s')" by (cases ts)
    have "ord \<longrightarrow> t = c (ix xs L) (ix xs m)" using cmp_at_ok[OF dom ins(1,2), of s] Inr ts by simp
    then show ?thesis using less more eq Inr ts by (cases t "0 :: int" rule: linorder_cases) blast+
  qed
qed

end

section \<open>The pending regions\<close>

text \<open>
  Regions are disjoint, and each region on the stack is so small that the stack cannot overflow: the
  smaller part of a split is sorted first, hence every level of the stack halves the size.
\<close>

fun pending :: "int \<Rightarrow> regions \<Rightarrow> bool" where
  "pending n [] = True"
| "pending n ((a, b) # rest) =
     (0 \<le> a \<and> a < b \<and> b < n \<and> (b - a + 1) * 2 ^ length rest \<le> n \<and> (\<forall>(a', b') \<in> set rest. b < a' \<or> b' < a) \<and> pending n rest)"

definition total_size :: "regions \<Rightarrow> nat" where
  "total_size regs = sum_list (map (\<lambda>(a, b). nat (b - a + 1)) regs)"

definition covered :: "regions \<Rightarrow> int \<Rightarrow> int \<Rightarrow> bool" where
  "covered regs i j \<longleftrightarrow> (\<exists>(a, b) \<in> set regs. a \<le> i \<and> j \<le> b)"

lemma PUSH_ok:
  assumes "pending n ((L, R) # stack)" "n < 2 ^ 32"
  shows "PUSH a b stack = Inr ((a, b) # stack)"
proof -
  have "2 ^ length stack * 2 \<le> 2 ^ length stack * (R - L + 1)" using assms(1) by (intro mult_left_mono) auto
  also have "\<dots> < 2 ^ 32" using assms by (simp add: mult.commute)
  finally have "(2 :: int) ^ Suc (length stack) < 2 ^ 32" by (simp add: mult.commute)
  then have "Suc (length stack) < 32" by (rule power_less_imp_less_exp[rotated]) simp
  then show ?thesis by (simp add: PUSH_def STACK_def)
qed

lemma pending_smaller:
  assumes "pending n ((L, R) # stack)" "L \<le> a" "a < b" "b \<le> R"
  shows "pending n ((a, b) # stack)"
proof -
  have "(b - a + 1) * 2 ^ length stack \<le> (R - L + 1) * 2 ^ length stack" using assms by (intro mult_right_mono) auto
  also have "\<dots> \<le> n" using assms(1) by simp
  finally have "(b - a + 1) * 2 ^ length stack \<le> n" .
  moreover have "0 \<le> a" "b < n" "pending n stack" using assms by simp_all
  moreover have "\<forall>(a', b') \<in> set stack. b < a' \<or> b' < a" using assms by fastforce
  ultimately show ?thesis using assms(3) by simp
qed

lemma pending_two:
  assumes "pending n ((L, R) # stack)" "L \<le> a" "a < b" "b \<le> R" "L \<le> a'" "a' < b'" "b' \<le> R"
    "b < a' \<or> b' < a" "b - a \<le> b' - a'" "(b - a + 1) + (b' - a' + 1) \<le> R - L + 1"
  shows "pending n ((a, b) # (a', b') # stack)"
proof -
  have "(b - a + 1) * 2 * 2 ^ length stack \<le> (R - L + 1) * 2 ^ length stack" using assms by (intro mult_right_mono) auto
  also have "\<dots> \<le> n" using assms(1) by simp
  finally have "(b - a + 1) * 2 ^ Suc (length stack) \<le> n" by (simp only: power_Suc mult.assoc)
  moreover have "0 \<le> a" "b < n" using assms by simp_all
  moreover have "\<forall>(a', b') \<in> set stack. b < a' \<or> b' < a" using assms by fastforce
  ultimately show ?thesis using assms(3,8) pending_smaller[OF assms(1,5-7)] by simp
qed

lemma fin_ok:
  assumes "pending n ((L, R) # stack)" "n < 2 ^ 32" "L \<le> l" "l + 2 = r" "r \<le> R" "\<not> eq_l \<longrightarrow> L < l" "\<not> eq_r \<longrightarrow> r < R"
  shows "\<exists>new. fin L R l r eq_l eq_r stack = Inr (new @ stack) \<and> pending n (new @ stack) \<and>
    total_size (new @ stack) < total_size ((L, R) # stack) \<and> (\<forall>(a, b) \<in> set new. L \<le> a \<and> b \<le> R) \<and>
    (\<not> eq_l \<longrightarrow> (L, l) \<in> set new) \<and> (\<not> eq_r \<longrightarrow> (r, R) \<in> set new)"
proof -
  have rest: "pending n stack" "L < R" using assms(1) by simp_all
  note push = PUSH_ok[OF assms(1,2)] and small = pending_smaller[OF assms(1)] and two = pending_two[OF assms(1)]
  consider (none) "eq_l" "eq_r" | (left) "\<not> eq_l" "eq_r" | (right) "eq_l" "\<not> eq_r"
    | (both) "\<not> eq_l" "\<not> eq_r" "l - L < R - r" | (both') "\<not> eq_l" "\<not> eq_r" "\<not> l - L < R - r" by blast
  then show ?thesis
  proof cases
    case none
    then show ?thesis using assms rest by (intro exI[of _ "[]"]) (auto simp: fin_def total_size_def)
  next
    case left
    then show ?thesis using assms rest small[of L l] by (intro exI[of _ "[(L, l)]"]) (auto simp: fin_def total_size_def)
  next
    case right
    then show ?thesis using assms rest small[of r R] by (intro exI[of _ "[(r, R)]"]) (auto simp: fin_def total_size_def)
  next
    case both
    then show ?thesis using assms rest two[of L l r R] push
      by (intro exI[of _ "[(L, l), (r, R)]"]) (auto simp: fin_def total_size_def)
  next
    case both'
    then show ?thesis using assms rest two[of r R L l] push
      by (intro exI[of _ "[(r, R), (L, l)]"]) (auto simp: fin_def total_size_def)
  qed
qed


section \<open>The loop\<close>

context compared
begin

lemma loopA_start:
  assumes "set xs \<subseteq> D" "0 \<le> L" "L < m" "m < R" "R < int (length xs)" "ord \<longrightarrow> c (ix xs L) (ix xs m) \<le> 0 \<and> c (ix xs m) (ix xs R) < 0"
  shows "okay E (loopA cmp First xs L R m True True s) (split_ok L R xs)"
proof (rule loopA_ok)
  have "ord \<longrightarrow> sides L R xs L R m True" using assms(6) by (auto simp: sides_def order_antisym_conv)
  then show "invA First L R xs L R m True True" using assms(1-5) by (simp add: invA_def groups_def)
qed

definition in_order :: "'a list \<Rightarrow> regions \<Rightarrow> bool" where
  "in_order xs regs \<longleftrightarrow> (\<forall>i j. 0 \<le> i \<and> i < j \<and> j < int (length xs) \<longrightarrow> c (ix xs i) (ix xs j) \<le> 0 \<or> covered regs i j)"

definition turned_ok :: "int \<Rightarrow> int \<Rightarrow> 'a list \<Rightarrow> regions \<Rightarrow> 'a list \<times> regions \<times> int \<times> 's \<Rightarrow> bool" where
  "turned_ok L R xs stack = (\<lambda>(ys, stack', chk, s). perm_in L R xs ys \<and>
     (\<exists>new. stack' = new @ stack \<and> pending (int (length xs)) stack' \<and> total_size stack' < total_size ((L, R) # stack) \<and>
        (\<forall>(a, b) \<in> set new. L \<le> a \<and> b \<le> R) \<and>
        (ord \<longrightarrow> (\<forall>i j. L \<le> i \<and> i < j \<and> j \<le> R \<longrightarrow> c (ix ys i) (ix ys j) \<le> 0 \<or> covered new i j))))"

lemma turned_done:
  assumes "pending (int (length xs)) ((L, R) # stack)" "perm_in L R xs ys" "ord \<longrightarrow> ordered L R ys"
  shows "turned_ok L R xs stack (ys, stack, chk, s)"
proof -
  have "pending (int (length xs)) stack" "total_size stack < total_size ((L, R) # stack)" using assms(1) by (simp_all add: total_size_def)
  moreover have "ord \<longrightarrow> (\<forall>i j. L \<le> i \<and> i < j \<and> j \<le> R \<longrightarrow> c (ix ys i) (ix ys j) \<le> 0)" using assms(3) by (simp add: ordered_def)
  ultimately show ?thesis unfolding turned_ok_def using assms(2) by (auto intro!: exI[of _ "[]"])
qed

lemma turned_split:
  assumes "pending (int (length xs)) ((L, R) # stack)" "int (length xs) < 2 ^ 32" "perm_in L R xs ys"
    "okay E m (split_ok L R ys)"
  shows "okay E (obind m (\<lambda>(xs, l, r, eq_l, eq_r, s). obind (fin L R l r eq_l eq_r stack) (\<lambda>stack. return (xs, stack, chk, s))))
    (turned_ok L R xs stack)"
proof (rule okay_obindI[OF assms(4)], clarify)
  fix zs l r eq_l eq_r s assume sp: "split_ok L R ys (zs, l, r, eq_l, eq_r, s)"
  then have b: "L \<le> l" "l + 2 = r" "r \<le> R" "\<not> eq_l \<longrightarrow> L < l" "\<not> eq_r \<longrightarrow> r < R" and p: "perm_in L R ys zs"
    and order: "ord \<longrightarrow> (\<forall>i j. L \<le> i \<and> i < j \<and> j \<le> R \<longrightarrow>
        c (ix zs i) (ix zs j) \<le> 0 \<or> \<not> eq_l \<and> j \<le> l \<or> \<not> eq_r \<and> r \<le> i)" by (simp_all add: split_ok_def)
  have LR: "0 \<le> L" "R < int (length xs)" using assms(1) by simp_all
  obtain new where new: "fin L R l r eq_l eq_r stack = Inr (new @ stack)" "pending (int (length xs)) (new @ stack)"
    "total_size (new @ stack) < total_size ((L, R) # stack)" "\<forall>(a, b) \<in> set new. L \<le> a \<and> b \<le> R"
    "\<not> eq_l \<longrightarrow> (L, l) \<in> set new" "\<not> eq_r \<longrightarrow> (r, R) \<in> set new"
    using fin_ok[OF assms(1,2) b] by blast
  have "covered new i j" if "\<not> eq_l \<and> j \<le> l \<or> \<not> eq_r \<and> r \<le> i" "L \<le> i" "j \<le> R" for i j
    using that new(5,6) by (auto simp: covered_def)
  then have "ord \<longrightarrow> (\<forall>i j. L \<le> i \<and> i < j \<and> j \<le> R \<longrightarrow> c (ix zs i) (ix zs j) \<le> 0 \<or> covered new i j)"
    using order by blast
  then show "okay E (obind (fin L R l r eq_l eq_r stack) (\<lambda>stack. return (zs, stack, chk, s))) (turned_ok L R xs stack)"
    unfolding turned_ok_def using new perm_in_trans[OF assms(3) p LR] by auto
qed

lemma turn_ok:
  assumes "pending (int (length xs)) ((L, R) # stack)" "int (length xs) < 2 ^ 32" and dom: "set xs \<subseteq> D"
  shows "okay E (turn cmp xs L R stack chk s) (turned_ok L R xs stack)"
proof -
  have LR: "0 \<le> L" "L < R" "R < int (length xs)" using assms(1) by simp_all
  show ?thesis
  proof (cases "L + 1 = R")
    case True
    have ins: "inside xs L" "inside xs R" using LR by auto
    have pair: "ordered L R zs" if "c (ix zs L) (ix zs R) \<le> 0" for zs
    proof -
      have "i = L \<and> j = R" if "L \<le> i" "i < j" "j \<le> R" for i j using that True by linarith
      then show ?thesis using that by (auto simp: ordered_def)
    qed
    have perm: "perm_in L R xs (swapped xs L R)" using LR by (intro perm_in_swapped) auto
    have "c (ix (swapped xs L R) L) (ix (swapped xs L R) R) \<le> 0" if ord "0 < c (ix xs L) (ix xs R)"
      using ix_swapped[OF ins, of L] ix_swapped[OF ins, of R] LR that turned[of "ix xs R" "ix xs L"] by simp
    then have "okay E (cmp_at cmp xs L R s) (\<lambda>(t, s). (\<forall>s chk. turned_ok L R xs stack (if t > 0 then swapped xs L R else xs, stack, chk, s)))"
      using pair perm by (intro okay_mono[OF cmp_at_ok[OF dom ins]]) (auto intro!: turned_done[OF assms(1)])
    then show ?thesis unfolding turn_def using True mmswap_ok[OF ins] by (auto simp: okay_obind elim!: okay_mono cong: if_cong)
  next
    case False
    have med: "okay E (median cmp xs L R s) (\<lambda>(m, s'). L < m \<and> m < R)" using LR False dom by (intro median_ok) auto
    have next_region: "okay E (case g of Nxt \<Rightarrow> return (ys, stack, chk', s')
        | LoopA \<Rightarrow> obind (loopA cmp First ys L R m True True s') (\<lambda>(xs, l, r, eq_l, eq_r, s).
            obind (fin L R l r eq_l eq_r stack) (\<lambda>stack. return (xs, stack, chk', s)))
        | LoopB \<Rightarrow> obind (loopB cmp First ys L R m True True s') (\<lambda>(xs, l, r, eq_l, eq_r, s).
            obind (fin L R l r eq_l eq_r stack) (\<lambda>stack. return (xs, stack, chk', s)))) (turned_ok L R xs stack)"
      if m: "L < m" "m < R" and p: "perm_in L R xs ys" and r: "ord \<longrightarrow> reached L R m g ys" for m g ys chk' s'
    proof -
      have len: "R < int (length ys)" using LR perm_in_length[OF p] by simp
      have dom': "set ys \<subseteq> D" using dom perm_in_set[OF p] by simp
      show ?thesis
      proof (cases g)
        case Nxt
        then show ?thesis using turned_done[OF assms(1) p] r by (simp add: reached_def)
      next
        case LoopA
        have "okay E (loopA cmp First ys L R m True True s') (split_ok L R ys)"
          by (rule loopA_start[OF dom' LR(1) m len]) (use r LoopA in \<open>simp add: reached_def\<close>)
        then show ?thesis using LoopA by (simp add: turned_split[OF assms(1,2) p])
      next
        case LoopB
        have "okay E (loopB cmp First ys L R m True True s') (split_ok L R ys)"
          by (rule loopB_ok[OF LR(1) len m _ dom']) (use r LoopB in \<open>simp add: reached_def\<close>)
        then show ?thesis using LoopB by (simp add: turned_split[OF assms(1,2) p])
      qed
    qed
    have "okay E (obind (shape cmp xs chk L R m s') (\<lambda>(g, xs, chklim, s).
        case g of Nxt \<Rightarrow> return (xs, stack, chklim, s)
        | LoopA \<Rightarrow> obind (loopA cmp First xs L R m True True s) (\<lambda>(xs, l, r, eq_l, eq_r, s).
            obind (fin L R l r eq_l eq_r stack) (\<lambda>stack. return (xs, stack, chklim, s)))
        | LoopB \<Rightarrow> obind (loopB cmp First xs L R m True True s) (\<lambda>(xs, l, r, eq_l, eq_r, s).
            obind (fin L R l r eq_l eq_r stack) (\<lambda>stack. return (xs, stack, chklim, s))))) (turned_ok L R xs stack)"
      if m: "L < m" "m < R" for m s'
      by (rule okay_obindI[OF shape_ok[OF LR(1) m LR(3) dom]], clarify, rule next_region[OF m])
    then show ?thesis unfolding turn_def if_not_P[OF False] by (intro okay_obindI[OF med]) auto
  qed
qed

lemma in_order_turn:
  assumes "in_order xs ((L, R) # stack)" "pending (int (length xs)) ((L, R) # stack)" "perm_in L R xs ys" ord
    "\<forall>i j. L \<le> i \<and> i < j \<and> j \<le> R \<longrightarrow> c (ix ys i) (ix ys j) \<le> 0 \<or> covered new i j"
  shows "in_order ys (new @ stack)"
  unfolding in_order_def
proof (intro allI impI)
  fix i j assume ij: "0 \<le> i \<and> i < j \<and> j < int (length ys)"
  have len: "length ys = length xs" using assms(3) by (rule perm_in_length)
  have LR: "0 \<le> L" "L < R" "R < int (length xs)" using assms(2) by simp_all
  have app: "covered (new @ stack) i j \<longleftrightarrow> covered new i j \<or> covered stack i j" for i j by (auto simp: covered_def)
  have "covered ((L, R) # stack) i j \<longleftrightarrow> L \<le> i \<and> j \<le> R \<or> covered stack i j" for i j by (simp add: covered_def)
  then have old: "c (ix xs i) (ix xs j) \<le> 0 \<or> L \<le> i \<and> j \<le> R \<or> covered stack i j" if "0 \<le> i" "i < j" "j < int (length xs)" for i j
    using assms(1) that unfolding in_order_def by metis
  have apart: "\<not> covered stack i j" if "i < j" "L \<le> i \<and> i \<le> R \<or> L \<le> j \<and> j \<le> R" for i j
    using assms(2) that by (fastforce simp: covered_def)
  have place: "\<exists>k. (if L \<le> k' \<and> k' \<le> R then L \<le> k \<and> k \<le> R else k = k') \<and> ix ys k' = ix xs k" if "inside xs k'" for k'
    using perm_in_inside[OF assms(3), of k'] perm_in_outside[OF assms(3), of k'] that by (cases "L \<le> k' \<and> k' \<le> R") auto
  consider "L \<le> i" "j \<le> R" | "i < L \<and> L \<le> j \<and> j \<le> R \<or> L \<le> i \<and> i \<le> R \<and> R < j" | "i < L \<or> R < i" "j < L \<or> R < j"
    using ij by linarith
  then show "c (ix ys i) (ix ys j) \<le> 0 \<or> covered (new @ stack) i j"
  proof cases
    case 1
    then show ?thesis using assms(5) ij app by blast
  next
    case 2
    obtain i' j' where i': "if L \<le> i \<and> i \<le> R then L \<le> i' \<and> i' \<le> R else i' = i" "ix ys i = ix xs i'"
      and j': "if L \<le> j \<and> j \<le> R then L \<le> j' \<and> j' \<le> R else j' = j" "ix ys j = ix xs j'"
      using place[of i] place[of j] ij len by auto
    have "c (ix xs i') (ix xs j') \<le> 0"
      using old[of i' j'] apart[of i' j'] i'(1) j'(1) 2 ij LR len by (auto split: if_splits)
    then show ?thesis using i'(2) j'(2) by simp
  next
    case 3
    then have "ix ys i = ix xs i" "ix ys j = ix xs j" using perm_in_outside[OF assms(3)] ij len by auto
    then show ?thesis using old[of i j] 3 ij len app LR by auto
  qed
qed

lemma qs_loop_ok:
  assumes "pending (int (length xs)) regs" "int (length xs) < 2 ^ 32" "ord \<longrightarrow> in_order xs regs" "set xs \<subseteq> D"
  shows "\<exists>res. qs_loop cmp xs regs chk s = Some res \<and>
    okay E res (\<lambda>(ys, s'). mset ys = mset xs \<and> (ord \<longrightarrow> in_order ys []))"
  using assms
proof (induction "total_size regs" arbitrary: xs regs chk s rule: less_induct)
  case less
  show ?case
  proof (cases regs)
    case Nil
    then show ?thesis using less.prems by (subst qs_loop.simps) simp
  next
    case (Cons reg stack)
    then obtain L R where regs: "regs = (L, R) # stack" by (cases reg) auto
    have t: "okay E (turn cmp xs L R stack chk s) (turned_ok L R xs stack)" using less.prems regs by (intro turn_ok) simp_all
    show ?thesis
    proof (cases "turn cmp xs L R stack chk s")
      case (Inl e)
      then show ?thesis using t regs by (subst qs_loop.simps) simp
    next
      case (Inr res)
      obtain ys stack' chk' s' where res: "res = (ys, stack', chk', s')" by (cases res)
      obtain new where new: "perm_in L R xs ys" "stack' = new @ stack" "pending (int (length xs)) stack'" "total_size stack' < total_size regs"
          "ord \<longrightarrow> (\<forall>i j. L \<le> i \<and> i < j \<and> j \<le> R \<longrightarrow> c (ix ys i) (ix ys j) \<le> 0 \<or> covered new i j)"
        using t regs unfolding Inr res turned_ok_def by auto
      have len: "length ys = length xs" and ms: "mset ys = mset xs" using new(1) by (simp_all add: perm_in_def)
      have "ord \<longrightarrow> in_order ys stack'" using in_order_turn[OF _ _ new(1)] less.prems(1,3) new(2,5) regs by blast
      then obtain res' where "qs_loop cmp ys stack' chk' s' = Some res'"
          "okay E res' (\<lambda>(zs, s'). mset zs = mset ys \<and> (ord \<longrightarrow> in_order zs []))"
        using less.hyps[OF new(4), of ys chk' s'] new(3) less.prems(2,4) len mset_eq_setD[OF ms] by auto
      then show ?thesis using regs ms by (subst qs_loop.simps) (simp add: Inr res)
    qed
  qed
qed

end

section \<open>The result of the sort\<close>

context compared
begin

lemma qsort_result:
  assumes "set xs \<subseteq> D" "int (length xs) < 2 ^ 32"
  shows "\<exists>res. ruby_qsort cmp xs s = Some res \<and>
    okay E res (\<lambda>(ys, s'). mset ys = mset xs \<and> (ord \<longrightarrow> sorted_wrt (\<lambda>a b. c a b \<le> 0) ys))"
proof (cases "length xs \<le> 1")
  case True
  then have "xs = [] \<or> (\<exists>x. xs = [x])" by (cases xs) auto
  then show ?thesis by (auto simp: ruby_qsort_def)
next
  case False
  have cov: "covered [(0, int (length xs) - 1)] i j" if "0 \<le> i" "j < int (length xs)" for i j
    using that by (simp add: covered_def)
  have "pending (int (length xs)) [(0, int (length xs) - 1)]" "in_order xs [(0, int (length xs) - 1)]"
    using False cov by (simp_all add: in_order_def)
  then obtain res where res: "qs_loop cmp xs [(0, int (length xs) - 1)] 63 s = Some res"
      "okay E res (\<lambda>(ys, s'). mset ys = mset xs \<and> (ord \<longrightarrow> in_order ys []))"
    using qs_loop_ok[OF _ assms(2) _ assms(1)] by blast
  have "sorted_wrt (\<lambda>a b. c a b \<le> 0) ys" if o: "in_order ys []" for ys
    unfolding sorted_wrt_iff_nth_less
  proof (intro allI impI)
    fix i j assume "i < j" "j < length ys"
    then show "c (ys ! i) (ys ! j) \<le> 0" using o[unfolded in_order_def, rule_format, of "int i" "int j"] by (simp add: covered_def)
  qed
  then show ?thesis using res False by (auto simp: ruby_qsort_def elim!: okay_mono)
qed

end


text \<open>Every comparison satisfies the contract without the order.\<close>

interpretation anything: compared cmp UNIV "\<lambda>e. \<exists>a b s. cmp a b s = Inl e" False "\<lambda>_ _. 0" for cmp :: "('a, 's) comparison"
proof
  fix a b :: 'a and s :: 's
  show "okay (\<lambda>e. \<exists>a b s. cmp a b s = Inl e) (cmp a b s) (\<lambda>(t, s'). False \<longrightarrow> t = 0)"
    by (cases "cmp a b s") auto
qed simp_all

text \<open>
  C19. The sort is safe for every comparison, consistent or not, with any state and any errors of its
  own: it comes to an end, touches no memory outside the array, never overflows its stack of 32 pending
  regions, and leaves a permutation of the array unless the comparison raised.
\<close>

theorem qsort_safe:
  assumes "int (length xs) < 2 ^ 32"
  shows "\<exists>res. ruby_qsort cmp xs s = Some res \<and>
    (case res of Inr (ys, s') \<Rightarrow> mset ys = mset xs | Inl e \<Rightarrow> \<exists>a b s. cmp a b s = Inl e)"
proof -
  obtain res where "ruby_qsort cmp xs s = Some res"
      "okay (\<lambda>e. \<exists>a b s. cmp a b s = Inl e) res (\<lambda>(ys, s'). mset ys = mset xs \<and> (False \<longrightarrow> sorted_wrt (\<lambda>a b. (0 :: int) \<le> 0) ys))"
    using anything.qsort_result[of xs cmp s] assms by auto
  then show ?thesis by (cases res) auto
qed

theorem qsort_safe_witness:
  "\<exists>ys s'. ruby_qsort (\<lambda>a b n. Inr (if even n then 1 else -1, n + 1)) [3, 1, 4, 1, 5 :: int] (0 :: nat) = Some (Inr (ys, s')) \<and>
    mset ys = mset [3, 1, 4, 1, 5]"
proof -
  let ?cmp = "\<lambda>(a :: int) (b :: int) (n :: nat). Inr (if even n then 1 else -1 :: int, n + 1)"
  obtain res where "ruby_qsort ?cmp [3, 1, 4, 1, 5 :: int] 0 = Some res"
      "case res of Inr (ys, s') \<Rightarrow> mset ys = mset [3, 1, 4, 1, 5 :: int] | Inl e \<Rightarrow> \<exists>a b s. ?cmp a b s = Inl e"
    using qsort_safe[of "[3, 1, 4, 1, 5 :: int]" ?cmp 0] by auto
  then show ?thesis by (cases res) auto
qed

text \<open>
  C20. When the comparison is an order, that is when its sign only depends on the elements, changes when
  they are exchanged, and is transitive, the sort returns the elements in that order.
\<close>

theorem qsort_sorts:
  assumes "\<forall>a \<in> set xs. \<forall>b \<in> set xs. \<forall>s. \<exists>s'. cmp a b s = Inr (c a b, s')"
    and "\<forall>a b. c a b < 0 \<longleftrightarrow> 0 < c b a" "\<forall>a b d. c a b \<le> 0 \<and> c b d \<le> 0 \<longrightarrow> c a d \<le> 0"
    and "int (length xs) < 2 ^ 32"
  shows "\<exists>ys s'. ruby_qsort cmp xs s = Some (Inr (ys, s')) \<and> mset ys = mset xs \<and> sorted_wrt (\<lambda>a b. c a b \<le> 0) ys"
proof -
  have cm: "compared cmp (set xs) (\<lambda>_. False) True c"
  proof
    fix a b s assume "a \<in> set xs" "b \<in> set xs"
    then obtain s' where "cmp a b s = Inr (c a b, s')" using assms(1) by blast
    then show "okay (\<lambda>_. False) (cmp a b s) (\<lambda>(t, s'). True \<longrightarrow> t = c a b)" by simp
  qed (use assms(2,3) in blast)+
  obtain res where "ruby_qsort cmp xs s = Some res"
      "okay (\<lambda>_. False) res (\<lambda>(ys, s'). mset ys = mset xs \<and> (True \<longrightarrow> sorted_wrt (\<lambda>a b. c a b \<le> 0) ys))"
    using compared.qsort_result[OF cm order_refl assms(4)] by blast
  then show ?thesis by (cases res) auto
qed

theorem qsort_sorts_witness:
  "\<exists>ys s'. ruby_qsort (\<lambda>a b n. Inr (b - a, n + 1)) [3, 1, 4, 1, 5 :: int] (0 :: nat) = Some (Inr (ys, s')) \<and>
    mset ys = mset [3, 1, 4, 1, 5] \<and> sorted_wrt (\<lambda>a b. b - a \<le> 0) ys"
  using qsort_sorts[of "[3, 1, 4, 1, 5 :: int]" "\<lambda>a b n. Inr (b - a, n + 1)" "\<lambda>a b. b - a" "0 :: nat"] by simp

end
