(* ===== verification/RArray_Sort.thy ===== *)
theory RArray_Sort
  imports RArray_More Numeric RString QSort_Sort
begin

text \<open>
  Sorting of \<^verbatim>\<open>src/ruby/array.c\<close> on top of \<open>ruby_qsort\<close>, and the properties of the sort. The state of
  the comparison is the state of the program. A block or a method \<open><=>\<close> is a parameter that takes the
  two elements and that state.
\<close>

section \<open>The comparisons of \<open>Array#sort\<close>\<close>

text \<open>\<open>view\<close> reads \<open>ptr\<close> and \<open>len\<close> of the sorted array from the state of the program.\<close>

record ary_sort_data =
  data_ptr :: pointer
  data_len :: int

definition ary_sort_check :: "('s \<Rightarrow> pointer \<times> int) \<Rightarrow> ary_sort_data \<Rightarrow> 's \<Rightarrow> unit outcome" where
  "ary_sort_check view data s =
     (if fst (view s) \<noteq> data_ptr data \<or> snd (view s) \<noteq> data_len data then raise ArgError else return ())"

definition sort_1 :: "(VALUE \<Rightarrow> VALUE \<Rightarrow> 's \<Rightarrow> (value option \<times> 's) outcome) \<Rightarrow> ('s \<Rightarrow> pointer \<times> int) \<Rightarrow> ary_sort_data \<Rightarrow>
    (VALUE, 's) comparison" where
  "sort_1 block view data a b s =
     obind (block a b s) (\<lambda>(retval, s).
     obind (rb_cmpint retval) (\<lambda>n.
     obind (ary_sort_check view data s) (\<lambda>_. return (n, s))))"

text \<open>\<open>str\<close> gives the contents of a string object, \<open>ic\<close> is \<open>ruby_ignorecase\<close>.\<close>

definition sort_2 :: "(VALUE \<Rightarrow> byte list option) \<Rightarrow> bool \<Rightarrow> (VALUE \<Rightarrow> VALUE \<Rightarrow> 's \<Rightarrow> (value option \<times> 's) outcome) \<Rightarrow>
    ('s \<Rightarrow> pointer \<times> int) \<Rightarrow> ary_sort_data \<Rightarrow> (VALUE, 's) comparison" where
  "sort_2 str ic cmp view data a b s =
     (case (a, b) of
        (Num (Fixnum x), Num (Fixnum y)) \<Rightarrow> return (if x > y then 1 else if x < y then -1 else 0, s)
      | _ \<Rightarrow>
        (case (str a, str b) of
           (Some u, Some w) \<Rightarrow> obind (rb_str_cmp ic u w) (\<lambda>n. return (n, s))
         | _ \<Rightarrow>
           obind (cmp a b s) (\<lambda>(retval, s).
           obind (rb_cmpint retval) (\<lambda>n.
           obind (ary_sort_check view data s) (\<lambda>_. return (n, s))))))"

text \<open>The elements before and after; the first argument is the block, if there is one.\<close>

definition sort_internal :: "(VALUE \<Rightarrow> VALUE \<Rightarrow> 's \<Rightarrow> (value option \<times> 's) outcome) option \<Rightarrow> (VALUE \<Rightarrow> byte list option) \<Rightarrow> bool \<Rightarrow>
    (VALUE \<Rightarrow> VALUE \<Rightarrow> 's \<Rightarrow> (value option \<times> 's) outcome) \<Rightarrow> ('s \<Rightarrow> pointer \<times> int) \<Rightarrow> VALUE list \<Rightarrow> 's \<Rightarrow>
    (VALUE list \<times> 's) outcome option" where
  "sort_internal block str ic cmp view xs s =
     (let data = \<lparr>data_ptr = fst (view s), data_len = snd (view s)\<rparr> in
      ruby_qsort (case block of Some f \<Rightarrow> sort_1 f view data | None \<Rightarrow> sort_2 str ic cmp view data) xs s)"

section \<open>The orders of \<open>sort_2\<close>\<close>

definition sign_of :: "int \<Rightarrow> int \<Rightarrow> int" where
  "sign_of x y = (if x > y then 1 else if x < y then -1 else 0)"

fun fix_of :: "VALUE \<Rightarrow> int" where
  "fix_of (Num (Fixnum n)) = n"
| "fix_of _ = 0"

definition byte_order :: "byte list \<Rightarrow> byte list \<Rightarrow> int" where
  "byte_order u w = (if u = w then 0 else if (u, w) \<in> byte_less then -1 else 1)"

lemma byte_less_laws: "(u, w) \<in> byte_less \<or> u = w \<or> (w, u) \<in> byte_less" "(u, u) \<notin> byte_less"
  and byte_less_trans: "(u, v) \<in> byte_less \<Longrightarrow> (v, w) \<in> byte_less \<Longrightarrow> (u, w) \<in> byte_less"
proof -
  show "(u, w) \<in> byte_less \<or> u = w \<or> (w, u) \<in> byte_less" unfolding byte_less_def by (intro lexord_linear) auto
  show "(u, u) \<notin> byte_less" unfolding byte_less_def by (intro lexord_irreflexive) auto
  have "trans byte_less" unfolding byte_less_def by (intro lexord_transI transI) auto
  then show "(u, v) \<in> byte_less \<Longrightarrow> (v, w) \<in> byte_less \<Longrightarrow> (u, w) \<in> byte_less" by (rule transD)
qed

lemma byte_less_asym: "(u, w) \<in> byte_less \<Longrightarrow> (w, u) \<notin> byte_less"
  using byte_less_trans byte_less_laws(2) by blast

lemma byte_order_laws: "byte_order u w < 0 \<longleftrightarrow> 0 < byte_order w u"
  "byte_order u v \<le> 0 \<Longrightarrow> byte_order v w \<le> 0 \<Longrightarrow> byte_order u w \<le> 0"
  unfolding byte_order_def using byte_less_laws(1)[of u w] byte_less_asym[of u w] byte_less_trans[of u v w]
  by (auto split: if_splits)

interpretation fixnums: compared "sort_2 str ic cmp view data" "{v. \<exists>n. v = Num (Fixnum n)}" "\<lambda>_. False" True
    "\<lambda>a b. sign_of (fix_of a) (fix_of b)" for str ic cmp view data
  by unfold_locales (auto simp: sort_2_def sign_of_def split: if_splits)

interpretation strings: compared "sort_2 str False cmp view data" "{Other k | k. str (Other k) \<noteq> None}" "\<lambda>_. False" True
    "\<lambda>a b. byte_order (the (str a)) (the (str b))" for str cmp view data
  by unfold_locales (use byte_order_laws in \<open>auto simp: sort_2_def rb_str_cmp_bytes byte_order_def\<close>)

section \<open>Properties\<close>

text \<open>
  C21. Sorting an array without a block: fixnums come out as the sorted list of their numbers, strings in
  byte order, whatever \<open><=>\<close> and the rest of the program are; no comparison of these calls back. With a
  block the only errors are those of the block, of a result that is no integer, and of a block that
  moves the array; without an error the elements are a permutation.
\<close>

theorem array_sort_correct:
  assumes "int (length ns) < 2 ^ 32" "int (length ks) < 2 ^ 32" "int (length xs) < 2 ^ 32"
    and "\<forall>k \<in> set ks. str (Other k) \<noteq> None"
  shows "(\<exists>s'. sort_internal None str ic cmp view (map (\<lambda>n. Num (Fixnum n)) ns) s =
      Some (Inr (map (\<lambda>n. Num (Fixnum n)) (sort ns), s'))) \<and>
    (\<exists>ys s'. sort_internal None str False cmp view (map Other ks) s = Some (Inr (ys, s')) \<and> mset ys = mset (map Other ks) \<and>
       sorted_wrt (\<lambda>a b. the (str a) = the (str b) \<or> (the (str a), the (str b)) \<in> byte_less) ys) \<and>
    (\<exists>res. sort_internal (Some block) str ic cmp view xs s = Some res \<and>
       (case res of Inr (ys, s') \<Rightarrow> mset ys = mset xs
        | Inl e \<Rightarrow> e = ArgError \<or> e = Coerce \<or> (\<exists>a b s. block a b s = Inl e)))"
proof (intro conjI)
  let ?fix = "\<lambda>n. Num (Fixnum n)"
  let ?data = "\<lparr>data_ptr = fst (view s), data_len = snd (view s)\<rparr>"
  obtain res where res: "ruby_qsort (sort_2 str ic cmp view ?data) (map ?fix ns) s = Some res"
      "okay (\<lambda>_. False) res (\<lambda>(ys, s'). mset ys = mset (map ?fix ns) \<and> (True \<longrightarrow> sorted_wrt (\<lambda>a b. sign_of (fix_of a) (fix_of b) \<le> 0) ys))"
    using fixnums.qsort_result[of "map ?fix ns" str ic cmp view ?data s] assms(1) by auto
  then obtain ys s' where ys: "res = Inr (ys, s')" "mset ys = mset (map ?fix ns)" "sorted_wrt (\<lambda>a b. sign_of (fix_of a) (fix_of b) \<le> 0) ys"
    by (cases res) auto
  have "sorted_wrt (\<lambda>a b. fix_of a \<le> fix_of b) ys"
    by (rule sorted_wrt_mono_rel[OF _ ys(3)]) (auto simp: sign_of_def split: if_splits)
  then have "sorted (map fix_of ys)" by (simp add: sorted_map)
  moreover have "mset (map fix_of ys) = mset ns" using ys(2) by (simp add: image_mset.compositionality comp_def)
  ultimately have "map fix_of ys = sort ns" by (metis properties_for_sort)
  moreover have "\<forall>y \<in> set ys. ?fix (fix_of y) = y" using mset_eq_setD[OF ys(2)] by auto
  then have "map ?fix (map fix_of ys) = ys" by (simp add: map_idI)
  ultimately show "\<exists>s'. sort_internal None str ic cmp view (map ?fix ns) s = Some (Inr (map ?fix (sort ns), s'))"
    using res(1) ys(1) by (simp add: sort_internal_def)
next
  show "\<exists>ys s'. sort_internal None str False cmp view (map Other ks) s = Some (Inr (ys, s')) \<and> mset ys = mset (map Other ks) \<and>
       sorted_wrt (\<lambda>a b. the (str a) = the (str b) \<or> (the (str a), the (str b)) \<in> byte_less) ys"
  proof -
    let ?data = "\<lparr>data_ptr = fst (view s), data_len = snd (view s)\<rparr>"
    have dom: "set (map Other ks) \<subseteq> {Other k | k. str (Other k) \<noteq> None}" using assms(4) by force
    have len: "int (length (map Other ks)) < 2 ^ 32" using assms(2) by simp
    obtain res where res: "ruby_qsort (sort_2 str False cmp view ?data) (map Other ks) s = Some res"
        "okay (\<lambda>_. False) res (\<lambda>(ys, s'). mset ys = mset (map Other ks) \<and>
           (True \<longrightarrow> sorted_wrt (\<lambda>a b. byte_order (the (str a)) (the (str b)) \<le> 0) ys))"
      using strings.qsort_result[OF dom len, of cmp view ?data s] by (elim exE conjE)
    then obtain ys s' where ys: "res = Inr (ys, s')" "mset ys = mset (map Other ks)"
        "sorted_wrt (\<lambda>a b. byte_order (the (str a)) (the (str b)) \<le> 0) ys" by (cases res) auto
    have "sorted_wrt (\<lambda>a b. the (str a) = the (str b) \<or> (the (str a), the (str b)) \<in> byte_less) ys"
      by (rule sorted_wrt_mono_rel[OF _ ys(3)]) (auto simp: byte_order_def split: if_splits)
    then show ?thesis using res(1) ys(1,2) by (simp add: sort_internal_def)
  qed
next
  let ?data = "\<lparr>data_ptr = fst (view s), data_len = snd (view s)\<rparr>"
  have err: "e = ArgError \<or> e = Coerce \<or> (\<exists>a b s. block a b s = Inl e)" if "sort_1 block view ?data a b s = Inl e" for a b s e
    using that by (cases "block a b s") (auto simp: sort_1_def rb_cmpint_def ary_sort_check_def split: option.splits "value.splits" if_splits)
  obtain res where res: "ruby_qsort (sort_1 block view ?data) xs s = Some res"
      "okay (\<lambda>e. \<exists>a b s. sort_1 block view ?data a b s = Inl e) res (\<lambda>(ys, s'). mset ys = mset xs \<and> (False \<longrightarrow> sorted_wrt (\<lambda>a b. (0 :: int) \<le> 0) ys))"
    using anything.qsort_result[of xs "sort_1 block view ?data" s] assms(3) by auto
  then show "\<exists>res. sort_internal (Some block) str ic cmp view xs s = Some res \<and>
       (case res of Inr (ys, s') \<Rightarrow> mset ys = mset xs
        | Inl e \<Rightarrow> e = ArgError \<or> e = Coerce \<or> (\<exists>a b s. block a b s = Inl e))"
    using err by (cases res) (auto simp: sort_internal_def)
qed

theorem array_sort_correct_witness:
  "(\<exists>s'. sort_internal None (\<lambda>_. Some []) False (\<lambda>_ _ n. Inr (None, n + 1)) (\<lambda>_. (NULL, 0)) (map (\<lambda>n. Num (Fixnum n)) [3, 1, 2]) (0 :: nat) =
      Some (Inr (map (\<lambda>n. Num (Fixnum n)) [1, 2, 3], s'))) \<and>
   (\<exists>res. sort_internal (Some (\<lambda>_ _ n. Inr (None, n + 1))) (\<lambda>_. Some []) False (\<lambda>_ _ n. Inr (None, n + 1)) (\<lambda>_. (NULL, 0)) [Qnil, Qnil] (0 :: nat) = Some res)"
proof -
  have "sort [3, 1, 2 :: int] = [1, 2, 3]" by simp
  then show ?thesis
    using array_sort_correct[of "[3, 1, 2]" "[7]" "[Qnil, Qnil]" "\<lambda>_. Some []" False "\<lambda>_ _ n. Inr (None, n + 1)" "\<lambda>_. (NULL, 0)" "0 :: nat"
        "\<lambda>_ _ n. Inr (None, n + 1)"] by auto
qed

end
