(* ===== verification/Enumerable.thy ===== *)
theory Enumerable
  imports Numeric QSort_Sort
begin

text \<open>
  \<open>Enumerable\<close> (\<^verbatim>\<open>src/ruby/enum.c\<close>). The method \<open>each\<close> of the receiver yields a list of items; blocks and
  methods that are called back are parameters that take the state of the program, return a value and
  the new state, or raise. The state of an iteration is what the C code keeps in its memo node or
  array, together with the state of the program.
\<close>

section \<open>Values, blocks and iteration\<close>

datatype obj =
    Qnil
  | Qfalse
  | Qtrue
  | Val "value"
  | Arr "obj list"
  | Object nat

definition RTEST :: "obj \<Rightarrow> bool" where
  "RTEST v \<longleftrightarrow> v \<noteq> Qnil \<and> v \<noteq> Qfalse"

type_synonym 's block1 = "obj \<Rightarrow> 's \<Rightarrow> (obj \<times> 's) outcome"
type_synonym 's block2 = "obj \<Rightarrow> obj \<Rightarrow> 's \<Rightarrow> (obj \<times> 's) outcome"

text \<open>The integer a comparison answered with.\<close>

definition cmpint :: "obj \<Rightarrow> int outcome" where
  "cmpint v = (case v of Qnil \<Rightarrow> rb_cmpint None | Val n \<Rightarrow> rb_cmpint (Some n) | _ \<Rightarrow> raise Coerce)"

text \<open>An iteration goes on, or is left by \<open>rb_iter_break\<close>.\<close>

datatype 'm iter = Next 'm | Break 'm

fun rb_iterate :: "(obj \<Rightarrow> 'm \<Rightarrow> 'm iter outcome) \<Rightarrow> obj list \<Rightarrow> 'm \<Rightarrow> 'm outcome" where
  "rb_iterate body [] m = return m"
| "rb_iterate body (i # items) m =
     obind (body i m) (\<lambda>r. case r of Next m \<Rightarrow> rb_iterate body items m | Break m \<Rightarrow> return m)"

section \<open>Selecting and collecting\<close>

definition grep_i :: "'s block2 \<Rightarrow> obj \<Rightarrow> obj \<Rightarrow> obj list \<times> 's \<Rightarrow> (obj list \<times> 's) iter outcome" where
  "grep_i eqq pat i = (\<lambda>(ary, s).
     obind (eqq pat i s) (\<lambda>(r, s). return (Next (if RTEST r then ary @ [i] else ary, s))))"

definition grep_iter_i :: "'s block2 \<Rightarrow> 's block1 \<Rightarrow> obj \<Rightarrow> obj \<Rightarrow> obj list \<times> 's \<Rightarrow> (obj list \<times> 's) iter outcome" where
  "grep_iter_i eqq blk pat i = (\<lambda>(ary, s).
     obind (eqq pat i s) (\<lambda>(r, s).
     if RTEST r then obind (blk i s) (\<lambda>(v, s). return (Next (ary @ [v], s))) else return (Next (ary, s))))"

definition enum_grep :: "'s block2 \<Rightarrow> 's block1 option \<Rightarrow> obj \<Rightarrow> obj list \<Rightarrow> 's \<Rightarrow> (obj \<times> 's) outcome" where
  "enum_grep eqq blk pat items s =
     obind (rb_iterate (case blk of Some b \<Rightarrow> grep_iter_i eqq b pat | None \<Rightarrow> grep_i eqq pat) items ([], s))
       (\<lambda>(ary, s). return (Arr ary, s))"

definition find_i :: "'s block1 \<Rightarrow> obj \<Rightarrow> obj \<times> bool \<times> 's \<Rightarrow> (obj \<times> bool \<times> 's) iter outcome" where
  "find_i blk i = (\<lambda>(u1, u2, s).
     obind (blk i s) (\<lambda>(r, s). if RTEST r then return (Break (i, True, s)) else return (Next (u1, u2, s))))"

text \<open>\<open>call\<close> calls the argument, if there is one.\<close>

definition enum_find :: "'s block1 \<Rightarrow> 's block1 \<Rightarrow> obj option \<Rightarrow> obj list \<Rightarrow> 's \<Rightarrow> (obj \<times> 's) outcome" where
  "enum_find blk call if_none items s =
     obind (rb_iterate (find_i blk) items (Qnil, False, s)) (\<lambda>(u1, u2, s).
     if u2 then return (u1, s)
     else (case if_none of
         None \<Rightarrow> return (Qnil, s)
       | Some f \<Rightarrow> if f \<noteq> Qnil then call f s else return (Qnil, s)))"

definition find_all_i :: "'s block1 \<Rightarrow> obj \<Rightarrow> obj list \<times> 's \<Rightarrow> (obj list \<times> 's) iter outcome" where
  "find_all_i blk i = (\<lambda>(ary, s). obind (blk i s) (\<lambda>(r, s). return (Next (if RTEST r then ary @ [i] else ary, s))))"

definition enum_find_all :: "'s block1 \<Rightarrow> obj list \<Rightarrow> 's \<Rightarrow> (obj \<times> 's) outcome" where
  "enum_find_all blk items s = obind (rb_iterate (find_all_i blk) items ([], s)) (\<lambda>(ary, s). return (Arr ary, s))"

definition reject_i :: "'s block1 \<Rightarrow> obj \<Rightarrow> obj list \<times> 's \<Rightarrow> (obj list \<times> 's) iter outcome" where
  "reject_i blk i = (\<lambda>(ary, s). obind (blk i s) (\<lambda>(r, s). return (Next (if \<not> RTEST r then ary @ [i] else ary, s))))"

definition enum_reject :: "'s block1 \<Rightarrow> obj list \<Rightarrow> 's \<Rightarrow> (obj \<times> 's) outcome" where
  "enum_reject blk items s = obind (rb_iterate (reject_i blk) items ([], s)) (\<lambda>(ary, s). return (Arr ary, s))"

definition collect_i :: "'s block1 \<Rightarrow> obj \<Rightarrow> obj list \<times> 's \<Rightarrow> (obj list \<times> 's) iter outcome" where
  "collect_i blk i = (\<lambda>(ary, s). obind (blk i s) (\<lambda>(v, s). return (Next (ary @ [v], s))))"

definition collect_all :: "obj \<Rightarrow> obj list \<times> 's \<Rightarrow> (obj list \<times> 's) iter outcome" where
  "collect_all i = (\<lambda>(ary, s). return (Next (ary @ [i], s)))"

definition enum_collect :: "'s block1 option \<Rightarrow> obj list \<Rightarrow> 's \<Rightarrow> (obj \<times> 's) outcome" where
  "enum_collect blk items s =
     obind (rb_iterate (case blk of Some b \<Rightarrow> collect_i b | None \<Rightarrow> collect_all) items ([], s)) (\<lambda>(ary, s). return (Arr ary, s))"

definition enum_to_a :: "obj list \<Rightarrow> 's \<Rightarrow> (obj \<times> 's) outcome" where
  "enum_to_a items s = obind (rb_iterate collect_all items ([], s)) (\<lambda>(ary, s). return (Arr ary, s))"

definition inject_i :: "'s block2 \<Rightarrow> obj \<Rightarrow> obj \<times> bool \<times> 's \<Rightarrow> (obj \<times> bool \<times> 's) iter outcome" where
  "inject_i blk i = (\<lambda>(u1, u2, s).
     if u2 then return (Next (i, False, s)) else obind (blk u1 i s) (\<lambda>(v, s). return (Next (v, u2, s))))"

definition enum_inject :: "'s block2 \<Rightarrow> obj option \<Rightarrow> obj list \<Rightarrow> 's \<Rightarrow> (obj \<times> 's) outcome" where
  "enum_inject blk arg items s =
     obind (rb_iterate (inject_i blk) items (case arg of Some n \<Rightarrow> (n, False, s) | None \<Rightarrow> (Qnil, True, s)))
       (\<lambda>(u1, u2, s). return (u1, s))"

definition partition_i :: "'s block1 \<Rightarrow> obj \<Rightarrow> (obj list \<times> obj list) \<times> 's \<Rightarrow> ((obj list \<times> obj list) \<times> 's) iter outcome" where
  "partition_i blk i = (\<lambda>((a0, a1), s).
     obind (blk i s) (\<lambda>(r, s). return (Next (if RTEST r then (a0 @ [i], a1) else (a0, a1 @ [i]), s))))"

definition enum_partition :: "'s block1 \<Rightarrow> obj list \<Rightarrow> 's \<Rightarrow> (obj \<times> 's) outcome" where
  "enum_partition blk items s =
     obind (rb_iterate (partition_i blk) items (([], []), s)) (\<lambda>((a0, a1), s). return (Arr [Arr a0, Arr a1], s))"

section \<open>Sorting by keys\<close>

text \<open>
  A pair is a memo node: the key and the item. Only the sort itself sets the class of the array, so the
  test for a reentered sort does not fire.
\<close>

definition sort_by_i :: "'s block1 \<Rightarrow> obj \<Rightarrow> (obj \<times> obj) list \<times> 's \<Rightarrow> ((obj \<times> obj) list \<times> 's) iter outcome" where
  "sort_by_i blk i = (\<lambda>(ary, s). obind (blk i s) (\<lambda>(v, s). return (Next (ary @ [(v, i)], s))))"

definition sort_by_cmp :: "'s block2 \<Rightarrow> (obj \<times> obj, 's) comparison" where
  "sort_by_cmp cmp aa bb s = obind (cmp (fst aa) (fst bb) s) (\<lambda>(r, s). obind (cmpint r) (\<lambda>n. return (n, s)))"

definition enum_sort_by :: "'s block1 \<Rightarrow> 's block2 \<Rightarrow> obj list \<Rightarrow> 's \<Rightarrow> (obj \<times> 's) outcome option" where
  "enum_sort_by blk cmp items s =
     (case rb_iterate (sort_by_i blk) items ([], s) of
        Inl e \<Rightarrow> Some (raise e)
      | Inr (ary, s) \<Rightarrow>
          map_option (\<lambda>res. obind res (\<lambda>(ary, s). return (Arr (map snd ary), s)))
            (if length ary > 1 then ruby_qsort (sort_by_cmp cmp) ary s else Some (return (ary, s))))"

section \<open>Quantifiers\<close>

definition all_iter_i :: "'s block1 \<Rightarrow> obj \<Rightarrow> bool \<times> 's \<Rightarrow> (bool \<times> 's) iter outcome" where
  "all_iter_i blk i = (\<lambda>(u1, s). obind (blk i s) (\<lambda>(r, s). return (if \<not> RTEST r then Break (False, s) else Next (u1, s))))"

definition all_i :: "obj \<Rightarrow> bool \<times> 's \<Rightarrow> (bool \<times> 's) iter outcome" where
  "all_i i = (\<lambda>(u1, s). return (if \<not> RTEST i then Break (False, s) else Next (u1, s)))"

definition enum_all :: "'s block1 option \<Rightarrow> obj list \<Rightarrow> 's \<Rightarrow> (bool \<times> 's) outcome" where
  "enum_all blk items s = rb_iterate (case blk of Some b \<Rightarrow> all_iter_i b | None \<Rightarrow> all_i) items (True, s)"

definition any_iter_i :: "'s block1 \<Rightarrow> obj \<Rightarrow> bool \<times> 's \<Rightarrow> (bool \<times> 's) iter outcome" where
  "any_iter_i blk i = (\<lambda>(u1, s). obind (blk i s) (\<lambda>(r, s). return (if RTEST r then Break (True, s) else Next (u1, s))))"

definition any_i :: "obj \<Rightarrow> bool \<times> 's \<Rightarrow> (bool \<times> 's) iter outcome" where
  "any_i i = (\<lambda>(u1, s). return (if RTEST i then Break (True, s) else Next (u1, s)))"

definition enum_any :: "'s block1 option \<Rightarrow> obj list \<Rightarrow> 's \<Rightarrow> (bool \<times> 's) outcome" where
  "enum_any blk items s = rb_iterate (case blk of Some b \<Rightarrow> any_iter_i b | None \<Rightarrow> any_i) items (False, s)"

text \<open>\<open>rb_equal\<close> calls \<open>==\<close> unless both are the same object.\<close>

definition rb_equal :: "(obj \<Rightarrow> obj \<Rightarrow> bool) \<Rightarrow> 's block2 \<Rightarrow> obj \<Rightarrow> obj \<Rightarrow> 's \<Rightarrow> (bool \<times> 's) outcome" where
  "rb_equal same eq a b s = (if same a b then return (True, s) else obind (eq a b s) (\<lambda>(r, s). return (RTEST r, s)))"

definition member_i :: "(obj \<Rightarrow> obj \<Rightarrow> bool) \<Rightarrow> 's block2 \<Rightarrow> obj \<Rightarrow> obj \<Rightarrow> bool \<times> 's \<Rightarrow> (bool \<times> 's) iter outcome" where
  "member_i same eq val i = (\<lambda>(u2, s).
     obind (rb_equal same eq i val s) (\<lambda>(r, s). return (if r then Break (True, s) else Next (u2, s))))"

definition enum_member :: "(obj \<Rightarrow> obj \<Rightarrow> bool) \<Rightarrow> 's block2 \<Rightarrow> obj \<Rightarrow> obj list \<Rightarrow> 's \<Rightarrow> (bool \<times> 's) outcome" where
  "enum_member same eq val items s = rb_iterate (member_i same eq val) items (False, s)"

section \<open>Extremes\<close>

text \<open>\<open>min_ii\<close> and \<open>max_ii\<close> differ from \<open>min_i\<close> and \<open>max_i\<close> only in calling the block instead of \<open><=>\<close>.\<close>

definition min_i :: "'s block2 \<Rightarrow> obj \<Rightarrow> obj \<times> 's \<Rightarrow> (obj \<times> 's) iter outcome" where
  "min_i cmp i = (\<lambda>(u1, s).
     if u1 = Qnil then return (Next (i, s))
     else obind (cmp i u1 s) (\<lambda>(r, s). obind (cmpint r) (\<lambda>n. return (Next (if n < 0 then i else u1, s)))))"

definition enum_min :: "'s block2 \<Rightarrow> 's block2 option \<Rightarrow> obj list \<Rightarrow> 's \<Rightarrow> (obj \<times> 's) outcome" where
  "enum_min cmp blk items s = rb_iterate (min_i (case blk of Some b \<Rightarrow> b | None \<Rightarrow> cmp)) items (Qnil, s)"

definition max_i :: "'s block2 \<Rightarrow> obj \<Rightarrow> obj \<times> 's \<Rightarrow> (obj \<times> 's) iter outcome" where
  "max_i cmp i = (\<lambda>(u1, s).
     if u1 = Qnil then return (Next (i, s))
     else obind (cmp i u1 s) (\<lambda>(r, s). obind (cmpint r) (\<lambda>n. return (Next (if n > 0 then i else u1, s)))))"

definition enum_max :: "'s block2 \<Rightarrow> 's block2 option \<Rightarrow> obj list \<Rightarrow> 's \<Rightarrow> (obj \<times> 's) outcome" where
  "enum_max cmp blk items s = rb_iterate (max_i (case blk of Some b \<Rightarrow> b | None \<Rightarrow> cmp)) items (Qnil, s)"

section \<open>Positions\<close>

definition each_with_index_i :: "'s block2 \<Rightarrow> obj \<Rightarrow> int \<times> 's \<Rightarrow> (int \<times> 's) iter outcome" where
  "each_with_index_i blk i = (\<lambda>(cnt, s). obind (blk i (Val (LONG2FIX cnt)) s) (\<lambda>(r, s). return (Next (cnt + 1, s))))"

text \<open>The result is the receiver itself, here its items.\<close>

definition enum_each_with_index :: "'s block2 \<Rightarrow> obj list \<Rightarrow> 's \<Rightarrow> (obj list \<times> 's) outcome" where
  "enum_each_with_index blk items s =
     obind (rb_iterate (each_with_index_i blk) items (0, s)) (\<lambda>(cnt, s). return (items, s))"

definition entry :: "obj list \<Rightarrow> nat \<Rightarrow> obj" where
  "entry ary idx = (if idx < length ary then ary ! idx else Qnil)"

definition zip_i :: "'s block1 option \<Rightarrow> obj list list \<Rightarrow> obj \<Rightarrow> obj list \<times> nat \<times> 's \<Rightarrow> (obj list \<times> nat \<times> 's) iter outcome" where
  "zip_i blk args v = (\<lambda>(result, idx, s).
     (let tmp = Arr (v # map (\<lambda>a. entry a idx) args) in
      case blk of
        Some b \<Rightarrow> obind (b tmp s) (\<lambda>(r, s). return (Next (result, idx + 1, s)))
      | None \<Rightarrow> return (Next (result @ [tmp], idx + 1, s))))"

text \<open>\<open>to_a\<close> converts an argument to an array.\<close>

fun convert_args :: "(obj \<Rightarrow> 's \<Rightarrow> (obj list \<times> 's) outcome) \<Rightarrow> obj list \<Rightarrow> 's \<Rightarrow> (obj list list \<times> 's) outcome" where
  "convert_args to_a [] s = return ([], s)"
| "convert_args to_a (a # args) s =
     obind (case a of Arr xs \<Rightarrow> return (xs, s) | _ \<Rightarrow> to_a a s) (\<lambda>(xs, s).
     obind (convert_args to_a args s) (\<lambda>(xss, s). return (xs # xss, s)))"

definition enum_zip :: "(obj \<Rightarrow> 's \<Rightarrow> (obj list \<times> 's) outcome) \<Rightarrow> 's block1 option \<Rightarrow> obj list \<Rightarrow> obj list \<Rightarrow> 's \<Rightarrow> (obj \<times> 's) outcome" where
  "enum_zip to_a blk argv items s =
     obind (convert_args to_a argv s) (\<lambda>(args, s).
     obind (rb_iterate (zip_i blk args) items ([], 0, s)) (\<lambda>(result, idx, s).
     return (case blk of Some b \<Rightarrow> Qnil | None \<Rightarrow> Arr result, s)))"


section \<open>The calls of a block\<close>

text \<open>All items in order, with the state handed on and the first error ending the calls.\<close>

fun calls :: "('i \<Rightarrow> 's \<Rightarrow> ('r \<times> 's) outcome) \<Rightarrow> 'i list \<Rightarrow> 's \<Rightarrow> ('r list \<times> 's) outcome" where
  "calls f [] s = Inr ([], s)"
| "calls f (x # xs) s = obind (f x s) (\<lambda>(r, s). obind (calls f xs s) (\<lambda>(rs, s). Inr (r # rs, s)))"

fun fold_calls :: "'s block2 \<Rightarrow> obj \<Rightarrow> obj list \<Rightarrow> 's \<Rightarrow> (obj \<times> 's) outcome" where
  "fold_calls f acc [] s = Inr (acc, s)"
| "fold_calls f acc (x # xs) s = obind (f acc x s) (\<lambda>(v, s). fold_calls f v xs s)"

lemma calls_length: "calls f xs s = Inr (rs, s') \<Longrightarrow> length rs = length xs"
  by (induction xs arbitrary: s rs) (auto simp: obind_eq_Inr_iff split: prod.splits)

text \<open>A body that calls the block once for each item and adds to what it keeps.\<close>

lemma iterate_calls:
  assumes "\<And>i a s. body i (a, s) = obind (f i s) (\<lambda>(r, s). Inr (Next (add a i r, s)))"
  shows "rb_iterate body xs (a, s) = obind (calls f xs s) (\<lambda>(rs, s'). Inr (fold (\<lambda>(i, r) a. add a i r) (zip xs rs) a, s'))"
proof (induction xs arbitrary: a s)
  case (Cons x xs)
  show ?case
  proof (cases "f x s")
    case (Inr p)
    obtain r s' where "p = (r, s')" by (cases p)
    then show ?thesis using Inr Cons by (cases "calls f xs s'") (auto simp: assms)
  qed (simp add: assms)
qed simp

lemma fold_append: "fold (\<lambda>(i, r) a. a @ g i r) ps a = a @ concat (map (\<lambda>(i, r). g i r) ps)"
  by (induction ps arbitrary: a) auto

lemma concat_if: "concat (map (\<lambda>(i, r). if P r then [i] else []) ps) = map fst (filter (P \<circ> snd) ps)"
  by (induction ps) auto

lemma fold_partition: "fold (\<lambda>(i, r) (a0, a1). if P r then (a0 @ [i], a1) else (a0, a1 @ [i])) ps (a0, a1) =
    (a0 @ map fst (filter (P \<circ> snd) ps), a1 @ map fst (filter (\<lambda>p. \<not> P (snd p)) ps))"
  by (induction ps arbitrary: a0 a1) auto

text \<open>The items whose result satisfies \<open>P\<close>.\<close>

definition chosen :: "('r \<Rightarrow> bool) \<Rightarrow> 'i list \<Rightarrow> 'r list \<Rightarrow> 'i list" where
  "chosen P xs rs = map fst (filter (P \<circ> snd) (zip xs rs))"

lemma find_all_calls: "enum_find_all blk xs s = obind (calls blk xs s) (\<lambda>(rs, s'). Inr (Arr (chosen RTEST xs rs), s'))"
  unfolding enum_find_all_def
  by (subst iterate_calls[where f = blk and add = "\<lambda>a i r. a @ (if RTEST r then [i] else [])"])
    (auto simp: find_all_i_def fold_append concat_if chosen_def obind_def split: sum.splits)


lemma reject_calls: "enum_reject blk xs s = obind (calls blk xs s) (\<lambda>(rs, s'). Inr (Arr (chosen (\<lambda>r. \<not> RTEST r) xs rs), s'))"
  unfolding enum_reject_def
  by (subst iterate_calls[where f = blk and add = "\<lambda>a i r. a @ (if \<not> RTEST r then [i] else [])"])
    (auto simp: reject_i_def fold_append concat_if[where P = "\<lambda>r. \<not> RTEST r"] chosen_def obind_def split: sum.splits)

lemma concat_snd: "length rs = length xs \<Longrightarrow> concat (map (\<lambda>(i, r). [r]) (zip xs rs)) = rs"
  by (induction xs arbitrary: rs) (auto simp: length_Suc_conv)

lemma collect_calls: "enum_collect (Some blk) xs s = obind (calls blk xs s) (\<lambda>(rs, s'). Inr (Arr rs, s'))"
  unfolding enum_collect_def option.case
  by (subst iterate_calls[where f = blk and add = "\<lambda>a i r. a @ [r]"])
    (auto simp: collect_i_def fold_append concat_snd obind_def dest: calls_length split: sum.splits)

lemma collect_all_run: "rb_iterate collect_all xs (a, s) = Inr (a @ xs, s)"
  by (induction xs arbitrary: a) (simp_all add: collect_all_def)

lemma to_a_run: "enum_to_a xs s = Inr (Arr xs, s)" "enum_collect None xs s = Inr (Arr xs, s)"
  by (simp_all add: enum_to_a_def enum_collect_def collect_all_run)

lemma partition_calls: "enum_partition blk xs s =
    obind (calls blk xs s) (\<lambda>(rs, s'). Inr (Arr [Arr (chosen RTEST xs rs), Arr (chosen (\<lambda>r. \<not> RTEST r) xs rs)], s'))"
  unfolding enum_partition_def
  by (subst iterate_calls[where f = blk and add = "\<lambda>a i r. case a of (a0, a1) \<Rightarrow> if RTEST r then (a0 @ [i], a1) else (a0, a1 @ [i])"])
    (auto simp: partition_i_def fold_partition[of RTEST] case_prod_beta chosen_def comp_def obind_def split: sum.splits)

lemma grep_calls: "enum_grep eqq None pat xs s =
    obind (calls (eqq pat) xs s) (\<lambda>(rs, s'). Inr (Arr (chosen RTEST xs rs), s'))"
  unfolding enum_grep_def option.case
  by (subst iterate_calls[where f = "eqq pat" and add = "\<lambda>a i r. a @ (if RTEST r then [i] else [])"])
    (auto simp: grep_i_def fold_append concat_if chosen_def obind_def split: sum.splits)

text \<open>With a block \<open>grep\<close> calls it right after each match.\<close>

definition match_then :: "'s block2 \<Rightarrow> 's block1 \<Rightarrow> obj \<Rightarrow> obj \<Rightarrow> 's \<Rightarrow> (obj option \<times> 's) outcome" where
  "match_then eqq blk pat i s = obind (eqq pat i s) (\<lambda>(r, s).
     if RTEST r then obind (blk i s) (\<lambda>(v, s). Inr (Some v, s)) else Inr (None, s))"

lemma concat_options: "length rs = length xs \<Longrightarrow>
    concat (map (\<lambda>(i, r). case r of Some v \<Rightarrow> [v] | None \<Rightarrow> []) (zip xs rs)) = List.map_filter id rs"
  by (induction xs arbitrary: rs) (auto simp: length_Suc_conv List.map_filter_simps split: option.splits)

lemma grep_block_calls: "enum_grep eqq (Some blk) pat xs s =
    obind (calls (match_then eqq blk pat) xs s) (\<lambda>(rs, s'). Inr (Arr (List.map_filter id rs), s'))"
  unfolding enum_grep_def option.case
  by (subst iterate_calls[where f = "match_then eqq blk pat" and add = "\<lambda>a i r. a @ (case r of Some v \<Rightarrow> [v] | None \<Rightarrow> [])"])
    (auto simp: grep_iter_i_def match_then_def fold_append concat_options obind_def dest: calls_length split: sum.splits)

lemma inject_run: "rb_iterate (inject_i blk) xs (a, False, s) = obind (fold_calls blk a xs s) (\<lambda>(v, s'). Inr (v, False, s'))"
proof (induction xs arbitrary: a s)
  case (Cons x xs)
  then show ?case by (cases "blk a x s") (auto simp: inject_i_def)
qed simp

lemma inject_calls:
  "enum_inject blk (Some n) xs s = fold_calls blk n xs s"
  "enum_inject blk None [] s = Inr (Qnil, s)"
  "enum_inject blk None (x # xs) s = fold_calls blk x xs s"
proof -
  have strip: "obind (obind m (\<lambda>(v, s'). Inr (v, False, s'))) (\<lambda>(u1, u2, s). Inr (u1, s)) = m" for m :: "(obj \<times> 's) outcome"
    by (cases m) auto
  show "enum_inject blk (Some n) xs s = fold_calls blk n xs s" "enum_inject blk None [] s = Inr (Qnil, s)"
    by (simp_all add: enum_inject_def inject_run strip)
  show "enum_inject blk None (x # xs) s = fold_calls blk x xs s"
    by (simp add: enum_inject_def inject_run strip) (simp add: inject_i_def inject_run strip)
qed

section \<open>Leaving early\<close>

lemma find_skips:
  assumes "calls blk pre s = Inr (rs, s1)" "\<forall>r \<in> set rs. \<not> RTEST r"
  shows "rb_iterate (find_i blk) (pre @ xs) (u, b, s) = rb_iterate (find_i blk) xs (u, b, s1)"
    and "rb_iterate (any_iter_i blk) (pre @ xs) (q, s) = rb_iterate (any_iter_i blk) xs (q, s1)"
proof -
  show "rb_iterate (find_i blk) (pre @ xs) (u, b, s) = rb_iterate (find_i blk) xs (u, b, s1)"
    using assms by (induction pre arbitrary: s rs) (auto simp: obind_eq_Inr_iff find_i_def split: prod.splits)
  show "rb_iterate (any_iter_i blk) (pre @ xs) (q, s) = rb_iterate (any_iter_i blk) xs (q, s1)"
    using assms by (induction pre arbitrary: s rs) (auto simp: obind_eq_Inr_iff any_iter_i_def split: prod.splits)
qed

lemma all_skips:
  assumes "calls blk pre s = Inr (rs, s1)" "\<forall>r \<in> set rs. RTEST r"
  shows "rb_iterate (all_iter_i blk) (pre @ xs) (q, s) = rb_iterate (all_iter_i blk) xs (q, s1)"
  using assms by (induction pre arbitrary: s rs) (auto simp: obind_eq_Inr_iff all_iter_i_def split: prod.splits)

lemma member_skips:
  assumes "calls (\<lambda>i. rb_equal same eq i v) pre s = Inr (rs, s1)" "True \<notin> set rs"
  shows "rb_iterate (member_i same eq v) (pre @ xs) (q, s) = rb_iterate (member_i same eq v) xs (q, s1)"
  using assms by (induction pre arbitrary: s rs) (auto simp: obind_eq_Inr_iff member_i_def split: prod.splits)


section \<open>Positions and pairs\<close>

lemma index_calls:
  "rb_iterate (each_with_index_i blk) xs (int n, s) =
     obind (calls (\<lambda>(n, x). blk x (Val (LONG2FIX (int n)))) (List.enumerate n xs) s) (\<lambda>(rs, s'). Inr (int (n + length xs), s'))"
proof (induction xs arbitrary: n s)
  case (Cons x xs)
  show ?case
  proof (cases "blk x (Val (LONG2FIX (int n))) s")
    case (Inr p)
    obtain r s' where "p = (r, s')" by (cases p)
    then show ?thesis using Inr Cons[of "Suc n" s']
      by (cases "calls (\<lambda>(n, x). blk x (Val (LONG2FIX (int n)))) (List.enumerate (Suc n) xs) s'")
        (auto simp: each_with_index_i_def add.commute)
  qed (simp add: each_with_index_i_def)
qed simp

definition rows :: "nat \<Rightarrow> obj list list \<Rightarrow> obj list \<Rightarrow> obj list" where
  "rows n args xs = map (\<lambda>(i, x). Arr (x # map (\<lambda>a. entry a i) args)) (List.enumerate n xs)"

lemma zip_run: "rb_iterate (zip_i None args) xs (a, n, s) = Inr (a @ rows n args xs, n + length xs, s)"
  by (induction xs arbitrary: a n) (simp_all add: zip_i_def rows_def)

lemma zip_block_run: "rb_iterate (zip_i (Some b) args) xs (a, n, s) =
    obind (calls b (rows n args xs) s) (\<lambda>(rs, s'). Inr (a, n + length xs, s'))"
proof (induction xs arbitrary: n s)
  case (Cons x xs)
  let ?row = "Arr (x # map (\<lambda>a. entry a n) args)"
  have rows: "rows n args (x # xs) = ?row # rows (Suc n) args xs" by (simp add: rows_def)
  show ?case
  proof (cases "b ?row s")
    case (Inr p)
    obtain r s' where "p = (r, s')" by (cases p)
    then show ?thesis using Inr Cons[of "Suc n" s'] by (cases "calls b (rows (Suc n) args xs) s'") (auto simp: zip_i_def rows)
  qed (simp add: zip_i_def rows)
qed (simp add: rows_def)

section \<open>Extremes and orders\<close>

text \<open>\<open>d\<close> is the comparison for the minimum and its converse for the maximum.\<close>

lemma extreme_run:
  assumes body: "\<And>i u s. u \<noteq> Qnil \<Longrightarrow> body i (u, s) =
      obind (cmp i u s) (\<lambda>(r, s). obind (cmpint r) (\<lambda>n. Inr (Next (if better n then i else u, s))))"
    and cmp: "\<And>a b s. a \<in> S \<Longrightarrow> b \<in> S \<Longrightarrow> \<exists>s'. cmp a b s = Inr (Val (Fixnum (c a b)), s')"
    and better: "\<And>a b. better (c a b) \<longleftrightarrow> d a b < 0"
    and laws: "\<And>a b. d a b < 0 \<longleftrightarrow> (0 :: int) < d b a" "\<And>a b e. d a b \<le> 0 \<Longrightarrow> d b e \<le> 0 \<Longrightarrow> d a e \<le> 0"
    and "Qnil \<notin> S"
  shows "set xs \<subseteq> S \<Longrightarrow> u \<in> S \<Longrightarrow> \<exists>m s' pre post. rb_iterate body xs (u, s) = Inr (m, s') \<and> u # xs = pre @ m # post \<and>
    (\<forall>x \<in> set pre. d m x < 0) \<and> (\<forall>x \<in> set post. d m x \<le> 0)"
proof (induction xs arbitrary: u s)
  case Nil
  then show ?case by (intro exI[of _ u] exI[of _ s] exI[of _ "[]"]) simp
next
  case (Cons x xs)
  let ?v = "if d x u < 0 then x else u"
  obtain s1 where "cmp x u s = Inr (Val (Fixnum (c x u)), s1)" using cmp Cons.prems by fastforce
  moreover have "u \<noteq> Qnil" using Cons.prems(2) assms(6) by metis
  ultimately have b: "body x (u, s) = Inr (Next (?v, s1))" using body[of u x s] better by (simp add: cmpint_def rb_cmpint_def)
  have "set xs \<subseteq> S" "?v \<in> S" using Cons.prems by simp_all
  then obtain m s' pre post where m: "rb_iterate body xs (?v, s1) = Inr (m, s')" "?v # xs = pre @ m # post"
      "\<forall>y \<in> set pre. d m y < 0" "\<forall>y \<in> set post. d m y \<le> 0"
    using Cons.IH[of ?v s1] by blast
  have refl: "d a a = 0" for a using laws(1)[of a a] by auto
  have flip: "0 \<le> d a b \<longleftrightarrow> d b a \<le> 0" for a b using laws(1)[of a b] by auto
  have lt: "d a e < 0" if "d a b \<le> 0" "d b e < 0" for a b e using laws(1)[of a e] laws(1)[of b e] laws(2)[of e a b] flip that by force
  have lt': "d a e < 0" if "d a b < 0" "d b e \<le> 0" for a b e using laws(1)[of a e] laws(1)[of a b] laws(2)[of b e a] flip that by force
  have run: "rb_iterate body (x # xs) (u, s) = Inr (m, s')" using b m(1) by simp
  show ?case
  proof (cases pre)
    case Nil
    then have v: "m = ?v" "post = xs" using m(2) by simp_all
    show ?thesis
    proof (cases "d x u < 0")
      case True
      then show ?thesis using run v m(4) by (intro exI[of _ m] exI[of _ s'] exI[of _ "[u]"] exI[of _ xs]) auto
    next
      case False
      then show ?thesis using run v m(4) flip[of x u] by (intro exI[of _ m] exI[of _ s'] exI[of _ "[]"] exI[of _ "x # xs"]) auto
    qed
  next
    case (Cons w pre')
    then have w: "w = ?v" "xs = pre' @ m # post" using m(2) by simp_all
    have mv: "d m ?v < 0" using m(3) Cons w(1) by simp
    have "d m u < 0" using mv lt'[of m x u] by (cases "d x u < 0") auto
    moreover have "d m x < 0" using mv lt'[of m u x] flip[of x u] by (cases "d x u < 0") auto
    ultimately show ?thesis using run w(2) m(3,4) Cons
      by (intro exI[of _ m] exI[of _ s'] exI[of _ "u # x # pre'"] exI[of _ post]) auto
  qed
qed


lemma extremes_nil: "rb_iterate (min_i cmp) (Qnil # xs) (Qnil, s) = rb_iterate (min_i cmp) xs (Qnil, s)"
  "rb_iterate (max_i cmp) (Qnil # xs) (Qnil, s) = rb_iterate (max_i cmp) xs (Qnil, s)"
  by (simp_all add: min_i_def max_i_def)

lemma sort_by_keys: "rb_iterate (sort_by_i blk) xs ([], s) = obind (calls blk xs s) (\<lambda>(ks, s'). Inr (zip ks xs, s'))"
proof -
  have "concat (map (\<lambda>(i, r). [(r, i)]) (zip xs rs)) = zip rs xs" for rs
    by (induction xs arbitrary: rs) (auto simp: zip_Cons1 split: list.splits)
  then show ?thesis
    by (subst iterate_calls[where f = blk and add = "\<lambda>a i r. a @ [(r, i)]"])
      (auto simp: sort_by_i_def fold_append obind_def split: sum.splits)
qed

section \<open>Properties\<close>

text \<open>
  C38. The methods that visit every item call the block once for each, in order, handing on the state of
  the program; the first error ends the method and is its result. With the list of the block's answers,
  \<open>find_all\<close> and \<open>reject\<close> choose the items that were answered with true and with false, \<open>partition\<close> both,
  \<open>collect\<close> answers with the list itself, \<open>grep\<close> chooses the items that match or maps them, \<open>inject\<close> folds,
  \<open>each_with_index\<close> counts, and \<open>zip\<close> pairs each item with the elements at its position, nil behind the
  end of an argument.
\<close>

theorem enum_visits_all:
  "enum_find_all blk xs s = obind (calls blk xs s) (\<lambda>(rs, s'). Inr (Arr (chosen RTEST xs rs), s')) \<and>
   enum_reject blk xs s = obind (calls blk xs s) (\<lambda>(rs, s'). Inr (Arr (chosen (\<lambda>r. \<not> RTEST r) xs rs), s')) \<and>
   enum_partition blk xs s = obind (calls blk xs s)
     (\<lambda>(rs, s'). Inr (Arr [Arr (chosen RTEST xs rs), Arr (chosen (\<lambda>r. \<not> RTEST r) xs rs)], s')) \<and>
   enum_collect (Some blk) xs s = obind (calls blk xs s) (\<lambda>(rs, s'). Inr (Arr rs, s')) \<and>
   enum_collect None xs s = Inr (Arr xs, s) \<and> enum_to_a xs s = Inr (Arr xs, s) \<and>
   enum_grep eqq None pat xs s = obind (calls (eqq pat) xs s) (\<lambda>(rs, s'). Inr (Arr (chosen RTEST xs rs), s')) \<and>
   enum_grep eqq (Some blk) pat xs s = obind (calls (match_then eqq blk pat) xs s) (\<lambda>(rs, s'). Inr (Arr (List.map_filter id rs), s')) \<and>
   enum_inject blk2 (Some n) xs s = fold_calls blk2 n xs s \<and>
   enum_inject blk2 None xs s = (case xs of [] \<Rightarrow> Inr (Qnil, s) | x # ys \<Rightarrow> fold_calls blk2 x ys s) \<and>
   enum_each_with_index blk2 xs s =
     obind (calls (\<lambda>(n, x). blk2 x (Val (LONG2FIX (int n)))) (List.enumerate 0 xs) s) (\<lambda>(rs, s'). Inr (xs, s')) \<and>
   enum_zip to_a None argv xs s = obind (convert_args to_a argv s) (\<lambda>(args, s'). Inr (Arr (rows 0 args xs), s')) \<and>
   enum_zip to_a (Some blk) argv xs s =
     obind (convert_args to_a argv s) (\<lambda>(args, s'). obind (calls blk (rows 0 args xs) s') (\<lambda>(rs, s''). Inr (Qnil, s'')))"
proof (intro conjI)
  show "enum_inject blk2 None xs s = (case xs of [] \<Rightarrow> Inr (Qnil, s) | x # ys \<Rightarrow> fold_calls blk2 x ys s)"
    by (cases xs) (simp_all add: inject_calls)
  show "enum_each_with_index blk2 xs s =
     obind (calls (\<lambda>(n, x). blk2 x (Val (LONG2FIX (int n)))) (List.enumerate 0 xs) s) (\<lambda>(rs, s'). Inr (xs, s'))"
    using index_calls[of blk2 xs 0 s] by (auto simp: enum_each_with_index_def obind_def split: sum.splits)
  show "enum_zip to_a None argv xs s = obind (convert_args to_a argv s) (\<lambda>(args, s'). Inr (Arr (rows 0 args xs), s'))"
    by (auto simp: enum_zip_def zip_run obind_def split: sum.splits)
  show "enum_zip to_a (Some blk) argv xs s =
     obind (convert_args to_a argv s) (\<lambda>(args, s'). obind (calls blk (rows 0 args xs) s') (\<lambda>(rs, s''). Inr (Qnil, s'')))"
    by (auto simp: enum_zip_def zip_block_run obind_def split: sum.splits)
qed (simp_all add: find_all_calls reject_calls partition_calls collect_calls to_a_run grep_calls grep_block_calls inject_calls)

text \<open>
  The methods that search leave the iteration at the first item that decides: when the block answered
  false for the items of \<open>pre\<close> and true for \<open>x\<close>, \<open>find\<close> answers \<open>x\<close> and \<open>any?\<close> true in the state after that
  call, and the items behind are not visited; \<open>all?\<close> likewise at the first false, \<open>member?\<close> at the first
  equal item. When no item decides, \<open>find\<close> answers nil or calls its argument.
\<close>

theorem enum_leaves_early:
  assumes "calls blk pre s = Inr (rs, s1)" "\<forall>r \<in> set rs. \<not> RTEST r" "blk x s1 = Inr (r, s2)" "RTEST r"
    and "calls blk' pre s = Inr (rs', s1')" "\<forall>r \<in> set rs'. RTEST r" "blk' x s1' = Inr (r', s2')" "\<not> RTEST r'"
    and "calls (\<lambda>i. rb_equal same eq i v) pre s = Inr (bs, s1'')" "True \<notin> set bs" "rb_equal same eq x v s1'' = Inr (True, s2'')"
  shows "enum_find blk call if_none (pre @ x # post) s = Inr (x, s2) \<and>
    enum_any (Some blk) (pre @ x # post) s = Inr (True, s2) \<and>
    enum_all (Some blk') (pre @ x # post) s = Inr (False, s2') \<and>
    enum_member same eq v (pre @ x # post) s = Inr (True, s2'') \<and>
    enum_find blk call if_none pre s = (case if_none of
        None \<Rightarrow> Inr (Qnil, s1) | Some f \<Rightarrow> if f = Qnil then Inr (Qnil, s1) else call f s1) \<and>
    enum_any (Some blk) pre s = Inr (False, s1) \<and> enum_all (Some blk') pre s = Inr (True, s1') \<and>
    enum_member same eq v pre s = Inr (False, s1'')"
  using find_skips[OF assms(1,2), of "x # post"] find_skips[OF assms(1,2), of "[]"] all_skips[OF assms(5,6), of "x # post"]
    all_skips[OF assms(5,6), of "[]"] member_skips[OF assms(9,10), of "x # post"] member_skips[OF assms(9,10), of "[]"] assms(3,4,7,8,11)
  by (auto simp: enum_find_def enum_any_def enum_all_def enum_member_def find_i_def any_iter_i_def all_iter_i_def member_i_def
      split: option.splits)

theorem enum_leaves_early_witness:
  "enum_find (\<lambda>i n. Inr (if n = 1 then Qtrue else Qfalse, n + 1)) (\<lambda>f n. Inr (f, n)) None [Object 1, Object 2, Object 3] (0 :: nat) = Inr (Object 2, 2)"
  using enum_leaves_early[of "\<lambda>i n. Inr (if n = 1 then Qtrue else Qfalse, n + 1)" "[Object 1]" "0 :: nat" "[Qfalse]" 1 "Object 2" Qtrue 2
      "\<lambda>i n. Inr (if n = 1 then Qfalse else Qtrue, n + 1)" "[Qtrue]" 1 Qfalse 2 "(=)" "\<lambda>a b n. Inr (Qfalse, n + 1)" "Object 2" "[False]" 1 1
      "\<lambda>f n. Inr (f, n)" None "[Object 3]"]
  by (simp add: RTEST_def rb_equal_def)


text \<open>
  C39. \<open>min\<close> and \<open>max\<close>, with \<open><=>\<close> or a block that orders the items, answer the first of the smallest or
  largest items, and nil for no items. Leading nils are skipped without a comparison, because nil
  also stands for no item yet: the answer is the one without them.
\<close>

theorem enum_extremes:
  assumes "\<forall>a \<in> set xs. \<forall>b \<in> set xs. \<forall>s. \<exists>s'. cmp a b s = Inr (Val (Fixnum (c a b)), s')"
    and "\<forall>a b. c a b < 0 \<longleftrightarrow> 0 < c b a" "\<forall>a b e. c a b \<le> 0 \<and> c b e \<le> 0 \<longrightarrow> c a e \<le> 0"
    and "Qnil \<notin> set xs" "xs \<noteq> []"
  shows "(\<exists>m s' pre post. enum_min cmp None (replicate k Qnil @ xs) s = Inr (m, s') \<and> xs = pre @ m # post \<and>
       (\<forall>x \<in> set pre. c m x < 0) \<and> (\<forall>x \<in> set post. c m x \<le> 0)) \<and>
    (\<exists>m s' pre post. enum_max cmp None (replicate k Qnil @ xs) s = Inr (m, s') \<and> xs = pre @ m # post \<and>
       (\<forall>x \<in> set pre. c x m < 0) \<and> (\<forall>x \<in> set post. c x m \<le> 0)) \<and>
    enum_min other (Some cmp) (replicate k Qnil @ xs) s = enum_min cmp None (replicate k Qnil @ xs) s \<and>
    enum_max other (Some cmp) (replicate k Qnil @ xs) s = enum_max cmp None (replicate k Qnil @ xs) s \<and>
    enum_min cmp None [] s = Inr (Qnil, s) \<and> enum_max cmp None [] s = Inr (Qnil, s)"
proof -
  obtain x ys where xs: "xs = x # ys" using assms(5) by (cases xs) auto
  have x: "x \<noteq> Qnil" using assms(4) xs by auto
  have skip: "rb_iterate (min_i cmp) (replicate k Qnil @ xs) (Qnil, s) = rb_iterate (min_i cmp) ys (x, s)"
    "rb_iterate (max_i cmp) (replicate k Qnil @ xs) (Qnil, s) = rb_iterate (max_i cmp) ys (x, s)"
    by (induction k) (simp_all add: min_i_def max_i_def xs)
  have in_xs: "set ys \<subseteq> set xs" "x \<in> set xs" by (auto simp: xs)
  have cmp: "\<exists>s'. cmp a b s = Inr (Val (Fixnum (c a b)), s')" if "a \<in> set xs" "b \<in> set xs" for a b s using assms(1) that by blast
  have flip: "c a b \<le> 0 \<longleftrightarrow> 0 \<le> c b a" for a b using assms(2) by (metis not_less)
  have laws: "c a b < 0 \<longleftrightarrow> 0 < c b a" "c a b \<le> 0 \<Longrightarrow> c b e \<le> 0 \<Longrightarrow> c a e \<le> 0" for a b e using assms(2,3) by blast+
  have laws': "- c a b < 0 \<longleftrightarrow> 0 < - c b a" "- c a b \<le> 0 \<Longrightarrow> - c b e \<le> 0 \<Longrightarrow> - c a e \<le> 0" for a b e
    using laws(1)[of b a] laws(2)[of e b a] flip[of b a] flip[of e b] flip[of e a] by simp_all
  have better: "0 < c a b \<longleftrightarrow> - c a b < 0" for a b by simp
  have body: "min_i cmp i (u, s) = obind (cmp i u s) (\<lambda>(r, s). obind (cmpint r) (\<lambda>n. Inr (Next (if n < 0 then i else u, s))))"
    "max_i cmp i (u, s) = obind (cmp i u s) (\<lambda>(r, s). obind (cmpint r) (\<lambda>n. Inr (Next (if 0 < n then i else u, s))))"
    if "u \<noteq> Qnil" for i u s using that by (simp_all add: min_i_def max_i_def)
  have "\<exists>m s' pre post. rb_iterate (min_i cmp) ys (x, s) = Inr (m, s') \<and> x # ys = pre @ m # post \<and>
      (\<forall>x \<in> set pre. c m x < 0) \<and> (\<forall>x \<in> set post. c m x \<le> 0)"
    by (rule extreme_run[where better = "\<lambda>n. n < 0" and d = c, OF body(1) cmp refl laws assms(4) in_xs])
  moreover have "\<exists>m s' pre post. rb_iterate (max_i cmp) ys (x, s) = Inr (m, s') \<and> x # ys = pre @ m # post \<and>
      (\<forall>x \<in> set pre. - c m x < 0) \<and> (\<forall>x \<in> set post. - c m x \<le> 0)"
    by (rule extreme_run[where better = "\<lambda>n. 0 < n" and d = "\<lambda>a b. - c a b", OF body(2) cmp better laws' assms(4) in_xs])
  then have "\<exists>m s' pre post. rb_iterate (max_i cmp) ys (x, s) = Inr (m, s') \<and> x # ys = pre @ m # post \<and>
      (\<forall>x \<in> set pre. c x m < 0) \<and> (\<forall>x \<in> set post. c x m \<le> 0)" using laws(1) flip by simp
  ultimately show ?thesis by (simp add: enum_min_def enum_max_def skip xs[symmetric])
qed

theorem enum_extremes_witness:
  "(\<exists>s'. enum_min (\<lambda>a b n. Inr (Val (Fixnum (case (a, b) of (Object i, Object j) \<Rightarrow> int i - int j | (Object i, _) \<Rightarrow> 1 | (_, Object j) \<Rightarrow> -1 | _ \<Rightarrow> 0)), n + 1))
     None [Qnil, Object 5, Object 3, Object 4] (0 :: nat) = Inr (Object 3, s'))"
proof -
  let ?c = "\<lambda>a b. case (a, b) of (Object i, Object j) \<Rightarrow> int i - int j | (Object i, _) \<Rightarrow> 1 | (_, Object j) \<Rightarrow> -1 | _ \<Rightarrow> 0"
  let ?cmp = "\<lambda>a b (n :: nat). Inr (Val (Fixnum (?c a b)), n + 1)"
  have laws: "\<forall>a b. ?c a b < 0 \<longleftrightarrow> 0 < ?c b a" "\<forall>a b e. ?c a b \<le> 0 \<and> ?c b e \<le> 0 \<longrightarrow> ?c a e \<le> 0" by (auto split: obj.splits)
  have "\<forall>a \<in> set [Object 5, Object 3, Object 4]. \<forall>b \<in> set [Object 5, Object 3, Object 4]. \<forall>n. \<exists>n'. ?cmp a b n = Inr (Val (Fixnum (?c a b)), n')"
    "Qnil \<notin> set [Object 5, Object 3, Object 4]" "[Object 5, Object 3, Object 4] \<noteq> []" by simp_all
  note w = enum_extremes[OF this(1) laws this(2,3), THEN conjunct1, of 1 0]
  have "replicate 1 Qnil @ [Object 5, Object 3, Object 4] = [Qnil, Object 5, Object 3, Object 4]" by simp
  from w[unfolded this] obtain m s' pre post where m: "enum_min ?cmp None [Qnil, Object 5, Object 3, Object 4] 0 = Inr (m, s')"
      "[Object 5, Object 3, Object 4] = pre @ m # post" "\<forall>x \<in> set pre. ?c m x < 0" "\<forall>x \<in> set post. ?c m x \<le> 0"
    by (elim exE conjE)
  have "m = Object 3" using m(2-4) by (auto simp: Cons_eq_append_conv)
  then show ?thesis using m(1) by blast
qed

text \<open>
  C40. \<open>sort_by\<close> computes the key of every item once, in order, and sorts by the keys: the result consists
  of the items paired with their keys, in the order of the keys, when \<open><=>\<close> orders them. Whatever
  \<open><=>\<close> does, the method ends and the items are a permutation or the result is an error.
\<close>

theorem enum_sort_by_correct:
  assumes "calls blk xs s = Inr (ks, s1)" "int (length xs) < 2 ^ 32"
    and "\<forall>a \<in> set ks. \<forall>b \<in> set ks. \<forall>s. \<exists>s'. cmp a b s = Inr (Val (Fixnum (c a b)), s')"
    and "\<forall>a b. c a b < 0 \<longleftrightarrow> 0 < c b a" "\<forall>a b e. c a b \<le> 0 \<and> c b e \<le> 0 \<longrightarrow> c a e \<le> 0"
  shows "(\<exists>ps s'. enum_sort_by blk cmp xs s = Some (Inr (Arr (map snd ps), s')) \<and> mset ps = mset (zip ks xs) \<and>
       sorted_wrt (\<lambda>a b. c (fst a) (fst b) \<le> 0) ps) \<and>
    (\<exists>res. enum_sort_by blk any xs s = Some res \<and>
       (case res of Inr (r, s') \<Rightarrow> \<exists>ys. r = Arr ys \<and> mset ys = mset xs
        | Inl e \<Rightarrow> e = ArgError \<or> e = Coerce \<or> (\<exists>a b s. any a b s = Inl e)))"
proof
  let ?c = "\<lambda>a b. c (fst a) (fst b)" and ?ps = "zip ks xs"
  have len: "length ks = length xs" using assms(1) by (rule calls_length)
  have size: "int (length ?ps) < 2 ^ 32" using assms(2) len by simp
  have cm: "compared (sort_by_cmp cmp) (set ?ps) (\<lambda>_. False) True ?c"
  proof
    fix a b s assume "a \<in> set ?ps" "b \<in> set ?ps"
    then have "fst a \<in> set ks \<and> fst b \<in> set ks" by (metis prod.collapse set_zip_leftD)
    then obtain s' where "cmp (fst a) (fst b) s = Inr (Val (Fixnum (?c a b)), s')" using assms(3) by blast
    then show "okay (\<lambda>_. False) (sort_by_cmp cmp a b s) (\<lambda>(t, s'). True \<longrightarrow> t = ?c a b)"
      by (simp add: sort_by_cmp_def cmpint_def rb_cmpint_def)
  qed (use assms(4,5) in blast)+
  obtain res where res: "ruby_qsort (sort_by_cmp cmp) ?ps s1 = Some res"
      "okay (\<lambda>_. False) res (\<lambda>(ys, s'). mset ys = mset ?ps \<and> (True \<longrightarrow> sorted_wrt (\<lambda>a b. ?c a b \<le> 0) ys))"
    using compared.qsort_result[OF cm order_refl size, of s1] by blast
  then obtain ps s' where ps: "res = Inr (ps, s')" "mset ps = mset ?ps" "sorted_wrt (\<lambda>a b. ?c a b \<le> 0) ps" by (cases res) auto
  have single: "length ?ps \<le> 1 \<Longrightarrow> ruby_qsort f ?ps s1 = Some (Inr (?ps, s1))" for f :: "(obj \<times> obj, 'a) comparison"
    by (simp add: ruby_qsort_def)
  have run: "enum_sort_by blk f xs s = map_option (\<lambda>res. obind res (\<lambda>(ary, s). Inr (Arr (map snd ary), s))) (ruby_qsort (sort_by_cmp f) ?ps s1)" for f
    using single[of "sort_by_cmp f"] by (simp add: enum_sort_by_def sort_by_keys assms(1) del: length_zip)
  show "\<exists>ps s'. enum_sort_by blk cmp xs s = Some (Inr (Arr (map snd ps), s')) \<and> mset ps = mset ?ps \<and>
       sorted_wrt (\<lambda>a b. ?c a b \<le> 0) ps"
    using run[of cmp] res(1) ps by auto
  have err: "e = ArgError \<or> e = Coerce \<or> (\<exists>a b s. any a b s = Inl e)" if "sort_by_cmp any a b s = Inl e" for a b s e
    using that by (cases "any (fst a) (fst b) s")
      (auto simp: sort_by_cmp_def cmpint_def rb_cmpint_def split: obj.splits "value.splits" option.splits)
  obtain res' where res': "ruby_qsort (sort_by_cmp any) ?ps s1 = Some res'"
      "okay (\<lambda>e. \<exists>a b s. sort_by_cmp any a b s = Inl e) res' (\<lambda>(ys, s'). mset ys = mset ?ps \<and> (False \<longrightarrow> sorted_wrt (\<lambda>a b. (0 :: int) \<le> 0) ys))"
    using anything.qsort_result[of ?ps "sort_by_cmp any" s1] size by auto
  have items: "mset (map snd ys) = mset xs" if "mset ys = mset ?ps" for ys :: "(obj \<times> obj) list"
    using that len by (metis map_snd_zip mset_map)
  show "\<exists>res. enum_sort_by blk any xs s = Some res \<and>
       (case res of Inr (r, s') \<Rightarrow> \<exists>ys. r = Arr ys \<and> mset ys = mset xs
        | Inl e \<Rightarrow> e = ArgError \<or> e = Coerce \<or> (\<exists>a b s. any a b s = Inl e))"
  proof (cases res')
    case (Inl e)
    then show ?thesis using run[of any] res' err[of _ _ _ e] by auto
  next
    case (Inr r)
    then show ?thesis using run[of any] res' items by (auto simp del: mset_map)
  qed
qed

theorem enum_sort_by_correct_witness:
  "\<exists>ps s'. enum_sort_by (\<lambda>i n. Inr (i, n + 1)) (\<lambda>a b n. Inr (Val (Fixnum 0), n)) [Object 2, Object 1] (0 :: nat) = Some (Inr (Arr (map snd ps), s')) \<and>
     mset ps = mset [(Object 2, Object 2), (Object 1, Object 1)]"
  using enum_sort_by_correct[of "\<lambda>i n. Inr (i, n + 1)" "[Object 2, Object 1]" "0 :: nat" "[Object 2, Object 1]" 2
      "\<lambda>a b n. Inr (Val (Fixnum 0), n)" "\<lambda>_ _. 0" "\<lambda>a b n. Inr (Val (Fixnum 0), n)"] by auto

end
