(* ===== verification/Rb_Random.thy ===== *)
theory Rb_Random
  imports Numeric
begin

unbundle bit_operations_syntax

text \<open>
  The random numbers of \<^verbatim>\<open>src/ruby/random.c\<close>: the Mersenne twister MT19937 on its state array, the
  seeding, and \<open>rand\<close> for an integer limit, with \<open>rb_big_rand\<close> of \<^verbatim>\<open>bignum.c\<close>. A random real is
  \<open>y / 2\<^sup>3\<^sup>2\<close> for a 32 bit word \<open>y\<close>, and stands here for \<open>y\<close>; a product of doubles is rounded to 53 bits.
\<close>

section \<open>The generator\<close>

type_synonym w32 = "32 word"

definition N :: nat where "N = 624"
definition M :: nat where "M = 397"
definition MATRIX_A :: w32 where "MATRIX_A = 0x9908b0df"
definition UMASK :: w32 where "UMASK = 0x80000000"
definition LMASK :: w32 where "LMASK = 0x7fffffff"

definition MIXBITS :: "w32 \<Rightarrow> w32 \<Rightarrow> w32" where
  "MIXBITS u v = (u AND UMASK) OR (v AND LMASK)"

definition TWIST :: "w32 \<Rightarrow> w32 \<Rightarrow> w32" where
  "TWIST u v = drop_bit 1 (MIXBITS u v) XOR (if v AND 1 \<noteq> 0 then MATRIX_A else 0)"

text \<open>
  The static variables of the file; \<open>next\<close> is the index of the element it points at, \<open>None\<close> before it is
  set.
\<close>

record random =
  state :: "w32 list"
  left :: int
  initf :: bool
  next_state_ptr :: "nat option"
  saved_seed :: w32
  first :: bool

definition init_word :: "nat \<Rightarrow> w32 list \<Rightarrow> w32 list" where
  "init_word j st = st[j := 1812433253 * (st ! (j - 1) XOR drop_bit 30 (st ! (j - 1))) + of_nat j]"

definition init_genrand :: "w32 \<Rightarrow> random \<Rightarrow> random" where
  "init_genrand s r = r\<lparr>state := fold init_word [1 ..< N] ((state r)[0 := s]), left := 1, initf := True\<rparr>"

definition next_state :: "random \<Rightarrow> random" where
  "next_state r =
     (let r = (if \<not> initf r then init_genrand 5489 r else r);
          st = state r;
          st = fold (\<lambda>p st. st[p := st ! (p + M) XOR TWIST (st ! p) (st ! (p + 1))]) [0 ..< N - M] st;
          st = fold (\<lambda>p st. st[p := st ! (p + M - N) XOR TWIST (st ! p) (st ! (p + 1))]) [N - M ..< N - 1] st;
          p = N - 1;
          st = st[p := st ! (p + M - N) XOR TWIST (st ! p) (st ! 0)]
      in r\<lparr>left := int N, next_state_ptr := Some 0, state := st\<rparr>)"

definition temper :: "w32 \<Rightarrow> w32" where
  "temper y =
     (let y = y XOR drop_bit 11 y;
          y = y XOR (push_bit 7 y AND 0x9d2c5680);
          y = y XOR (push_bit 15 y AND 0xefc60000)
      in y XOR drop_bit 18 y)"

definition genrand_real :: "random \<Rightarrow> (w32 \<times> random) outcome" where
  "genrand_real r =
     (let r = r\<lparr>left := left r - 1\<rparr>;
          r = (if left r = 0 then next_state r else r)
      in case next_state_ptr r of
           None \<Rightarrow> raise Undefined
         | Some p \<Rightarrow>
             if p < length (state r) then return (temper (state r ! p), r\<lparr>next_state_ptr := Some (p + 1)\<rparr>)
             else raise Undefined)"

section \<open>Seeding\<close>

definition rand_init :: "w32 \<Rightarrow> random \<Rightarrow> w32 \<times> random" where
  "rand_init seed r = (saved_seed r, (init_genrand seed (r\<lparr>first := False\<rparr>))\<lparr>saved_seed := seed\<rparr>)"

text \<open>
  \<open>entropy\<close> is what \<open>random_seed\<close> makes of the clock and the process; \<open>num2ulong\<close> converts an argument
  that is no integer.
\<close>

definition rb_f_srand :: "w32 \<Rightarrow> (value \<Rightarrow> int outcome) \<Rightarrow> int \<Rightarrow> value option \<Rightarrow> random \<Rightarrow> (value \<times> random) outcome" where
  "rb_f_srand entropy num2ulong safe arg r =
     (if safe \<ge> 4 then raise SecurityError
      else
        obind (case arg of
            None \<Rightarrow> return entropy
          | Some (Fixnum n) \<Rightarrow> return (word_of_int n)
          | Some (Bignum b) \<Rightarrow> obind (rb_big2ulong b) (\<lambda>n. return (word_of_int n))
          | Some v \<Rightarrow> obind (num2ulong v) (\<lambda>n. return (word_of_int n))) (\<lambda>seed.
        (let (old, r) = rand_init seed r in return (rb_uint2inum (uint old), r))))"

section \<open>Bounded numbers\<close>

fun bits :: "nat \<Rightarrow> nat" where
  "bits n = (if n = 0 then 0 else Suc (bits (n div 2)))"

declare bits.simps [simp del]

text \<open>A natural number as a \<open>double\<close>: 53 bits, rounded to the nearest, ties to even.\<close>

definition to_double :: "nat \<Rightarrow> nat" where
  "to_double n =
     (let k = bits n - 53; q = n div 2 ^ k; rest = n mod 2 ^ k in
      (if 2 * rest > 2 ^ k \<or> 2 * rest = 2 ^ k \<and> odd q then q + 1 else q) * 2 ^ k)"

datatype number = Random_real w32 | Random_int "value"

text \<open>\<open>((BDIGIT)~0) * rand\<close>: a product of 48 bits, exact as a \<open>double\<close>.\<close>

definition rand_digit :: "w32 \<Rightarrow> bdigit" where
  "rand_digit y = word_of_nat (to_double (65535 * unat y) div 2 ^ 32)"

definition rb_big_rand :: "rbignum \<Rightarrow> w32 list \<Rightarrow> number outcome" where
  "rb_big_rand limit rand_buf =
     (if BIGZEROP limit then (if rand_buf = [] then raise Undefined else return (Random_real (hd rand_buf)))
      else obind (rb_big_modulo \<lparr>sign = True, digits = map rand_digit rand_buf\<rparr> (Bignum limit)) (\<lambda>v. return (Random_int v)))"

text \<open>\<open>while (len--) buf[len] = genrand_real()\<close>: the buffer is filled from its end.\<close>

fun fill_rand :: "nat \<Rightarrow> w32 list \<Rightarrow> random \<Rightarrow> (w32 list \<times> random) outcome" where
  "fill_rand 0 buf r = return (buf, r)"
| "fill_rand (Suc len) buf r = obind (genrand_real r) (\<lambda>(y, r). fill_rand len (y # buf) r)"

text \<open>
  A limit that fits a \<open>long\<close>. The product is rounded as a \<open>double\<close> (scaled by \<open>2\<^sup>3\<^sup>2\<close>) and truncated;
  \<open>-max\<close> wraps.
\<close>

definition rand_product :: "int \<Rightarrow> w32 \<Rightarrow> int" where
  "rand_product m y = s32 (sgn m * (int (to_double (nat \<bar>m\<bar> * unat y)) div 2 ^ 32))"

definition rand_long :: "int \<Rightarrow> random \<Rightarrow> (number \<times> random) outcome" where
  "rand_long m r =
     (if m = 0 then obind (genrand_real r) (\<lambda>(y, r). return (Random_real y, r))
      else
        (let m = (if m < 0 then s32 (- m) else m) in
         obind (genrand_real r) (\<lambda>(y, r). return (Random_int (LONG2NUM (rand_product m y)), r))))"

definition rand_big :: "rbignum \<Rightarrow> random \<Rightarrow> (number \<times> random) outcome" where
  "rand_big b r =
     obind (fill_rand (length (digits b)) [] r) (\<lambda>(buf, r).
     obind (rb_big_rand b buf) (\<lambda>v. return (v, r)))"

text \<open>
  \<open>flo\<close> is what a \<open>Float\<close> object amounts to: a \<open>long\<close> in range, or the \<open>Bignum\<close> made by \<open>rb_dbl2big\<close>, or
  its exception. \<open>integer\<close> is \<open>rb_Integer\<close> on other objects.
\<close>

definition rb_f_rand :: "w32 \<Rightarrow> (nat \<Rightarrow> (int + rbignum) outcome) \<Rightarrow> (value \<Rightarrow> (int + rbignum) outcome) \<Rightarrow> value option \<Rightarrow> random \<Rightarrow>
    (number \<times> random) outcome" where
  "rb_f_rand entropy flo integer vmax r =
     (let r = (if first r then snd (rand_init entropy r) else r) in
      obind (case vmax of
          None \<Rightarrow> return (Inl 0)
        | Some (Fixnum n) \<Rightarrow> return (Inl n)
        | Some (Bignum b) \<Rightarrow> return (Inr b)
        | Some (Flo f) \<Rightarrow> flo f
        | Some v \<Rightarrow> integer v) (\<lambda>limit.
      case limit of Inl n \<Rightarrow> rand_long n r | Inr b \<Rightarrow> rand_big b r))"


section \<open>The recurrence\<close>

text \<open>The sequence that the generator is defined by, from the first 624 words.\<close>

function mt :: "w32 list \<Rightarrow> nat \<Rightarrow> w32" where
  "mt s n = (if n < 624 then s ! n else mt s (n - 227) XOR TWIST (mt s (n - 624)) (mt s (n - 623)))"
  by pat_completeness auto
termination by (relation "measure snd") auto

declare mt.simps [simp del]

lemma mt_rec: "mt s (n + 624) = mt s (n + 397) XOR TWIST (mt s n) (mt s (n + 1))"
  by (subst mt.simps) (simp add: add.commute)

definition block :: "w32 list \<Rightarrow> nat \<Rightarrow> w32 list" where
  "block s b = map (\<lambda>j. mt s (b + j)) [0 ..< 624]"

lemma block_0: "length s = 624 \<Longrightarrow> block s 0 = s"
  by (rule nth_equalityI) (simp_all add: block_def mt.simps)

text \<open>The array while it is rewritten: the first \<open>k\<close> words are new.\<close>

definition partial :: "w32 list \<Rightarrow> nat \<Rightarrow> nat \<Rightarrow> w32 list" where
  "partial s b k = map (\<lambda>j. mt s (b + (if j < k then 624 else 0) + j)) [0 ..< 624]"

lemma partial_nth: "j < 624 \<Longrightarrow> partial s b k ! j = mt s (b + (if j < k then 624 else 0) + j)"
  by (simp add: partial_def)

lemma partial_ends: "partial s b 0 = block s b" "partial s b 624 = block s (b + 624)"
  by (auto simp: partial_def block_def)

lemma partial_step: "k < 624 \<Longrightarrow> v = mt s (b + k + 624) \<Longrightarrow> (partial s b k)[k := v] = partial s b (Suc k)"
  by (rule nth_equalityI) (auto simp: partial_def nth_list_update add_ac less_Suc_eq)

lemma fold_partial:
  assumes "\<And>k. a \<le> k \<Longrightarrow> k < c \<Longrightarrow> f k (partial s b k) = partial s b (Suc k)"
  shows "a \<le> c \<Longrightarrow> fold f [a ..< c] (partial s b a) = partial s b c"
  using assms
proof (induction "c - a" arbitrary: a)
  case (Suc n)
  then have "a < c" by simp
  then show ?case using Suc.hyps(1)[of "Suc a"] Suc.hyps(2) Suc.prems by (simp add: upt_rec[of a])
qed simp

lemma next_state_block:
  assumes "initf r" "state r = block s b"
  shows "next_state r = r\<lparr>left := 624, next_state_ptr := Some 0, state := block s (b + 624)\<rparr>"
proof -
  let ?f = "\<lambda>p st. st[p := st ! (p + M) XOR TWIST (st ! p) (st ! (p + 1))]"
  let ?g = "\<lambda>p st. st[p := st ! (p + M - N) XOR TWIST (st ! p) (st ! (p + 1))]"
  have f: "fold ?f [0 ..< 227] (partial s b 0) = partial s b 227"
  proof (rule fold_partial)
    fix k :: nat assume "k < 227"
    then show "?f k (partial s b k) = partial s b (Suc k)"
      using mt_rec[of s "b + k"] by (intro partial_step) (simp_all add: partial_nth M_def add_ac)
  qed simp
  have g: "fold ?g [227 ..< 623] (partial s b 227) = partial s b 623"
  proof (rule fold_partial)
    fix k :: nat assume k: "227 \<le> k" "k < 623"
    have "partial s b k ! (k + M - N) = mt s (b + 624 + (k - 227))"
      using k by (subst partial_nth) (simp_all add: M_def N_def)
    moreover have "b + 624 + (k - 227) = b + k + 397" using k by simp
    ultimately have "partial s b k ! (k + M - N) XOR TWIST (partial s b k ! k) (partial s b k ! (k + 1)) = mt s (b + k + 624)"
      using mt_rec[of s "b + k"] k by (simp add: partial_nth)
    then show "?g k (partial s b k) = partial s b (Suc k)" using k by (intro partial_step) simp_all
  qed simp
  have last: "(partial s b 623)[623 := partial s b 623 ! (623 + M - N) XOR TWIST (partial s b 623 ! 623) (partial s b 623 ! 0)] = partial s b 624"
  proof -
    have "partial s b 623 ! (623 + M - N) = mt s (b + 623 + 397)" "partial s b 623 ! 623 = mt s (b + 623)" "partial s b 623 ! 0 = mt s (b + 623 + 1)"
      by (simp_all add: partial_nth M_def N_def add.commute)
    then show ?thesis using mt_rec[of s "b + 623"] partial_step[of 623 _ s b] by simp
  qed
  have "state r = partial s b 0" using assms(2) by (simp add: partial_ends)
  then show ?thesis
    using assms(1) f g last by (simp add: next_state_def N_def M_def partial_ends(2) Let_def del: upt_rec_numeral)
qed


text \<open>The generator after \<open>n\<close> numbers: \<open>b\<close> is where its array starts in the sequence.\<close>

definition produced :: "w32 list \<Rightarrow> nat \<Rightarrow> random \<Rightarrow> bool" where
  "produced s n r \<longleftrightarrow> initf r \<and> (\<exists>b i. 1 \<le> i \<and> i \<le> 624 \<and> b + i = 624 + n \<and> state r = block s b \<and>
     left r = 625 - int i \<and> (if n = 0 then i = 624 else next_state_ptr r = Some i))"

lemma genrand_produced:
  assumes "produced s n r"
  shows "\<exists>r'. genrand_real r = Inr (temper (mt s (624 + n)), r') \<and> produced s (Suc n) r' \<and> saved_seed r' = saved_seed r \<and> first r' = first r"
proof -
  obtain b i where r: "initf r" "1 \<le> i" "i \<le> 624" "b + i = 624 + n" "state r = block s b" "left r = 625 - int i"
      "if n = 0 then i = 624 else next_state_ptr r = Some i"
    using assms by (auto simp: produced_def)
  show ?thesis
  proof (cases "i = 624")
    case True
    let ?r = "r\<lparr>left := left r - 1\<rparr>"
    have "next_state ?r = ?r\<lparr>left := 624, next_state_ptr := Some 0, state := block s (b + 624)\<rparr>"
      using r by (intro next_state_block) simp_all
    moreover have "block s (b + 624) ! 0 = mt s (624 + n)" "length (block s (b + 624)) = 624"
      using True r(4) by (simp_all add: block_def add.commute)
    moreover have "b + 624 + 1 = 624 + Suc n" using True r(4) by simp
    ultimately show ?thesis using r True by (auto simp: genrand_real_def produced_def add.commute intro!: exI[of _ "b + 624"])
  next
    case False
    have "block s b ! i = mt s (624 + n)" "length (block s b) = 624" using r(3,4) False by (simp_all add: block_def)
    moreover have "n > 0" using r(7) False by (cases n) simp_all
    ultimately show ?thesis using r False by (auto simp: genrand_real_def produced_def intro!: exI[of _ b])
  qed
qed


section \<open>Seeding\<close>

fun seeded :: "w32 \<Rightarrow> nat \<Rightarrow> w32" where
  "seeded s 0 = s"
| "seeded s (Suc j) = 1812433253 * (seeded s j XOR drop_bit 30 (seeded s j)) + of_nat (Suc j)"

definition seed_words :: "w32 \<Rightarrow> w32 list" where
  "seed_words s = map (seeded s) [0 ..< 624]"

lemma init_word_nth: "j < length st \<Longrightarrow> init_word (Suc k) st ! j =
    (if j = Suc k then 1812433253 * (st ! k XOR drop_bit 30 (st ! k)) + of_nat (Suc k) else st ! j)"
  "length (init_word k st) = length st"
  by (simp_all add: init_word_def nth_list_update)

lemma fold_init_word:
  "length st = 624 \<Longrightarrow> k < 624 \<Longrightarrow>
   length (fold init_word [1 ..< Suc k] (st[0 := s])) = 624 \<and> (\<forall>j \<le> k. fold init_word [1 ..< Suc k] (st[0 := s]) ! j = seeded s j)"
proof (induction k)
  case (Suc k)
  let ?st = "fold init_word [1 ..< Suc k] (st[0 := s])"
  have IH: "length ?st = 624" "\<forall>j \<le> k. ?st ! j = seeded s j" using Suc by simp_all
  have "fold init_word [1 ..< Suc (Suc k)] (st[0 := s]) = init_word (Suc k) ?st" by simp
  then show ?case using IH Suc.prems by (auto simp: init_word_nth le_Suc_eq simp del: upt_Suc)
qed simp

lemma init_genrand_state:
  assumes "length (state r) = 624"
  shows "state (init_genrand s r) = seed_words s"
  using fold_init_word[OF assms, of 623 s]
  by (intro nth_equalityI) (simp_all add: init_genrand_def N_def seed_words_def less_Suc_eq_le del: upt_Suc upt_rec_numeral)

lemma rand_init_produced:
  assumes "length (state r) = 624"
  shows "produced (seed_words s) 0 (snd (rand_init s r))"
proof -
  have "block (seed_words s) 0 = seed_words s" by (rule block_0) (simp add: seed_words_def)
  moreover have "state (snd (rand_init s r)) = seed_words s"
    using init_genrand_state[of "r\<lparr>first := False\<rparr>"] assms by (simp add: rand_init_def)
  ultimately show ?thesis by (auto simp: produced_def rand_init_def init_genrand_def)
qed

section \<open>Tempering is invertible\<close>

lemma inj_shift_left:
  fixes m :: w32
  assumes "0 < k"
  shows "inj (\<lambda>y. y XOR (push_bit k y AND m))"
proof (rule injI)
  fix x y :: w32 assume eq: "x XOR (push_bit k x AND m) = y XOR (push_bit k y AND m)"
  have "bit x n = bit y n" if "n < 32" for n
    using that
  proof (induction n rule: less_induct)
    case (less n)
    have "bit (x XOR (push_bit k x AND m)) n = bit (y XOR (push_bit k y AND m)) n" by (simp only: eq)
    then show ?case using less.IH[of "n - k"] less.prems assms by (auto simp: bit_simps)
  qed
  then show "x = y" by (intro bit_word_eqI) simp
qed

lemma inj_shift_right:
  assumes "0 < k"
  shows "inj (\<lambda>y :: w32. y XOR drop_bit k y)"
proof (rule injI)
  fix x y :: w32 assume eq: "x XOR drop_bit k x = y XOR drop_bit k y"
  have "bit x n = bit y n" if "n < 32" for n
    using that
  proof (induction "32 - n" arbitrary: n rule: less_induct)
    case less
    have eq': "bit (x XOR drop_bit k x) n = bit (y XOR drop_bit k y) n" by (simp only: eq)
    have "bit x (k + n) = bit y (k + n)"
    proof (cases "k + n < 32")
      case True
      then show ?thesis using less.hyps[of "k + n"] assms less.prems by simp
    next
      case False
      then show ?thesis using bit_imp_le_length[of x "k + n"] bit_imp_le_length[of y "k + n"] by auto
    qed
    then show ?case using eq' by (auto simp: bit_simps)
  qed
  then show "x = y" by (intro bit_word_eqI) simp
qed

lemma inj_temper: "inj temper"
proof -
  have "temper = (\<lambda>y. y XOR drop_bit 18 y) \<circ> (\<lambda>y. y XOR (push_bit 15 y AND 0xefc60000)) \<circ>
      (\<lambda>y. y XOR (push_bit 7 y AND 0x9d2c5680)) \<circ> (\<lambda>y. y XOR drop_bit 11 y)"
    by (simp add: fun_eq_iff temper_def Let_def)
  moreover have "inj ((\<lambda>y :: w32. y XOR drop_bit 18 y) \<circ> (\<lambda>y. y XOR (push_bit 15 y AND 0xefc60000)) \<circ>
      (\<lambda>y. y XOR (push_bit 7 y AND 0x9d2c5680)) \<circ> (\<lambda>y. y XOR drop_bit 11 y))"
    by (intro inj_compose inj_shift_left inj_shift_right) simp_all
  ultimately show ?thesis by (simp only:)
qed

section \<open>Doubles\<close>

lemma bits_bounds: "n < 2 ^ bits n" "0 < n \<Longrightarrow> 2 ^ (bits n - 1) \<le> n"
proof (induction n rule: bits.induct)
  case (1 n)
  {
    case 1
    show ?case using "1.IH"(1) by (cases "n = 0") (subst bits.simps, simp)+
  next
    case 2
    show ?case
    proof (cases "n div 2 = 0")
      case True
      then have "n = 1" using 2 by simp
      then show ?thesis by (simp add: bits.simps)
    next
      case False
      then have "bits (n div 2) = Suc (bits (n div 2) - 1)" by (subst (1 2) bits.simps) simp
      then have "bits n - 1 = Suc (bits (n div 2) - 1)" using 2 by (subst bits.simps) simp
      then show ?thesis using "1.IH"(2) False 2 by simp
    qed
  }
qed

lemma to_double_exact: "n < 2 ^ 53 \<Longrightarrow> to_double n = n"
proof -
  assume n: "n < 2 ^ 53"
  have "bits n \<le> 53"
  proof (rule ccontr)
    assume "\<not> bits n \<le> 53"
    then have "53 \<le> bits n - 1" by simp
    then have "(2 :: nat) ^ 53 \<le> 2 ^ (bits n - 1)" by (rule power_increasing) simp
    moreover have "0 < n" using \<open>\<not> bits n \<le> 53\<close> by (cases n) (simp_all add: bits.simps[of 0])
    ultimately show False using bits_bounds(2)[of n] n by simp
  qed
  then show ?thesis by (simp add: to_double_def)
qed

text \<open>Rounding does not pass a number of 53 bits.\<close>

lemma to_double_le:
  assumes "n \<le> m * 2 ^ j" "m < 2 ^ 53"
  shows "to_double n \<le> m * 2 ^ j"
proof -
  let ?k = "bits n - 53"
  let ?q = "n div 2 ^ ?k"
  show ?thesis
  proof (cases "?k = 0")
    case True
    then show ?thesis using assms(1) by (simp add: to_double_def)
  next
    case False
    then have pos: "0 < n" by (cases n) (simp_all add: bits.simps[of 0])
    have kj: "?k \<le> j"
    proof (rule ccontr)
      assume "\<not> ?k \<le> j"
      then have "53 + j \<le> bits n - 1" using False by linarith
      then have "(2 :: nat) ^ (53 + j) \<le> 2 ^ (bits n - 1)" by (rule power_increasing) simp
      then have "2 ^ 53 * 2 ^ j \<le> (2 :: nat) ^ (bits n - 1)" by (simp only: power_add)
      also have "\<dots> \<le> n" using bits_bounds(2)[OF pos] .
      also have "\<dots> < 2 ^ 53 * 2 ^ j" using assms by (metis mult_less_cancel2 order_le_less_trans zero_less_numeral zero_less_power)
      finally show False by simp
    qed
    then have split: "m * 2 ^ j = (m * 2 ^ (j - ?k)) * 2 ^ ?k" by (simp add: mult.assoc flip: power_add)
    have "?q * 2 ^ ?k \<le> m * 2 ^ j" using assms(1) by (metis div_times_less_eq_dividend le_trans)
    moreover have "(?q + 1) * 2 ^ ?k \<le> m * 2 ^ j" if "n mod 2 ^ ?k \<noteq> 0"
    proof -
      have "?q * 2 ^ ?k < n" using that by (metis div_mult_mod_eq less_add_same_cancel1 gr0I)
      then have "?q * 2 ^ ?k < (m * 2 ^ (j - ?k)) * 2 ^ ?k" using assms(1) split by linarith
      then have "?q + 1 \<le> m * 2 ^ (j - ?k)" by simp
      then show ?thesis unfolding split by (rule mult_right_mono) simp
    qed
    moreover have "n mod 2 ^ ?k \<noteq> 0" if "2 * (n mod 2 ^ ?k) = 2 ^ ?k" using that by (cases "n mod 2 ^ ?k = 0") simp_all
    ultimately show ?thesis by (auto simp: to_double_def Let_def)
  qed
qed


lemma to_double_ge:
  assumes "m * 2 ^ j \<le> n" "m < 2 ^ 53"
  shows "m * 2 ^ j \<le> to_double n"
proof -
  let ?k = "bits n - 53"
  let ?q = "n div 2 ^ ?k"
  have "m * 2 ^ j \<le> ?q * 2 ^ ?k"
  proof (cases "?k \<le> j")
    case True
    then have split: "m * 2 ^ j = (m * 2 ^ (j - ?k)) * 2 ^ ?k" by (simp add: mult.assoc flip: power_add)
    have "m * 2 ^ (j - ?k) * 2 ^ ?k \<le> n" using assms(1) unfolding split .
    then have "m * 2 ^ (j - ?k) \<le> ?q" by (simp add: less_eq_div_iff_mult_less_eq)
    then show ?thesis unfolding split by (rule mult_right_mono) simp
  next
    case False
    then have pos: "0 < n" by (cases n) (simp_all add: bits.simps[of 0])
    have "2 ^ 52 * 2 ^ ?k = (2 :: nat) ^ (bits n - 1)" using False by (simp only: power_add[symmetric]) (rule arg_cong[of _ _ "(^) 2"], linarith)
    also have "\<dots> \<le> n" using bits_bounds(2)[OF pos] .
    finally have q: "2 ^ 52 \<le> ?q" by (simp add: less_eq_div_iff_mult_less_eq)
    have "m * 2 ^ j \<le> 2 ^ 53 * 2 ^ j" using assms(2) by (intro mult_right_mono) simp_all
    also have "\<dots> = 2 ^ (53 + j)" by (simp only: power_add)
    also have "\<dots> \<le> 2 ^ (52 + ?k)" by (rule power_increasing) (use False in simp_all)
    also have "\<dots> = 2 ^ 52 * 2 ^ ?k" by (simp only: power_add)
    also have "\<dots> \<le> ?q * 2 ^ ?k" using q by (rule mult_right_mono) simp
    finally show ?thesis .
  qed
  also have "\<dots> \<le> to_double n" by (simp add: to_double_def Let_def)
  finally show ?thesis .
qed

lemma rand_digit_bound: "uint (rand_digit y) \<le> 65534"
proof -
  have y: "unat y < 2 ^ 32" using unsigned_less[of y, where ?'a = nat] by simp
  then have "65535 * unat y < 65535 * 2 ^ 32" by simp
  then have d: "to_double (65535 * unat y) = 65535 * unat y" by (intro to_double_exact) simp
  have "65535 * unat y div 2 ^ 32 < 65535" using y by (intro less_mult_imp_div_less) simp
  then show ?thesis unfolding rand_digit_def d by (simp add: uint_nat unat_of_nat nat_less_iff)
qed

lemma rand_digit_top: "rand_digit y = 65535 \<Longrightarrow> False"
  using rand_digit_bound[of y] by simp

lemma rand_product_bound:
  assumes "0 < m" "m < 2 ^ 31"
  shows "0 \<le> rand_product m y \<and> rand_product m y < m"
proof -
  let ?m = "nat m" and ?j = "bits (nat m) - 1"
  have y: "unat y < 2 ^ 32" using unsigned_less[of y, where ?'a = nat] by simp
  have m: "0 < ?m" "?m < 2 ^ 31" using assms by (simp_all add: nat_less_iff)
  have bits: "2 ^ ?j \<le> ?m" "?m < 2 ^ bits ?m" using bits_bounds[of ?m] m(1) by simp_all
  have "(2 :: nat) ^ ?j < 2 ^ 31" using bits(1) m(2) by linarith
  then have j: "?j < 31" by (rule power_less_imp_less_exp[rotated]) simp
  have "bits ?m \<noteq> 0" using bits(2) m(1) by (cases "bits ?m") simp_all
  then have top: "?m < 2 ^ Suc ?j" using bits(2) by simp
  have "(2 :: nat) ^ (32 - ?j) * 2 ^ ?j = 2 ^ 32" using j by (simp flip: power_add)
  then have whole: "?m * 2 ^ (32 - ?j) * 2 ^ ?j = ?m * 2 ^ 32" by (simp only: mult.assoc)
  have "?m * unat y + 2 ^ ?j \<le> ?m * unat y + ?m" using bits(1) by simp
  also have "\<dots> = ?m * Suc (unat y)" by simp
  also have "\<dots> \<le> ?m * 2 ^ 32" using y by (intro mult_left_mono) simp_all
  finally have sum: "?m * unat y + 2 ^ ?j \<le> ?m * 2 ^ 32" .
  have less: "(?m * 2 ^ (32 - ?j) - 1) * 2 ^ ?j = ?m * 2 ^ 32 - 2 ^ ?j" using whole by (simp only: diff_mult_distrib mult_1)
  have "?m * unat y \<le> (?m * 2 ^ (32 - ?j) - 1) * 2 ^ ?j" unfolding less using sum by linarith
  moreover have "?m * 2 ^ (32 - ?j) - 1 < 2 ^ 53"
  proof -
    have "?m * 2 ^ (32 - ?j) < 2 ^ Suc ?j * 2 ^ (32 - ?j)" using top by (intro mult_strict_right_mono) simp_all
    also have "\<dots> = 2 ^ 33" using j by (simp flip: power_add)
    finally show ?thesis by simp
  qed
  ultimately have "to_double (?m * unat y) \<le> (?m * 2 ^ (32 - ?j) - 1) * 2 ^ ?j" by (rule to_double_le)
  also have "\<dots> < ?m * 2 ^ 32" unfolding less using m(1) by simp
  finally have d: "to_double (?m * unat y) div 2 ^ 32 < ?m" by (intro less_mult_imp_div_less)
  then have "int (to_double (?m * unat y) div 2 ^ 32) < m" using assms(1) by linarith
  moreover have "rand_product m y = int (to_double (?m * unat y) div 2 ^ 32)"
    unfolding rand_product_def using assms calculation by (subst s32_id) simp_all
  ultimately show ?thesis by simp
qed

section \<open>Numbers for a limit\<close>

definition wf_random :: "random \<Rightarrow> bool" where
  "wf_random r \<longleftrightarrow> length (state r) = 624 \<and> (first r \<or> (\<exists>s n. produced s n r))"

lemma produced_length: "produced s n r \<Longrightarrow> length (state r) = 624"
  by (auto simp: produced_def block_def)

lemma genrand_wf:
  assumes "wf_random r" "\<not> first r"
  obtains y r' where "genrand_real r = Inr (y, r')" "wf_random r'" "\<not> first r'"
proof -
  obtain s n where "produced s n r" using assms by (auto simp: wf_random_def)
  then obtain r' where "genrand_real r = Inr (temper (mt s (624 + n)), r')" "produced s (Suc n) r'" "first r' = first r"
    using genrand_produced by blast
  then show ?thesis using assms(2) that produced_length by (auto simp: wf_random_def)
qed

lemma started_wf:
  assumes "wf_random r"
  shows "wf_random (if first r then snd (rand_init e r) else r) \<and> \<not> first (if first r then snd (rand_init e r) else r)"
proof (cases "first r")
  case True
  have p: "produced (seed_words e) 0 (snd (rand_init e r))" using assms by (intro rand_init_produced) (simp add: wf_random_def)
  moreover have "\<not> first (snd (rand_init e r))" by (simp add: rand_init_def init_genrand_def)
  ultimately show ?thesis using True produced_length[OF p] by (auto simp: wf_random_def)
qed (use assms in simp)

lemma fill_rand_wf:
  "wf_random r \<Longrightarrow> \<not> first r \<Longrightarrow> \<exists>buf' r'. fill_rand n buf r = Inr (buf', r') \<and> length buf' = n + length buf \<and> wf_random r' \<and> \<not> first r'"
proof (induction n arbitrary: buf r)
  case (Suc n)
  obtain y r' where y: "genrand_real r = Inr (y, r')" "wf_random r'" "\<not> first r'" using genrand_wf[OF Suc.prems] by blast
  then show ?case using Suc.IH[OF y(2,3), of "y # buf"] by auto
qed simp

lemma rb_big_rand_correct:
  assumes "big_ok b" "sign b" "length buf = length (digits b)"
  shows "\<exists>v. rb_big_rand b buf = Inr (Random_int v) \<and> int_result (Inr v) (digs_val (map rand_digit buf) mod big_val b)"
proof -
  let ?x = "\<lparr>sign = True, digits = map rand_digit buf\<rparr>"
  have op: "big_op b" using assms(1) by (rule big_ok_op)
  have ne: "digits b \<noteq> []" "last (digits b) \<noteq> 0" using assms(1) by (simp_all add: big_ok_def)
  then have buf: "buf \<noteq> []" using assms(3) by auto
  have val: "big_val b \<noteq> 0" using assms(1) by (auto simp: big_ok_def fixable_defs)
  then have z: "\<not> BIGZEROP b" using big_val_0_iff[OF op] by simp
  have x: "big_val ?x = digs_val (map rand_digit buf)" by (simp add: big_val_def)
  have run: "rb_big_rand b buf = obind (bigdivmod ?x b) (\<lambda>(d, m). Inr (Random_int (bignorm (Bignum m))))"
    using z by (cases "bigdivmod ?x b") (auto simp: rb_big_rand_def rb_big_modulo_def big_operand_coerce_def)
  show ?thesis
  proof (cases "last (digits ?x) \<noteq> 0 \<or> length buf = 1")
    case True
    then have "big_op ?x" using buf by (simp add: big_op_def)
    then obtain d m where dm: "bigdivmod ?x b = Inr (d, m)" "big_val m = big_val ?x mod big_val b"
      using bigdivmod_correct[OF _ op val] by blast
    then show ?thesis using run int_result_bignorm[OF dm(2)] x by auto
  next
    case False
    then have "last (map rand_digit buf) = 0" by simp
    moreover have "0 < last (digits b)" using ne(2) by (simp add: word_neq_0_conv)
    ultimately have "last (digits ?x) < last (digits b)" by simp
    then have "bigdivrem ?x b = Inr (rb_int2big 0, ?x)" using z assms(3) unfolding bigdivrem_def Let_def by simp
    then have r: "bigdivmod ?x b = Inr (rb_int2big 0, ?x)" using assms(2) by (simp add: bigdivmod_def)
    have "digs_val (map rand_digit buf) < digs_val (digits b)"
    proof -
      have e: "map rand_digit buf = butlast (map rand_digit buf) @ [0]" using False buf by (metis append_butlast_last_id list.map_disc_iff rbignum.select_convs(2))
      have "digs_val (map rand_digit buf) = digs_val (butlast (map rand_digit buf))" by (subst e) (simp add: digs_val_append)
      also have "\<dots> < 65536 ^ (length (digits b) - 1)" using digs_val_less[of "butlast (map rand_digit buf)"] assms(3) by simp
      also have "\<dots> \<le> digs_val (digits b)" using ne by (rule digs_val_ge)
      finally show ?thesis .
    qed
    then have "digs_val (map rand_digit buf) mod big_val b = big_val ?x" using assms(2) by (simp add: big_val_def mod_pos_pos_trivial)
    then show ?thesis using run r int_result_bignorm[of ?x] by auto
  qed
qed

text \<open>
  A negative limit: the remainder has its sign. A draw of zeros only is not recognised as zero by
  \<open>BIGZEROP\<close>, so the limit is added to it, and the result is the limit itself.
\<close>

lemma rb_big_rand_negative:
  assumes "big_ok b" "\<not> sign b" "length buf = length (digits b)"
  shows "\<exists>v. rb_big_rand b buf = Inr (Random_int v) \<and>
    int_result (Inr v) (if digs_val (map rand_digit buf) = 0 then big_val b else digs_val (map rand_digit buf) mod big_val b)"
proof -
  let ?x = "\<lparr>sign = True, digits = map rand_digit buf\<rparr>" and ?v = "digs_val (map rand_digit buf)"
  have op: "big_op b" using assms(1) by (rule big_ok_op)
  have ne: "digits b \<noteq> []" "last (digits b) \<noteq> 0" using assms(1) by (simp_all add: big_ok_def)
  have long: "1 < length (digits b)"
  proof (rule ccontr)
    assume "\<not> 1 < length (digits b)"
    then obtain d where "digits b = [d]" using ne(1) by (cases "digits b") auto
    then show False
      using assms(1,2) uint16_bounds[of d] by (auto simp: big_ok_def big_val_def fixable_defs)
  qed
  then have buf: "buf \<noteq> []" using assms(3) by auto
  have val: "big_val b \<noteq> 0" using assms(1) by (auto simp: big_ok_def fixable_defs)
  then have z: "\<not> BIGZEROP b" using big_val_0_iff[OF op] by simp
  have x: "big_val ?x = ?v" by (simp add: big_val_def)
  have run: "rb_big_rand b buf = obind (bigdivmod ?x b) (\<lambda>(d, m). Inr (Random_int (bignorm (Bignum m))))"
    using z by (cases "bigdivmod ?x b") (auto simp: rb_big_rand_def rb_big_modulo_def big_operand_coerce_def)
  show ?thesis
  proof (cases "last (map rand_digit buf) = 0")
    case False
    then have "big_op ?x" "?v \<noteq> 0" using buf digs_val_pos[of "map rand_digit buf"] by (simp_all add: big_op_def)
    then obtain d m where dm: "bigdivmod ?x b = Inr (d, m)" "big_val m = big_val ?x mod big_val b"
      using bigdivmod_correct[OF _ op val] by blast
    then show ?thesis using run int_result_bignorm[OF dm(2)] x \<open>?v \<noteq> 0\<close> by auto
  next
    case True
    moreover have "0 < last (digits b)" using ne(2) by (simp add: word_neq_0_conv)
    ultimately have "last (digits ?x) < last (digits b)" by simp
    then have "bigdivrem ?x b = Inr (rb_int2big 0, ?x)" using z assms(3) unfolding bigdivrem_def Let_def by simp
    moreover have "\<not> BIGZEROP ?x" using long assms(3) by (auto simp: BIGZEROP_def)
    ultimately have r: "bigdivmod ?x b = Inr (bigadd (rb_int2big 0) (rb_int2big 1) False, bigadd ?x b True)"
      using assms(2) by (simp add: bigdivmod_def)
    have sum: "big_val (bigadd ?x b True) = ?v + big_val b"
      using bigadd_val[of ?x True b] assms(3) x by (simp add: len_order_def)
    have "?v < - big_val b"
    proof -
      have e: "map rand_digit buf = butlast (map rand_digit buf) @ [0]"
        using True buf by (metis append_butlast_last_id list.map_disc_iff)
      have "?v = digs_val (butlast (map rand_digit buf))" by (subst e) (simp add: digs_val_append)
      also have "\<dots> < 65536 ^ (length (digits b) - 1)" using digs_val_less[of "butlast (map rand_digit buf)"] assms(3) by simp
      also have "\<dots> \<le> digs_val (digits b)" using ne by (rule digs_val_ge)
      finally show ?thesis using assms(2) by (simp add: big_val_def)
    qed
    then have "?v mod big_val b = ?v + big_val b" if "?v \<noteq> 0"
    proof -
      have "0 < ?v" using that digs_val_nonneg[of "map rand_digit buf"] by linarith
      then have "(?v + big_val b) mod big_val b = ?v + big_val b"
        using \<open>?v < - big_val b\<close> by (intro mod_neg_neg_trivial) linarith+
      then show ?thesis by simp
    qed
    then have "(if ?v = 0 then big_val b else ?v mod big_val b) = ?v + big_val b" by simp
    then show ?thesis using run r int_result_bignorm[OF sum] by simp
  qed
qed

lemma digit_of_value: "i < length ds \<Longrightarrow> digs_val ds div 65536 ^ i mod 65536 = uint (ds ! i)"
proof (induction ds arbitrary: i)
  case (Cons d ds)
  have "(uint d + 65536 * digs_val ds) div 65536 = digs_val ds" "(uint d + 65536 * digs_val ds) mod 65536 = uint d"
    using add_mult_div_mod[of "uint d" 65536 "digs_val ds"] uint16_bounds[of d] by simp_all
  then show ?case using Cons by (cases i) (simp_all add: zdiv_zmult2_eq)
qed simp

lemma rand_power_digits:
  assumes "length buf = k + 1" "2 \<le> k"
  shows "\<exists>v j. rb_big_rand \<lparr>sign = True, digits = replicate k 0 @ [1]\<rparr> buf = Inr (Random_int v) \<and> int_result (Inr v) j \<and>
    (\<forall>i < k. j div 65536 ^ i mod 65536 \<noteq> 65535)"
proof -
  let ?b = "\<lparr>sign = True, digits = replicate k 0 @ [1]\<rparr>" and ?ds = "map rand_digit buf"
  have z: "digs_val (replicate k 0) = 0" by (induction k) simp_all
  then have b: "big_val ?b = 65536 ^ k" by (simp add: big_val_def digs_val_append)
  have "(65536 :: int) ^ 2 \<le> 65536 ^ k" using assms(2) by (intro power_increasing) simp_all
  then have ok: "big_ok ?b" using b by (simp add: big_ok_def fixable_defs)
  have "digs_val ?ds = digs_val (take k ?ds) + 65536 ^ k * digs_val (drop k ?ds)"
    using digs_val_append[of "take k ?ds" "drop k ?ds"] assms(1) by (simp add: min_absorb2)
  then have "digs_val ?ds mod 65536 ^ k = digs_val (take k ?ds)"
    using add_mult_div_mod(2)[of "digs_val (take k ?ds)" "65536 ^ k"] digs_val_less[of "take k ?ds"] assms(1)
      digs_val_nonneg[of "take k ?ds"] by (simp add: min_absorb2)
  then obtain v where v: "rb_big_rand ?b buf = Inr (Random_int v)" "int_result (Inr v) (digs_val (take k ?ds))"
    using rb_big_rand_correct[OF ok, of buf] assms(1) b by auto
  have "digs_val (take k ?ds) div 65536 ^ i mod 65536 \<noteq> 65535" if "i < k" for i
    using digit_of_value[of i "take k ?ds"] that assms(1) rand_digit_bound[of "buf ! i"] by simp
  then show ?thesis using v by blast
qed

text \<open>The \<open>long\<close> limit whose negation wraps.\<close>

lemma rand_long_min:
  assumes "genrand_real r = Inr (y, r')"
  shows "\<exists>k \<le> 0. rand_long (- 2147483648) r = Inr (Random_int (LONG2NUM k), r') \<and> - 2147483648 \<le> k \<and> (y \<ge> 0x80000000 \<longrightarrow> k < 0)"
proof -
  let ?q = "to_double (2147483648 * unat y) div 4294967296"
  have y: "unat y < 4294967296" using unsigned_less[of y, where ?'a = nat] by simp
  have "to_double (2147483648 * unat y) \<le> unat y * 2 ^ 31" by (rule to_double_le) (use y in simp_all)
  then have "?q \<le> 2147483648 * unat y div 4294967296" by (intro div_le_mono) simp
  also have "\<dots> < 2147483648" using y by (intro less_mult_imp_div_less) simp
  finally have q: "?q < 2147483648" .
  have p: "rand_product (- 2147483648) y = - int ?q"
    unfolding rand_product_def using q by (subst s32_id) simp_all
  have "s32 (- (- 2147483648)) = - 2147483648" by (simp add: s32_def)
  then have run: "rand_long (- 2147483648) r = Inr (Random_int (LONG2NUM (- int ?q)), r')"
    using assms p by (simp add: rand_long_def Let_def)
  show "\<exists>k \<le> 0. rand_long (- 2147483648) r = Inr (Random_int (LONG2NUM k), r') \<and> - 2147483648 \<le> k \<and> (y \<ge> 0x80000000 \<longrightarrow> k < 0)"
  proof (intro exI[of _ "- int ?q"] conjI impI)
    assume "y \<ge> 0x80000000"
    then have "2147483648 \<le> unat y" by (simp add: word_le_nat_alt)
    then have "1 * 2 ^ 32 \<le> to_double (2147483648 * unat y)" by (intro to_double_ge) simp_all
    then have "1 \<le> ?q" by (simp add: less_eq_div_iff_mult_less_eq)
    then show "- int ?q < 0" by simp
  qed (use run q in simp_all)
qed


section \<open>Properties\<close>

fun genrands :: "nat \<Rightarrow> random \<Rightarrow> (w32 list \<times> random) outcome" where
  "genrands 0 r = Inr ([], r)"
| "genrands (Suc n) r = obind (genrand_real r) (\<lambda>(y, r). obind (genrands n r) (\<lambda>(ys, r). Inr (y # ys, r)))"

lemma genrands_produced:
  "produced s k r \<Longrightarrow> \<exists>r'. genrands n r = Inr (map (\<lambda>j. temper (mt s (624 + j))) [k ..< k + n], r') \<and> produced s (k + n) r' \<and>
     saved_seed r' = saved_seed r \<and> first r' = first r"
proof (induction n arbitrary: k r)
  case (Suc n)
  obtain r1 where r1: "genrand_real r = Inr (temper (mt s (624 + k)), r1)" "produced s (Suc k) r1" "saved_seed r1 = saved_seed r" "first r1 = first r"
    using genrand_produced[OF Suc.prems] by blast
  obtain r' where "genrands n r1 = Inr (map (\<lambda>j. temper (mt s (624 + j))) [Suc k ..< Suc k + n], r')" "produced s (Suc k + n) r'"
      "saved_seed r' = saved_seed r1" "first r' = first r1"
    using Suc.IH[OF r1(2)] by blast
  then show ?case using r1 by (simp add: upt_conv_Cons del: upt_Suc)
qed auto

lemma word_of_int_neg_neq:
  assumes "FIXABLE k" "k \<noteq> 0"
  shows "(word_of_int (- k) :: w32) \<noteq> word_of_int k"
proof
  assume "(word_of_int (- k) :: w32) = word_of_int k"
  then have "(- k) mod 4294967296 = k mod 4294967296"
    unfolding word_of_int_eq_iff by (simp add: take_bit_eq_mod)
  then have "4294967296 dvd - k - k" by (simp add: mod_eq_dvd_iff)
  then show False using assms zdvd_imp_le[of 4294967296 "\<bar>- k - k\<bar>"] by (auto simp: fixable_defs)
qed

text \<open>
  C16. After \<open>srand(k)\<close> for a fixnum \<open>k\<close> the generator produces, for ever and whatever happened before,
  the tempered words of the sequence of the Mersenne twister: \<open>x(n + 624) = x(n + 397) XOR TWIST(x(n), x(n + 1))\<close>
  from the seed's 624 words. No access leaves the state array. Tempering loses nothing, and \<open>srand\<close> returns the
  seed before. The seed is \<open>k\<close> modulo \<open>2\<^sup>3\<^sup>2\<close>: the comment above \<open>rb_f_srand\<close> promises the absolute value of
  the number and the time for zero, but \<open>k\<close> and \<open>- k\<close> give different seeds, and for zero the sequence does not
  depend on the time (\<open>entropy\<close>).
\<close>

theorem mt_refines:
  assumes "length (state r) = 624" "safe < 4"
  shows "\<exists>r0 r'. (\<forall>entropy. rb_f_srand entropy conv safe (Some (Fixnum k)) r = Inr (rb_uint2inum (uint (saved_seed r)), r0)) \<and>
    genrands n r0 = Inr (map (\<lambda>j. temper (mt (seed_words (word_of_int k)) (624 + j))) [0 ..< n], r') \<and>
    (\<exists>r''. rb_f_srand e conv safe (Some (Fixnum k')) r' = Inr (rb_uint2inum (uint (word_of_int k :: w32)), r'')) \<and>
    (FIXABLE k \<and> k \<noteq> 0 \<longrightarrow> seed_words (word_of_int (- k)) ! 0 \<noteq> seed_words (word_of_int k) ! 0) \<and>
    (\<forall>s m. mt s (m + 624) = mt s (m + 397) XOR TWIST (mt s m) (mt s (m + 1))) \<and> inj temper"
proof -
  let ?s = "word_of_int k :: w32"
  let ?r0 = "snd (rand_init ?s r)"
  have srand: "rb_f_srand e conv safe (Some (Fixnum k)) r = Inr (rb_uint2inum (uint (saved_seed r)), snd (rand_init (word_of_int k) r))" for e k r
    using assms(2) by (simp add: rb_f_srand_def rand_init_def)
  obtain r' where r': "genrands n ?r0 = Inr (map (\<lambda>j. temper (mt (seed_words ?s) (624 + j))) [0 ..< 0 + n], r')" "saved_seed r' = saved_seed ?r0"
    using genrands_produced[OF rand_init_produced[OF assms(1)]] by blast
  have "saved_seed ?r0 = ?s" by (simp add: rand_init_def)
  then have "\<exists>r''. rb_f_srand e conv safe (Some (Fixnum k')) r' = Inr (rb_uint2inum (uint ?s), r'')" using srand[of e k' r'] r'(2) by simp
  moreover have "FIXABLE k \<and> k \<noteq> 0 \<longrightarrow> seed_words (word_of_int (- k)) ! 0 \<noteq> seed_words (word_of_int k) ! 0"
    using word_of_int_neg_neq[of k] by (simp add: seed_words_def)
  ultimately show ?thesis using srand[of _ k r] r'(1) mt_rec inj_temper by (intro exI[of _ ?r0] exI[of _ r']) simp
qed

theorem mt_refines_witness:
  "\<exists>r0 y r'. (\<forall>entropy. rb_f_srand entropy (\<lambda>_. Inl Coerce) 0 (Some (Fixnum 0)) \<lparr>state = replicate 624 0, left = 1, initf = False, next_state_ptr = None, saved_seed = 7, first = True\<rparr>
      = Inr (Fixnum 7, r0)) \<and> genrands 1 r0 = Inr ([y], r')"
proof -
  let ?r = "\<lparr>state = replicate 624 0, left = 1, initf = False, next_state_ptr = None, saved_seed = 7, first = True\<rparr>"
  have "rb_uint2inum (uint (saved_seed ?r)) = Fixnum 7" by code_simp
  then show ?thesis
    using mt_refines[where r = ?r and safe = 0 and conv = "\<lambda>_. Inl Coerce" and k = 0 and n = 1 and e = 0 and k' = 0] by simp blast
qed

text \<open>
  C17. \<open>rand\<close> with a limit: for a fixnum that is not zero the result is a fixnum from zero to below its
  absolute value, rounding of the product included; for a positive \<open>Bignum\<close> it is an integer object from
  zero to below it; for nil or zero a real below one. The generator starts itself when no seed was set.
\<close>

theorem rand_bounded:
  assumes "wf_random r" "FIXABLE m" "m \<noteq> 0" "big_ok b" "sign b"
  shows "(\<exists>k r'. rb_f_rand e flo integer (Some (Fixnum m)) r = Inr (Random_int (Fixnum k), r') \<and> 0 \<le> k \<and> k < \<bar>m\<bar> \<and> wf_random r') \<and>
    (\<exists>v k r'. rb_f_rand e flo integer (Some (Bignum b)) r = Inr (Random_int v, r') \<and> int_result (Inr v) k \<and> 0 \<le> k \<and> k < big_val b \<and> wf_random r') \<and>
    (\<exists>y r'. rb_f_rand e flo integer None r = Inr (Random_real y, r') \<and> wf_random r') \<and>
    rb_f_rand e flo integer (Some (Fixnum 0)) r = rb_f_rand e flo integer None r"
proof (intro conjI)
  define r0 where "r0 = (if first r then snd (rand_init e r) else r)"
  have r0: "wf_random r0" "\<not> first r0" using started_wf[OF assms(1), of e] by (simp_all add: r0_def)
  obtain y r1 where y: "genrand_real r0 = Inr (y, r1)" "wf_random r1" using genrand_wf[OF r0] by blast
  show "\<exists>y r'. rb_f_rand e flo integer None r = Inr (Random_real y, r') \<and> wf_random r'"
    using y by (simp add: rb_f_rand_def rand_long_def r0_def)
  show "rb_f_rand e flo integer (Some (Fixnum 0)) r = rb_f_rand e flo integer None r" by (simp add: rb_f_rand_def)
  have m: "\<bar>m\<bar> < 2 ^ 31" using assms(2) by (auto simp: fixable_defs)
  then have abs: "(if m < 0 then s32 (- m) else m) = \<bar>m\<bar>" by (simp add: s32_id)
  have k: "0 \<le> rand_product \<bar>m\<bar> y" "rand_product \<bar>m\<bar> y < \<bar>m\<bar>" using rand_product_bound[of "\<bar>m\<bar>" y] assms(3) m by simp_all
  then have "FIXABLE (rand_product \<bar>m\<bar> y)" using assms(2) by (auto simp: fixable_defs)
  then have "rand_long m r0 = Inr (Random_int (Fixnum (rand_product \<bar>m\<bar> y)), r1)"
    using y(1) assms(3) abs unfolding rand_long_def Let_def by (simp add: rb_int2inum_def LONG2FIX_id)
  then show "\<exists>k r'. rb_f_rand e flo integer (Some (Fixnum m)) r = Inr (Random_int (Fixnum k), r') \<and> 0 \<le> k \<and> k < \<bar>m\<bar> \<and> wf_random r'"
    using k y(2) by (simp add: rb_f_rand_def r0_def)
  obtain buf r2 where buf: "fill_rand (length (digits b)) [] r0 = Inr (buf, r2)" "length buf = length (digits b)" "wf_random r2"
    using fill_rand_wf[OF r0, of "length (digits b)" "[]"] by auto
  obtain v where v: "rb_big_rand b buf = Inr (Random_int v)" "int_result (Inr v) (digs_val (map rand_digit buf) mod big_val b)"
    using rb_big_rand_correct[OF assms(4,5) buf(2)] by blast
  have "0 < big_val b" using assms(4,5) digs_val_pos[of "digits b"] by (simp add: big_ok_def big_val_def)
  then show "\<exists>v k r'. rb_f_rand e flo integer (Some (Bignum b)) r = Inr (Random_int v, r') \<and> int_result (Inr v) k \<and> 0 \<le> k \<and> k < big_val b \<and> wf_random r'"
    using v buf by (auto simp: rb_f_rand_def rand_big_def r0_def intro!: exI[of _ "digs_val (map rand_digit buf) mod big_val b"])
qed

theorem rand_bounded_witness:
  "\<exists>k r'. rb_f_rand 5 (\<lambda>_. Inl FloatDomainError) (\<lambda>_. Inl Coerce) (Some (Fixnum (- 6)))
      \<lparr>state = replicate 624 0, left = 1, initf = False, next_state_ptr = None, saved_seed = 0, first = True\<rparr> = Inr (Random_int (Fixnum k), r') \<and> 0 \<le> k \<and> k < 6"
proof -
  let ?r = "\<lparr>state = replicate 624 0, left = 1, initf = False, next_state_ptr = None, saved_seed = 0, first = True\<rparr>"
  let ?b = "\<lparr>sign = True, digits = [0, 0, 1]\<rparr>"
  have "wf_random ?r" "FIXABLE (- 6)" "(- 6 :: int) \<noteq> 0" "big_ok ?b" "sign ?b" by (simp_all add: wf_random_def fixable_defs big_ok_def big_val_def)
  then show ?thesis using rand_bounded[of ?r "- 6" ?b 5 "\<lambda>_. Inl FloatDomainError" "\<lambda>_. Inl Coerce"] by auto
qed

text \<open>
  C18. Where \<open>rand\<close> fails its description. A digit drawn for a \<open>Bignum\<close> is 65535 times a real below one and
  never 65535, so no result for a power of the radix as limit has that digit anywhere. For every negative
  \<open>Bignum\<close> as limit the result is not below zero but from the limit to zero: the remainder by the negative
  number, or the limit itself when all digits drawn are zero. For a \<open>Float\<close> that converts to the smallest
  \<open>long\<close>, the negation wraps and no result is positive.
\<close>

theorem rand_faults:
  assumes "length buf = k + 1" "2 \<le> k" "big_ok b" "\<not> sign b" "length nbuf = length (digits b)"
  shows "(\<forall>y. rand_digit y \<noteq> 65535) \<and>
    (\<exists>v j. rb_big_rand \<lparr>sign = True, digits = replicate k 0 @ [1]\<rparr> buf = Inr (Random_int v) \<and> int_result (Inr v) j \<and>
      (\<forall>i < k. j div 65536 ^ i mod 65536 \<noteq> 65535)) \<and>
    (\<exists>v j. rb_big_rand b nbuf = Inr (Random_int v) \<and> int_result (Inr v) j \<and> big_val b \<le> j \<and> j \<le> 0 \<and>
      j = (if digs_val (map rand_digit nbuf) = 0 then big_val b else digs_val (map rand_digit nbuf) mod big_val b)) \<and>
    (\<forall>r y r'. genrand_real r = Inr (y, r') \<longrightarrow>
      (\<exists>j \<le> 0. rand_long (- 2147483648) r = Inr (Random_int (LONG2NUM j), r') \<and> - 2147483648 \<le> j \<and> (y \<ge> 0x80000000 \<longrightarrow> j < 0)))"
proof (intro conjI)
  show "\<forall>y. rand_digit y \<noteq> 65535" using rand_digit_top by blast
  show "\<exists>v j. rb_big_rand \<lparr>sign = True, digits = replicate k 0 @ [1]\<rparr> buf = Inr (Random_int v) \<and> int_result (Inr v) j \<and>
      (\<forall>i < k. j div 65536 ^ i mod 65536 \<noteq> 65535)"
    by (rule rand_power_digits[OF assms(1,2)])
  let ?j = "if digs_val (map rand_digit nbuf) = 0 then big_val b else digs_val (map rand_digit nbuf) mod big_val b"
  have "big_val b < 0" using big_ok_sign[OF assms(3)] assms(4) by simp
  then have "big_val b \<le> ?j" "?j \<le> 0" by (simp_all add: order.strict_implies_order)
  then show "\<exists>v j. rb_big_rand b nbuf = Inr (Random_int v) \<and> int_result (Inr v) j \<and> big_val b \<le> j \<and> j \<le> 0 \<and> j = ?j"
    using rb_big_rand_negative[OF assms(3-5)] by blast
  show "\<forall>r y r'. genrand_real r = Inr (y, r') \<longrightarrow>
      (\<exists>j \<le> 0. rand_long (- 2147483648) r = Inr (Random_int (LONG2NUM j), r') \<and> - 2147483648 \<le> j \<and> (y \<ge> 0x80000000 \<longrightarrow> j < 0))"
    using rand_long_min by blast
qed

theorem rand_faults_witness:
  "(\<exists>v j. rb_big_rand \<lparr>sign = True, digits = replicate 2 0 @ [1]\<rparr> [0xffffffff, 0xffffffff, 0xffffffff] = Inr (Random_int v) \<and>
     int_result (Inr v) j \<and> (\<forall>i < 2. j div 65536 ^ i mod 65536 \<noteq> 65535)) \<and>
   (\<exists>v. rb_big_rand \<lparr>sign = False, digits = [0, 0, 1]\<rparr> [0x80000000, 0x80000000, 0x80000000] = Inr (Random_int v) \<and>
     int_result (Inr v) (- 2147516417)) \<and>
   (\<exists>v. rb_big_rand \<lparr>sign = False, digits = [0, 0, 1]\<rparr> [0, 0, 0] = Inr (Random_int v) \<and> int_result (Inr v) (- 4294967296))"
proof -
  let ?b = "\<lparr>sign = False, digits = [0, 0, 1]\<rparr>"
  have b: "big_ok ?b" "\<not> sign ?b"
    by (simp_all add: big_ok_def big_val_def fixable_defs)
  have buf: "length [0xffffffff, 0xffffffff, 0xffffffff :: w32] = 2 + 1" by simp
  have d: "rand_digit 0x80000000 = 32767" "rand_digit 0 = 0" by (simp_all add: rand_digit_def to_double_exact)
  show ?thesis
    using rand_faults[OF buf _ b(1,2), of "[0x80000000, 0x80000000, 0x80000000]"]
      rand_faults[OF buf _ b(1,2), of "[0, 0, 0]"]
    by (simp add: d big_val_def)
qed

end
