(* ===== verification/Spec2Isabelle.thy ===== *)
theory Spec2Isabelle
  imports St Numeric Bignum_Str RArray_Machine Pack_Text Pack_Ber Marshal_Total RString_Succ RArray_Sort Enumerable Rb_Random
begin

text \<open>
  Verification of the core of the OpenVMS port of the Ruby 1.8.2 interpreter (\<^verbatim>\<open>src/ruby\<close>).

  \<^bold>\<open>The program.\<close> The interpreter is a C program: a parser (\<^verbatim>\<open>parse.y\<close>) builds a tree that the
  evaluator (\<^verbatim>\<open>eval.c\<close>) walks; the values it computes with are tagged words, either immediate
  (fixnums, \<open>nil\<close>, symbols) or pointers to objects managed by the collector (\<^verbatim>\<open>gc.c\<close>). The built-in
  classes are one C file each. This development covers the data structures and the arithmetic that
  everything else stands on: the hash tables of \<^verbatim>\<open>st.c\<close>, which hold methods, variables and the
  contents of \<open>Hash\<close> objects; the integers, split between \<open>Fixnum\<close> (\<^verbatim>\<open>numeric.c\<close>) and \<open>Bignum\<close>
  (\<^verbatim>\<open>bignum.c\<close>) with \<open>Comparable\<close> (\<^verbatim>\<open>compar.c\<close>) on top; and the arrays of \<^verbatim>\<open>array.c\<close> with the
  ranges that index them (\<^verbatim>\<open>range.c\<close>).

  \<^bold>\<open>Machine.\<close> \<^verbatim>\<open>vms/config.h\<close> fixes \<open>short\<close> at 16 bits, \<open>int\<close>, \<open>long\<close> and pointers at 32 bits and
  has no \<open>long long\<close>; hence 16 bit digits of big numbers, 31 bit fixnums, and C arithmetic that wraps
  at 32 bits (\<open>u32\<close> and \<open>s32\<close> of \<open>Prelude\<close>). A raised exception, a branch into code outside the
  model and an access without meaning in C are values of \<open>rb_error\<close>; the last is \<open>Undefined\<close>.

  \<^bold>\<open>Theories.\<close>
  \<^item> \<open>Prelude\<close>: outcomes, C integers, shared lemmas.
  \<^item> \<open>St\<close> models \<^verbatim>\<open>st.c\<close>: \<open>st_table\<close> as a record of bins, each bin the list of its entries;
    every operation from \<open>st_init_table_with_size\<close> to \<open>st_foreach\<close>. The table refines a finite map
    for each hash function and equality that agree; rehashing, deferred deletion, copying and the
    traversal with deletion are covered.
  \<^item> \<open>Bignum\<close>, \<open>Bignum_Arith\<close>, \<open>Bignum_Div\<close>, \<open>Bignum_Bits\<close>, \<open>Bignum_Str\<close> model \<^verbatim>\<open>bignum.c\<close>: a number
    is a sign and a list of digits of type \<open>16 word\<close>, least significant first; \<open>big_val\<close> is the
    integer it stands for. Each operation returns the canonical object of the exact result:
    normalisation, conversion to and from \<open>long\<close>, comparison, sum, difference, product, power,
    Knuth's division, the bit operations on two's complement, shifts, and printing and parsing in
    every base. Where the C code fails (\<open>rb_big_neg\<close>, shifts by the smallest fixnum and by smaller counts,
    shifts of a negative number that push out all its digits, printing beyond the limit of the size
    estimate), the failure is part of the theorem.
  \<^item> \<open>Numeric\<close> models the integer methods of \<^verbatim>\<open>numeric.c\<close> and the relations of \<^verbatim>\<open>compar.c\<close>. The
    locales \<open>integer_op\<close>, \<open>commutative_op\<close> and \<open>spaceship\<close> state what a method promises on objects,
    and are interpreted on the methods of the model.
  \<^item> \<open>RArray\<close> models the storage of \<^verbatim>\<open>array.c\<close> over an explicit heap of blocks and objects, the
    allocation checks of \<^verbatim>\<open>gc.c\<close>, the copy-on-write scheme and the operations at both ends.
    \<open>heap_ok\<close> is the ownership discipline; \<open>updates m a h x vs\<close> says that \<open>m\<close> returns \<open>x\<close>, leaves
    \<open>vs\<close> in array \<open>a\<close>, keeps the discipline and changes no other array. The size checks of stores, and
    where they miss a product that has wrapped, are part of \<open>array_store_correct\<close>.
  \<^item> \<open>RArray_Slice\<close> models indexing, slices that share, splices in place, insertion and deletion; \<open>splices\<close>
    is the contract of a splice for every offset, length and size, \<open>rejects\<close> that of an operation that raises;
    \<open>RArray_More\<close> the operations on whole arrays.
  \<^item> \<open>RArray_Machine\<close> runs sequences of mutators: the heap machine is simulated by a machine that keeps
    one list per array, which fixes the answers and says which errors a step may raise. The locales \<open>container_end\<close> and \<open>deque\<close> state what the operations at the two
    ends promise to a client; they are interpreted on \<open>push\<close>, \<open>pop\<close>, \<open>shift\<close> and \<open>unshift\<close>.
  \<^item> \<open>Pack\<close>, \<open>Pack_Text\<close>, \<open>Pack_Ber\<close> model the text encodings of \<^verbatim>\<open>pack.c\<close> in both directions: UTF-8,
    uuencode, base64, quoted-printable and BER compressed integers, the last on top of the big number
    arithmetic. Each decoder undoes its encoder. The locale \<open>stream_codec\<close> of \<open>Codec\<close> says what a client
    of a decoder of item streams gets, and is interpreted on the directives \<open>U\<close> and \<open>w\<close>.
  \<^item> \<open>Marshal\<close>, \<open>Marshal_Graph\<close>, \<open>Marshal_Total\<close> model \<open>Marshal.dump\<close> and \<open>Marshal.load\<close> (\<^verbatim>\<open>marshal.c\<close>)
    on graphs of objects: a heap is a list of objects, a value is immediate or an address. The state of
    a dump is the output with the tables of symbols and objects, the state of a load the rest of the
    input with the same tables and the new heap. The classes of the running program and the regular
    expressions that compile are a parameter. A dumped graph comes back as an isomorphic one; what
    is loaded is well-formed for every input; a truncated string is read behind its end.
  \<^item> \<open>RString\<close> models the contents of strings (\<^verbatim>\<open>string.c\<close>): comparison and hashing, search with the
    rolling hash of \<open>rb_memsearch\<close> (\<^verbatim>\<open>re.c\<close>), substrings and replacement in place. \<open>RString_Succ\<close>
    models the successor and iteration with \<open>upto\<close>: strings count in a mixed base given by the kinds
    of their characters; the loop is a partial function, total for every start but the empty string.
  \<^item> \<open>QSort\<close> models \<open>ruby_qsort\<close> (\<^verbatim>\<open>util.c\<close>) with a comparison that carries the state of the program and may
    raise; \<open>QSort_Split\<close> proves one split, loop B as the mirror image of loop A, and \<open>QSort_Sort\<close> the whole
    sort. The locale \<open>compared\<close> is the contract of a comparison; \<open>RArray_Sort\<close> interprets it on the
    comparisons of \<open>Array#sort\<close>.
  \<^item> \<open>Enumerable\<close> models the module of that name (\<^verbatim>\<open>enum.c\<close>) for blocks with state and errors: each method is an iteration
    whose body may leave it, and equals a list function over the answers of the block.
  \<^item> \<open>Rb_Random\<close> models \<^verbatim>\<open>random.c\<close>: the state array of the Mersenne twister refines the recurrence that
    defines it; \<open>rand\<close> stays below its limit under the rounding of doubles.

  \<^bold>\<open>Bounds and fuel.\<close> Loops of the source that end by a counter are structural recursions or
  functions with a termination proof. Fuel occurs in \<open>Bignum_Div\<close> (15 normalising shifts suffice for
  a 16 bit digit, at most two digits are added back), in the mutual recursion of the shifts (at most
  two changes of direction) and in the counting loops of
  \<open>Numeric\<close> (the length of the interval), and bounds the depth of \<open>Marshal\<close> (the number of objects when
  dumping, of bytes when loading), where \<open>Too_deep\<close> says that it is used up; each time a theorem says
  that it suffices. Printing is proved up to the exact limit of the size estimate of each base
  (\<open>estimate_fits\<close>), and beyond it the theorem says what the code does; parsing for texts of at most
  300000000 characters, where the estimate does not wrap. \<open>array_store_correct\<close> and
  \<open>array_splice_correct\<close> cover every index and size; the remaining array theorems bound lengths by \<open>2\<^sup>2\<^sup>8\<close>.
  Dumps are read back up to \<open>2\<^sup>2\<^sup>9\<close> bytes.
  The outer loop of \<open>ruby_qsort\<close> and the loop of \<open>upto\<close> are partial functions proved to end.

  \<^bold>\<open>Not modelled.\<close> The evaluator, the parser, the collector, input and output, processes, the OpenVMS
  layer, floating point mathematics, and every method that calls back into Ruby code in ways that change the
  objects involved. A call of \<open>coerce\<close>, \<open>to_int\<close> or \<open>to_ary\<close> on a user object is the outcome \<open>Coerce\<close>,
  floating point continuation is \<open>Float_path\<close>. Memory is never exhausted in the model: \<open>malloc\<close>
  succeeds for every size that passes the checks of \<^verbatim>\<open>gc.c\<close>. The check of the size of a new big number
  is left out (it rejects results of \<open>2\<^sup>3\<^sup>0\<close> digits or more), and \<open>ruby_qsort\<close> works on a list, without the
  byte pointers and the \<open>int\<close> that counts the bytes of a region.
\<close>

end
